(* ===== verification/Prelude.thy ===== *)
theory Prelude
  imports Main "HOL-Library.Word"
begin

text \<open>
  What the components of the development share: the generic facts on lists
  addressed by a C \<open>int\<close> (a lookup that is NULL out of range, an insertion and a
  deletion by position) and the collections of rewrite rules the component
  theories add to.

  C's \<open>int\<close> positions are modelled as \<open>int\<close>, because the sources subtract from
  them and test the sign; \<open>nth_opt\<close> is total and returns \<open>None\<close> where the code
  returns NULL.
\<close>

section \<open>Lists addressed by an integer\<close>

definition nth_opt :: "'a list \<Rightarrow> int \<Rightarrow> 'a option" where
  "nth_opt xs i = (if 0 \<le> i \<and> i < int (length xs) then Some (xs ! nat i) else None)"

definition ins_at :: "int \<Rightarrow> 'a \<Rightarrow> 'a list \<Rightarrow> 'a list" where
  "ins_at i x xs = take (nat i) xs @ x # drop (nat i) xs"

definition del_at :: "int \<Rightarrow> 'a list \<Rightarrow> 'a list" where
  "del_at i xs = take (nat i) xs @ drop (Suc (nat i)) xs"

named_theorems at_simps \<open>positions in a list built from appended pieces\<close>

lemma nth_opt_Nil [at_simps]: "nth_opt [] i = None"
  by (simp add: nth_opt_def)

lemma nth_opt_neg [at_simps]: "i < 0 \<Longrightarrow> nth_opt xs i = None"
  by (simp add: nth_opt_def)

lemma nth_opt_big: "int (length xs) \<le> i \<Longrightarrow> nth_opt xs i = None"
  by (simp add: nth_opt_def)

lemma nth_opt_Cons [at_simps]:
  "nth_opt (x # xs) i = (if i = 0 then Some x else if i < 0 then None else nth_opt xs (i - 1))"
  by (auto simp: nth_opt_def nth_Cons' nat_diff_distrib)

lemma nth_opt_append [at_simps]:
  "nth_opt (xs @ ys) i =
     (if i < int (length xs) then nth_opt xs i else nth_opt ys (i - int (length xs)))"
  by (auto simp: nth_opt_def nth_append nat_diff_distrib)

lemma ins_at_append [at_simps]:
  "0 \<le> i \<Longrightarrow> ins_at i x (xs @ ys) =
     (if i \<le> int (length xs) then ins_at i x xs @ ys
      else xs @ ins_at (i - int (length xs)) x ys)"
  by (auto simp: ins_at_def nat_diff_distrib)

lemma ins_at_append_ge:
  "int (length xs) \<le> i \<Longrightarrow> ins_at i x (xs @ ys) = xs @ ins_at (i - int (length xs)) x ys"
  by (auto simp: ins_at_def nat_diff_distrib)

lemma ins_at_append_le:
  "i \<le> int (length xs) \<Longrightarrow> ins_at i x (xs @ ys) = ins_at i x xs @ ys"
  by (auto simp: ins_at_def nat_diff_distrib)

lemma ins_at_Cons [at_simps]:
  "0 \<le> i \<Longrightarrow> ins_at i x (y # ys) = (if i = 0 then x # y # ys else y # ins_at (i - 1) x ys)"
  by (auto simp: ins_at_def nat_diff_distrib take_Cons' drop_Cons')

lemma ins_at_0 [at_simps]: "ins_at 0 x xs = x # xs"
  by (simp add: ins_at_def)

lemma ins_at_end: "ins_at (int (length xs)) x xs = xs @ [x]"
  by (simp add: ins_at_def)

lemma ins_at_Nil [at_simps]: "ins_at i x [] = [x]"
  by (simp add: ins_at_def)

lemma del_at_append [at_simps]:
  "0 \<le> i \<Longrightarrow> del_at i (xs @ ys) =
     (if i < int (length xs) then del_at i xs @ ys else xs @ del_at (i - int (length xs)) ys)"
  by (auto simp: del_at_def nat_diff_distrib Suc_diff_le nat_less_iff)

lemma del_at_Cons [at_simps]:
  "0 \<le> i \<Longrightarrow> del_at i (y # ys) = (if i = 0 then ys else y # del_at (i - 1) ys)"
  by (auto simp: del_at_def nat_diff_distrib take_Cons' drop_Cons')

lemma length_ins_at [simp]: "length (ins_at i x xs) = Suc (length xs)"
  by (simp add: ins_at_def)

lemma length_del_at: "0 \<le> i \<Longrightarrow> i < int (length xs) \<Longrightarrow> length (del_at i xs) = length xs - 1"
  by (auto simp: del_at_def)

lemma set_ins_at [simp]: "set (ins_at i x xs) = insert x (set xs)"
proof -
  have "set xs = set (take (nat i) xs) \<union> set (drop (nat i) xs)"
    by (metis append_take_drop_id set_append)
  then show ?thesis by (auto simp: ins_at_def)
qed

lemma in_set_nth_opt: "x \<in> set xs \<longleftrightarrow> (\<exists>i. nth_opt xs i = Some x)"
proof
  assume "x \<in> set xs"
  then obtain n where "n < length xs" "xs ! n = x" by (auto simp: in_set_conv_nth)
  then show "\<exists>i. nth_opt xs i = Some x"
    by (intro exI [of _ "int n"]) (simp add: nth_opt_def)
qed (auto simp: nth_opt_def split: if_splits)

end
