(* ===== verification/Tree234.thy ===== *)
theory Tree234
  imports Prelude
begin

text \<open>
  The counted 2-3-4 trees of \<open>putty-src/tree234.c\<close>.

  A \<open>node234\<close> holds up to three elements, four kids and the element count of each
  kid. The code marks an unused slot by NULL and a zero count and tells the shape
  of a node from \<open>elems[1]\<close> and \<open>elems[2]\<close>; the datatype has one constructor for
  each shape, with the kids, the stored counts and the elements in slot order, and
  \<open>Nul\<close> for the NULL pointer. The \<open>parent\<close> pointers only serve to walk back up, so
  they are the recursion's return path here. A \<open>tree234\<close> pairs the root with the
  comparison function, \<open>None\<close> for an unsorted tree.

  Counts and indexes are C \<open>int\<close>s and are modelled as \<open>int\<close>; a tree of more
  than \<open>INT_MAX\<close> elements is outside the model. Where the C would follow a NULL
  pointer, read outside an array or fail an \<open>assert\<close>, the model's result is
  \<open>None\<close> (or \<open>Undef\<close> inside \<open>add234_internal\<close>), and the theorems show when that
  cannot happen.
\<close>

section \<open>Data\<close>

datatype 'a node234 =
    Nul
  | N2 "'a node234" int 'a "'a node234" int
  | N3 "'a node234" int 'a "'a node234" int 'a "'a node234" int
  | N4 "'a node234" int 'a "'a node234" int 'a "'a node234" int 'a "'a node234" int

record 'a tree234 =
  t_root :: "'a node234"
  t_cmp :: "('a \<Rightarrow> 'a \<Rightarrow> int) option"

definition newtree234 :: "('a \<Rightarrow> 'a \<Rightarrow> int) option \<Rightarrow> 'a tree234" where
  "newtree234 c = \<lparr>t_root = Nul, t_cmp = c\<rparr>"

text \<open>Slot access: \<open>n->kids[i]\<close>, \<open>n->counts[i]\<close>, \<open>n->elems[i]\<close> and the assignments to them.\<close>

definition kid :: "'a node234 \<Rightarrow> nat \<Rightarrow> 'a node234" where
  "kid n i = (case n of
      Nul \<Rightarrow> Nul
    | N2 a ca x b cb \<Rightarrow> (if i = 0 then a else if i = 1 then b else Nul)
    | N3 a ca x b cb y c cc \<Rightarrow>
        (if i = 0 then a else if i = 1 then b else if i = 2 then c else Nul)
    | N4 a ca x b cb y c cc z d cd \<Rightarrow>
        (if i = 0 then a else if i = 1 then b else if i = 2 then c
         else if i = 3 then d else Nul))"

definition counts :: "'a node234 \<Rightarrow> nat \<Rightarrow> int" where
  "counts n i = (case n of
      Nul \<Rightarrow> 0
    | N2 a ca x b cb \<Rightarrow> (if i = 0 then ca else if i = 1 then cb else 0)
    | N3 a ca x b cb y c cc \<Rightarrow>
        (if i = 0 then ca else if i = 1 then cb else if i = 2 then cc else 0)
    | N4 a ca x b cb y c cc z d cd \<Rightarrow>
        (if i = 0 then ca else if i = 1 then cb else if i = 2 then cc
         else if i = 3 then cd else 0))"

definition elem :: "'a node234 \<Rightarrow> nat \<Rightarrow> 'a option" where
  "elem n i = (case n of
      Nul \<Rightarrow> None
    | N2 a ca x b cb \<Rightarrow> (if i = 0 then Some x else None)
    | N3 a ca x b cb y c cc \<Rightarrow> (if i = 0 then Some x else if i = 1 then Some y else None)
    | N4 a ca x b cb y c cc z d cd \<Rightarrow>
        (if i = 0 then Some x else if i = 1 then Some y else if i = 2 then Some z else None))"

definition set_kid :: "'a node234 \<Rightarrow> nat \<Rightarrow> 'a node234 \<Rightarrow> int \<Rightarrow> 'a node234" where
  "set_kid n i k ck = (case n of
      Nul \<Rightarrow> Nul
    | N2 a ca x b cb \<Rightarrow> (if i = 0 then N2 k ck x b cb else N2 a ca x k ck)
    | N3 a ca x b cb y c cc \<Rightarrow>
        (if i = 0 then N3 k ck x b cb y c cc else if i = 1 then N3 a ca x k ck y c cc
         else N3 a ca x b cb y k ck)
    | N4 a ca x b cb y c cc z d cd \<Rightarrow>
        (if i = 0 then N4 k ck x b cb y c cc z d cd
         else if i = 1 then N4 a ca x k ck y c cc z d cd
         else if i = 2 then N4 a ca x b cb y k ck z d cd
         else N4 a ca x b cb y c cc z k ck))"

definition set_elem :: "'a node234 \<Rightarrow> nat \<Rightarrow> 'a \<Rightarrow> 'a node234" where
  "set_elem n i e = (case n of
      Nul \<Rightarrow> Nul
    | N2 a ca x b cb \<Rightarrow> N2 a ca e b cb
    | N3 a ca x b cb y c cc \<Rightarrow> (if i = 0 then N3 a ca e b cb y c cc else N3 a ca x b cb e c cc)
    | N4 a ca x b cb y c cc z d cd \<Rightarrow>
        (if i = 0 then N4 a ca e b cb y c cc z d cd
         else if i = 1 then N4 a ca x b cb e c cc z d cd
         else N4 a ca x b cb y c cc e d cd))"

lemmas slot_defs = kid_def counts_def elem_def set_kid_def set_elem_def

abbreviation is_2node :: "'a node234 \<Rightarrow> bool" where
  "is_2node n \<equiv> elem n 1 = None"

section \<open>Counting\<close>

definition countnode234 :: "'a node234 \<Rightarrow> int" where
  "countnode234 n = (case n of
      Nul \<Rightarrow> 0
    | N2 a ca x b cb \<Rightarrow> ca + cb + 1
    | N3 a ca x b cb y c cc \<Rightarrow> ca + cb + cc + 2
    | N4 a ca x b cb y c cc z d cd \<Rightarrow> ca + cb + cc + cd + 3)"

definition elements234 :: "'a node234 \<Rightarrow> int" where
  "elements234 n = (case n of Nul \<Rightarrow> 0 | N2 _ _ _ _ _ \<Rightarrow> 1 | N3 _ _ _ _ _ _ _ _ \<Rightarrow> 2
                    | N4 _ _ _ _ _ _ _ _ _ _ _ \<Rightarrow> 3)"

definition count234 :: "'a tree234 \<Rightarrow> int" where
  "count234 t = (if t_root t \<noteq> Nul then countnode234 (t_root t) else 0)"

section \<open>Insertion\<close>

text \<open>
  The walk down: which kid to enter. \<open>Stop x\<close> is the early return of an element that
  compares equal, \<open>OutOfRange\<close> the early return of NULL, and \<open>OutOfArray\<close> stands for
  the address \<open>&n->kids[index]\<close> outside the four slots, which the code forms at a leaf.
\<close>

datatype 'a descent = Enter nat int | Stop 'a | OutOfRange | OutOfArray

definition pos_childnum :: "int \<Rightarrow> 'a node234 \<Rightarrow> 'a descent" where
  "pos_childnum index n =
     (if kid n 0 = Nul then
        (if index < 4 then Enter (nat index) index else OutOfArray)
      else if index \<le> counts n 0 then Enter 0 index
      else let index = index - (counts n 0 + 1) in
        if index \<le> counts n 1 then Enter 1 index
        else let index = index - (counts n 1 + 1) in
          if index \<le> counts n 2 then Enter 2 index
          else let index = index - (counts n 2 + 1) in
            if index \<le> counts n 3 then Enter 3 index
            else OutOfRange)"

definition cmp_childnum :: "('a \<Rightarrow> 'a \<Rightarrow> int) \<Rightarrow> 'a \<Rightarrow> int \<Rightarrow> 'a node234 \<Rightarrow> 'a descent" where
  "cmp_childnum c e index n =
     (case elem n 0 of
        None \<Rightarrow> OutOfArray
      | Some x \<Rightarrow>
        if c e x < 0 then Enter 0 index
        else if c e x = 0 then Stop x
        else (case elem n 1 of
            None \<Rightarrow> Enter 1 index
          | Some y \<Rightarrow>
            if c e y < 0 then Enter 1 index
            else if c e y = 0 then Stop y
            else (case elem n 2 of
                None \<Rightarrow> Enter 2 index
              | Some z \<Rightarrow>
                if c e z < 0 then Enter 2 index
                else if c e z = 0 then Stop z
                else Enter 3 index)))"

text \<open>
  The way back up: put \<open>left, e, right\<close> in the place of the kid slot \<open>np\<close> of a node.
  A 2-node or 3-node absorbs them; a 4-node is split into a new 3-node on the left
  and the old node, now a 2-node, on the right, with an element to pass up.
\<close>

datatype 'a insertion = Absorbed "'a node234" | Overflow "'a node234" int 'a "'a node234" int

definition split_off :: "'a node234 \<Rightarrow> 'a \<Rightarrow> 'a node234 \<Rightarrow> 'a insertion" where
  "split_off m e n = Overflow m (countnode234 m) e n (countnode234 n)"

definition put234 :: "'a node234 \<Rightarrow> nat \<Rightarrow> 'a node234 \<Rightarrow> int \<Rightarrow> 'a \<Rightarrow> 'a node234 \<Rightarrow> int \<Rightarrow> 'a insertion"
where
  "put234 n np left lcount e right rcount = (case n of
      Nul \<Rightarrow> Absorbed Nul
    | N2 a ca x b cb \<Rightarrow>
        if np = 0 then Absorbed (N3 left lcount e right rcount x b cb)
        else Absorbed (N3 a ca x left lcount e right rcount)
    | N3 a ca x b cb y c cc \<Rightarrow>
        if np = 0 then Absorbed (N4 left lcount e right rcount x b cb y c cc)
        else if np = 1 then Absorbed (N4 a ca x left lcount e right rcount y c cc)
        else Absorbed (N4 a ca x b cb y left lcount e right rcount)
    | N4 a ca x b cb y c cc z d cd \<Rightarrow>
        if np = 0 then split_off (N3 left lcount e right rcount x b cb) y (N2 c cc z d cd)
        else if np = 1 then split_off (N3 a ca x left lcount e right rcount) y (N2 c cc z d cd)
        else if np = 2 then split_off (N3 a ca x b cb y left lcount) e (N2 right rcount z d cd)
        else split_off (N3 a ca x b cb y c cc) z (N2 left lcount e right rcount))"

datatype 'a add_result = Grown "'a insertion" | Existing 'a | RangeError | Undef

lemma size_kid [termination_simp]: "kid n i \<noteq> Nul \<Longrightarrow> size (kid n i) < size n"
  by (auto simp: kid_def split: node234.splits if_splits)

fun add_node :: "('a \<Rightarrow> 'a \<Rightarrow> int) option \<Rightarrow> 'a \<Rightarrow> int \<Rightarrow> 'a node234 \<Rightarrow> 'a add_result" where
  "add_node cmp e index n =
     (case (if index \<ge> 0 then pos_childnum index n
            else (case cmp of None \<Rightarrow> OutOfArray | Some c \<Rightarrow> cmp_childnum c e index n)) of
        Stop x \<Rightarrow> Existing x
      | OutOfRange \<Rightarrow> RangeError
      | OutOfArray \<Rightarrow> Undef
      | Enter childnum index' \<Rightarrow>
          if kid n childnum = Nul then Grown (put234 n childnum Nul 0 e Nul 0)
          else (case add_node cmp e index' (kid n childnum) of
              Grown (Absorbed k) \<Rightarrow> Grown (Absorbed (set_kid n childnum k (countnode234 k)))
            | Grown (Overflow left lcount e' right rcount) \<Rightarrow>
                Grown (put234 n childnum left lcount e' right rcount)
            | r \<Rightarrow> r))"

declare add_node.simps [simp del]

text \<open>
  \<open>add234_internal\<close> returns the tree and the returned pointer; the whole is \<open>None\<close> where
  the C has no defined behaviour.
\<close>

definition add234_internal :: "'a tree234 \<Rightarrow> 'a \<Rightarrow> int \<Rightarrow> ('a tree234 \<times> 'a option) option" where
  "add234_internal t e index =
     (if t_root t = Nul then Some (t\<lparr>t_root := N2 Nul 0 e Nul 0\<rparr>, Some e)
      else (case add_node (t_cmp t) e index (t_root t) of
          Grown (Absorbed n) \<Rightarrow> Some (t\<lparr>t_root := n\<rparr>, Some e)
        | Grown (Overflow left lcount e' right rcount) \<Rightarrow>
            Some (t\<lparr>t_root := N2 left lcount e' right rcount\<rparr>, Some e)
        | Existing x \<Rightarrow> Some (t, Some x)
        | RangeError \<Rightarrow> Some (t, None)
        | Undef \<Rightarrow> None))"

definition add234 :: "'a tree234 \<Rightarrow> 'a \<Rightarrow> ('a tree234 \<times> 'a option) option" where
  "add234 t e = (if t_cmp t = None then Some (t, None) else add234_internal t e (-1))"

definition addpos234 :: "'a tree234 \<Rightarrow> 'a \<Rightarrow> int \<Rightarrow> ('a tree234 \<times> 'a option) option" where
  "addpos234 t e index =
     (if index < 0 \<or> t_cmp t \<noteq> None then Some (t, None) else add234_internal t e index)"

section \<open>Well-formed trees\<close>

text \<open>
  \<open>inorder\<close> is the list a tree stands for. \<open>okn h n\<close> is what the test program in the
  source checks after every operation: all leaves at depth \<open>h\<close>, and every stored count
  the number of elements below that slot. \<open>pre n i\<close> and \<open>post n i\<close> are the elements to
  the left and to the right of kid slot \<open>i\<close>.
\<close>

fun inorder :: "'a node234 \<Rightarrow> 'a list" where
  "inorder Nul = []"
| "inorder (N2 a ca x b cb) = inorder a @ x # inorder b"
| "inorder (N3 a ca x b cb y c cc) = inorder a @ x # inorder b @ y # inorder c"
| "inorder (N4 a ca x b cb y c cc z d cd) =
     inorder a @ x # inorder b @ y # inorder c @ z # inorder d"

definition cnt :: "'a node234 \<Rightarrow> int" where
  "cnt n = int (length (inorder n))"

fun okn :: "nat \<Rightarrow> 'a node234 \<Rightarrow> bool" where
  "okn 0 n = (n = Nul)"
| "okn (Suc h) n = (case n of
      Nul \<Rightarrow> False
    | N2 a ca x b cb \<Rightarrow> okn h a \<and> okn h b \<and> ca = cnt a \<and> cb = cnt b
    | N3 a ca x b cb y c cc \<Rightarrow>
        okn h a \<and> okn h b \<and> okn h c \<and> ca = cnt a \<and> cb = cnt b \<and> cc = cnt c
    | N4 a ca x b cb y c cc z d cd \<Rightarrow>
        okn h a \<and> okn h b \<and> okn h c \<and> okn h d
        \<and> ca = cnt a \<and> cb = cnt b \<and> cc = cnt c \<and> cd = cnt d)"

lemma okn_simps [simp]:
  "okn (Suc h) (N2 a ca x b cb) \<longleftrightarrow> okn h a \<and> okn h b \<and> ca = cnt a \<and> cb = cnt b"
  "okn (Suc h) (N3 a ca x b cb y c cc) \<longleftrightarrow>
     okn h a \<and> okn h b \<and> okn h c \<and> ca = cnt a \<and> cb = cnt b \<and> cc = cnt c"
  "okn (Suc h) (N4 a ca x b cb y c cc z d cd) \<longleftrightarrow>
     okn h a \<and> okn h b \<and> okn h c \<and> okn h d
     \<and> ca = cnt a \<and> cb = cnt b \<and> cc = cnt c \<and> cd = cnt d"
  by simp_all

declare okn.simps(2) [simp del]

definition wf234 :: "'a tree234 \<Rightarrow> bool" where
  "wf234 t \<longleftrightarrow> (\<exists>h. okn h (t_root t))"

definition elems234 :: "'a tree234 \<Rightarrow> 'a list" where
  "elems234 t = inorder (t_root t)"

fun slots :: "'a node234 \<Rightarrow> nat" where
  "slots Nul = 0" | "slots (N2 _ _ _ _ _) = 1" | "slots (N3 _ _ _ _ _ _ _ _) = 2"
| "slots (N4 _ _ _ _ _ _ _ _ _ _ _) = 3"

definition pre :: "'a node234 \<Rightarrow> nat \<Rightarrow> 'a list" where
  "pre n i = (case n of
      Nul \<Rightarrow> []
    | N2 a ca x b cb \<Rightarrow> if i = 0 then [] else inorder a @ [x]
    | N3 a ca x b cb y c cc \<Rightarrow> if i = 0 then [] else if i = 1 then inorder a @ [x]
        else inorder a @ x # inorder b @ [y]
    | N4 a ca x b cb y c cc z d cd \<Rightarrow> if i = 0 then [] else if i = 1 then inorder a @ [x]
        else if i = 2 then inorder a @ x # inorder b @ [y]
        else inorder a @ x # inorder b @ y # inorder c @ [z])"

definition post :: "'a node234 \<Rightarrow> nat \<Rightarrow> 'a list" where
  "post n i = (case n of
      Nul \<Rightarrow> []
    | N2 a ca x b cb \<Rightarrow> if i = 0 then x # inorder b else []
    | N3 a ca x b cb y c cc \<Rightarrow> if i = 0 then x # inorder b @ y # inorder c
        else if i = 1 then y # inorder c else []
    | N4 a ca x b cb y c cc z d cd \<Rightarrow> if i = 0 then x # inorder b @ y # inorder c @ z # inorder d
        else if i = 1 then y # inorder c @ z # inorder d
        else if i = 2 then z # inorder d else [])"

fun inorder_ins :: "'a insertion \<Rightarrow> 'a list" where
  "inorder_ins (Absorbed n) = inorder n"
| "inorder_ins (Overflow l lc e r rc) = inorder l @ e # inorder r"

fun ok_ins :: "nat \<Rightarrow> 'a insertion \<Rightarrow> bool" where
  "ok_ins h (Absorbed n) = okn h n"
| "ok_ins h (Overflow l lc e r rc) = (okn h l \<and> okn h r \<and> lc = cnt l \<and> rc = cnt r)"

lemma cnt_Nul [simp]: "cnt Nul = 0"
  by (simp add: cnt_def)

lemma cnt_nonneg [simp]: "0 \<le> cnt n"
  by (simp add: cnt_def)

lemma okn_Nul_iff [simp]: "okn h Nul \<longleftrightarrow> h = 0"
  by (cases h) (auto simp: okn.simps(2))

lemma countnode234_ok: "okn h n \<Longrightarrow> countnode234 n = cnt n"
  by (cases h) (auto simp: countnode234_def cnt_def split: node234.splits)

lemma count234_ok: "wf234 t \<Longrightarrow> count234 t = int (length (elems234 t))"
  by (auto simp: wf234_def count234_def elems234_def countnode234_ok cnt_def)

lemma inorder_split: "i \<le> slots n \<Longrightarrow> inorder n = pre n i @ inorder (kid n i) @ post n i"
  by (auto simp: pre_def post_def kid_def split: node234.splits)

lemma inorder_set_kid:
  "n \<noteq> Nul \<Longrightarrow> i \<le> slots n \<Longrightarrow> inorder (set_kid n i k ck) = pre n i @ inorder k @ post n i"
  by (auto simp: pre_def post_def set_kid_def split: node234.splits)

lemma counts_ok: "okn (Suc h) n \<Longrightarrow> i \<le> slots n \<Longrightarrow> counts n i = cnt (kid n i)"
  by (auto simp: counts_def kid_def split: node234.splits)

lemma okn_kid: "okn (Suc h) n \<Longrightarrow> i \<le> slots n \<Longrightarrow> okn h (kid n i)"
  by (auto simp: kid_def split: node234.splits)

lemma okn_set_kid:
  "okn (Suc h) n \<Longrightarrow> okn h k \<Longrightarrow> ck = cnt k \<Longrightarrow> okn (Suc h) (set_kid n i k ck)"
  by (auto simp: set_kid_def split: node234.splits)

lemma okn_Nul_kid: "okn (Suc h) n \<Longrightarrow> i \<le> slots n \<Longrightarrow> kid n i = Nul \<longleftrightarrow> h = 0"
  by (cases h) (auto simp: kid_def split: node234.splits)

lemma put234_ok:
  assumes "okn (Suc h) n" "i \<le> slots n" "okn h l" "okn h r" "lc = cnt l" "rc = cnt r"
  shows "ok_ins (Suc h) (put234 n i l lc e r rc)"
    and "inorder_ins (put234 n i l lc e r rc) = pre n i @ inorder l @ e # inorder r @ post n i"
  using assms
  by (auto simp: put234_def split_off_def pre_def post_def countnode234_def cnt_def
      split: node234.splits)

subsection \<open>Insertion by position\<close>

lemma pos_childnum_cases:
  assumes "okn (Suc h) n" "0 \<le> index" "index \<le> cnt n"
  shows "case pos_childnum index n of
           Enter i j \<Rightarrow> i \<le> slots n
             \<and> (h = 0 \<longrightarrow> index = int (length (pre n i)))
             \<and> (h \<noteq> 0 \<longrightarrow> index = int (length (pre n i)) + j \<and> 0 \<le> j \<and> j \<le> cnt (kid n i))
         | _ \<Rightarrow> False"
proof (cases "h = 0")
  case True
  then show ?thesis using assms
    by (cases n) (simp_all add: pos_childnum_def kid_def pre_def cnt_def, linarith+)
next
  case False
  then have "kid n 0 \<noteq> Nul"
    using assms(1) by (simp add: okn_Nul_kid)
  then show ?thesis using assms False
    by (cases n) (simp_all add: pos_childnum_def kid_def pre_def cnt_def counts_def Let_def)
qed

lemma pos_childnum_ok:
  assumes "okn (Suc h) n" "0 \<le> index" "index \<le> cnt n"
  obtains i j where "pos_childnum index n = Enter i j" "i \<le> slots n"
    "h = 0 \<Longrightarrow> index = int (length (pre n i))"
    "h \<noteq> 0 \<Longrightarrow> index = int (length (pre n i)) + j \<and> 0 \<le> j \<and> j \<le> cnt (kid n i)"
  using pos_childnum_cases [OF assms] by (auto split: descent.splits)

lemma add_node_pos:
  assumes "okn h n" "n \<noteq> Nul" "0 \<le> index" "index \<le> cnt n"
  shows "\<exists>ins. add_node cmp e index n = Grown ins \<and> ok_ins h ins
           \<and> inorder_ins ins = ins_at index e (inorder n)"
  using assms
proof (induction h arbitrary: n index)
  case 0
  then show ?case by simp
next
  case (Suc h)
  obtain i j where ij: "pos_childnum index n = Enter i j" "i \<le> slots n"
      and leaf: "h = 0 \<Longrightarrow> index = int (length (pre n i))"
      and inner: "h \<noteq> 0 \<Longrightarrow> index = int (length (pre n i)) + j \<and> 0 \<le> j \<and> j \<le> cnt (kid n i)"
    using pos_childnum_ok [OF Suc.prems(1,3,4)] by metis
  have split: "inorder n = pre n i @ inorder (kid n i) @ post n i"
    by (rule inorder_split [OF ij(2)])
  have kok: "okn h (kid n i)"
    by (rule okn_kid [OF Suc.prems(1) ij(2)])
  show ?case
  proof (cases "h = 0")
    case True
    then have knul: "kid n i = Nul" using okn_Nul_kid [OF Suc.prems(1) ij(2)] by simp
    then have "add_node cmp e index n = Grown (put234 n i Nul 0 e Nul 0)"
      using Suc.prems ij by (subst add_node.simps) simp
    moreover have "inorder_ins (put234 n i Nul 0 e Nul 0) = ins_at index e (inorder n)"
      using put234_ok(2) [OF Suc.prems(1) ij(2), of Nul Nul] True leaf split knul
      by (simp add: ins_at_def)
    ultimately show ?thesis
      using put234_ok(1) [OF Suc.prems(1) ij(2), of Nul Nul] True by auto
  next
    case False
    then have knn: "kid n i \<noteq> Nul" using okn_Nul_kid [OF Suc.prems(1) ij(2)] by simp
    from Suc.IH [OF kok knn] inner [OF False] obtain ins where
      rec: "add_node cmp e j (kid n i) = Grown ins" "ok_ins h ins"
           "inorder_ins ins = ins_at j e (inorder (kid n i))" by blast
    have target: "ins_at index e (inorder n) = pre n i @ ins_at j e (inorder (kid n i)) @ post n i"
      using inner [OF False] by (simp add: split ins_at_append_ge ins_at_append_le cnt_def)
    show ?thesis
    proof (cases ins)
      case (Absorbed k)
      then show ?thesis
        using rec Suc.prems ij knn target
        by (subst add_node.simps)
           (auto simp: inorder_set_kid countnode234_ok intro!: okn_set_kid)
    next
      case (Overflow l lc e' r rc)
      then show ?thesis
        using rec Suc.prems ij knn target put234_ok [OF Suc.prems(1) ij(2), of l r lc rc e']
        by (subst add_node.simps) auto
    qed
  qed
qed

subsection \<open>Insertion by comparison\<close>

text \<open>
  \<open>cut p xs\<close> says that the comparison results of a fixed query along \<open>xs\<close> are first
  positive (the query is greater), then zero, then negative. For the elements of a
  sorted tree and a query compared with a total preorder this always holds.
\<close>

definition cut :: "('a \<Rightarrow> int) \<Rightarrow> 'a list \<Rightarrow> bool" where
  "cut p xs = sorted_wrt (\<lambda>x y. (p x \<le> 0 \<longrightarrow> p y \<le> 0) \<and> (p x < 0 \<longrightarrow> p y < 0)) xs"

definition ins_cut :: "('a \<Rightarrow> int) \<Rightarrow> 'a \<Rightarrow> 'a list \<Rightarrow> 'a list" where
  "ins_cut p e xs = filter (\<lambda>x. 0 < p x) xs @ e # filter (\<lambda>x. p x < 0) xs"

lemma cut_simps [simp]:
  "cut p []"
  "cut p (x # xs) \<longleftrightarrow> (\<forall>y \<in> set xs. (p x \<le> 0 \<longrightarrow> p y \<le> 0) \<and> (p x < 0 \<longrightarrow> p y < 0)) \<and> cut p xs"
  by (simp_all add: cut_def)

lemma cut_append [simp]:
  "cut p (xs @ ys) \<longleftrightarrow> cut p xs \<and> cut p ys
     \<and> (\<forall>x \<in> set xs. \<forall>y \<in> set ys. (p x \<le> 0 \<longrightarrow> p y \<le> 0) \<and> (p x < 0 \<longrightarrow> p y < 0))"
  by (auto simp: cut_def sorted_wrt_append)

lemma elem_slots: "elem n i = Some x \<Longrightarrow> i < slots n"
  by (auto simp: elem_def split: node234.splits if_splits)

lemma elem_None: "elem n i = None \<longleftrightarrow> slots n \<le> i"
  by (auto simp: elem_def split: node234.splits)

lemma pre_0 [simp]: "pre n 0 = []"
  by (simp add: pre_def split: node234.split)

lemma post_last [simp]: "slots n \<le> i \<Longrightarrow> post n i = []"
  by (auto simp: post_def split: node234.split)

lemma pre_Suc: "elem n i = Some x \<Longrightarrow> pre n (Suc i) = pre n i @ inorder (kid n i) @ [x]"
  by (auto simp: elem_def pre_def kid_def split: node234.splits if_splits)

lemma post_elem:
  "elem n i = Some x \<Longrightarrow> post n i = x # inorder (kid n (Suc i)) @ post n (Suc i)"
  by (auto simp: elem_def post_def kid_def split: node234.splits if_splits)

lemma inorder_elem:
  "elem n i = Some x \<Longrightarrow> inorder n = (pre n i @ inorder (kid n i)) @ x # inorder (kid n (Suc i)) @ post n (Suc i)"
  using inorder_split [of i n] elem_slots [of n i x] post_elem [of n i x] by simp

lemma cut_elem:
  assumes "elem n i = Some x" "cut p (inorder n)"
  shows "p x < 0 \<Longrightarrow> \<forall>y \<in> set (post n i). p y < 0"
    and "0 < p x \<Longrightarrow> \<forall>y \<in> set (pre n (Suc i)). 0 < p y"
    and "x \<in> set (inorder n)"
  using assms(2) unfolding inorder_elem [OF assms(1)] pre_Suc [OF assms(1)] post_elem [OF assms(1)]
  by force+

definition descent_ok :: "('a \<Rightarrow> int) \<Rightarrow> 'a node234 \<Rightarrow> int \<Rightarrow> 'a descent \<Rightarrow> bool" where
  "descent_ok p n index r = (case r of
      Enter i j \<Rightarrow> i \<le> slots n \<and> j = index
        \<and> (\<forall>x \<in> set (pre n i). 0 < p x) \<and> (\<forall>x \<in> set (post n i). p x < 0)
    | Stop x \<Rightarrow> x \<in> set (inorder n) \<and> p x = 0
    | _ \<Rightarrow> False)"

lemma cmp_childnum_ok:
  assumes "n \<noteq> Nul" "cut (c e) (inorder n)"
  shows "descent_ok (c e) n index (cmp_childnum c e index n)"
proof -
  define Q where "Q = descent_ok (c e) n index"
  obtain x where x: "elem n 0 = Some x"
    using assms(1) by (cases n) (simp_all add: elem_def)
  have stop: "elem n i = Some y \<Longrightarrow> c e y = 0 \<Longrightarrow> Q (Stop y)" for i y
    using cut_elem(3) [OF _ assms(2)] by (simp add: Q_def descent_ok_def)
  have first: "elem n 0 = Some y \<Longrightarrow> c e y < 0 \<Longrightarrow> Q (Enter 0 index)" for y
    using cut_elem(1) [OF _ assms(2)] by (simp add: Q_def descent_ok_def)
  have mid: "elem n i = Some y \<Longrightarrow> \<not> c e y < 0 \<Longrightarrow> c e y \<noteq> 0 \<Longrightarrow> elem n (Suc i) = Some z \<Longrightarrow> c e z < 0
      \<Longrightarrow> Q (Enter (Suc i) index)" for i y z
    using cut_elem(1) [OF _ assms(2), of "Suc i" z] cut_elem(2) [OF _ assms(2), of i y]
      elem_slots [of n "Suc i" z] by (simp add: Q_def descent_ok_def)
  have last: "elem n i = Some y \<Longrightarrow> \<not> c e y < 0 \<Longrightarrow> c e y \<noteq> 0 \<Longrightarrow> slots n \<le> Suc i
      \<Longrightarrow> Q (Enter (Suc i) index)" for i y
    using cut_elem(2) [OF _ assms(2), of i y] elem_slots [of n i y]
    by (simp add: Q_def descent_ok_def)
  have s3: "slots n \<le> 3" by (cases n) simp_all
  note num = numeral_2_eq_2 numeral_3_eq_3 One_nat_def
  have "Q (cmp_childnum c e index n)"
  proof (cases "elem n 1")
    case None
    then have "slots n \<le> Suc 0" by (simp add: elem_None)
    then show ?thesis
      using x None by (simp add: cmp_childnum_def stop first last)
  next
    case y: (Some y)
    show ?thesis
    proof (cases "elem n 2")
      case None
      then have "slots n \<le> Suc 1" by (simp add: elem_None)
      then show ?thesis
        using x y None mid [of 0 x y] last [of 1 y] stop [of 1 y]
        by (simp add: cmp_childnum_def stop [OF x] first num)
    next
      case z: (Some z)
      then show ?thesis
        using x y mid [of 0 x y] mid [of 1 y z] last [of 2 z] stop [of 1 y] stop [of 2 z] s3
        by (simp add: cmp_childnum_def stop [OF x] first num)
    qed
  qed
  then show ?thesis by (simp add: Q_def)
qed

lemma ins_cut_middle:
  assumes "\<forall>x \<in> set xs. 0 < p x" "\<forall>x \<in> set zs. p x < 0"
  shows "ins_cut p e (xs @ ys @ zs) = xs @ ins_cut p e ys @ zs"
proof -
  have "filter (\<lambda>x. 0 < p x) xs = xs" "filter (\<lambda>x. p x < 0) xs = []"
       "filter (\<lambda>x. 0 < p x) zs = []" "filter (\<lambda>x. p x < 0) zs = zs"
    using assms by (auto simp: filter_empty_conv filter_id_conv)
  then show ?thesis by (simp add: ins_cut_def)
qed

definition add_spec :: "nat \<Rightarrow> ('a \<Rightarrow> int) \<Rightarrow> 'a \<Rightarrow> 'a list \<Rightarrow> 'a add_result \<Rightarrow> bool" where
  "add_spec h p e xs r = (case r of
      Grown ins \<Rightarrow> (\<forall>x \<in> set xs. p x \<noteq> 0) \<and> ok_ins h ins \<and> inorder_ins ins = ins_cut p e xs
    | Existing x \<Rightarrow> x \<in> set xs \<and> p x = 0
    | _ \<Rightarrow> False)"

lemma add_node_cmp:
  assumes "okn h n" "n \<noteq> Nul" "index < 0" "cut (c e) (inorder n)"
  shows "add_spec h (c e) e (inorder n) (add_node (Some c) e index n)"
  using assms
proof (induction h arbitrary: n)
  case 0
  then show ?case by simp
next
  case (Suc h)
  note cases = cmp_childnum_ok [of n c e index, OF Suc.prems(2,4), unfolded descent_ok_def]
  show ?case
  proof (cases "cmp_childnum c e index n")
    case (Stop x)
    then show ?thesis
      using Suc.prems cases by (subst add_node.simps) (simp add: add_spec_def)
  next
    case (Enter i j)
    with cases have i: "i \<le> slots n" "j = index"
      and lo: "\<forall>x \<in> set (pre n i). 0 < c e x" and hi: "\<forall>x \<in> set (post n i). c e x < 0"
      by auto
    have split: "inorder n = pre n i @ inorder (kid n i) @ post n i"
      by (rule inorder_split [OF i(1)])
    have whole: "ins_cut (c e) e (inorder n)
        = pre n i @ ins_cut (c e) e (inorder (kid n i)) @ post n i"
      using ins_cut_middle [OF lo hi, of e "inorder (kid n i)"] by (simp add: split)
    have kok: "okn h (kid n i)"
      by (rule okn_kid [OF Suc.prems(1) i(1)])
    show ?thesis
    proof (cases "kid n i = Nul")
      case True
      then have h: "h = 0" using kok by simp
      have "inorder_ins (put234 n i Nul 0 e Nul 0) = ins_cut (c e) e (inorder n)"
        using put234_ok(2) [OF Suc.prems(1) i(1), of Nul Nul] True whole h
        by (simp add: ins_cut_def)
      moreover have "\<forall>x \<in> set (inorder n). c e x \<noteq> 0"
        using lo hi True by (auto simp: split)
      ultimately show ?thesis
        using put234_ok(1) [OF Suc.prems(1) i(1), of Nul Nul] Suc.prems Enter True h
        by (subst add_node.simps) (simp add: add_spec_def)
    next
      case False
      have "cut (c e) (inorder (kid n i))" using Suc.prems(4) by (simp add: split)
      from Suc.IH [OF kok False Suc.prems(3) this]
      have IH: "add_spec h (c e) e (inorder (kid n i)) (add_node (Some c) e j (kid n i))"
        by (simp add: i)
      show ?thesis
      proof (cases "add_node (Some c) e j (kid n i)")
        case (Grown ins)
        with IH have rec: "ok_ins h ins" "inorder_ins ins = ins_cut (c e) e (inorder (kid n i))"
            and no: "\<forall>x \<in> set (inorder n). c e x \<noteq> 0"
          using lo hi by (auto simp: add_spec_def split)
        show ?thesis
        proof (cases ins)
          case (Absorbed k)
          then show ?thesis
            using rec no Suc.prems i False Enter Grown whole
            by (subst add_node.simps)
               (simp add: add_spec_def inorder_set_kid countnode234_ok okn_set_kid)
        next
          case (Overflow l lc e' r rc)
          then show ?thesis
            using rec no Suc.prems i False Enter Grown whole
              put234_ok [OF Suc.prems(1) i(1), of l r lc rc e']
            by (subst add_node.simps) (simp add: add_spec_def)
        qed
      next
        case (Existing x)
        then show ?thesis
          using IH Suc.prems i False Enter
          by (subst add_node.simps) (simp add: add_spec_def split)
      qed (use IH in \<open>auto simp: add_spec_def\<close>)
    qed
  qed (use cases in auto)
qed

section \<open>Lookup by position\<close>

text \<open>
  Which slot of a node holds position \<open>index\<close> of its subtree: a kid, with the position
  within that kid, or an element. The same cascade opens \<open>index234\<close> and
  \<open>delpos234_internal\<close>.
\<close>

datatype slot = InKid nat int | AtElem nat

definition locate :: "int \<Rightarrow> 'a node234 \<Rightarrow> slot" where
  "locate index n =
     (if index < counts n 0 then InKid 0 index
      else let index = index - (counts n 0 + 1) in if index < 0 then AtElem 0
      else if index < counts n 1 then InKid 1 index
      else let index = index - (counts n 1 + 1) in if index < 0 then AtElem 1
      else if index < counts n 2 then InKid 2 index
      else let index = index - (counts n 2 + 1) in if index < 0 then AtElem 2
      else InKid 3 index)"

lemma size_kid_less [termination_simp]: "n \<noteq> Nul \<Longrightarrow> size (kid n i) < size n"
  by (auto simp: kid_def split: node234.splits)

fun index_node :: "'a node234 \<Rightarrow> int \<Rightarrow> 'a option" where
  "index_node n index =
     (if n = Nul then None
      else (case locate index n of
          InKid ki index' \<Rightarrow> index_node (kid n ki) index'
        | AtElem ei \<Rightarrow> elem n ei))"

declare index_node.simps [simp del]

definition index234 :: "'a tree234 \<Rightarrow> int \<Rightarrow> 'a option" where
  "index234 t index =
     (if t_root t = Nul then None
      else if index < 0 \<or> index \<ge> countnode234 (t_root t) then None
      else index_node (t_root t) index)"

definition slot_ok :: "nat \<Rightarrow> 'a node234 \<Rightarrow> int \<Rightarrow> slot \<Rightarrow> bool" where
  "slot_ok h n index s = (case s of
      InKid i j \<Rightarrow> i \<le> slots n \<and> index = int (length (pre n i)) + j \<and> 0 \<le> j \<and> j < cnt (kid n i)
    | AtElem i \<Rightarrow> i < slots n \<and> index = int (length (pre n i)) + cnt (kid n i))"

lemma locate_ok:
  assumes "okn (Suc h) n" "0 \<le> index" "index < cnt n"
  shows "slot_ok h n index (locate index n)"
  using assms
  by (cases n)
     (simp_all add: slot_ok_def locate_def kid_def pre_def cnt_def counts_def Let_def)

lemma index_node_ok:
  assumes "okn h n" "0 \<le> index" "index < cnt n"
  shows "index_node n index = nth_opt (inorder n) index"
  using assms
proof (induction h arbitrary: n index)
  case 0
  then show ?case by simp
next
  case (Suc h)
  have n: "n \<noteq> Nul" using Suc.prems(1) by auto
  note ok = locate_ok [OF Suc.prems]
  show ?case
  proof (cases "locate index n")
    case (InKid i j)
    with ok have i: "i \<le> slots n" and j: "index = int (length (pre n i)) + j" "0 \<le> j" "j < cnt (kid n i)"
      by (simp_all add: slot_ok_def)
    show ?thesis
      using Suc.IH [OF okn_kid [OF Suc.prems(1) i] j(2,3)] InKid n j
      by (subst index_node.simps) (simp add: inorder_split [OF i] nth_opt_append cnt_def)
  next
    case (AtElem i)
    with ok have i: "i < slots n" and j: "index = int (length (pre n i)) + cnt (kid n i)"
      by (simp_all add: slot_ok_def)
    obtain x where x: "elem n i = Some x"
      using i elem_None [of n i] by (cases "elem n i") auto
    show ?thesis
      using AtElem n j x
      by (subst index_node.simps) (simp add: inorder_elem [OF x] nth_opt_append nth_opt_Cons cnt_def)
  qed
qed

lemma index234_ok: "wf234 t \<Longrightarrow> index234 t i = nth_opt (elems234 t) i"
  by (auto simp: wf234_def index234_def elems234_def countnode234_ok cnt_def index_node_ok
      nth_opt_big nth_opt_neg)

section \<open>Searching\<close>

record 'a search234_state =
  s_element :: "'a option"
  s_index :: int
  s_lo :: int
  s_hi :: int
  s_last :: int
  s_base :: int
  s_node :: "'a node234"

definition sum_slots :: "(nat \<Rightarrow> int) \<Rightarrow> nat \<Rightarrow> int" where
  "sum_slots f k = sum_list (map f [0..<k])"

text \<open>
  \<open>search234_step\<close> in its three parts: narrow the range of elements in hand by the
  direction, descending when none is left; open a node just entered; point at the
  middle element of the range. \<open>None\<close> is a failed \<open>assert(direction)\<close>.
\<close>

definition search_narrow :: "'a search234_state \<Rightarrow> int \<Rightarrow> 'a search234_state" where
  "search_narrow st direction =
     (let st' = (if direction > 0 then st\<lparr>s_lo := s_last st + 1\<rparr>
                 else st\<lparr>s_hi := s_last st - 1\<rparr>)
      in if s_lo st' > s_hi st' then
           st'\<lparr>s_base := s_base st' + sum_slots (\<lambda>i. 1 + counts (s_node st') i) (nat (s_lo st')),
               s_node := kid (s_node st') (nat (s_lo st')),
               s_last := -1\<rparr>
         else st')"

definition search_open :: "'a search234_state \<Rightarrow> 'a search234_state" where
  "search_open st =
     (if s_last st = -1 then
        st\<lparr>s_lo := 0, s_hi := (if s_node st \<noteq> Nul then elements234 (s_node st) - 1 else 0)\<rparr>
      else st)"

definition search_point :: "'a search234_state \<Rightarrow> 'a search234_state" where
  "search_point st =
     (if s_node st = Nul then st\<lparr>s_element := None, s_index := s_base st\<rparr>
      else let last = (s_lo st + s_hi st) div 2 in
        st\<lparr>s_last := last, s_element := elem (s_node st) (nat last),
           s_index := s_base st + last + sum_slots (counts (s_node st)) (nat (last + 1))\<rparr>)"

definition search234_step :: "'a search234_state \<Rightarrow> int \<Rightarrow> 'a search234_state option" where
  "search234_step st direction =
     (if s_node st = Nul then Some (st\<lparr>s_element := None, s_index := 0\<rparr>)
      else if s_last st \<noteq> -1 \<and> direction = 0 then None
      else Some (search_point (search_open
             (if s_last st \<noteq> -1 then search_narrow st direction else st))))"

definition search234_start :: "'a tree234 \<Rightarrow> 'a search234_state option" where
  "search234_start t =
     search234_step
       \<lparr>s_element = None, s_index = 0, s_lo = 0, s_hi = 0, s_last = -1, s_base = 0,
        s_node = t_root t\<rparr> 0"

datatype relation = REL234_EQ | REL234_LT | REL234_LE | REL234_GT | REL234_GE

definition reldir :: "relation \<Rightarrow> int" where
  "reldir r = (if r = REL234_LT \<or> r = REL234_LE then -1
               else if r = REL234_GT \<or> r = REL234_GE then 1 else 0)"

definition equal_permitted :: "relation \<Rightarrow> bool" where
  "equal_permitted r \<longleftrightarrow> r \<noteq> REL234_LT \<and> r \<noteq> REL234_GT"

text \<open>
  The loop of \<open>findrelpos234\<close>. \<open>True\<close> in the result is the return from inside the
  loop with an element that compares equal, \<open>False\<close> the loop's normal end. \<open>None\<close> is a
  failed assertion or a search that does not end.
\<close>

partial_function (option) find_loop ::
  "('a \<Rightarrow> int) \<Rightarrow> relation \<Rightarrow> 'a search234_state \<Rightarrow> (bool \<times> 'a search234_state) option" where
  "find_loop query r st =
     (case s_element st of
        None \<Rightarrow> Some (False, st)
      | Some x \<Rightarrow>
          (if query x = 0 \<and> equal_permitted r then Some (True, st)
           else Option.bind
                  (search234_step st (if query x = 0 then reldir r else query x))
                  (find_loop query r)))"

declare find_loop.simps [code]

text \<open>
  \<open>e\<close> is the query, \<open>None\<close> for NULL, and \<open>cmp\<close> the comparison in force: the caller's,
  or the tree's own where the caller passes NULL. The result is \<open>None\<close> for a failed
  assertion and \<open>Some None\<close> for a returned NULL.
\<close>

definition findrelpos234 ::
  "'a tree234 \<Rightarrow> 'q option \<Rightarrow> ('q \<Rightarrow> 'a \<Rightarrow> int) \<Rightarrow> relation \<Rightarrow> ('a \<times> int) option option" where
  "findrelpos234 t e cmp r =
     (if equal_permitted r \<and> e = None then None
      else let query = (case e of Some q \<Rightarrow> cmp q | None \<Rightarrow> (\<lambda>_. - reldir r)) in
        Option.bind (search234_start t) (\<lambda>st0.
        Option.bind (find_loop query r st0) (\<lambda>(hit, st).
          if hit then Some (map_option (\<lambda>x. (x, s_index st)) (s_element st))
          else if r = REL234_EQ then Some None
          else let index = (if r = REL234_LT \<or> r = REL234_LE then s_index st - 1 else s_index st)
            in Some (map_option (\<lambda>x. (x, index)) (index234 t index)))))"

definition find234 :: "'a tree234 \<Rightarrow> 'q \<Rightarrow> ('q \<Rightarrow> 'a \<Rightarrow> int) \<Rightarrow> 'a option option" where
  "find234 t e cmp = map_option (map_option fst) (findrelpos234 t (Some e) cmp REL234_EQ)"

definition findrel234 :: "'a tree234 \<Rightarrow> 'q option \<Rightarrow> ('q \<Rightarrow> 'a \<Rightarrow> int) \<Rightarrow> relation \<Rightarrow> 'a option option" where
  "findrel234 t e cmp r = map_option (map_option fst) (findrelpos234 t e cmp r)"

definition findpos234 :: "'a tree234 \<Rightarrow> 'q \<Rightarrow> ('q \<Rightarrow> 'a \<Rightarrow> int) \<Rightarrow> ('a \<times> int) option option" where
  "findpos234 t e cmp = findrelpos234 t (Some e) cmp REL234_EQ"

subsection \<open>The search visits what it should\<close>

text \<open>
  \<open>search_inv q xs st\<close>: the elements of \<open>xs\<close> left of the subtree in hand all compare
  positive, those right of it negative, and the index reported is the position of the
  element in hand. \<open>search_measure\<close> falls with every step.
\<close>

definition search_inv :: "('a \<Rightarrow> int) \<Rightarrow> 'a list \<Rightarrow> nat \<Rightarrow> 'a search234_state \<Rightarrow> bool" where
  "search_inv q xs h st \<longleftrightarrow>
     (\<exists>L R. xs = L @ inorder (s_node st) @ R \<and> s_base st = int (length L)
        \<and> (\<forall>x \<in> set L. 0 < q x) \<and> (\<forall>x \<in> set R. q x < 0) \<and> okn h (s_node st)
        \<and> (if h = 0 then s_element st = None \<and> s_index st = s_base st
           else 0 \<le> s_lo st \<and> s_lo st \<le> s_last st \<and> s_last st \<le> s_hi st
              \<and> s_hi st < int (slots (s_node st))
              \<and> s_element st = elem (s_node st) (nat (s_last st))
              \<and> s_index st = s_base st + int (length (pre (s_node st) (nat (s_last st))))
                  + cnt (kid (s_node st) (nat (s_last st)))
              \<and> (\<forall>x \<in> set (pre (s_node st) (nat (s_lo st))). 0 < q x)
              \<and> (\<forall>x \<in> set (post (s_node st) (nat (s_hi st + 1))). q x < 0)))"

definition search_measure :: "nat \<Rightarrow> 'a search234_state \<Rightarrow> nat" where
  "search_measure h st = 4 * h + nat (s_hi st - s_lo st)"

lemma sum_slots_0 [simp]: "sum_slots f 0 = 0"
  by (simp add: sum_slots_def)

lemma sum_slots_Suc [simp]: "sum_slots f (Suc k) = sum_slots f k + f k"
  by (simp add: sum_slots_def)

lemma elem_some: "i < slots n \<Longrightarrow> \<exists>x. elem n i = Some x"
  using elem_None [of n i] by (cases "elem n i") auto

lemma sum_slots_pre:
  assumes "okn (Suc h) n" "i \<le> slots n"
  shows "sum_slots (\<lambda>i. 1 + counts n i) i = int (length (pre n i))"
  using assms(2)
proof (induction i)
  case (Suc i)
  then obtain x where "elem n i = Some x" using elem_some [of i n] by auto
  with Suc assms(1) show ?case
    by (simp add: pre_Suc counts_ok cnt_def)
qed simp

lemma sum_slots_counts:
  assumes "okn (Suc h) n" "i < slots n"
  shows "int i + sum_slots (counts n) (Suc i) = int (length (pre n i)) + cnt (kid n i)"
proof -
  have "int i + sum_slots (counts n) (Suc i) = sum_slots (\<lambda>i. 1 + counts n i) i + counts n i"
    by (induction i) simp_all
  then show ?thesis
    using assms by (simp add: sum_slots_pre counts_ok)
qed

lemma elements234_slots: "elements234 n = int (slots n)"
  by (cases n) (simp_all add: elements234_def)

lemma slots_pos: "n \<noteq> Nul \<Longrightarrow> 0 < slots n"
  by (cases n) simp_all

lemma search_open_inv:
  assumes "xs = L @ inorder (s_node st) @ R" "s_base st = int (length L)"
    "\<forall>x \<in> set L. 0 < q x" "\<forall>x \<in> set R. q x < 0" "okn h (s_node st)" "s_last st = -1"
  shows "search_inv q xs h (search_point (search_open st))"
    (is "search_inv q xs h ?st'")
proof (cases "s_node st = Nul")
  case True
  then have "?st' = st\<lparr>s_lo := 0, s_hi := 0, s_element := None, s_index := s_base st\<rparr>"
    using assms(6) by (simp add: search_point_def search_open_def)
  then show ?thesis
    unfolding search_inv_def
    by (intro exI [of _ L] exI [of _ R]) (use assms True in simp)
next
  case False
  then obtain k where h: "h = Suc k" using assms(5) by (cases h) auto
  define hi where "hi = int (slots (s_node st)) - 1"
  define last where "last = hi div 2"
  have hi: "0 \<le> last" "last \<le> hi" "hi < int (slots (s_node st))" "nat last < slots (s_node st)"
      "nat (last + 1) = Suc (nat last)" "nat (hi + 1) = slots (s_node st)"
    using slots_pos [OF False] by (auto simp: hi_def last_def)
  have st': "?st' = st\<lparr>s_lo := 0, s_hi := hi, s_last := last,
        s_element := elem (s_node st) (nat last),
        s_index := s_base st + last + sum_slots (counts (s_node st)) (nat (last + 1))\<rparr>"
    using False assms(6)
    by (simp add: search_point_def search_open_def elements234_slots hi_def last_def Let_def)
  have idx: "last + sum_slots (counts (s_node st)) (Suc (nat last))
      = int (length (pre (s_node st) (nat last))) + cnt (kid (s_node st) (nat last))"
    using sum_slots_counts [OF assms(5) [unfolded h] hi(4)] hi(1) by simp
  show ?thesis
    unfolding search_inv_def st'
    by (intro exI [of _ L] exI [of _ R]) (use assms h hi idx in simp)
qed

lemma search_open_measure:
  "s_last st = -1 \<Longrightarrow> search_measure h (search_point (search_open st)) \<le> 4 * h + 2"
proof -
  assume "s_last st = -1"
  moreover have "slots (s_node st) \<le> 3" by (cases "s_node st") simp_all
  ultimately show ?thesis
    by (auto simp: search_measure_def search_point_def search_open_def elements234_slots Let_def)
qed

lemma search_step_ok:
  assumes inv: "search_inv q xs h st" and el: "s_element st = Some x" and d: "q x \<noteq> 0"
    and cut: "cut q xs"
  shows "\<exists>st' h'. search234_step st (q x) = Some st' \<and> search_inv q xs h' st'
           \<and> search_measure h' st' < search_measure h st"
proof -
  define n where "n = s_node st"
  obtain k where h: "h = Suc k"
    using inv el by (cases h) (auto simp: search_inv_def)
  obtain L R where xs: "xs = L @ inorder n @ R" and base: "s_base st = int (length L)"
    and L: "\<forall>x \<in> set L. 0 < q x" and R: "\<forall>x \<in> set R. q x < 0" and ok: "okn (Suc k) n"
    and b: "0 \<le> s_lo st" "s_lo st \<le> s_last st" "s_last st \<le> s_hi st" "s_hi st < int (slots n)"
    and e: "s_element st = elem n (nat (s_last st))"
    and lo: "\<forall>x \<in> set (pre n (nat (s_lo st))). 0 < q x"
    and hi: "\<forall>x \<in> set (post n (nat (s_hi st + 1))). q x < 0"
    using inv h by (auto simp: search_inv_def n_def)
  have nn: "n \<noteq> Nul" "s_node st \<noteq> Nul" "s_last st \<noteq> -1" using ok b by (auto simp: n_def)
  have x: "elem n (nat (s_last st)) = Some x" using e el by simp
  have cutn: "cut q (inorder n)" using cut by (simp add: xs)
  define st1 where "st1 = (if q x > 0 then st\<lparr>s_lo := s_last st + 1\<rparr> else st\<lparr>s_hi := s_last st - 1\<rparr>)"
  have same: "s_node st1 = n" "s_base st1 = s_base st" "s_last st1 = s_last st"
    by (simp_all add: st1_def n_def)
  have step: "search234_step st (q x) = Some (search_point (search_open (search_narrow st (q x))))"
    using nn d by (simp add: search234_step_def)
  have lo1: "\<forall>x \<in> set (pre n (nat (s_lo st1))). 0 < q x"
    using cut_elem(2) [OF x cutn] lo b by (auto simp: st1_def Suc_nat_eq_nat_zadd1 add.commute)
  have hi1: "\<forall>x \<in> set (post n (nat (s_hi st1 + 1))). q x < 0"
    using cut_elem(1) [OF x cutn] hi b d by (auto simp: st1_def)
  have b1: "0 \<le> s_lo st1" "s_lo st1 \<le> s_hi st1 + 1" "s_hi st1 < int (slots n)"
    using b by (auto simp: st1_def)
  have less: "s_hi st1 - s_lo st1 < s_hi st - s_lo st"
    using b by (auto simp: st1_def)
  show ?thesis
  proof (cases "s_lo st1 > s_hi st1")
    case True
    define i where "i = nat (s_lo st1)"
    define st2 where "st2 = search_narrow st (q x)"
    have st2: "s_base st2 = s_base st + sum_slots (\<lambda>j. 1 + counts n j) i"
        "s_node st2 = kid n i" "s_last st2 = -1"
      using True
      by (simp_all add: st2_def search_narrow_def st1_def [symmetric] same i_def Let_def)
    have i: "i \<le> slots n" "i = nat (s_hi st1 + 1)"
      using True b1 by (auto simp: i_def)
    have "search_inv q xs k (search_point (search_open st2))"
    proof (rule search_open_inv)
      show "xs = (L @ pre n i) @ inorder (s_node st2) @ (post n i @ R)"
        using inorder_split [OF i(1)] by (simp add: xs st2)
      show "s_base st2 = int (length (L @ pre n i))"
        using sum_slots_pre [OF ok i(1)] by (simp add: st2 base)
      show "\<forall>x \<in> set (L @ pre n i). 0 < q x"
        using L lo1 by (auto simp: i_def)
      show "\<forall>x \<in> set (post n i @ R). q x < 0"
        using R hi1 by (auto simp: i(2))
    qed (use okn_kid [OF ok i(1)] in \<open>simp_all add: st2\<close>)
    moreover have "search_measure k (search_point (search_open st2)) < search_measure h st"
      using search_open_measure [OF st2(3), of k] by (simp add: search_measure_def h)
    ultimately show ?thesis using step by (auto simp: st2_def)
  next
    case False
    define last where "last = (s_lo st1 + s_hi st1) div 2"
    define st2 where "st2 = st1\<lparr>s_last := last, s_element := elem n (nat last),
        s_index := s_base st + last + sum_slots (counts n) (nat (last + 1))\<rparr>"
    have last: "s_lo st1 \<le> last" "last \<le> s_hi st1" using False by (auto simp: last_def)
    then have last': "nat last < slots n" "nat (last + 1) = Suc (nat last)" "0 \<le> last"
      using b1 by auto
    have narrow: "search_narrow st (q x) = st1"
      using False by (simp add: search_narrow_def st1_def [symmetric] Let_def)
    have "search_point (search_open (search_narrow st (q x))) = st2"
      using nn by (simp add: narrow search_open_def search_point_def same st2_def last_def Let_def)
    moreover have "search_inv q xs h st2"
      unfolding search_inv_def
      by (intro exI [of _ L] exI [of _ R])
         (use xs base L R ok h last last' lo1 hi1 b1 same sum_slots_counts [OF ok last'(1)] in
           \<open>simp add: st2_def\<close>)
    moreover have "search_measure h st2 < search_measure h st"
      using less False by (simp add: search_measure_def st2_def)
    ultimately show ?thesis using step by auto
  qed
qed

lemma search_start_ok:
  assumes "okn h (t_root t)"
  shows "\<exists>st. search234_start t = Some st \<and> search_inv q (elems234 t) h st"
proof (cases "t_root t = Nul")
  case True
  then show ?thesis
    using assms
    by (simp add: search234_start_def search234_step_def search_inv_def elems234_def)
next
  case False
  let ?st = "\<lparr>s_element = None, s_index = 0, s_lo = 0, s_hi = 0, s_last = -1, s_base = 0,
        s_node = t_root t\<rparr>"
  have "search234_start t = Some (search_point (search_open ?st))"
    using False by (simp add: search234_start_def search234_step_def)
  moreover have "search_inv q (elems234 t) h (search_point (search_open ?st))"
    by (rule search_open_inv [where L = "[]" and R = "[]"]) (simp_all add: elems234_def assms)
  ultimately show ?thesis by blast
qed

definition hit_spec :: "('a \<Rightarrow> int) \<Rightarrow> 'a list \<Rightarrow> 'a search234_state \<Rightarrow> bool" where
  "hit_spec q xs st \<longleftrightarrow> (\<exists>x. s_element st = Some x \<and> q x = 0 \<and> nth_opt xs (s_index st) = Some x)"

definition miss_spec :: "('a \<Rightarrow> int) \<Rightarrow> 'a list \<Rightarrow> 'a search234_state \<Rightarrow> bool" where
  "miss_spec q xs st \<longleftrightarrow> s_element st = None \<and> (\<forall>x \<in> set xs. q x \<noteq> 0)
     \<and> s_index st = int (length (filter (\<lambda>x. 0 < q x) xs))"

definition effective :: "relation \<Rightarrow> ('a \<Rightarrow> int) \<Rightarrow> 'a \<Rightarrow> int" where
  "effective r query x = (if query x = 0 \<and> \<not> equal_permitted r then reldir r else query x)"

lemma search_inv_hit:
  assumes "search_inv q xs h st" "s_element st = Some x" "q x = 0"
  shows "hit_spec q xs st"
proof -
  obtain k where h: "h = Suc k"
    using assms by (cases h) (auto simp: search_inv_def)
  let ?n = "s_node st" and ?i = "nat (s_last st)"
  from assms h obtain L R where xs: "xs = L @ inorder ?n @ R" and base: "s_base st = int (length L)"
    and idx: "s_index st = s_base st + int (length (pre ?n ?i)) + cnt (kid ?n ?i)"
    and el: "elem ?n ?i = Some x"
    by (auto simp: search_inv_def)
  have "nth_opt xs (s_index st) = Some x"
    unfolding xs idx base inorder_elem [OF el]
    by (simp add: nth_opt_append nth_opt_Cons cnt_def)
  with assms show ?thesis by (auto simp: hit_spec_def)
qed

lemma search_inv_miss:
  assumes "search_inv q xs h st" "s_element st = None"
  shows "miss_spec q xs st"
proof -
  have "h = 0"
  proof (rule ccontr)
    assume "h \<noteq> 0"
    with assms have "elem (s_node st) (nat (s_last st)) = None" "s_last st \<le> s_hi st" "0 \<le> s_lo st"
      "s_lo st \<le> s_last st" "s_hi st < int (slots (s_node st))"
      by (auto simp: search_inv_def)
    then show False by (simp add: elem_None)
  qed
  with assms obtain L R where "xs = L @ R" "s_index st = int (length L)"
     "\<forall>x \<in> set L. 0 < q x" "\<forall>x \<in> set R. q x < 0"
    by (auto simp: search_inv_def)
  moreover from this have "filter (\<lambda>x. 0 < q x) L = L" "filter (\<lambda>x. 0 < q x) R = []"
    by (auto simp: filter_id_conv filter_empty_conv)
  ultimately show ?thesis using assms(2) by (fastforce simp: miss_spec_def)
qed

lemma find_loop_ok:
  assumes "search_inv q xs h st" "cut q xs" "q = effective r query"
    and "r \<noteq> REL234_EQ \<longrightarrow> reldir r \<noteq> 0"
  obtains hit st' where "find_loop query r st = Some (hit, st')"
    "if hit then equal_permitted r \<and> hit_spec q xs st' else miss_spec q xs st'"
  using assms(1)
proof (induction "search_measure h st" arbitrary: h st thesis rule: less_induct)
  case less
  show ?case
  proof (cases "s_element st")
    case None
    then have "find_loop query r st = Some (False, st)" by (subst find_loop.simps) simp
    with search_inv_miss [OF less.prems(2) None] show ?thesis
      by (intro less.prems(1) [of False st]) simp_all
  next
    case (Some x)
    show ?thesis
    proof (cases "query x = 0 \<and> equal_permitted r")
      case True
      then have "q x = 0" by (simp add: assms(3) effective_def)
      moreover have "find_loop query r st = Some (True, st)"
        using True Some by (subst find_loop.simps) simp
      ultimately show ?thesis
        using search_inv_hit [OF less.prems(2) Some] True by (intro less.prems(1) [of True st]) simp_all
    next
      case False
      have nz: "q x \<noteq> 0"
        using False assms(4) by (auto simp: assms(3) effective_def equal_permitted_def)
      have qx: "(if query x = 0 then reldir r else query x) = q x"
        using False by (auto simp: assms(3) effective_def)
      from search_step_ok [OF less.prems(2) Some nz assms(2)] obtain st' h' where
        step: "search234_step st (q x) = Some st'" "search_inv q xs h' st'"
          "search_measure h' st' < search_measure h st" by blast
      have "find_loop query r st = find_loop query r st'"
        using False Some qx step(1) by (subst find_loop.simps) auto
      with less.hyps [OF step(3) _ step(2)] less.prems(1) show ?thesis by metis
    qed
  qed
qed

text \<open>
  What \<open>findrelpos234\<close> promises, over the list of elements alone: an element that
  compares equal where the relation permits one, and otherwise the neighbour of the
  place where the query belongs.
\<close>

definition below :: "('a \<Rightarrow> int) \<Rightarrow> 'a list \<Rightarrow> int" where
  "below p xs = int (length (filter (\<lambda>x. 0 < p x) xs))"

definition not_above :: "('a \<Rightarrow> int) \<Rightarrow> 'a list \<Rightarrow> int" where
  "not_above p xs = int (length (filter (\<lambda>x. 0 \<le> p x) xs))"

definition find_spec :: "relation \<Rightarrow> ('a \<Rightarrow> int) \<Rightarrow> 'a list \<Rightarrow> ('a \<times> int) option \<Rightarrow> bool" where
  "find_spec r p xs res =
     (if equal_permitted r \<and> (\<exists>x \<in> set xs. p x = 0)
      then (\<exists>x i. res = Some (x, i) \<and> p x = 0 \<and> nth_opt xs i = Some x)
      else res = (let i = (if r = REL234_GT then not_above p xs
                           else if r = REL234_GE then below p xs else below p xs - 1)
                  in if r = REL234_EQ then None else map_option (\<lambda>x. (x, i)) (nth_opt xs i)))"

lemma cut_effective: "cut p xs \<Longrightarrow> cut (effective r p) xs"
  unfolding cut_def
  by (erule sorted_wrt_mono_rel [rotated]) (auto simp: effective_def reldir_def equal_permitted_def)

lemma below_effective_LT: "below (effective REL234_LT p) xs = below p xs"
  by (simp add: below_def effective_def equal_permitted_def reldir_def)
     (rule arg_cong [where f = length], rule filter_cong, auto)

lemma below_effective_GT: "below (effective REL234_GT p) xs = not_above p xs"
  by (simp add: below_def not_above_def effective_def equal_permitted_def reldir_def)
     (rule arg_cong [where f = length], rule filter_cong, auto)

lemma findrelpos234_ok:
  assumes "wf234 t" "equal_permitted r \<longrightarrow> e \<noteq> None"
    and "cut (case e of Some q \<Rightarrow> cmp q | None \<Rightarrow> (\<lambda>_. - reldir r)) (elems234 t)"
  shows "\<exists>res. findrelpos234 t e cmp r = Some res
           \<and> find_spec r (case e of Some q \<Rightarrow> cmp q | None \<Rightarrow> (\<lambda>_. - reldir r)) (elems234 t) res"
proof -
  define p where "p = (case e of Some q \<Rightarrow> cmp q | None \<Rightarrow> (\<lambda>_. - reldir r))"
  let ?xs = "elems234 t" and ?q = "effective r p"
  obtain h where h: "okn h (t_root t)" using assms(1) by (auto simp: wf234_def)
  from search_start_ok [OF h] obtain st0 where
    st0: "search234_start t = Some st0" "search_inv ?q ?xs h st0" by blast
  have rd: "r \<noteq> REL234_EQ \<longrightarrow> reldir r \<noteq> 0" by (cases r) (simp_all add: reldir_def)
  have cutq: "cut ?q ?xs" using assms(3) by (simp add: cut_effective p_def)
  obtain hit st where
    loop: "find_loop p r st0 = Some (hit, st)"
      "if hit then equal_permitted r \<and> hit_spec ?q ?xs st else miss_spec ?q ?xs st"
    by (rule find_loop_ok [OF st0(2) cutq refl rd])
  have res: "findrelpos234 t e cmp r =
      (if hit then Some (map_option (\<lambda>x. (x, s_index st)) (s_element st))
       else if r = REL234_EQ then Some None
       else let index = (if r = REL234_LT \<or> r = REL234_LE then s_index st - 1 else s_index st)
         in Some (map_option (\<lambda>x. (x, index)) (nth_opt ?xs index)))"
    using assms(2) st0(1) loop(1) index234_ok [OF assms(1)]
    by (auto simp: findrelpos234_def p_def [symmetric] Let_def)
  show ?thesis
  proof (cases hit)
    case True
    with loop(2) obtain x where "s_element st = Some x" "?q x = 0" "equal_permitted r"
      "nth_opt ?xs (s_index st) = Some x" by (auto simp: hit_spec_def)
    moreover from this have "p x = 0" "x \<in> set ?xs"
      by (auto simp: effective_def nth_opt_def split: if_splits)
    ultimately show ?thesis
      using True res by (auto simp: find_spec_def p_def [symmetric])
  next
    case False
    with loop(2) have miss: "\<forall>x \<in> set ?xs. ?q x \<noteq> 0" "s_index st = below ?q ?xs"
      by (simp_all add: miss_spec_def below_def)
    have none: "\<not> (equal_permitted r \<and> (\<exists>x \<in> set ?xs. p x = 0))"
      using miss(1) by (auto simp: effective_def)
    have eff: "?q = p" if "equal_permitted r"
      using that by (simp add: effective_def fun_eq_iff)
    show ?thesis
      using False res none miss(2) eff
      by (cases r) (auto simp: find_spec_def p_def [symmetric] Let_def equal_permitted_def
          below_effective_LT below_effective_GT)
  qed
qed

section \<open>Deletion\<close>

text \<open>
  The rearrangements \<open>delpos234_internal\<close> makes. \<open>drop_first\<close>, \<open>drop_last\<close>: a sibling
  gives up its outermost kid and element. \<open>drop_pair n i j\<close> removes element \<open>i\<close> and kid
  \<open>j\<close> of \<open>n\<close> and closes the gap; a 2-node is left with no element, which is \<open>Nul\<close> here
  (the code then makes the remaining kid the root).
\<close>

definition last_slot :: "'a node234 \<Rightarrow> nat" where
  "last_slot n = nat (elements234 n)"

definition drop_last :: "'a node234 \<Rightarrow> 'a node234" where
  "drop_last n = (case n of
      N3 a ca x b cb y c cc \<Rightarrow> N2 a ca x b cb
    | N4 a ca x b cb y c cc z d cd \<Rightarrow> N3 a ca x b cb y c cc
    | _ \<Rightarrow> Nul)"

definition drop_first :: "'a node234 \<Rightarrow> 'a node234" where
  "drop_first n = (case n of
      N3 a ca x b cb y c cc \<Rightarrow> N2 b cb y c cc
    | N4 a ca x b cb y c cc z d cd \<Rightarrow> N3 b cb y c cc z d cd
    | _ \<Rightarrow> Nul)"

definition drop_pair :: "'a node234 \<Rightarrow> nat \<Rightarrow> nat \<Rightarrow> 'a node234" where
  "drop_pair n i j = (case n of
      N3 a ca x b cb y c cc \<Rightarrow>
        (let e = (if i = 0 then y else x) in
         if j = 0 then N2 b cb e c cc else if j = 1 then N2 a ca e c cc else N2 a ca e b cb)
    | N4 a ca x b cb y c cc z d cd \<Rightarrow>
        (let e = (if i = 0 then y else x); f = (if i = 2 then y else z) in
         if j = 0 then N3 b cb e c cc f d cd else if j = 1 then N3 a ca e c cc f d cd
         else if j = 2 then N3 a ca e b cb f d cd else N3 a ca e b cb f c cc)
    | _ \<Rightarrow> Nul)"

text \<open>
  Descending into a kid that has only one element: cases 3a (a sibling with more gives a
  subtree) and 3b (merge with a sibling). The result is the new parent, the slot of the
  subtree to go on with, the position in it and that subtree; \<open>None\<close> is a NULL sibling.
\<close>

definition borrow_left :: "'a node234 \<Rightarrow> nat \<Rightarrow> int \<Rightarrow> ('a node234 \<times> nat \<times> int \<times> 'a node234) option" where
  "borrow_left n ki index =
     (case (kid n ki, elem n (ki - 1), elem (kid n (ki - 1)) (last_slot (kid n (ki - 1)) - 1)) of
        (N2 a ca x b cb, Some e, Some s) \<Rightarrow>
          (let sib = kid n (ki - 1);
               sub = N3 (kid sib (last_slot sib)) (counts sib (last_slot sib)) e a ca x b cb;
               sib' = drop_last sib;
               n1 = set_kid (set_elem n (ki - 1) s) ki sub (countnode234 sub);
               index = index + counts n (ki - 1) - countnode234 sib'
           in Some (set_kid n1 (ki - 1) sib' (countnode234 sib'), ki, index, sub))
      | _ \<Rightarrow> None)"

definition borrow_right :: "'a node234 \<Rightarrow> nat \<Rightarrow> int \<Rightarrow> ('a node234 \<times> nat \<times> int \<times> 'a node234) option" where
  "borrow_right n ki index =
     (case (kid n ki, elem n ki, elem (kid n (ki + 1)) 0) of
        (N2 a ca x b cb, Some e, Some s) \<Rightarrow>
          (let sib = kid n (ki + 1);
               sub = N3 a ca x b cb e (kid sib 0) (counts sib 0);
               sib' = drop_first sib;
               n1 = set_kid (set_elem n ki s) ki sub (countnode234 sub)
           in Some (set_kid n1 (ki + 1) sib' (countnode234 sib'), ki, index, sub))
      | _ \<Rightarrow> None)"

definition merge_kids :: "'a node234 \<Rightarrow> nat \<Rightarrow> int \<Rightarrow> ('a node234 \<times> nat \<times> int \<times> 'a node234) option" where
  "merge_kids n ki0 index0 =
     (let ki = (if ki0 > 0 then ki0 - 1 else ki0);
          index = (if ki0 > 0 then index0 + counts n ki + 1 else index0) in
      case (kid n ki, elem n ki, kid n (ki + 1)) of
        (N2 a ca x b cb, Some e, N2 c cc y d cd) \<Rightarrow>
          (let sub = N4 a ca x b cb e c cc y d cd;
               n1 = set_kid n (ki + 1) sub (countnode234 sub)
           in Some (drop_pair n1 ki ki, ki, index, sub))
      | _ \<Rightarrow> None)"

definition descend :: "'a node234 \<Rightarrow> nat \<Rightarrow> int \<Rightarrow> ('a node234 \<times> nat \<times> int \<times> 'a node234) option" where
  "descend n ki index =
     (if kid n ki = Nul then None
      else if \<not> is_2node (kid n ki) then Some (n, ki, index, kid n ki)
      else if ki > 0 \<and> \<not> is_2node (kid n (ki - 1)) then borrow_left n ki index
      else if ki < 3 \<and> \<not> is_2node (kid n (ki + 1)) then borrow_right n ki index
      else merge_kids n ki index)"

text \<open>
  Case 2c: the element to delete and its two one-element neighbours become one 4-node.
\<close>

definition merge_around :: "'a node234 \<Rightarrow> nat \<Rightarrow> ('a node234 \<times> nat \<times> int \<times> 'a node234) option" where
  "merge_around n ei =
     (case (kid n ei, elem n ei, kid n (ei + 1)) of
        (N2 a ca x b cb, Some e, N2 c cc y d cd) \<Rightarrow>
          (let big = N4 a ca x b cb e c cc y d cd;
               n1 = set_kid n ei big (countnode234 big)
           in Some (drop_pair n1 ei (ei + 1), ei, ca + cb + 1, big))
      | _ \<Rightarrow> None)"

text \<open>The predecessor and the successor of an element: \<open>m\<close> walks down to the outermost leaf.\<close>

definition last_kid :: "'a node234 \<Rightarrow> 'a node234" where
  "last_kid m = (if kid m 3 \<noteq> Nul then kid m 3 else if kid m 2 \<noteq> Nul then kid m 2
                 else if kid m 1 \<noteq> Nul then kid m 1 else kid m 0)"

definition last_elem :: "'a node234 \<Rightarrow> 'a option" where
  "last_elem m = (if elem m 2 \<noteq> None then elem m 2 else if elem m 1 \<noteq> None then elem m 1
                  else elem m 0)"

lemma size_last_kid [termination_simp]: "kid m 0 \<noteq> Nul \<Longrightarrow> size (last_kid m) < size m"
  by (auto simp: last_kid_def kid_def split: node234.splits if_splits)

fun rightmost :: "'a node234 \<Rightarrow> 'a option" where
  "rightmost m = (if kid m 0 \<noteq> Nul then rightmost (last_kid m) else last_elem m)"

fun leftmost :: "'a node234 \<Rightarrow> 'a option" where
  "leftmost m = (if kid m 0 \<noteq> Nul then leftmost (kid m 0) else elem m 0)"

declare rightmost.simps [simp del] leftmost.simps [simp del]

text \<open>Descents end: every subtree the deletion goes on with is less high than the node.\<close>

fun ht :: "'a node234 \<Rightarrow> nat" where
  "ht Nul = 0"
| "ht (N2 a ca x b cb) = Suc (max (ht a) (ht b))"
| "ht (N3 a ca x b cb y c cc) = Suc (max (ht a) (max (ht b) (ht c)))"
| "ht (N4 a ca x b cb y c cc z d cd) = Suc (max (ht a) (max (ht b) (max (ht c) (ht d))))"

lemma ht_kid: "kid n i \<noteq> Nul \<Longrightarrow> ht (kid n i) < ht n"
  by (auto simp: kid_def split: node234.splits if_splits)

lemma ht_kid_le: "ht (kid n i) \<le> ht n - 1"
  by (auto simp: kid_def split: node234.split)

lemma elem_Nul [simp]: "elem Nul i = None"
  by (simp add: elem_def)

lemma ht_kid_kid: "elem (kid n i) j = Some x \<Longrightarrow> Suc (Suc (ht (kid (kid n i) k))) \<le> ht n"
  using ht_kid [of n i] ht_kid_le [of "kid n i" k] by (cases "kid n i") auto

lemma kid_N2: "kid n i = N2 a ca x b cb \<Longrightarrow> Suc (Suc (ht a)) \<le> ht n \<and> Suc (Suc (ht b)) \<le> ht n"
  using ht_kid [of n i] by auto

lemma descend_ht:
  assumes "descend n ki index = Some (n', p, index', sub)"
  shows "ht sub < ht n"
proof -
  have left: "ht sub < ht n" if "borrow_left n ki index = Some (n', p, index', sub)"
  proof -
    let ?sib = "kid n (ki - 1)"
    from that obtain a ca x b cb e s where k: "kid n ki = N2 a ca x b cb"
      and s: "elem ?sib (last_slot ?sib - 1) = Some s"
      and sub: "sub = N3 (kid ?sib (last_slot ?sib)) (counts ?sib (last_slot ?sib)) e a ca x b cb"
      by (auto simp: borrow_left_def Let_def split: node234.splits option.splits)
    show ?thesis
      using kid_N2 [OF k] ht_kid_kid [OF s, of "last_slot ?sib"] by (auto simp: sub max_def)
  qed
  have right: "ht sub < ht n" if "borrow_right n ki index = Some (n', p, index', sub)"
  proof -
    let ?sib = "kid n (ki + 1)"
    from that obtain a ca x b cb e s where k: "kid n ki = N2 a ca x b cb"
      and s: "elem ?sib 0 = Some s"
      and sub: "sub = N3 a ca x b cb e (kid ?sib 0) (counts ?sib 0)"
      by (auto simp: borrow_right_def Let_def split: node234.splits option.splits)
    show ?thesis
      using kid_N2 [OF k] ht_kid_kid [OF s, of 0] by (auto simp: sub max_def)
  qed
  have merge: "ht sub < ht n" if "merge_kids n ki index = Some (n', p, index', sub)"
    using that
    by (auto simp: merge_kids_def Let_def max_def
        split: node234.splits option.splits dest!: kid_N2)
  show ?thesis
    using assms left right merge ht_kid [of n ki]
    by (auto simp: descend_def split: if_splits)
qed

lemma merge_around_ht:
  "merge_around n ei = Some (n', p, index', big) \<Longrightarrow> ht big < ht n"
  by (auto simp: merge_around_def Let_def max_def
        split: node234.splits option.splits dest!: kid_N2)

text \<open>
  \<open>del_node at_root index n\<close> deletes position \<open>index\<close> below \<open>n\<close> and returns the new subtree
  and the element. \<open>at_root\<close> is \<open>n->parent == NULL\<close>: the root may run out of elements in cases
  3b and 2c, and then the merged subtree becomes the root. On the way back every stored
  count above the leaf is decremented. \<open>None\<close>: a NULL pointer is followed, or a node
  below the root has run out of elements.
\<close>

definition put_back :: "'a node234 \<Rightarrow> nat \<Rightarrow> 'a node234 \<Rightarrow> 'a node234" where
  "put_back n p k = set_kid n p k (counts n p - 1)"

function del_node :: "bool \<Rightarrow> int \<Rightarrow> 'a node234 \<Rightarrow> ('a node234 \<times> 'a) option" where
  "del_node at_root index n =
     (if n = Nul then None
      else (case locate index n of
        InKid ki index' \<Rightarrow>
          (case descend n ki index' of
             None \<Rightarrow> None
           | Some (n', p, index'', sub) \<Rightarrow>
               if n' = Nul then (if at_root then del_node True index'' sub else None)
               else map_option (\<lambda>(k, x). (put_back n' p k, x)) (del_node False index'' sub))
      | AtElem ei \<Rightarrow>
          (case elem n ei of
             None \<Rightarrow> None
           | Some x \<Rightarrow>
               if at_root \<and> is_2node n \<and> kid n 0 = Nul then Some (Nul, x)
               else if kid n 0 = Nul \<and> \<not> is_2node n then
                 Some (drop_pair n ei (last_slot n), x)
               else if kid n ei = Nul then None
               else if \<not> is_2node (kid n ei) then
                 (case rightmost (kid n ei) of
                    None \<Rightarrow> None
                  | Some target \<Rightarrow>
                      map_option (\<lambda>(k, _). (put_back (set_elem n ei target) ei k, x))
                        (del_node False (counts n ei - 1) (kid n ei)))
               else if \<not> is_2node (kid n (ei + 1)) then
                 (case leftmost (kid n (ei + 1)) of
                    None \<Rightarrow> None
                  | Some target \<Rightarrow>
                      map_option (\<lambda>(k, _). (put_back (set_elem n ei target) (ei + 1) k, x))
                        (del_node False 0 (kid n (ei + 1))))
               else
                 (case merge_around n ei of
                    None \<Rightarrow> None
                  | Some (n', p, index'', big) \<Rightarrow>
                      if n' = Nul then
                        (if at_root then map_option (\<lambda>(k, _). (k, x)) (del_node True index'' big)
                         else None)
                      else map_option (\<lambda>(k, _). (put_back n' p k, x))
                             (del_node False index'' big)))))"
  by pat_completeness auto
termination
proof (relation "measure (\<lambda>(at_root, index, n). ht n)")
  fix n :: "'a node234" and ei
  assume "\<not> is_2node (kid n (ei + 1))"
  then have "kid n (ei + 1) \<noteq> Nul" by (auto simp: elem_def)
  then show "((False, 0, kid n (ei + 1)), at_root, index, n) \<in> measure (\<lambda>(at_root, index, n). ht n)"
    for at_root index by (simp add: ht_kid)
qed (auto simp: ht_kid dest: descend_ht merge_around_ht)

declare del_node.simps [simp del]

definition delpos234_internal :: "'a tree234 \<Rightarrow> int \<Rightarrow> ('a tree234 \<times> 'a option) option" where
  "delpos234_internal t index =
     map_option (\<lambda>(n, x). (t\<lparr>t_root := n\<rparr>, Some x)) (del_node True index (t_root t))"

definition delpos234 :: "'a tree234 \<Rightarrow> int \<Rightarrow> ('a tree234 \<times> 'a option) option" where
  "delpos234 t index =
     (if index < 0 \<or> index \<ge> countnode234 (t_root t) then Some (t, None)
      else delpos234_internal t index)"

definition del234 :: "'a tree234 \<Rightarrow> 'a \<Rightarrow> ('a tree234 \<times> 'a option) option" where
  "del234 t e =
     (case t_cmp t of
        None \<Rightarrow> if t_root t = Nul then Some (t, None) else None
      | Some c \<Rightarrow> Option.bind (findrelpos234 t (Some e) c REL234_EQ) (\<lambda>found.
          case found of None \<Rightarrow> Some (t, None) | Some (_, index) \<Rightarrow> delpos234_internal t index))"

subsection \<open>Deletion keeps the tree and removes the element\<close>

text \<open>
  \<open>went h n i j res\<close>: \<open>descend n i j\<close> (or the merge of case 2c, where \<open>j\<close> is relative
  to the slot in the same way) has prepared a subtree \<open>sub\<close> of at least two elements that
  holds the element at \<open>j\<close> of kid \<open>i\<close>, without changing the list the node stands for.
\<close>

definition went :: "nat \<Rightarrow> 'a node234 \<Rightarrow> int \<Rightarrow> ('a node234 \<times> nat \<times> int \<times> 'a node234) option \<Rightarrow> bool" where
  "went h n pos res = (case res of
      None \<Rightarrow> False
    | Some (n', p, j', sub) \<Rightarrow>
        okn (Suc h) sub \<and> \<not> is_2node sub \<and> 0 \<le> j' \<and> j' < cnt sub
        \<and> (if n' = Nul then is_2node n \<and> inorder sub = inorder n \<and> j' = pos
           else okn (Suc (Suc h)) n' \<and> p \<le> slots n' \<and> kid n' p = sub \<and> inorder n' = inorder n
             \<and> int (length (pre n' p)) + j' = pos))"

lemma is_2node_iff: "n \<noteq> Nul \<Longrightarrow> is_2node n \<longleftrightarrow> slots n = 1"
  by (cases n) (simp_all add: elem_def)

lemma is_2node_cases:
  assumes "n \<noteq> Nul" "is_2node n"
  obtains a ca x b cb where "n = N2 a ca x b cb"
  using assms by (cases n) (auto simp: elem_def)

lemma not_2node_cases:
  assumes "\<not> is_2node n"
  obtains (three) a ca x b cb y c cc where "n = N3 a ca x b cb y c cc"
  | (four) a ca x b cb y c cc z d cd where "n = N4 a ca x b cb y c cc z d cd"
  using assms by (cases n) (auto simp: elem_def)

lemmas del_defs = went_def slot_defs pre_def cnt_def countnode234_def drop_last_def drop_first_def
  drop_pair_def last_slot_def elements234_def Let_def

lemma borrow_left_ok:
  assumes ok: "okn (Suc (Suc h)) n" and i: "0 < i" "i \<le> slots n" and two: "is_2node (kid n i)"
    and sib: "\<not> is_2node (kid n (i - 1))" and j: "0 \<le> j" "j < cnt (kid n i)"
  shows "went h n (int (length (pre n i)) + j) (borrow_left n i j)"
proof -
  have "kid n i \<noteq> Nul" using okn_Nul_kid [OF ok i(2)] by simp
  then obtain a ca x b cb where k: "kid n i = N2 a ca x b cb"
    using two by (elim is_2node_cases)
  from i consider "i = 1" | "i = 2" | "i = 3" using i by (cases n) force+
  then show ?thesis
  proof cases
    case 1
    from sib show ?thesis
      by (rule not_2node_cases; insert ok i j k 1; cases n) (simp_all add: del_defs borrow_left_def)
  next
    case 2
    from sib show ?thesis
      by (rule not_2node_cases; insert ok i j k 2; cases n) (simp_all add: del_defs borrow_left_def)
  next
    case 3
    from sib show ?thesis
      by (rule not_2node_cases; insert ok i j k 3; cases n) (simp_all add: del_defs borrow_left_def)
  qed
qed

lemma borrow_right_ok:
  assumes ok: "okn (Suc (Suc h)) n" and i: "i < slots n" and two: "is_2node (kid n i)"
    and sib: "\<not> is_2node (kid n (i + 1))" and j: "0 \<le> j" "j < cnt (kid n i)"
  shows "went h n (int (length (pre n i)) + j) (borrow_right n i j)"
proof -
  have "kid n i \<noteq> Nul" using okn_Nul_kid [OF ok, of i] i by simp
  then obtain a ca x b cb where k: "kid n i = N2 a ca x b cb"
    using two by (elim is_2node_cases)
  from i consider "i = 0" | "i = 1" | "i = 2" using i by (cases n) force+
  then show ?thesis
  proof cases
    case 1
    from sib show ?thesis
      by (rule not_2node_cases; insert ok i j k 1; cases n) (simp_all add: del_defs borrow_right_def)
  next
    case 2
    from sib show ?thesis
      by (rule not_2node_cases; insert ok i j k 2; cases n) (simp_all add: del_defs borrow_right_def)
  next
    case 3
    from sib show ?thesis
      by (rule not_2node_cases; insert ok i j k 3; cases n) (simp_all add: del_defs borrow_right_def)
  qed
qed

lemma merge_kids_ok:
  assumes ok: "okn (Suc (Suc h)) n" and i: "i \<le> slots n" and two: "is_2node (kid n i)"
    and l: "0 < i \<Longrightarrow> is_2node (kid n (i - 1))" and r: "i < slots n \<Longrightarrow> is_2node (kid n (i + 1))"
    and j: "0 \<le> j" "j < cnt (kid n i)"
  shows "went h n (int (length (pre n i)) + j) (merge_kids n i j)"
proof -
  have k: "\<exists>a ca x b cb. kid n i' = N2 a ca x b cb" if "i' \<le> slots n" "is_2node (kid n i')" for i'
    using okn_Nul_kid [OF ok that(1)] that(2) by (metis is_2node_cases nat.distinct(1))
  obtain a ca x b cb where ki: "kid n i = N2 a ca x b cb" using k [OF i two] by blast
  from i consider "i = 0" | "i = 1" | "i = 2" | "i = 3" using i by (cases n) force+
  then show ?thesis
  proof cases
    case 1
    have "0 < slots n" using ok by (cases n) (auto simp: okn.simps)
    then obtain c cc y d cd where "kid n (Suc 0) = N2 c cc y d cd"
      using k [of 1] r 1 by auto
    then show ?thesis
      using ok i j ki 1 by (cases n) (simp_all add: del_defs merge_kids_def)
  next
    case 2
    then obtain c cc y d cd where "kid n 0 = N2 c cc y d cd" using k [of 0] l by auto
    then show ?thesis
      using ok i j ki 2 by (cases n) (simp_all add: del_defs merge_kids_def)
  next
    case 3
    then obtain c cc y d cd where "kid n (Suc 0) = N2 c cc y d cd" using k [of 1] l i by auto
    then show ?thesis
      using ok i j ki 3 by (cases n) (simp_all add: del_defs merge_kids_def)
  next
    case 4
    then obtain c cc y d cd where "kid n 2 = N2 c cc y d cd" using k [of 2] l i by auto
    then show ?thesis
      using ok i j ki 4 by (cases n) (simp_all add: del_defs merge_kids_def)
  qed
qed

lemma descend_ok:
  assumes ok: "okn (Suc (Suc h)) n" and i: "i \<le> slots n" and j: "0 \<le> j" "j < cnt (kid n i)"
  shows "went h n (int (length (pre n i)) + j) (descend n i j)"
proof -
  have nn: "kid n i \<noteq> Nul" using okn_Nul_kid [OF ok i] by simp
  have s3: "slots n \<le> 3" by (cases n) simp_all
  have out: "is_2node (kid n (i + 1))" if "\<not> i < slots n"
    using that i by (cases n) (auto simp: kid_def)
  show ?thesis
  proof (cases "is_2node (kid n i)")
    case False
    have "n \<noteq> Nul" using ok by auto
    then show ?thesis
      using False nn ok i j okn_kid [OF ok i] inorder_split [OF i]
      by (simp add: descend_def went_def)
  next
    case two: True
    consider (left) "0 < i" "\<not> is_2node (kid n (i - 1))"
      | (right) "\<not> (0 < i \<and> \<not> is_2node (kid n (i - 1)))" "i < slots n" "\<not> is_2node (kid n (i + 1))"
      | (none) "\<not> (0 < i \<and> \<not> is_2node (kid n (i - 1)))" "is_2node (kid n (i + 1))"
      using out by metis
    then show ?thesis
    proof cases
      case left
      then show ?thesis
        using borrow_left_ok [OF ok left(1) i two left(2) j] nn two by (simp add: descend_def)
    next
      case right
      then show ?thesis
        using borrow_right_ok [OF ok right(2) two right(3) j] nn two s3
        by (auto simp: descend_def)
    next
      case none
      then show ?thesis
        using merge_kids_ok [OF ok i two _ _ j] nn two by (auto simp: descend_def)
    qed
  qed
qed

lemma merge_around_ok:
  assumes ok: "okn (Suc (Suc h)) n" and i: "i < slots n"
    and two: "is_2node (kid n i)" "is_2node (kid n (i + 1))"
  shows "went h n (int (length (pre n i)) + cnt (kid n i)) (merge_around n i)"
proof -
  have k: "\<exists>a ca x b cb. kid n i' = N2 a ca x b cb" if "i' \<le> slots n" "is_2node (kid n i')" for i'
    using okn_Nul_kid [OF ok that(1)] that(2) by (metis is_2node_cases nat.distinct(1))
  obtain a ca x b cb where ki: "kid n i = N2 a ca x b cb" using k [OF _ two(1)] i by auto
  obtain c cc y d cd where kj: "kid n (i + 1) = N2 c cc y d cd" using k [OF _ two(2)] i by auto
  from i consider "i = 0" | "i = 1" | "i = 2" by (cases n) force+
  then show ?thesis
    by cases (insert ok i ki kj, (cases n; simp_all add: del_defs merge_around_def)+)
qed

lemma rightmost_ok:
  "okn (Suc h) m \<Longrightarrow> \<exists>xs x. rightmost m = Some x \<and> inorder m = xs @ [x]"
proof (induction h arbitrary: m)
  case 0
  then show ?case
    by (subst rightmost.simps, cases m) (auto simp: kid_def last_elem_def elem_def)
next
  case (Suc h)
  have k0: "kid m 0 \<noteq> Nul" using okn_Nul_kid [OF Suc.prems, of 0] by simp
  have lk: "last_kid m = kid m (slots m)"
    using okn_Nul_kid [OF Suc.prems, of "slots m"] by (cases m) (auto simp: last_kid_def kid_def)
  have "okn (Suc h) (kid m (slots m))" by (rule okn_kid [OF Suc.prems]) simp
  from Suc.IH [OF this] obtain xs x where
    "rightmost (kid m (slots m)) = Some x" "inorder (kid m (slots m)) = xs @ [x]" by blast
  moreover have "inorder m = pre m (slots m) @ inorder (kid m (slots m))"
    using inorder_split [of "slots m" m] by simp
  ultimately show ?case using k0 lk by (subst rightmost.simps) auto
qed

lemma leftmost_ok:
  "okn (Suc h) m \<Longrightarrow> \<exists>xs x. leftmost m = Some x \<and> inorder m = x # xs"
proof (induction h arbitrary: m)
  case 0
  then show ?case
    by (subst leftmost.simps, cases m) (auto simp: kid_def elem_def)
next
  case (Suc h)
  have k0: "kid m 0 \<noteq> Nul" using okn_Nul_kid [OF Suc.prems, of 0] by simp
  have "okn (Suc h) (kid m 0)" by (rule okn_kid [OF Suc.prems]) simp
  from Suc.IH [OF this] obtain xs x where
    "leftmost (kid m 0) = Some x" "inorder (kid m 0) = x # xs" by blast
  moreover have "inorder m = inorder (kid m 0) @ post m 0"
    using inorder_split [of 0 m] by simp
  ultimately show ?case using k0 by (subst leftmost.simps) auto
qed

definition deleted :: "nat \<Rightarrow> bool \<Rightarrow> int \<Rightarrow> 'a list \<Rightarrow> ('a node234 \<times> 'a) option \<Rightarrow> bool" where
  "deleted h shrink index xs res = (case res of
      None \<Rightarrow> False
    | Some (n', x) \<Rightarrow> nth_opt xs index = Some x \<and> inorder n' = del_at index xs
        \<and> (okn h n' \<or> shrink \<and> okn (h - 1) n'))"

lemma put_back_ok:
  assumes "okn (Suc (Suc h)) n" "p \<le> slots n" "okn (Suc h) k" "0 \<le> j" "j < cnt (kid n p)"
    "inorder k = del_at j (inorder (kid n p))"
  shows "okn (Suc (Suc h)) (put_back n p k)"
    and "inorder (put_back n p k) = del_at (int (length (pre n p)) + j) (inorder n)"
proof -
  have n: "n \<noteq> Nul" using assms(1) by auto
  have c: "counts n p - 1 = cnt k"
    using counts_ok [OF assms(1,2)] assms(4-6) by (simp add: cnt_def length_del_at of_nat_diff)
  show "okn (Suc (Suc h)) (put_back n p k)"
    unfolding put_back_def by (rule okn_set_kid [OF assms(1,3) c])
  show "inorder (put_back n p k) = del_at (int (length (pre n p)) + j) (inorder n)"
    using assms inorder_split [OF assms(2)]
    by (simp add: put_back_def inorder_set_kid [OF n assms(2)] del_at_append cnt_def)
qed

lemma leaf_drop_ok:
  assumes "okn (Suc 0) n" "\<not> is_2node n" "i < slots n"
  shows "okn (Suc 0) (drop_pair n i (last_slot n))"
    and "inorder (drop_pair n i (last_slot n)) = del_at (int i) (inorder n)"
    and "nth_opt (inorder n) (int i) = elem n i"
    and "cnt (kid n i) = 0" and "length (pre n i) = i"
proof -
  have i: "i = 0 \<or> i = 1 \<or> i = 2" using assms(3) by (cases n) auto
  note defs = drop_pair_def last_slot_def elements234_def elem_def kid_def pre_def cnt_def
    Let_def at_simps
  have "okn (Suc 0) (drop_pair n i (last_slot n))
    \<and> inorder (drop_pair n i (last_slot n)) = del_at (int i) (inorder n)
    \<and> nth_opt (inorder n) (int i) = elem n i
    \<and> cnt (kid n i) = 0 \<and> length (pre n i) = i"
    using assms(2)
    by (rule not_2node_cases; insert assms i; elim disjE; simp add: defs)
  then show "okn (Suc 0) (drop_pair n i (last_slot n))"
    "inorder (drop_pair n i (last_slot n)) = del_at (int i) (inorder n)"
    "nth_opt (inorder n) (int i) = elem n i"
    "cnt (kid n i) = 0" "length (pre n i) = i" by blast+
qed

lemma del_at_last: "del_at (int (length xs)) (xs @ [x]) = xs"
  by (simp add: del_at_def)

lemma del_at_first: "del_at 0 (x # xs) = xs"
  by (simp add: del_at_def)

lemma inorder_set_elem:
  assumes "elem n i = Some x"
  shows "inorder (set_elem n i e) = (pre n i @ inorder (kid n i)) @ e # inorder (kid n (Suc i)) @ post n (Suc i)"
    and "kid (set_elem n i e) j = kid n j" and "slots (set_elem n i e) = slots n"
    and "okn h (set_elem n i e) = okn h n" and "pre (set_elem n i e) i = pre n i"
    and "pre (set_elem n i e) (Suc i) = pre n i @ inorder (kid n i) @ [e]"
    and "post (set_elem n i e) (Suc i) = post n (Suc i)"
    and "counts (set_elem n i e) j = counts n j"
  using assms
  by (cases n; cases h; auto simp: slot_defs pre_def post_def split: if_splits)+

lemma del_node_leaf:
  assumes "okn (Suc 0) n" "at_root \<or> \<not> is_2node n" "0 \<le> index" "index < cnt n"
  shows "deleted (Suc 0) (at_root \<and> is_2node n) index (inorder n) (del_node at_root index n)"
proof -
  have n: "n \<noteq> Nul" using assms(1) by auto
  have k: "kid n i = Nul" if "i \<le> slots n" for i using okn_Nul_kid [OF assms(1) that] by simp
  note slot = locate_ok [OF assms(1,3,4)]
  obtain i where loc: "locate index n = AtElem i"
    using slot k by (cases "locate index n") (auto simp: slot_ok_def)
  with slot have i: "i < slots n" "index = int (length (pre n i)) + cnt (kid n i)"
    by (simp_all add: slot_ok_def)
  obtain x where x: "elem n i = Some x" using elem_some [OF i(1)] by blast
  show ?thesis
  proof (cases "is_2node n")
    case True
    with n obtain a ca y b cb where nn: "n = N2 a ca y b cb" by (elim is_2node_cases)
    moreover have "a = Nul" "b = Nul" using k [of 0] k [of 1] nn by (simp_all add: kid_def)
    ultimately show ?thesis
      using loc True assms x i
      by (subst del_node.simps)
         (simp add: deleted_def elem_def kid_def pre_def at_simps del_at_first split: if_splits)
  next
    case False
    then show ?thesis
      using loc x i n k [of 0] leaf_drop_ok [OF assms(1) False i(1)]
      by (subst del_node.simps) (auto simp: deleted_def)
  qed
qed

lemma deletedE:
  assumes "deleted h shrink index xs res" "\<not> shrink"
  obtains k x where "res = Some (k, x)" "nth_opt xs index = Some x" "inorder k = del_at index xs" "okn h k"
  using assms by (auto simp: deleted_def split: option.splits)

lemma went_del:
  assumes went: "went h n pos (Some (n', p, j, sub))" and "at_root \<or> \<not> is_2node n"
    and rec: "\<And>r. deleted (Suc h) False j (inorder sub) (del_node r j sub)"
    and pos: "0 \<le> pos"
  shows "deleted (Suc (Suc h)) (at_root \<and> is_2node n) pos (inorder n)
    (if n' = Nul then (if at_root then del_node True j sub else None)
     else map_option (\<lambda>(k, x). (put_back n' p k, x)) (del_node False j sub))"
proof (cases "n' = Nul")
  case True
  with went have w: "is_2node n" "inorder sub = inorder n" "j = pos" by (simp_all add: went_def)
  obtain k x where "del_node True j sub = Some (k, x)" "nth_opt (inorder sub) j = Some x"
      "inorder k = del_at j (inorder sub)" "okn (Suc h) k"
    by (rule deletedE [OF rec [of True]]) simp
  then show ?thesis using True w assms(2) by (simp add: deleted_def)
next
  case False
  with went have w: "okn (Suc (Suc h)) n'" "p \<le> slots n'" "kid n' p = sub" "inorder n' = inorder n"
      "int (length (pre n' p)) + j = pos" "0 \<le> j" "j < cnt sub" by (simp_all add: went_def)
  obtain k x where k: "del_node False j sub = Some (k, x)" "nth_opt (inorder sub) j = Some x"
      "inorder k = del_at j (inorder sub)" "okn (Suc h) k"
    by (rule deletedE [OF rec [of False]]) simp
  have "nth_opt (inorder n) pos = Some x"
    using inorder_split [OF w(2)] k(2) w by (auto simp: nth_opt_append cnt_def)
  then show ?thesis
    using False k put_back_ok [OF w(1,2) k(4) w(6)] w by (simp add: deleted_def)
qed

text \<open>Cases 2a and 2b: the neighbour \<open>t\<close> replaces the element and is deleted below.\<close>

lemma replace_by_predecessor:
  assumes ok: "okn (Suc (Suc h)) n" and x: "elem n i = Some x"
    and rec: "deleted (Suc h) False (cnt (kid n i) - 1) (inorder (kid n i))
                (del_node False (cnt (kid n i) - 1) (kid n i))"
  shows "\<exists>t k y. rightmost (kid n i) = Some t \<and> del_node False (counts n i - 1) (kid n i) = Some (k, y)
     \<and> okn (Suc (Suc h)) (put_back (set_elem n i t) i k)
     \<and> inorder (put_back (set_elem n i t) i k)
         = pre n i @ inorder (kid n i) @ inorder (kid n (Suc i)) @ post n (Suc i)"
proof -
  have i: "i < slots n" by (rule elem_slots [OF x])
  have k: "okn (Suc h) (kid n i)" using okn_kid [OF ok] i by simp
  obtain xs t where t: "rightmost (kid n i) = Some t" "inorder (kid n i) = xs @ [t]"
    using rightmost_ok [OF k] by blast
  let ?n = "set_elem n i t" and ?j = "cnt (kid n i) - 1"
  have j: "0 \<le> ?j" "?j < cnt (kid n i)" "?j = int (length xs)" by (simp_all add: cnt_def t)
  obtain k y where k: "del_node False ?j (kid n i) = Some (k, y)" "inorder k = xs" "okn (Suc h) k"
    using deletedE [OF rec] t j by (metis del_at_last)
  have "okn (Suc (Suc h)) (put_back ?n i k)"
    "inorder (put_back ?n i k)
       = pre n i @ inorder (kid n i) @ inorder (kid n (Suc i)) @ post n (Suc i)"
    using put_back_ok [of h ?n i k ?j] ok i j k t inorder_set_elem [OF x]
    by (simp_all add: del_at_append del_at_last del_at_first cnt_def)
  then show ?thesis
    using t k counts_ok [OF ok] i by auto
qed

lemma replace_by_successor:
  assumes ok: "okn (Suc (Suc h)) n" and x: "elem n i = Some x"
    and rec: "deleted (Suc h) False 0 (inorder (kid n (Suc i))) (del_node False 0 (kid n (Suc i)))"
  shows "\<exists>t k y. leftmost (kid n (Suc i)) = Some t \<and> del_node False 0 (kid n (Suc i)) = Some (k, y)
     \<and> okn (Suc (Suc h)) (put_back (set_elem n i t) (Suc i) k)
     \<and> inorder (put_back (set_elem n i t) (Suc i) k)
         = pre n i @ inorder (kid n i) @ inorder (kid n (Suc i)) @ post n (Suc i)"
proof -
  have i: "i < slots n" by (rule elem_slots [OF x])
  have k: "okn (Suc h) (kid n (Suc i))" using okn_kid [OF ok] i by simp
  obtain xs t where t: "leftmost (kid n (Suc i)) = Some t" "inorder (kid n (Suc i)) = t # xs"
    using leftmost_ok [OF k] by blast
  have j: "0 < cnt (kid n (Suc i))" by (simp add: cnt_def t)
  obtain k y where k: "del_node False 0 (kid n (Suc i)) = Some (k, y)" "inorder k = xs" "okn (Suc h) k"
    using deletedE [OF rec] t by (metis del_at_first)
  have "okn (Suc (Suc h)) (put_back (set_elem n i t) (Suc i) k)"
    "inorder (put_back (set_elem n i t) (Suc i) k)
       = pre n i @ inorder (kid n i) @ inorder (kid n (Suc i)) @ post n (Suc i)"
    using put_back_ok [of h "set_elem n i t" "Suc i" k 0] ok i j k t inorder_set_elem [OF x]
    by (simp_all add: del_at_append del_at_Cons cnt_def)
  then show ?thesis using t k by blast
qed

lemma del_node_elem:
  fixes n :: "'a node234"
  assumes ok: "okn (Suc (Suc h)) n" and root: "at_root \<or> \<not> is_2node n" and index: "0 \<le> index"
    and loc: "locate index n = AtElem i" and i: "i < slots n"
    and pos: "index = int (length (pre n i)) + cnt (kid n i)"
    and rec: "\<And>r j (sub :: 'a node234). okn (Suc h) sub \<Longrightarrow> \<not> is_2node sub \<Longrightarrow> 0 \<le> j \<Longrightarrow> j < cnt sub
        \<Longrightarrow> deleted (Suc h) False j (inorder sub) (del_node r j sub)"
  shows "deleted (Suc (Suc h)) (at_root \<and> is_2node n) index (inorder n) (del_node at_root index n)"
proof -
  have n: "n \<noteq> Nul" using ok by auto
  obtain x where x: "elem n i = Some x" using elem_some [OF i] by blast
  have k0: "kid n 0 \<noteq> Nul" "kid n i \<noteq> Nul" using okn_Nul_kid [OF ok] i by simp_all
  have res: "nth_opt (inorder n) index = Some x"
    by (simp add: inorder_elem [OF x] pos nth_opt_append nth_opt_Cons cnt_def)
  have gone: "del_at index (inorder n)
      = pre n i @ inorder (kid n i) @ inorder (kid n (Suc i)) @ post n (Suc i)"
    by (simp add: inorder_elem [OF x] pos del_at_append del_at_first cnt_def)
  note base = loc x k0 n res gone
  have pos_kid: "0 < cnt (kid n i')" if "\<not> is_2node (kid n i')" for i'
    using that by (cases "kid n i'") (auto simp: elem_def cnt_def)
  consider (a) "\<not> is_2node (kid n i)"
    | (b) "is_2node (kid n i)" "\<not> is_2node (kid n (Suc i))"
    | (c) "is_2node (kid n i)" "is_2node (kid n (Suc i))" by metis
  then show ?thesis
  proof cases
    case a
    have "okn (Suc h) (kid n i)" using okn_kid [OF ok] i by simp
    from replace_by_predecessor [OF ok x rec [OF this a]] pos_kid [OF a]
    obtain t k y where "rightmost (kid n i) = Some t"
      "del_node False (counts n i - 1) (kid n i) = Some (k, y)"
      "okn (Suc (Suc h)) (put_back (set_elem n i t) i k)"
      "inorder (put_back (set_elem n i t) i k) = del_at index (inorder n)"
      unfolding gone by auto
    then show ?thesis
      using base a by (subst del_node.simps) (simp add: deleted_def)
  next
    case b
    have "okn (Suc h) (kid n (Suc i))" using okn_kid [OF ok] i by simp
    from replace_by_successor [OF ok x rec [OF this b(2)]] pos_kid [OF b(2)]
    obtain t k y where "leftmost (kid n (Suc i)) = Some t"
      "del_node False 0 (kid n (Suc i)) = Some (k, y)"
      "okn (Suc (Suc h)) (put_back (set_elem n i t) (Suc i) k)"
      "inorder (put_back (set_elem n i t) (Suc i) k) = del_at index (inorder n)"
      unfolding gone by auto
    then show ?thesis
      using base b by (subst del_node.simps) (simp add: deleted_def)
  next
    case c
    note w = merge_around_ok [OF ok i c(1)] c(2)
    then obtain n' p j' sub where d: "merge_around n i = Some (n', p, j', sub)"
      by (auto simp: went_def split: option.splits)
    have s: "okn (Suc h) sub" "\<not> is_2node sub" "0 \<le> j'" "j' < cnt sub"
      using w unfolding d by (simp_all add: went_def)
    have w': "went h n index (Some (n', p, j', sub))" using w by (simp add: d pos)
    have "del_node at_root index n =
        (if n' = Nul then (if at_root then map_option (\<lambda>(k, _). (k, x)) (del_node True j' sub) else None)
         else map_option (\<lambda>(k, _). (put_back n' p k, x)) (del_node False j' sub))"
      using base c d by (subst del_node.simps) simp
    then show ?thesis
      using went_del [OF w' root rec [OF s] index] res
      by (auto simp: deleted_def split: option.splits if_splits)
  qed
qed

lemma del_node_ok:
  fixes n :: "'a node234"
  assumes "okn (Suc h) n" "at_root \<or> \<not> is_2node n" "0 \<le> index" "index < cnt n"
  shows "deleted (Suc h) (at_root \<and> is_2node n) index (inorder n) (del_node at_root index n)"
  using assms
proof (induction h arbitrary: at_root index n)
  case 0
  then show ?case by (rule del_node_leaf)
next
  case (Suc h)
  have rec: "deleted (Suc h) False j (inorder sub) (del_node r j sub)"
    if "okn (Suc h) sub" "\<not> is_2node sub" "0 \<le> j" "j < cnt sub"
    for r j and sub :: "'a node234"
    using Suc.IH [of sub r j] that by auto
  note slot = locate_ok [OF Suc.prems(1,3,4)]
  show ?case
  proof (cases "locate index n")
    case (InKid i j)
    with slot have i: "i \<le> slots n" and j: "index = int (length (pre n i)) + j" "0 \<le> j" "j < cnt (kid n i)"
      by (simp_all add: slot_ok_def)
    note w = descend_ok [OF Suc.prems(1) i j(2,3)]
    then obtain n' p j' sub where d: "descend n i j = Some (n', p, j', sub)"
      by (auto simp: went_def split: option.splits)
    have s: "okn (Suc h) sub" "\<not> is_2node sub" "0 \<le> j'" "j' < cnt sub"
      using w unfolding d by (simp_all add: went_def)
    have w': "went h n index (Some (n', p, j', sub))" using w by (simp add: d j)
    have "n \<noteq> Nul" using Suc.prems(1) by auto
    then show ?thesis
      using went_del [OF w' Suc.prems(2) rec [OF s] Suc.prems(3)] InKid d
      by (subst del_node.simps) simp
  next
    case (AtElem i)
    with slot show ?thesis
      using del_node_elem [OF Suc.prems(1-3) AtElem _ _ rec] by (simp add: slot_ok_def)
  qed
qed

lemma delpos234_internal_ok:
  assumes "wf234 t" "0 \<le> index" "index < int (length (elems234 t))"
  shows "\<exists>t' x. delpos234_internal t index = Some (t', Some x) \<and> wf234 t' \<and> t_cmp t' = t_cmp t
           \<and> nth_opt (elems234 t) index = Some x \<and> elems234 t' = del_at index (elems234 t)"
proof -
  obtain h where h: "okn h (t_root t)" using assms(1) by (auto simp: wf234_def)
  have "0 < length (elems234 t)" using assms(2,3) by linarith
  then obtain k where k: "h = Suc k" using h by (cases h) (auto simp: elems234_def)
  have "deleted (Suc k) (True \<and> is_2node (t_root t)) index (elems234 t) (del_node True index (t_root t))"
    using del_node_ok [of k "t_root t" True index] h assms by (simp add: k elems234_def cnt_def)
  then show ?thesis
    by (auto simp: deleted_def delpos234_internal_def wf234_def elems234_def split: option.splits)
qed

section \<open>What the tree operations promise\<close>

text \<open>
  A comparison function for a sorted tree has to be a total preorder; \<open>sorted_by\<close>
  is the order of the elements it gives (no two compare equal).
\<close>

definition total_cmp :: "('a \<Rightarrow> 'a \<Rightarrow> int) \<Rightarrow> bool" where
  "total_cmp c \<longleftrightarrow> (\<forall>x y. c x y < 0 \<longleftrightarrow> c y x > 0)
     \<and> (\<forall>x y z. c x y \<le> 0 \<longrightarrow> c y z \<le> 0 \<longrightarrow> c x z \<le> 0)"

definition sorted_by :: "('a \<Rightarrow> 'a \<Rightarrow> int) \<Rightarrow> 'a list \<Rightarrow> bool" where
  "sorted_by c xs = sorted_wrt (\<lambda>x y. c x y < 0) xs"

definition tree_inv :: "('a \<Rightarrow> 'a \<Rightarrow> int) \<Rightarrow> 'a tree234 \<Rightarrow> bool" where
  "tree_inv c t \<longleftrightarrow> wf234 t \<and> t_cmp t = Some c \<and> total_cmp c \<and> sorted_by c (elems234 t)"

lemma total_cmpD:
  assumes "total_cmp c"
  shows "c x y < 0 \<longleftrightarrow> 0 < c y x" and "c x y = 0 \<longleftrightarrow> c y x = 0"
    and "c x y \<le> 0 \<Longrightarrow> c y z \<le> 0 \<Longrightarrow> c x z \<le> 0"
    and "c x y \<le> 0 \<Longrightarrow> c y z < 0 \<Longrightarrow> c x z < 0"
    and "c x y < 0 \<Longrightarrow> c y z \<le> 0 \<Longrightarrow> c x z < 0"
proof -
  have flip: "\<And>x y. c x y < 0 \<longleftrightarrow> 0 < c y x" and trans: "\<And>x y z. c x y \<le> 0 \<Longrightarrow> c y z \<le> 0 \<Longrightarrow> c x z \<le> 0"
    using assms unfolding total_cmp_def by blast+
  show "c x y < 0 \<longleftrightarrow> 0 < c y x" by (rule flip)
  show "c x y = 0 \<longleftrightarrow> c y x = 0" using flip [of x y] flip [of y x] by linarith
  show "c x y \<le> 0 \<Longrightarrow> c y z \<le> 0 \<Longrightarrow> c x z \<le> 0" by (rule trans)
  show "c x y \<le> 0 \<Longrightarrow> c y z < 0 \<Longrightarrow> c x z < 0"
    using trans [of z x y] flip [of y z] flip [of x z] flip [of z x] flip [of z y] trans [of x y z]
    by linarith
  show "c x y < 0 \<Longrightarrow> c y z \<le> 0 \<Longrightarrow> c x z < 0"
    using trans [of y z x] flip [of x y] flip [of x z] flip [of z x] trans [of x y z]
    by linarith
qed

lemma sorted_by_cut:
  assumes "total_cmp c" "sorted_by c xs"
  shows "cut (c e) xs"
  using assms(2) unfolding cut_def sorted_by_def
  by (rule sorted_wrt_mono_rel [rotated])
     (use total_cmpD [OF assms(1)] in \<open>meson less_imp_le\<close>)

lemma sorted_by_ins_cut:
  assumes "total_cmp c" "sorted_by c xs"
  shows "sorted_by c (ins_cut (c e) e xs)"
proof -
  note t = total_cmpD [OF assms(1)]
  have "c x e < 0" if "0 < c e x" for x using that t(1) by blast
  moreover have "c x y < 0" if "0 < c e x" "c e y < 0" for x y
    using that t(1) [of x e] t(5) [of x e y] by simp
  moreover have "sorted_wrt (\<lambda>x y. c x y < 0) (filter P xs)" for P
    using assms(2) by (simp add: sorted_by_def sorted_wrt_filter)
  ultimately show ?thesis
    by (auto simp: sorted_by_def ins_cut_def sorted_wrt_append)
qed

lemma sorted_by_del_at:
  assumes "sorted_by c xs"
  shows "sorted_by c (del_at i xs)"
proof -
  have "sorted_wrt (\<lambda>x y. c x y < 0) (take (nat i) xs @ drop (nat i) xs)"
    using assms by (simp add: sorted_by_def)
  moreover have "set (drop (Suc (nat i)) xs) \<subseteq> set (drop (nat i) xs)"
    by (rule set_drop_subset_set_drop) simp
  moreover have "sorted_wrt (\<lambda>x y. c x y < 0) (drop (Suc (nat i)) xs)"
    using assms by (simp add: sorted_by_def sorted_wrt_drop)
  ultimately show ?thesis
    by (auto simp: sorted_by_def del_at_def sorted_wrt_append simp del: append_take_drop_id)
qed

lemma sorted_by_unique:
  assumes "total_cmp c" "sorted_by c xs" "nth_opt xs i = Some x" "nth_opt xs j = Some y" "c x y = 0"
  shows "i = j"
proof -
  have b: "0 \<le> i" "i < int (length xs)" "xs ! nat i = x" "0 \<le> j" "j < int (length xs)" "xs ! nat j = y"
    using assms(3,4) by (auto simp: nth_opt_def split: if_splits)
  have less: "c (xs ! m) (xs ! n) < 0" if "m < n" "n < length xs" for m n
    using sorted_wrt_nth_less [of "\<lambda>x y. c x y < 0" xs m n] assms(2) that by (simp add: sorted_by_def)
  have "c y x = 0" using total_cmpD(2) [OF assms(1)] assms(5) by blast
  moreover have "nat i < length xs" "nat j < length xs" using b by linarith+
  ultimately have "\<not> nat i < nat j" "\<not> nat j < nat i"
    using less [of "nat i" "nat j"] less [of "nat j" "nat i"] assms(5) b by auto
  then show ?thesis using b by linarith
qed

lemma class_unique:
  assumes "total_cmp c" "sorted_by c xs" "x \<in> set xs" "y \<in> set xs" "c e x = 0" "c e y = 0"
  shows "x = y"
proof -
  note f = total_cmpD [OF assms(1)]
  have "c x e = 0" "c y e = 0" using f(2) [of e] assms(5,6) by simp_all
  then have "c x y \<le> 0" "c y x \<le> 0" using f(3) [of x e y] f(3) [of y e x] assms(5,6) by simp_all
  then have xy: "c x y = 0" using f(1) [of x y] by linarith
  obtain i j where ij: "nth_opt xs i = Some x" "nth_opt xs j = Some y"
    using assms(3,4) by (auto simp: in_set_nth_opt)
  have "i = j" by (rule sorted_by_unique [OF assms(1,2) ij xy])
  with ij show ?thesis by simp
qed

subsection \<open>Functional behaviour of the public operations\<close>

lemma add234_internal_pos:
  assumes "wf234 t" "0 \<le> index" "index \<le> int (length (elems234 t))"
  shows "\<exists>t'. add234_internal t e index = Some (t', Some e) \<and> wf234 t' \<and> t_cmp t' = t_cmp t
           \<and> elems234 t' = ins_at index e (elems234 t)"
proof (cases "t_root t = Nul")
  case True
  then show ?thesis
    by (auto simp: add234_internal_def wf234_def elems234_def ins_at_Nil intro!: exI [of _ 1])
next
  case False
  obtain h where h: "okn h (t_root t)" using assms(1) by (auto simp: wf234_def)
  obtain ins where ins: "add_node (t_cmp t) e index (t_root t) = Grown ins" "ok_ins h ins"
    "inorder_ins ins = ins_at index e (elems234 t)"
    using add_node_pos [OF h False assms(2)] assms(3) by (auto simp: cnt_def elems234_def)
  show ?thesis
  proof (cases ins)
    case (Absorbed n)
    with ins False show ?thesis by (auto simp: add234_internal_def wf234_def elems234_def)
  next
    case (Overflow l lc e' r rc)
    with ins False have "okn (Suc h) (N2 l lc e' r rc)" by simp
    with ins False Overflow show ?thesis
      by (auto simp: add234_internal_def wf234_def elems234_def simp del: okn_simps)
  qed
qed

lemma addpos234_ok:
  assumes "wf234 t" "t_cmp t = None" "0 \<le> index" "index \<le> int (length (elems234 t))"
  shows "\<exists>t'. addpos234 t e index = Some (t', Some e) \<and> wf234 t' \<and> t_cmp t' = None
           \<and> elems234 t' = ins_at index e (elems234 t)"
  using add234_internal_pos [OF assms(1,3,4), of e] assms by (auto simp: addpos234_def)

lemma add234_ok:
  assumes "wf234 t" "t_cmp t = Some c" "cut (c e) (elems234 t)"
  shows "if \<exists>x \<in> set (elems234 t). c e x = 0
         then (\<exists>x \<in> set (elems234 t). c e x = 0 \<and> add234 t e = Some (t, Some x))
         else (\<exists>t'. add234 t e = Some (t', Some e) \<and> wf234 t' \<and> t_cmp t' = Some c
                 \<and> elems234 t' = ins_cut (c e) e (elems234 t))"
proof (cases "t_root t = Nul")
  case True
  then show ?thesis
    using assms(2) by (auto simp: add234_def add234_internal_def wf234_def elems234_def ins_cut_def
        intro!: exI [of _ 1])
next
  case False
  obtain h where h: "okn h (t_root t)" using assms(1) by (auto simp: wf234_def)
  have spec: "add_spec h (c e) e (elems234 t) (add_node (Some c) e (-1) (t_root t))"
    using add_node_cmp [OF h False, of "-1" c e] assms(3) by (simp add: elems234_def)
  show ?thesis
  proof (cases "add_node (Some c) e (-1) (t_root t)")
    case (Existing x)
    with spec False assms(2) show ?thesis
      by (auto simp: add_spec_def add234_def add234_internal_def)
  next
    case (Grown ins)
    show ?thesis
    proof (cases ins)
      case (Absorbed n)
      with Grown spec False assms(2) show ?thesis
        by (auto simp: add_spec_def add234_def add234_internal_def wf234_def elems234_def)
    next
      case (Overflow l lc e' r rc)
      with Grown spec have "okn (Suc h) (N2 l lc e' r rc)" by (simp add: add_spec_def)
      with Grown spec False assms(2) Overflow show ?thesis
        by (auto simp: add_spec_def add234_def add234_internal_def wf234_def elems234_def
            simp del: okn_simps)
    qed
  qed (use spec in \<open>auto simp: add_spec_def\<close>)
qed

lemma delpos234_ok:
  assumes "wf234 t"
  shows "if 0 \<le> index \<and> index < int (length (elems234 t))
         then (\<exists>t' x. delpos234 t index = Some (t', Some x) \<and> wf234 t' \<and> t_cmp t' = t_cmp t
                 \<and> nth_opt (elems234 t) index = Some x \<and> elems234 t' = del_at index (elems234 t))
         else delpos234 t index = Some (t, None)"
proof -
  have "countnode234 (t_root t) = int (length (elems234 t))"
    using assms by (auto simp: wf234_def countnode234_ok cnt_def elems234_def)
  then show ?thesis
    using delpos234_internal_ok [OF assms] by (auto simp: delpos234_def)
qed

lemma del234_ok:
  assumes "wf234 t" "t_cmp t = Some c" "cut (c e) (elems234 t)"
  shows "if \<exists>x \<in> set (elems234 t). c e x = 0
         then (\<exists>t' x i. del234 t e = Some (t', Some x) \<and> c e x = 0 \<and> wf234 t' \<and> t_cmp t' = Some c
                 \<and> nth_opt (elems234 t) i = Some x \<and> elems234 t' = del_at i (elems234 t))
         else del234 t e = Some (t, None)"
proof -
  obtain res where res: "findrelpos234 t (Some e) c REL234_EQ = Some res"
      "find_spec REL234_EQ (c e) (elems234 t) res"
    using findrelpos234_ok [OF assms(1), of REL234_EQ "Some e" c] assms(3) by auto
  show ?thesis
  proof (cases "\<exists>x \<in> set (elems234 t). c e x = 0")
    case True
    with res(2) obtain x i where x: "res = Some (x, i)" "c e x = 0" "nth_opt (elems234 t) i = Some x"
      by (auto simp: find_spec_def equal_permitted_def)
    then have "0 \<le> i" "i < int (length (elems234 t))"
      by (auto simp: nth_opt_def split: if_splits)
    from delpos234_internal_ok [OF assms(1) this] x res(1) True assms(2) show ?thesis
      by (fastforce simp: del234_def)
  next
    case False
    with res have "res = None" by (auto simp: find_spec_def)
    with False res(1) assms(2) show ?thesis by (simp add: del234_def)
  qed
qed

section \<open>The interface of a sorted store\<close>

text \<open>
  The operations the clients of sorted trees call, and what they rely on. \<open>elems\<close>
  is the store as a list, in order. The clients' lemmas are proved from these laws alone.
\<close>

locale ordered_store =
  fixes cmp :: "'a \<Rightarrow> 'a \<Rightarrow> int"
    and inv :: "'s \<Rightarrow> bool"
    and elems :: "'s \<Rightarrow> 'a list"
    and add :: "'s \<Rightarrow> 'a \<Rightarrow> ('s \<times> 'a option) option"
    and del :: "'s \<Rightarrow> 'a \<Rightarrow> ('s \<times> 'a option) option"
    and delpos :: "'s \<Rightarrow> int \<Rightarrow> ('s \<times> 'a option) option"
    and index :: "'s \<Rightarrow> int \<Rightarrow> 'a option"
    and find :: "'s \<Rightarrow> 'a option \<Rightarrow> relation \<Rightarrow> ('a \<times> int) option option"
  assumes cmp_total: "inv s \<Longrightarrow> total_cmp cmp"
    and elems_sorted: "inv s \<Longrightarrow> sorted_by cmp (elems s)"
    and add_old: "inv s \<Longrightarrow> x \<in> set (elems s) \<Longrightarrow> cmp e x = 0 \<Longrightarrow> add s e = Some (s, Some x)"
    and add_new: "inv s \<Longrightarrow> \<forall>x \<in> set (elems s). cmp e x \<noteq> 0 \<Longrightarrow>
      \<exists>s'. add s e = Some (s', Some e) \<and> inv s' \<and> elems s' = ins_cut (cmp e) e (elems s)"
    and del_absent: "inv s \<Longrightarrow> \<forall>x \<in> set (elems s). cmp e x \<noteq> 0 \<Longrightarrow> del s e = Some (s, None)"
    and del_present: "inv s \<Longrightarrow> nth_opt (elems s) i = Some x \<Longrightarrow> cmp e x = 0 \<Longrightarrow>
      \<exists>s'. del s e = Some (s', Some x) \<and> inv s' \<and> elems s' = del_at i (elems s)"
    and delpos_ok: "inv s \<Longrightarrow> nth_opt (elems s) i = Some x \<Longrightarrow>
      \<exists>s'. delpos s i = Some (s', Some x) \<and> inv s' \<and> elems s' = del_at i (elems s)"
    and index_ok: "inv s \<Longrightarrow> index s i = nth_opt (elems s) i"
    and find_ok: "inv s \<Longrightarrow> equal_permitted r \<longrightarrow> q \<noteq> None \<Longrightarrow>
      \<exists>res. find s q r = Some res \<and>
        find_spec r (case q of Some q \<Rightarrow> cmp q | None \<Rightarrow> (\<lambda>_. - reldir r)) (elems s) res"
begin

lemma elems_distinct: "inv s \<Longrightarrow> distinct (elems s)"
proof -
  assume s: "inv s"
  have "cmp x x = 0" for x
    using total_cmpD(1) [OF cmp_total [OF s], of x x] by linarith
  moreover have "sorted_wrt (\<lambda>x y. cmp x y < 0) (elems s)"
    using elems_sorted [OF s] by (simp add: sorted_by_def)
  ultimately have "sorted_wrt (\<noteq>) (elems s)"
    by (elim sorted_wrt_mono_rel [rotated]) fastforce
  then show ?thesis by (simp add: sorted_wrt_iff_nth_less distinct_conv_nth) (metis nat_neq_iff)
qed

lemma unique:
  "inv s \<Longrightarrow> x \<in> set (elems s) \<Longrightarrow> y \<in> set (elems s) \<Longrightarrow> cmp e x = 0 \<Longrightarrow> cmp e y = 0 \<Longrightarrow> x = y"
  by (rule class_unique [OF cmp_total elems_sorted])

lemma add_set:
  assumes "inv s" "\<forall>x \<in> set (elems s). cmp e x \<noteq> 0"
  shows "\<exists>s'. add s e = Some (s', Some e) \<and> inv s' \<and> set (elems s') = insert e (set (elems s))"
proof -
  obtain s' where "add s e = Some (s', Some e)" "inv s'" "elems s' = ins_cut (cmp e) e (elems s)"
    using add_new [OF assms] by blast
  moreover have "set (ins_cut (cmp e) e (elems s)) = insert e (set (elems s))"
    using assms(2) by (auto simp: ins_cut_def neq_iff)
  ultimately show ?thesis by metis
qed

lemma del_set:
  assumes "inv s" "x \<in> set (elems s)" "cmp e x = 0"
  shows "\<exists>s'. del s e = Some (s', Some x) \<and> inv s' \<and> set (elems s') = set (elems s) - {x}"
proof -
  obtain i where i: "nth_opt (elems s) i = Some x" using assms(2) by (auto simp: in_set_nth_opt)
  then obtain s' where s': "del s e = Some (s', Some x)" "inv s'" "elems s' = del_at i (elems s)"
    using del_present [OF assms(1) _ assms(3)] by blast
  have n: "nat i < length (elems s)" "elems s ! nat i = x"
    using i by (auto simp: nth_opt_def split: if_splits)
  have split: "elems s = take (nat i) (elems s) @ x # drop (Suc (nat i)) (elems s)"
    using id_take_nth_drop [OF n(1)] n(2) by simp
  have "distinct (take (nat i) (elems s) @ x # drop (Suc (nat i)) (elems s))"
    using elems_distinct [OF assms(1)] split by simp
  then have "set (del_at i (elems s)) = set (take (nat i) (elems s) @ x # drop (Suc (nat i)) (elems s)) - {x}"
    by (auto simp: del_at_def)
  then show ?thesis using s' split by metis
qed

lemma find_EQ:
  assumes "inv s"
  shows "if \<exists>x \<in> set (elems s). cmp q x = 0
         then \<exists>x i. find s (Some q) REL234_EQ = Some (Some (x, i)) \<and> x \<in> set (elems s) \<and> cmp q x = 0
         else find s (Some q) REL234_EQ = Some None"
proof -
  obtain res where "find s (Some q) REL234_EQ = Some res" "find_spec REL234_EQ (cmp q) (elems s) res"
    using find_ok [OF assms, of REL234_EQ "Some q"] by auto
  then show ?thesis
    by (cases "\<exists>x \<in> set (elems s). cmp q x = 0")
       (simp_all add: find_spec_def equal_permitted_def in_set_nth_opt, blast)
qed

end

lemma same_class_pos:
  assumes "tree_inv c t" "nth_opt (elems234 t) i = Some x" "nth_opt (elems234 t) j = Some y"
    "x = y"
  shows "i = j"
proof -
  have "c x x = 0"
    using total_cmpD(1) [of c x x] assms(1) by (auto simp: tree_inv_def)
  then show ?thesis
    using sorted_by_unique [of c "elems234 t" i x j y] assms by (simp add: tree_inv_def)
qed

lemma tree_inv_cut: "tree_inv c t \<Longrightarrow> cut (c e) (elems234 t)"
  by (auto simp: tree_inv_def intro: sorted_by_cut)

interpretation t234: ordered_store c "tree_inv c" elems234 add234 del234 delpos234 index234
    "\<lambda>t e r. findrelpos234 t e c r" for c :: "'a \<Rightarrow> 'a \<Rightarrow> int"
proof (unfold_locales, goal_cases)
  case (1 s)
  then show ?case by (simp add: tree_inv_def)
next
  case (2 s)
  then show ?case by (simp add: tree_inv_def)
next
  case (3 s x e)
  then have inv: "total_cmp c" "sorted_by c (elems234 s)" "wf234 s" "t_cmp s = Some c"
    by (simp_all add: tree_inv_def)
  have "\<exists>y \<in> set (elems234 s). c e y = 0 \<and> add234 s e = Some (s, Some y)"
    using add234_ok [OF inv(3,4) tree_inv_cut [OF 3(1)], of e] 3(2,3) by (auto split: if_splits)
  then show ?case
    using class_unique [OF inv(1,2) 3(2) _ 3(3)] by blast
next
  case (4 s e)
  then have inv: "total_cmp c" "sorted_by c (elems234 s)" "wf234 s" "t_cmp s = Some c"
    by (simp_all add: tree_inv_def)
  have "\<not> (\<exists>x \<in> set (elems234 s). c e x = 0)" using 4(2) by blast
  then show ?case
    using add234_ok [OF inv(3,4) tree_inv_cut [OF 4(1)], of e] sorted_by_ins_cut [OF inv(1,2), of e] inv(1)
    by (auto simp: tree_inv_def)
next
  case (5 s e)
  then have inv: "wf234 s" "t_cmp s = Some c" by (simp_all add: tree_inv_def)
  have "\<not> (\<exists>x \<in> set (elems234 s). c e x = 0)" using 5(2) by blast
  then show ?case
    using del234_ok [OF inv tree_inv_cut [OF 5(1)], of e] by simp
next
  case (6 s i x e)
  then have inv: "total_cmp c" "sorted_by c (elems234 s)" "wf234 s" "t_cmp s = Some c"
    by (simp_all add: tree_inv_def)
  have x: "x \<in> set (elems234 s)" using 6(2) by (auto simp: in_set_nth_opt)
  then obtain t' y j where d: "del234 s e = Some (t', Some y)" "c e y = 0" "wf234 t'"
      "t_cmp t' = Some c" "nth_opt (elems234 s) j = Some y" "elems234 t' = del_at j (elems234 s)"
    using del234_ok [OF inv(3,4) tree_inv_cut [OF 6(1)], of e] 6(3) by (auto split: if_splits)
  have "y \<in> set (elems234 s)" using d(5) by (auto simp: in_set_nth_opt)
  then have "y = x" by (rule class_unique [OF inv(1,2) _ x d(2) 6(3)])
  moreover have "j = i" by (rule same_class_pos [OF 6(1) d(5) 6(2) \<open>y = x\<close>])
  ultimately show ?case
    using d inv sorted_by_del_at [OF inv(2)] by (auto simp: tree_inv_def)
next
  case (7 s i x)
  then have inv: "wf234 s" "0 \<le> i" "i < int (length (elems234 s))"
    by (auto simp: tree_inv_def nth_opt_def split: if_splits)
  then show ?case
    using delpos234_ok [OF inv(1), of i] 7 by (auto simp: tree_inv_def intro: sorted_by_del_at)
next
  case (8 s i)
  then show ?case by (simp add: tree_inv_def index234_ok)
next
  case (9 s r q)
  then have "wf234 s" by (simp add: tree_inv_def)
  moreover have "cut (case q of Some q \<Rightarrow> c q | None \<Rightarrow> (\<lambda>_. - reldir r)) (elems234 s)"
    using tree_inv_cut [OF 9(1)] by (cases q) (simp_all add: cut_def sorted_wrt_true)
  ultimately show ?case
    using findrelpos234_ok [of s r q c] 9(2) by blast
qed

section \<open>Logarithmic height\<close>

lemma okn_height: "okn h n \<Longrightarrow> 2 ^ h \<le> Suc (length (inorder n))"
proof (induction h arbitrary: n)
  case 0
  then show ?case by simp
next
  case (Suc h)
  have "2 ^ h \<le> Suc (length (inorder (kid n i)))" if "i \<le> slots n" for i
    by (rule Suc.IH [OF okn_kid [OF Suc.prems that]])
  from this [of 0] this [of 1] show ?case
    using Suc.prems by (cases n) (auto simp: kid_def okn.simps)
qed

section \<open>Properties\<close>

text \<open>A three-element sorted tree of integers, a full root, for the witnesses.\<close>

definition int_cmp :: "int \<Rightarrow> int \<Rightarrow> int" where
  "int_cmp x y = x - y"

definition tree123 :: "int tree234" where
  "tree123 = \<lparr>t_root = N4 Nul 0 10 Nul 0 20 Nul 0 30 Nul 0, t_cmp = Some int_cmp\<rparr>"

definition deep_tree :: "int tree234" where
  "deep_tree = \<lparr>t_root = N2 (N2 Nul 0 10 Nul 0) 1 20 (N2 Nul 0 30 Nul 0) 1, t_cmp = None\<rparr>"

lemma total_int_cmp: "total_cmp int_cmp"
  by (auto simp: total_cmp_def int_cmp_def)

lemma okn_1_iff [simp]: "okn (Suc 0) (N4 Nul 0 x Nul 0 y Nul 0 z Nul 0)"
  by simp

lemma tree123_inv: "tree_inv int_cmp tree123"
  unfolding tree_inv_def wf234_def
  by (auto simp: tree123_def total_int_cmp elems234_def sorted_by_def int_cmp_def
      intro!: exI [of _ 1])

lemma deep_tree_wf: "wf234 deep_tree"
  unfolding wf234_def deep_tree_def
  by (auto simp: cnt_def numeral_2_eq_2 intro!: exI [of _ 2])

text \<open>
  C4: \<open>add234\<close> on a sorted tree. If an element compares equal, it is returned and
  the tree is unchanged; otherwise the new element is returned and sits at its place in the
  order, and the result is again a balanced, correctly counted, sorted tree. No NULL
  pointer is followed on the way.
\<close>

theorem add234_inserts:
  assumes "tree_inv c t"
  shows "if \<exists>x \<in> set (elems234 t). c e x = 0
         then \<exists>x \<in> set (elems234 t). c e x = 0 \<and> add234 t e = Some (t, Some x)
         else \<exists>t'. add234 t e = Some (t', Some e) \<and> tree_inv c t'
                \<and> elems234 t' = filter (\<lambda>x. 0 < c e x) (elems234 t) @ e # filter (\<lambda>x. c e x < 0) (elems234 t)"
proof (cases "\<exists>x \<in> set (elems234 t). c e x = 0")
  case True
  then obtain x where "x \<in> set (elems234 t)" "c e x = 0" by blast
  with t234.add_old [OF assms this] True show ?thesis by auto
next
  case False
  then have "\<forall>x \<in> set (elems234 t). c e x \<noteq> 0" by blast
  with t234.add_new [OF assms this] False show ?thesis by (simp add: ins_cut_def)
qed

theorem add234_inserts_witness:
  "tree_inv int_cmp tree123 \<and>
   (\<exists>t'. add234 tree123 25 = Some (t', Some 25) \<and> elems234 t' = [10, 20, 25, 30])"
  using add234_inserts [OF tree123_inv, of 25] tree123_inv
  by (auto simp: tree123_def elems234_def int_cmp_def)

text \<open>
  C5: \<open>del234\<close> on a sorted tree. If some element compares equal, exactly that element
  is removed and returned, and the rest keeps its order in a balanced, correctly counted
  tree; otherwise NULL is returned and the tree is unchanged. The whole top-down pass
  (cases 1, 2a-2c, 3a, 3b and the shifting of the root) follows no NULL pointer.
\<close>

theorem del234_removes:
  assumes "tree_inv c t"
  shows "if \<exists>x \<in> set (elems234 t). c e x = 0
         then \<exists>t' x i. del234 t e = Some (t', Some x) \<and> c e x = 0 \<and> tree_inv c t'
                \<and> nth_opt (elems234 t) i = Some x \<and> elems234 t' = del_at i (elems234 t)
         else del234 t e = Some (t, None)"
proof (cases "\<exists>x \<in> set (elems234 t). c e x = 0")
  case True
  then obtain x i where "nth_opt (elems234 t) i = Some x" "c e x = 0"
    by (auto simp: in_set_nth_opt)
  with t234.del_present [OF assms this] True show ?thesis by auto
next
  case False
  with t234.del_absent [OF assms, of e] show ?thesis by auto
qed

theorem del234_removes_witness:
  "tree_inv int_cmp tree123 \<and> (\<exists>t' i. del234 tree123 20 = Some (t', Some 20)
     \<and> nth_opt [10, 20, 30 :: int] i = Some 20 \<and> elems234 t' = del_at i [10, 20, 30 :: int])"
  using del234_removes [OF tree123_inv, of 20] tree123_inv
  by (auto simp: tree123_def elems234_def int_cmp_def)

text \<open>
  C6: \<open>delpos234\<close> on any well-formed tree, sorted or not, and any index: in range
  it removes and returns exactly the element at that position, keeping the balance, the
  stored counts and the order of the rest; out of range it returns NULL and changes nothing.
\<close>

theorem delpos234_removes:
  assumes "wf234 t"
  shows "if 0 \<le> index \<and> index < int (length (elems234 t))
         then \<exists>t'. delpos234 t index = Some (t', Some (elems234 t ! nat index)) \<and> wf234 t'
                \<and> elems234 t' = take (nat index) (elems234 t) @ drop (Suc (nat index)) (elems234 t)
         else delpos234 t index = Some (t, None)"
  using delpos234_ok [OF assms, of index] by (auto simp: nth_opt_def del_at_def split: if_splits)

theorem delpos234_removes_witness:
  "wf234 deep_tree \<and> (\<exists>t'. delpos234 deep_tree 1 = Some (t', Some 20) \<and> elems234 t' = [10, 30])"
  using delpos234_removes [OF deep_tree_wf, of 1] deep_tree_wf
  by (auto simp: deep_tree_def elems234_def)

text \<open>
  C7: \<open>findrelpos234\<close>, for all five relations, with any comparison (also one that is
  asymmetric or an omitted query) whose results fall along the elements from positive over
  zero to negative. The search ends, no assertion fails, and what it returns is determined
  by the element list: an element comparing equal with its index where the relation permits
  one, else the neighbour below or above the place of the query, else NULL.
\<close>

theorem findrelpos234_finds:
  assumes "wf234 t" "equal_permitted r \<longrightarrow> e \<noteq> None"
    and "cut (case e of Some q \<Rightarrow> cmp q | None \<Rightarrow> (\<lambda>_. - reldir r)) (elems234 t)"
  shows "\<exists>res. findrelpos234 t e cmp r = Some res
           \<and> find_spec r (case e of Some q \<Rightarrow> cmp q | None \<Rightarrow> (\<lambda>_. - reldir r)) (elems234 t) res"
  using assms by (rule findrelpos234_ok)

theorem findrelpos234_finds_witness:
  "wf234 deep_tree \<and> findrelpos234 deep_tree (Some 25) int_cmp REL234_LT = Some (Some (20, 1))
   \<and> findrelpos234 deep_tree (None :: int option) int_cmp REL234_GT = Some (Some (10, 0))"
proof -
  have c: "cut (int_cmp 25) (elems234 deep_tree)" "cut (\<lambda>_. - reldir REL234_GT) (elems234 deep_tree)"
    by (simp_all add: deep_tree_def elems234_def int_cmp_def)
  show ?thesis
    using findrelpos234_finds [OF deep_tree_wf, of REL234_LT "Some 25" int_cmp]
      findrelpos234_finds [OF deep_tree_wf, of REL234_GT None int_cmp] c deep_tree_wf
    by (auto simp: find_spec_def equal_permitted_def below_def not_above_def reldir_def
        deep_tree_def elems234_def int_cmp_def at_simps)
qed

text \<open>
  One past the end of an internal root that is not a 4-node, the walk takes the unused slot
  behind the last kid, whose count is 0, and the insertion overwrites that kid.
\<close>

lemma inorder_Nil: "inorder n = [] \<longleftrightarrow> n = Nul"
  by (cases n) simp_all

lemma okn_siblings: "okn h l \<Longrightarrow> okn h r \<Longrightarrow> l \<noteq> Nul \<Longrightarrow> r \<noteq> Nul"
  by (cases h) (auto simp: okn.simps)

lemma past_end_2node:
  assumes "wf234 t" "t_cmp t = None" "t_root t = N2 l cl x r cr" "l \<noteq> Nul"
  shows "\<exists>t'. addpos234 t e (count234 t + 1) = Some (t', Some e) \<and>
    elems234 t' = inorder l @ [x, e] \<and> inorder r \<noteq> []"
proof -
  obtain h where h: "okn h (N2 l cl x r cr)" using assms(1,3) by (auto simp: wf234_def)
  then obtain h' where k: "okn h' l" "okn h' r" "cl = cnt l" "cr = cnt r" by (cases h) (auto simp: okn.simps(1))
  then have "add_node None e (count234 t + 1) (t_root t) = Grown (Absorbed (N3 l cl x Nul 0 e Nul 0))"
    using assms(3,4) by (subst add_node.simps) (simp add: count234_def countnode234_def
        pos_childnum_def kid_def counts_def put234_def cnt_def)
  then show ?thesis
    using assms okn_siblings [OF k(1,2)]
    by (simp add: addpos234_def add234_internal_def elems234_def inorder_Nil count234_def countnode234_def k cnt_def)
qed

lemma past_end_3node:
  assumes "wf234 t" "t_cmp t = None" "t_root t = N3 l cl x m cm y r cr" "l \<noteq> Nul"
  shows "\<exists>t'. addpos234 t e (count234 t + 1) = Some (t', Some e) \<and>
    elems234 t' = inorder l @ x # inorder m @ [y, e] \<and> inorder r \<noteq> []"
proof -
  obtain h where h: "okn h (N3 l cl x m cm y r cr)" using assms(1,3) by (auto simp: wf234_def)
  then obtain h' where k: "okn h' l" "okn h' m" "okn h' r" "cl = cnt l" "cm = cnt m" "cr = cnt r"
    by (cases h) (auto simp: okn.simps(1))
  then have "add_node None e (count234 t + 1) (t_root t) = Grown (Absorbed (N4 l cl x m cm y Nul 0 e Nul 0))"
    using assms(3,4) by (subst add_node.simps) (simp add: count234_def countnode234_def
        pos_childnum_def kid_def counts_def put234_def cnt_def)
  then show ?thesis
    using assms okn_siblings [OF k(1,3)]
    by (simp add: addpos234_def add234_internal_def elems234_def inorder_Nil count234_def countnode234_def k cnt_def)
qed

lemma past_end_4node:
  assumes "wf234 t" "t_cmp t = None" "t_root t = N4 l cl x m cm y n cn z r cr" "l \<noteq> Nul"
  shows "addpos234 t e (count234 t + 1) = Some (t, None)"
proof -
  obtain h where h: "okn h (N4 l cl x m cm y n cn z r cr)" using assms(1,3) by (auto simp: wf234_def)
  then obtain h' where k: "cl = cnt l" "cm = cnt m" "cn = cnt n" "cr = cnt r"
    by (cases h) (auto simp: okn.simps(1))
  then have "add_node None e (count234 t + 1) (t_root t) = RangeError"
    using assms(3,4) by (subst add_node.simps) (simp add: count234_def countnode234_def
        pos_childnum_def kid_def counts_def cnt_def)
  then show ?thesis
    using assms by (simp add: addpos234_def add234_internal_def count234_def countnode234_def k cnt_def)
qed

text \<open>
  C8: what \<open>addpos234\<close> does for every index up to one past the end. A negative index gives NULL and
  changes nothing; an index from 0 to the element count inserts at exactly that position. One more
  is out of range too, but only a tree whose root is an internal 4-node returns NULL for it:
  where the root is an internal 2-node or 3-node, the element is reported as added and all elements
  of the last subtree, of which there are some, are lost.
\<close>

theorem addpos234_by_index:
  assumes "wf234 t" "t_cmp t = None"
  shows "(index < 0 \<longrightarrow> addpos234 t e index = Some (t, None)) \<and>
    (0 \<le> index \<and> index \<le> count234 t \<longrightarrow>
      (\<exists>t'. addpos234 t e index = Some (t', Some e) \<and> wf234 t' \<and> t_cmp t' = None \<and>
        elems234 t' = take (nat index) (elems234 t) @ e # drop (nat index) (elems234 t))) \<and>
    (t_root t = N4 l cl x m cm y n cn z r cr \<and> l \<noteq> Nul \<longrightarrow>
      addpos234 t e (count234 t + 1) = Some (t, None)) \<and>
    (t_root t = N2 l cl x r cr \<and> l \<noteq> Nul \<longrightarrow>
      (\<exists>t'. addpos234 t e (count234 t + 1) = Some (t', Some e) \<and>
        elems234 t' = inorder l @ [x, e] \<and> inorder r \<noteq> [])) \<and>
    (t_root t = N3 l cl x m cm y r cr \<and> l \<noteq> Nul \<longrightarrow>
      (\<exists>t'. addpos234 t e (count234 t + 1) = Some (t', Some e) \<and>
        elems234 t' = inorder l @ x # inorder m @ [y, e] \<and> inorder r \<noteq> []))"
  using addpos234_ok [OF assms, of index e] count234_ok [OF assms(1)] past_end_2node [OF assms, of l cl x r cr e]
    past_end_3node [OF assms, of l cl x m cm y r cr e] past_end_4node [OF assms, of l cl x m cm y n cn z r cr e]
  by (simp add: addpos234_def ins_at_def)

theorem addpos234_by_index_witness:
  "(\<exists>t'. addpos234 deep_tree 15 1 = Some (t', Some 15) \<and> elems234 t' = [10, 15, 20, 30]) \<and>
   (\<exists>t'. addpos234 deep_tree 40 4 = Some (t', Some 40) \<and> elems234 t' = [10, 20, 40])"
proof -
  have c: "t_cmp deep_tree = None" "count234 deep_tree = 3" "elems234 deep_tree = [10, 20, 30]"
    "t_root deep_tree = N2 (N2 Nul 0 10 Nul 0) 1 20 (N2 Nul 0 30 Nul 0) 1"
    by (simp_all add: deep_tree_def elems234_def count234_def countnode234_def)
  have "0 \<le> (1 :: int) \<and> 1 \<le> count234 deep_tree" using c by simp
  from addpos234_by_index [OF deep_tree_wf c(1), THEN conjunct2, THEN conjunct1, THEN mp, OF this]
  have "\<exists>t'. addpos234 deep_tree 15 1 = Some (t', Some 15) \<and> elems234 t' = [10, 15, 20, 30]"
    using c(3) by auto
  moreover have "t_root deep_tree = N2 (N2 Nul 0 10 Nul 0) 1 20 (N2 Nul 0 30 Nul 0) 1 \<and> N2 Nul 0 (10 :: int) Nul 0 \<noteq> Nul"
    using c(4) by simp
  from addpos234_by_index [OF deep_tree_wf c(1), THEN conjunct2, THEN conjunct2, THEN conjunct2, THEN conjunct1, THEN mp, OF this]
  have "\<exists>t'. addpos234 deep_tree 40 4 = Some (t', Some 40) \<and> elems234 t' = [10, 20, 40]"
    using c(2) by auto
  ultimately show ?thesis by blast
qed

text \<open>
  the height of a well-formed tree is logarithmic in the number of its elements,
  so every walk from the root, down or up, is.
\<close>

theorem tree_height_log:
  assumes "okn h (t_root t)"
  shows "2 ^ h \<le> count234 t + 1"
proof -
  have "int (2 ^ h) \<le> int (Suc (length (inorder (t_root t))))"
    using okn_height [OF assms] by (simp only: of_nat_le_iff)
  moreover have "wf234 t" using assms by (auto simp: wf234_def)
  ultimately show ?thesis using count234_ok [of t] by (simp add: elems234_def)
qed

theorem tree_height_log_witness:
  "okn 2 (t_root deep_tree) \<and> 2 ^ 2 \<le> count234 deep_tree + 1"
proof -
  have "okn 2 (t_root deep_tree)" by (simp add: deep_tree_def cnt_def numeral_2_eq_2)
  then show ?thesis using tree_height_log [of 2 deep_tree] by simp
qed

end
