(* ===== verification/Timing.thy ===== *)
theory Timing
  imports Tree234 "HOL-Library.Word" "HOL-Library.Product_Lexorder" "HOL-Library.Multiset_Order"
begin

text \<open>
  Timers: \<open>putty-src/timing.c\<close>. Pending timers are kept in a 2-3-4 tree in the order of their times
  relative to the last clock reading \<open>now\<close>, and the contexts that are still alive in a second tree.
  \<open>unsigned long\<close> is \<open>'w word\<close> (32 bits on Windows, 64 on most Unix systems) and \<open>long\<close> its signed
  reading. Function, context and window pointers are natural numbers (contexts are not null) in the order of the
  addresses. The clock is read by the caller: \<open>tick\<close> is what \<open>GETTICKCOUNT()\<close> returned. The comparison
  function of a tree reads the global \<open>now\<close>; \<open>set_now\<close> is the assignment to \<open>now\<close> together with that
  effect. \<open>None\<close> is a null pointer dereferenced or a loop that does not end.
\<close>

record (overloaded) 'w timer =
  tm_addr :: nat
  tm_fn :: nat
  tm_ctx :: nat
  tm_now :: "'w word"
  tm_when_set :: "'w word"
  tm_hwnd :: nat

definition compare_timers :: "'w::len word \<Rightarrow> 'w timer \<Rightarrow> 'w timer \<Rightarrow> int" where
  "compare_timers now a b =
     (let at = sint (tm_now a - now); bt = sint (tm_now b - now) in
      if at < bt then - 1 else if at > bt then 1
      else if tm_fn a < tm_fn b then - 1 else if tm_fn a > tm_fn b then 1
      else if tm_ctx a < tm_ctx b then - 1 else if tm_ctx a > tm_ctx b then 1
      else 0)"

definition compare_timer_contexts :: "nat \<Rightarrow> nat \<Rightarrow> int" where
  "compare_timer_contexts a b = (if a < b then - 1 else if a > b then 1 else 0)"

text \<open>The static variables, and the next address \<open>snew\<close> returns.\<close>

record (overloaded) 'w timing =
  timers :: "'w timer tree234 option"
  timer_contexts :: "nat tree234 option"
  clock :: "'w word"
  next_addr :: nat

definition set_now :: "'w::len word \<Rightarrow> 'w timing \<Rightarrow> 'w timing" where
  "set_now n st =
     st\<lparr>clock := n, timers := map_option (\<lambda>t. t\<lparr>t_cmp := Some (compare_timers n)\<rparr>) (timers st)\<rparr>"

definition init_timers :: "'w::len word \<Rightarrow> 'w timing \<Rightarrow> 'w timing" where
  "init_timers tick st =
     (if timers st = None
      then st\<lparr>timers := Some (newtree234 (Some (compare_timers tick))),
              timer_contexts := Some (newtree234 (Some compare_timer_contexts)), clock := tick\<rparr>
      else st)"

text \<open>The loop behind the insertion: the first timer that belongs to the window.\<close>

partial_function (option) first_for_window :: "'w::len timer tree234 \<Rightarrow> nat \<Rightarrow> int \<Rightarrow> 'w timer option option" where
  "first_for_window tree hwnd idx =
     (case index234 tree idx of
        None \<Rightarrow> Some None
      | Some first \<Rightarrow> if tm_hwnd first \<noteq> hwnd then first_for_window tree hwnd (idx + 1) else Some (Some first))"

declare first_for_window.simps [code]

text \<open>The result holds the return value and the call of \<open>timer_change_notify\<close>, if there is one.\<close>

definition schedule_timer ::
  "'w::len word \<Rightarrow> nat \<Rightarrow> 32 word \<Rightarrow> nat \<Rightarrow> nat \<Rightarrow> 'w timing \<Rightarrow> ('w timing \<times> 'w word \<times> (nat \<times> 'w word) option) option"
where
  "schedule_timer tick hwnd ticks fn ctx st =
     (let st = set_now tick (init_timers tick st);
          when = scast ticks + clock st;
          when = (if when - clock st \<le> 0 then clock st + 1 else when);
          t = \<lparr>tm_addr = next_addr st, tm_fn = fn, tm_ctx = ctx, tm_now = when, tm_when_set = clock st, tm_hwnd = hwnd\<rparr>;
          st = st\<lparr>next_addr := next_addr st + 1\<rparr>
      in Option.bind (timers st) (\<lambda>tree. Option.bind (add234 tree t) (\<lambda>(tree, e).
         let st = st\<lparr>timers := Some tree\<rparr> in
         Option.bind (if e \<noteq> Some t then Some st
           else Option.bind (timer_contexts st) (\<lambda>cs. map_option (\<lambda>(cs, _). st\<lparr>timer_contexts := Some cs\<rparr>) (add234 cs ctx)))
         (\<lambda>st. Option.bind (first_for_window tree hwnd 0) (\<lambda>first.
         Some (st, when, if first = Some t then Some (hwnd, tm_now t) else None))))))"

definition timing_last_clock :: "'w::len timing \<Rightarrow> 'w word" where
  "timing_last_clock st = clock st"

definition expire_timer_context :: "'w::len word \<Rightarrow> nat \<Rightarrow> 'w timing \<Rightarrow> 'w timing option" where
  "expire_timer_context tick ctx st =
     (let st = init_timers tick st in
      Option.bind (timer_contexts st) (\<lambda>cs. map_option (\<lambda>(cs, _). st\<lparr>timer_contexts := Some cs\<rparr>) (del234 cs ctx)))"

text \<open>
  A timer function may call back into the module, and reads the clock when it does; what it asks for is a list
  of requests.
\<close>

datatype 'a request = Schedule 'a nat "32 word" nat nat | Expire nat

primrec run_requests :: "'w::len word request list \<Rightarrow> 'w timing \<Rightarrow> 'w timing option" where
  "run_requests [] st = Some st"
| "run_requests (r # rs) st =
     Option.bind (case r of
         Schedule tick hwnd ticks fn ctx \<Rightarrow> map_option fst (schedule_timer tick hwnd ticks fn ctx st)
       | Expire ctx \<Rightarrow> expire_timer_context (clock st) ctx st)
     (run_requests rs)"

text \<open>
  The loop of \<open>run_timers\<close>: the state, the timers run so far, and \<open>*next\<close> when the result is true. What the
  function of a timer asks for may depend on all that went before: \<open>calls\<close> gets the timers run so far, this one
  the last of them.
\<close>

definition due :: "'w::len word \<Rightarrow> 'w timer \<Rightarrow> bool" where
  "due now t \<longleftrightarrow> now - (tm_when_set t - 10) > tm_now t - (tm_when_set t - 10)"

partial_function (option) run_loop ::
  "('w::len timer list \<Rightarrow> 'w word request list) \<Rightarrow> 'w timing \<Rightarrow> 'w timer list \<Rightarrow> ('w timing \<times> 'w timer list \<times> 'w word option) option"
where
  "run_loop calls st fired =
     Option.bind (timers st) (\<lambda>tree. Option.bind (timer_contexts st) (\<lambda>cs.
     case index234 tree 0 of
       None \<Rightarrow> Some (st, fired, None)
     | Some first \<Rightarrow>
         Option.bind (find234 cs (tm_ctx first) compare_timer_contexts) (\<lambda>found.
         if found = None then
           Option.bind (delpos234 tree 0) (\<lambda>(tree, _). run_loop calls (st\<lparr>timers := Some tree\<rparr>) fired)
         else if due (clock st) first then
           Option.bind (delpos234 tree 0) (\<lambda>(tree, _).
           Option.bind (run_requests (calls (fired @ [first])) (st\<lparr>timers := Some tree\<rparr>)) (\<lambda>st.
           run_loop calls st (fired @ [first])))
         else Some (st, fired, Some (tm_now first)))))"

declare run_loop.simps [code]

definition run_timers ::
  "('w::len timer list \<Rightarrow> 'w word request list) \<Rightarrow> 'w word \<Rightarrow> 'w timing \<Rightarrow> ('w timing \<times> 'w timer list \<times> 'w word option) option"
where
  "run_timers calls tick st = run_loop calls (set_now tick (init_timers tick st)) []"

definition no_timers :: "'w::len timing" where
  "no_timers = \<lparr>timers = None, timer_contexts = None, clock = 0, next_addr = 0\<rparr>"

section \<open>Times relative to the clock\<close>

text \<open>
  A timer is \<open>sane\<close> at a clock reading when neither its delay nor its age has reached a quarter of the
  range of the clock. The signed distances are then exact.
\<close>

definition sane :: "'w::len word \<Rightarrow> 'w timer \<Rightarrow> bool" where
  "sane n t \<longleftrightarrow> 4 * unat (n - tm_when_set t) < 2 ^ LENGTH('w) \<and> 4 * unat (tm_now t - tm_when_set t) < 2 ^ LENGTH('w)"

definition togo :: "'w::len word \<Rightarrow> 'w timer \<Rightarrow> int" where
  "togo n t = sint (tm_now t - n)"

lemma sint_of_small:
  assumes "- (2 ^ LENGTH('w::len)) \<le> 2 * k" "2 * k < 2 ^ LENGTH('w)"
  shows "sint (word_of_int k :: 'w word) = k"
proof -
  have "(2::int) ^ LENGTH('w) = 2 * 2 ^ (LENGTH('w) - 1)" by (simp flip: power_Suc)
  then show ?thesis using assms by (simp add: signed_of_int signed_take_bit_int_eq_self)
qed

lemma quarter: "0 \<le> a \<Longrightarrow> 0 \<le> b \<Longrightarrow> 4 * a < P \<Longrightarrow> 4 * b < P \<Longrightarrow> 4 * \<bar>a - b\<bar> < P" for a b P :: int
  by presburger

lemma togo_sane:
  assumes "sane n (t :: 'w::len timer)"
  shows "togo n t = int (unat (tm_now t - tm_when_set t)) - int (unat (n - tm_when_set t))"
    "4 * \<bar>togo n t\<bar> < 2 ^ LENGTH('w)"
proof -
  define x y where "x = tm_now t - tm_when_set t" and "y = n - tm_when_set t"
  have "int (4 * unat x) < int (2 ^ LENGTH('w))" "int (4 * unat y) < int (2 ^ LENGTH('w))"
    using assms unfolding sane_def x_def y_def of_nat_less_iff by simp_all
  then have b: "4 * int (unat x) < 2 ^ LENGTH('w)" "4 * int (unat y) < 2 ^ LENGTH('w)" by simp_all
  have "tm_now t - n = x - y" by (simp add: x_def y_def)
  also have "\<dots> = word_of_int (int (unat x) - int (unat y))" by simp
  finally have "togo n t = sint (word_of_int (int (unat x) - int (unat y)) :: 'w word)" by (simp only: togo_def)
  also have "\<dots> = int (unat x) - int (unat y)" 
  proof (rule sint_of_small)
    have "0 \<le> int (unat x)" "0 \<le> int (unat y)" by (rule of_nat_0_le_iff)+
    then show "- (2 ^ LENGTH('w)) \<le> 2 * (int (unat x) - int (unat y))" "2 * (int (unat x) - int (unat y)) < 2 ^ LENGTH('w)"
      using b unfolding right_diff_distrib by linarith+
  qed
  finally show "togo n t = int (unat (tm_now t - tm_when_set t)) - int (unat (n - tm_when_set t))" by (simp only: x_def y_def)
  moreover have "4 * \<bar>int (unat x) - int (unat y)\<bar> < 2 ^ LENGTH('w)"
    by (rule quarter [OF of_nat_0_le_iff of_nat_0_le_iff b])
  ultimately show "4 * \<bar>togo n t\<bar> < 2 ^ LENGTH('w)" by (simp only: x_def y_def)
qed

lemma due_togo:
  assumes "sane n (t :: 'w::len timer)" "32 \<le> LENGTH('w)"
  shows "due n t \<longleftrightarrow> togo n t < 0"
proof -
  define x y where "x = tm_now t - tm_when_set t" and "y = n - tm_when_set t"
  have "(2::nat) ^ 32 \<le> 2 ^ LENGTH('w)" using assms(2) by (intro power_increasing) auto
  then have b: "unat x + 10 < 2 ^ LENGTH('w)" "unat y + 10 < 2 ^ LENGTH('w)"
    using assms(1) unfolding sane_def x_def [symmetric] y_def [symmetric] by simp_all
  have ten: "unat (10 :: 'w word) = 10"
  proof -
    have "unat (of_nat 10 :: 'w word) = 10" 
      unfolding unat_of_nat by (rule mod_less) (use \<open>2 ^ 32 \<le> 2 ^ LENGTH('w)\<close> in simp)
    then show ?thesis by simp
  qed
  have "unat (x + 10) = unat x + 10" "unat (y + 10) = unat y + 10"
    using b ten by (simp_all add: unat_add_lem [THEN iffD1])
  moreover have "n - (tm_when_set t - 10) = y + 10" "tm_now t - (tm_when_set t - 10) = x + 10"
    by (simp_all add: x_def y_def)
  ultimately have "due n t \<longleftrightarrow> unat x < unat y" by (simp only: due_def word_less_nat_alt) linarith
  then show ?thesis unfolding togo_sane(1) [OF assms(1)] x_def y_def by (simp only: diff_less_0_iff_less of_nat_less_iff)
qed

text \<open>As long as the timers are sane, moving the clock moves all distances by the same amount.\<close>

lemma togo_move:
  assumes "sane n a" "sane n' a" "sane n b" "sane n' (b :: 'w::len timer)"
  shows "togo n' a - togo n a = togo n' b - togo n b"
proof -
  have d: "(2 ^ LENGTH('w) :: int) dvd (togo n' t - togo n t) - uint (n - n')" for t :: "'w timer"
  proof -
    have "word_of_int (togo n' t - togo n t - uint (n - n')) = (0 :: 'w word)" by (simp add: togo_def)
    then show ?thesis by (rule word_of_int_eq_0_iff [THEN iffD1])
  qed
  have "2 ^ LENGTH('w) dvd ((togo n' a - togo n a) - uint (n - n')) - ((togo n' b - togo n b) - uint (n - n'))"
    by (intro dvd_diff d)
  moreover have "(u - c) - (v - c) = u - v" for u v c :: int by simp
  ultimately have "2 ^ LENGTH('w) dvd (togo n' a - togo n a) - (togo n' b - togo n b)" by (simp only:)
  moreover have "\<bar>(togo n' a - togo n a) - (togo n' b - togo n b)\<bar> < 2 ^ LENGTH('w)"
    using togo_sane(2) [OF assms(1)] togo_sane(2) [OF assms(2)] togo_sane(2) [OF assms(3)] togo_sane(2) [OF assms(4)]
    by linarith
  ultimately have "(togo n' a - togo n a) - (togo n' b - togo n b) = 0"
    using dvd_imp_le_int [of "(togo n' a - togo n a) - (togo n' b - togo n b)" "2 ^ LENGTH('w)"] by fastforce
  then show ?thesis by simp
qed

lemma compare_timers_move:
  assumes "sane n a" "sane n' a" "sane n b" "sane n' (b :: 'w::len timer)"
  shows "compare_timers n' a b = compare_timers n a b"
proof -
  have "sint (tm_now a - n') < sint (tm_now b - n') \<longleftrightarrow> sint (tm_now a - n) < sint (tm_now b - n)"
    "sint (tm_now b - n') < sint (tm_now a - n') \<longleftrightarrow> sint (tm_now b - n) < sint (tm_now a - n)"
    using togo_move [OF assms] unfolding togo_def by linarith+
  then show ?thesis by (simp only: compare_timers_def Let_def)
qed

lemma total_cmp_key: "total_cmp (\<lambda>x y. if f x < f y then - 1 else if f x > f y then 1 else (0 :: int))"
  for f :: "'a \<Rightarrow> 'b::linorder"
  by (auto simp: total_cmp_def)

lemma total_compare_timers: "total_cmp (compare_timers n)"
proof -
  have "compare_timers n = (\<lambda>x y. if (togo n x, tm_fn x, tm_ctx x) < (togo n y, tm_fn y, tm_ctx y) then - 1
      else if (togo n x, tm_fn x, tm_ctx x) > (togo n y, tm_fn y, tm_ctx y) then 1 else 0)"
    by (intro ext) (auto simp: compare_timers_def Let_def togo_def less_prod_simp)
  then show ?thesis by (simp only: total_cmp_key)
qed

lemma total_compare_contexts: "total_cmp compare_timer_contexts"
  unfolding compare_timer_contexts_def [abs_def] by (rule total_cmp_key)

section \<open>The two trees\<close>

definition pending :: "'w::len timing \<Rightarrow> 'w timer list" where
  "pending st = (case timers st of None \<Rightarrow> [] | Some tree \<Rightarrow> elems234 tree)"

definition live :: "'w::len timing \<Rightarrow> nat set" where
  "live st = (case timer_contexts st of None \<Rightarrow> {} | Some cs \<Rightarrow> set (elems234 cs))"

text \<open>The state between calls, once it is initialised, and before.\<close>

definition running :: "'w::len timing \<Rightarrow> bool" where
  "running st \<longleftrightarrow> (\<exists>tree cs. timers st = Some tree \<and> timer_contexts st = Some cs \<and>
     tree_inv (compare_timers (clock st)) tree \<and> tree_inv compare_timer_contexts cs \<and>
     (\<forall>t \<in> set (elems234 tree). sane (clock st) t \<and> tm_addr t < next_addr st))"

definition timing_ok :: "'w::len timing \<Rightarrow> bool" where
  "timing_ok st \<longleftrightarrow> timers st = None \<and> timer_contexts st = None \<or> running st"

text \<open>No pending timer is too old at the new reading of the clock.\<close>

definition clock_ok :: "'w::len word \<Rightarrow> 'w timing \<Rightarrow> bool" where
  "clock_ok n st \<longleftrightarrow> (\<forall>t \<in> set (pending st). sane n t)"

lemma newtree_inv: "total_cmp c \<Longrightarrow> tree_inv c (newtree234 (Some c))"
  by (auto simp: tree_inv_def newtree234_def wf234_def elems234_def sorted_by_def intro: exI [of _ 0])

lemma init_timers_ok:
  assumes "timing_ok st"
  shows "running (init_timers tick st)" "pending (init_timers tick st) = pending st" "live (init_timers tick st) = live st"
    "next_addr (init_timers tick st) = next_addr st"
  using assms newtree_inv [OF total_compare_timers [of tick]] newtree_inv [OF total_compare_contexts]
  by (auto simp: timing_ok_def init_timers_def running_def pending_def live_def newtree234_def elems234_def)

lemma set_now_ok:
  assumes "running st" "clock_ok n st"
  shows "running (set_now n st)" "pending (set_now n st) = pending st" "live (set_now n st) = live st"
    "next_addr (set_now n st) = next_addr st" "clock (set_now n st) = n"
proof -
  obtain tree cs where st: "timers st = Some tree" "timer_contexts st = Some cs"
    "tree_inv (compare_timers (clock st)) tree" "tree_inv compare_timer_contexts cs"
    "\<forall>t \<in> set (elems234 tree). sane (clock st) t \<and> tm_addr t < next_addr st"
    using assms(1) by (auto simp: running_def)
  have n: "\<forall>t \<in> set (elems234 tree). sane n t" using assms(2) st(1) by (simp add: clock_ok_def pending_def)
  have "sorted_by (compare_timers n) (elems234 tree)"
  proof -
    have "sorted_wrt (\<lambda>x y. compare_timers (clock st) x y < 0) (elems234 tree)"
      using st(3) by (simp add: tree_inv_def sorted_by_def)
    then show ?thesis
      unfolding sorted_by_def by (rule sorted_wrt_mono_rel [rotated]) (use st(5) n compare_timers_move in metis)
  qed
  then have "tree_inv (compare_timers n) (tree\<lparr>t_cmp := Some (compare_timers n)\<rparr>)"
    using st(3) total_compare_timers by (simp add: tree_inv_def wf234_def elems234_def)
  then show "running (set_now n st)" using st n by (simp add: running_def set_now_def elems234_def)
  show "pending (set_now n st) = pending st" "live (set_now n st) = live st"
    "next_addr (set_now n st) = next_addr st" "clock (set_now n st) = n"
    using st by (simp_all add: pending_def live_def set_now_def elems234_def)
qed

lemma first_for_window_ok:
  assumes "wf234 tree"
  shows "0 \<le> i \<Longrightarrow> first_for_window tree hwnd i = Some (find (\<lambda>t. tm_hwnd t = hwnd) (drop (nat i) (elems234 tree)))"
proof (induction "length (elems234 tree) - nat i" arbitrary: i rule: less_induct)
  case less
  show ?case
  proof (cases "nat i < length (elems234 tree)")
    case False
    then have "index234 tree i = None"
      using less.prems by (simp add: index234_ok [OF assms] nth_opt_def)
    then show ?thesis using False by (subst first_for_window.simps) simp
  next
    case True
    then have x: "index234 tree i = Some (elems234 tree ! nat i)"
      using less.prems by (simp add: index234_ok [OF assms] nth_opt_def)
    have "nat (i + 1) = Suc (nat i)" using less.prems by simp
    moreover have "length (elems234 tree) - nat (i + 1) < length (elems234 tree) - nat i"
      using True less.prems by simp
    ultimately show ?thesis
      using less.hyps [of "i + 1"] less.prems x True
      by (subst first_for_window.simps) (simp add: Cons_nth_drop_Suc [symmetric])
  qed
qed

text \<open>Two timers the comparison takes for the same: the same time, function and context.\<close>

definition same_timer :: "'w::len timer \<Rightarrow> 'w timer \<Rightarrow> bool" where
  "same_timer a b \<longleftrightarrow> tm_now a = tm_now b \<and> tm_fn a = tm_fn b \<and> tm_ctx a = tm_ctx b"

lemma compare_timers_0: "compare_timers n a b = 0 \<longleftrightarrow> same_timer a b"
proof -
  have "sint (tm_now a - n) = sint (tm_now b - n) \<longleftrightarrow> tm_now a = tm_now b"
    by (metis diff_add_cancel signed_word_eqI)
  then show ?thesis by (auto simp: compare_timers_def Let_def same_timer_def)
qed

section \<open>Scheduling and expiring\<close>

lemma compare_contexts_0 [simp]: "compare_timer_contexts a b = 0 \<longleftrightarrow> a = b"
  by (auto simp: compare_timer_contexts_def)

lemma tree_insert:
  assumes "tree_inv c t"
  obtains x where "x \<in> set (elems234 t)" "c e x = 0" "add234 t e = Some (t, Some x)"
  | t' where "\<forall>x \<in> set (elems234 t). c e x \<noteq> 0" "add234 t e = Some (t', Some e)" "tree_inv c t'"
      "set (elems234 t') = insert e (set (elems234 t))"
proof (cases "\<exists>x \<in> set (elems234 t). c e x = 0")
  case True
  then show thesis using t234.add_old [OF assms] that(1) by blast
next
  case False
  then show thesis using t234.add_set [OF assms, of e] that(2) by blast
qed

lemma contexts_add:
  assumes "tree_inv compare_timer_contexts cs"
  obtains cs' e where "add234 cs ctx = Some (cs', e)" "tree_inv compare_timer_contexts cs'"
    "set (elems234 cs') = insert ctx (set (elems234 cs))"
  by (rule tree_insert [OF assms, of ctx]) (use that assms in auto)

lemma contexts_del:
  assumes "tree_inv compare_timer_contexts cs"
  obtains cs' e where "del234 cs ctx = Some (cs', e)" "tree_inv compare_timer_contexts cs'"
    "set (elems234 cs') = set (elems234 cs) - {ctx}"
proof (cases "ctx \<in> set (elems234 cs)")
  case True
  then show thesis using t234.del_set [OF assms True, of ctx] that by auto
next
  case False
  then show thesis using t234.del_absent [OF assms, of ctx] that assms by force
qed

lemma expire_ok:
  assumes "timing_ok st"
  obtains st' where "expire_timer_context tick ctx st = Some st'" "running st'" "pending st' = pending st"
    "live st' = live st - {ctx}" "clock st' = clock (init_timers tick st)"
proof -
  note st1 = init_timers_ok [OF assms, of tick]
  obtain tree cs where st: "timers (init_timers tick st) = Some tree" "timer_contexts (init_timers tick st) = Some cs"
    "tree_inv compare_timer_contexts cs" using st1(1) by (auto simp: running_def)
  obtain cs' e where d: "del234 cs ctx = Some (cs', e)" "tree_inv compare_timer_contexts cs'"
    "set (elems234 cs') = set (elems234 cs) - {ctx}" by (rule contexts_del [OF st(3)])
  define st' where "st' = (init_timers tick st)\<lparr>timer_contexts := Some cs'\<rparr>"
  have "expire_timer_context tick ctx st = Some st'"
    using st d(1) by (simp add: expire_timer_context_def st'_def Let_def)
  moreover have "running st'" using st1(1) st d(2) by (auto simp: running_def st'_def)
  moreover have "pending st' = pending st" using st1(2) by (simp add: st'_def pending_def)
  moreover have "live st' = live st - {ctx}" using st1(3) st(2) d(3) by (simp add: st'_def live_def)
  ultimately show thesis using that by (simp add: st'_def)
qed

text \<open>The timer that a call asks for, and the time it is set to: at least one tick ahead.\<close>

definition asked :: "'w::len word \<Rightarrow> nat \<Rightarrow> 32 word \<Rightarrow> nat \<Rightarrow> nat \<Rightarrow> 'w timing \<Rightarrow> 'w timer" where
  "asked tick hwnd ticks fn ctx st =
     \<lparr>tm_addr = next_addr st, tm_fn = fn, tm_ctx = ctx, tm_now = tick + (if ticks = 0 then 1 else scast ticks),
       tm_when_set = tick, tm_hwnd = hwnd\<rparr>"

lemma scast_positive:
  assumes "32 \<le> LENGTH('w::len)" "0 < sint (ticks :: 32 word)"
  shows "unat (scast ticks :: 'w word) = nat (sint ticks)"
proof -
  have "sint ticks < 2 ^ 31" using sint_lt [of ticks] by simp
  also have "(2::int) ^ 31 < 2 ^ LENGTH('w)" using assms(1) by (intro power_strict_increasing) auto
  finally show ?thesis using assms(2) unfolding scast_eq unsigned_of_int by (simp add: take_bit_int_eq_self)
qed

lemma sint_positive: "0 \<le> sint (w :: 32 word) \<Longrightarrow> w \<noteq> 0 \<Longrightarrow> 0 < sint w"
  using signed_word_eqI [of w 0] by (metis order_less_le signed_0)

lemma asked_sane:
  assumes "32 \<le> LENGTH('w::len)" "0 \<le> sint ticks" "sint ticks < 2 ^ 30"
  shows "sane tick (asked tick hwnd ticks fn ctx (st :: 'w timing))"
    "togo tick (asked tick hwnd ticks fn ctx st) = (if ticks = 0 then 1 else sint ticks)"
proof -
  have nz: "0 < sint ticks" if "ticks \<noteq> 0" by (rule sint_positive [OF assms(2) that])
  have one: "unat (1 :: 'w word) = 1" by simp
  have delay: "tm_now (asked tick hwnd ticks fn ctx st) - tick = (if ticks = 0 then 1 else scast ticks)"
    by (simp add: asked_def)
  have u: "unat (tm_now (asked tick hwnd ticks fn ctx st) - tick) = (if ticks = 0 then 1 else nat (sint ticks))"
    unfolding delay using scast_positive [OF assms(1) nz] one by simp
  have "4 * (if ticks = 0 then 1 else nat (sint ticks)) < 2 ^ 32"
    using assms(3) by (cases "ticks = 0") simp_all
  also have "\<dots> \<le> 2 ^ LENGTH('w)" using assms(1) by (intro power_increasing) auto
  finally show s: "sane tick (asked tick hwnd ticks fn ctx st)" using u by (simp add: sane_def) (simp add: asked_def)
  show "togo tick (asked tick hwnd ticks fn ctx st) = (if ticks = 0 then 1 else sint ticks)"
    unfolding togo_sane(1) [OF s] using u assms(2) by (simp add: asked_def del: of_nat_unat)
qed

lemma schedule_ok:
  fixes st :: "'w::len timing"
  assumes L: "32 \<le> LENGTH('w)" and ok: "timing_ok st" "clock_ok tick st" and ticks: "0 \<le> sint ticks" "sint ticks < 2 ^ 30"
    and t_def: "t = asked tick hwnd ticks fn ctx st"
  obtains st' notify where "schedule_timer tick hwnd ticks fn ctx st = Some (st', tm_now t, notify)" "running st'"
    "clock st' = tick"
    "if \<exists>u \<in> set (pending st). same_timer t u
     then pending st' = pending st \<and> live st' = live st \<and> notify = None
     else set (pending st') = insert t (set (pending st)) \<and> live st' = insert ctx (live st) \<and>
       notify = (if find (\<lambda>u. tm_hwnd u = hwnd) (pending st') = Some t then Some (hwnd, tm_now t) else None)"
proof -
  define s0 where "s0 = init_timers tick st"
  note i = init_timers_ok [OF ok(1), of tick, folded s0_def]
  have "clock_ok tick s0" using ok(2) i(2) by (simp add: clock_ok_def)
  note n = set_now_ok [OF i(1) this]
  define s1 where "s1 = set_now tick s0"
  note n = n [folded s1_def]
  have c: "clock s1 = tick" by (rule n(5))
  obtain tree cs where st: "timers s1 = Some tree" "timer_contexts s1 = Some cs" "tree_inv (compare_timers tick) tree"
    "tree_inv compare_timer_contexts cs" "\<forall>u \<in> set (elems234 tree). sane tick u \<and> tm_addr u < next_addr s1"
    using n(1) c by (auto simp: running_def)
  have pend: "pending st = elems234 tree" using n(2) i(2) st(1) by (simp add: pending_def)
  have lv: "live st = set (elems234 cs)" using n(3) i(3) st(2) by (simp add: live_def)
  have na: "next_addr s1 = next_addr st" using n(4) i(4) by simp
  have nz: "\<not> scast ticks + tick - tick \<le> 0" if "ticks \<noteq> 0"
  proof -
    have "0 < sint ticks" by (rule sint_positive [OF ticks(1) that])
    then show ?thesis using scast_positive [OF L] by (simp add: word_le_nat_alt)
  qed
  have tm: "(if scast ticks + tick - tick \<le> 0 then tick + 1 else scast ticks + tick) = tm_now t"
    using nz by (simp add: t_def asked_def add.commute)
  have tt: "\<lparr>tm_addr = next_addr s1, tm_fn = fn, tm_ctx = ctx, tm_now = tm_now t, tm_when_set = tick, tm_hwnd = hwnd\<rparr> = t"
    by (simp add: t_def asked_def na)
  have sn: "sane tick t" unfolding t_def by (rule asked_sane [OF L ticks])
  have fresh: "t \<notin> set (elems234 tree)" using st(5) na by (auto simp: t_def asked_def)
  have run: "schedule_timer tick hwnd ticks fn ctx st =
    Option.bind (add234 tree t) (\<lambda>(tree, e).
         let st = s1\<lparr>next_addr := next_addr s1 + 1, timers := Some tree\<rparr> in
         Option.bind (if e \<noteq> Some t then Some st
           else Option.bind (timer_contexts st) (\<lambda>cs. map_option (\<lambda>(cs, _). st\<lparr>timer_contexts := Some cs\<rparr>) (add234 cs ctx)))
         (\<lambda>st. Option.bind (first_for_window tree hwnd 0) (\<lambda>first.
         Some (st, tm_now t, if first = Some t then Some (hwnd, tm_now t) else None))))"
    unfolding schedule_timer_def Let_def s0_def [symmetric] s1_def [symmetric] c tm tt
    using st(1,2) by simp
  show thesis
  proof (rule tree_insert [OF st(3), of t], goal_cases old new)
    case (old u)
    define s2 where "s2 = s1\<lparr>next_addr := next_addr s1 + 1, timers := Some tree\<rparr>"
    have "u \<noteq> t" using old(1) fresh by blast
    moreover have wf: "wf234 tree" using st(3) by (simp add: tree_inv_def)
    moreover have "find (\<lambda>u. tm_hwnd u = hwnd) (elems234 tree) \<noteq> Some t"
      using fresh by (auto simp: find_Some_iff)
    ultimately have r: "schedule_timer tick hwnd ticks fn ctx st = Some (s2, tm_now t, None)"
      unfolding run using old(3) by (simp add: first_for_window_ok [OF wf] s2_def Let_def)
    have "running s2" using st c by (auto simp: running_def s2_def less_Suc_eq)
    moreover have "pending s2 = pending st" "live s2 = live st" using pend lv st(2) by (simp_all add: pending_def live_def s2_def)
    moreover have "\<exists>u \<in> set (pending st). same_timer t u" using old(1,2) pend by (auto simp: compare_timers_0)
    ultimately show thesis using that [OF r] c by (simp add: s2_def)
  next
    case (new tree')
    obtain cs' e where cs': "add234 cs ctx = Some (cs', e)" "tree_inv compare_timer_contexts cs'"
      "set (elems234 cs') = insert ctx (set (elems234 cs))" by (rule contexts_add [OF st(4)])
    define s2 where "s2 = s1\<lparr>next_addr := next_addr s1 + 1, timers := Some tree', timer_contexts := Some cs'\<rparr>"
    have wf: "wf234 tree'" using new(3) by (simp add: tree_inv_def)
    have r: "schedule_timer tick hwnd ticks fn ctx st = Some (s2, tm_now t,
        if find (\<lambda>u. tm_hwnd u = hwnd) (elems234 tree') = Some t then Some (hwnd, tm_now t) else None)"
      unfolding run using new(2) cs'(1) st(2) by (simp add: first_for_window_ok [OF wf] s2_def Let_def)
    have "running s2" using st c new(3,4) cs'(2) sn na by (auto simp: running_def s2_def less_Suc_eq t_def asked_def)
    moreover have "pending s2 = elems234 tree'" "live s2 = insert ctx (live st)"
      using lv cs'(3) by (simp_all add: pending_def live_def s2_def)
    moreover have "\<not> (\<exists>u \<in> set (pending st). same_timer t u)" using new(1) pend by (auto simp: compare_timers_0)
    ultimately show thesis using that [OF r] c new(4) pend by (simp add: s2_def)
  qed
qed

section \<open>Running the timers that are due\<close>

lemma running_clock_ok: "running st \<Longrightarrow> clock_ok (clock st) st"
  by (auto simp: running_def clock_ok_def pending_def)

lemma running_timing_ok: "running st \<Longrightarrow> timing_ok st"
  by (simp add: timing_ok_def)

lemma running_due:
  fixes st :: "'w::len timing"
  assumes "running st" "32 \<le> LENGTH('w)" "t \<in> set (pending st)"
  shows "due (clock st) t \<longleftrightarrow> togo (clock st) t < 0"
  using due_togo [OF _ assms(2)] running_clock_ok [OF assms(1)] assms(3) by (simp add: clock_ok_def)

lemma running_sorted:
  assumes "running st"
  shows "sorted_by (compare_timers (clock st)) (pending st)"
  using assms by (auto simp: running_def pending_def tree_inv_def)

lemma compare_togo: "compare_timers n a b < 0 \<Longrightarrow> togo n a \<le> togo n b"
  by (auto simp: compare_timers_def Let_def togo_def split: if_splits)

subsection \<open>A window of the clock\<close>

text \<open>
  While timers are run the clock goes on. All its readings lie in a window of less than a quarter of
  the range of 32 bits from the first reading \<open>n\<close>; \<open>readings\<close> gives their distances from it.
\<close>

fun readings :: "'w::len word \<Rightarrow> 'w word request list \<Rightarrow> nat list" where
  "readings n [] = []"
| "readings n (Schedule tick hwnd ticks fn ctx # rs) = unat (tick - n) # readings n rs"
| "readings n (Expire ctx # rs) = readings n rs"

definition delay_ok :: "'w::len word request \<Rightarrow> bool" where
  "delay_ok r \<longleftrightarrow> (case r of Schedule tick hwnd ticks fn ctx \<Rightarrow> 0 \<le> sint ticks \<and> sint ticks < 2 ^ 30 | Expire ctx \<Rightarrow> True)"

text \<open>
  \<open>well_timed n d calls\<close>: whatever timers have been run, the delays the timer functions ask for are not negative and
  below \<open>2 ^ 30\<close>, and they read the clock at most \<open>d\<close> after \<open>n\<close> and never find it run backwards.
\<close>

definition well_timed :: "'w::len word \<Rightarrow> nat \<Rightarrow> ('w timer list \<Rightarrow> 'w word request list) \<Rightarrow> bool" where
  "well_timed n d calls \<longleftrightarrow>
     (\<forall>h. (\<forall>r \<in> set (calls h). delay_ok r) \<and> (\<forall>k \<in> set (readings n (calls h)). k \<le> d) \<and> sorted (readings n (calls h)) \<and>
        (\<forall>g. g \<noteq> [] \<longrightarrow> (\<forall>i \<in> set (readings n (calls h)). \<forall>j \<in> set (readings n (calls (h @ g))). i \<le> j)))"

definition in_window :: "'w::len word \<Rightarrow> nat \<Rightarrow> 'w timing \<Rightarrow> bool" where
  "in_window n d st \<longleftrightarrow> running st \<and> unat (clock st - n) \<le> d \<and>
     (\<forall>t \<in> set (pending st). \<forall>k. unat (clock st - n) \<le> k \<and> k \<le> d \<longrightarrow> sane (n + of_nat k) t)"

lemma window_clock: "clock st = n + of_nat (unat (clock st - n))"
  by simp

lemma pow_30:
  assumes "32 \<le> LENGTH('w::len)"
  shows "(4 :: nat) * 2 ^ 30 \<le> 2 ^ LENGTH('w)" "(4 :: int) * 2 ^ 30 \<le> 2 ^ LENGTH('w)"
proof -
  have "(2 :: nat) ^ 32 \<le> 2 ^ LENGTH('w)" "(2 :: int) ^ 32 \<le> 2 ^ LENGTH('w)"
    using assms by (intro power_increasing; simp)+
  then show "(4 :: nat) * 2 ^ 30 \<le> 2 ^ LENGTH('w)" "(4 :: int) * 2 ^ 30 \<le> 2 ^ LENGTH('w)" by simp_all
qed

text \<open>Measured from the start of the window, the time of a sane timer is exact, also of one set later.\<close>

lemma togo_shift:
  fixes t :: "'w::len timer"
  assumes L: "32 \<le> LENGTH('w)" and k: "k < 2 ^ 30" and s: "sane (n + of_nat k) t"
  shows "togo (n + of_nat k) t = togo n t - int k"
proof -
  define P where "P = (2 :: int) ^ LENGTH('w)"
  define H where "H = (2 :: int) ^ (LENGTH('w) - 1)"
  have PH: "P = 2 * H" by (simp add: P_def H_def flip: power_Suc)
  have a: "4 * \<bar>togo (n + of_nat k) t\<bar> < P" using togo_sane(2) [OF s] by (simp only: P_def)
  have b: "- H \<le> togo n t" "togo n t < H"
    using sint_ge [of "tm_now t - n"] sint_lt [of "tm_now t - n"] by (simp_all only: togo_def H_def)
  have "int k < int (2 ^ 30)" using k by (simp only: of_nat_less_iff)
  then have "int k < 2 ^ 30" by simp
  then have c: "4 * int k < P" "0 \<le> int k" using pow_30(2) [OF L] by (simp_all add: P_def)
  have "word_of_int (togo (n + of_nat k) t - togo n t + int k) = (0 :: 'w word)" by (simp add: togo_def)
  then have "P dvd togo (n + of_nat k) t - togo n t + int k" unfolding P_def by (rule word_of_int_eq_0_iff [THEN iffD1])
  moreover have "\<bar>togo (n + of_nat k) t - togo n t + int k\<bar> < P" using a b c PH by linarith
  ultimately have "togo (n + of_nat k) t - togo n t + int k = 0"
    using dvd_imp_le_int [of "togo (n + of_nat k) t - togo n t + int k" P] by fastforce
  then show ?thesis by simp
qed

lemma window_togo:
  fixes st :: "'w::len timing"
  assumes L: "32 \<le> LENGTH('w)" and d: "d < 2 ^ 30" and w: "in_window n d st" and t: "t \<in> set (pending st)"
  shows "togo (clock st) t = togo n t - int (unat (clock st - n))"
proof -
  have "unat (clock st - n) < 2 ^ 30" using w d by (simp add: in_window_def)
  moreover have "sane (n + of_nat (unat (clock st - n))) t" using w t unfolding in_window_def by blast
  ultimately have "unat (clock st - n) < 2 ^ 30" "sane (n + of_nat (unat (clock st - n))) t" .
  from togo_shift [OF L this] show ?thesis by simp
qed

lemma window_due:
  fixes st :: "'w::len timing"
  assumes "32 \<le> LENGTH('w)" "d < 2 ^ 30" "in_window n d st" "t \<in> set (pending st)"
  shows "due (clock st) t \<longleftrightarrow> togo n t < int (unat (clock st - n))"
  using running_due [of st t] window_togo [OF assms] assms by (simp add: in_window_def)

lemma window_compare:
  fixes st :: "'w::len timing"
  assumes "32 \<le> LENGTH('w)" "d < 2 ^ 30" "in_window n d st" "a \<in> set (pending st)" "b \<in> set (pending st)"
  shows "compare_timers (clock st) a b = compare_timers n a b"
  using window_togo [OF assms(1-3)] assms(4,5)
  by (simp add: compare_timers_def Let_def togo_def)

text \<open>What requests do to the state: nothing is lost, and what is new lies in the future.\<close>

definition extended :: "'w::len word \<Rightarrow> nat \<Rightarrow> 'w timing \<Rightarrow> 'w timing \<Rightarrow> bool" where
  "extended n d st st' \<longleftrightarrow> in_window n d st' \<and> unat (clock st - n) \<le> unat (clock st' - n) \<and>
     set (pending st) \<subseteq> set (pending st') \<and>
     (\<forall>t \<in> set (pending st'). t \<in> set (pending st) \<or> int (unat (clock st - n)) < togo n t)"

lemma extended_trans:
  assumes "extended n d a b" "extended n d b c"
  shows "extended n d a c"
proof -
  have ab: "unat (clock a - n) \<le> unat (clock b - n)" "set (pending a) \<subseteq> set (pending b)"
    "t \<in> set (pending b) \<Longrightarrow> t \<in> set (pending a) \<or> int (unat (clock a - n)) < togo n t" for t
    using assms(1) unfolding extended_def by simp_all
  have bc: "in_window n d c" "unat (clock b - n) \<le> unat (clock c - n)" "set (pending b) \<subseteq> set (pending c)"
    "t \<in> set (pending c) \<Longrightarrow> t \<in> set (pending b) \<or> int (unat (clock b - n)) < togo n t" for t
    using assms(2) unfolding extended_def by simp_all
  have "t \<in> set (pending a) \<or> int (unat (clock a - n)) < togo n t" if "t \<in> set (pending c)" for t
    using bc(4) [OF that] ab(1,3) by (meson of_nat_le_iff order.strict_trans1)
  then show ?thesis unfolding extended_def using ab bc by simp
qed

lemma extended_refl: "in_window n d st \<Longrightarrow> extended n d st st"
  by (simp add: extended_def)

lemma unat_of_nat_30:
  assumes "32 \<le> LENGTH('w::len)" "k < 2 ^ 30"
  shows "unat (of_nat k :: 'w word) = k"
  using pow_30(1) [OF assms(1)] assms(2) by (simp add: unat_of_nat)

lemma run_request_ok:
  fixes st :: "'w::len timing"
  assumes L: "32 \<le> LENGTH('w)" and d: "d < 2 ^ 30" and w: "in_window n d st" and r: "delay_ok r"
    and k: "\<forall>k \<in> set (readings n [r]). unat (clock st - n) \<le> k \<and> k \<le> d"
  shows "\<exists>st'. run_requests [r] st = Some st' \<and> extended n d st st' \<and>
    unat (clock st' - n) \<in> insert (unat (clock st - n)) (set (readings n [r])) \<and>
    ((\<forall>ctx. r \<noteq> Expire ctx) \<longrightarrow> live st \<subseteq> live st')"
proof (cases r)
  case (Expire ctx)
  have run: "running st" using w by (simp add: in_window_def)
  have "init_timers (clock st) st = st" using run by (auto simp: running_def init_timers_def)
  then obtain st' where "expire_timer_context (clock st) ctx st = Some st'" "running st'" "pending st' = pending st"
    "clock st' = clock st"
    by (metis expire_ok [OF running_timing_ok [OF run], of "clock st" ctx])
  then show ?thesis using w by (simp add: Expire extended_def in_window_def)
next
  case (Schedule tick hwnd ticks fn ctx)
  have run: "running st" using w by (simp add: in_window_def)
  have ticks: "0 \<le> sint ticks" "sint ticks < 2 ^ 30" using r by (simp_all add: Schedule delay_ok_def)
  define j where "j = unat (tick - n)"
  have j: "unat (clock st - n) \<le> j" "j \<le> d" "tick = n + of_nat j" using k by (simp_all add: Schedule j_def)
  define t where "t = asked tick hwnd ticks fn ctx st"
  have ck: "clock_ok tick st" using w j by (auto simp: clock_ok_def in_window_def)
  obtain st1 notify where s: "schedule_timer tick hwnd ticks fn ctx st = Some (st1, tm_now t, notify)" "running st1" "clock st1 = tick"
    "if \<exists>u \<in> set (pending st). same_timer t u
     then pending st1 = pending st \<and> live st1 = live st \<and> notify = None
     else set (pending st1) = insert t (set (pending st)) \<and> live st1 = insert ctx (live st) \<and>
       notify = (if find (\<lambda>u. tm_hwnd u = hwnd) (pending st1) = Some t then Some (hwnd, tm_now t) else None)"
    by (rule schedule_ok [OF L running_timing_ok [OF run] ck ticks t_def])
  have new: "sane (n + of_nat i) t" if "j \<le> i" "i \<le> d" for i
  proof -
    have "unat (of_nat (i - j) :: 'w word) = i - j" using that d by (intro unat_of_nat_30 [OF L]) simp
    moreover have "n + of_nat i - tick = of_nat (i - j)" using that(1) by (simp add: j(3) of_nat_diff)
    ultimately have "unat (n + of_nat i - tick) = i - j" by (simp only:)
    then have "4 * unat (n + of_nat i - tick) < 4 * 2 ^ 30" using that d by simp
    also have "\<dots> \<le> 2 ^ LENGTH('w)" by (rule pow_30(1) [OF L])
    finally show ?thesis using asked_sane(1) [OF L ticks, of tick hwnd fn ctx st] by (simp add: sane_def t_def asked_def)
  qed
  have "0 < togo tick t" using asked_sane(2) [OF L ticks, of tick hwnd fn ctx st] sint_positive [OF ticks(1)] t_def
    by (cases "ticks = 0") simp_all
  moreover have "togo tick t = togo n t - int j"
    using togo_shift [OF L _ new [OF order_refl j(2)]] d j by simp
  moreover have "int (unat (clock st - n)) \<le> int j" using j(1) by (simp only: of_nat_le_iff)
  ultimately have later: "int (unat (clock st - n)) < togo n t" by linarith
  have sub: "set (pending st1) = set (pending st) \<or> set (pending st1) = insert t (set (pending st))"
    using s(4) by presburger
  have "in_window n d st1"
    unfolding in_window_def s(3) j_def [symmetric]
    using s(2) j(2) new sub w j(1) unfolding in_window_def by (fastforce dest: order_trans)
  then have "extended n d st st1" using sub later j(1) unfolding extended_def s(3) j_def [symmetric] by fastforce
  moreover have "live st \<subseteq> live st1" using s(4) by (auto split: if_splits)
  ultimately show ?thesis using s(1,3) by (simp add: Schedule)
qed

lemma run_requests_ok:
  fixes st :: "'w::len timing"
  assumes L: "32 \<le> LENGTH('w)" and d: "d < 2 ^ 30"
  shows "in_window n d st \<Longrightarrow> \<forall>r \<in> set rs. delay_ok r \<Longrightarrow> sorted (readings n rs) \<Longrightarrow>
    \<forall>k \<in> set (readings n rs). unat (clock st - n) \<le> k \<and> k \<le> d \<Longrightarrow>
    \<exists>st'. run_requests rs st = Some st' \<and> extended n d st st' \<and>
      unat (clock st' - n) \<in> insert (unat (clock st - n)) (set (readings n rs)) \<and>
      ((\<forall>ctx. Expire ctx \<notin> set rs) \<longrightarrow> live st \<subseteq> live st')"
proof (induction rs arbitrary: st)
  case Nil
  then show ?case by (simp add: extended_refl)
next
  case (Cons r rs)
  have rd: "readings n (r # rs) = readings n [r] @ readings n rs" by (cases r) simp_all
  have srt: "sorted (readings n rs)" "\<forall>i \<in> set (readings n [r]). \<forall>j \<in> set (readings n rs). i \<le> j"
    using Cons.prems(3) unfolding rd sorted_append by blast+
  obtain st1 where st1: "run_requests [r] st = Some st1" "extended n d st st1"
    "unat (clock st1 - n) \<in> insert (unat (clock st - n)) (set (readings n [r]))"
    "(\<forall>ctx. r \<noteq> Expire ctx) \<longrightarrow> live st \<subseteq> live st1"
    using run_request_ok [OF L d Cons.prems(1), of r] Cons.prems(2,4) unfolding rd by auto
  have w1: "in_window n d st1" using st1(2) by (simp add: extended_def)
  have k1: "\<forall>k \<in> set (readings n rs). unat (clock st1 - n) \<le> k \<and> k \<le> d"
    using st1(3) srt(2) Cons.prems(4) unfolding rd by auto
  obtain st2 where st2: "run_requests rs st1 = Some st2" "extended n d st1 st2"
    "unat (clock st2 - n) \<in> insert (unat (clock st1 - n)) (set (readings n rs))"
    "(\<forall>ctx. Expire ctx \<notin> set rs) \<longrightarrow> live st1 \<subseteq> live st2"
    using Cons.IH [OF w1 _ srt(1) k1] Cons.prems(2) by auto
  have "run_requests (r # rs) st = Some st2"
    using st1(1) st2(1) unfolding run_requests.simps by (auto simp: bind_eq_Some_conv)
  moreover have "unat (clock st2 - n) \<in> insert (unat (clock st - n)) (set (readings n (r # rs)))"
    using st1(3) st2(3) unfolding rd by auto
  moreover have "(\<forall>ctx. Expire ctx \<notin> set (r # rs)) \<longrightarrow> live st \<subseteq> live st2" using st1(4) st2(4) by auto
  ultimately show ?case using extended_trans [OF st1(2) st2(2)] by blast
qed

lemma delete_first:
  assumes "running st" "timers st = Some tree" "pending st = t # ts"
  obtains tree' e where "delpos234 tree 0 = Some (tree', e)" "running (st\<lparr>timers := Some tree'\<rparr>)"
    "pending (st\<lparr>timers := Some tree'\<rparr>) = ts" "live (st\<lparr>timers := Some tree'\<rparr>) = live st"
proof -
  have inv: "tree_inv (compare_timers (clock st)) tree" and el: "elems234 tree = t # ts"
    using assms by (auto simp: running_def pending_def)
  obtain tree' where d: "delpos234 tree 0 = Some (tree', Some t)" "tree_inv (compare_timers (clock st)) tree'" "elems234 tree' = ts"
    using t234.delpos_ok [OF inv, of 0 t] el by (auto simp: nth_opt_def del_at_def)
  moreover have "running (st\<lparr>timers := Some tree'\<rparr>)" using assms d el by (auto simp: running_def)
  ultimately show thesis using that by (simp add: pending_def live_def)
qed

text \<open>
  What a run of the loop from \<open>st\<close>, after the timers \<open>h\<close> have been run, leaves: the state, the timers that were run,
  and the next time.
\<close>

definition has_run ::
  "'w::len word \<Rightarrow> nat \<Rightarrow> ('w timer list \<Rightarrow> 'w word request list) \<Rightarrow> 'w timer list \<Rightarrow> 'w timing \<Rightarrow> 'w timing \<Rightarrow>
     'w timer list \<Rightarrow> 'w word option \<Rightarrow> bool"
where
  "has_run n d calls h st st' fired nxt \<longleftrightarrow> in_window n d st' \<and> unat (clock st - n) \<le> unat (clock st' - n) \<and>
     (\<forall>t \<in> set (pending st'). \<not> due (clock st') t) \<and>
     (\<forall>t \<in> set fired. togo n t < int (unat (clock st' - n))) \<and>
     (\<forall>t \<in> set fired. t \<in> set (pending st) \<or> int (unat (clock st - n)) < togo n t) \<and>
     sorted_by (compare_timers n) fired \<and>
     nxt = (case pending st' of [] \<Rightarrow> None | t # _ \<Rightarrow> Some (tm_now t)) \<and>
     (\<forall>t ts. pending st' = t # ts \<longrightarrow> tm_ctx t \<in> live st') \<and>
     ((\<forall>g ctx. Expire ctx \<notin> set (calls (h @ g))) \<longrightarrow> live st \<subseteq> live st' \<and>
        {t \<in> set (pending st). tm_ctx t \<in> live st} \<subseteq> set fired \<union> set (pending st')) \<and>
     ((\<forall>g. calls (h @ g) = []) \<longrightarrow>
       fired = filter (\<lambda>t. due (clock st) t \<and> tm_ctx t \<in> live st) (pending st) \<and> live st' = live st \<and> clock st' = clock st)"

text \<open>
  The measure of the loop: how far the pending timers are from the end of the window, as a multiset. A timer that is
  run takes its distance out, and the timers its function schedules are all nearer to the end.
\<close>

definition distances :: "'w::len word \<Rightarrow> nat \<Rightarrow> 'w timer list \<Rightarrow> nat multiset" where
  "distances n d ts = image_mset (\<lambda>t. nat (int d + 1 - togo n t)) (mset ts)"

lemma distances_Cons: "distances n d ts < distances n d (t # ts)"
  by (simp add: distances_def)

lemma sorted_distinct: "sorted_by (compare_timers n) ts \<Longrightarrow> distinct ts"
proof -
  have "compare_timers n t t = 0" for t by (simp add: compare_timers_0 same_timer_def)
  then show "sorted_by (compare_timers n) ts \<Longrightarrow> distinct ts"
    unfolding sorted_by_def by (induction ts) auto
qed

lemma distances_fire:
  assumes "distinct ts" "distinct us" "set ts \<subseteq> set us" "togo n t \<le> int d"
    and "\<forall>u \<in> set us. u \<in> set ts \<or> togo n t < togo n u"
  shows "distances n d us < distances n d (t # ts)"
proof -
  let ?f = "\<lambda>t. nat (int d + 1 - togo n t)"
  define new where "new = mset_set (set us - set ts)"
  have "mset us = mset_set (set ts \<union> (set us - set ts))"
    using assms(2,3) by (simp add: mset_set_set Un_absorb1)
  also have "\<dots> = mset ts + new"
    unfolding new_def using assms(1) by (subst mset_set_Union) (auto simp: mset_set_set)
  finally have us: "distances n d us = image_mset ?f (mset ts) + image_mset ?f new" by (simp add: distances_def)
  have "\<forall>k \<in> set_mset (image_mset ?f new). \<exists>j \<in> set_mset {#?f t#}. k < j"
    using assms(4,5) by (auto simp: new_def)
  then have "multp (<) (image_mset ?f (mset ts) + image_mset ?f new) (image_mset ?f (mset ts) + {#?f t#})"
    by (intro one_step_implies_multp) auto
  then show ?thesis unfolding us less_multiset_def by (simp add: distances_def)
qed

lemma compare_later: "togo n a < togo n b \<Longrightarrow> compare_timers n a b < 0"
  by (simp add: compare_timers_def Let_def togo_def)

lemma run_loop_ok:
  fixes st :: "'w::len timing"
  assumes L: "32 \<le> LENGTH('w)" and d: "d < 2 ^ 30" and wt: "well_timed n d calls"
  shows "in_window n d st \<Longrightarrow> \<forall>g. g \<noteq> [] \<longrightarrow> (\<forall>j \<in> set (readings n (calls (h @ g))). unat (clock st - n) \<le> j) \<Longrightarrow>
    \<exists>st' fired nxt. run_loop calls st h = Some (st', h @ fired, nxt) \<and> has_run n d calls h st st' fired nxt"
proof (induction "distances n d (pending st)" arbitrary: st h rule: less_induct)
  case less
  have running: "running st" using less.prems(1) by (simp add: in_window_def)
  obtain tree cs where st: "timers st = Some tree" "timer_contexts st = Some cs" "tree_inv (compare_timers (clock st)) tree"
    "tree_inv compare_timer_contexts cs" using running by (auto simp: running_def)
  have pend: "pending st = elems234 tree" and lv: "live st = set (elems234 cs)"
    using st by (simp_all add: pending_def live_def)
  note unfold = run_loop.simps [of calls st h]
  show ?case
  proof (cases "pending st")
    case Nil
    then have "index234 tree 0 = None" using t234.index_ok [OF st(3), of 0] unfolding pend [symmetric] by (simp add: nth_opt_def)
    then have "run_loop calls st h = Some (st, h @ [], None)" unfolding unfold using st by simp
    moreover have "has_run n d calls h st st [] None" using less.prems(1) Nil by (simp add: has_run_def sorted_by_def)
    ultimately show ?thesis by blast
  next
    case (Cons t ts)
    have ix: "index234 tree 0 = Some t" using t234.index_ok [OF st(3), of 0] unfolding pend [symmetric] Cons by (simp add: nth_opt_def)
    obtain tree' e where del: "delpos234 tree 0 = Some (tree', e)" "running (st\<lparr>timers := Some tree'\<rparr>)"
      "pending (st\<lparr>timers := Some tree'\<rparr>) = ts" "live (st\<lparr>timers := Some tree'\<rparr>) = live st"
      by (rule delete_first [OF running st(1) Cons])
    define s1 where "s1 = st\<lparr>timers := Some tree'\<rparr>"
    note del = del [folded s1_def]
    have c1: "clock s1 = clock st" by (simp add: s1_def)
    have w1: "in_window n d s1" using less.prems(1) del(2,3) Cons by (simp add: in_window_def c1)
    have fd: "find234 cs (tm_ctx t) compare_timer_contexts = Some (if tm_ctx t \<in> live st then Some (tm_ctx t) else None)"
      using t234.find_EQ [OF st(4), of "tm_ctx t"] by (auto simp: find234_def lv split: if_splits)
    have srt: "\<forall>u \<in> set ts. compare_timers (clock st) t u < 0" "sorted_by (compare_timers (clock st)) ts"
      using running_sorted [OF running] Cons by (simp_all add: sorted_by_def)
    have before: "compare_timers n t u < 0" if "u \<in> set ts" for u
    proof -
      have "compare_timers (clock st) t u < 0" using srt(1) that by blast
      then show ?thesis using window_compare [OF L d less.prems(1), of t u] that Cons by simp
    qed
    consider (dead) "tm_ctx t \<notin> live st" | (fire) "tm_ctx t \<in> live st" "due (clock st) t" | (later) "tm_ctx t \<in> live st" "\<not> due (clock st) t"
      by blast
    then show ?thesis
    proof cases
      case dead
      have run: "run_loop calls st h = run_loop calls s1 h"
        unfolding unfold using st ix fd dead del(1) by (simp add: s1_def)
      have "distances n d (pending s1) < distances n d (pending st)" unfolding Cons del(3) by (rule distances_Cons)
      from less.hyps [OF this w1, of h] less.prems(2)
      obtain st' fired nxt where IH: "run_loop calls s1 h = Some (st', h @ fired, nxt)" "has_run n d calls h s1 st' fired nxt"
        unfolding c1 by blast
      have "filter (\<lambda>t. due (clock st) t \<and> tm_ctx t \<in> live st) (pending st) = filter (\<lambda>t. due (clock st) t \<and> tm_ctx t \<in> live st) ts"
        "{t \<in> set (pending st). tm_ctx t \<in> live st} = {t \<in> set ts. tm_ctx t \<in> live st}" "set ts \<subseteq> set (pending st)"
        using dead Cons by auto
      then have "has_run n d calls h st st' fired nxt" using IH(2) unfolding has_run_def c1 del(3,4) by auto
      then show ?thesis unfolding run using IH(1) by blast
    next
      case later
      have "\<not> due (clock st) u" if "u \<in> set ts" for u
        using running_due [OF running L, of u] running_due [OF running L, of t] later(2) that Cons
          compare_togo [of "clock st" t u] srt(1) by auto
      then have none: "\<forall>t \<in> set (pending st). \<not> due (clock st) t" using later(2) Cons by auto
      have run: "run_loop calls st h = Some (st, h @ [], Some (tm_now t))"
        unfolding unfold using st ix fd later by simp
      have "filter (\<lambda>t. due (clock st) t \<and> tm_ctx t \<in> live st) (pending st) = []"
        using none by (auto simp: filter_empty_conv)
      then have "has_run n d calls h st st [] (Some (tm_now t))"
        using none less.prems(1) Cons later(1) by (auto simp: has_run_def sorted_by_def)
      then show ?thesis using run by blast
    next
      case fire
      let ?rs = "calls (h @ [t])"
      have rs: "\<forall>r \<in> set ?rs. delay_ok r" "sorted (readings n ?rs)" "\<forall>k \<in> set (readings n ?rs). unat (clock s1 - n) \<le> k \<and> k \<le> d"
        using wt less.prems(2) unfolding well_timed_def c1 by blast+
      obtain s2 where s2: "run_requests ?rs s1 = Some s2" "extended n d s1 s2"
        "unat (clock s2 - n) \<in> insert (unat (clock s1 - n)) (set (readings n ?rs))"
        "(\<forall>ctx. Expire ctx \<notin> set ?rs) \<longrightarrow> live s1 \<subseteq> live s2"
        using run_requests_ok [OF L d w1 rs] by blast
      have e2: "in_window n d s2" "unat (clock st - n) \<le> unat (clock s2 - n)" "set ts \<subseteq> set (pending s2)"
        "\<forall>u \<in> set (pending s2). u \<in> set ts \<or> int (unat (clock st - n)) < togo n u"
        using s2(2) unfolding extended_def c1 del(3) by simp_all
      have run: "run_loop calls st h = run_loop calls s2 (h @ [t])"
        unfolding unfold using st ix fd fire del(1) s2(1) by (simp add: s1_def)
      have dt: "togo n t < int (unat (clock st - n))"
        using window_due [OF L d less.prems(1), of t] fire(2) Cons by simp
      have "running s2" using e2(1) by (simp add: in_window_def)
      note dist = sorted_distinct [OF running_sorted [OF this]] sorted_distinct [OF srt(2)]
      have "int (unat (clock st - n)) \<le> int d" using less.prems(1) unfolding in_window_def of_nat_le_iff by blast
      then have "togo n t \<le> int d" using dt by linarith
      moreover have "\<forall>u \<in> set (pending s2). u \<in> set ts \<or> togo n t < togo n u" using e2(4) dt by (meson order.strict_trans)
      ultimately have lt: "distances n d (pending s2) < distances n d (pending st)"
        unfolding Cons by (rule distances_fire [OF dist(2,1) e2(3)])
      have "\<forall>g. g \<noteq> [] \<longrightarrow> (\<forall>j \<in> set (readings n (calls ((h @ [t]) @ g))). unat (clock s2 - n) \<le> j)"
      proof (intro allI impI ballI)
        fix g :: "'w timer list" and j assume g: "g \<noteq> []" "j \<in> set (readings n (calls ((h @ [t]) @ g)))"
        consider "unat (clock s2 - n) = unat (clock st - n)" | "unat (clock s2 - n) \<in> set (readings n ?rs)"
          using s2(3) unfolding c1 by blast
        then show "unat (clock s2 - n) \<le> j"
        proof cases
          case 1
          then show ?thesis using less.prems(2) [rule_format, of "t # g" j] g(2) by simp
        next
          case 2
          then show ?thesis using wt g unfolding well_timed_def by blast
        qed
      qed
      from less.hyps [OF lt e2(1) this] obtain st' fired nxt where
        IH: "run_loop calls s2 (h @ [t]) = Some (st', (h @ [t]) @ fired, nxt)" "has_run n d calls (h @ [t]) s2 st' fired nxt"
        by blast
      have i: "in_window n d st'" "unat (clock s2 - n) \<le> unat (clock st' - n)" "\<forall>t \<in> set (pending st'). \<not> due (clock st') t"
        "\<forall>t \<in> set fired. togo n t < int (unat (clock st' - n))" "sorted_by (compare_timers n) fired"
        "\<forall>u \<in> set fired. u \<in> set (pending s2) \<or> int (unat (clock s2 - n)) < togo n u"
        "nxt = (case pending st' of [] \<Rightarrow> None | t # _ \<Rightarrow> Some (tm_now t))" "\<forall>t ts. pending st' = t # ts \<longrightarrow> tm_ctx t \<in> live st'"
        using IH(2) unfolding has_run_def by simp_all
      have step: "int (unat (clock st - n)) \<le> int (unat (clock s2 - n))" "int (unat (clock s2 - n)) \<le> int (unat (clock st' - n))"
        using e2(2) i(2) by (simp_all only: of_nat_le_iff)
      have new: "u \<in> set ts \<or> int (unat (clock st - n)) < togo n u" if "u \<in> set fired" for u
        using i(6) that e2(4) step(1) by (meson order.strict_trans1)
      have "compare_timers n t u < 0" if "u \<in> set fired" for u
        using new [OF that] before [of u] compare_later [of n t u] dt by linarith
      then have "sorted_by (compare_timers n) (t # fired)" using i(5) by (simp add: sorted_by_def)
      moreover have "\<forall>u \<in> set (t # fired). togo n u < int (unat (clock st' - n))"
        using i(4) dt step by simp
      moreover have "\<forall>u \<in> set (t # fired). u \<in> set (pending st) \<or> int (unat (clock st - n)) < togo n u"
        using new Cons by auto
      moreover have "live st \<subseteq> live st' \<and> {t \<in> set (pending st). tm_ctx t \<in> live st} \<subseteq> set (t # fired) \<union> set (pending st')"
        if no: "\<forall>g ctx. Expire ctx \<notin> set (calls (h @ g))"
      proof -
        have "live st \<subseteq> live s2" using s2(4) no del(4) by simp
        moreover have "\<forall>g ctx. Expire ctx \<notin> set (calls ((h @ [t]) @ g))" using no by simp
        then have "live s2 \<subseteq> live st'" "{t \<in> set (pending s2). tm_ctx t \<in> live s2} \<subseteq> set fired \<union> set (pending st')"
          using IH(2) unfolding has_run_def by simp_all
        ultimately show ?thesis using Cons e2(3) by auto
      qed
      moreover have "t # fired = filter (\<lambda>t. due (clock st) t \<and> tm_ctx t \<in> live st) (pending st) \<and> live st' = live st \<and> clock st' = clock st"
        if none: "\<forall>g. calls (h @ g) = []"
      proof -
        have "s2 = s1" using s2(1) none by simp
        moreover have "\<forall>g. calls ((h @ [t]) @ g) = []" using none by simp
        then have "fired = filter (\<lambda>t. due (clock s2) t \<and> tm_ctx t \<in> live s2) (pending s2) \<and> live st' = live s2 \<and> clock st' = clock s2"
          using IH(2) unfolding has_run_def by blast
        ultimately show ?thesis using c1 del(3,4) Cons fire by simp
      qed
      ultimately have "has_run n d calls h st st' (t # fired) nxt"
        using i e2(2) unfolding has_run_def by simp
      then show ?thesis unfolding run using IH(1) by auto
    qed
  qed
qed

text \<open>A clock reading that makes the trees ready does not change what is pending.\<close>

lemma run_timers_ran:
  fixes st :: "'w::len timing"
  assumes L: "32 \<le> LENGTH('w)" and d: "d < 2 ^ 30" and ok: "timing_ok st" "\<forall>k \<le> d. clock_ok (tick + of_nat k) st"
    and wt: "well_timed tick d calls"
  obtains s0 st' fired nxt where "run_timers calls tick st = Some (st', fired, nxt)" "has_run tick d calls [] s0 st' fired nxt"
    "clock s0 = tick" "pending s0 = pending st" "live s0 = live st"
proof -
  define s0 where "s0 = set_now tick (init_timers tick st)"
  note i = init_timers_ok [OF ok(1), of tick]
  have "clock_ok tick st" using ok(2) [rule_format, of 0] by simp
  then have "clock_ok tick (init_timers tick st)" using i(2) by (simp add: clock_ok_def)
  note n = set_now_ok [OF i(1) this, folded s0_def]
  have "in_window tick d s0" using n ok(2) i(2) by (simp add: in_window_def clock_ok_def)
  from run_loop_ok [OF L d wt this, of "[]"] obtain st' fired nxt where
    "run_loop calls s0 [] = Some (st', fired, nxt)" "has_run tick d calls [] s0 st' fired nxt"
    using n(5) by auto
  then show thesis using that n i by (simp add: run_timers_def s0_def)
qed

text \<open>C36: Scheduling. When no pending timer has the same time, function and context, the new timer is
  added to the pending ones and its context becomes live; the front end is told exactly when the
  timer is the first one of its window. Otherwise nothing changes. The result is the time asked for.\<close>

theorem schedule_timer_adds:
  fixes st :: "'w::len timing"
  assumes "32 \<le> LENGTH('w)" "timing_ok st" "clock_ok tick st" "0 < sint ticks" "sint ticks < 2 ^ 30"
    "t = asked tick hwnd ticks fn ctx st"
  shows "\<exists>st' notify. schedule_timer tick hwnd ticks fn ctx st = Some (st', tick + scast ticks, notify) \<and>
    timing_ok st' \<and> timing_last_clock st' = tick \<and>
    (if \<exists>u \<in> set (pending st). same_timer t u
     then pending st' = pending st \<and> live st' = live st \<and> notify = None
     else set (pending st') = insert t (set (pending st)) \<and> live st' = insert ctx (live st) \<and>
       (notify = Some (hwnd, tick + scast ticks) \<longleftrightarrow> find (\<lambda>u. tm_hwnd u = hwnd) (pending st') = Some t))"
proof (rule schedule_ok [OF assms(1-3) order_less_imp_le [OF assms(4)] assms(5,6)], goal_cases)
  case (1 st' notify)
  have "ticks \<noteq> 0" using assms(4) by auto
  then have "tm_now t = tick + scast ticks" by (simp add: assms(6) asked_def)
  then show ?case using 1 running_timing_ok [OF 1(2)] 
    by (intro exI [of _ st'] exI [of _ notify]) (simp add: timing_last_clock_def)
qed

text \<open>C37: Running. The timer functions may expire contexts and schedule timers with delays from 0 to
  \<open>2 ^ 30\<close> ticks, depending on all that was run before, while the clock goes on, by up to \<open>d\<close> ticks
  in the whole run and never backwards. Then the call returns. It has run only timers that were due by the last
  reading of the clock, in the order of their times, each pending at first or set since; at that reading no
  timer is due any more, and the value given back is the time of the first pending timer, whose
  context is live. When nothing is expired, every timer of a live context has been run or is still pending. When
  the timer functions ask for nothing, exactly the due timers of live contexts are run.\<close>

theorem run_timers_runs_due:
  fixes st :: "'w::len timing"
  assumes "32 \<le> LENGTH('w)" "d < 2 ^ 30" "timing_ok st" "\<forall>k \<le> d. clock_ok (tick + of_nat k) st" "well_timed tick d calls"
  shows "\<exists>st' fired nxt last. run_timers calls tick st = Some (st', fired, nxt) \<and> timing_ok st' \<and>
    last = unat (timing_last_clock st' - tick) \<and> last \<le> d \<and>
    sorted_by (compare_timers tick) fired \<and>
    (\<forall>t \<in> set fired. togo tick t < int last \<and> (t \<in> set (pending st) \<or> 0 < togo tick t)) \<and>
    (\<forall>t \<in> set (pending st'). int last \<le> togo tick t) \<and>
    (case pending st' of [] \<Rightarrow> nxt = None | t # _ \<Rightarrow> nxt = Some (tm_now t) \<and> tm_ctx t \<in> live st') \<and>
    ((\<forall>h ctx. Expire ctx \<notin> set (calls h)) \<longrightarrow>
      {t \<in> set (pending st). tm_ctx t \<in> live st} \<subseteq> set fired \<union> set (pending st')) \<and>
    ((\<forall>h. calls h = []) \<longrightarrow>
      fired = filter (\<lambda>t. togo tick t < 0 \<and> tm_ctx t \<in> live st) (pending st) \<and> live st' = live st)"
proof (rule run_timers_ran [OF assms], goal_cases)
  case (1 s0 st' fired nxt)
  let ?last = "unat (clock st' - tick)"
  have w': "in_window tick d st'" using 1(2) by (simp add: has_run_def)
  have r': "running st'" "?last \<le> d" using w' by (simp_all add: in_window_def)
  have "sane tick t" if "t \<in> set (pending st)" for t
    using assms(4) [rule_format, of 0] that by (simp add: clock_ok_def)
  then have d: "due tick t \<longleftrightarrow> togo tick t < 0" if "t \<in> set (pending st)" for t
    using due_togo [OF _ assms(1)] that by simp
  have "\<forall>t \<in> set (pending st'). int ?last \<le> togo tick t"
    using 1(2) window_due [OF assms(1,2) w'] by (auto simp: has_run_def not_less simp del: of_nat_unat)
  moreover have "\<forall>t \<in> set fired. togo tick t < int ?last \<and> (t \<in> set (pending st) \<or> 0 < togo tick t)"
    using 1(2-4) by (simp add: has_run_def)
  moreover have "sorted_by (compare_timers tick) fired" using 1(2) by (simp add: has_run_def)
  moreover have "filter (\<lambda>t. due tick t \<and> tm_ctx t \<in> live st) (pending st) =
      filter (\<lambda>t. togo tick t < 0 \<and> tm_ctx t \<in> live st) (pending st)"
    by (rule filter_cong) (simp_all add: d)
  then have "(\<forall>h. calls h = []) \<longrightarrow>
      fired = filter (\<lambda>t. togo tick t < 0 \<and> tm_ctx t \<in> live st) (pending st) \<and> live st' = live st"
    using 1(2-5) by (simp add: has_run_def)
  moreover have "(\<forall>h ctx. Expire ctx \<notin> set (calls h)) \<longrightarrow>
      {t \<in> set (pending st). tm_ctx t \<in> live st} \<subseteq> set fired \<union> set (pending st')"
    using 1(2-5) by (simp add: has_run_def)
  moreover have "case pending st' of [] \<Rightarrow> nxt = None | t # _ \<Rightarrow> nxt = Some (tm_now t) \<and> tm_ctx t \<in> live st'"
    using 1(2) by (auto simp: has_run_def split: list.split)
  ultimately show ?case using 1(1) r'(2) running_timing_ok [OF r'(1)] unfolding timing_last_clock_def by blast
qed

text \<open>C38: A context that was expired does not come back when the timer that is scheduled on it is
  already pending: the call is answered as usual, but no run of the timers at any later reading of
  the clock runs a timer of that context.\<close>

theorem rescheduled_timer_is_lost:
  fixes st :: "'w::len timing"
  assumes "32 \<le> LENGTH('w)" "timing_ok st" "clock_ok tick st" "0 < sint ticks" "sint ticks < 2 ^ 30"
    "u \<in> set (pending st)" "tm_now u = tick + scast ticks" "tm_fn u = fn" "tm_ctx u = ctx" "clock_ok later st"
  shows "\<exists>s1 s2 s3 n fired nxt. expire_timer_context tick ctx st = Some s1 \<and>
    schedule_timer tick hwnd ticks fn ctx s1 = Some (s2, tick + scast ticks, n) \<and>
    run_timers (\<lambda>t. []) later s2 = Some (s3, fired, nxt) \<and> (\<forall>t \<in> set fired. tm_ctx t \<noteq> ctx)"
proof -
  obtain s1 where s1: "expire_timer_context tick ctx st = Some s1" "running s1" "pending s1 = pending st" "live s1 = live st - {ctx}"
    by (rule expire_ok [OF assms(2), of tick ctx])
  define t where "t = asked tick hwnd ticks fn ctx s1"
  have ok1: "timing_ok s1" "clock_ok tick s1" using s1 running_timing_ok assms(3) by (simp_all add: clock_ok_def)
  have same: "\<exists>u \<in> set (pending s1). same_timer t u"
    using assms(4,6-9) s1(3) by (intro bexI [of _ u]) (auto simp: t_def asked_def same_timer_def)
  obtain s2 n where s2: "schedule_timer tick hwnd ticks fn ctx s1 = Some (s2, tm_now t, n)" "running s2"
      "pending s2 = pending s1" "live s2 = live s1"
    by (rule schedule_ok [OF assms(1) ok1 order_less_imp_le [OF assms(4)] assms(5) t_def]) (simp add: same)
  have ok2: "timing_ok s2" "clock_ok later s2" using s2 s1(3) running_timing_ok assms(10) by (simp_all add: clock_ok_def)
  have wt: "well_timed later 0 (\<lambda>t. [])" and w: "\<forall>k \<le> (0 :: nat). clock_ok (later + of_nat k) s2"
    using ok2(2) by (simp_all add: well_timed_def)
  obtain s0 s3 fired nxt where s3: "run_timers (\<lambda>t. []) later s2 = Some (s3, fired, nxt)"
      "has_run later 0 (\<lambda>t. []) [] s0 s3 fired nxt" "live s0 = live s2"
    by (rule run_timers_ran [OF assms(1) _ ok2(1) w wt]) (simp, blast)
  have "\<forall>t \<in> set fired. tm_ctx t \<noteq> ctx" using s3(2,3) s2(4) s1(4) by (auto simp: has_run_def)
  moreover have "ticks \<noteq> 0" using assms(4) by auto
  then have "tm_now t = tick + scast ticks" by (simp add: t_def asked_def)
  ultimately show ?thesis using s1(1) s2(1) s3(1) by auto
qed

section \<open>Examples\<close>

lemma timing_ok_no_timers: "timing_ok no_timers" "clock_ok n no_timers"
  by (simp_all add: timing_ok_def clock_ok_def no_timers_def pending_def)

lemma timing_ok_schedule:
  assumes "timing_ok st" "clock_ok tick (st :: 32 timing)" "0 < sint ticks" "sint ticks < 2 ^ 30"
  shows "timing_ok (fst (the (schedule_timer tick hwnd ticks fn ctx st)))"
  by (rule schedule_ok [of st tick ticks _ hwnd fn ctx, OF _ assms(1,2) order_less_imp_le [OF assms(3)] assms(4) refl])
     (use running_timing_ok in auto)

definition ex_timers :: "32 timing" where
  "ex_timers = fst (the (schedule_timer 1000 1 20 7 3 (fst (the (schedule_timer 1000 1 50 8 4 no_timers)))))"

lemma ex_delays: "0 < sint (50 :: 32 word)" "sint (50 :: 32 word) < 2 ^ 30" "0 < sint (20 :: 32 word)" "sint (20 :: 32 word) < 2 ^ 30"
  by simp_all

lemma clock_ok_times:
  fixes st :: "32 timing"
  assumes "map (\<lambda>t. (tm_now t, tm_when_set t)) (pending st) = xs"
    "\<forall>x \<in> set xs. 4 * unat (n - snd x) < 2 ^ 32 \<and> 4 * unat (fst x - snd x) < 2 ^ 32"
  shows "clock_ok n st"
  using assms(2) unfolding assms(1) [symmetric] by (simp add: clock_ok_def sane_def)

lemma ex_times:
  "map (\<lambda>t. (tm_now t, tm_when_set t)) (pending ex_timers) = [(1020, 1000), (1050, 1000)]"
  "map (\<lambda>t. (tm_now t, tm_when_set t)) (pending (fst (the (schedule_timer 1000 1 50 8 4 no_timers)) :: 32 timing)) = [(1050, 1000)]"
  by code_simp+

lemma ex_clock: "clock_ok 1000 (fst (the (schedule_timer 1000 1 50 8 4 no_timers)) :: 32 timing)"
    "clock_ok 1000 ex_timers" "clock_ok 1005 ex_timers" "clock_ok 1030 ex_timers" "clock_ok 2000 ex_timers"
  by (rule clock_ok_times [OF ex_times(2)], simp) (rule clock_ok_times [OF ex_times(1)], simp)+

lemma ex_timing_ok: "timing_ok ex_timers"
  unfolding ex_timers_def
  by (rule timing_ok_schedule [OF timing_ok_schedule [OF timing_ok_no_timers ex_delays(1,2)] ex_clock(1) ex_delays(3,4)])

lemma schedule_timer_adds_witness:
  "\<exists>st' notify. schedule_timer (1005 :: 32 word) 1 5 9 6 ex_timers = Some (st', 1010, notify) \<and> timing_ok st' \<and>
     timing_last_clock st' = 1005 \<and> live st' = insert 6 (live ex_timers) \<and>
     (notify = Some (1, 1010) \<longleftrightarrow> find (\<lambda>u. tm_hwnd u = 1) (pending st') = Some (asked 1005 1 5 9 6 ex_timers))"
proof -
  have "\<not> (\<exists>u \<in> set (pending ex_timers). same_timer (asked 1005 1 5 9 6 ex_timers) u)" by code_simp
  moreover have "(1005 :: 32 word) + scast (5 :: 32 word) = 1010" by code_simp
  ultimately show ?thesis
    using schedule_timer_adds [OF _ ex_timing_ok ex_clock(3), of 5 "asked 1005 1 5 9 6 ex_timers" 1 9 6] by simp blast
qed

text \<open>The function of the first timer sets another one, two ticks after the run has begun.\<close>

definition ex_calls :: "32 timer list \<Rightarrow> 32 word request list" where
  "ex_calls h = (if length h = 1 then [Schedule 1032 1 0 9 4, Schedule 1033 1 5 9 3] else [])"

lemma ex_well_timed: "well_timed 1030 3 ex_calls"
  by (auto simp: well_timed_def ex_calls_def delay_ok_def)

lemma ex_window: "\<forall>k \<le> 3. clock_ok (1030 + of_nat k) ex_timers"
proof (intro allI impI)
  fix k :: nat assume "k \<le> 3"
  then consider "k = 0" | "k = 1" | "k = 2" | "k = 3" by linarith
  then show "clock_ok (1030 + of_nat k) ex_timers"
    by cases (rule clock_ok_times [OF ex_times(1)], simp)+
qed

lemma run_timers_runs_due_witness:
  "\<exists>st' fired nxt last. run_timers ex_calls (1030 :: 32 word) ex_timers = Some (st', fired, nxt) \<and> timing_ok st' \<and>
     last \<le> 3 \<and> (\<forall>t \<in> set (pending st'). int last \<le> togo 1030 t) \<and>
     {t \<in> set (pending ex_timers). tm_ctx t \<in> live ex_timers} \<subseteq> set fired \<union> set (pending st')"
proof -
  have "\<forall>h ctx. Expire ctx \<notin> set (ex_calls h)" by (simp add: ex_calls_def)
  moreover have "32 \<le> LENGTH(32)" "(3 :: nat) < 2 ^ 30" by simp_all
  note run_timers_runs_due [OF this ex_timing_ok ex_window ex_well_timed]
  ultimately show ?thesis by blast
qed

lemma rescheduled_timer_is_lost_witness:
  "\<exists>s1 s2 s3 n fired nxt. expire_timer_context (1000 :: 32 word) 3 ex_timers = Some s1 \<and>
    schedule_timer 1000 2 20 7 3 s1 = Some (s2, 1020, n) \<and>
    run_timers (\<lambda>t. []) 2000 s2 = Some (s3, fired, nxt) \<and> (\<forall>t \<in> set fired. tm_ctx t \<noteq> 3)"
proof -
  obtain u where u: "u \<in> set (pending ex_timers)" "tm_now u = 1020" "tm_fn u = 7" "tm_ctx u = 3"
  proof -
    have "\<exists>u \<in> set (pending ex_timers). tm_now u = 1020 \<and> tm_fn u = 7 \<and> tm_ctx u = 3" by code_simp
    then show thesis using that by blast
  qed
  have e: "(1000 :: 32 word) + scast (20 :: 32 word) = 1020" by code_simp
  show ?thesis
    using rescheduled_timer_is_lost [OF _ ex_timing_ok ex_clock(2) _ _ u(1) _ u(3,4) ex_clock(5), of 20 2] u(2) unfolding e by simp
qed

text \<open>
  A negative delay is not the \<open>past\<close> that \<open>when - now <= 0\<close> guards against: the difference is unsigned.
  A timer set 20 ticks back has not been run a million ticks later.
\<close>

lemma negative_delay_waits:
  "map_option (\<lambda>(st, fired, nxt). (fired, nxt))
     (run_timers (\<lambda>t. []) (1001000 :: 32 word) (fst (the (schedule_timer 1000 1 (- 20) 7 3 no_timers)))) = Some ([], Some 980)"
  by code_simp

end
