(* ===== verification/Callback.thy ===== *)
theory Callback
  imports Prelude "HOL-Library.Monad_Syntax"
begin

text \<open>
  The queue of toplevel callbacks: \<open>putty-src/callback.c\<close>. The queue is the singly linked list the code
  keeps, in a heap of cells; \<open>None\<close> as an address is \<open>NULL\<close>, and a result \<open>None\<close> is a dereferenced
  \<open>NULL\<close> or a freed cell. \<open>IdempotentCallback\<close> structs belong to the clients and live in a map of
  their own. Client functions are numbers; what one does when it is called is a list of requests to
  this module, a parameter of the model. \<open>sfree\<close> takes the cell out of the heap.
\<close>

datatype callback_fn = Fn nat | Run_idempotent

record callback =
  cb_next :: "nat option"
  cb_fn :: callback_fn
  cb_ctx :: nat

record IdempotentCallback =
  ic_fn :: nat
  ic_ctx :: nat
  ic_queued :: bool

text \<open>The static variables, the two heaps, and the calls made to \<open>notify_frontend\<close>.\<close>

record callbacks =
  cells :: "nat \<rightharpoonup> callback"
  fresh :: nat
  ics :: "nat \<rightharpoonup> IdempotentCallback"
  cbcurr :: "nat option"
  cbhead :: "nat option"
  cbtail :: "nat option"
  notify_frontend :: "(nat \<times> nat) option"
  notified :: "(nat \<times> nat) list"

definition no_callbacks :: "(nat \<rightharpoonup> IdempotentCallback) \<Rightarrow> callbacks" where
  "no_callbacks m = \<lparr>cells = Map.empty, fresh = 0, ics = m, cbcurr = None, cbhead = None, cbtail = None,
     notify_frontend = None, notified = []\<rparr>"

definition request_callback_notifications :: "(nat \<times> nat) option \<Rightarrow> callbacks \<Rightarrow> callbacks" where
  "request_callback_notifications f st = st\<lparr>notify_frontend := f\<rparr>"

definition set_next :: "nat \<Rightarrow> nat option \<Rightarrow> callbacks \<Rightarrow> callbacks option" where
  "set_next a n st = (case cells st a of None \<Rightarrow> None | Some cb \<Rightarrow> Some (st\<lparr>cells := (cells st)(a \<mapsto> cb\<lparr>cb_next := n\<rparr>)\<rparr>))"

definition queue_toplevel_callback :: "callback_fn \<Rightarrow> nat \<Rightarrow> callbacks \<Rightarrow> callbacks option" where
  "queue_toplevel_callback fn ctx st = do {
     let cb = fresh st;
     let st = st\<lparr>fresh := cb + 1, cells := (cells st)(cb \<mapsto> \<lparr>cb_next = None, cb_fn = fn, cb_ctx = ctx\<rparr>)\<rparr>;
     let st = (case notify_frontend st of
                 Some f \<Rightarrow> if cbhead st = None \<and> cbcurr st = None then st\<lparr>notified := notified st @ [f]\<rparr> else st
               | None \<Rightarrow> st);
     st \<leftarrow> (case cbtail st of Some tail \<Rightarrow> set_next tail (Some cb) st | None \<Rightarrow> Some (st\<lparr>cbhead := Some cb\<rparr>));
     set_next cb None (st\<lparr>cbtail := Some cb\<rparr>)
   }"

definition queue_idempotent_callback :: "nat \<Rightarrow> callbacks \<Rightarrow> callbacks option" where
  "queue_idempotent_callback a st = do {
     ic \<leftarrow> ics st a;
     if ic_queued ic then Some st
     else queue_toplevel_callback Run_idempotent a (st\<lparr>ics := (ics st)(a \<mapsto> ic\<lparr>ic_queued := True\<rparr>)\<rparr>)
   }"

text \<open>Whether a callback belongs to the context: as its own, or as that of the idempotent callback it runs.\<close>

definition in_context :: "(nat \<rightharpoonup> IdempotentCallback) \<Rightarrow> nat \<Rightarrow> callback_fn \<Rightarrow> nat \<Rightarrow> bool option" where
  "in_context m ctx fn c =
     (if c = ctx then Some True
      else case fn of Fn _ \<Rightarrow> Some False | Run_idempotent \<Rightarrow> map_option (\<lambda>ic. ic_ctx ic = ctx) (m c))"

partial_function (option) delete_loop :: "nat \<Rightarrow> nat option \<Rightarrow> nat option \<Rightarrow> callbacks \<Rightarrow> (nat option \<times> nat option \<times> callbacks) option"
where
  "delete_loop ctx newhead newtail st =
     (case cbhead st of
        None \<Rightarrow> Some (newhead, newtail, st)
      | Some a \<Rightarrow> do {
          cb \<leftarrow> cells st a;
          let st = st\<lparr>cbhead := cb_next cb\<rparr>;
          del \<leftarrow> in_context (ics st) ctx (cb_fn cb) (cb_ctx cb);
          if del then delete_loop ctx newhead newtail (st\<lparr>cells := (cells st)(a := None)\<rparr>)
          else (case newhead of
                  None \<Rightarrow> delete_loop ctx (Some a) (Some a) st
                | Some _ \<Rightarrow> do {
                    t \<leftarrow> newtail;
                    st \<leftarrow> set_next t (Some a) st;
                    delete_loop ctx newhead (Some a) st
                  })
        })"

declare delete_loop.simps [code]

definition delete_callbacks_for_context :: "nat \<Rightarrow> callbacks \<Rightarrow> callbacks option" where
  "delete_callbacks_for_context ctx st = do {
     (newhead, newtail, st) \<leftarrow> delete_loop ctx None None st;
     let st = st\<lparr>cbhead := newhead, cbtail := newtail\<rparr>;
     case newtail of None \<Rightarrow> Some st | Some t \<Rightarrow> set_next t None st
   }"

datatype cb_request = Queue nat nat | Queue_idempotent nat | Delete nat | Notify "(nat \<times> nat) option"

primrec do_request :: "cb_request \<Rightarrow> callbacks \<Rightarrow> callbacks option" where
  "do_request (Queue fn ctx) st = queue_toplevel_callback (Fn fn) ctx st"
| "do_request (Queue_idempotent a) st = queue_idempotent_callback a st"
| "do_request (Delete ctx) st = delete_callbacks_for_context ctx st"
| "do_request (Notify f) st = Some (request_callback_notifications f st)"

primrec do_requests :: "cb_request list \<Rightarrow> callbacks \<Rightarrow> callbacks option" where
  "do_requests [] st = Some st"
| "do_requests (r # rs) st = do_request r st \<bind> do_requests rs"

definition run_idempotent_callback :: "(nat \<Rightarrow> nat \<Rightarrow> cb_request list) \<Rightarrow> nat \<Rightarrow> callbacks \<Rightarrow> callbacks option" where
  "run_idempotent_callback calls a st = do {
     ic \<leftarrow> ics st a;
     do_requests (calls (ic_fn ic) (ic_ctx ic)) (st\<lparr>ics := (ics st)(a \<mapsto> ic\<lparr>ic_queued := False\<rparr>)\<rparr>)
   }"

definition run_toplevel_callbacks :: "(nat \<Rightarrow> nat \<Rightarrow> cb_request list) \<Rightarrow> callbacks \<Rightarrow> (bool \<times> callbacks) option" where
  "run_toplevel_callbacks calls st =
     (case cbhead st of
        None \<Rightarrow> Some (False, st)
      | Some a \<Rightarrow> do {
          cb \<leftarrow> cells st a;
          let st = st\<lparr>cbcurr := Some a, cbhead := cb_next cb\<rparr>;
          let st = (if cbhead st = None then st\<lparr>cbtail := None\<rparr> else st);
          st \<leftarrow> (case cb_fn cb of
                   Fn f \<Rightarrow> do_requests (calls f (cb_ctx cb)) st
                 | Run_idempotent \<Rightarrow> run_idempotent_callback calls (cb_ctx cb) st);
          Some (True, st\<lparr>cells := (cells st)(a := None), cbcurr := None\<rparr>)
        })"

definition toplevel_callback_pending :: "callbacks \<Rightarrow> bool" where
  "toplevel_callback_pending st \<longleftrightarrow> cbcurr st \<noteq> None \<or> cbhead st \<noteq> None"

section \<open>List segments\<close>

fun lseg :: "(nat \<rightharpoonup> callback) \<Rightarrow> nat option \<Rightarrow> nat list \<Rightarrow> nat option \<Rightarrow> bool" where
  "lseg m h [] t \<longleftrightarrow> h = t"
| "lseg m h (a # as) t \<longleftrightarrow> h = Some a \<and> (case m a of None \<Rightarrow> False | Some cb \<Rightarrow> lseg m (cb_next cb) as t)"

lemma lseg_append: "lseg m h (as @ bs) t \<longleftrightarrow> (\<exists>k. lseg m h as k \<and> lseg m k bs t)"
  by (induction as arbitrary: h) (auto split: option.splits)

lemma lseg_other: "a \<notin> set as \<Longrightarrow> lseg (m(a := x)) h as t = lseg m h as t"
  by (induction as arbitrary: h) (auto split: option.splits)

lemma lseg_dom: "lseg m h as t \<Longrightarrow> set as \<subseteq> dom m"
  by (induction as arbitrary: h) (auto split: option.splits)

lemma lseg_relink:
  assumes "lseg m h (as @ [b]) t" "b \<notin> set as"
  obtains cb where "m b = Some cb" "\<And>n. lseg (m(b \<mapsto> cb\<lparr>cb_next := n\<rparr>)) h (as @ [b]) n"
  using assms by (auto simp: lseg_append lseg_other split: option.splits)

text \<open>What the entry in a cell stands for.\<close>

definition entry :: "(nat \<rightharpoonup> callback) \<Rightarrow> nat \<Rightarrow> callback_fn \<times> nat" where
  "entry m a = (case m a of None \<Rightarrow> (Fn 0, 0) | Some cb \<Rightarrow> (cb_fn cb, cb_ctx cb))"

text \<open>The links are those of the queue, the tail is its last cell, and nothing has been lost.\<close>

definition queued_at :: "callbacks \<Rightarrow> nat list \<Rightarrow> bool" where
  "queued_at st as \<longleftrightarrow> lseg (cells st) (cbhead st) as None \<and> distinct as \<and>
     cbtail st = (if as = [] then None else Some (last as)) \<and>
     dom (cells st) = set as \<union> set_option (cbcurr st) \<and> set as \<inter> set_option (cbcurr st) = {} \<and>
     (\<forall>a \<in> dom (cells st). a < fresh st)"

section \<open>The queue as it is meant\<close>

record queue_spec =
  waiting :: "(callback_fn \<times> nat) list"
  busy :: bool
  owners :: "nat \<rightharpoonup> IdempotentCallback"
  listener :: "(nat \<times> nat) option"
  told :: "(nat \<times> nat) list"

definition spec_queue :: "callback_fn \<Rightarrow> nat \<Rightarrow> queue_spec \<Rightarrow> queue_spec" where
  "spec_queue fn ctx s = s\<lparr>waiting := waiting s @ [(fn, ctx)],
     told := told s @ (if waiting s = [] \<and> \<not> busy s then case listener s of None \<Rightarrow> [] | Some f \<Rightarrow> [f] else [])\<rparr>"

definition belongs :: "(nat \<rightharpoonup> IdempotentCallback) \<Rightarrow> nat \<Rightarrow> callback_fn \<times> nat \<Rightarrow> bool" where
  "belongs m ctx = (\<lambda>(fn, c). c = ctx \<or> fn = Run_idempotent \<and> (case m c of None \<Rightarrow> False | Some ic \<Rightarrow> ic_ctx ic = ctx))"

primrec spec_request :: "cb_request \<Rightarrow> queue_spec \<Rightarrow> queue_spec" where
  "spec_request (Queue fn ctx) s = spec_queue (Fn fn) ctx s"
| "spec_request (Queue_idempotent a) s =
     (case owners s a of None \<Rightarrow> s
      | Some ic \<Rightarrow> if ic_queued ic then s
          else spec_queue Run_idempotent a (s\<lparr>owners := (owners s)(a \<mapsto> ic\<lparr>ic_queued := True\<rparr>)\<rparr>))"
| "spec_request (Delete ctx) s = s\<lparr>waiting := filter (\<lambda>e. \<not> belongs (owners s) ctx e) (waiting s)\<rparr>"
| "spec_request (Notify f) s = s\<lparr>listener := f\<rparr>"

definition spec_run :: "(nat \<Rightarrow> nat \<Rightarrow> cb_request list) \<Rightarrow> queue_spec \<Rightarrow> bool \<times> queue_spec" where
  "spec_run calls s =
     (case waiting s of
        [] \<Rightarrow> (False, s)
      | (fn, c) # es \<Rightarrow>
          let s = s\<lparr>waiting := es, busy := True\<rparr>;
              s = (case fn of Fn f \<Rightarrow> fold spec_request (calls f c) s
                   | Run_idempotent \<Rightarrow> (case owners s c of None \<Rightarrow> s
                       | Some ic \<Rightarrow> fold spec_request (calls (ic_fn ic) (ic_ctx ic)) (s\<lparr>owners := (owners s)(c \<mapsto> ic\<lparr>ic_queued := False\<rparr>)\<rparr>)))
          in (True, s\<lparr>busy := False\<rparr>))"

section \<open>The linked list implements it\<close>

definition models :: "callbacks \<Rightarrow> queue_spec \<Rightarrow> bool" where
  "models st s \<longleftrightarrow> (\<exists>as. queued_at st as \<and> waiting s = map (entry (cells st)) as) \<and> (busy s \<longleftrightarrow> cbcurr st \<noteq> None) \<and>
     owners s = ics st \<and> listener s = notify_frontend st \<and> told s = notified st"

text \<open>Queued idempotent callbacks, and those asked for, exist.\<close>

definition owned :: "(nat \<rightharpoonup> IdempotentCallback) \<Rightarrow> (callback_fn \<times> nat) list \<Rightarrow> bool" where
  "owned m es \<longleftrightarrow> (\<forall>(fn, c) \<in> set es. fn = Run_idempotent \<longrightarrow> c \<in> dom m)"

definition asks_ok :: "nat set \<Rightarrow> cb_request list \<Rightarrow> bool" where
  "asks_ok A rs \<longleftrightarrow> (\<forall>r \<in> set rs. case r of Queue_idempotent a \<Rightarrow> a \<in> A | _ \<Rightarrow> True)"

lemma entry_other [simp]: "a \<noteq> b \<Longrightarrow> entry (m(b := x)) a = entry m a"
  by (simp add: entry_def)

lemma entry_relink [simp]: "m b = Some cb \<Longrightarrow> entry (m(b \<mapsto> cb\<lparr>cb_next := n\<rparr>)) = entry m"
  by (rule ext) (simp add: entry_def)

lemma queue_models:
  assumes "models st s"
  shows "\<exists>st'. queue_toplevel_callback fn ctx st = Some st' \<and> models st' (spec_queue fn ctx s) \<and> cbcurr st' = cbcurr st"
proof -
  obtain as where q: "queued_at st as" and w: "waiting s = map (entry (cells st)) as"
    and rest: "busy s \<longleftrightarrow> cbcurr st \<noteq> None" "owners s = ics st" "listener s = notify_frontend st" "told s = notified st"
    using assms by (auto simp: models_def)
  define a where "a = fresh st"
  define m where "m = (cells st)(a \<mapsto> \<lparr>cb_next = None, cb_fn = fn, cb_ctx = ctx\<rparr>)"
  have new: "cells st a = None" "a \<notin> set as" "a \<notin> set_option (cbcurr st)" "m a = Some \<lparr>cb_next = None, cb_fn = fn, cb_ctx = ctx\<rparr>"
    using q by (auto simp: queued_at_def a_def m_def)
  have ent: "map (entry m) as = waiting s" unfolding w m_def using new(2) by (intro map_cong refl) (metis entry_other)
  have head: "cbhead st = None \<longleftrightarrow> as = []" using q by (cases as) (auto simp: queued_at_def)
  have told: "notified st @ (if waiting s = [] \<and> \<not> busy s then case listener s of None \<Rightarrow> [] | Some f \<Rightarrow> [f] else []) =
      (case notify_frontend st of Some f \<Rightarrow> if cbhead st = None \<and> cbcurr st = None then notified st @ [f] else notified st
         | None \<Rightarrow> notified st)"
    using rest w head by (auto split: option.splits)
  show ?thesis
  proof (cases as rule: rev_cases)
    case Nil
    have "\<exists>st'. queue_toplevel_callback fn ctx st = Some st' \<and> cells st' = m \<and> cbhead st' = Some a \<and> cbtail st' = Some a \<and>
      fresh st' = a + 1 \<and> cbcurr st' = cbcurr st \<and> ics st' = ics st \<and> notify_frontend st' = notify_frontend st \<and>
      notified st' = (case notify_frontend st of Some f \<Rightarrow> if cbhead st = None \<and> cbcurr st = None then notified st @ [f] else notified st
         | None \<Rightarrow> notified st)"
      using q Nil by (auto simp: queue_toplevel_callback_def set_next_def Let_def queued_at_def m_def a_def fun_upd_idem split: option.splits)
    then obtain st' where st': "queue_toplevel_callback fn ctx st = Some st'" "cells st' = m" "cbhead st' = Some a" "cbtail st' = Some a"
      "fresh st' = a + 1" "cbcurr st' = cbcurr st" "ics st' = ics st" "notify_frontend st' = notify_frontend st"
      "notified st' = told (spec_queue fn ctx s)" unfolding told [symmetric] using rest by (auto simp: spec_queue_def)
    have "queued_at st' [a]" using q Nil new st' by (auto simp: queued_at_def m_def a_def)
    moreover have "waiting (spec_queue fn ctx s) = map (entry (cells st')) [a]"
      using w Nil st'(2) new by (simp add: spec_queue_def entry_def)
    ultimately show ?thesis using st' rest by (auto simp: models_def spec_queue_def)
  next
    case (snoc bs b)
    have bs: "lseg m (cbhead st) (bs @ [b]) None" "b \<notin> set bs" "b \<noteq> a"
      using q snoc new(2) by (auto simp: queued_at_def m_def lseg_other)
    obtain cb where cb: "m b = Some cb" "\<And>n. lseg (m(b \<mapsto> cb\<lparr>cb_next := n\<rparr>)) (cbhead st) (bs @ [b]) n"
      using lseg_relink [OF bs(1,2)] by blast
    define m' where "m' = m(b \<mapsto> cb\<lparr>cb_next := Some a\<rparr>)"
    have "\<exists>st'. queue_toplevel_callback fn ctx st = Some st' \<and> cells st' = m' \<and> cbhead st' = cbhead st \<and> cbtail st' = Some a \<and>
      fresh st' = a + 1 \<and> cbcurr st' = cbcurr st \<and> ics st' = ics st \<and> notify_frontend st' = notify_frontend st \<and>
      notified st' = (case notify_frontend st of Some f \<Rightarrow> if cbhead st = None \<and> cbcurr st = None then notified st @ [f] else notified st
         | None \<Rightarrow> notified st)"
      using q snoc cb(1) bs(3)
      by (auto simp: queue_toplevel_callback_def set_next_def Let_def queued_at_def m_def m'_def a_def fun_upd_idem split: option.splits)
    then obtain st' where st': "queue_toplevel_callback fn ctx st = Some st'" "cells st' = m'" "cbhead st' = cbhead st" "cbtail st' = Some a"
      "fresh st' = a + 1" "cbcurr st' = cbcurr st" "ics st' = ics st" "notify_frontend st' = notify_frontend st"
      "notified st' = told (spec_queue fn ctx s)" unfolding told [symmetric] using rest by (auto simp: spec_queue_def)
    have ma: "m' a = Some \<lparr>cb_next = None, cb_fn = fn, cb_ctx = ctx\<rparr>" using new(4) bs(3) by (simp add: m'_def)
    have "lseg m' (cbhead st) (as @ [a]) None"
      using cb(2) [of "Some a"] ma unfolding snoc m'_def [symmetric] by (subst lseg_append) auto
    moreover have "dom m' = insert a (dom (cells st))" using cb(1) bs(3) by (auto simp: m'_def m_def)
    ultimately have "queued_at st' (as @ [a])" using q new(2,3) st' by (auto simp: queued_at_def a_def less_SucI)
    moreover have "waiting (spec_queue fn ctx s) = map (entry (cells st')) (as @ [a])"
      using ent cb(1) ma unfolding st'(2) by (simp add: spec_queue_def m'_def) (simp add: entry_def new(4))
    ultimately show ?thesis using st' rest by (auto simp: models_def spec_queue_def)
  qed
qed

definition kept :: "(nat \<rightharpoonup> callback) \<Rightarrow> nat option \<Rightarrow> nat option \<Rightarrow> nat list \<Rightarrow> bool" where
  "kept m h t ks \<longleftrightarrow> (if ks = [] then h = None \<and> t = None else t = Some (last ks) \<and> (\<exists>k. lseg m h ks k))"

lemma kept_other: "a \<notin> set ks \<Longrightarrow> kept (m(a := x)) h t ks = kept m h t ks"
  by (auto simp: kept_def lseg_other)

lemma kept_snoc:
  assumes "kept m h t ks" "ks \<noteq> []" "m a = Some ca" "a \<notin> set ks" "distinct ks"
  obtains b cb where "t = Some b" "b \<in> set ks" "m b = Some cb" "kept (m(b \<mapsto> cb\<lparr>cb_next := Some a\<rparr>)) h (Some a) (ks @ [a])"
proof -
  obtain bs b where ks: "ks = bs @ [b]" using assms(2) by (cases ks rule: rev_cases) auto
  obtain k where "lseg m h (bs @ [b]) k" "b \<notin> set bs" using assms(1,5) ks by (auto simp: kept_def)
  then obtain cb where cb: "m b = Some cb" "\<And>n. lseg (m(b \<mapsto> cb\<lparr>cb_next := n\<rparr>)) h (bs @ [b]) n" by (rule lseg_relink) auto
  have "b \<noteq> a" using assms(4) ks by auto
  then have "lseg (m(b \<mapsto> cb\<lparr>cb_next := Some a\<rparr>)) h (ks @ [a]) (cb_next ca)"
    using cb(2) [of "Some a"] assms(3) unfolding ks by (subst lseg_append) auto
  then show thesis using that [of b cb] assms(1) cb(1) ks by (auto simp: kept_def)
qed

lemma in_context_belongs:
  assumes "fn = Run_idempotent \<Longrightarrow> c \<in> dom m"
  shows "in_context m ctx fn c = Some (belongs m ctx (fn, c))"
  using assms by (auto simp: in_context_def belongs_def split: callback_fn.splits option.splits)

lemma delete_loop_ok:
  assumes "lseg (cells st) (cbhead st) as None" "kept (cells st) h t ks" "distinct (ks @ as)"
    "owned (ics st) (map (entry (cells st)) as)" "rs = filter (\<lambda>a. \<not> belongs (ics st) ctx (entry (cells st) a)) as"
  shows "\<exists>h' t' m'. delete_loop ctx h t st = Some (h', t', st\<lparr>cells := m', cbhead := None\<rparr>) \<and> kept m' h' t' (ks @ rs) \<and>
    dom m' = dom (cells st) - (set as - set rs) \<and> (\<forall>a \<in> set (ks @ rs). entry m' a = entry (cells st) a)"
  using assms
proof (induction as arbitrary: st h t ks rs)
  case Nil
  then show ?case by (subst delete_loop.simps) (auto intro!: exI [of _ "cells st"])
next
  case (Cons a as)
  define m where "m = cells st"
  obtain ca where ca: "cbhead st = Some a" "m a = Some ca" "lseg m (cb_next ca) as None"
    using Cons.prems(1) by (auto simp: m_def split: option.splits)
  have ea: "entry m a = (cb_fn ca, cb_ctx ca)" using ca(2) by (simp add: entry_def)
  have a: "a \<notin> set ks" "a \<notin> set as" "distinct (ks @ as)" using Cons.prems(3) by auto
  have ctx: "in_context (ics st) ctx (cb_fn ca) (cb_ctx ca) = Some (belongs (ics st) ctx (entry m a))"
    unfolding ea by (rule in_context_belongs) (use Cons.prems(4) ea in \<open>auto simp: owned_def m_def\<close>)
  have own: "owned (ics st) (map (entry m) as)" using Cons.prems(4) by (auto simp: owned_def m_def)
  note step = delete_loop.simps [of ctx h t st]
  show ?case
  proof (cases "belongs (ics st) ctx (entry m a)")
    case True
    let ?st = "st\<lparr>cbhead := cb_next ca, cells := m(a := None)\<rparr>"
    have e: "map (entry (m(a := None))) as = map (entry m) as" using a(2) by (intro map_cong refl) (metis entry_other)
    then have f: "rs = filter (\<lambda>x. \<not> belongs (ics ?st) ctx (entry (cells ?st) x)) as"
      using True Cons.prems(5) by (auto simp: m_def map_eq_conv intro!: filter_cong)
    obtain h' t' m' where IH: "delete_loop ctx h t ?st = Some (h', t', ?st\<lparr>cells := m', cbhead := None\<rparr>)" "kept m' h' t' (ks @ rs)"
      "dom m' = dom (cells ?st) - (set as - set rs)" "\<forall>x \<in> set (ks @ rs). entry m' x = entry (cells ?st) x"
    proof -
      have "lseg (cells ?st) (cbhead ?st) as None" "kept (cells ?st) h t ks" "owned (ics ?st) (map (entry (cells ?st)) as)"
        using ca(3) Cons.prems(2) own a(1,2) unfolding e [symmetric]
        by (simp_all add: lseg_other kept_other m_def del: fun_upd_apply)
      from Cons.IH [OF this(1,2) a(3) this(3) f] that show thesis by blast
    qed
    have "set rs \<subseteq> set as" using f by auto
    then have "a \<notin> set (ks @ rs)" using a(1,2) by auto
    have "entry (m(a := None)) x = entry m x" if "x \<in> set (ks @ rs)" for x
      using that \<open>a \<notin> set (ks @ rs)\<close> by (intro entry_other) auto
    then have "\<forall>x \<in> set (ks @ rs). entry m' x = entry m x" using IH(4) by (simp add: m_def)
    moreover have "delete_loop ctx h t st = Some (h', t', st\<lparr>cells := m', cbhead := None\<rparr>)"
      using IH(1) ca ctx True by (subst step) (simp add: m_def)
    moreover have "dom m' = dom m - (set (a # as) - set rs)" using IH(3) a(2) \<open>a \<notin> set (ks @ rs)\<close> by auto
    ultimately show ?thesis using IH(2) unfolding m_def by blast
  next
    case False
    define rs' where "rs' = filter (\<lambda>x. \<not> belongs (ics st) ctx (entry m x)) as"
    have rs: "rs = a # rs'" using False Cons.prems(5) by (simp add: rs'_def m_def)
    obtain h1 m1 where one: "delete_loop ctx h t st = delete_loop ctx h1 (Some a) (st\<lparr>cbhead := cb_next ca, cells := m1\<rparr>)"
      "kept m1 h1 (Some a) (ks @ [a])" "lseg m1 (cb_next ca) as None" "dom m1 = dom m" "\<And>x. entry m1 x = entry m x"
    proof (cases "ks = []")
      case True
      then have "h = None" "t = None" using Cons.prems(2) by (auto simp: kept_def)
      then have "delete_loop ctx h t st = delete_loop ctx (Some a) (Some a) (st\<lparr>cbhead := cb_next ca, cells := m\<rparr>)"
        using ca ctx False by (subst step) (simp add: m_def)
      moreover have "lseg m (Some a) [a] (cb_next ca)" using ca(2) by simp
      then have "kept m (Some a) (Some a) (ks @ [a])" using True unfolding kept_def by auto
      ultimately show thesis using that [of "Some a" m] ca(3) by simp
    next
      case ks: False
      have "kept m h t ks" "distinct ks" using Cons.prems(2,3) by (simp_all add: m_def)
      then obtain b cb where b: "t = Some b" "b \<in> set ks" "m b = Some cb" "kept (m(b \<mapsto> cb\<lparr>cb_next := Some a\<rparr>)) h (Some a) (ks @ [a])"
        using kept_snoc [of m h t ks a ca] ks ca(2) a(1) by blast
      obtain n where "h = Some n" using Cons.prems(2) ks by (cases ks) (auto simp: kept_def split: option.splits)
      then have "delete_loop ctx h t st = delete_loop ctx h (Some a) (st\<lparr>cbhead := cb_next ca, cells := m(b \<mapsto> cb\<lparr>cb_next := Some a\<rparr>)\<rparr>)"
        using ca ctx False b by (subst step) (simp add: m_def set_next_def)
      moreover have "b \<notin> set as" using b(2) a(3) by auto
      then have "lseg (m(b \<mapsto> cb\<lparr>cb_next := Some a\<rparr>)) (cb_next ca) as None" using ca(3) by (simp add: lseg_other del: fun_upd_apply)
      moreover have "dom (m(b \<mapsto> cb\<lparr>cb_next := Some a\<rparr>)) = dom m" using b(3) by auto
      moreover have "entry (m(b \<mapsto> cb\<lparr>cb_next := Some a\<rparr>)) = entry m" by (rule entry_relink) (rule b(3))
      ultimately show thesis using that b(4) by metis
    qed
    have f: "rs' = filter (\<lambda>x. \<not> belongs (ics st) ctx (entry m1 x)) as" by (simp add: rs'_def one(5))
    obtain h' t' m' where IH: "delete_loop ctx h1 (Some a) (st\<lparr>cbhead := cb_next ca, cells := m1\<rparr>) = 
        Some (h', t', st\<lparr>cells := m', cbhead := None\<rparr>)" "kept m' h' t' ((ks @ [a]) @ rs')"
      "dom m' = dom m1 - (set as - set rs')" "\<forall>x \<in> set ((ks @ [a]) @ rs'). entry m' x = entry m1 x"
    proof -
      let ?st = "st\<lparr>cbhead := cb_next ca, cells := m1\<rparr>"
      have e: "map (entry m1) as = map (entry m) as" using one(5) by simp
      have "lseg (cells ?st) (cbhead ?st) as None" "kept (cells ?st) h1 (Some a) (ks @ [a])" "distinct ((ks @ [a]) @ as)"
        "owned (ics ?st) (map (entry (cells ?st)) as)" "rs' = filter (\<lambda>x. \<not> belongs (ics ?st) ctx (entry (cells ?st) x)) as"
        using one(2,3) Cons.prems(3) own f unfolding e [symmetric] by simp_all
      from Cons.IH [OF this] that show thesis by auto
    qed
    have "dom m' = dom m - (set (a # as) - set rs)" using IH(3) one(4) rs a(2) ca(2) by auto
    then show ?thesis using IH one(1,5) rs unfolding m_def by (intro exI [of _ h'] exI [of _ t'] exI [of _ m']) auto
  qed
qed

lemma delete_models:
  assumes "models st s" "owned (ics st) (waiting s)"
  shows "\<exists>st'. delete_callbacks_for_context ctx st = Some st' \<and> models st' (spec_request (Delete ctx) s) \<and> cbcurr st' = cbcurr st"
proof -
  obtain as where q: "queued_at st as" and w: "waiting s = map (entry (cells st)) as"
    and rest: "busy s \<longleftrightarrow> cbcurr st \<noteq> None" "owners s = ics st" "listener s = notify_frontend st" "told s = notified st"
    using assms by (auto simp: models_def)
  define rs where "rs = filter (\<lambda>a. \<not> belongs (ics st) ctx (entry (cells st) a)) as"
  obtain h t m where d: "delete_loop ctx None None st = Some (h, t, st\<lparr>cells := m, cbhead := None\<rparr>)" "kept m h t rs"
    "dom m = dom (cells st) - (set as - set rs)" "\<forall>a \<in> set rs. entry m a = entry (cells st) a"
    using delete_loop_ok [of st as None None "[]" rs ctx] q assms(2) w rs_def by (auto simp: queued_at_def kept_def)
  have "waiting (spec_request (Delete ctx) s) = map (entry (cells st)) rs"
    using rest(2) by (simp add: w rs_def filter_map o_def)
  also have "\<dots> = map (entry m) rs" using d(4) by simp
  finally have w': "waiting (spec_request (Delete ctx) s) = map (entry m) rs" .
  have sub: "set rs \<subseteq> set as" "distinct rs" using q by (auto simp: rs_def queued_at_def)
  have dm: "dom m = set rs \<union> set_option (cbcurr st)" using d(3) q sub(1) by (auto simp: queued_at_def)
  show ?thesis
  proof (cases rs rule: rev_cases)
    case Nil
    then have "h = None" "t = None" using d(2) by (auto simp: kept_def)
    then have "delete_callbacks_for_context ctx st = Some (st\<lparr>cells := m, cbhead := None, cbtail := None\<rparr>)"
      using d(1) by (simp add: delete_callbacks_for_context_def)
    moreover have "queued_at (st\<lparr>cells := m, cbhead := None, cbtail := None\<rparr>) []"
      using q dm Nil by (auto simp: queued_at_def)
    ultimately show ?thesis using w' rest Nil by (auto simp: models_def)
  next
    case (snoc bs b)
    then have t: "t = Some b" and "\<exists>k. lseg m h (bs @ [b]) k" using d(2) by (auto simp: kept_def)
    then obtain cb where cb: "m b = Some cb" "lseg (m(b \<mapsto> cb\<lparr>cb_next := None\<rparr>)) h rs None"
      using lseg_relink [of m h bs b] sub(2) snoc by (metis distinct_append distinct.simps(2) disjoint_iff list.set_intros(1))
    define st' where "st' = st\<lparr>cells := m(b \<mapsto> cb\<lparr>cb_next := None\<rparr>), cbhead := h, cbtail := Some b\<rparr>"
    have "delete_callbacks_for_context ctx st = Some st'"
      using d(1) t cb(1) by (simp add: delete_callbacks_for_context_def set_next_def st'_def)
    moreover have "dom (cells st') = dom m" using cb(1) by (auto simp: st'_def)
    then have "queued_at st' rs" using q dm cb(2) sub snoc d(3) by (auto simp: queued_at_def st'_def)
    moreover have "waiting (spec_request (Delete ctx) s) = map (entry (cells st')) rs" using w' cb(1) by (simp add: st'_def)
    ultimately show ?thesis using rest by (auto simp: models_def st'_def)
  qed
qed

lemma request_models:
  assumes "models st s" "owned (ics st) (waiting s)" "asks_ok (dom (ics st)) [r]"
  shows "\<exists>st'. do_request r st = Some st' \<and> models st' (spec_request r s) \<and> owned (ics st') (waiting (spec_request r s)) \<and>
    dom (ics st') = dom (ics st) \<and> cbcurr st' = cbcurr st"
proof (cases r)
  case (Queue fn ctx)
  obtain st' where st': "queue_toplevel_callback (Fn fn) ctx st = Some st'" "models st' (spec_queue (Fn fn) ctx s)" "cbcurr st' = cbcurr st"
    using queue_models [OF assms(1)] by blast
  have "ics st' = ics st" using st'(2) assms(1) by (auto simp: models_def spec_queue_def)
  then show ?thesis using st' assms(2) Queue by (auto simp: owned_def spec_queue_def)
next
  case (Queue_idempotent a)
  then obtain ic where ic: "ics st a = Some ic" using assms(3) by (auto simp: asks_ok_def)
  have ow: "owners s = ics st" using assms(1) by (simp add: models_def)
  show ?thesis
  proof (cases "ic_queued ic")
    case True
    then show ?thesis using ic ow assms Queue_idempotent by (auto simp: queue_idempotent_callback_def)
  next
    case False
    let ?m = "(ics st)(a \<mapsto> ic\<lparr>ic_queued := True\<rparr>)"
    have "models (st\<lparr>ics := ?m\<rparr>) (s\<lparr>owners := ?m\<rparr>)" using assms(1) by (auto simp: models_def queued_at_def)
    from queue_models [OF this, of Run_idempotent a] obtain st' where st':
      "queue_toplevel_callback Run_idempotent a (st\<lparr>ics := ?m\<rparr>) = Some st'"
      "models st' (spec_queue Run_idempotent a (s\<lparr>owners := ?m\<rparr>))" "cbcurr st' = cbcurr st" by auto
    have i: "ics st' = ?m" using st'(2) by (auto simp: models_def spec_queue_def)
    then have "dom (ics st') = dom (ics st)" using ic by auto
    moreover have "owned (ics st') (waiting (spec_queue Run_idempotent a (s\<lparr>owners := ?m\<rparr>)))"
      using assms(2) i by (auto simp: owned_def spec_queue_def)
    ultimately show ?thesis using st' ic ow False Queue_idempotent by (auto simp: queue_idempotent_callback_def)
  qed
next
  case (Delete ctx)
  obtain st' where st': "delete_callbacks_for_context ctx st = Some st'" "models st' (spec_request r s)" "cbcurr st' = cbcurr st"
    using delete_models [OF assms(1,2)] Delete by blast
  have "ics st' = ics st" using st'(2) assms(1) Delete by (auto simp: models_def)
  then show ?thesis using st' assms(2) Delete by (auto simp: owned_def)
next
  case (Notify f)
  then show ?thesis using assms by (auto simp: request_callback_notifications_def models_def queued_at_def)
qed

lemma requests_model:
  "models st s \<Longrightarrow> owned (ics st) (waiting s) \<Longrightarrow> asks_ok (dom (ics st)) rs \<Longrightarrow>
    \<exists>st'. do_requests rs st = Some st' \<and> models st' (fold spec_request rs s) \<and> owned (ics st') (waiting (fold spec_request rs s)) \<and>
      dom (ics st') = dom (ics st) \<and> cbcurr st' = cbcurr st"
proof (induction rs arbitrary: st s)
  case (Cons r rs)
  have "asks_ok (dom (ics st)) [r]" using Cons.prems(3) by (simp add: asks_ok_def)
  from request_models [OF Cons.prems(1,2) this] obtain st1 where st1: "do_request r st = Some st1" "models st1 (spec_request r s)"
    "owned (ics st1) (waiting (spec_request r s))" "dom (ics st1) = dom (ics st)" "cbcurr st1 = cbcurr st" by blast
  moreover have "asks_ok (dom (ics st1)) rs" using Cons.prems(3) st1(4) by (simp add: asks_ok_def)
  ultimately show ?case using Cons.IH [of st1 "spec_request r s"] by auto
qed simp

lemma run_models:
  assumes "models st s" "owned (ics st) (waiting s)" "\<And>f c. asks_ok (dom (ics st)) (calls f c)" "cbcurr st = None"
  shows "\<exists>st'. run_toplevel_callbacks calls st = Some (fst (spec_run calls s), st') \<and> models st' (snd (spec_run calls s)) \<and>
    owned (ics st') (waiting (snd (spec_run calls s))) \<and> dom (ics st') = dom (ics st) \<and> cbcurr st' = None"
proof -
  obtain as where q: "queued_at st as" and w: "waiting s = map (entry (cells st)) as"
    and rest: "busy s \<longleftrightarrow> cbcurr st \<noteq> None" "owners s = ics st" "listener s = notify_frontend st" "told s = notified st"
    using assms(1) by (auto simp: models_def)
  show ?thesis
  proof (cases as)
    case Nil
    then have "waiting s = []" "cbhead st = None" using q w by (auto simp: queued_at_def)
    then show ?thesis using assms by (intro exI [of _ st]) (simp add: run_toplevel_callbacks_def spec_run_def)
  next
    case (Cons a bs)
    obtain cb where cb: "cells st a = Some cb" "cbhead st = Some a" "lseg (cells st) (cb_next cb) bs None"
      using q Cons by (auto simp: queued_at_def split: option.splits)
    obtain fn c where fc: "cb_fn cb = fn" "cb_ctx cb = c" by blast
    have ws: "waiting s = (fn, c) # map (entry (cells st)) bs" using w Cons cb(1) fc by (simp add: entry_def)
    define s1 where "s1 = s\<lparr>waiting := map (entry (cells st)) bs, busy := True\<rparr>"
    define st1 where "st1 = st\<lparr>cbcurr := Some a, cbhead := cb_next cb, cbtail := if bs = [] then None else cbtail st\<rparr>"
    have q1: "queued_at st1 bs" using q Cons cb assms(4) by (auto simp: queued_at_def st1_def)
    have head: "cb_next cb = None \<longleftrightarrow> bs = []" using cb(3) by (cases bs) auto
    have m1: "models st1 s1" using q1 rest by (auto simp: models_def s1_def st1_def)
    have o1: "owned (ics st1) (waiting s1)" "dom (ics st1) = dom (ics st)" "cbcurr st1 = Some a" "owners s1 = ics st1"
      using assms(2) ws rest(2) by (auto simp: owned_def s1_def st1_def)
    have fin: ?thesis if st2: "run_toplevel_callbacks calls st = Some (True, st2\<lparr>cells := (cells st2)(a := None), cbcurr := None\<rparr>)"
      and s2: "spec_run calls s = (True, s2\<lparr>busy := False\<rparr>)" and m2: "models st2 s2" and o2: "owned (ics st2) (waiting s2)"
      and d2: "dom (ics st2) = dom (ics st)" and c2: "cbcurr st2 = Some a" for st2 s2
    proof -
      obtain cs where cs: "queued_at st2 cs" "waiting s2 = map (entry (cells st2)) cs" using m2 by (auto simp: models_def)
      have a: "a \<notin> set cs" using cs(1) c2 by (auto simp: queued_at_def)
      have "queued_at (st2\<lparr>cells := (cells st2)(a := None), cbcurr := None\<rparr>) cs"
        using cs(1) c2 a by (auto simp: queued_at_def lseg_other simp del: fun_upd_apply)
      moreover have "map (entry (cells st2)) cs = map (entry ((cells st2)(a := None))) cs"
        using a by (intro map_cong refl) (metis entry_other)
      ultimately have "models (st2\<lparr>cells := (cells st2)(a := None), cbcurr := None\<rparr>) (s2\<lparr>busy := False\<rparr>)"
        using m2 cs(2) unfolding models_def by fastforce
      then show ?thesis using st2 s2 o2 d2 by auto
    qed
    show ?thesis
    proof (cases fn)
      case (Fn f)
      have "asks_ok (dom (ics st1)) (calls f c)" using assms(3) o1(2) by simp
      from requests_model [OF m1 o1(1) this] obtain st2 where st2: "do_requests (calls f c) st1 = Some st2"
        "models st2 (fold spec_request (calls f c) s1)" "owned (ics st2) (waiting (fold spec_request (calls f c) s1))"
        "dom (ics st2) = dom (ics st1)" "cbcurr st2 = cbcurr st1" by blast
      have "run_toplevel_callbacks calls st = Some (True, st2\<lparr>cells := (cells st2)(a := None), cbcurr := None\<rparr>)"
        using cb(1,2) fc Fn st2(1) head by (auto simp: run_toplevel_callbacks_def st1_def Let_def split: if_splits)
      moreover have "spec_run calls s = (True, (fold spec_request (calls f c) s1)\<lparr>busy := False\<rparr>)"
        using ws Fn by (simp add: spec_run_def s1_def)
      ultimately show ?thesis using fin st2 o1(2,3) by simp
    next
      case Run_idempotent
      then obtain ic where ic: "ics st1 c = Some ic" using assms(2) ws by (auto simp: owned_def st1_def)
      let ?m = "(ics st1)(c \<mapsto> ic\<lparr>ic_queued := False\<rparr>)" and ?rs = "calls (ic_fn ic) (ic_ctx ic)"
      have d: "dom ?m = dom (ics st)" using ic o1(2) by auto
      have "models (st1\<lparr>ics := ?m\<rparr>) (s1\<lparr>owners := ?m\<rparr>)" using m1 by (auto simp: models_def queued_at_def)
      moreover have "owned ?m (waiting s1)" using o1(1) by (auto simp: owned_def)
      moreover have "asks_ok (dom ?m) ?rs" using assms(3) d by simp
      ultimately obtain st2 where st2: "do_requests ?rs (st1\<lparr>ics := ?m\<rparr>) = Some st2"
        "models st2 (fold spec_request ?rs (s1\<lparr>owners := ?m\<rparr>))" "owned (ics st2) (waiting (fold spec_request ?rs (s1\<lparr>owners := ?m\<rparr>)))"
        "dom (ics st2) = dom ?m" "cbcurr st2 = cbcurr st1"
        using requests_model [of "st1\<lparr>ics := ?m\<rparr>" "s1\<lparr>owners := ?m\<rparr>" ?rs] by auto
      have "run_toplevel_callbacks calls st = Some (True, st2\<lparr>cells := (cells st2)(a := None), cbcurr := None\<rparr>)"
        using cb(1,2) fc Run_idempotent st2(1) head ic
        by (auto simp: run_toplevel_callbacks_def run_idempotent_callback_def st1_def Let_def split: if_splits)
      moreover have "spec_run calls s = (True, (fold spec_request ?rs (s1\<lparr>owners := ?m\<rparr>))\<lparr>busy := False\<rparr>)"
        using ws Run_idempotent ic o1(4) by (simp add: spec_run_def s1_def st1_def)
      ultimately show ?thesis using fin st2(2-5) d o1(3) by simp
    qed
  qed
qed

section \<open>Runs of the event loop\<close>

text \<open>The event loop and the code it runs: a request between callbacks, or a call that runs one of them.\<close>

datatype cb_step = Request cb_request | Run

primrec cb_steps :: "(nat \<Rightarrow> nat \<Rightarrow> cb_request list) \<Rightarrow> cb_step list \<Rightarrow> callbacks \<Rightarrow> (bool list \<times> callbacks) option" where
  "cb_steps calls [] st = Some ([], st)"
| "cb_steps calls (e # es) st = do {
     (bs, st) \<leftarrow> (case e of Request r \<Rightarrow> map_option (Pair []) (do_request r st)
                | Run \<Rightarrow> map_option (\<lambda>(b, st). ([b], st)) (run_toplevel_callbacks calls st));
     (cs, st) \<leftarrow> cb_steps calls es st;
     Some (bs @ cs, st)
   }"

primrec spec_steps :: "(nat \<Rightarrow> nat \<Rightarrow> cb_request list) \<Rightarrow> cb_step list \<Rightarrow> queue_spec \<Rightarrow> bool list \<times> queue_spec" where
  "spec_steps calls [] s = ([], s)"
| "spec_steps calls (e # es) s =
     (let (bs, s) = (case e of Request r \<Rightarrow> ([], spec_request r s) | Run \<Rightarrow> map_prod (\<lambda>b. [b]) id (spec_run calls s));
          (cs, s) = spec_steps calls es s
      in (bs @ cs, s))"

primrec step_ok :: "nat set \<Rightarrow> cb_step \<Rightarrow> bool" where
  "step_ok A (Request r) \<longleftrightarrow> asks_ok A [r]"
| "step_ok A Run \<longleftrightarrow> True"

definition empty_queue :: "(nat \<rightharpoonup> IdempotentCallback) \<Rightarrow> queue_spec" where
  "empty_queue m = \<lparr>waiting = [], busy = False, owners = m, listener = None, told = []\<rparr>"

lemma steps_model:
  assumes "models st s" "owned (ics st) (waiting s)" "cbcurr st = None" "\<And>f c. asks_ok (dom (ics st)) (calls f c)"
    "\<forall>e \<in> set es. step_ok (dom (ics st)) e"
  shows "\<exists>st'. cb_steps calls es st = Some (fst (spec_steps calls es s), st') \<and> models st' (snd (spec_steps calls es s)) \<and>
    cbcurr st' = None"
  using assms
proof (induction es arbitrary: st s)
  case (Cons e es)
  have "\<exists>bs st1 s1. (case e of Request r \<Rightarrow> map_option (Pair []) (do_request r st)
        | Run \<Rightarrow> map_option (\<lambda>(b, st). ([b], st)) (run_toplevel_callbacks calls st)) = Some (bs, st1) \<and>
      (case e of Request r \<Rightarrow> ([], spec_request r s) | Run \<Rightarrow> map_prod (\<lambda>b. [b]) id (spec_run calls s)) = (bs, s1) \<and>
      models st1 s1 \<and> owned (ics st1) (waiting s1) \<and> cbcurr st1 = None \<and> dom (ics st1) = dom (ics st)"
  proof (cases e)
    case (Request r)
    then have "asks_ok (dom (ics st)) [r]" using Cons.prems(5) by auto
    from request_models [OF Cons.prems(1,2) this] show ?thesis using Request Cons.prems(3) by auto
  next
    case Run
    have "\<exists>st'. run_toplevel_callbacks calls st = Some (fst (spec_run calls s), st') \<and> models st' (snd (spec_run calls s)) \<and>
      owned (ics st') (waiting (snd (spec_run calls s))) \<and> dom (ics st') = dom (ics st) \<and> cbcurr st' = None"
      by (rule run_models [OF Cons.prems(1,2) _ Cons.prems(3)]) (rule Cons.prems(4))
    then show ?thesis using Run by (cases "spec_run calls s") auto
  qed
  then obtain bs st1 s1 where one: "(case e of Request r \<Rightarrow> map_option (Pair []) (do_request r st)
        | Run \<Rightarrow> map_option (\<lambda>(b, st). ([b], st)) (run_toplevel_callbacks calls st)) = Some (bs, st1)"
      "(case e of Request r \<Rightarrow> ([], spec_request r s) | Run \<Rightarrow> map_prod (\<lambda>b. [b]) id (spec_run calls s)) = (bs, s1)"
      "models st1 s1" "owned (ics st1) (waiting s1)" "cbcurr st1 = None" "dom (ics st1) = dom (ics st)" by blast
  have "\<exists>st'. cb_steps calls es st1 = Some (fst (spec_steps calls es s1), st') \<and> models st' (snd (spec_steps calls es s1)) \<and>
    cbcurr st' = None"
    by (rule Cons.IH [OF one(3-5)]) (use Cons.prems(4,5) one(6) in simp_all)
  then show ?case using one(1,2) by (auto split: prod.splits)
qed simp

text \<open>C39: Whatever the program asks for between callbacks and from inside them, the linked list is handled without
  a null or dangling pointer, and the queue it holds is the first-in first-out queue of the specification
  with the deleted contexts taken out; each run does something exactly when that queue is not empty, the
  front end is told exactly when the queue turns non-empty while no callback is running, and a pending
  callback is reported exactly when there is one.\<close>

theorem callbacks_refine_queue:
  assumes "\<forall>f c. asks_ok (dom m) (calls f c)"
    "\<forall>e \<in> set es. step_ok (dom m) e"
    "spec_steps calls es (empty_queue m) = (bs, s)"
  shows "\<exists>st as. cb_steps calls es (no_callbacks m) = Some (bs, st) \<and> queued_at st as \<and> waiting s = map (entry (cells st)) as \<and>
    owners s = ics st \<and> listener s = notify_frontend st \<and> told s = notified st \<and>
    (toplevel_callback_pending st \<longleftrightarrow> waiting s \<noteq> [])"
proof -
  have "models (no_callbacks m) (empty_queue m)" "owned m (waiting (empty_queue m))"
    by (auto simp: models_def no_callbacks_def empty_queue_def queued_at_def owned_def)
  moreover have "ics (no_callbacks m) = m" "cbcurr (no_callbacks m) = None" by (simp_all add: no_callbacks_def)
  ultimately obtain st where st: "cb_steps calls es (no_callbacks m) = Some (bs, st)" "models st s" "cbcurr st = None"
    using steps_model [of "no_callbacks m" "empty_queue m" calls es] assms by auto
  then obtain as where as: "queued_at st as" "waiting s = map (entry (cells st)) as" by (auto simp: models_def)
  have "cbhead st \<noteq> None \<longleftrightarrow> as \<noteq> []" using as(1) by (cases as) (auto simp: queued_at_def)
  then show ?thesis using st as by (auto simp: models_def toplevel_callback_pending_def)
qed

text \<open>As long as no context is deleted, the flag of an idempotent callback says whether it is in the queue.\<close>

definition flags_ok :: "queue_spec \<Rightarrow> bool" where
  "flags_ok s \<longleftrightarrow> (\<forall>a ic. owners s a = Some ic \<longrightarrow> count_list (waiting s) (Run_idempotent, a) = (if ic_queued ic then 1 else 0)) \<and>
     owned (owners s) (waiting s)"

definition no_delete :: "cb_request list \<Rightarrow> bool" where
  "no_delete rs \<longleftrightarrow> (\<forall>r \<in> set rs. case r of Delete _ \<Rightarrow> False | _ \<Rightarrow> True)"

lemma flags_request: "flags_ok s \<Longrightarrow> no_delete [r] \<Longrightarrow> flags_ok (spec_request r s)"
  by (cases r) (auto simp: flags_ok_def no_delete_def spec_queue_def owned_def split: option.splits)

lemma flags_requests: "flags_ok s \<Longrightarrow> no_delete rs \<Longrightarrow> flags_ok (fold spec_request rs s)"
proof (induction rs arbitrary: s)
  case (Cons r rs)
  have "no_delete [r]" "no_delete rs" using Cons.prems(2) by (simp_all add: no_delete_def)
  then show ?case using Cons.IH [OF flags_request [OF Cons.prems(1)]] by simp
qed simp

lemma flags_run:
  assumes "flags_ok s" "\<And>f c. no_delete (calls f c)"
  shows "flags_ok (snd (spec_run calls s))"
proof (cases "waiting s")
  case (Cons e es)
  obtain fn c where e: "e = (fn, c)" by (cases e)
  let ?s = "s\<lparr>waiting := es, busy := True\<rparr>"
  have idle: "flags_ok t \<Longrightarrow> flags_ok (t\<lparr>busy := False\<rparr>)" for t by (simp add: flags_ok_def)
  show ?thesis
  proof (cases fn)
    case (Fn f)
    have "flags_ok ?s" using assms(1) Cons e Fn by (auto simp: flags_ok_def owned_def split: if_splits)
    then show ?thesis using Cons e Fn idle [OF flags_requests [OF _ assms(2)]] by (simp add: spec_run_def)
  next
    case Run_idempotent
    then obtain ic where ic: "owners s c = Some ic" using assms(1) Cons e by (auto simp: flags_ok_def owned_def)
    have "flags_ok (?s\<lparr>owners := (owners s)(c \<mapsto> ic\<lparr>ic_queued := False\<rparr>)\<rparr>)"
      using assms(1) Cons e Run_idempotent ic by (auto simp: flags_ok_def owned_def split: if_splits)
    then show ?thesis using Cons e Run_idempotent ic idle [OF flags_requests [OF _ assms(2)]] by (simp add: spec_run_def)
  qed
qed (use assms(1) in \<open>simp add: spec_run_def\<close>)

primrec step_keeps :: "cb_step \<Rightarrow> bool" where
  "step_keeps (Request r) \<longleftrightarrow> no_delete [r]"
| "step_keeps Run \<longleftrightarrow> True"

lemma flags_steps:
  assumes "\<And>f c. no_delete (calls f c)"
  shows "flags_ok s \<Longrightarrow> \<forall>e \<in> set es. step_keeps e \<Longrightarrow> flags_ok (snd (spec_steps calls es s))"
proof (induction es arbitrary: s)
  case (Cons e es)
  define s1 where "s1 = (case e of Request r \<Rightarrow> spec_request r s | Run \<Rightarrow> snd (spec_run calls s))"
  have "flags_ok s1"
  proof (cases e)
    case (Request r)
    then show ?thesis using flags_request [OF Cons.prems(1), of r] Cons.prems(2) by (simp add: s1_def)
  qed (simp add: s1_def flags_run [OF Cons.prems(1) assms])
  moreover have "snd (spec_steps calls (e # es) s) = snd (spec_steps calls es s1)"
    by (cases e; cases "spec_run calls s") (auto simp: s1_def Let_def split: prod.splits)
  ultimately show ?case using Cons.IH [of s1] Cons.prems(2) by simp
qed simp

text \<open>C40: As long as nothing deletes a context, an idempotent callback is in the queue once when its flag is set and not at
  all when it is clear, however often it is asked for and whatever the callbacks do.\<close>

theorem idempotent_callback_once:
  assumes "\<forall>f c. asks_ok (dom m) (calls f c)" "\<forall>f c. no_delete (calls f c)"
    "\<forall>e \<in> set es. step_ok (dom m) e \<and> step_keeps e" "\<forall>a ic. m a = Some ic \<longrightarrow> \<not> ic_queued ic"
  shows "\<exists>bs st as. cb_steps calls es (no_callbacks m) = Some (bs, st) \<and> queued_at st as \<and>
    (\<forall>a ic. ics st a = Some ic \<longrightarrow>
      count_list (map (entry (cells st)) as) (Run_idempotent, a) = (if ic_queued ic then 1 else 0))"
proof -
  have "flags_ok (empty_queue m)" using assms(4) by (auto simp: flags_ok_def empty_queue_def owned_def)
  then have f: "flags_ok (snd (spec_steps calls es (empty_queue m)))"
    by (rule flags_steps [rotated]) (use assms(2,3) in simp_all)
  have m: "models (no_callbacks m) (empty_queue m)" "owned (ics (no_callbacks m)) (waiting (empty_queue m))"
    "cbcurr (no_callbacks m) = None"
    by (auto simp: models_def no_callbacks_def empty_queue_def queued_at_def owned_def)
  have i: "ics (no_callbacks m) = m" by (simp add: no_callbacks_def)
  have "\<exists>st. cb_steps calls es (no_callbacks m) = Some (fst (spec_steps calls es (empty_queue m)), st) \<and>
      models st (snd (spec_steps calls es (empty_queue m))) \<and> cbcurr st = None"
    by (rule steps_model [OF m]) (use assms(1,3) i in simp_all)
  then obtain st where st: "cb_steps calls es (no_callbacks m) = Some (fst (spec_steps calls es (empty_queue m)), st)"
      "models st (snd (spec_steps calls es (empty_queue m)))" by blast
  then obtain as where "queued_at st as" "waiting (snd (spec_steps calls es (empty_queue m))) = map (entry (cells st)) as"
    "owners (snd (spec_steps calls es (empty_queue m))) = ics st" by (auto simp: models_def)
  then show ?thesis using st(1) f by (auto simp: flags_ok_def)
qed

section \<open>Examples\<close>

definition ex_calls :: "nat \<Rightarrow> nat \<Rightarrow> cb_request list" where
  "ex_calls f c = (if f = 7 then [Queue 1 2, Queue_idempotent 5] else [])"

definition ex_ics :: "nat \<rightharpoonup> IdempotentCallback" where
  "ex_ics = [5 \<mapsto> \<lparr>ic_fn = 7, ic_ctx = 9, ic_queued = False\<rparr>]"

definition ex_cb_steps :: "cb_step list" where
  "ex_cb_steps = [Request (Notify (Some (3, 4))), Request (Queue_idempotent 5), Request (Queue 8 9), Request (Queue_idempotent 5), Run,
     Request (Queue 1 1)]"

lemma ex_asks: "\<forall>f c. asks_ok (dom ex_ics) (ex_calls f c)" "\<forall>f c. no_delete (ex_calls f c)" "\<forall>e \<in> set ex_cb_steps. step_ok (dom ex_ics) e \<and> step_keeps e"
  by (auto simp: asks_ok_def no_delete_def ex_calls_def ex_ics_def ex_cb_steps_def)

lemma callbacks_refine_queue_witness:
  "\<exists>st as. cb_steps ex_calls (ex_cb_steps @ [Request (Delete 1)]) (no_callbacks ex_ics) = Some ([True], st) \<and>
     queued_at st as \<and> map (entry (cells st)) as = [(Fn 8, 9), (Fn 1, 2), (Run_idempotent, 5)] \<and> notified st = [(3, 4)]"
proof -
  have e: "fst (spec_steps ex_calls (ex_cb_steps @ [Request (Delete 1)]) (empty_queue ex_ics)) = [True]"
    "waiting (snd (spec_steps ex_calls (ex_cb_steps @ [Request (Delete 1)]) (empty_queue ex_ics))) = [(Fn 8, 9), (Fn 1, 2), (Run_idempotent, 5)]"
    "told (snd (spec_steps ex_calls (ex_cb_steps @ [Request (Delete 1)]) (empty_queue ex_ics))) = [(3, 4)]"
    by code_simp+
  have "\<forall>e \<in> set (ex_cb_steps @ [Request (Delete 1)]). step_ok (dom ex_ics) e" using ex_asks(3) by (simp add: asks_ok_def)
  from callbacks_refine_queue [OF ex_asks(1) this surjective_pairing] show ?thesis unfolding e
    by (elim exE conjE, intro exI conjI) (assumption | erule sym)+
qed

lemma idempotent_callback_once_witness:
  "\<exists>bs st as. cb_steps ex_calls ex_cb_steps (no_callbacks ex_ics) = Some (bs, st) \<and> queued_at st as \<and> ics st 5 \<noteq> None \<and>
     (\<forall>ic. ics st 5 = Some ic \<and> ic_queued ic \<or> ics st 5 \<noteq> Some ic \<or>
       count_list (map (entry (cells st)) as) (Run_idempotent, 5) = 0)"
proof -
  have "\<forall>a ic. ex_ics a = Some ic \<longrightarrow> \<not> ic_queued ic" by (auto simp: ex_ics_def)
  from idempotent_callback_once [OF ex_asks(1,2,3) this] obtain bs st as where
    st: "cb_steps ex_calls ex_cb_steps (no_callbacks ex_ics) = Some (bs, st)" "queued_at st as"
    "\<forall>a ic. ics st a = Some ic \<longrightarrow> count_list (map (entry (cells st)) as) (Run_idempotent, a) = (if ic_queued ic then 1 else 0)"
    by blast
  have "ics (snd (the (cb_steps ex_calls ex_cb_steps (no_callbacks ex_ics)))) 5 \<noteq> None" by code_simp
  then show ?thesis using st by (intro exI [of _ bs] exI [of _ st] exI [of _ as]) auto
qed

text \<open>Deleting a context leaves the flags of its idempotent callbacks as they are: one that was waiting is never queued again.\<close>

lemma deleted_callback_stays_flagged:
  "map_option (\<lambda>(bs, st). (bs, cbhead st))
     (cb_steps ex_calls [Request (Queue_idempotent 5), Request (Delete 9), Request (Queue_idempotent 5), Run] (no_callbacks ex_ics)) =
   Some ([False], None)"
  by code_simp

end
