(* ===== verification/Lz77.thy ===== *)
theory Lz77
  imports Prelude "HOL-Library.Monad_Syntax"
begin

text \<open>
  The LZ77 compressor of \<open>putty-src/sshzlib.c\<close>: a window of the last 32768 bytes with doubly linked hash
  chains through it, the pending bytes that do not make a hash yet, and the lazy choice of matches.
  \<open>lz77_compress\<close> calls back \<open>literal\<close> and \<open>match\<close>; neither touches the compressor, so their calls are
  returned as a list of tokens. Arrays are functions of the index, read and written through bounds
  checks; a failed check, a read past the data and a failed assertion make the result \<open>None\<close>. What \<open>snew\<close>
  leaves in the data of the window is a parameter.
\<close>

unbundle bit_operations_syntax

definition WINSIZE :: int where [code_unfold]: "WINSIZE = 32768"
definition HASHMAX :: int where [code_unfold]: "HASHMAX = 2039"
definition MAXMATCH :: nat where [code_unfold]: "MAXMATCH = 32"
definition HASHCHARS :: nat where [code_unfold]: "HASHCHARS = 3"
definition INVALID :: int where [code_unfold]: "INVALID = - 1"

datatype token = Literal "8 word" | Match int int

record lz77 =
  w_next :: "int \<Rightarrow> int"
  w_prev :: "int \<Rightarrow> int"
  w_hashval :: "int \<Rightarrow> int"
  w_data :: "int \<Rightarrow> 8 word"
  winpos :: int
  h_first :: "int \<Rightarrow> int"
  pending :: "8 word list"

definition rd :: "int \<Rightarrow> (int \<Rightarrow> 'a) \<Rightarrow> int \<Rightarrow> 'a option" where
  "rd n f i = (if 0 \<le> i \<and> i < n then Some (f i) else None)"

definition wr :: "int \<Rightarrow> (int \<Rightarrow> 'a) \<Rightarrow> int \<Rightarrow> 'a \<Rightarrow> (int \<Rightarrow> 'a) option" where
  "wr n f i x = (if 0 \<le> i \<and> i < n then Some (f(i := x)) else None)"

fun lz77_hash :: "8 word list \<Rightarrow> int option" where
  "lz77_hash (a # b # c # _) = Some ((257 * uint a + 263 * uint b + 269 * uint c) mod HASHMAX)"
| "lz77_hash _ = None"

definition lz77_init :: "(int \<Rightarrow> 8 word) \<Rightarrow> lz77" where
  "lz77_init junk = \<lparr>w_next = (\<lambda>_. INVALID), w_prev = (\<lambda>_. INVALID), w_hashval = (\<lambda>_. INVALID), w_data = junk,
     winpos = 0, h_first = (\<lambda>_. INVALID), pending = []\<rparr>"

definition lz77_advance :: "lz77 \<Rightarrow> 8 word \<Rightarrow> int \<Rightarrow> lz77 option" where
  "lz77_advance st c hash = do {
     let w = winpos st;
     prev \<leftarrow> rd WINSIZE (w_prev st) w;
     hv \<leftarrow> rd WINSIZE (w_hashval st) w;
     st \<leftarrow> (if prev \<noteq> INVALID then map_option (\<lambda>f. st\<lparr>w_next := f\<rparr>) (wr WINSIZE (w_next st) prev INVALID)
           else if hv \<noteq> INVALID then map_option (\<lambda>f. st\<lparr>h_first := f\<rparr>) (wr HASHMAX (h_first st) hv INVALID)
           else Some st);
     off \<leftarrow> rd HASHMAX (h_first st) hash;
     let st = st\<lparr>w_hashval := (w_hashval st)(w := hash), w_prev := (w_prev st)(w := INVALID), w_next := (w_next st)(w := off),
                h_first := (h_first st)(hash := w)\<rparr>;
     st \<leftarrow> (if off \<noteq> INVALID then map_option (\<lambda>f. st\<lparr>w_prev := f\<rparr>) (wr WINSIZE (w_prev st) off w) else Some st);
     Some (st\<lparr>w_data := (w_data st)(w := c), winpos := (w + 1) AND (WINSIZE - 1)\<rparr>)
   }"

definition charat :: "lz77 \<Rightarrow> 8 word list \<Rightarrow> int \<Rightarrow> 8 word option" where
  "charat st data k = (if k < 0 then Some (w_data st ((winpos st + k) AND (WINSIZE - 1))) else nth_opt data k)"

text \<open>The characters of the pending array go into the window as far as three characters follow.\<close>

fun flush_pending :: "lz77 \<Rightarrow> 8 word list \<Rightarrow> 8 word list \<Rightarrow> lz77 option" where
  "flush_pending st [] data = Some (st\<lparr>pending := []\<rparr>)"
| "flush_pending st (p # ps) data =
     (if length data + length (p # ps) < HASHCHARS then Some (st\<lparr>pending := p # ps\<rparr>)
      else do {
        hash \<leftarrow> lz77_hash (p # ps @ data);
        st \<leftarrow> lz77_advance st p hash;
        flush_pending st ps data
      })"

text \<open>Comparing \<open>n\<close> characters at position \<open>i\<close> with those at the distance; and the search along a hash chain.\<close>

fun same_chars :: "lz77 \<Rightarrow> 8 word list \<Rightarrow> int \<Rightarrow> int \<Rightarrow> nat \<Rightarrow> bool option" where
  "same_chars st data distance i 0 = Some True"
| "same_chars st data distance i (Suc n) = do {
     a \<leftarrow> charat st data i;
     b \<leftarrow> charat st data (i - distance);
     if a \<noteq> b then Some False else same_chars st data distance (i + 1) n
   }"

partial_function (option) find_matches :: "lz77 \<Rightarrow> 8 word list \<Rightarrow> int \<Rightarrow> int list \<Rightarrow> int list option" where
  "find_matches st data off matches =
     (if off = INVALID then Some matches
      else do {
        let distance = WINSIZE - (off + WINSIZE - winpos st) mod WINSIZE;
        same \<leftarrow> same_chars st data distance 0 HASHCHARS;
        let matches = (if same then matches @ [distance] else matches);
        if same \<and> MAXMATCH \<le> length matches then Some matches
        else do {
          off \<leftarrow> rd WINSIZE (w_next st) off;
          find_matches st data off matches
        }
      })"

declare find_matches.simps [code]

text \<open>The matches that go on at \<open>matchlen\<close>, and the loop that follows them as long as there are any.\<close>

fun going_on :: "lz77 \<Rightarrow> 8 word list \<Rightarrow> int \<Rightarrow> int list \<Rightarrow> int list option" where
  "going_on st data matchlen [] = Some []"
| "going_on st data matchlen (d # ds) = do {
     a \<leftarrow> charat st data matchlen;
     b \<leftarrow> charat st data (matchlen - d);
     rest \<leftarrow> going_on st data matchlen ds;
     Some (if a = b then d # rest else rest)
   }"

function follow :: "lz77 \<Rightarrow> 8 word list \<Rightarrow> int \<Rightarrow> int list \<Rightarrow> (int \<times> int list) option" where
  "follow st data matchlen matches =
     (if matchlen < int (length data) then do {
        ms \<leftarrow> going_on st data matchlen matches;
        if ms = [] then Some (matchlen, matches) else follow st data (matchlen + 1) ms
      }
      else Some (matchlen, matches))"
  by auto
termination by (relation "measure (\<lambda>(st, data, matchlen, matches). nat (int (length data) - matchlen))") auto

declare follow.simps [simp del]

text \<open>The innermost loop: \<open>advance\<close> characters go into the window, or into the pending array.\<close>

fun advance_by :: "nat \<Rightarrow> lz77 \<Rightarrow> 8 word list \<Rightarrow> (lz77 \<times> 8 word list) option" where
  "advance_by 0 st data = Some (st, data)"
| "advance_by (Suc n) st [] = None"
| "advance_by (Suc n) st (c # data) = do {
     st \<leftarrow> (if HASHCHARS \<le> length (c # data) then do { hash \<leftarrow> lz77_hash (c # data); lz77_advance st c hash }
           else if length (pending st) < HASHCHARS then Some (st\<lparr>pending := pending st @ [c]\<rparr>) else None);
     advance_by n st data
   }"

text \<open>One round of the main loop decides what to emit, what to defer, and how far to advance.\<close>

definition decide :: "int list \<Rightarrow> int \<Rightarrow> int \<times> int \<Rightarrow> 8 word \<Rightarrow> 8 word \<Rightarrow> token list \<times> (int \<times> int) \<times> 8 word \<times> int" where
  "decide matches matchlen defermatch deferchr c =
     (if matches \<noteq> [] then
        if 0 < snd defermatch then
          if matchlen > snd defermatch + 1 then ([Literal deferchr], (hd matches, matchlen), c, 1)
          else ([Match (fst defermatch) (snd defermatch)], (fst defermatch, 0), deferchr, snd defermatch - 1)
        else ([], (hd matches, matchlen), c, 1)
      else if 0 < snd defermatch then ([Match (fst defermatch) (snd defermatch)], (fst defermatch, 0), deferchr, snd defermatch - 1)
      else ([Literal c], defermatch, deferchr, 1))"

partial_function (option) lz77_loop ::
  "lz77 \<Rightarrow> 8 word list \<Rightarrow> int \<times> int \<Rightarrow> 8 word \<Rightarrow> token list \<Rightarrow> (lz77 \<times> token list) option"
where
  "lz77_loop st data defermatch deferchr out =
     (if data = [] then Some (st, out)
      else do {
        matches \<leftarrow> (if HASHCHARS \<le> length data then do {
                      hash \<leftarrow> lz77_hash data;
                      first \<leftarrow> rd HASHMAX (h_first st) hash;
                      find_matches st data first []
                    } else Some []);
        (matchlen, matches) \<leftarrow> (if matches \<noteq> [] then follow st data (int HASHCHARS) matches else Some (0, []));
        let (toks, defermatch, deferchr, advance) = decide matches matchlen defermatch deferchr (hd data);
        (st, data) \<leftarrow> advance_by (nat advance) st data;
        lz77_loop st data defermatch deferchr (out @ toks)
      })"

declare lz77_loop.simps [code]

definition lz77_compress :: "lz77 \<Rightarrow> 8 word list \<Rightarrow> (lz77 \<times> token list) option" where
  "lz77_compress st data =
     (if length (pending st) \<le> HASHCHARS then do {
        st \<leftarrow> flush_pending st (pending st) data;
        lz77_loop st data (0, 0) 0 []
      } else None)"

section \<open>The window holds the last bytes\<close>

lemma and_window: "x AND (WINSIZE - 1) = x mod WINSIZE"
proof -
  have "(WINSIZE - 1 :: int) = mask 15" by (simp add: WINSIZE_def mask_eq_exp_minus_1)
  then have "x AND (WINSIZE - 1) = take_bit 15 x" by (simp only: take_bit_eq_mask)
  then show ?thesis by (simp add: take_bit_eq_mod WINSIZE_def)
qed

lemma window_pos [simp]: "0 < WINSIZE" "WINSIZE \<noteq> 0" "0 \<le> WINSIZE"
  by (simp_all add: WINSIZE_def)

text \<open>
  After \<open>n\<close> bytes, a slot of the window has been written when it is below \<open>n\<close>; its age is the number of bytes
  written after it.
\<close>

definition written :: "nat \<Rightarrow> int \<Rightarrow> bool" where
  "written n p \<longleftrightarrow> 0 \<le> p \<and> p < WINSIZE \<and> p < int n"

definition age :: "nat \<Rightarrow> int \<Rightarrow> int" where
  "age n p = (int n - 1 - p) mod WINSIZE"

definition slot :: "nat \<Rightarrow> int" where
  "slot n = int n mod WINSIZE"

lemma slot_range [simp]: "0 \<le> slot n" "slot n < WINSIZE"
  by (simp_all add: slot_def)

lemma age_range [simp]: "0 \<le> age n p" "age n p < WINSIZE"
  by (simp_all add: age_def)

lemma age_Suc:
  assumes "0 \<le> p" "p < WINSIZE"
  shows "age (Suc n) p = (if p = slot n then 0 else age n p + 1)"
proof (cases "p = slot n")
  case True
  then show ?thesis by (simp add: age_def slot_def mod_diff_right_eq)
next
  case False
  have e: "age (Suc n) p = (age n p + 1) mod WINSIZE" by (simp add: age_def mod_add_left_eq)
  have "age n p \<noteq> WINSIZE - 1"
  proof
    assume "age n p = WINSIZE - 1"
    then have "(int n - p) mod WINSIZE = 0" using e by (simp add: age_def)
    then have "int n mod WINSIZE = p mod WINSIZE" by (simp add: mod_eq_dvd_iff dvd_eq_mod_eq_0)
    then show False using False assms by (simp add: slot_def)
  qed
  then have "age n p + 1 < WINSIZE" using age_range(2) [of n p] by linarith
  then show ?thesis using False e age_range(1) [of n p] by simp
qed

lemma written_age: "written n p \<Longrightarrow> age n p < int n"
proof (cases "int n \<le> WINSIZE")
  case True
  assume "written n p"
  then show ?thesis using True by (simp add: written_def age_def)
next
  case False
  then show ?thesis using age_range(2) [of n p] by linarith
qed

lemma written_Suc: "written n p \<Longrightarrow> written (Suc n) p"
  by (auto simp: written_def)

lemma written_slot: "written (Suc n) (slot n)"
proof -
  have "slot n \<le> int n" unfolding slot_def by (rule zmod_le_nonneg_dividend) simp
  then show ?thesis by (simp add: written_def)
qed

definition data_ok :: "lz77 \<Rightarrow> 8 word list \<Rightarrow> bool" where
  "data_ok st h \<longleftrightarrow> winpos st = slot (length h) \<and> (\<forall>t < length h. int (length h) \<le> int t + WINSIZE \<longrightarrow> w_data st (slot t) = h ! t)"

text \<open>The links: along a chain the age grows, each entry but the first knows its predecessor, and all indices are in range.\<close>

definition links_ok :: "lz77 \<Rightarrow> nat \<Rightarrow> bool" where
  "links_ok st n \<longleftrightarrow>
     (\<forall>p. 0 \<le> p \<and> p < WINSIZE \<longrightarrow> w_next st p = INVALID \<or>
        written n p \<and> written n (w_next st p) \<and> age n p < age n (w_next st p) \<and> w_prev st (w_next st p) = p) \<and>
     (\<forall>h. 0 \<le> h \<and> h < HASHMAX \<longrightarrow> h_first st h = INVALID \<or>
        written n (h_first st h) \<and> w_prev st (h_first st h) = INVALID \<and> w_hashval st (h_first st h) = h) \<and>
     (\<forall>p. 0 \<le> p \<and> p < WINSIZE \<longrightarrow> w_prev st p = INVALID \<or> 0 \<le> w_prev st p \<and> w_prev st p < WINSIZE) \<and>
     (\<forall>p. 0 \<le> p \<and> p < WINSIZE \<longrightarrow> w_hashval st p = INVALID \<or> 0 \<le> w_hashval st p \<and> w_hashval st p < HASHMAX)"

lemma links_next: "links_ok st n \<Longrightarrow> 0 \<le> p \<Longrightarrow> p < WINSIZE \<Longrightarrow> w_next st p \<noteq> INVALID \<Longrightarrow>
    written n p \<and> written n (w_next st p) \<and> age n p < age n (w_next st p) \<and> w_prev st (w_next st p) = p"
  unfolding links_ok_def by blast

lemma links_first: "links_ok st n \<Longrightarrow> 0 \<le> h \<Longrightarrow> h < HASHMAX \<Longrightarrow> h_first st h \<noteq> INVALID \<Longrightarrow>
    written n (h_first st h) \<and> w_prev st (h_first st h) = INVALID \<and> w_hashval st (h_first st h) = h"
  unfolding links_ok_def by blast

lemma links_prev: "links_ok st n \<Longrightarrow> 0 \<le> p \<Longrightarrow> p < WINSIZE \<Longrightarrow> w_prev st p \<noteq> INVALID \<Longrightarrow> 0 \<le> w_prev st p \<and> w_prev st p < WINSIZE"
  unfolding links_ok_def by blast

lemma links_hashval: "links_ok st n \<Longrightarrow> 0 \<le> p \<Longrightarrow> p < WINSIZE \<Longrightarrow> w_hashval st p \<noteq> INVALID \<Longrightarrow>
    0 \<le> w_hashval st p \<and> w_hashval st p < HASHMAX"
  unfolding links_ok_def by blast

lemma written_range: "written n p \<Longrightarrow> 0 \<le> p \<and> p < WINSIZE \<and> p \<noteq> INVALID"
  by (simp add: written_def INVALID_def)

lemma not_INVALID: "0 \<le> p \<Longrightarrow> p \<noteq> INVALID"
  by (simp add: INVALID_def)

definition lz_ok :: "lz77 \<Rightarrow> 8 word list \<Rightarrow> bool" where
  "lz_ok st h \<longleftrightarrow> data_ok st h \<and> links_ok st (length h)"

lemma lz77_init_ok: "lz_ok (lz77_init junk) []" "pending (lz77_init junk) = []"
  by (simp_all add: lz_ok_def lz77_init_def data_ok_def links_ok_def slot_def)

section \<open>Advancing\<close>

text \<open>Removing the oldest entry leaves no link to its slot.\<close>

lemma unlink_oldest:
  assumes l: "links_ok st n" and w: "w = slot n"
  obtains st' where "(if w_prev st w \<noteq> INVALID then map_option (\<lambda>f. st\<lparr>w_next := f\<rparr>) (wr WINSIZE (w_next st) (w_prev st w) INVALID)
      else if w_hashval st w \<noteq> INVALID then map_option (\<lambda>f. st\<lparr>h_first := f\<rparr>) (wr HASHMAX (h_first st) (w_hashval st w) INVALID)
      else Some st) = Some st'"
    "links_ok st' n" "\<forall>p. 0 \<le> p \<and> p < WINSIZE \<longrightarrow> w_next st' p \<noteq> w" "\<forall>h. 0 \<le> h \<and> h < HASHMAX \<longrightarrow> h_first st' h \<noteq> w"
    "w_data st' = w_data st" "winpos st' = winpos st" "pending st' = pending st"
proof -
  have wr: "0 \<le> w" "w < WINSIZE" "w \<noteq> INVALID" using w by (simp_all add: not_INVALID)
  consider (prev) "w_prev st w \<noteq> INVALID" | (first) "w_prev st w = INVALID" "w_hashval st w \<noteq> INVALID" |
    (none) "w_prev st w = INVALID" "w_hashval st w = INVALID" by blast
  then show thesis
  proof cases
    case prev
    define st' where "st' = st\<lparr>w_next := (w_next st)(w_prev st w := INVALID)\<rparr>"
    have "wr WINSIZE (w_next st) (w_prev st w) INVALID = Some ((w_next st)(w_prev st w := INVALID))"
      using links_prev [OF l wr(1,2) prev] by (simp add: wr_def)
    moreover have "links_ok st' n" using l unfolding links_ok_def st'_def by simp
    moreover have "w_next st' p \<noteq> w" if "0 \<le> p" "p < WINSIZE" for p
      using links_next [OF l that] wr(3) by (auto simp: st'_def)
    moreover have "h_first st' h \<noteq> w" if "0 \<le> h" "h < HASHMAX" for h
      using links_first [OF l that] wr(3) prev by (auto simp: st'_def)
    ultimately show thesis using that [of st'] prev by (simp add: st'_def)
  next
    case first
    define st' where "st' = st\<lparr>h_first := (h_first st)(w_hashval st w := INVALID)\<rparr>"
    have "wr HASHMAX (h_first st) (w_hashval st w) INVALID = Some ((h_first st)(w_hashval st w := INVALID))"
      using links_hashval [OF l wr(1,2) first(2)] by (simp add: wr_def)
    moreover have "links_ok st' n" using l unfolding links_ok_def st'_def by simp
    moreover have "w_next st' p \<noteq> w" if "0 \<le> p" "p < WINSIZE" for p
      using links_next [OF l that] wr(3) first(1) not_INVALID [OF that(1)] by (auto simp: st'_def)
    moreover have "h_first st' h \<noteq> w" if "0 \<le> h" "h < HASHMAX" for h
      using links_first [OF l that] wr(3) by (auto simp: st'_def)
    ultimately show thesis using that [of st'] first by (simp add: st'_def)
  next
    case none
    have "w_next st p \<noteq> w" if "0 \<le> p" "p < WINSIZE" for p
      using links_next [OF l that] wr(3) none(1) not_INVALID [OF that(1)] by auto
    moreover have "h_first st h \<noteq> w" if "0 \<le> h" "h < HASHMAX" for h
      using links_first [OF l that] wr(3) none(2) not_INVALID [OF that(1)] by auto
    ultimately show thesis using that [of st] none l by simp
  qed
qed

text \<open>Inserting the new entry at the head of its chain.\<close>

lemma link_newest:
  assumes l: "links_ok st n" and w: "w = slot n" and h: "0 \<le> h" "h < HASHMAX"
    and free: "\<forall>p. 0 \<le> p \<and> p < WINSIZE \<longrightarrow> w_next st p \<noteq> w" "\<forall>h. 0 \<le> h \<and> h < HASHMAX \<longrightarrow> h_first st h \<noteq> w"
    and off: "off = h_first st h"
    and nxt: "w_next st' = (w_next st)(w := off)" and hash: "w_hashval st' = (w_hashval st)(w := h)"
    and first: "h_first st' = (h_first st)(h := w)"
    and prev: "w_prev st' = (if off \<noteq> INVALID then ((w_prev st)(w := INVALID))(off := w) else (w_prev st)(w := INVALID))"
  shows "links_ok st' (Suc n)"
proof -
  have w_range: "0 \<le> w" "w < WINSIZE" "w \<noteq> INVALID" using w by (simp_all add: not_INVALID)
  have old: "age (Suc n) p = age n p + 1" "written (Suc n) p" if "written n p" "p \<noteq> w" for p
    using that age_Suc [of p n] written_range [OF that(1)] w written_Suc by auto
  have new: "age (Suc n) w = 0" "written (Suc n) w" using age_Suc [of w n] w_range w written_slot by auto
  have off_ok: "written n off \<and> w_prev st off = INVALID \<and> w_hashval st off = h \<and> off \<noteq> w" if "off \<noteq> INVALID"
    using links_first [OF l h] that free(2) h off by simp
  have "w_next st' p = INVALID \<or> written (Suc n) p \<and> written (Suc n) (w_next st' p) \<and>
      age (Suc n) p < age (Suc n) (w_next st' p) \<and> w_prev st' (w_next st' p) = p" if p: "0 \<le> p" "p < WINSIZE" for p
  proof (cases "p = w")
    case True
    show ?thesis
    proof (cases "off = INVALID")
      case False
      then show ?thesis using True new old [of off] off_ok [OF False] by (simp add: nxt prev)
    qed (simp add: True nxt)
  next
    case False
    show ?thesis
    proof (cases "w_next st p = INVALID")
      case ok: False
      note n = links_next [OF l p ok]
      have "w_next st p \<noteq> w" using free(1) p by blast
      moreover have "w_next st p \<noteq> off" if "off \<noteq> INVALID"
        using n off_ok [OF that] not_INVALID [OF p(1)] by auto
      then have "w_prev st' (w_next st p) = p" using n \<open>w_next st p \<noteq> w\<close> by (auto simp: prev)
      ultimately show ?thesis using n False old [of p] old [of "w_next st p"] by (simp add: nxt)
    qed (simp add: False nxt)
  qed
  moreover have "h_first st' k = INVALID \<or>
      written (Suc n) (h_first st' k) \<and> w_prev st' (h_first st' k) = INVALID \<and> w_hashval st' (h_first st' k) = k"
    if k: "0 \<le> k" "k < HASHMAX" for k
  proof (cases "k = h")
    case True
    have "w_prev st' w = INVALID" using off_ok by (auto simp: prev)
    then show ?thesis using True new by (simp add: first hash)
  next
    case False
    show ?thesis
    proof (cases "h_first st k = INVALID")
      case ok: False
      note f = links_first [OF l k ok]
      have "h_first st k \<noteq> w" using free(2) k by blast
      moreover have "h_first st k \<noteq> off" if "off \<noteq> INVALID" using f off_ok [OF that] False by auto
      then have "w_prev st' (h_first st k) = INVALID" using f \<open>h_first st k \<noteq> w\<close> by (auto simp: prev)
      ultimately show ?thesis using f False old [of "h_first st k"] by (simp add: first hash)
    qed (simp add: False first)
  qed
  moreover have "w_prev st' p = INVALID \<or> 0 \<le> w_prev st' p \<and> w_prev st' p < WINSIZE" if p: "0 \<le> p" "p < WINSIZE" for p
    using links_prev [OF l p] w_range by (auto simp: prev)
  moreover have "w_hashval st' p = INVALID \<or> 0 \<le> w_hashval st' p \<and> w_hashval st' p < HASHMAX" if p: "0 \<le> p" "p < WINSIZE" for p
    using links_hashval [OF l p] h by (auto simp: hash)
  ultimately show ?thesis unfolding links_ok_def by blast
qed

lemma slot_inj: "slot t = slot n \<Longrightarrow> t < n \<Longrightarrow> int n < int t + WINSIZE \<Longrightarrow> False"
proof -
  assume e: "slot t = slot n" and b: "t < n" "int n < int t + WINSIZE"
  have "WINSIZE dvd int n - int t" using e [symmetric] unfolding slot_def mod_eq_dvd_iff .
  then have "WINSIZE \<le> int n - int t" by (rule zdvd_imp_le) (use b in simp)
  then show False using b by simp
qed

lemma slot_Suc: "(slot n + 1) AND (WINSIZE - 1) = slot (Suc n)"
  by (simp add: and_window slot_def mod_add_left_eq mod_add_right_eq add.commute)

lemma lz77_advance_ok:
  assumes "lz_ok st h" "0 \<le> hash" "hash < HASHMAX"
  obtains st' where "lz77_advance st c hash = Some st'" "lz_ok st' (h @ [c])" "pending st' = pending st"
proof -
  define n where "n = length h"
  define w where "w = slot n"
  have d: "winpos st = w" "\<forall>t < n. int n \<le> int t + WINSIZE \<longrightarrow> w_data st (slot t) = h ! t" and l: "links_ok st n"
    using assms(1) by (auto simp: lz_ok_def data_ok_def n_def w_def)
  have w: "0 \<le> w" "w < WINSIZE" by (simp_all add: w_def)
  obtain st1 where st1: "(if w_prev st w \<noteq> INVALID then map_option (\<lambda>f. st\<lparr>w_next := f\<rparr>) (wr WINSIZE (w_next st) (w_prev st w) INVALID)
      else if w_hashval st w \<noteq> INVALID then map_option (\<lambda>f. st\<lparr>h_first := f\<rparr>) (wr HASHMAX (h_first st) (w_hashval st w) INVALID)
      else Some st) = Some st1"
    "links_ok st1 n" "\<forall>p. 0 \<le> p \<and> p < WINSIZE \<longrightarrow> w_next st1 p \<noteq> w" "\<forall>h. 0 \<le> h \<and> h < HASHMAX \<longrightarrow> h_first st1 h \<noteq> w"
    "w_data st1 = w_data st" "winpos st1 = winpos st" "pending st1 = pending st"
    by (rule unlink_oldest [OF l w_def])
  define off where "off = h_first st1 hash"
  define st2 where "st2 = st1\<lparr>w_hashval := (w_hashval st1)(w := hash),
    w_prev := (if off \<noteq> INVALID then ((w_prev st1)(w := INVALID))(off := w) else (w_prev st1)(w := INVALID)),
    w_next := (w_next st1)(w := off), h_first := (h_first st1)(hash := w), w_data := (w_data st)(w := c), winpos := slot (Suc n)\<rparr>"
  have l2: "links_ok st2 (Suc n)"
    by (rule link_newest [OF st1(2) w_def assms(2,3) st1(3,4) off_def]) (simp_all add: st2_def)
  have off: "0 \<le> off \<and> off < WINSIZE" if "off \<noteq> INVALID"
    using links_first [OF st1(2) assms(2,3)] that written_range [of n off] by (simp add: off_def)
  have "lz77_advance st c hash = Some st2"
    using st1(1,5-7) off assms(2,3) w d(1)
    by (simp add: lz77_advance_def Let_def rd_def wr_def off_def [symmetric] st2_def slot_Suc [folded w_def] split del: if_split)
      (auto simp: st2_def slot_Suc w_def wr_def off_def)
  moreover have "data_ok st2 (h @ [c])"
  proof -
    have "w_data st2 (slot t) = (h @ [c]) ! t" if t: "t < Suc n" "int (Suc n) \<le> int t + WINSIZE" for t
    proof (cases "t = n")
      case False
      then have "slot t \<noteq> w" using slot_inj [of t n] t by (auto simp: w_def)
      then show ?thesis using False t d(2) by (simp add: st2_def nth_append n_def)
    qed (simp add: st2_def w_def n_def)
    then show ?thesis by (auto simp: data_ok_def n_def st2_def)
  qed
  ultimately show thesis using that l2 st1(7) by (simp add: lz_ok_def n_def st2_def)
qed

section \<open>Matches\<close>

text \<open>In the stream \<open>x\<close>, the \<open>len\<close> characters from position \<open>q\<close> repeat those \<open>d\<close> earlier, inside the window.\<close>

definition repeats :: "8 word list \<Rightarrow> nat \<Rightarrow> int \<Rightarrow> nat \<Rightarrow> bool" where
  "repeats x q d len \<longleftrightarrow> 1 \<le> d \<and> d \<le> int q \<and> d \<le> WINSIZE \<and> q + len \<le> length x \<and> (\<forall>j < len. x ! (q + j) = x ! (q + j - nat d))"

lemma repeats_Suc:
  "repeats x q d (Suc n) \<longleftrightarrow> repeats x q d n \<and> q + n < length x \<and> x ! (q + n) = x ! (q + n - nat d)"
  by (auto simp: repeats_def less_Suc_eq)

lemma neg_window [simp]: "- WINSIZE \<le> int i"
  by (rule order_trans [of _ 0]) simp_all

lemma charat_ok:
  assumes "lz_ok st h" "- int (length h) \<le> k" "- WINSIZE \<le> k" "k < int (length data)"
  shows "charat st data k = Some ((h @ data) ! nat (int (length h) + k))"
proof (cases "k < 0")
  case True
  define t where "t = nat (int (length h) + k)"
  have t: "int t = int (length h) + k" "t < length h" "int (length h) \<le> int t + WINSIZE"
    using True assms(2,3) by (simp_all add: t_def nat_less_iff)
  have "(winpos st + k) AND (WINSIZE - 1) = slot t"
    using assms(1) t(1) by (simp add: lz_ok_def data_ok_def and_window slot_def mod_add_left_eq)
  then have "charat st data k = Some (w_data st (slot t))" using True by (simp add: charat_def)
  also have "w_data st (slot t) = h ! t" using assms(1) t(2,3) by (simp add: lz_ok_def data_ok_def)
  finally show ?thesis using t(2) by (simp add: t_def nth_append)
next
  case False
  then have "nat (int (length h) + k) = length h + nat k" by simp
  then show ?thesis using False assms(4) by (simp add: charat_def nth_opt_def nth_append)
qed

lemma same_chars_ok:
  assumes "lz_ok st h" "1 \<le> d" "d \<le> int (length h)" "d \<le> WINSIZE"
  shows "i + m \<le> length data \<Longrightarrow> same_chars st data d (int i) m =
    Some (\<forall>j < m. (h @ data) ! (length h + i + j) = (h @ data) ! (length h + i + j - nat d))"
proof (induction m arbitrary: i)
  case (Suc m)
  have a: "charat st data (int i) = Some ((h @ data) ! (length h + i))"
    using charat_ok [OF assms(1), of "int i" data] Suc.prems by (simp add: nat_add_distrib)
  have "nat (int (length h) + (int i - d)) = length h + i - nat d" using assms(2,3) by linarith
  then have b: "charat st data (int i - d) = Some ((h @ data) ! (length h + i - nat d))"
    using charat_ok [OF assms(1), of "int i - d" data] Suc.prems assms(2-4) by simp
  have split: "(\<forall>j < Suc m. P j) \<longleftrightarrow> P 0 \<and> (\<forall>j < m. P (Suc j))" for P by (simp add: All_less_Suc2)
  show ?case
    using Suc.IH [of "Suc i"] Suc.prems by (simp add: a b split add.commute)
qed simp

lemma distance_age:
  assumes "winpos st = slot n" "written n off"
  shows "WINSIZE - (off + WINSIZE - winpos st) mod WINSIZE = age n off + 1"
proof -
  have "(off + WINSIZE - slot n) mod WINSIZE = (off - int n) mod WINSIZE"
    unfolding slot_def by (metis add.commute add_diff_eq mod_add_self1 mod_diff_right_eq)
  also have "\<dots> = WINSIZE - 1 - age n off"
  proof -
    have "(off - int n) mod WINSIZE = (WINSIZE - 1 - age n off) mod WINSIZE"
    proof -
      have "(WINSIZE - 1 - age n off) mod WINSIZE = (WINSIZE - 1 - (int n - 1 - off)) mod WINSIZE"
        unfolding age_def by (rule mod_diff_right_eq)
      also have "WINSIZE - 1 - (int n - 1 - off) = WINSIZE + (off - int n)" by simp
      finally show ?thesis by simp
    qed
    also have "\<dots> = WINSIZE - 1 - age n off" by (rule mod_pos_pos_trivial) (use age_range [of n off] in linarith)+
    finally show ?thesis .
  qed
  finally show ?thesis using assms(1) by simp
qed

lemma find_matches_ok:
  assumes ok: "lz_ok st h" and len: "3 \<le> length data"
  shows "off = INVALID \<or> written (length h) off \<Longrightarrow> \<forall>d \<in> set ms. repeats (h @ data) (length h) d 3 \<Longrightarrow>
    \<exists>ms'. find_matches st data off ms = Some ms' \<and> (\<forall>d \<in> set ms'. repeats (h @ data) (length h) d 3)"
proof (induction "nat (WINSIZE - age (length h) off)" arbitrary: off ms rule: less_induct)
  case less
  define n where "n = length h"
  show ?case
  proof (cases "off = INVALID")
    case True
    then show ?thesis using less.prems(2) by (subst find_matches.simps) simp
  next
    case False
    then have w: "written n off" using less.prems(1) by (simp add: n_def)
    define d where "d = age n off + 1"
    have wp: "winpos st = slot n" and l: "links_ok st n" using ok by (auto simp: lz_ok_def data_ok_def n_def)
    have dist: "WINSIZE - (off + WINSIZE - winpos st) mod WINSIZE = d" using distance_age [OF wp w] by (simp add: d_def)
    have dr: "1 \<le> d" "d \<le> int n" "d \<le> WINSIZE"
      unfolding d_def using written_age [OF w] age_range [of n off] by linarith+
    have same: "same_chars st data d 0 HASHCHARS = Some (repeats (h @ data) n d 3)"
      using same_chars_ok [OF ok dr(1) _ dr(3), of 0 3 data] dr len by (simp add: HASHCHARS_def repeats_def n_def)
    define ms1 where "ms1 = (if repeats (h @ data) n d 3 then ms @ [d] else ms)"
    have ms1: "\<forall>d \<in> set ms1. repeats (h @ data) n d 3" using less.prems(2) by (auto simp: ms1_def n_def)
    define off' where "off' = w_next st off"
    have rd: "rd WINSIZE (w_next st) off = Some off'" using w by (simp add: rd_def written_def off'_def)
    have off': "off' = INVALID \<or> written n off' \<and> age n off < age n off'"
      using links_next [OF l, of off] w by (auto simp: off'_def written_def)
    have step: "find_matches st data off ms =
      (if repeats (h @ data) n d 3 \<and> MAXMATCH \<le> length ms1 then Some ms1 else find_matches st data off' ms1)"
      using False by (subst find_matches.simps) (simp add: dist same rd ms1_def)
    show ?thesis
    proof (cases "off' = INVALID")
      case True
      have "find_matches st data off' ms1 = Some ms1" by (subst find_matches.simps) (simp add: True)
      then show ?thesis using step ms1 by (simp add: n_def)
    next
      case f: False
      then have "nat (WINSIZE - age (length h) off') < nat (WINSIZE - age (length h) off)"
        using off' age_range(2) [of n off'] by (simp add: n_def)
      from less.hyps [OF this] ms1 off' show ?thesis unfolding step by (auto simp: n_def)
    qed
  qed
qed

lemma going_on_ok:
  assumes "lz_ok st h" "m < length data"
  shows "\<forall>d \<in> set ms. repeats (h @ data) (length h) d m \<Longrightarrow>
    going_on st data (int m) ms = Some (filter (\<lambda>d. repeats (h @ data) (length h) d (Suc m)) ms)"
proof (induction ms)
  case (Cons d ms)
  then have r: "repeats (h @ data) (length h) d m" by simp
  then have d: "1 \<le> d" "d \<le> int (length h)" "d \<le> WINSIZE" by (simp_all add: repeats_def)
  have a: "charat st data (int m) = Some ((h @ data) ! (length h + m))"
    using charat_ok [OF assms(1), of "int m" data] assms(2) by (simp add: nat_add_distrib)
  have "nat (int (length h) + (int m - d)) = length h + m - nat d" using d by linarith
  then have b: "charat st data (int m - d) = Some ((h @ data) ! (length h + m - nat d))"
    using charat_ok [OF assms(1), of "int m - d" data] assms(2) d by simp
  show ?case using Cons r assms(2) by (simp add: a b repeats_Suc)
qed simp

lemma follow_ok:
  assumes "lz_ok st h"
  shows "ms \<noteq> [] \<Longrightarrow> \<forall>d \<in> set ms. repeats (h @ data) (length h) d m \<Longrightarrow> m \<le> length data \<Longrightarrow>
    \<exists>m' ms'. follow st data (int m) ms = Some (int m', ms') \<and> ms' \<noteq> [] \<and> m \<le> m' \<and> (\<forall>d \<in> set ms'. repeats (h @ data) (length h) d m')"
proof (induction "length data - m" arbitrary: m ms rule: less_induct)
  case less
  show ?case
  proof (cases "m < length data")
    case True
    define ms1 where "ms1 = filter (\<lambda>d. repeats (h @ data) (length h) d (Suc m)) ms"
    have g: "going_on st data (int m) ms = Some ms1"
      unfolding ms1_def by (rule going_on_ok [OF assms True less.prems(2)])
    have step: "follow st data (int m) ms = (if ms1 = [] then Some (int m, ms) else follow st data (int (Suc m)) ms1)"
      using True g by (subst follow.simps) (simp add: add.commute)
    show ?thesis
    proof (cases "ms1 = []")
      case False
      have "length data - Suc m < length data - m" "Suc m \<le> length data" using True by simp_all
      moreover have "\<forall>d \<in> set ms1. repeats (h @ data) (length h) d (Suc m)" by (simp add: ms1_def)
      ultimately obtain m' ms' where "follow st data (int (Suc m)) ms1 = Some (int m', ms')" "ms' \<noteq> []" "Suc m \<le> m'"
        "\<forall>d \<in> set ms'. repeats (h @ data) (length h) d m'" using less.hyps [of "Suc m" ms1] False by blast
      then show ?thesis unfolding step using False by (intro exI [of _ m'] exI [of _ ms']) simp
    qed (use step less.prems in auto)
  qed (use less.prems in \<open>subst follow.simps; auto\<close>)
qed

section \<open>What tokens stand for\<close>

text \<open>The decoder of RFC 1951: a literal is a byte, a match copies from what has been decoded so far.\<close>

primrec copy_back :: "nat \<Rightarrow> nat \<Rightarrow> 8 word list \<Rightarrow> 8 word list" where
  "copy_back 0 d h = h"
| "copy_back (Suc n) d h = copy_back n d (h @ [h ! (length h - d)])"

fun expand_token :: "token \<Rightarrow> 8 word list \<Rightarrow> 8 word list option" where
  "expand_token (Literal c) h = Some (h @ [c])"
| "expand_token (Match d n) h =
     (if 1 \<le> d \<and> d \<le> int (length h) \<and> d \<le> WINSIZE \<and> 3 \<le> n then Some (copy_back (nat n) (nat d) h) else None)"

primrec expand :: "token list \<Rightarrow> 8 word list \<Rightarrow> 8 word list option" where
  "expand [] h = Some h"
| "expand (t # ts) h = expand_token t h \<bind> expand ts"

lemma expand_append: "expand (ts @ us) h = expand ts h \<bind> expand us"
  by (induction ts arbitrary: h) (auto split: bind_splits)

lemma copy_back_repeats: "repeats x q d n \<Longrightarrow> copy_back n (nat d) (take q x) = take (q + n) x"
proof (induction n arbitrary: q)
  case (Suc n)
  have q: "q < length x" "x ! q = x ! (q - nat d)" "nat d \<le> q" "nat d > 0"
    using Suc.prems by (auto simp: repeats_def)
  have "repeats x (Suc q) d n"
    using Suc.prems by (auto simp: repeats_def)
  then have "copy_back n (nat d) (take (Suc q) x) = take (Suc q + n) x" by (rule Suc.IH)
  moreover have "take q x @ [take q x ! (length (take q x) - nat d)] = take (Suc q) x"
    using q by (simp add: take_Suc_conv_app_nth)
  ultimately show ?case by simp
qed simp

lemma expand_match:
  assumes "repeats x q d n" "3 \<le> n"
  shows "expand_token (Match d (int n)) (take q x) = Some (take (q + n) x)"
proof -
  have "d \<le> int (length (take q x))" using assms(1) by (simp add: repeats_def)
  then show ?thesis using assms copy_back_repeats [OF assms(1)] by (simp add: repeats_def)
qed

lemma expand_literal: "q < length x \<Longrightarrow> expand_token (Literal (x ! q)) (take q x) = Some (take (Suc q) x)"
  by (simp add: take_Suc_conv_app_nth)

section \<open>The main loop\<close>

lemma lz77_hash_ok:
  assumes "3 \<le> length data"
  obtains hash where "lz77_hash data = Some hash" "0 \<le> hash" "hash < HASHMAX"
proof -
  obtain a b c r where "data = a # b # c # r" using assms by (auto simp: numeral_eq_Suc Suc_le_length_iff)
  then show thesis using that by (simp add: HASHMAX_def)
qed

text \<open>Bytes are pending only when fewer than three are in hand.\<close>

definition pending_ok :: "lz77 \<Rightarrow> nat \<Rightarrow> bool" where
  "pending_ok st n \<longleftrightarrow> pending st = [] \<or> length (pending st) + n < 3"

lemma flush_pending_ok:
  assumes "lz_ok st h"
  shows "\<exists>st' h'. flush_pending st ps data = Some st' \<and> lz_ok st' h' \<and> h' @ pending st' = h @ ps \<and> pending_ok st' (length data)"
  using assms
proof (induction ps arbitrary: st h)
  case Nil
  then show ?case by (auto simp: lz_ok_def data_ok_def links_ok_def pending_ok_def)
next
  case (Cons p ps)
  show ?case
  proof (cases "length data + length (p # ps) < HASHCHARS")
    case True
    then show ?thesis using Cons.prems
      by (auto simp: lz_ok_def data_ok_def links_ok_def pending_ok_def HASHCHARS_def)
  next
    case False
    then have "3 \<le> length (p # ps @ data)" by (simp add: HASHCHARS_def)
    then obtain hash where hash: "lz77_hash (p # ps @ data) = Some hash" "0 \<le> hash" "hash < HASHMAX" by (rule lz77_hash_ok)
    obtain st1 where st1: "lz77_advance st p hash = Some st1" "lz_ok st1 (h @ [p])"
      by (rule lz77_advance_ok [OF Cons.prems hash(2,3)])
    from Cons.IH [OF st1(2)] show ?thesis using False hash(1) st1(1) by simp
  qed
qed

lemma advance_by_ok:
  assumes "lz_ok st h" "pending_ok st (length data)" "k \<le> length data"
  shows "\<exists>st' h'. advance_by k st data = Some (st', drop k data) \<and> lz_ok st' h' \<and> h' @ pending st' = h @ pending st @ take k data \<and>
    pending_ok st' (length data - k)"
  using assms
proof (induction k arbitrary: st h data)
  case (Suc k)
  then obtain c rest where data: "data = c # rest" by (cases data) auto
  show ?case
  proof (cases "HASHCHARS \<le> length data")
    case True
    then have 3: "3 \<le> length data" by (simp add: HASHCHARS_def)
    then obtain hash where hash: "lz77_hash data = Some hash" "0 \<le> hash" "hash < HASHMAX" by (rule lz77_hash_ok)
    obtain st1 where st1: "lz77_advance st c hash = Some st1" "lz_ok st1 (h @ [c])" "pending st1 = pending st"
      by (rule lz77_advance_ok [OF Suc.prems(1) hash(2,3)])
    have "pending st = []" using Suc.prems(2) 3 by (auto simp: pending_ok_def)
    then show ?thesis using Suc.IH [OF st1(2), of rest] Suc.prems(3) True hash(1) st1(1,3) data by (simp add: pending_ok_def)
  next
    case False
    then have 3: "length data < 3" by (simp add: HASHCHARS_def)
    define st1 where "st1 = st\<lparr>pending := pending st @ [c]\<rparr>"
    have "length (pending st) < HASHCHARS" using Suc.prems(2) data by (auto simp: pending_ok_def HASHCHARS_def)
    moreover have "lz_ok st1 h" using Suc.prems(1) by (simp add: st1_def lz_ok_def data_ok_def links_ok_def)
    moreover have "pending_ok st1 (length rest)" using Suc.prems(2) data 3 by (auto simp: pending_ok_def st1_def)
    ultimately show ?thesis using Suc.IH [of st1 h rest] Suc.prems(3) False data by (simp add: st1_def)
  qed
qed auto

text \<open>What is known of a deferred match at position \<open>q - 1\<close>.\<close>

definition deferred :: "8 word list \<Rightarrow> nat \<Rightarrow> int \<times> int \<Rightarrow> 8 word \<Rightarrow> bool" where
  "deferred x q dm c \<longleftrightarrow> 1 \<le> q \<and> 3 \<le> snd dm \<and> repeats x (q - 1) (fst dm) (nat (snd dm)) \<and> c = x ! (q - 1)"

lemma decide_ok:
  assumes "q < length x" "0 < snd dm \<longrightarrow> deferred x q dm dc" "snd dm \<le> 0 \<longrightarrow> snd dm = 0"
    "ms \<noteq> [] \<longrightarrow> 3 \<le> m \<and> repeats x q (hd ms) m"
    "expand out s = Some (take (if 0 < snd dm then q - 1 else q) x)"
  obtains toks dm' dc' k where "decide ms (int m) dm dc (x ! q) = (toks, dm', dc', int k)" "1 \<le> k" "q + k \<le> length x"
    "0 < snd dm' \<longrightarrow> deferred x (q + k) dm' dc'" "snd dm' \<le> 0 \<longrightarrow> snd dm' = 0"
    "expand (out @ toks) s = Some (take (if 0 < snd dm' then q + k - 1 else q + k) x)"
proof -
  note fin = that
  have emit: thesis if "0 < snd dm" "decide ms (int m) dm dc (x ! q) = ([Match (fst dm) (snd dm)], (fst dm, 0), dc, snd dm - 1)"
  proof -
    define n where "n = nat (snd dm)"
    have d: "1 \<le> q" "3 \<le> n" "snd dm = int n" "repeats x (q - 1) (fst dm) n"
      using assms(2) that(1) by (auto simp: deferred_def n_def)
    have "expand_token (Match (fst dm) (snd dm)) (take (q - 1) x) = Some (take (q - 1 + n) x)"
      unfolding d(3) by (rule expand_match [OF d(4,2)])
    then have "expand (out @ [Match (fst dm) (snd dm)]) s = Some (take (q + (n - 1)) x)"
      using assms(5) that(1) d(1,2) by (simp add: expand_append)
    moreover have "q + (n - 1) \<le> length x" using d by (simp add: repeats_def)
    moreover have "snd dm - 1 = int (n - 1)" using d by simp
    ultimately show thesis
      using that(2) d(2) by (intro fin [of "[Match (fst dm) (snd dm)]" "(fst dm, 0)" dc "n - 1"]) simp_all
  qed
  show thesis
  proof (cases "ms = []")
    case True
    show thesis
    proof (cases "0 < snd dm")
      case True
      then show thesis using emit \<open>ms = []\<close> by (simp add: decide_def)
    next
      case False
      have "expand (out @ [Literal (x ! q)]) s = Some (take (q + 1) x)"
        using assms(1,5) False expand_literal [of q x] by (simp add: expand_append)
      then show thesis using that [of "[Literal (x ! q)]" dm dc 1] True False assms(1,3) by (simp add: decide_def)
    qed
  next
    case ms: False
    then have r: "3 \<le> m" "repeats x q (hd ms) m" using assms(4) by auto
    have d: "deferred x (q + 1) (hd ms, int m) (x ! q)" using r by (simp add: deferred_def)
    show thesis
    proof (cases "0 < snd dm")
      case False
      then show thesis using that [of "[]" "(hd ms, int m)" "x ! q" 1] ms d r assms(1,5) by (simp add: decide_def)
    next
      case True
      then have dq: "1 \<le> q" "dc = x ! (q - 1)" using assms(2) by (auto simp: deferred_def)
      show thesis
      proof (cases "int m > snd dm + 1")
        case True
        have "expand (out @ [Literal dc]) s = Some (take q x)"
          using assms(1,5) \<open>0 < snd dm\<close> dq expand_literal [of "q - 1" x] by (simp add: expand_append)
        then show thesis
          using that [of "[Literal dc]" "(hd ms, int m)" "x ! q" 1] ms d r assms(1) True \<open>0 < snd dm\<close> by (simp add: decide_def)
      next
        case False
        then show thesis using emit [OF \<open>0 < snd dm\<close>] ms \<open>0 < snd dm\<close> by (simp add: decide_def)
      qed
    qed
  qed
qed

lemma lz77_loop_ok:
  assumes "lz_ok st h" "pending_ok st (length x - q)" "h @ pending st = take q x" "q \<le> length x"
    "0 < snd dm \<longrightarrow> deferred x q dm dc" "snd dm \<le> 0 \<longrightarrow> snd dm = 0"
    "expand out s = Some (take (if 0 < snd dm then q - 1 else q) x)"
  shows "\<exists>st' h' toks. lz77_loop st (drop q x) dm dc out = Some (st', toks) \<and> lz_ok st' h' \<and> h' @ pending st' = x \<and>
    length (pending st') \<le> 2 \<and> expand toks s = Some x"
  using assms
proof (induction "length x - q" arbitrary: st h q dm dc out rule: less_induct)
  case less
  show ?case
  proof (cases "q = length x")
    case True
    have "\<not> 0 < snd dm"
    proof
      assume "0 < snd dm"
      then have "1 \<le> q" "3 \<le> snd dm" "q - 1 + nat (snd dm) \<le> length x"
        using less.prems(5) by (auto simp: deferred_def repeats_def)
      then show False using True by simp
    qed
    moreover have "length (pending st) \<le> 2" using less.prems(2) True by (auto simp: pending_ok_def)
    ultimately show ?thesis using less.prems True by (subst lz77_loop.simps) auto
  next
    case False
    then have q: "q < length x" "drop q x \<noteq> []" "hd (drop q x) = x ! q" using less.prems(4) by (simp_all add: hd_drop_conv_nth)
    define data where "data = drop q x"
    have dl: "length data = length x - q" by (simp add: data_def)
    have window: "h = take q x" "h @ data = x" "length h = q" if "3 \<le> length data"
    proof -
      have "pending st = []" using less.prems(2) that dl by (auto simp: pending_ok_def)
      then show "h = take q x" using less.prems(3) by simp
      then show "h @ data = x" "length h = q" using q by (simp_all add: data_def)
    qed
    obtain ms where ms: "(if HASHCHARS \<le> length data then do {
                      hash \<leftarrow> lz77_hash data;
                      first \<leftarrow> rd HASHMAX (h_first st) hash;
                      find_matches st data first []
                    } else Some []) = Some ms" "\<forall>d \<in> set ms. repeats x q d 3" "ms \<noteq> [] \<longrightarrow> 3 \<le> length data"
    proof (cases "HASHCHARS \<le> length data")
      case True
      then have 3: "3 \<le> length data" by (simp add: HASHCHARS_def)
      then obtain hash where hash: "lz77_hash data = Some hash" "0 \<le> hash" "hash < HASHMAX" by (rule lz77_hash_ok)
      have "links_ok st (length h)" using less.prems(1) by (simp add: lz_ok_def)
      then have "h_first st hash = INVALID \<or> written (length h) (h_first st hash)" using links_first hash(2,3) by blast
      from find_matches_ok [OF less.prems(1) 3 this, of "[]"] obtain ms where
        "find_matches st data (h_first st hash) [] = Some ms" "\<forall>d \<in> set ms. repeats (h @ data) (length h) d 3" by auto
      then show thesis using that [of ms] True hash window [OF 3] 3 by (simp add: rd_def)
    qed (use that [of "[]"] in auto)
    obtain m ms' where follow: "(if ms \<noteq> [] then follow st data (int HASHCHARS) ms else Some (0, [])) = Some (int m, ms')"
      "ms' \<noteq> [] \<longrightarrow> 3 \<le> m \<and> repeats x q (hd ms') m"
    proof (cases "ms = []")
      case True
      then show thesis using that [of 0 "[]"] by simp
    next
      case False
      then have 3: "3 \<le> length data" using ms(3) by simp
      obtain m ms' where "follow st data (int 3) ms = Some (int m, ms')" "ms' \<noteq> []" "3 \<le> m" "\<forall>d \<in> set ms'. repeats x q d m"
        using follow_ok [OF less.prems(1) False, of data 3] ms(2) 3 window [OF 3] by auto
      then show thesis using that [of m ms'] False by (simp add: HASHCHARS_def)
    qed
    obtain toks dm' dc' k where dec: "decide ms' (int m) dm dc (x ! q) = (toks, dm', dc', int k)" "1 \<le> k" "q + k \<le> length x"
      "0 < snd dm' \<longrightarrow> deferred x (q + k) dm' dc'" "snd dm' \<le> 0 \<longrightarrow> snd dm' = 0"
      "expand (out @ toks) s = Some (take (if 0 < snd dm' then q + k - 1 else q + k) x)"
      by (rule decide_ok [OF q(1) less.prems(5,6) follow(2) less.prems(7)])
    have "k \<le> length data" using dec(3) dl by simp
    from advance_by_ok [OF less.prems(1) _ this] less.prems(2) dl obtain st1 h1 where
      adv: "advance_by k st data = Some (st1, drop k data)" "lz_ok st1 h1" "h1 @ pending st1 = h @ pending st @ take k data"
      "pending_ok st1 (length x - (q + k))" by auto
    have "h1 @ pending st1 = take (q + k) x"
      using adv(3) less.prems(3) by (simp add: data_def take_add flip: append_assoc)
    moreover have "length x - (q + k) < length x - q" using dec(2) q(1) by simp
    ultimately have IH: "\<exists>st' h' toks'. lz77_loop st1 (drop (q + k) x) dm' dc' (out @ toks) = Some (st', toks') \<and> lz_ok st' h' \<and>
        h' @ pending st' = x \<and> length (pending st') \<le> 2 \<and> expand toks' s = Some x"
      using less.hyps [of "q + k" st1 h1 dm' dc' "out @ toks"] adv(2,4) dec(3-6) by blast
    have "lz77_loop st data dm dc out = lz77_loop st1 (drop (q + k) x) dm' dc' (out @ toks)"
      using q(2,3) ms(1) follow(1) dec(1) adv(1)
      by (subst lz77_loop.simps) (simp add: data_def [symmetric] data_def [THEN arg_cong, of hd, symmetric] add.commute Let_def, simp add: data_def add.commute)
    then show ?thesis using IH by (simp add: data_def)
  qed
qed

text \<open>LZ77. Whatever the compressor has been fed before, \<open>lz77_compress\<close> returns without an access outside its arrays or a failed
  assertion, and the tokens it emits stand for exactly the data, decoded after everything that came before.\<close>

theorem lz77_compress_expands:
  assumes "lz_ok st h" "length (pending st) \<le> 2"
  shows "\<exists>st' h' toks. lz77_compress st data = Some (st', toks) \<and> lz_ok st' h' \<and> length (pending st') \<le> 2 \<and>
    h' @ pending st' = h @ pending st @ data \<and> expand toks (h @ pending st) = Some (h @ pending st @ data)"
proof -
  define x where "x = h @ pending st @ data"
  define q where "q = length (h @ pending st)"
  obtain st1 h1 where st1: "flush_pending st (pending st) data = Some st1" "lz_ok st1 h1" "h1 @ pending st1 = h @ pending st"
    "pending_ok st1 (length data)" using flush_pending_ok [OF assms(1)] by blast
  have "length x - q = length data" "drop q x = data" "take q x = h @ pending st" "q \<le> length x"
    by (simp_all add: x_def q_def)
  then obtain st' h' toks where "lz77_loop st1 data (0, 0) 0 [] = Some (st', toks)" "lz_ok st' h'" "h' @ pending st' = x"
    "length (pending st') \<le> 2" "expand toks (h @ pending st) = Some x"
    using lz77_loop_ok [OF st1(2), of x q "(0, 0)" 0 "[]" "h @ pending st"] st1(3,4) by auto
  moreover from this have "lz77_compress st data = Some (st', toks)"
    using assms(2) st1(1) by (simp add: lz77_compress_def HASHCHARS_def)
  ultimately show ?thesis unfolding x_def by blast
qed

lemma lz77_compress_expands_witness:
  "\<exists>st' toks. lz77_compress (lz77_init (\<lambda>_. 0)) [97, 98, 97, 98, 97, 98, 97] = Some (st', toks) \<and>
    expand toks [] = Some [97, 98, 97, 98, 97, 98, 97]"
  using lz77_compress_expands [OF lz77_init_ok(1) [of "\<lambda>_. 0"], of "[97, 98, 97, 98, 97, 98, 97]"] by (auto simp: lz77_init_ok(2))

lemma ex_lz77: "map_option snd (lz77_compress (lz77_init (\<lambda>_. 0)) [97, 98, 97, 98, 97, 98, 97]) = Some [Literal 97, Literal 98, Match 2 5]"
  by code_simp

end
