(* ===== verification/Deflate.thy ===== *)
theory Deflate
  imports Lz77
begin

text \<open>
  The compressor of \<open>putty-src/sshzlib.c\<close>: LZ77 tokens as Deflate blocks with the static Huffman trees.
  \<open>unsigned long\<close> is 32 bits (Windows); where it is wider it holds the same values, because
  \<open>outbits\<close> asserts that at most 32 bits are in hand. The bytes put into the \<open>strbuf\<close> are a list.
\<close>

unbundle bit_operations_syntax

record Outbuf =
  outbuf :: "8 word list"
  ob_bits :: "32 word"
  ob_nbits :: int
  firstblock :: bool

text \<open>The loop of \<open>outbits\<close> that takes out whole bytes.\<close>

function put_bytes :: "Outbuf \<Rightarrow> Outbuf" where
  "put_bytes out =
     (if 8 \<le> ob_nbits out
      then put_bytes (out\<lparr>outbuf := outbuf out @ [ucast (ob_bits out AND 0xFF)], ob_bits := drop_bit 8 (ob_bits out), ob_nbits := ob_nbits out - 8\<rparr>)
      else out)"
  by auto
termination by (relation "measure (\<lambda>out. nat (ob_nbits out))") auto

declare put_bytes.simps [simp del]

definition outbits :: "Outbuf \<Rightarrow> 32 word \<Rightarrow> int \<Rightarrow> Outbuf option" where
  "outbits out bits nbits =
     (if ob_nbits out + nbits \<le> 32
      then Some (put_bytes (out\<lparr>ob_bits := ob_bits out OR push_bit (nat (ob_nbits out)) bits, ob_nbits := ob_nbits out + nbits\<rparr>))
      else None)"

definition mirrorbytes :: "8 word list" where
  "mirrorbytes = [
     0x00, 0x80, 0x40, 0xC0, 0x20, 0xA0, 0x60, 0xE0, 0x10, 0x90, 0x50, 0xD0, 0x30, 0xB0, 0x70, 0xF0,
     0x08, 0x88, 0x48, 0xC8, 0x28, 0xA8, 0x68, 0xE8, 0x18, 0x98, 0x58, 0xD8, 0x38, 0xB8, 0x78, 0xF8,
     0x04, 0x84, 0x44, 0xC4, 0x24, 0xA4, 0x64, 0xE4, 0x14, 0x94, 0x54, 0xD4, 0x34, 0xB4, 0x74, 0xF4,
     0x0C, 0x8C, 0x4C, 0xCC, 0x2C, 0xAC, 0x6C, 0xEC, 0x1C, 0x9C, 0x5C, 0xDC, 0x3C, 0xBC, 0x7C, 0xFC,
     0x02, 0x82, 0x42, 0xC2, 0x22, 0xA2, 0x62, 0xE2, 0x12, 0x92, 0x52, 0xD2, 0x32, 0xB2, 0x72, 0xF2,
     0x0A, 0x8A, 0x4A, 0xCA, 0x2A, 0xAA, 0x6A, 0xEA, 0x1A, 0x9A, 0x5A, 0xDA, 0x3A, 0xBA, 0x7A, 0xFA,
     0x06, 0x86, 0x46, 0xC6, 0x26, 0xA6, 0x66, 0xE6, 0x16, 0x96, 0x56, 0xD6, 0x36, 0xB6, 0x76, 0xF6,
     0x0E, 0x8E, 0x4E, 0xCE, 0x2E, 0xAE, 0x6E, 0xEE, 0x1E, 0x9E, 0x5E, 0xDE, 0x3E, 0xBE, 0x7E, 0xFE,
     0x01, 0x81, 0x41, 0xC1, 0x21, 0xA1, 0x61, 0xE1, 0x11, 0x91, 0x51, 0xD1, 0x31, 0xB1, 0x71, 0xF1,
     0x09, 0x89, 0x49, 0xC9, 0x29, 0xA9, 0x69, 0xE9, 0x19, 0x99, 0x59, 0xD9, 0x39, 0xB9, 0x79, 0xF9,
     0x05, 0x85, 0x45, 0xC5, 0x25, 0xA5, 0x65, 0xE5, 0x15, 0x95, 0x55, 0xD5, 0x35, 0xB5, 0x75, 0xF5,
     0x0D, 0x8D, 0x4D, 0xCD, 0x2D, 0xAD, 0x6D, 0xED, 0x1D, 0x9D, 0x5D, 0xDD, 0x3D, 0xBD, 0x7D, 0xFD,
     0x03, 0x83, 0x43, 0xC3, 0x23, 0xA3, 0x63, 0xE3, 0x13, 0x93, 0x53, 0xD3, 0x33, 0xB3, 0x73, 0xF3,
     0x0B, 0x8B, 0x4B, 0xCB, 0x2B, 0xAB, 0x6B, 0xEB, 0x1B, 0x9B, 0x5B, 0xDB, 0x3B, 0xBB, 0x7B, 0xFB,
     0x07, 0x87, 0x47, 0xC7, 0x27, 0xA7, 0x67, 0xE7, 0x17, 0x97, 0x57, 0xD7, 0x37, 0xB7, 0x77, 0xF7,
     0x0F, 0x8F, 0x4F, 0xCF, 0x2F, 0xAF, 0x6F, 0xEF, 0x1F, 0x9F, 0x5F, 0xDF, 0x3F, 0xBF, 0x7F, 0xFF]"

record coderecord =
  cr_code :: int
  extrabits :: int
  cr_min :: int
  cr_max :: int

definition coderec :: "int \<Rightarrow> int \<Rightarrow> int \<Rightarrow> int \<Rightarrow> coderecord" where
  "coderec c e a b = \<lparr>cr_code = c, extrabits = e, cr_min = a, cr_max = b\<rparr>"

definition lencodes :: "coderecord list" where
  "lencodes = [
     coderec 257 0 3 3, coderec 258 0 4 4, coderec 259 0 5 5, coderec 260 0 6 6, coderec 261 0 7 7, coderec 262 0 8 8,
     coderec 263 0 9 9, coderec 264 0 10 10, coderec 265 1 11 12, coderec 266 1 13 14, coderec 267 1 15 16, coderec 268 1 17 18,
     coderec 269 2 19 22, coderec 270 2 23 26, coderec 271 2 27 30, coderec 272 2 31 34, coderec 273 3 35 42, coderec 274 3 43 50,
     coderec 275 3 51 58, coderec 276 3 59 66, coderec 277 4 67 82, coderec 278 4 83 98, coderec 279 4 99 114, coderec 280 4 115 130,
     coderec 281 5 131 162, coderec 282 5 163 194, coderec 283 5 195 226, coderec 284 5 227 257, coderec 285 0 258 258]"

definition distcodes :: "coderecord list" where
  "distcodes = [
     coderec 0 0 1 1, coderec 1 0 2 2, coderec 2 0 3 3, coderec 3 0 4 4, coderec 4 1 5 6, coderec 5 1 7 8,
     coderec 6 2 9 12, coderec 7 2 13 16, coderec 8 3 17 24, coderec 9 3 25 32, coderec 10 4 33 48, coderec 11 4 49 64,
     coderec 12 5 65 96, coderec 13 5 97 128, coderec 14 6 129 192, coderec 15 6 193 256, coderec 16 7 257 384, coderec 17 7 385 512,
     coderec 18 8 513 768, coderec 19 8 769 1024, coderec 20 9 1025 1536, coderec 21 9 1537 2048, coderec 22 10 2049 3072, coderec 23 10 3073 4096,
     coderec 24 11 4097 6144, coderec 25 11 6145 8192, coderec 26 12 8193 12288, coderec 27 12 12289 16384, coderec 28 13 16385 24576, coderec 29 13 24577 32768]"

text \<open>The binary search for a code record; \<open>None\<close> is its assertion.\<close>

function find_code :: "coderecord list \<Rightarrow> int \<Rightarrow> int \<Rightarrow> int \<Rightarrow> coderecord option" where
  "find_code codes x i j =
     (if j - i \<ge> 2 then
        let k = (j + i) div 2 in
        case nth_opt codes k of
          None \<Rightarrow> None
        | Some rec \<Rightarrow>
            if x < cr_min rec then find_code codes x i k
            else if x > cr_max rec then find_code codes x k j
            else Some rec
      else None)"
  by auto
termination by (relation "measure (\<lambda>(codes, x, i, j). nat (j - i))") auto

declare find_code.simps [simp del]

definition mirror :: "int \<Rightarrow> 32 word option" where
  "mirror i = map_option ucast (nth_opt mirrorbytes i)"

definition zlib_literal :: "Outbuf \<Rightarrow> 8 word \<Rightarrow> Outbuf option" where
  "zlib_literal out c =
     (if c \<le> 143 then do { m \<leftarrow> mirror (0x30 + uint c); outbits out m 8 }
      else do { m \<leftarrow> mirror (0x90 - 144 + uint c); outbits out (1 + 2 * m) 9 })"

text \<open>One round of \<open>zlib_match\<close>: a length code with its extra bits and a distance code with its own.\<close>

definition zlib_match1 :: "Outbuf \<Rightarrow> int \<Rightarrow> int \<Rightarrow> Outbuf option" where
  "zlib_match1 out distance thislen = do {
     l \<leftarrow> find_code lencodes thislen (- 1) (int (length lencodes));
     out \<leftarrow> (if cr_code l \<le> 279 then do { m \<leftarrow> mirror ((cr_code l - 256) * 2); outbits out m 7 }
            else do { m \<leftarrow> mirror (0xC0 - 280 + cr_code l); outbits out m 8 });
     out \<leftarrow> (if extrabits l \<noteq> 0 then outbits out (word_of_int (thislen - cr_min l)) (extrabits l) else Some out);
     d \<leftarrow> find_code distcodes distance (- 1) (int (length distcodes));
     m \<leftarrow> mirror (cr_code d * 8);
     out \<leftarrow> outbits out m 5;
     if extrabits d \<noteq> 0 then outbits out (word_of_int (distance - cr_min d)) (extrabits d) else Some out
   }"

definition this_length :: "int \<Rightarrow> int" where
  "this_length len = (if len > 260 then 258 else if len \<le> 258 then len else len - 3)"

function zlib_match :: "Outbuf \<Rightarrow> int \<Rightarrow> int \<Rightarrow> Outbuf option" where
  "zlib_match out distance len =
     (if len > 0 then do {
        let thislen = this_length len;
        out \<leftarrow> zlib_match1 out distance thislen;
        zlib_match out distance (len - thislen)
      } else Some out)"
  by auto
termination by (relation "measure (\<lambda>(out, distance, len). nat len)") (auto simp: this_length_def)

declare zlib_match.simps [simp del]

primrec zlib_token :: "Outbuf \<Rightarrow> token \<Rightarrow> Outbuf option" where
  "zlib_token out (Literal c) = zlib_literal out c"
| "zlib_token out (Match d n) = zlib_match out d n"

primrec zlib_tokens :: "Outbuf \<Rightarrow> token list \<Rightarrow> Outbuf option" where
  "zlib_tokens out [] = Some out"
| "zlib_tokens out (t # ts) = do { out \<leftarrow> zlib_token out t; zlib_tokens out ts }"

type_synonym compressor = "lz77 \<times> Outbuf"

definition zlib_compress_init :: "(int \<Rightarrow> 8 word) \<Rightarrow> compressor" where
  "zlib_compress_init junk = (lz77_init junk, \<lparr>outbuf = [], ob_bits = 0, ob_nbits = 0, firstblock = True\<rparr>)"

text \<open>
  The padding loop: empty static blocks until the packet is long enough. The length of the
  packet is a \<open>size_t\<close>, so C converts the \<open>int\<close> it is compared with: a negative \<open>minlen\<close>
  asks for nearly \<open>2 ^ 64\<close> bytes. (The packet has no memory limit here, where the C code
  gives up when \<open>malloc\<close> fails.)
\<close>

definition size_of_int :: "int \<Rightarrow> nat" where
  "size_of_int n = nat (n mod 2 ^ 64)"

lemma size_of_int_nonneg: "0 \<le> n \<Longrightarrow> n < 2 ^ 31 \<Longrightarrow> int (size_of_int n) = n"
  by (simp add: size_of_int_def)

partial_function (option) pad_blocks :: "Outbuf \<Rightarrow> int \<Rightarrow> Outbuf option" where
  "pad_blocks out minlen =
     (if length (outbuf out) < size_of_int minlen then do {
        out \<leftarrow> outbits out 0 7;
        out \<leftarrow> outbits out 2 3;
        pad_blocks out minlen
      } else Some out)"

declare pad_blocks.simps [code]

definition zlib_compress_block :: "compressor \<Rightarrow> 8 word list \<Rightarrow> int \<Rightarrow> (8 word list \<times> compressor) option" where
  "zlib_compress_block z block minlen = do {
     let (ectx, out) = z;
     let out = out\<lparr>outbuf := []\<rparr>;
     out \<leftarrow> (if firstblock out then do {
              out \<leftarrow> outbits out 0x9C78 16;
              outbits (out\<lparr>firstblock := False\<rparr>) 2 3
            } else Some out);
     (ectx, toks) \<leftarrow> lz77_compress ectx block;
     out \<leftarrow> zlib_tokens out toks;
     out \<leftarrow> outbits out 0 7;
     out \<leftarrow> outbits out 2 (3 + 7);
     out \<leftarrow> outbits out 2 3;
     out \<leftarrow> pad_blocks out minlen;
     Some (outbuf out, (ectx, out))
   }"

section \<open>Bit streams\<close>

text \<open>The lowest bits first, as the format packs them; and the bits of bytes.\<close>

definition bits_le :: "nat \<Rightarrow> 'a::semiring_bit_operations \<Rightarrow> bool list" where
  "bits_le n w = map (bit w) [0..<n]"

lemma length_bits_le [simp]: "length (bits_le n w) = n"
  by (simp add: bits_le_def)

lemma bits_le_0 [simp]: "bits_le 0 w = []"
  by (simp add: bits_le_def)

lemma nth_bits_le [simp]: "i < n \<Longrightarrow> bits_le n w ! i = bit w i"
  by (simp add: bits_le_def)

lemma bits_le_eqI: "(\<And>i. i < n \<Longrightarrow> bit v i = bit w i) \<Longrightarrow> bits_le n v = bits_le n w"
  by (simp add: bits_le_def)

lemma bits_le_add: "bits_le (m + n) w = bits_le m w @ bits_le n (drop_bit m w)"
  by (rule nth_equalityI) (auto simp: nth_append bit_drop_bit_eq)

lemma bits_le_Suc: "bits_le (Suc n) w = bit w 0 # bits_le n (drop_bit 1 w)"
  using bits_le_add [of 1 n w] by (simp add: bits_le_def)

lemma take_bits_le: "m \<le> n \<Longrightarrow> take m (bits_le n w) = bits_le m w"
  by (simp add: bits_le_def take_map)

lemma drop_bits_le: "m \<le> n \<Longrightarrow> drop m (bits_le n w) = bits_le (n - m) (drop_bit m w)"
  using bits_le_add [of m "n - m" w] by simp

definition bytes_bits :: "8 word list \<Rightarrow> bool list" where
  "bytes_bits bs = concat (map (bits_le 8) bs)"

lemma bytes_bits_simps [simp]:
  "bytes_bits [] = []" "bytes_bits (b # bs) = bits_le 8 b @ bytes_bits bs" "bytes_bits (bs @ cs) = bytes_bits bs @ bytes_bits cs"
  by (simp_all add: bytes_bits_def)

lemma length_bytes_bits [simp]: "length (bytes_bits bs) = 8 * length bs"
  by (induction bs) auto

text \<open>The bits an output buffer has collected, those of the current packet that are out and those still in hand.\<close>

definition in_hand :: "Outbuf \<Rightarrow> bool list" where
  "in_hand out = bits_le (nat (ob_nbits out)) (ob_bits out)"

definition ob_stream :: "Outbuf \<Rightarrow> bool list" where
  "ob_stream out = bytes_bits (outbuf out) @ in_hand out"

definition ob_ok :: "Outbuf \<Rightarrow> bool" where
  "ob_ok out \<longleftrightarrow> 0 \<le> ob_nbits out \<and> ob_nbits out < 8 \<and> take_bit (nat (ob_nbits out)) (ob_bits out) = ob_bits out"

lemma put_bytes_ok:
  assumes "0 \<le> ob_nbits out" "ob_nbits out \<le> 32" "take_bit (nat (ob_nbits out)) (ob_bits out) = ob_bits out"
  shows "ob_ok (put_bytes out) \<and> ob_stream (put_bytes out) = ob_stream out \<and> firstblock (put_bytes out) = firstblock out \<and>
    (\<exists>bs. outbuf (put_bytes out) = outbuf out @ bs)"
  using assms
proof (induction out rule: put_bytes.induct)
  case (1 out)
  show ?case
  proof (cases "8 \<le> ob_nbits out")
    case False
    then have "put_bytes out = out" by (subst put_bytes.simps) simp
    then show ?thesis using False 1(2,4) by (simp add: ob_ok_def)
  next
    case True
    define n where "n = nat (ob_nbits out) - 8"
    have n: "ob_nbits out = int (8 + n)" "nat (ob_nbits out - 8) = n" using True by (simp_all add: n_def)
    let ?out = "out\<lparr>outbuf := outbuf out @ [ucast (ob_bits out AND 0xFF)], ob_bits := drop_bit 8 (ob_bits out), ob_nbits := ob_nbits out - 8\<rparr>"
    have "take_bit n (drop_bit 8 (ob_bits out)) = drop_bit 8 (take_bit (8 + n) (ob_bits out))"
      by (simp add: take_bit_drop_bit add.commute)
    then have t: "take_bit (nat (ob_nbits ?out)) (ob_bits ?out) = ob_bits ?out" using 1(4) n by (simp add: nat_add_distrib)
    have "(0xFF :: 32 word) = mask 8" by (simp add: mask_eq_decr_exp)
    then have "ucast (ob_bits out AND 0xFF) = (ucast (ob_bits out AND mask 8) :: 8 word)" by simp
    then have "bits_le 8 (ucast (ob_bits out AND 0xFF) :: 8 word) = bits_le 8 (ob_bits out)"
      by (intro bits_le_eqI) (simp only: bit_simps, simp add: bit_simps)
    then have "ob_stream ?out = ob_stream out"
      using n by (simp add: ob_stream_def in_hand_def nat_add_distrib flip: bits_le_add)
    then show ?thesis using 1(1) [OF True] 1(2,3) True t put_bytes.simps [of out] by auto
  qed
qed

text \<open>Where \<open>nbits\<close> bits are asked for that are the lowest of the word, they are appended.\<close>

lemma outbits_ok:
  assumes "ob_ok out" "nbits \<le> 24" "take_bit nbits bits = bits"
  obtains out' where "outbits out bits (int nbits) = Some out'" "ob_ok out'" "ob_stream out' = ob_stream out @ bits_le nbits bits"
    "firstblock out' = firstblock out" "length (outbuf out) \<le> length (outbuf out')"
proof -
  define n where "n = nat (ob_nbits out)"
  have n: "ob_nbits out = int n" "n < 8" "take_bit n (ob_bits out) = ob_bits out"
    using assms(1) by (auto simp: ob_ok_def n_def)
  define w where "w = ob_bits out OR push_bit n bits"
  define out1 where "out1 = out\<lparr>ob_bits := w, ob_nbits := int (n + nbits)\<rparr>"
  have low: "\<not> bit (ob_bits out) i" if "n \<le> i" for i using n(3) that by (metis bit_take_bit_iff not_le)
  have high: "\<not> bit bits i" if "nbits \<le> i" for i using assms(3) that by (metis bit_take_bit_iff not_le)
  have bw: "bit w i = (if i < n then bit (ob_bits out) i else i < 32 \<and> bit bits (i - n))" for i
    using low [of i] by (auto simp: w_def bit_or_iff bit_push_bit_iff)
  have "take_bit (n + nbits) w = w"
  proof (rule bit_eqI)
    fix i
    show "bit (take_bit (n + nbits) w) i \<longleftrightarrow> bit w i" using low [of i] high [of "i - n"]
      by (cases "nbits \<le> i - n") (auto simp: bit_take_bit_iff bw)
  qed
  then have t: "take_bit (nat (ob_nbits out1)) (ob_bits out1) = ob_bits out1" by (simp add: out1_def nat_add_distrib)
  have "bits_le (n + nbits) w = bits_le n (ob_bits out) @ bits_le nbits bits"
    by (rule nth_equalityI) (use n(2) assms(2) in \<open>auto simp: nth_append bw\<close>)
  then have s: "ob_stream out1 = ob_stream out @ bits_le nbits bits" by (simp add: ob_stream_def in_hand_def out1_def n(1) nat_add_distrib)
  have "outbits out bits (int nbits) = Some (put_bytes out1)"
    using n assms(2) by (simp add: outbits_def out1_def w_def)
  moreover have "0 \<le> ob_nbits out1" "ob_nbits out1 \<le> 32" using n(2) assms(2) by (simp_all add: out1_def)
  note p = put_bytes_ok [OF this t]
  moreover have "length (outbuf out) \<le> length (outbuf (put_bytes out1))"
    using p by (auto simp: out1_def)
  ultimately show thesis using that s by (simp add: out1_def)
qed

section \<open>The static codes\<close>

text \<open>RFC 1951, section 3.2.6: the lengths and the codes of the static literal/length tree; distances take five bits.\<close>

definition static_len :: "int \<Rightarrow> nat" where
  "static_len s = (if s \<le> 143 then 8 else if s \<le> 255 then 9 else if s \<le> 279 then 7 else 8)"

definition static_code :: "int \<Rightarrow> int" where
  "static_code s = (if s \<le> 143 then 0x30 + s else if s \<le> 255 then 0x190 + (s - 144) else if s \<le> 279 then s - 256 else 0xC0 + (s - 280))"

definition sym_bits :: "int \<Rightarrow> bool list" where
  "sym_bits s = rev (bits_le (static_len s) (static_code s))"

definition dist_bits :: "int \<Rightarrow> bool list" where
  "dist_bits s = rev (bits_le 5 s)"

lemma length_sym_bits [simp]: "length (sym_bits s) = static_len s"
  by (simp add: sym_bits_def)

lemma length_dist_bits [simp]: "length (dist_bits s) = 5"
  by (simp add: dist_bits_def)

lemma mirrorbytes_mirror:
  "list_all2 (\<lambda>m i. bits_le 8 m = rev (bits_le 8 i)) mirrorbytes (map (word_of_int :: int \<Rightarrow> 8 word) [0..255])"
  by code_simp

lemma mirror_ok:
  assumes "0 \<le> i" "i < 256"
  obtains m where "mirror i = Some m" "bits_le 8 m = rev (bits_le 8 i)" "take_bit 8 m = m"
proof -
  have len: "length mirrorbytes = 256" using list_all2_lengthD [OF mirrorbytes_mirror] by simp
  have "[0..255] ! nat i = i" using assms by simp
  then have "bits_le 8 (mirrorbytes ! nat i) = rev (bits_le 8 (word_of_int i :: 8 word))"
    using list_all2_nthD [OF mirrorbytes_mirror, of "nat i"] assms len by (simp add: nat_less_iff)
  also have "bits_le 8 (word_of_int i :: 8 word) = bits_le 8 i" by (rule bits_le_eqI) (simp add: bit_simps)
  finally have b: "bits_le 8 (mirrorbytes ! nat i) = rev (bits_le 8 i)" .
  have u: "bits_le 8 (ucast (mirrorbytes ! nat i) :: 32 word) = bits_le 8 (mirrorbytes ! nat i)"
    by (rule bits_le_eqI) (simp add: bit_simps)
  have "take_bit 8 (ucast (mirrorbytes ! nat i) :: 32 word) = ucast (mirrorbytes ! nat i)"
    by (rule bit_word_eqI) (use bit_imp_le_length [of "mirrorbytes ! nat i"] in \<open>auto simp: bit_simps\<close>)
  then show thesis using that assms len b u by (simp add: mirror_def nth_opt_def)
qed

text \<open>The encodings the four places use are the static codes.\<close>

definition code_ok :: "int \<Rightarrow> nat \<Rightarrow> bool list \<Rightarrow> bool" where
  "code_ok i n bs \<longleftrightarrow> 0 \<le> i \<and> i < 256 \<and> n \<le> 8 \<and> take n (rev (bits_le 8 i)) = bs \<and> (\<forall>b \<in> set (drop n (rev (bits_le 8 i))). \<not> b)"

lemma mirror_outbits:
  assumes "ob_ok out" "code_ok i n bs"
  obtains m out' where "mirror i = Some m" "outbits out m (int n) = Some out'" "ob_ok out'" "ob_stream out' = ob_stream out @ bs"
    "firstblock out' = firstblock out" "length (outbuf out) \<le> length (outbuf out')"
proof -
  obtain m where m: "mirror i = Some m" "bits_le 8 m = rev (bits_le 8 i)" "take_bit 8 m = m"
    using mirror_ok assms(2) by (auto simp: code_ok_def)
  have n: "n \<le> 8" using assms(2) by (simp add: code_ok_def)
  have "\<not> bit m j" if "n \<le> j" for j
  proof (cases "j < 8")
    case True
    then have "bit m j = drop n (bits_le 8 m) ! (j - n)" using that by simp
    moreover have "drop n (bits_le 8 m) ! (j - n) \<in> set (drop n (bits_le 8 m))" using that True by (intro nth_mem) simp
    ultimately show ?thesis using assms(2) m(2) by (auto simp: code_ok_def)
  next
    case False
    then show ?thesis using m(3) by (metis bit_take_bit_iff)
  qed
  then have t: "take_bit n m = m" by (intro bit_eqI) (auto simp: bit_take_bit_iff intro: leI)
  have "n \<le> 24" using n by simp
  then obtain out' where "outbits out m (int n) = Some out'" "ob_ok out'" "ob_stream out' = ob_stream out @ bits_le n m"
    "firstblock out' = firstblock out" "length (outbuf out) \<le> length (outbuf out')" by (rule outbits_ok [OF assms(1) _ t])
  moreover have "bits_le n m = bs" using assms(2) m(2) n take_bits_le [of n 8 m] by (simp add: code_ok_def)
  ultimately show thesis using that m(1) by blast
qed

lemma codes_ok:
  "\<forall>s \<in> {0..143}. code_ok (0x30 + s) 8 (sym_bits s)"
  "\<forall>s \<in> {256..279}. code_ok ((s - 256) * 2) 7 (sym_bits s)"
  "\<forall>s \<in> {280..287}. code_ok (0xC0 - 280 + s) 8 (sym_bits s)"
  "\<forall>s \<in> {0..31}. code_ok (s * 8) 5 (dist_bits s)"
  by code_simp+

lemma code9_ok:
  "\<forall>s \<in> {144..255}. rev (bits_le 8 s) = tl (sym_bits s) \<and> hd (sym_bits s)"
  by code_simp

section \<open>The code records\<close>

text \<open>The binary search finds what a linear search finds, in a table of adjacent ranges.\<close>

definition in_rec :: "int \<Rightarrow> coderecord \<Rightarrow> bool" where
  "in_rec x r \<longleftrightarrow> cr_min r \<le> x \<and> x \<le> cr_max r"

definition adjacent :: "coderecord list \<Rightarrow> bool" where
  "adjacent codes \<longleftrightarrow> list_all (\<lambda>r. cr_min r \<le> cr_max r) codes \<and> list_all2 (\<lambda>r s. cr_max r + 1 = cr_min s) (butlast codes) (tl codes)"

lemma adjacent_next: "adjacent codes \<Longrightarrow> Suc k < length codes \<Longrightarrow> cr_min (codes ! Suc k) = cr_max (codes ! k) + 1"
  using list_all2_nthD2 [of _ "butlast codes" "tl codes" k] by (fastforce simp: adjacent_def nth_tl nth_butlast)

lemma adjacent_mono:
  assumes "adjacent codes"
  shows "j < length codes \<Longrightarrow> i < j \<Longrightarrow> cr_max (codes ! i) < cr_min (codes ! j)"
proof (induction j)
  case (Suc j)
  have "cr_min (codes ! j) \<le> cr_max (codes ! j)" using assms Suc.prems by (simp add: adjacent_def list_all_length)
  moreover have "cr_min (codes ! Suc j) = cr_max (codes ! j) + 1" by (rule adjacent_next [OF assms Suc.prems(1)])
  moreover have "i = j \<or> cr_max (codes ! i) < cr_min (codes ! j)" using Suc by (cases "i = j") auto
  ultimately show ?case by auto
qed simp

lemma find_code_ok:
  assumes "adjacent codes" "cr_min (hd codes) \<le> x" "x \<le> cr_max (last codes)" "codes \<noteq> []"
  shows "- 1 \<le> i \<Longrightarrow> i < j \<Longrightarrow> j \<le> int (length codes) \<Longrightarrow> (0 \<le> i \<longrightarrow> cr_max (codes ! nat i) < x) \<Longrightarrow>
    (j < int (length codes) \<longrightarrow> x < cr_min (codes ! nat j)) \<Longrightarrow> \<exists>k < length codes. find_code codes x i j = Some (codes ! k) \<and> in_rec x (codes ! k)"
proof (induction "nat (j - i)" arbitrary: i j rule: less_induct)
  case less
  have "j - i \<ge> 2"
  proof (rule ccontr)
    assume "\<not> j - i \<ge> 2"
    then have j: "j = i + 1" using less.prems(2) by simp
    consider "i = - 1" | "0 \<le> i" "j = int (length codes)" | "0 \<le> i" "j < int (length codes)"
      using less.prems(1,3) by fastforce
    then show False
    proof cases
      case 1
      then show False using less.prems(5) j assms(2,4) by (simp add: hd_conv_nth)
    next
      case 2
      then have "last codes = codes ! nat i" using j by (cases codes) (auto simp: last_conv_nth nat_add_distrib)
      then show False using 2 less.prems(4) assms(3) by simp
    next
      case 3
      then show False using adjacent_next [OF assms(1), of "nat i"] less.prems(4,5) j by (simp add: nat_add_distrib)
    qed
  qed
  define k where "k = (j + i) div 2"
  have k: "i < k" "k < j" "0 \<le> k" using \<open>j - i \<ge> 2\<close> less.prems(1) by (auto simp: k_def)
  then have nth: "nth_opt codes k = Some (codes ! nat k)" using less.prems(3) by (simp add: nth_opt_def)
  have step: "find_code codes x i j = (if x < cr_min (codes ! nat k) then find_code codes x i k
      else if x > cr_max (codes ! nat k) then find_code codes x k j else Some (codes ! nat k))"
    using \<open>j - i \<ge> 2\<close> nth by (subst find_code.simps) (simp add: k_def Let_def)
  consider "x < cr_min (codes ! nat k)" | "x > cr_max (codes ! nat k)" "\<not> x < cr_min (codes ! nat k)" | "in_rec x (codes ! nat k)"
    unfolding in_rec_def by linarith
  then show ?case
  proof cases
    case 1
    then show ?thesis using less.hyps [of k i] k less.prems step by simp
  next
    case 2
    then show ?thesis using less.hyps [of j k] k less.prems step by simp
  next
    case 3
    then show ?thesis using step k less.prems(3) by (intro exI [of _ "nat k"]) (auto simp: in_rec_def)
  qed
qed

lemma find_code_linear:
  assumes "adjacent codes" "codes \<noteq> []" "cr_min (hd codes) \<le> x" "x \<le> cr_max (last codes)"
  obtains r where "find_code codes x (- 1) (int (length codes)) = Some r" "List.find (in_rec x) codes = Some r" "r \<in> set codes" "in_rec x r"
proof -
  obtain k where k: "k < length codes" "find_code codes x (- 1) (int (length codes)) = Some (codes ! k)" "in_rec x (codes ! k)"
    using find_code_ok [OF assms(1,3,4,2), of "- 1" "int (length codes)"] assms(2) by auto
  have "\<not> in_rec x (codes ! i)" if "i < k" for i
    using adjacent_mono [OF assms(1) k(1) that] k(3) by (auto simp: in_rec_def)
  then have "List.find (in_rec x) codes = Some (codes ! k)" using k by (auto simp: find_Some_iff)
  then show thesis using that k by simp
qed

definition len_rec :: "int \<Rightarrow> coderecord" where
  "len_rec n = the (List.find (in_rec n) lencodes)"

definition dist_rec :: "int \<Rightarrow> coderecord" where
  "dist_rec d = the (List.find (in_rec d) distcodes)"

lemma tables_adjacent: "adjacent lencodes" "adjacent distcodes"
  by code_simp+

lemma tables_ends: "lencodes \<noteq> []" "cr_min (hd lencodes) = 3" "cr_max (last lencodes) = 258"
  "distcodes \<noteq> []" "cr_min (hd distcodes) = 1" "cr_max (last distcodes) = WINSIZE"
  by code_simp+

text \<open>The records are at the index of their code, and the extra bits are enough for the range.\<close>

definition rec_ok :: "coderecord list \<Rightarrow> int \<Rightarrow> coderecord \<Rightarrow> bool" where
  "rec_ok codes base r \<longleftrightarrow> nth_opt codes (cr_code r - base) = Some r \<and> 0 \<le> extrabits r \<and> extrabits r \<le> 13 \<and>
     cr_max r - cr_min r < 2 ^ nat (extrabits r)"

lemma tables_ok: "list_all (rec_ok lencodes 257) lencodes" "list_all (rec_ok distcodes 0) distcodes"
  by code_simp+

lemma len_rec_ok:
  assumes "3 \<le> n" "n \<le> 258"
  shows "find_code lencodes n (- 1) (int (length lencodes)) = Some (len_rec n)" "rec_ok lencodes 257 (len_rec n)" "in_rec n (len_rec n)"
proof -
  obtain r where "find_code lencodes n (- 1) (int (length lencodes)) = Some r" "List.find (in_rec n) lencodes = Some r" "r \<in> set lencodes"
    "in_rec n r" using find_code_linear [OF tables_adjacent(1) tables_ends(1), of n] assms tables_ends by auto
  then show "find_code lencodes n (- 1) (int (length lencodes)) = Some (len_rec n)" "rec_ok lencodes 257 (len_rec n)" "in_rec n (len_rec n)"
    using tables_ok(1) by (auto simp: len_rec_def list_all_iff)
qed

lemma dist_rec_ok:
  assumes "1 \<le> d" "d \<le> WINSIZE"
  shows "find_code distcodes d (- 1) (int (length distcodes)) = Some (dist_rec d)" "rec_ok distcodes 0 (dist_rec d)" "in_rec d (dist_rec d)"
proof -
  obtain r where "find_code distcodes d (- 1) (int (length distcodes)) = Some r" "List.find (in_rec d) distcodes = Some r" "r \<in> set distcodes"
    "in_rec d r" using find_code_linear [OF tables_adjacent(2) tables_ends(4), of d] assms tables_ends by auto
  then show "find_code distcodes d (- 1) (int (length distcodes)) = Some (dist_rec d)" "rec_ok distcodes 0 (dist_rec d)" "in_rec d (dist_rec d)"
    using tables_ok(2) by (auto simp: dist_rec_def list_all_iff)
qed

section \<open>What is put out\<close>

definition match1_bits :: "int \<Rightarrow> int \<Rightarrow> bool list" where
  "match1_bits d n =
     sym_bits (cr_code (len_rec n)) @ bits_le (nat (extrabits (len_rec n))) (n - cr_min (len_rec n)) @
     dist_bits (cr_code (dist_rec d)) @ bits_le (nat (extrabits (dist_rec d))) (d - cr_min (dist_rec d))"

text \<open>The lengths a long match is cut into.\<close>

function cut_match :: "int \<Rightarrow> int list" where
  "cut_match n = (if n > 0 then this_length n # cut_match (n - this_length n) else [])"
  by auto
termination by (relation "measure nat") (auto simp: this_length_def)

declare cut_match.simps [simp del]

primrec token_bits :: "token \<Rightarrow> bool list" where
  "token_bits (Literal c) = sym_bits (uint c)"
| "token_bits (Match d n) = concat (map (match1_bits d) (cut_match n))"

lemma cut_match_ok: "n = 0 \<or> 3 \<le> n \<Longrightarrow> \<forall>m \<in> set (cut_match n). 3 \<le> m \<and> m \<le> 258"
proof (induction n rule: cut_match.induct)
  case (1 n)
  show ?case
  proof (cases "n > 0")
    case True
    then have "3 \<le> this_length n \<and> this_length n \<le> 258" "n - this_length n = 0 \<or> 3 \<le> n - this_length n"
      using 1(2) by (auto simp: this_length_def)
    then show ?thesis using 1(1) [OF True] True by (subst cut_match.simps) simp
  qed (subst cut_match.simps, simp)
qed

lemma put_extra:
  assumes "ob_ok out" "rec_ok codes b r" "in_rec x r"
  obtains out' where "(if extrabits r \<noteq> 0 then outbits out (word_of_int (x - cr_min r)) (extrabits r) else Some out) = Some out'" "ob_ok out'"
    "ob_stream out' = ob_stream out @ bits_le (nat (extrabits r)) (x - cr_min r)" "firstblock out' = firstblock out"
    "length (outbuf out) \<le> length (outbuf out')"
proof -
  define e where "e = nat (extrabits r)"
  define v where "v = x - cr_min r"
  have e: "extrabits r = int e" "e \<le> 24" "0 \<le> v" "v < 2 ^ e" using assms(2,3) by (auto simp: rec_ok_def in_rec_def e_def v_def)
  have v: "take_bit e v = v" using e(3,4) by (simp add: take_bit_int_eq_self)
  have "take_bit e (word_of_int v :: 32 word) = word_of_int (take_bit e v)"
    by (rule bit_word_eqI) (auto simp: bit_simps)
  then have t: "take_bit e (word_of_int v :: 32 word) = word_of_int v" by (simp only: v)
  have b: "bits_le e (word_of_int v :: 32 word) = bits_le e v"
    by (rule bits_le_eqI) (use e(2) in \<open>simp add: bit_simps\<close>)
  show thesis
  proof (cases "e = 0")
    case True
    then show thesis using that [of out] assms(1) e(1) by simp
  next
    case False
    obtain out' where "outbits out (word_of_int v) (int e) = Some out'" "ob_ok out'"
      "ob_stream out' = ob_stream out @ bits_le e (word_of_int v :: 32 word)" "firstblock out' = firstblock out"
      "length (outbuf out) \<le> length (outbuf out')" by (rule outbits_ok [OF assms(1) e(2) t])
    then show thesis using that [of out'] False b by (simp add: e(1) v_def)
  qed
qed

text \<open>What the steps of the encoder do to the buffer.\<close>

definition puts :: "Outbuf \<Rightarrow> bool list \<Rightarrow> Outbuf option \<Rightarrow> bool" where
  "puts out bs res \<longleftrightarrow> (\<exists>out'. res = Some out' \<and> ob_ok out' \<and> ob_stream out' = ob_stream out @ bs \<and> firstblock out' = firstblock out \<and>
     length (outbuf out) \<le> length (outbuf out'))"

lemma puts_bind:
  assumes "puts out bs res" "\<And>out'. ob_ok out' \<Longrightarrow> puts out' cs (f out')"
  shows "puts out (bs @ cs) (res \<bind> f)"
proof -
  obtain out1 where o1: "res = Some out1" "ob_ok out1" "ob_stream out1 = ob_stream out @ bs" "firstblock out1 = firstblock out"
    "length (outbuf out) \<le> length (outbuf out1)" using assms(1) by (auto simp: puts_def)
  with assms(2) [OF o1(2)] show ?thesis by (auto simp: puts_def)
qed

lemma puts_mirror:
  assumes "ob_ok out" "code_ok i n bs"
  shows "puts out bs (mirror i \<bind> (\<lambda>m. outbits out m (int n)))"
  by (rule mirror_outbits [OF assms]) (auto simp: puts_def)

lemma puts_extra:
  assumes "ob_ok out" "rec_ok codes b r" "in_rec x r"
  shows "puts out (bits_le (nat (extrabits r)) (x - cr_min r))
    (if extrabits r \<noteq> 0 then outbits out (word_of_int (x - cr_min r)) (extrabits r) else Some out)"
  by (rule put_extra [OF assms]) (auto simp: puts_def)

lemma puts_const:
  assumes "ob_ok out" "n \<le> 24" "take_bit n w = w"
  shows "puts out (bits_le n w) (outbits out w (int n))"
  by (rule outbits_ok [OF assms]) (auto simp: puts_def)

lemma zlib_literal_ok:
  assumes "ob_ok out"
  shows "puts out (sym_bits (uint c)) (zlib_literal out c)"
proof -
  have r: "0 \<le> uint c" "uint c < 256" using uint_bounded [of c] by simp_all
  show ?thesis
  proof (cases "c \<le> 143")
    case True
    then have "uint c \<le> 143" by (simp add: word_le_def)
    then have "code_ok (0x30 + uint c) 8 (sym_bits (uint c))" using codes_ok(1) r(1) by auto
    from puts_mirror [OF assms this] show ?thesis using True by (simp add: zlib_literal_def)
  next
    case False
    then have c: "uint c \<in> {144..255}" using r(2) by (simp add: word_le_def)
    obtain m where m: "mirror (uint c) = Some m" "bits_le 8 m = rev (bits_le 8 (uint c))" "take_bit 8 m = m"
      using mirror_ok r by blast
    have len: "length (sym_bits (uint c)) = 9" using c by (simp add: static_len_def)
    then have "sym_bits (uint c) = True # rev (bits_le 8 (uint c))"
      using bspec [OF code9_ok c] by (cases "sym_bits (uint c)") auto
    moreover have "bits_le (Suc 8) (1 + 2 * m) = True # bits_le 8 m"
    proof -
      have "\<not> bit m j" if "8 \<le> j" for j using m(3) that by (metis bit_take_bit_iff not_le)
      then have b: "bit (1 + 2 * m) j \<longleftrightarrow> j = 0 \<or> j \<noteq> 0 \<and> j < 32 \<and> bit m (j - 1)" for j
        by (cases j) (simp_all add: bit_simps even_bit_succ_iff)
      show ?thesis by (rule nth_equalityI) (auto simp: nth_Cons' b)
    qed
    moreover have "take_bit 9 (1 + 2 * m) = 1 + 2 * m"
    proof -
      have low: "bit m j \<Longrightarrow> j < 8" for j using m(3) by (metis bit_take_bit_iff)
      show ?thesis by (intro bit_word_eqI) (auto simp: bit_simps even_bit_succ_iff dest: low)
    qed
    ultimately show ?thesis
      using puts_const [OF assms, of 9 "1 + 2 * m"] m(1,2) False by (simp add: zlib_literal_def)
  qed
qed

lemma zlib_match1_ok:
  assumes "ob_ok out" "1 \<le> d" "d \<le> WINSIZE" "3 \<le> n" "n \<le> 258"
  shows "puts out (match1_bits d n) (zlib_match1 out d n)"
proof -
  define l where "l = len_rec n"
  define dr where "dr = dist_rec d"
  note l = len_rec_ok [OF assms(4,5), folded l_def]
  note dr = dist_rec_ok [OF assms(2,3), folded dr_def]
  have lc: "257 \<le> cr_code l" "cr_code l \<le> 285" and dc: "0 \<le> cr_code dr" "cr_code dr \<le> 29"
    using l(2) dr(2) by (auto simp: rec_ok_def nth_opt_def lencodes_def distcodes_def split: if_splits)
  have sym: "puts out (sym_bits (cr_code l)) (if cr_code l \<le> 279 then mirror ((cr_code l - 256) * 2) \<bind> (\<lambda>m. outbits out m 7)
      else mirror (0xC0 - 280 + cr_code l) \<bind> (\<lambda>m. outbits out m 8))"
  proof (cases "cr_code l \<le> 279")
    case True
    then have "code_ok ((cr_code l - 256) * 2) 7 (sym_bits (cr_code l))" using codes_ok(2) lc by auto
    from puts_mirror [OF assms(1) this] show ?thesis using True by simp
  next
    case False
    then have "code_ok (0xC0 - 280 + cr_code l) 8 (sym_bits (cr_code l))" using codes_ok(3) lc by auto
    from puts_mirror [OF assms(1) this] show ?thesis using False by simp
  qed
  have dist: "puts o' (dist_bits (cr_code dr)) (mirror (cr_code dr * 8) \<bind> (\<lambda>m. outbits o' m 5))" if "ob_ok o'" for o'
    using puts_mirror [OF that, of "cr_code dr * 8" 5] codes_ok(4) dc by auto
  show ?thesis
    unfolding zlib_match1_def match1_bits_def l_def [symmetric] dr_def [symmetric] l(1) dr(1) bind.bind_lunit
  proof (rule puts_bind [OF sym])
    fix o1 assume o1: "ob_ok o1"
    show "puts o1 (bits_le (nat (extrabits l)) (n - cr_min l) @ dist_bits (cr_code dr) @ bits_le (nat (extrabits dr)) (d - cr_min dr))
      ((if extrabits l \<noteq> 0 then outbits o1 (word_of_int (n - cr_min l)) (extrabits l) else Some o1) \<bind>
       (\<lambda>out. mirror (cr_code dr * 8) \<bind> (\<lambda>m. outbits out m 5 \<bind>
         (\<lambda>out. if extrabits dr \<noteq> 0 then outbits out (word_of_int (d - cr_min dr)) (extrabits dr) else Some out))))"
    proof (rule puts_bind [OF puts_extra [OF o1 l(2,3)]])
      fix o2 assume o2: "ob_ok o2"
      show "puts o2 (dist_bits (cr_code dr) @ bits_le (nat (extrabits dr)) (d - cr_min dr))
       (mirror (cr_code dr * 8) \<bind> (\<lambda>m. outbits o2 m 5 \<bind>
         (\<lambda>out. if extrabits dr \<noteq> 0 then outbits out (word_of_int (d - cr_min dr)) (extrabits dr) else Some out)))"
        unfolding bind_assoc [symmetric] by (rule puts_bind [OF dist [OF o2] puts_extra [OF _ dr(2,3)]])
    qed
  qed
qed

lemma puts_return: "ob_ok out \<Longrightarrow> puts out [] (Some out)"
  by (simp add: puts_def)

lemma zlib_match_ok:
  assumes "1 \<le> d" "d \<le> WINSIZE"
  shows "ob_ok out \<Longrightarrow> n = 0 \<or> 3 \<le> n \<Longrightarrow> puts out (token_bits (Match d n)) (zlib_match out d n)"
proof (induction n arbitrary: out rule: cut_match.induct)
  case (1 n)
  show ?case
  proof (cases "n > 0")
    case True
    have c: "3 \<le> this_length n" "this_length n \<le> 258" "n - this_length n = 0 \<or> 3 \<le> n - this_length n"
      using 1(3) True by (auto simp: this_length_def)
    have "zlib_match out d n = zlib_match1 out d (this_length n) \<bind> (\<lambda>out. zlib_match out d (n - this_length n))"
      using True by (subst zlib_match.simps) (simp add: Let_def)
    moreover have "token_bits (Match d n) = match1_bits d (this_length n) @ token_bits (Match d (n - this_length n))"
      using True by (subst token_bits.simps, subst cut_match.simps) simp
    ultimately show ?thesis
      using puts_bind [OF zlib_match1_ok [OF 1(2) assms c(1,2)] 1(1) [OF True _ c(3)]] by simp
  next
    case False
    then have "cut_match n = []" "zlib_match out d n = Some out" by (subst cut_match.simps zlib_match.simps; simp)+
    then show ?thesis using puts_return [OF 1(2)] by simp
  qed
qed

section \<open>Packets\<close>

lemma zlib_token_ok: "ob_ok out \<Longrightarrow> expand_token t h \<noteq> None \<Longrightarrow> puts out (token_bits t) (zlib_token out t)"
proof (cases t)
  case (Match d n)
  assume "ob_ok out" "expand_token t h \<noteq> None"
  then show ?thesis using zlib_match_ok [of d out n] unfolding Match by (auto split: if_splits simp del: token_bits.simps)
qed (simp add: zlib_literal_ok)

lemma zlib_tokens_ok:
  "ob_ok out \<Longrightarrow> expand ts h \<noteq> None \<Longrightarrow> puts out (concat (map token_bits ts)) (zlib_tokens out ts)"
proof (induction ts arbitrary: out h)
  case (Cons t ts)
  obtain h' where h: "expand_token t h = Some h'" "expand ts h' \<noteq> None" using Cons.prems(2) by (auto split: bind_splits)
  show ?case
    using puts_bind [OF zlib_token_ok [OF Cons.prems(1), of t h] Cons.IH [OF _ h(2)]] h(1) by simp
qed (simp add: puts_return)

text \<open>The end of a packet: the block is closed, an empty static block follows, and the next block is opened.\<close>

definition open_block :: "bool list" where
  "open_block = [False, True, False]"

definition eob :: "bool list" where
  "eob = sym_bits 256"

lemma eob_bits: "eob = bits_le 7 (0 :: 32 word)" and open_bits: "open_block = bits_le 3 (2 :: 32 word)"
  and empty_block_bits: "open_block @ eob = bits_le 10 (2 :: 32 word)"
  by code_simp+

lemma pad_blocks_ok:
  "ob_ok out \<Longrightarrow> \<exists>k. puts out (concat (replicate k (eob @ open_block))) (pad_blocks out minlen) \<and>
    (\<forall>out'. pad_blocks out minlen = Some out' \<longrightarrow> size_of_int minlen \<le> length (outbuf out'))"
proof (induction "nat (8 * (int (size_of_int minlen) - int (length (outbuf out))) + 8 - ob_nbits out)" arbitrary: out rule: less_induct)
  case less
  show ?case
  proof (cases "length (outbuf out) < size_of_int minlen")
    case False
    then have "pad_blocks out minlen = Some out" by (subst pad_blocks.simps) simp
    then show ?thesis using puts_return [OF less.prems] False by (intro exI [of _ 0]) simp
  next
    case True
    obtain out1 where o1: "outbits out 0 (int 7) = Some out1" "ob_ok out1" "ob_stream out1 = ob_stream out @ eob" "firstblock out1 = firstblock out"
      "length (outbuf out) \<le> length (outbuf out1)"
      unfolding eob_bits by (rule outbits_ok [OF less.prems, of 7 0]) auto
    obtain out2 where o2: "outbits out1 2 (int 3) = Some out2" "ob_ok out2" "ob_stream out2 = ob_stream out1 @ open_block" "firstblock out2 = firstblock out1"
      "length (outbuf out1) \<le> length (outbuf out2)"
      unfolding open_bits by (rule outbits_ok [OF o1(2), of 3 2]) (auto simp: take_bit_eq_mask mask_eq_decr_exp)
    have "length (ob_stream out2) = length (ob_stream out) + 10"
      by (simp add: o1(3) o2(3) eob_def open_block_def static_len_def)
    then have "8 * int (length (outbuf out2)) + ob_nbits out2 = 8 * int (length (outbuf out)) + ob_nbits out + 10"
          proof -
      assume "length (ob_stream out2) = length (ob_stream out) + 10"
      then have "8 * length (outbuf out2) + nat (ob_nbits out2) = 8 * length (outbuf out) + nat (ob_nbits out) + 10"
        by (simp add: ob_stream_def in_hand_def)
      moreover have "0 \<le> ob_nbits out" "0 \<le> ob_nbits out2" using less.prems o2(2) by (simp_all add: ob_ok_def)
      ultimately show ?thesis by linarith
    qed
    then have "nat (8 * (int (size_of_int minlen) - int (length (outbuf out2))) + 8 - ob_nbits out2) < nat (8 * (int (size_of_int minlen) - int (length (outbuf out))) + 8 - ob_nbits out)"
      using True less.prems by (simp add: ob_ok_def)
    from less.hyps [OF this o2(2)] obtain k where k: "puts out2 (concat (replicate k (eob @ open_block))) (pad_blocks out2 minlen)"
      "\<forall>out'. pad_blocks out2 minlen = Some out' \<longrightarrow> size_of_int minlen \<le> length (outbuf out')" by blast
    have e: "pad_blocks out minlen = pad_blocks out2 minlen" using True o1(1) o2(1) by (subst pad_blocks.simps) simp
    then have "puts out (concat (replicate (Suc k) (eob @ open_block))) (pad_blocks out minlen)"
      using k(1) o1 o2 by (auto simp: puts_def)
    then show ?thesis using k(2) e by (intro exI [of _ "Suc k"]) simp
  qed
qed

definition packet_bits :: "bool \<Rightarrow> token list \<Rightarrow> nat \<Rightarrow> bool list" where
  "packet_bits first toks k =
     (if first then bits_le 16 (0x9C78 :: 32 word) @ open_block else []) @ concat (map token_bits toks) @
     eob @ open_block @ eob @ open_block @ concat (replicate k (eob @ open_block))"

definition comp_ok :: "compressor \<Rightarrow> 8 word list \<Rightarrow> bool" where
  "comp_ok z s \<longleftrightarrow> (\<exists>h. lz_ok (fst z) h \<and> h @ pending (fst z) = s) \<and> length (pending (fst z)) \<le> 2 \<and> ob_ok (snd z)"

lemma zlib_compress_init_ok: "comp_ok (zlib_compress_init junk) []" "firstblock (snd (zlib_compress_init junk))"
    "in_hand (snd (zlib_compress_init junk)) = []"
  using lz77_init_ok by (auto simp: zlib_compress_init_def comp_ok_def ob_ok_def in_hand_def)

lemma zlib_compress_block_ok:
  assumes "comp_ok z s"
  obtains pkt z' toks k where "zlib_compress_block z block minlen = Some (pkt, z')" "comp_ok z' (s @ block)" "\<not> firstblock (snd z')"
    "expand toks s = Some (s @ block)" "in_hand (snd z) @ packet_bits (firstblock (snd z)) toks k = bytes_bits pkt @ in_hand (snd z')"
    "size_of_int minlen \<le> length pkt"
proof -
  obtain lz out where z: "z = (lz, out)" by (cases z)
  obtain h where h: "lz_ok lz h" "h @ pending lz = s" "length (pending lz) \<le> 2" and out: "ob_ok out"
    using assms by (auto simp: comp_ok_def z)
  obtain lz' h' toks where lz: "lz77_compress lz block = Some (lz', toks)" "lz_ok lz' h'" "length (pending lz') \<le> 2"
    "h' @ pending lz' = h @ pending lz @ block" "expand toks (h @ pending lz) = Some (h @ pending lz @ block)"
    using lz77_compress_expands [OF h(1,3)] by blast
  have ex: "expand toks s = Some (s @ block)" using lz(5) h(2) by (simp flip: append_assoc)
  define out0 where "out0 = out\<lparr>outbuf := []\<rparr>"
  have o0: "ob_ok out0" "ob_stream out0 = in_hand out" using out by (simp_all add: out0_def ob_ok_def ob_stream_def in_hand_def)
  have "\<exists>out1. (if firstblock out0 then do {
        out \<leftarrow> outbits out0 0x9C78 16;
        outbits (out\<lparr>firstblock := False\<rparr>) 2 3
      } else Some out0) = Some out1 \<and> ob_ok out1 \<and> \<not> firstblock out1 \<and>
      ob_stream out1 = in_hand out @ (if firstblock out then bits_le 16 (0x9C78 :: 32 word) @ open_block else [])"
  proof (cases "firstblock out")
    case True
    have "take_bit 16 (0x9C78 :: 32 word) = 0x9C78" by code_simp
    then obtain o1 where o1: "outbits out0 0x9C78 (int 16) = Some o1" "ob_ok o1" "ob_stream o1 = ob_stream out0 @ bits_le 16 (0x9C78 :: 32 word)"
      using outbits_ok [OF o0(1), of 16 "0x9C78"] by auto
    have "ob_ok (o1\<lparr>firstblock := False\<rparr>)" using o1(2) by (simp add: ob_ok_def)
    moreover have "take_bit 3 (2 :: 32 word) = 2" by code_simp
    ultimately obtain o2 where "outbits (o1\<lparr>firstblock := False\<rparr>) 2 (int 3) = Some o2" "ob_ok o2"
      "ob_stream o2 = ob_stream (o1\<lparr>firstblock := False\<rparr>) @ open_block" "\<not> firstblock o2"
      using outbits_ok [of "o1\<lparr>firstblock := False\<rparr>" 3 2] unfolding open_bits by auto
    then show ?thesis using o1 o0(2) True by (simp add: out0_def ob_stream_def in_hand_def)
  next
    case False
    then show ?thesis using o0 by (simp add: out0_def)
  qed
  then obtain out1 where o1: "(if firstblock out0 then do {
        out \<leftarrow> outbits out0 0x9C78 16;
        outbits (out\<lparr>firstblock := False\<rparr>) 2 3
      } else Some out0) = Some out1" "ob_ok out1" "\<not> firstblock out1"
      "ob_stream out1 = in_hand out @ (if firstblock out then bits_le 16 (0x9C78 :: 32 word) @ open_block else [])" by blast
  have flush: "puts o' (eob @ (open_block @ eob) @ open_block)
      (outbits o' 0 7 \<bind> (\<lambda>out. outbits out 2 (3 + 7) \<bind> (\<lambda>out. outbits out 2 3)))" if "ob_ok o'" for o'
  proof -
    have t: "take_bit 10 (2 :: 32 word) = 2" "take_bit 3 (2 :: 32 word) = 2" by code_simp+
    have "puts o' eob (outbits o' 0 7)" using puts_const [OF that, of 7 0] by (simp add: eob_bits)
    moreover have "puts p (open_block @ eob) (outbits p 2 (3 + 7))" if "ob_ok p" for p
      using puts_const [OF that _ t(1)] by (simp add: empty_block_bits)
    moreover have "puts p open_block (outbits p 2 3)" if "ob_ok p" for p using puts_const [OF that _ t(2)] by (simp add: open_bits)
    ultimately show ?thesis by (intro puts_bind)
  qed
  have "puts out1 (concat (map token_bits toks)) (zlib_tokens out1 toks)"
    by (rule zlib_tokens_ok [OF o1(2), of toks s]) (simp add: ex)
  from puts_bind [OF this flush] obtain out2 where o2: "zlib_tokens out1 toks \<bind> (\<lambda>out. outbits out 0 7 \<bind> (\<lambda>out. outbits out 2 (3 + 7) \<bind>
      (\<lambda>out. outbits out 2 3))) = Some out2" "ob_ok out2" "\<not> firstblock out2"
      "ob_stream out2 = ob_stream out1 @ concat (map token_bits toks) @ eob @ (open_block @ eob) @ open_block"
    using o1(3) by (auto simp: puts_def)
  from pad_blocks_ok [OF o2(2), of minlen] obtain k out3 where o3: "pad_blocks out2 minlen = Some out3" "ob_ok out3"
    "ob_stream out3 = ob_stream out2 @ concat (replicate k (eob @ open_block))" "\<not> firstblock out3" "size_of_int minlen \<le> length (outbuf out3)"
    using o2(3) by (auto simp: puts_def)
  have "zlib_compress_block z block minlen = Some (outbuf out3, (lz', out3))"
  proof -
    have "zlib_compress_block z block minlen = (zlib_tokens out1 toks \<bind> (\<lambda>out. outbits out 0 7 \<bind> (\<lambda>out. outbits out 2 (3 + 7) \<bind>
        (\<lambda>out. outbits out 2 3)))) \<bind> (\<lambda>out. pad_blocks out minlen \<bind> (\<lambda>out. Some (outbuf out, (lz', out))))"
      unfolding zlib_compress_block_def z Let_def prod.case out0_def [symmetric] o1(1) bind.bind_lunit lz(1) bind_assoc ..
    then show ?thesis unfolding o2(1) bind.bind_lunit o3(1) .
  qed
  moreover have "comp_ok (lz', out3) (s @ block)" using lz h o3(2) by (auto simp: comp_ok_def)
  moreover have "in_hand (snd z) @ packet_bits (firstblock (snd z)) toks k = bytes_bits (outbuf out3) @ in_hand out3"
    using o3(3) o2(4) o1(4) by (simp add: packet_bits_def z ob_stream_def)
  ultimately show thesis using that ex o3(4,5) by simp
qed

end
