(* ===== verification/Huffman.thy ===== *)
theory Huffman
  imports Deflate
begin

text \<open>
  The Huffman decoding tables of \<open>putty-src/sshzlib.c\<close>. A table is indexed by the next bits of the stream,
  first bit lowest; an entry says how many bits to take and gives the symbol, or the table for the bits that
  follow. \<open>zlib_mktable\<close> makes the canonical code of the given lengths and the tables for it. \<open>None\<close> is an
  index out of bounds.
\<close>

unbundle bit_operations_syntax

section \<open>Tables\<close>

datatype zlib_table = Ztable (zt_mask: int) (zt_table: "zlib_tableentry list")
and zlib_tableentry = Entry (te_nbits: int) (te_code: int) (te_next: "zlib_table option")

definition MAXCODELEN :: nat where [code_unfold]: "MAXCODELEN = 16"

definition MAXSYMS :: nat where [code_unfold]: "MAXSYMS = 288"

text \<open>The loops of \<open>zlib_mkonetab\<close> that fill the table; an entry is its number of bits and its code.\<close>

function fill_from :: "(int \<times> int) list \<Rightarrow> int \<Rightarrow> nat \<Rightarrow> nat \<Rightarrow> int \<Rightarrow> (int \<times> int) list" where
  "fill_from tab msk i nbits j =
     (if j \<le> msk
      then fill_from (tab[nat j := (if fst (tab ! nat j) < int nbits then int nbits else fst (tab ! nat j), int i)]) msk i nbits (j + push_bit nbits 1)
      else tab)"
  by auto
termination by (relation "measure (\<lambda>(tab, msk, i, nbits, j). nat (msk + 1 - j))") (auto simp: push_bit_eq_mult)

declare fill_from.simps [simp del]

definition fill_symbol :: "int list \<Rightarrow> nat list \<Rightarrow> int \<Rightarrow> nat \<Rightarrow> int \<Rightarrow> nat \<Rightarrow> (int \<times> int) list \<Rightarrow> (int \<times> int) list" where
  "fill_symbol codes lengths pfx pfxbits msk i tab =
     (if lengths ! i \<le> pfxbits \<or> (codes ! i AND (push_bit pfxbits 1 - 1)) \<noteq> pfx then tab
      else fill_from tab msk i (lengths ! i - pfxbits) (drop_bit pfxbits (codes ! i) AND msk))"

definition fill_table :: "int list \<Rightarrow> nat list \<Rightarrow> int \<Rightarrow> nat \<Rightarrow> nat \<Rightarrow> (int \<times> int) list" where
  "fill_table codes lengths pfx pfxbits bits =
     fold (fill_symbol codes lengths pfx pfxbits (push_bit bits 1 - 1)) [0..<length lengths] (replicate (2 ^ bits) (0, - 1))"

lemma fill_from_nbits:
  "x \<in> set (fill_from tab msk i n j) \<Longrightarrow> \<exists>y \<in> set tab. fst x = fst y \<or> fst x = int n"
proof (induction tab msk i n j rule: fill_from.induct)
  case (1 tab msk i n j)
  show ?case
  proof (cases "j \<le> msk")
    case True
    let ?t = "tab[nat j := (if fst (tab ! nat j) < int n then int n else fst (tab ! nat j), int i)]"
    have "x \<in> set (fill_from ?t msk i n (j + push_bit n 1))" using 1(2) True by (subst (asm) fill_from.simps) simp
    then obtain y where y: "y \<in> set ?t" "fst x = fst y \<or> fst x = int n" using 1(1) [OF True] by blast
    show ?thesis
    proof (cases "nat j < length tab")
      case in_range: True
      then have "tab ! nat j \<in> set tab" by simp
      then show ?thesis using y set_update_subset_insert [of tab "nat j"] by (fastforce split: if_splits)
    next
      case False
      then show ?thesis using y by (auto simp: list_update_beyond)
    qed
  next
    case False
    then show ?thesis using 1(2) by (subst (asm) fill_from.simps) auto
  qed
qed

definition max_length :: "nat list \<Rightarrow> nat" where
  "max_length lengths = fold max lengths 0"

lemma fold_max_le: "(l :: nat) \<in> set xs \<or> l \<le> m \<Longrightarrow> l \<le> fold max xs m"
  by (induction xs arbitrary: m) (auto simp: le_max_iff_disj)

lemma le_max_length: "l \<in> set lengths \<Longrightarrow> l \<le> max_length lengths"
  unfolding max_length_def by (rule fold_max_le) simp

lemma fill_symbols_nbits:
  assumes "\<forall>i \<in> set is. i < length lengths"
  shows "\<forall>x \<in> set tab. fst x \<le> int (max_length lengths - pfxbits) \<Longrightarrow>
    x \<in> set (fold (fill_symbol codes lengths pfx pfxbits msk) is tab) \<Longrightarrow> fst x \<le> int (max_length lengths - pfxbits)"
  using assms
proof (induction "is" arbitrary: tab)
  case (Cons i "is")
  have "lengths ! i \<le> max_length lengths" using Cons.prems(3) by (intro le_max_length) simp
  then have "\<forall>y \<in> set (fill_symbol codes lengths pfx pfxbits msk i tab). fst y \<le> int (max_length lengths - pfxbits)"
  proof (intro ballI)
    fix y assume y: "y \<in> set (fill_symbol codes lengths pfx pfxbits msk i tab)"
    show "fst y \<le> int (max_length lengths - pfxbits)"
    proof (cases "lengths ! i \<le> pfxbits \<or> (codes ! i AND (push_bit pfxbits 1 - 1)) \<noteq> pfx")
      case True
      then show ?thesis using y Cons.prems(1) by (simp add: fill_symbol_def)
    next
      case False
      then have "y \<in> set (fill_from tab msk i (lengths ! i - pfxbits) (drop_bit pfxbits (codes ! i) AND msk))"
        using y by (simp add: fill_symbol_def)
      from fill_from_nbits [OF this] obtain z where "z \<in> set tab" "fst y = fst z \<or> fst y = int (lengths ! i - pfxbits)" by blast
      then show ?thesis using Cons.prems(1) \<open>lengths ! i \<le> max_length lengths\<close> by auto
    qed
  qed
  then show ?case using Cons by simp
qed auto

lemma fill_table_nbits:
  assumes "j < 2 ^ bits"
  shows "fst (fill_table codes lengths pfx pfxbits bits ! j) \<le> int (max_length lengths - pfxbits)"
proof -
  have from_len: "length (fill_from t m i n k) = length t" for t m i n k
    by (induction t m i n k rule: fill_from.induct) (subst fill_from.simps, simp)
  have "length (fold (fill_symbol codes lengths pfx pfxbits m) is t) = length t" for m "is" t
    by (induction "is" arbitrary: t) (auto simp: fill_symbol_def from_len)
  then have "fill_table codes lengths pfx pfxbits bits ! j \<in> set (fill_table codes lengths pfx pfxbits bits)"
    using assms by (simp add: fill_table_def)
  then show ?thesis unfolding fill_table_def by (rule fill_symbols_nbits [rotated 2]) auto
qed

function zlib_mkonetab :: "int list \<Rightarrow> nat list \<Rightarrow> int \<Rightarrow> nat \<Rightarrow> nat \<Rightarrow> zlib_table" where
  "zlib_mkonetab codes lengths pfx pfxbits bits =
     (let tab = fill_table codes lengths pfx pfxbits bits in
      Ztable (push_bit bits 1 - 1)
        (map (\<lambda>j. let (nbits, code) = tab ! j in
                  if nbits \<le> int bits then Entry nbits code None
                  else Entry (int bits) (- 1)
                    (Some (zlib_mkonetab codes lengths (pfx OR push_bit pfxbits (int j)) (pfxbits + bits)
                       (nat (if nbits - int bits > 7 then 7 else nbits - int bits)))))
           [0..<2 ^ bits]))"
  by auto
termination
proof (relation "measure (\<lambda>(codes, lengths, pfx, pfxbits, bits). 2 * (max_length lengths - pfxbits) + (if bits = 0 then 1 else 0))", goal_cases)
  case (2 codes lengths pfx pfxbits bits tab j t nbits code)
  then have "nbits \<le> int (max_length lengths - pfxbits)" "\<not> nbits \<le> int bits"
    using fill_table_nbits [of j bits codes lengths pfx pfxbits] by (auto dest: sym)
  then show ?case by auto
qed simp

declare zlib_mkonetab.simps [simp del]

text \<open>
  \<open>count[0]\<close> and \<open>startcode[0]\<close> are not set before they are counted up; nothing depends on them, since a
  symbol of length 0 has no bits.
\<close>

definition length_counts :: "nat list \<Rightarrow> int list" where
  "length_counts lengths = fold (\<lambda>l count. count[l := count ! l + 1]) lengths (replicate MAXCODELEN 0)"

definition start_codes :: "int list \<Rightarrow> int list" where
  "start_codes count = fst (fold (\<lambda>i (start, code). (start[i := code], push_bit 1 (code + count ! i))) [1..<MAXCODELEN] (replicate MAXCODELEN 0, 0))"

fun mirror_code :: "nat \<Rightarrow> int \<Rightarrow> int \<Rightarrow> int" where
  "mirror_code 0 code acc = acc"
| "mirror_code (Suc n) code acc = mirror_code n (drop_bit 1 code) (push_bit 1 acc OR (code AND 1))"

fun assign_codes :: "nat list \<Rightarrow> int list \<Rightarrow> int list" where
  "assign_codes [] start = []"
| "assign_codes (l # ls) start = mirror_code l (start ! l) 0 # assign_codes ls (start[l := start ! l + 1])"

definition huffman_codes :: "nat list \<Rightarrow> int list" where
  "huffman_codes lengths = assign_codes lengths (start_codes (length_counts lengths))"

text \<open>
  The arrays \<open>count\<close> and \<open>startcode\<close> have \<open>MAXCODELEN\<close> entries and \<open>codes\<close> has \<open>MAXSYMS\<close>: a code length or
  a number of lengths beyond that is an index out of bounds.
\<close>

definition zlib_mktable :: "nat list \<Rightarrow> zlib_table option" where
  "zlib_mktable lengths =
     (if length lengths \<le> MAXSYMS \<and> list_all (\<lambda>l. l < MAXCODELEN) lengths
      then Some (zlib_mkonetab (huffman_codes lengths) lengths 0 0 (if max_length lengths < 9 then max_length lengths else 9))
      else None)"

section \<open>Looking up a symbol\<close>

datatype lookup = Need_more | Missing | Symbol int "32 word" int

function zlib_huflookup :: "32 word \<Rightarrow> int \<Rightarrow> zlib_table \<Rightarrow> lookup option" where
  "zlib_huflookup bits nbits tab =
     (case nth_opt (zt_table tab) (uint bits AND zt_mask tab) of
        None \<Rightarrow> None
      | Some ent \<Rightarrow>
          if te_nbits ent > nbits then Some Need_more
          else
            let bits = drop_bit (nat (te_nbits ent)) bits; nbits = nbits - te_nbits ent in
            if te_code ent = - 1 then
              (case te_next ent of None \<Rightarrow> Some Missing | Some tab \<Rightarrow> zlib_huflookup bits nbits tab)
            else Some (Symbol (te_code ent) bits nbits))"
  by auto
termination
proof (relation "measure (\<lambda>(bits, nbits, tab). size tab)", goal_cases)
  case (2 bits nbits tab ent b n t)
  then have "ent \<in> set (zt_table tab)" by (auto simp: in_set_nth_opt)
  then have "size ent < size tab" by (cases tab) (auto dest: size_list_estimation' [of _ _ _ size])
  then show ?case using 2(6) by (cases ent) auto
qed simp

declare zlib_huflookup.simps [simp del]

section \<open>What a table holds\<close>

text \<open>
  Codes are given with their first bit lowest. \<open>active\<close> symbols are those whose code goes on after the
  prefix; one \<open>hits\<close> an index of the table when the bits they share agree.
\<close>

definition active :: "int list \<Rightarrow> nat list \<Rightarrow> int \<Rightarrow> nat \<Rightarrow> nat \<Rightarrow> bool" where
  "active codes lengths pfx pfxbits i \<longleftrightarrow> i < length lengths \<and> pfxbits < lengths ! i \<and> take_bit pfxbits (codes ! i) = pfx"

definition hits :: "int list \<Rightarrow> nat list \<Rightarrow> int \<Rightarrow> nat \<Rightarrow> nat \<Rightarrow> nat \<Rightarrow> int \<Rightarrow> bool" where
  "hits codes lengths pfx pfxbits bits i p \<longleftrightarrow> active codes lengths pfx pfxbits i \<and>
     take_bit (min (lengths ! i - pfxbits) bits) p = take_bit (min (lengths ! i - pfxbits) bits) (drop_bit pfxbits (codes ! i))"

definition codes_fit :: "int list \<Rightarrow> nat list \<Rightarrow> bool" where
  "codes_fit codes lengths \<longleftrightarrow> length codes = length lengths \<and> (\<forall>i < length lengths. take_bit (lengths ! i) (codes ! i) = codes ! i)"

definition prefix_free :: "int list \<Rightarrow> nat list \<Rightarrow> bool" where
  "prefix_free codes lengths \<longleftrightarrow> (\<forall>i < length lengths. \<forall>j < length lengths. i \<noteq> j \<longrightarrow> 0 < lengths ! i \<longrightarrow> lengths ! i \<le> lengths ! j \<longrightarrow>
     take_bit (lengths ! i) (codes ! j) \<noteq> codes ! i)"

lemma and_low: "x AND (2 ^ n - 1) = take_bit n x" for x :: int
  by (simp add: take_bit_eq_mask mask_eq_exp_minus_1)

lemma length_fill_from [simp]: "length (fill_from t m i n k) = length t"
  by (induction t m i n k rule: fill_from.induct) (subst fill_from.simps, simp)

lemma nth_fill_from:
  "0 \<le> j \<Longrightarrow> 0 \<le> p \<Longrightarrow> p < int (length tab) \<Longrightarrow> m < int (length tab) \<Longrightarrow>
    fill_from tab m i n j ! nat p = (if j \<le> p \<and> p \<le> m \<and> 2 ^ n dvd p - j then (max (fst (tab ! nat p)) (int n), int i) else tab ! nat p)"
proof (induction tab m i n j rule: fill_from.induct)
  case (1 tab m i n j)
  show ?case
  proof (cases "j \<le> m")
    case False
    then show ?thesis by (subst fill_from.simps) auto
  next
    case True
    let ?t = "tab[nat j := (if fst (tab ! nat j) < int n then int n else fst (tab ! nat j), int i)]"
    have "fill_from tab m i n j = fill_from ?t m i n (j + 2 ^ n)"
      using True by (subst fill_from.simps) (simp add: push_bit_eq_mult)
    moreover have rec: "fill_from ?t m i n (j + 2 ^ n) ! nat p =
        (if j + 2 ^ n \<le> p \<and> p \<le> m \<and> 2 ^ n dvd p - (j + 2 ^ n) then (max (fst (?t ! nat p)) (int n), int i) else ?t ! nat p)"
    proof -
      have pb: "push_bit n 1 = (2 ^ n :: int)" by simp
      show ?thesis by (rule 1(1) [OF True, unfolded pb]) (use 1(2-5) in simp_all)
    qed
    ultimately have eq: "fill_from tab m i n j ! nat p =
        (if j + 2 ^ n \<le> p \<and> p \<le> m \<and> 2 ^ n dvd p - (j + 2 ^ n) then (max (fst (?t ! nat p)) (int n), int i) else ?t ! nat p)"
      by (simp only:)
    show ?thesis
    proof (cases "p = j")
      case True
      have "\<not> j + 2 ^ n \<le> j" by simp
      then show ?thesis unfolding eq using True 1(3,4) \<open>j \<le> m\<close> by (simp add: max_def nat_less_iff)
    next
      case False
      then have t: "?t ! nat p = tab ! nat p" using 1(2,3) by (simp add: nat_eq_iff)
      have e: "p - (j + 2 ^ n) = (p - j) - 2 ^ n" by simp
      have d: "2 ^ n dvd p - (j + 2 ^ n) \<longleftrightarrow> 2 ^ n dvd p - j" unfolding e
        using dvd_add [of "2 ^ n" "(p - j) - 2 ^ n" "2 ^ n"] dvd_diff [of "2 ^ n" "p - j" "2 ^ n"] by auto
      have "j + 2 ^ n \<le> p" if "2 ^ n dvd p - j" "j \<le> p"
        using zdvd_imp_le [OF that(1)] that(2) False by simp
      moreover have "j \<le> p" if "j + 2 ^ n \<le> p" using that zero_le_power [of "2 :: int" n] by linarith
      ultimately have "j + 2 ^ n \<le> p \<and> p \<le> m \<and> 2 ^ n dvd p - (j + 2 ^ n) \<longleftrightarrow> j \<le> p \<and> p \<le> m \<and> 2 ^ n dvd p - j"
        unfolding d by blast
      then show ?thesis unfolding eq t by (simp only:)
    qed
  qed
qed

lemma nth_fill_symbol:
  assumes fit: "codes_fit codes lengths" and len: "length tab = 2 ^ bits" and i: "i < length lengths" and p: "0 \<le> p" "p < 2 ^ bits"
  shows "fill_symbol codes lengths pfx pfxbits (push_bit bits 1 - 1) i tab ! nat p =
    (if hits codes lengths pfx pfxbits bits i p then (max (fst (tab ! nat p)) (int (lengths ! i - pfxbits)), int i) else tab ! nat p)"
proof (cases "active codes lengths pfx pfxbits i")
  case False
  then show ?thesis using i by (auto simp: fill_symbol_def and_low active_def hits_def)
next
  case True
  define l where "l = lengths ! i - pfxbits"
  define c where "c = drop_bit pfxbits (codes ! i)"
  have c: "take_bit l c = c"
  proof -
    have "take_bit l c = drop_bit pfxbits (take_bit (lengths ! i) (codes ! i))"
      using True by (simp add: c_def l_def take_bit_drop_bit active_def)
    then show ?thesis using fit i by (simp add: codes_fit_def c_def)
  qed
  define j where "j = take_bit bits c"
  have j: "0 \<le> j" "j < 2 ^ bits" by (simp_all add: j_def)
  have "fill_symbol codes lengths pfx pfxbits (push_bit bits 1 - 1) i tab = fill_from tab (2 ^ bits - 1) i l j"
    using True by (simp add: fill_symbol_def active_def and_low l_def c_def j_def)
  then have "fill_symbol codes lengths pfx pfxbits (push_bit bits 1 - 1) i tab ! nat p =
      (if j \<le> p \<and> p \<le> 2 ^ bits - 1 \<and> 2 ^ l dvd p - j then (max (fst (tab ! nat p)) (int l), int i) else tab ! nat p)"
    using nth_fill_from [OF j(1) p(1), of tab "2 ^ bits - 1" i l] p(2) len by simp
  moreover have "j \<le> p \<and> p \<le> 2 ^ bits - 1 \<and> 2 ^ l dvd p - j \<longleftrightarrow> take_bit (min l bits) p = take_bit (min l bits) c"
  proof (cases "l \<le> bits")
    case True
    then have "j = c" using c by (metis j_def min.absorb2 take_bit_take_bit)
    have "c < 2 ^ l" using c by (metis take_bit_int_less_exp)
    have "2 ^ l dvd p - j \<longleftrightarrow> take_bit l p = take_bit l c"
      by (simp add: \<open>j = c\<close> take_bit_eq_mod mod_eq_dvd_iff)
    moreover have "c \<le> p" if "take_bit l p = take_bit l c"
      using that c p(1) by (metis take_bit_int_less_eq_self_iff)
    ultimately show ?thesis using True p(2) \<open>j = c\<close> by auto
  next
    case False
    then have e: "take_bit (min l bits) p = take_bit (min l bits) c \<longleftrightarrow> p = j"
      using p by (simp add: j_def take_bit_int_eq_self)
    have "\<not> 2 ^ l dvd p - j" if "j < p"
    proof
      assume "2 ^ l dvd p - j"
      then have "2 ^ l \<le> p - j" using that by (intro zdvd_imp_le) auto
      moreover have "(2 :: int) ^ bits \<le> 2 ^ l" using False by (intro power_increasing) auto
      ultimately show False using p(2) j(1) by linarith
    qed
    then show ?thesis unfolding e using p j by (cases "p = j") auto
  qed
  ultimately show ?thesis using True by (simp add: hits_def l_def c_def)
qed

text \<open>After all symbols, an index holds the last symbol that hits it and the greatest number of bits.\<close>

definition entry_ok :: "int list \<Rightarrow> nat list \<Rightarrow> int \<Rightarrow> nat \<Rightarrow> nat \<Rightarrow> nat set \<Rightarrow> int \<Rightarrow> int \<times> int \<Rightarrow> bool" where
  "entry_ok codes lengths pfx pfxbits bits A p e \<longleftrightarrow>
     (\<forall>i \<in> A. hits codes lengths pfx pfxbits bits i p \<longrightarrow> int (lengths ! i - pfxbits) \<le> fst e) \<and>
     (if \<exists>i \<in> A. hits codes lengths pfx pfxbits bits i p
      then (\<exists>i \<in> A. hits codes lengths pfx pfxbits bits i p \<and> snd e = int i) \<and>
        (\<exists>i \<in> A. hits codes lengths pfx pfxbits bits i p \<and> fst e = int (lengths ! i - pfxbits))
      else e = (0, - 1))"

lemma fill_table_entries:
  assumes "codes_fit codes lengths" "0 \<le> p" "p < 2 ^ bits"
  shows "set is \<subseteq> {..<length lengths} \<Longrightarrow> length tab = 2 ^ bits \<Longrightarrow> entry_ok codes lengths pfx pfxbits bits A p (tab ! nat p) \<Longrightarrow>
    entry_ok codes lengths pfx pfxbits bits (A \<union> set is) p
      (fold (fill_symbol codes lengths pfx pfxbits (push_bit bits 1 - 1)) is tab ! nat p)"
proof (induction "is" arbitrary: tab A)
  case (Cons i "is")
  let ?h = "hits codes lengths pfx pfxbits bits i p"
  let ?tab = "fill_symbol codes lengths pfx pfxbits (push_bit bits 1 - 1) i tab"
  have i: "i < length lengths" using Cons.prems(1) by simp
  have e: "?tab ! nat p = (if ?h then (max (fst (tab ! nat p)) (int (lengths ! i - pfxbits)), int i) else tab ! nat p)"
    by (rule nth_fill_symbol [OF assms(1) Cons.prems(2) i assms(2,3)])
  have "entry_ok codes lengths pfx pfxbits bits (insert i A) p (?tab ! nat p)"
  proof (cases ?h)
    case True
    show ?thesis
    proof (cases "\<exists>i \<in> A. hits codes lengths pfx pfxbits bits i p")
      case ex: True
      then obtain k where k: "k \<in> A" "hits codes lengths pfx pfxbits bits k p" "fst (tab ! nat p) = int (lengths ! k - pfxbits)"
        using Cons.prems(3) by (auto simp: entry_ok_def)
      then show ?thesis using True Cons.prems(3) ex unfolding entry_ok_def e
        by (cases "fst (tab ! nat p) \<le> int (lengths ! i - pfxbits)") (auto simp: max_def)
    next
      case False
      then show ?thesis using True Cons.prems(3) unfolding entry_ok_def e by (auto simp: max_def)
    qed
  next
    case False
    then show ?thesis using Cons.prems(3) unfolding entry_ok_def e by auto
  qed
  moreover have "length ?tab = 2 ^ bits" using Cons.prems(2) by (simp add: fill_symbol_def)
  ultimately show ?case using Cons.IH [of ?tab "insert i A"] Cons.prems(1) by simp
qed simp

lemma fill_table_ok:
  assumes "codes_fit codes lengths" "0 \<le> p" "p < 2 ^ bits"
  shows "entry_ok codes lengths pfx pfxbits bits {..<length lengths} p (fill_table codes lengths pfx pfxbits bits ! nat p)"
proof -
  have "entry_ok codes lengths pfx pfxbits bits {} p (replicate (2 ^ bits) (0, - 1) ! nat p)"
    using assms(2,3) by (simp add: entry_ok_def nat_less_iff)
  from fill_table_entries [OF assms, of "[0..<length lengths]" "replicate (2 ^ bits) (0, - 1)", OF _ _ this]
  show ?thesis by (simp add: fill_table_def lessThan_atLeast0)
qed

text \<open>Two active symbols that share their first bits behind the prefix share them from the start.\<close>

lemma take_bit_prefix:
  fixes c d :: int
  assumes "take_bit p c = take_bit p d" "take_bit n (drop_bit p c) = take_bit n (drop_bit p d)"
  shows "take_bit (p + n) c = take_bit (p + n) d"
proof (rule bit_eqI)
  fix k
  have "bit c k = bit d k" if "k < p"
    using arg_cong [OF assms(1), of "\<lambda>x. bit x k"] that by (simp add: bit_take_bit_iff)
  moreover have "bit c k = bit d k" if "\<not> k < p" "k < p + n"
  proof -
    have "k - p < n" using that by linarith
    then show ?thesis
      using arg_cong [OF assms(2), of "\<lambda>x. bit x (k - p)"] that by (simp add: bit_take_bit_iff bit_drop_bit_eq)
  qed
  ultimately show "bit (take_bit (p + n) c) k = bit (take_bit (p + n) d) k" by (auto simp: bit_take_bit_iff)
qed

lemma short_hit_unique:
  assumes fit: "codes_fit codes lengths" and free: "prefix_free codes lengths"
    and i: "hits codes lengths pfx pfxbits bits i p" "lengths ! i - pfxbits \<le> bits"
    and j: "hits codes lengths pfx pfxbits bits j p"
  shows "i = j"
proof (rule ccontr)
  assume ne: "i \<noteq> j"
  have a: "i < length lengths" "pfxbits < lengths ! i" "take_bit pfxbits (codes ! i) = pfx"
    "j < length lengths" "pfxbits < lengths ! j" "take_bit pfxbits (codes ! j) = pfx"
    using i(1) j by (auto simp: hits_def active_def)
  have key: False if "k < length lengths" "l < length lengths" "k \<noteq> l" "pfxbits < lengths ! k" "lengths ! k \<le> lengths ! l"
    "take_bit pfxbits (codes ! k) = pfx" "take_bit pfxbits (codes ! l) = pfx"
    "take_bit (lengths ! k - pfxbits) (drop_bit pfxbits (codes ! k)) = take_bit (lengths ! k - pfxbits) (drop_bit pfxbits (codes ! l))" for k l
  proof -
    have "take_bit (pfxbits + (lengths ! k - pfxbits)) (codes ! k) = take_bit (pfxbits + (lengths ! k - pfxbits)) (codes ! l)"
      by (rule take_bit_prefix) (simp_all add: that)
    then have "codes ! k = take_bit (lengths ! k) (codes ! l)" using fit that(1,4) by (simp add: codes_fit_def)
    moreover have "0 < lengths ! k" using that(4) by simp
    ultimately show False using free that(1-3,5) unfolding prefix_free_def by metis
  qed
  define li lj where "li = lengths ! i - pfxbits" and "lj = lengths ! j - pfxbits"
  have hi: "take_bit li p = take_bit li (drop_bit pfxbits (codes ! i))"
    using i by (simp add: hits_def li_def min_absorb1)
  have hj: "take_bit (min lj bits) p = take_bit (min lj bits) (drop_bit pfxbits (codes ! j))"
    using j by (simp add: hits_def lj_def)
  have sub: "take_bit n (drop_bit pfxbits (codes ! i)) = take_bit n (drop_bit pfxbits (codes ! j))" if "n \<le> li" "n \<le> lj" for n
  proof -
    have n: "n \<le> min lj bits" using that i(2) by (simp add: li_def)
    have "take_bit n (drop_bit pfxbits (codes ! i)) = take_bit n p"
      using arg_cong [OF hi, of "take_bit n"] that by (simp add: min_absorb1)
    also have "\<dots> = take_bit n (drop_bit pfxbits (codes ! j))"
      using arg_cong [OF hj, of "take_bit n"] n by (simp add: min_absorb1)
    finally show ?thesis .
  qed
  show False
  proof (cases "lengths ! i \<le> lengths ! j")
    case True
    then show False using key [of i j] a ne sub [of li] by (simp add: li_def lj_def)
  next
    case False
    then show False using key [of j i] a ne sub [of lj] by (simp add: li_def lj_def)
  qed
qed

section \<open>Lookups\<close>

lemma mkonetab_mask: "zt_mask (zlib_mkonetab codes lengths pfx pfxbits bits) = 2 ^ bits - 1"
  by (subst zlib_mkonetab.simps) (simp add: Let_def)

lemma mkonetab_entry:
  assumes "0 \<le> p" "p < 2 ^ bits" "fill_table codes lengths pfx pfxbits bits ! nat p = (nb, code)"
  shows "nth_opt (zt_table (zlib_mkonetab codes lengths pfx pfxbits bits)) p =
    Some (if nb \<le> int bits then Entry nb code None
      else Entry (int bits) (- 1) (Some (zlib_mkonetab codes lengths (pfx OR push_bit pfxbits p) (pfxbits + bits)
        (nat (if nb - int bits > 7 then 7 else nb - int bits)))))"
proof -
  have "nat p < 2 ^ bits" using assms(1,2) by (simp add: nat_less_iff)
  then show ?thesis using assms by (subst zlib_mkonetab.simps) (simp add: Let_def nth_opt_def)
qed

lemma huflookup_entry:
  assumes "fill_table codes lengths pfx pfxbits bits ! nat (take_bit bits (uint w)) = (nb, code)" "0 \<le> nb"
  shows "zlib_huflookup w n (zlib_mkonetab codes lengths pfx pfxbits bits) =
    (if nb \<le> int bits then
       if n < nb then Some Need_more
       else if code = - 1 then Some Missing
       else Some (Symbol code (drop_bit (nat nb) w) (n - nb))
     else if n < int bits then Some Need_more
     else zlib_huflookup (drop_bit bits w) (n - int bits)
       (zlib_mkonetab codes lengths (pfx OR push_bit pfxbits (take_bit bits (uint w))) (pfxbits + bits)
         (nat (if nb - int bits > 7 then 7 else nb - int bits))))"
proof -
  have "uint w AND zt_mask (zlib_mkonetab codes lengths pfx pfxbits bits) = take_bit bits (uint w)"
    by (simp add: mkonetab_mask and_low)
  moreover have "0 \<le> take_bit bits (uint w)" "take_bit bits (uint w) < 2 ^ bits" by simp_all
  note mkonetab_entry [OF this assms(1)]
  ultimately show ?thesis by (subst zlib_huflookup.simps) (simp add: Let_def)
qed

text \<open>The prefix of a subtable.\<close>

lemma sub_prefix:
  fixes c :: int
  assumes "take_bit p c = pfx"
  shows "take_bit (p + n) c = pfx OR push_bit p (take_bit n (drop_bit p c))"
  by (rule bit_eqI) (auto simp: bit_simps assms [symmetric])

lemma active_hits:
  assumes "active codes lengths pfx pfxbits i" "take_bit (min (lengths ! i - pfxbits) bits) x = take_bit (min (lengths ! i - pfxbits) bits) (drop_bit pfxbits (codes ! i))"
  shows "hits codes lengths pfx pfxbits bits i (take_bit bits x)"
  using assms by (simp add: hits_def)

lemma hit_entry:
  assumes "codes_fit codes lengths" "prefix_free codes lengths" "hits codes lengths pfx pfxbits bits i p" "0 \<le> p" "p < 2 ^ bits"
  obtains (short) "lengths ! i - pfxbits \<le> bits" "fill_table codes lengths pfx pfxbits bits ! nat p = (int (lengths ! i - pfxbits), int i)"
  | (long) nb code where "bits < lengths ! i - pfxbits" "fill_table codes lengths pfx pfxbits bits ! nat p = (nb, code)" "int bits < nb"
proof -
  obtain nb code where e: "fill_table codes lengths pfx pfxbits bits ! nat p = (nb, code)" by (cases "fill_table codes lengths pfx pfxbits bits ! nat p")
  have i: "i < length lengths" using assms(3) by (simp add: hits_def active_def)
  note ok = fill_table_ok [OF assms(1,4,5), of pfx pfxbits, unfolded e]
  show thesis
  proof (cases "lengths ! i - pfxbits \<le> bits")
    case True
    have "j = i" if "hits codes lengths pfx pfxbits bits j p" for j
      using short_hit_unique [OF assms(1-3) True that] by simp
    moreover have ex: "\<exists>k \<in> {..<length lengths}. hits codes lengths pfx pfxbits bits k p" using assms(3) i by blast
    note ok [unfolded entry_ok_def if_P [OF ex] fst_conv snd_conv]
    ultimately have "nb = int (lengths ! i - pfxbits) \<and> code = int i" by metis
    then show thesis using short [OF True] e by simp
  next
    case False
    then have "int (lengths ! i - pfxbits) \<le> nb" using ok assms(3) i by (auto simp: entry_ok_def)
    then show thesis using long [of nb code] False e by simp
  qed
qed

lemma uint_drop_bit: "uint (drop_bit n w) = drop_bit n (uint w)"
  by (rule bit_eqI) (auto simp: bit_simps dest: bit_imp_le_length)

lemma lookup_symbol:
  assumes fit: "codes_fit codes lengths" and free: "prefix_free codes lengths"
  shows "active codes lengths pfx pfxbits i \<Longrightarrow> 0 < bits \<Longrightarrow> int (lengths ! i - pfxbits) \<le> n \<Longrightarrow>
    take_bit (lengths ! i - pfxbits) (uint w) = drop_bit pfxbits (codes ! i) \<Longrightarrow>
    zlib_huflookup w n (zlib_mkonetab codes lengths pfx pfxbits bits) =
      Some (Symbol (int i) (drop_bit (lengths ! i - pfxbits) w) (n - int (lengths ! i - pfxbits)))"
proof (induction "lengths ! i - pfxbits" arbitrary: pfx pfxbits bits w n rule: less_induct)
  case less
  define l where "l = lengths ! i - pfxbits"
  define p where "p = take_bit bits (uint w)"
  have p: "0 \<le> p" "p < 2 ^ bits" by (simp_all add: p_def)
  have c: "drop_bit pfxbits (codes ! i) = take_bit l (uint w)" using less.prems(4) by (simp add: l_def)
  have h: "hits codes lengths pfx pfxbits bits i p"
    unfolding p_def by (rule active_hits [OF less.prems(1)]) (simp add: c, simp add: l_def min_def)
  show ?case
  proof (cases rule: hit_entry [OF fit free h p, case_names short long])
    case short
    then show ?thesis using huflookup_entry [of codes lengths pfx pfxbits bits w _ _ n] less.prems(3)
      by (simp add: p_def)
  next
    case (long nb code)
    have bl: "bits < l" using long(1) by (simp add: l_def)
    let ?bits = "nat (if nb - int bits > 7 then 7 else nb - int bits)"
    have "zlib_huflookup w n (zlib_mkonetab codes lengths pfx pfxbits bits) =
        zlib_huflookup (drop_bit bits w) (n - int bits) (zlib_mkonetab codes lengths (pfx OR push_bit pfxbits p) (pfxbits + bits) ?bits)"
      using huflookup_entry [of codes lengths pfx pfxbits bits w nb code n] long(2,3) less.prems(3) bl
      by (simp add: p_def l_def)
    also have "\<dots> = Some (Symbol (int i) (drop_bit (lengths ! i - (pfxbits + bits)) (drop_bit bits w)) (n - int bits - int (lengths ! i - (pfxbits + bits))))"
    proof (rule less.hyps)
      show "lengths ! i - (pfxbits + bits) < lengths ! i - pfxbits" using bl less.prems(2) by (simp add: l_def)
      have "take_bit bits (drop_bit pfxbits (codes ! i)) = p" using bl by (simp add: c p_def min_absorb2)
      then have "take_bit (pfxbits + bits) (codes ! i) = pfx OR push_bit pfxbits p"
        using sub_prefix [of pfxbits "codes ! i" pfx bits] less.prems(1) by (simp add: active_def)
      then show "active codes lengths (pfx OR push_bit pfxbits p) (pfxbits + bits) i"
        using less.prems(1) bl by (simp add: active_def l_def)
      show "0 < ?bits" using long(3) by simp
      show "int (lengths ! i - (pfxbits + bits)) \<le> n - int bits" using less.prems(3) bl by (simp add: l_def)
      have "drop_bit (pfxbits + bits) (codes ! i) = drop_bit bits (take_bit l (uint w))"
        unfolding c [symmetric] by (simp add: drop_bit_drop_bit add.commute)
      then show "take_bit (lengths ! i - (pfxbits + bits)) (uint (drop_bit bits w)) = drop_bit (pfxbits + bits) (codes ! i)"
        by (simp add: l_def drop_bit_take_bit uint_drop_bit)
    qed
    finally show ?thesis using bl by (simp add: l_def)
  qed
qed

text \<open>A code that fills the tree: every sequence of bits starts with the code of some symbol.\<close>

definition complete_code :: "int list \<Rightarrow> nat list \<Rightarrow> bool" where
  "complete_code codes lengths \<longleftrightarrow> (\<forall>x. \<exists>i < length lengths. 0 < lengths ! i \<and> take_bit (lengths ! i) x = codes ! i)"

lemma prefix_freeD:
  assumes "prefix_free codes lengths" "i < length lengths" "j < length lengths" "0 < lengths ! i" "lengths ! i \<le> lengths ! j"
    "take_bit (lengths ! i) (codes ! j) = codes ! i"
  shows "i = j"
  using assms unfolding prefix_free_def by metis

text \<open>With fewer bits in hand than the next symbol has, more bits are asked for.\<close>

lemma lookup_short:
  assumes fit: "codes_fit codes lengths" and free: "prefix_free codes lengths" and full: "complete_code codes lengths"
  shows "active codes lengths pfx pfxbits i \<Longrightarrow> 0 < bits \<Longrightarrow> n < lengths ! i - pfxbits \<Longrightarrow> uint w < 2 ^ n \<Longrightarrow>
    uint w = take_bit n (drop_bit pfxbits (codes ! i)) \<Longrightarrow>
    zlib_huflookup w (int n) (zlib_mkonetab codes lengths pfx pfxbits bits) = Some Need_more"
proof (induction "lengths ! i - pfxbits" arbitrary: pfx pfxbits bits w n rule: less_induct)
  case less
  define l where "l = lengths ! i - pfxbits"
  define p where "p = take_bit bits (uint w)"
  have p: "0 \<le> p" "p < 2 ^ bits" by (simp_all add: p_def)
  have act: "i < length lengths" "pfxbits < lengths ! i" "take_bit pfxbits (codes ! i) = pfx"
    using less.prems(1) by (auto simp: active_def)
  obtain k where k: "k < length lengths" "0 < lengths ! k" "take_bit (lengths ! k) (pfx OR push_bit pfxbits (uint w)) = codes ! k"
    using full unfolding complete_code_def by blast
  have x: "take_bit m (pfx OR push_bit pfxbits (uint w)) = take_bit m (codes ! i)" if "m \<le> pfxbits + n" for m
    by (rule bit_eqI) (use that in \<open>auto simp: bit_simps act(3) [symmetric] less.prems(5)\<close>)
  have long: "pfxbits + n < lengths ! k"
  proof (rule ccontr)
    assume "\<not> pfxbits + n < lengths ! k"
    then have le: "lengths ! k \<le> pfxbits + n" by simp
    then have "take_bit (lengths ! k) (codes ! i) = codes ! k" using x k(3) by simp
    moreover have "lengths ! k < lengths ! i" using le less.prems(3) by simp
    ultimately show False using prefix_freeD [OF free k(1) act(1) k(2)] by auto
  qed
  have x0: "take_bit pfxbits (pfx OR push_bit pfxbits (uint w)) = pfx"
    by (rule bit_eqI) (auto simp: bit_simps act(3) [symmetric])
  have "take_bit pfxbits (codes ! k) = pfx"
    using arg_cong [OF k(3), of "take_bit pfxbits"] long x0 by (simp add: min_absorb2)
  then have ak: "active codes lengths pfx pfxbits k" using k(1) long by (simp add: active_def)
  have dk: "drop_bit pfxbits (codes ! k) = take_bit (lengths ! k - pfxbits) (uint w)"
    unfolding k(3) [symmetric] drop_bit_take_bit by (rule arg_cong [of _ _ "take_bit _"], rule bit_eqI) (auto simp: bit_simps act(3) [symmetric])
  have hk: "hits codes lengths pfx pfxbits bits k p"
    unfolding p_def by (rule active_hits [OF ak]) (simp add: dk min_def)
  show ?case
  proof (cases rule: hit_entry [OF fit free hk p, case_names short long])
    case short
    then have "int (lengths ! k) - int pfxbits \<le> int bits" "int n < int (lengths ! k) - int pfxbits" using long by linarith+
    then show ?thesis using huflookup_entry [of codes lengths pfx pfxbits bits w _ _ "int n"] short(2) long by (simp add: p_def)
  next
    case (long nb code)
    show ?thesis
    proof (cases "n < bits")
      case True
      then show ?thesis using huflookup_entry [of codes lengths pfx pfxbits bits w nb code "int n"] long by (simp add: p_def)
    next
      case False
      let ?bits = "nat (if nb - int bits > 7 then 7 else nb - int bits)"
      have bl: "bits < l" using False less.prems(3) by (simp add: l_def)
      have "zlib_huflookup w (int n) (zlib_mkonetab codes lengths pfx pfxbits bits) =
          zlib_huflookup (drop_bit bits w) (int (n - bits)) (zlib_mkonetab codes lengths (pfx OR push_bit pfxbits p) (pfxbits + bits) ?bits)"
        using huflookup_entry [of codes lengths pfx pfxbits bits w nb code "int n"] long(2,3) False
        by (simp add: p_def of_nat_diff)
      also have "\<dots> = Some Need_more"
      proof (rule less.hyps)
        show "lengths ! i - (pfxbits + bits) < lengths ! i - pfxbits" using bl less.prems(2) by (simp add: l_def)
        have "take_bit bits (drop_bit pfxbits (codes ! i)) = p"
          using False arg_cong [OF less.prems(5), of "take_bit bits"] by (simp add: p_def min_absorb1)
        then have "take_bit (pfxbits + bits) (codes ! i) = pfx OR push_bit pfxbits p"
          using sub_prefix [OF act(3), of bits] by simp
        then show "active codes lengths (pfx OR push_bit pfxbits p) (pfxbits + bits) i"
          using act bl by (simp add: active_def l_def)
        show "0 < ?bits" using long(3) by simp
        show "n - bits < lengths ! i - (pfxbits + bits)" using less.prems(3) False by simp
        have u: "uint (drop_bit bits w) = take_bit (n - bits) (drop_bit (pfxbits + bits) (codes ! i))"
          using False by (simp add: uint_drop_bit less.prems(5) drop_bit_take_bit drop_bit_drop_bit add.commute)
        then show "uint (drop_bit bits w) = take_bit (n - bits) (drop_bit (pfxbits + bits) (codes ! i))" .
        show "uint (drop_bit bits w) < 2 ^ (n - bits)" unfolding u by simp
      qed
      finally show ?thesis .
    qed
  qed
qed

end
