(* ===== verification/Canonical.thy ===== *)
theory Canonical
  imports Huffman
begin

text \<open>
  The codes \<open>zlib_mktable\<close> assigns are the canonical ones of RFC 1951, section 3.2.2: a code starts where the
  shorter codes, and those of its length with smaller symbols, end. For lengths that fit into a tree the
  codes are free of prefixes, and the tables find each of them.
\<close>

unbundle bit_operations_syntax

definition before :: "nat list \<Rightarrow> nat \<Rightarrow> nat set" where
  "before lengths i = {k. k < length lengths \<and> 0 < lengths ! k \<and> (lengths ! k < lengths ! i \<or> lengths ! k = lengths ! i \<and> k < i)}"

definition canonical :: "nat list \<Rightarrow> nat \<Rightarrow> int" where
  "canonical lengths i = (\<Sum>k \<in> before lengths i. 2 ^ (lengths ! i - lengths ! k))"

text \<open>The share of a tree of depth 15 that the codes take, in leaves.\<close>

definition kraft :: "nat list \<Rightarrow> int" where
  "kraft lengths = (\<Sum>l \<leftarrow> lengths. if l = 0 then 0 else 2 ^ (15 - l))"

definition lengths_ok :: "nat list \<Rightarrow> bool" where
  "lengths_ok lengths \<longleftrightarrow> length lengths \<le> MAXSYMS \<and> list_all (\<lambda>l. l < MAXCODELEN) lengths \<and> kraft lengths \<le> 2 ^ 15"

lemma before_filter [code]:
  "before lengths i = set (filter (\<lambda>k. 0 < lengths ! k \<and> (lengths ! k < lengths ! i \<or> lengths ! k = lengths ! i \<and> k < i)) [0..<length lengths])"
  by (auto simp: before_def)

lemma lengths_bound: "lengths_ok lengths \<Longrightarrow> list_all (\<lambda>l. l < MAXCODELEN) lengths"
  by (simp add: lengths_ok_def)

lemma finite_before [simp]: "finite (before lengths i)"
  by (simp add: before_def)

section \<open>The codes assigned\<close>

lemma nth_length_counts:
  assumes "list_all (\<lambda>l. l < MAXCODELEN) lengths" "m < MAXCODELEN"
  shows "length_counts lengths ! m = int (count_list lengths m)"
proof -
  have "fold (\<lambda>l count. count[l := count ! l + 1]) ls c ! m = c ! m + int (count_list ls m)"
    if "list_all (\<lambda>l. l < MAXCODELEN) ls" "length c = MAXCODELEN" for ls c
    using that by (induction ls arbitrary: c) (auto simp: nth_list_update assms(2))
  then show ?thesis using assms by (simp add: length_counts_def)
qed

fun start_code :: "int list \<Rightarrow> nat \<Rightarrow> int" where
  "start_code count 0 = 0"
| "start_code count (Suc 0) = 0"
| "start_code count (Suc (Suc l)) = 2 * (start_code count (Suc l) + count ! Suc l)"

lemma start_codes_fold:
  "n < MAXCODELEN \<Longrightarrow> fold (\<lambda>i (start, code). (start[i := code], push_bit 1 (code + count ! i))) [1..<Suc n] (replicate MAXCODELEN 0, 0) = (s, c) \<Longrightarrow>
    length s = MAXCODELEN \<and> (\<forall>l. 1 \<le> l \<and> l \<le> n \<longrightarrow> s ! l = start_code count l) \<and> c = start_code count (Suc n)"
proof (induction n arbitrary: s c)
  case (Suc n)
  let ?f = "\<lambda>i (start, code). (start[i := code], push_bit 1 (code + count ! i))"
  obtain s' c' where p: "fold ?f [1..<Suc n] (replicate MAXCODELEN 0, 0) = (s', c')" by fastforce
  note ih = Suc.IH [OF _ p]
  have "[1..<Suc (Suc n)] = [1..<Suc n] @ [Suc n]" by simp
  then have e: "(s, c) = ?f (Suc n) (s', c')" using Suc.prems(2) p by (simp del: upt_Suc)
  then show ?case using ih Suc.prems(1) by (auto simp: nth_list_update le_Suc_eq push_bit_eq_mult)
qed auto

lemma nth_start_codes: "1 \<le> l \<Longrightarrow> l < MAXCODELEN \<Longrightarrow> start_codes count ! l = start_code count l"
  and length_start_codes: "length (start_codes count) = MAXCODELEN"
proof -
  obtain s c where p: "fold (\<lambda>i (start, code). (start[i := code], push_bit 1 (code + count ! i))) [1..<Suc 15] (replicate MAXCODELEN 0, 0) = (s, c)"
    by fastforce
  note q = start_codes_fold [OF _ p]
  have "start_codes count = s" using p by (simp add: start_codes_def MAXCODELEN_def)
  then show "1 \<le> l \<Longrightarrow> l < MAXCODELEN \<Longrightarrow> start_codes count ! l = start_code count l" "length (start_codes count) = MAXCODELEN"
    using q by (auto simp: MAXCODELEN_def)
qed

lemma length_assign_codes [simp]: "length (assign_codes ls start) = length ls"
  by (induction ls start rule: assign_codes.induct) auto

lemma nth_assign_codes:
  "i < length ls \<Longrightarrow> \<forall>l \<in> set ls. l < length start \<Longrightarrow>
    assign_codes ls start ! i = mirror_code (ls ! i) (start ! (ls ! i) + int (count_list (take i ls) (ls ! i))) 0"
proof (induction ls start arbitrary: i rule: assign_codes.induct)
  case (2 l ls start)
  then show ?case by (cases i) (auto simp: nth_list_update algebra_simps)
qed simp

lemma count_list_card: "i \<le> length ls \<Longrightarrow> count_list (take i ls) l = card {k. k < i \<and> ls ! k = l}"
proof (induction i)
  case (Suc i)
  have "{k. k < Suc i \<and> ls ! k = l} = (if ls ! i = l then insert i {k. k < i \<and> ls ! k = l} else {k. k < i \<and> ls ! k = l})"
    by (auto simp: less_Suc_eq)
  then show ?case using Suc by (simp add: take_Suc_conv_app_nth)
qed simp

lemma start_code_sum:
  assumes "list_all (\<lambda>l. l < MAXCODELEN) lengths"
  shows "1 \<le> l \<Longrightarrow> l < MAXCODELEN \<Longrightarrow>
    start_code (length_counts lengths) l = (\<Sum>k | k < length lengths \<and> 0 < lengths ! k \<and> lengths ! k < l. 2 ^ (l - lengths ! k))"
proof (induction l rule: nat_induct_at_least)
  case base
  have "{k. k < length lengths \<and> 0 < lengths ! k \<and> lengths ! k < 1} = {}" by auto
  then show ?case by simp
next
  case (Suc l')
  then obtain l where l: "l' = Suc l" by (cases l') auto
  let ?A = "{k. k < length lengths \<and> 0 < lengths ! k \<and> lengths ! k < Suc l}"
  let ?B = "{k. k < length lengths \<and> lengths ! k = Suc l}"
  have e: "{k. k < length lengths \<and> 0 < lengths ! k \<and> lengths ! k < Suc (Suc l)} = ?A \<union> ?B" by auto
  have disj: "finite ?A" "finite ?B" "?A \<inter> ?B = {}" by auto
  have "(\<Sum>k | k < length lengths \<and> 0 < lengths ! k \<and> lengths ! k < Suc (Suc l). 2 ^ (Suc (Suc l) - lengths ! k) :: int) =
      (\<Sum>k \<in> ?A. 2 ^ (Suc (Suc l) - lengths ! k)) + (\<Sum>k \<in> ?B. 2 ^ (Suc (Suc l) - lengths ! k))"
    unfolding e by (rule sum.union_disjoint [OF disj])
  moreover have "(\<Sum>k \<in> ?A. 2 ^ (Suc (Suc l) - lengths ! k) :: int) = 2 * (\<Sum>k \<in> ?A. 2 ^ (Suc l - lengths ! k))"
    unfolding sum_distrib_left by (rule sum.cong) (auto simp: Suc_diff_le simp flip: power_Suc)
  moreover have "(\<Sum>k \<in> ?B. 2 ^ (Suc (Suc l) - lengths ! k) :: int) = 2 * int (card ?B)" by simp
  moreover have "length_counts lengths ! Suc l = int (card ?B)"
    using nth_length_counts [OF assms, of "Suc l"] count_list_card [of "length lengths" lengths "Suc l"] Suc.prems l by simp
  moreover have "start_code (length_counts lengths) (Suc l) = (\<Sum>k \<in> ?A. 2 ^ (Suc l - lengths ! k))" using Suc l by simp
  ultimately show ?case unfolding l by (simp add: distrib_left)
qed

lemma nth_huffman_codes:
  assumes ok: "list_all (\<lambda>l. l < MAXCODELEN) lengths" and i: "i < length lengths" "0 < lengths ! i"
  shows "huffman_codes lengths ! i = mirror_code (lengths ! i) (canonical lengths i) 0"
proof -
  let ?l = "lengths ! i"
  let ?A = "{k. k < length lengths \<and> 0 < lengths ! k \<and> lengths ! k < ?l}"
  let ?B = "{k. k < i \<and> lengths ! k = ?l}"
  have l: "1 \<le> ?l" "?l < MAXCODELEN" using ok i by (auto simp: list_all_length)
  have e: "before lengths i = ?A \<union> ?B" using i by (auto simp: before_def)
  have disj: "finite ?A" "finite ?B" "?A \<inter> ?B = {}" by auto
  have "canonical lengths i = (\<Sum>k \<in> ?A. 2 ^ (?l - lengths ! k)) + (\<Sum>k \<in> ?B. 2 ^ (?l - lengths ! k))"
    unfolding canonical_def e by (rule sum.union_disjoint [OF disj])
  also have "\<dots> = start_code (length_counts lengths) ?l + int (card ?B)" using start_code_sum [OF ok l] by simp
  also have "int (card ?B) = int (count_list (take i lengths) ?l)" using count_list_card [of i lengths ?l] i by simp
  finally have c: "canonical lengths i = start_codes (length_counts lengths) ! ?l + int (count_list (take i lengths) ?l)"
    using nth_start_codes [OF l] by simp
  have "\<forall>l \<in> set lengths. l < length (start_codes (length_counts lengths))" using ok by (simp add: list_all_iff length_start_codes)
  then show ?thesis using nth_assign_codes [OF i(1)] c by (simp add: huffman_codes_def)
qed

section \<open>Fitting, free of prefixes, and complete\<close>

lemma int_div_less: "(a :: int) < b * c \<Longrightarrow> 0 < c \<Longrightarrow> a div c < b"
  by (smt (verit) minus_mod_eq_div_mult mult_le_cancel_right pos_mod_sign)

lemma div_bounds:
  fixes a b q :: int
  assumes "a div b = q" "0 < b"
  shows "a < (q + 1) * b" "q * b \<le> a"
  using div_mult_mod_eq [of a b] pos_mod_bound [OF assms(2), of a] pos_mod_sign [OF assms(2), of a]
  unfolding assms(1) distrib_right mult_1 by linarith+

lemma bit_mirror_code: "bit (mirror_code n c acc) k \<longleftrightarrow> (if k < n then bit c (n - 1 - k) else bit acc (k - n))"
proof (induction n c acc arbitrary: k rule: mirror_code.induct)
  case (2 n c acc)
  have b: "bit (push_bit 1 acc OR (c AND 1)) j \<longleftrightarrow> (if j = 0 then bit c 0 else bit acc (j - 1))" for j
    by (cases j) (simp_all add: bit_or_iff bit_and_iff bit_push_bit_iff bit_1_iff del: push_bit_of_Suc_0 push_bit_Suc)
  have d: "bit (drop_bit 1 c) j \<longleftrightarrow> bit c (Suc j)" for j by (simp add: bit_drop_bit_eq)
  show ?case unfolding mirror_code.simps 2 b d by (cases "k = n") (auto simp: less_Suc_eq Suc_diff_Suc)
qed simp

lemma before_less:
  assumes "k \<in> before lengths i"
  shows "lengths ! k \<le> lengths ! i" "k \<noteq> i" "before lengths k \<subseteq> before lengths i" "k \<notin> before lengths k" "k < length lengths" "0 < lengths ! k"
  using assms by (auto simp: before_def)

lemma canonical_nonneg: "0 \<le> canonical lengths i"
  by (simp add: canonical_def sum_nonneg)

text \<open>Where a code starts among the leaves, and that the next one starts behind its leaves.\<close>

lemma canonical_before:
  assumes "k \<in> before lengths i"
  shows "(canonical lengths k + 1) * 2 ^ (lengths ! i - lengths ! k) \<le> canonical lengths i"
proof -
  let ?w = "\<lambda>j. 2 ^ (lengths ! i - lengths ! j) :: int"
  have le: "lengths ! j \<le> lengths ! k" if "j \<in> before lengths k" for j using before_less(1) [OF that] .
  have "canonical lengths k * ?w k = (\<Sum>j \<in> before lengths k. ?w j)"
    unfolding canonical_def sum_distrib_right
    by (rule sum.cong) (use le before_less(1) [OF assms] in \<open>auto simp flip: power_add\<close>)
  then have "(canonical lengths k + 1) * ?w k = (\<Sum>j \<in> insert k (before lengths k). ?w j)"
    using before_less(4) [OF assms] by (simp add: algebra_simps)
  also have "\<dots> \<le> (\<Sum>j \<in> before lengths i. ?w j)"
    by (rule sum_mono2) (use assms before_less(3) [OF assms] in auto)
  finally show ?thesis by (simp add: canonical_def)
qed

lemma kraft_sum: "kraft lengths = (\<Sum>k | k < length lengths \<and> 0 < lengths ! k. 2 ^ (15 - lengths ! k))"
proof -
  have "kraft lengths = (\<Sum>k \<in> {..<length lengths}. if lengths ! k = 0 then 0 else 2 ^ (15 - lengths ! k))"
    by (simp add: kraft_def sum_list_sum_nth atLeast0LessThan)
  also have "\<dots> = (\<Sum>k | k < length lengths \<and> 0 < lengths ! k. 2 ^ (15 - lengths ! k))"
    by (rule sum.mono_neutral_cong_right) auto
  finally show ?thesis .
qed

lemma canonical_less:
  assumes ok: "lengths_ok lengths" and i: "i < length lengths" "0 < lengths ! i"
  shows "canonical lengths i < 2 ^ (lengths ! i)"
proof -
  let ?w = "\<lambda>j. 2 ^ (15 - lengths ! j) :: int"
  have l: "lengths ! i \<le> 15" using ok i by (auto simp: lengths_ok_def list_all_length MAXCODELEN_def)
  have "canonical lengths i * ?w i = (\<Sum>j \<in> before lengths i. ?w j)"
    unfolding canonical_def sum_distrib_right
    by (rule sum.cong) (use before_less(1) l in \<open>auto simp flip: power_add\<close>)
  then have "(canonical lengths i + 1) * ?w i = (\<Sum>j \<in> insert i (before lengths i). ?w j)"
    by (simp add: algebra_simps before_def)
  also have "\<dots> \<le> kraft lengths"
    unfolding kraft_sum by (rule sum_mono2) (use i in \<open>auto simp: before_def\<close>)
  also have "\<dots> \<le> 2 ^ 15" using ok by (simp add: lengths_ok_def)
  also have "(2 :: int) ^ 15 = 2 ^ (lengths ! i) * ?w i" using l by (simp flip: power_add)
  finally have "(canonical lengths i + 1) * ?w i \<le> 2 ^ (lengths ! i) * ?w i" .
  then show ?thesis by simp
qed

lemma canonical_prefix:
  assumes ok: "lengths_ok lengths" and i: "i < length lengths" "0 < lengths ! i" and j: "j < length lengths" "lengths ! i \<le> lengths ! j"
    and eq: "take_bit (lengths ! i) (mirror_code (lengths ! j) (canonical lengths j) 0) = mirror_code (lengths ! i) (canonical lengths i) 0"
  shows "i = j"
proof -
  let ?li = "lengths ! i" and ?lj = "lengths ! j"
  have "take_bit ?li (drop_bit (?lj - ?li) (canonical lengths j)) = take_bit ?li (canonical lengths i)"
  proof (rule bit_eqI)
    fix k
    show "bit (take_bit ?li (drop_bit (?lj - ?li) (canonical lengths j))) k \<longleftrightarrow> bit (take_bit ?li (canonical lengths i)) k"
    proof (cases "k < ?li")
      case True
      define m where "m = ?li - 1 - k"
      have m: "m < ?li" "m < ?lj" "?lj - 1 - m = ?lj - ?li + k" "?li - 1 - m = k" using True j(2) by (simp_all add: m_def)
      have "bit (canonical lengths j) (?lj - 1 - m) \<longleftrightarrow> bit (canonical lengths i) (?li - 1 - m)"
        using arg_cong [OF eq, of "\<lambda>x. bit x m"] m(1,2) by (simp add: bit_take_bit_iff bit_mirror_code)
      then show ?thesis unfolding m(3,4) using True by (simp add: bit_take_bit_iff bit_drop_bit_eq)
    qed (simp add: bit_take_bit_iff)
  qed
  moreover have "canonical lengths i < 2 ^ ?li" by (rule canonical_less [OF ok i])
  moreover have "drop_bit (?lj - ?li) (canonical lengths j) < 2 ^ ?li"
  proof -
    have "canonical lengths j < 2 ^ ?lj" by (rule canonical_less [OF ok j(1)]) (use i j in simp)
    then have "canonical lengths j < 2 ^ ?li * 2 ^ (?lj - ?li)" using j(2) by (simp flip: power_add)
    then show ?thesis by (simp add: drop_bit_eq_div int_div_less)
  qed
  ultimately have "canonical lengths j div 2 ^ (?lj - ?li) = canonical lengths i"
    by (simp add: take_bit_int_eq_self canonical_nonneg drop_bit_eq_div pos_imp_zdiv_nonneg_iff)
  then have d: "canonical lengths j < (canonical lengths i + 1) * 2 ^ (?lj - ?li)" "canonical lengths i * 2 ^ (?lj - ?li) \<le> canonical lengths j"
    by (simp_all add: div_bounds)
  show ?thesis
  proof (rule ccontr)
    assume "i \<noteq> j"
    then consider "i \<in> before lengths j" | "j \<in> before lengths i" "?lj = ?li" using i j by (fastforce simp: before_def)
    then show False
    proof cases
      case 1
      then show False using canonical_before [OF 1] d by simp
    next
      case 2
      then show False using canonical_before [OF 2(1)] d by simp
    qed
  qed
qed

lemma huffman_codes_fit:
  assumes "list_all (\<lambda>l. l < MAXCODELEN) lengths"
  shows "codes_fit (huffman_codes lengths) lengths"
proof -
  have "take_bit (lengths ! i) (huffman_codes lengths ! i) = huffman_codes lengths ! i" if i: "i < length lengths" for i
  proof -
    have "lengths ! i < length (start_codes (length_counts lengths))" "\<forall>l \<in> set lengths. l < length (start_codes (length_counts lengths))"
      using assms i by (auto simp: list_all_iff length_start_codes)
    then obtain c where "huffman_codes lengths ! i = mirror_code (lengths ! i) c 0"
      using nth_assign_codes [OF i, of "start_codes (length_counts lengths)"] by (simp add: huffman_codes_def)
    then show ?thesis by (intro bit_eqI) (auto simp: bit_take_bit_iff bit_mirror_code)
  qed
  then show ?thesis by (simp add: codes_fit_def huffman_codes_def)
qed

lemma huffman_prefix_free:
  assumes ok: "lengths_ok lengths"
  shows "prefix_free (huffman_codes lengths) lengths"
  unfolding prefix_free_def
proof (intro allI impI)
  fix i j assume a: "i < length lengths" "j < length lengths" "i \<noteq> j" "0 < lengths ! i" "lengths ! i \<le> lengths ! j"
  have all: "list_all (\<lambda>l. l < MAXCODELEN) lengths" using ok by (simp add: lengths_ok_def)
  show "take_bit (lengths ! i) (huffman_codes lengths ! j) \<noteq> huffman_codes lengths ! i"
    using canonical_prefix [OF ok a(1,4,2,5)] a nth_huffman_codes [OF all] by auto
qed

text \<open>A code free of prefixes that takes all leaves is complete: the leaves under its symbols are disjoint.\<close>

lemma card_leaves:
  fixes c :: int
  assumes "l \<le> 15" "take_bit l c = c"
  shows "int (card {y. 0 \<le> y \<and> y < 2 ^ 15 \<and> take_bit l y = c}) = (2 :: int) ^ (15 - l)"
proof -
  have c: "0 \<le> c" "c < 2 ^ l" using take_bit_nonnegative [of l c] take_bit_int_less_exp [of l c] assms(2) by simp_all
  have split: "(2 :: int) ^ 15 = 2 ^ (15 - l) * 2 ^ l" using assms(1) by (simp flip: power_add)
  have "{y. 0 \<le> y \<and> y < 2 ^ 15 \<and> take_bit l y = c} = (\<lambda>z. z * 2 ^ l + c) ` {0..<2 ^ (15 - l)}" (is "?L = ?R")
  proof (rule set_eqI, rule iffI)
    fix y assume "y \<in> ?L"
    then have y: "0 \<le> y" "y < 2 ^ (15 - l) * 2 ^ l" "y mod 2 ^ l = c" using split by (auto simp: take_bit_eq_mod)
    have "y = y div 2 ^ l * 2 ^ l + c" using y(3) div_mult_mod_eq [of y "2 ^ l"] by simp
    moreover have "y div 2 ^ l < 2 ^ (15 - l)" by (rule int_div_less [OF y(2)]) simp
    moreover have "0 \<le> y div 2 ^ l" using y(1) by (simp add: pos_imp_zdiv_nonneg_iff)
    ultimately show "y \<in> ?R" by (intro image_eqI [of _ _ "y div 2 ^ l"]) auto
  next
    fix y assume "y \<in> ?R"
    then obtain z where z: "y = z * 2 ^ l + c" "0 \<le> z" "z < 2 ^ (15 - l)" by auto
    have "(z + 1) * 2 ^ l \<le> 2 ^ (15 - l) * (2 :: int) ^ l" by (rule mult_right_mono) (use z(3) in auto)
    then have "y < 2 ^ 15" using c(2) z(1) split by (simp add: distrib_right)
    moreover have "take_bit l y = c" using c by (simp add: z(1) take_bit_eq_mod)
    ultimately show "y \<in> ?L" using z c by simp
  qed
  moreover have "inj_on (\<lambda>z :: int. z * 2 ^ l + c) {0..<2 ^ (15 - l)}" by (rule inj_onI) simp
  ultimately show ?thesis by (simp add: card_image)
qed

lemma huffman_complete:
  assumes ok: "lengths_ok lengths" and full: "kraft lengths = 2 ^ 15"
  shows "complete_code (huffman_codes lengths) lengths"
proof -
  let ?c = "huffman_codes lengths"
  let ?I = "{k. k < length lengths \<and> 0 < lengths ! k}"
  let ?S = "\<lambda>k. {y. 0 \<le> y \<and> y < 2 ^ 15 \<and> take_bit (lengths ! k) y = ?c ! k}"
  have l: "lengths ! k \<le> 15" if "k \<in> ?I" for k using ok that by (auto simp: lengths_ok_def list_all_length MAXCODELEN_def)
  have sub: "?S k \<subseteq> {0..<2 ^ 15}" for k by auto
  have fin: "finite (?S k)" for k by (rule finite_subset [OF sub]) simp
  have "?S i \<inter> ?S j = {}" if "i \<in> ?I" "j \<in> ?I" "i \<noteq> j" "lengths ! i \<le> lengths ! j" for i j
  proof -
    have "take_bit (lengths ! i) (?c ! j) \<noteq> ?c ! i" using huffman_prefix_free [OF ok] that unfolding prefix_free_def by auto
    moreover have "take_bit (lengths ! i) (take_bit (lengths ! j) y) = take_bit (lengths ! i) y" for y :: int
      using that(4) by (simp add: min_absorb1)
    ultimately show ?thesis by (auto dest: sym)
  qed
  then have disj: "?S i \<inter> ?S j = {}" if "i \<in> ?I" "j \<in> ?I" "i \<noteq> j" for i j
    using that by (cases "lengths ! i \<le> lengths ! j") (blast, metis (no_types, lifting) Int_commute nle_le)
  have "card (\<Union> (?S ` ?I)) = (\<Sum>k \<in> ?I. card (?S k))"
    by (rule card_UN_disjoint) (use fin disj in auto)
  then have "int (card (\<Union> (?S ` ?I))) = (\<Sum>k \<in> ?I. int (card (?S k)))" by simp
  also have "\<dots> = (\<Sum>k \<in> ?I. 2 ^ (15 - lengths ! k))"
    by (rule sum.cong [OF refl], rule card_leaves) (use l huffman_codes_fit [OF lengths_bound [OF ok]] in \<open>auto simp: codes_fit_def\<close>)
  also have "\<dots> = 2 ^ 15" using full unfolding kraft_sum .
  finally have "card (\<Union> (?S ` ?I)) = card {0 :: int..<2 ^ 15}" by simp
  moreover have "\<Union> (?S ` ?I) \<subseteq> {0..<2 ^ 15}" using sub by blast
  ultimately have all: "\<Union> (?S ` ?I) = {0..<2 ^ 15}" by (intro card_subset_eq) auto
  show ?thesis unfolding complete_code_def
  proof
    fix x :: int
    have "take_bit 15 x \<in> {0..<2 ^ 15}" using take_bit_int_less_exp [of 15 x] by simp
    then have "take_bit 15 x \<in> \<Union> (?S ` ?I)" by (simp only: all)
    then obtain k where k: "k \<in> ?I" "take_bit (lengths ! k) (take_bit 15 x) = ?c ! k" by blast
    then have "take_bit (lengths ! k) x = ?c ! k" using l [OF k(1)] by (simp add: min_absorb1)
    then show "\<exists>i < length lengths. 0 < lengths ! i \<and> take_bit (lengths ! i) x = ?c ! i" using k(1) by blast
  qed
qed

section \<open>The tables\<close>

definition huffman_bits :: "nat list \<Rightarrow> nat \<Rightarrow> bool list" where
  "huffman_bits lengths i = rev (bits_le (lengths ! i) (canonical lengths i))"

lemma length_huffman_bits [simp]: "length (huffman_bits lengths i) = lengths ! i"
  by (simp add: huffman_bits_def)

lemma huffman_bits_code:
  assumes "lengths_ok lengths" "i < length lengths" "0 < lengths ! i"
  shows "huffman_bits lengths i = bits_le (lengths ! i) (huffman_codes lengths ! i)"
  using assms
  by (intro nth_equalityI) (auto simp: huffman_bits_def rev_nth nth_huffman_codes bit_mirror_code lengths_ok_def Suc_diff_Suc)

lemma bits_le_take_bit:
  fixes x y :: "'a :: semiring_bit_operations"
  assumes "bits_le l x = bits_le l y"
  shows "take_bit l x = take_bit l y"
proof (rule bit_eqI)
  fix k
  show "bit (take_bit l x) k = bit (take_bit l y) k"
    using arg_cong [OF assms, of "\<lambda>b. b ! k"] by (cases "k < l") (auto simp: bit_take_bit_iff)
qed

lemma bits_le_uint [simp]: "bits_le n (uint w) = bits_le n (w :: 'a::len word)"
  by (rule bits_le_eqI) (auto simp: bit_simps dest: bit_imp_le_length)

lemma mktable_Some:
  assumes "lengths_ok lengths"
  shows "zlib_mktable lengths = Some (zlib_mkonetab (huffman_codes lengths) lengths 0 0 (min (max_length lengths) 9))"
  using assms by (simp add: zlib_mktable_def lengths_ok_def min_def)

lemma first_active:
  assumes "i < length lengths" "0 < lengths ! i"
  shows "active codes lengths 0 0 i" "0 < min (max_length lengths) 9"
  using assms le_max_length [of "lengths ! i" lengths] by (auto simp: active_def)

lemma mktable_symbol:
  assumes ok: "lengths_ok lengths" and i: "i < length lengths" "0 < lengths ! i"
    and n: "lengths ! i \<le> n" and w: "take (lengths ! i) (bits_le n w) = huffman_bits lengths i"
  shows "zlib_huflookup w (int n) (the (zlib_mktable lengths)) = Some (Symbol (int i) (drop_bit (lengths ! i) w) (int (n - lengths ! i)))"
proof -
  have "bits_le (lengths ! i) (uint w) = bits_le (lengths ! i) (huffman_codes lengths ! i)"
    using w n by (simp add: take_bits_le huffman_bits_code [OF ok i])
  from bits_le_take_bit [OF this] have "take_bit (lengths ! i - 0) (uint w) = drop_bit 0 (huffman_codes lengths ! i)"
    using huffman_codes_fit [OF lengths_bound [OF ok]] i by (simp add: codes_fit_def)
  from lookup_symbol [OF huffman_codes_fit [OF lengths_bound [OF ok]] huffman_prefix_free [OF ok] first_active [OF i] _ this, of "int n"]
  show ?thesis using n by (simp add: mktable_Some [OF ok] of_nat_diff)
qed

lemma mktable_short:
  assumes ok: "lengths_ok lengths" and full: "kraft lengths = 2 ^ 15" and i: "i < length lengths" "0 < lengths ! i"
    and n: "n < lengths ! i" and w: "bits_le n w = take n (huffman_bits lengths i)" "uint w < 2 ^ n"
  shows "zlib_huflookup w (int n) (the (zlib_mktable lengths)) = Some Need_more"
proof -
  have "bits_le n (uint w) = bits_le n (huffman_codes lengths ! i)"
    using w n by (simp add: huffman_bits_code [OF ok i] take_bits_le)
  from bits_le_take_bit [OF this] have "uint w = take_bit n (drop_bit 0 (huffman_codes lengths ! i))"
    using w(2) by (simp add: take_bit_int_eq_self)
  from lookup_short [OF huffman_codes_fit [OF lengths_bound [OF ok]] huffman_prefix_free [OF ok] huffman_complete [OF ok full] first_active [OF i] _ w(2) this]
  show ?thesis using n by (simp add: mktable_Some [OF ok])
qed

text \<open>
  C3: For up to 288 code lengths below 16 that fit into a tree, the decoding tables \<open>zlib_mktable\<close> builds, whatever
  their depth, find every symbol of the canonical code of RFC 1951: when the bits in hand begin with its code,
  first bit first, the lookup returns it and takes out exactly these bits. When the code fills the tree and
  fewer bits are in hand than the symbol has, the lookup asks for more and takes out nothing.
\<close>

theorem zlib_mktable_decodes:
  assumes "lengths_ok lengths" "i < length lengths" "0 < lengths ! i"
  shows "\<exists>t. zlib_mktable lengths = Some t \<and>
    (\<forall>w n. lengths ! i \<le> n \<and> take (lengths ! i) (bits_le n w) = huffman_bits lengths i \<longrightarrow>
       zlib_huflookup w (int n) t = Some (Symbol (int i) (drop_bit (lengths ! i) w) (int (n - lengths ! i)))) \<and>
    (\<forall>w n. kraft lengths = 2 ^ 15 \<and> n < lengths ! i \<and> bits_le n w = take n (huffman_bits lengths i) \<and> uint w < 2 ^ n \<longrightarrow>
       zlib_huflookup w (int n) t = Some Need_more)"
  using mktable_symbol [OF assms] mktable_short [OF assms(1) _ assms(2,3)] mktable_Some [OF assms(1)] by auto

theorem zlib_mktable_decodes_witness:
  "zlib_huflookup 0x15 8 (the (zlib_mktable [2, 0, 1, 3, 3])) = Some (Symbol 0 5 6) \<and>
   zlib_huflookup 3 2 (the (zlib_mktable [2, 0, 1, 3, 3])) = Some Need_more"
proof -
  have ok: "lengths_ok [2, 0, 1, 3, 3]" "kraft [2, 0, 1, 3, 3] = 2 ^ 15" by code_simp+
  have b: "take 2 (bits_le 8 (0x15 :: 32 word)) = huffman_bits [2, 0, 1, 3, 3] 0"
    "bits_le 2 (3 :: 32 word) = take 2 (huffman_bits [2, 0, 1, 3, 3] 4)" "drop_bit 2 (0x15 :: 32 word) = 5"
    by code_simp+
  obtain t where t: "zlib_mktable [2, 0, 1, 3, 3] = Some t"
    "\<forall>w n. 2 \<le> n \<and> take 2 (bits_le n w) = huffman_bits [2, 0, 1, 3, 3] 0 \<longrightarrow>
       zlib_huflookup w (int n) t = Some (Symbol 0 (drop_bit 2 w) (int (n - 2)))"
    using zlib_mktable_decodes [where i = 0, OF ok(1)] by auto
  obtain u where u: "zlib_mktable [2, 0, 1, 3, 3] = Some u"
    "\<forall>w n. n < 3 \<and> bits_le n w = take n (huffman_bits [2, 0, 1, 3, 3] 4) \<and> uint w < 2 ^ n \<longrightarrow> zlib_huflookup w (int n) u = Some Need_more"
    using zlib_mktable_decodes [where i = 4, OF ok(1)] ok(2) by auto
  have "2 \<le> (8 :: nat)" "2 < (3 :: nat)" "uint (3 :: 32 word) < 2 ^ 2" by simp_all
  then have "zlib_huflookup 0x15 (int 8) t = Some (Symbol 0 (drop_bit 2 0x15) (int (8 - 2)))"
    "zlib_huflookup 3 (int 2) u = Some Need_more" using t(2) u(2) b(1,2) by blast+
  then show ?thesis using t(1) u(1) b(3) by simp
qed

end
