(* ===== verification/Inflate.thy ===== *)
theory Inflate
  imports Canonical
begin

text \<open>
  The decompressor of \<open>putty-src/sshzlib.c\<close>: the state machine that takes a stream in packets of any size.
  \<open>unsigned long\<close> is 32 bits; never more than 31 bits are in the buffer. A table pointer is \<open>Static\<close> for the
  tables made at the start, so that the comparison of pointers before freeing is a comparison of values.
  What \<open>snew\<close> leaves in the window is a parameter; the other fields it leaves alone are set before they are
  read, and zero here. \<open>None\<close> is a failed assertion, a null pointer or an index out of bounds.
\<close>

unbundle bit_operations_syntax

section \<open>The state machine\<close>

datatype dstate = START | OUTSIDEBLK | TREES_HDR | TREES_LENLEN | TREES_LEN | TREES_LENREP | INBLK | GOTLENSYM | GOTLEN | GOTDISTSYM |
  UNCOMP_LEN | UNCOMP_NLEN | UNCOMP_DATA

datatype table_ref = Static | Dynamic zlib_table

record dctx =
  staticlentable :: zlib_table
  staticdisttable :: zlib_table
  currlentable :: "table_ref option"
  currdisttable :: "table_ref option"
  lenlentable :: "zlib_table option"
  dstate :: dstate
  sym :: int
  hlit :: int
  hdist :: int
  hclen :: int
  lenptr :: int
  lenextrabits :: int
  lenaddon :: int
  len :: int
  lenrep :: nat
  uncomplen :: int
  lenlen :: "nat list"
  lengths :: "nat list"
  bits :: "32 word"
  nbits :: int
  window :: "int \<Rightarrow> 8 word"
  dwinpos :: int
  outblk :: "8 word list option"

definition static_lengths :: "nat list" where
  "static_lengths = replicate 144 8 @ replicate (256 - 144) 9 @ replicate (280 - 256) 7 @ replicate (288 - 280) 8"

definition zlib_decompress_init :: "(int \<Rightarrow> 8 word) \<Rightarrow> dctx option" where
  "zlib_decompress_init junk = do {
     lt \<leftarrow> zlib_mktable static_lengths;
     dt \<leftarrow> zlib_mktable (replicate 32 5);
     Some \<lparr>staticlentable = lt, staticdisttable = dt, currlentable = None, currdisttable = None, lenlentable = None,
       dstate = START, sym = 0, hlit = 0, hdist = 0, hclen = 0, lenptr = 0, lenextrabits = 0, lenaddon = 0, len = 0, lenrep = 0,
       uncomplen = 0, lenlen = replicate 19 0, lengths = replicate (288 + 32) 0, bits = 0, nbits = 0,
       window = junk, dwinpos = 0, outblk = None\<rparr>
   }"

definition eatbits :: "int \<Rightarrow> dctx \<Rightarrow> dctx" where
  "eatbits n d = d\<lparr>nbits := nbits d - n, bits := drop_bit (nat n) (bits d)\<rparr>"

definition zlib_emit_char :: "dctx \<Rightarrow> 8 word \<Rightarrow> dctx option" where
  "zlib_emit_char d c = do {
     w \<leftarrow> wr WINSIZE (window d) (dwinpos d) c;
     out \<leftarrow> outblk d;
     Some (d\<lparr>window := w, dwinpos := (dwinpos d + 1) AND (WINSIZE - 1), outblk := Some (out @ [c])\<rparr>)
   }"

fun copy_match :: "nat \<Rightarrow> int \<Rightarrow> dctx \<Rightarrow> dctx option" where
  "copy_match 0 dist d = Some d"
| "copy_match (Suc n) dist d = do {
     c \<leftarrow> rd WINSIZE (window d) ((dwinpos d - dist) AND (WINSIZE - 1));
     d \<leftarrow> zlib_emit_char d c;
     copy_match n dist d
   }"

definition set_at :: "'a list \<Rightarrow> int \<Rightarrow> 'a \<Rightarrow> 'a list option" where
  "set_at xs i x = (if 0 \<le> i \<and> i < int (length xs) then Some (xs[nat i := x]) else None)"

definition lenlenmap :: "int list" where
  "lenlenmap = [16, 17, 18, 0, 8, 7, 9, 6, 10, 5, 11, 4, 12, 3, 13, 2, 14, 1, 15]"

text \<open>The loops over code lengths in the header of a block with dynamic trees.\<close>

function read_lenlen :: "dctx \<Rightarrow> dctx option" where
  "read_lenlen d =
     (if lenptr d < hclen d \<and> nbits d \<ge> 3 then do {
        i \<leftarrow> nth_opt lenlenmap (lenptr d);
        ll \<leftarrow> set_at (lenlen d) i (unat (bits d AND 7));
        read_lenlen (eatbits 3 (d\<lparr>lenlen := ll, lenptr := lenptr d + 1\<rparr>))
      } else Some d)"
  by auto
termination by (relation "measure (\<lambda>d. nat (hclen d - lenptr d))") (auto simp: eatbits_def)

declare read_lenlen.simps [simp del]

fun repeat_length :: "nat \<Rightarrow> dctx \<Rightarrow> dctx option" where
  "repeat_length 0 d = Some d"
| "repeat_length (Suc rep) d =
     (if lenptr d < hlit d + hdist d then do {
        ls \<leftarrow> set_at (lengths d) (lenptr d) (lenrep d);
        repeat_length rep (d\<lparr>lengths := ls, lenptr := lenptr d + 1\<rparr>)
      } else Some d)"

text \<open>A round of the main loop goes on, is \<open>finished\<close> for want of bits, or has found a \<open>decode_error\<close>.\<close>

datatype 'a outcome = Go 'a | Finished 'a | Decode_error 'a

definition need :: "int \<Rightarrow> dctx \<Rightarrow> dctx outcome option \<Rightarrow> dctx outcome option" where
  "need n d act = (if nbits d < n then Some (Finished d) else act)"

definition low_bits :: "int \<Rightarrow> dctx \<Rightarrow> int" where
  "low_bits n d = uint (bits d AND (push_bit (nat n) 1 - 1))"

definition with_symbol :: "zlib_table option \<Rightarrow> dctx \<Rightarrow> (int \<Rightarrow> dctx \<Rightarrow> dctx outcome option) \<Rightarrow> dctx outcome option" where
  "with_symbol tab d act = do {
     t \<leftarrow> tab;
     l \<leftarrow> zlib_huflookup (bits d) (nbits d) t;
     case l of Need_more \<Rightarrow> Some (Finished d) | Missing \<Rightarrow> Some (Decode_error d)
     | Symbol code b n \<Rightarrow> act code (d\<lparr>bits := b, nbits := n\<rparr>)
   }"

definition len_table :: "dctx \<Rightarrow> zlib_table option" where
  "len_table d = (case currlentable d of None \<Rightarrow> None | Some Static \<Rightarrow> Some (staticlentable d) | Some (Dynamic t) \<Rightarrow> Some t)"

definition dist_table :: "dctx \<Rightarrow> zlib_table option" where
  "dist_table d = (case currdisttable d of None \<Rightarrow> None | Some Static \<Rightarrow> Some (staticdisttable d) | Some (Dynamic t) \<Rightarrow> Some t)"

definition unless_static :: "table_ref option \<Rightarrow> table_ref option" where
  "unless_static t = (if t \<noteq> Some Static then None else t)"

definition zlib_header_ok :: "int \<Rightarrow> bool" where
  "zlib_header_ok header \<longleftrightarrow> header AND 0x0F00 = 0x0800 \<and> header AND 0xF000 \<le> 0x7000 \<and> header AND 0x0020 = 0 \<and> header mod 31 = 0"

definition step_START :: "dctx \<Rightarrow> dctx outcome option" where
  "step_START d = need 16 d
     (let header = uint (drop_bit 8 (bits d AND 0xFF00) OR push_bit 8 (bits d AND 0x00FF)); d = eatbits 16 d in
      if \<not> zlib_header_ok header then Some (Decode_error d) else Some (Go (d\<lparr>dstate := OUTSIDEBLK\<rparr>)))"

definition step_OUTSIDEBLK :: "dctx \<Rightarrow> dctx outcome option" where
  "step_OUTSIDEBLK d = need 3 d
     (let d = eatbits 1 d; blktype = uint (bits d AND 3); d = eatbits 2 d in
      if blktype = 0 then Some (Go (eatbits (nbits d AND 7) (d\<lparr>dstate := UNCOMP_LEN\<rparr>)))
      else if blktype = 1 then Some (Go (d\<lparr>currlentable := Some Static, currdisttable := Some Static, dstate := INBLK\<rparr>))
      else if blktype = 2 then Some (Go (d\<lparr>dstate := TREES_HDR\<rparr>))
      else Some (Go d))"

definition step_TREES_HDR :: "dctx \<Rightarrow> dctx outcome option" where
  "step_TREES_HDR d = need (5 + 5 + 4) d
     (let d = eatbits 5 (d\<lparr>hlit := 257 + uint (bits d AND 31)\<rparr>);
          d = eatbits 5 (d\<lparr>hdist := 1 + uint (bits d AND 31)\<rparr>);
          d = eatbits 4 (d\<lparr>hclen := 4 + uint (bits d AND 15)\<rparr>)
      in Some (Go (d\<lparr>lenptr := 0, dstate := TREES_LENLEN, lenlen := replicate 19 0\<rparr>)))"

definition step_TREES_LENLEN :: "dctx \<Rightarrow> dctx outcome option" where
  "step_TREES_LENLEN d = need 3 d (do {
     d \<leftarrow> read_lenlen d;
     if lenptr d = hclen d then do {
       t \<leftarrow> zlib_mktable (lenlen d);
       Some (Go (d\<lparr>lenlentable := Some t, dstate := TREES_LEN, lenptr := 0\<rparr>))
     } else Some (Go d)
   })"

definition step_TREES_LEN :: "dctx \<Rightarrow> dctx outcome option" where
  "step_TREES_LEN d =
     (if lenptr d \<ge> hlit d + hdist d then do {
        lt \<leftarrow> zlib_mktable (take (nat (hlit d)) (lengths d));
        dt \<leftarrow> zlib_mktable (take (nat (hdist d)) (drop (nat (hlit d)) (lengths d)));
        Some (Go (d\<lparr>currlentable := Some (Dynamic lt), currdisttable := Some (Dynamic dt), lenlentable := None, dstate := INBLK\<rparr>))
      }
      else with_symbol (lenlentable d) d (\<lambda>code d.
        if code < 16 then do {
          ls \<leftarrow> set_at (lengths d) (lenptr d) (nat code);
          Some (Go (d\<lparr>lengths := ls, lenptr := lenptr d + 1\<rparr>))
        }
        else do {
          rep \<leftarrow> (if code = 16 \<and> lenptr d > 0 then nth_opt (lengths d) (lenptr d - 1) else Some 0);
          Some (Go (d\<lparr>lenextrabits := if code = 16 then 2 else if code = 17 then 3 else 7,
                      lenaddon := if code = 18 then 11 else 3, lenrep := rep, dstate := TREES_LENREP\<rparr>))
        }))"

definition step_TREES_LENREP :: "dctx \<Rightarrow> dctx outcome option" where
  "step_TREES_LENREP d = need (lenextrabits d) d
     (let rep = lenaddon d + low_bits (lenextrabits d) d in do {
        d \<leftarrow> repeat_length (nat rep) (eatbits (lenextrabits d) d);
        Some (Go (d\<lparr>dstate := TREES_LEN\<rparr>))
      })"

definition step_INBLK :: "dctx \<Rightarrow> dctx outcome option" where
  "step_INBLK d = with_symbol (len_table d) d (\<lambda>code d.
     if code < 256 then map_option Go (zlib_emit_char d (word_of_int code))
     else if code = 256 then
       Some (Go (d\<lparr>dstate := OUTSIDEBLK, currlentable := unless_static (currlentable d), currdisttable := unless_static (currdisttable d)\<rparr>))
     else if code < 286 then Some (Go (d\<lparr>dstate := GOTLENSYM, sym := code\<rparr>))
     else Some (Decode_error d))"

definition step_GOTLENSYM :: "dctx \<Rightarrow> dctx outcome option" where
  "step_GOTLENSYM d = do {
     rec \<leftarrow> nth_opt lencodes (sym d - 257);
     need (extrabits rec) d
       (Some (Go ((eatbits (extrabits rec) d)\<lparr>len := cr_min rec + low_bits (extrabits rec) d, dstate := GOTLEN\<rparr>)))
   }"

definition step_GOTLEN :: "dctx \<Rightarrow> dctx outcome option" where
  "step_GOTLEN d = with_symbol (dist_table d) d (\<lambda>code d.
     if code \<ge> 30 then Some (Decode_error d) else Some (Go (d\<lparr>dstate := GOTDISTSYM, sym := code\<rparr>)))"

definition step_GOTDISTSYM :: "dctx \<Rightarrow> dctx outcome option" where
  "step_GOTDISTSYM d = do {
     rec \<leftarrow> nth_opt distcodes (sym d);
     need (extrabits rec) d
       (let dist = cr_min rec + low_bits (extrabits rec) d in do {
          d \<leftarrow> copy_match (nat (len d)) dist ((eatbits (extrabits rec) d)\<lparr>dstate := INBLK\<rparr>);
          Some (Go (d\<lparr>len := - 1\<rparr>))
        })
   }"

definition step_UNCOMP_LEN :: "dctx \<Rightarrow> dctx outcome option" where
  "step_UNCOMP_LEN d = need 16 d (Some (Go ((eatbits 16 d)\<lparr>uncomplen := uint (bits d AND 0xFFFF), dstate := UNCOMP_NLEN\<rparr>)))"

definition step_UNCOMP_NLEN :: "dctx \<Rightarrow> dctx outcome option" where
  "step_UNCOMP_NLEN d = need 16 d
     (let nlen = uint (bits d AND 0xFFFF); d = eatbits 16 d in
      if uncomplen d \<noteq> nlen XOR 0xFFFF then Some (Decode_error d)
      else if uncomplen d = 0 then Some (Go (d\<lparr>dstate := OUTSIDEBLK\<rparr>))
      else Some (Go (d\<lparr>dstate := UNCOMP_DATA\<rparr>)))"

definition step_UNCOMP_DATA :: "dctx \<Rightarrow> dctx outcome option" where
  "step_UNCOMP_DATA d = need 8 d (do {
     d \<leftarrow> zlib_emit_char d (ucast (bits d AND 0xFF));
     let d = eatbits 8 d;
     let d = d\<lparr>uncomplen := uncomplen d - 1\<rparr>;
     Some (Go (if uncomplen d = 0 then d\<lparr>dstate := OUTSIDEBLK\<rparr> else d))
   })"

definition zlib_step :: "dctx \<Rightarrow> dctx outcome option" where
  "zlib_step d = (case dstate d of
     START \<Rightarrow> step_START d | OUTSIDEBLK \<Rightarrow> step_OUTSIDEBLK d | TREES_HDR \<Rightarrow> step_TREES_HDR d | TREES_LENLEN \<Rightarrow> step_TREES_LENLEN d
   | TREES_LEN \<Rightarrow> step_TREES_LEN d | TREES_LENREP \<Rightarrow> step_TREES_LENREP d | INBLK \<Rightarrow> step_INBLK d | GOTLENSYM \<Rightarrow> step_GOTLENSYM d
   | GOTLEN \<Rightarrow> step_GOTLEN d | GOTDISTSYM \<Rightarrow> step_GOTDISTSYM d | UNCOMP_LEN \<Rightarrow> step_UNCOMP_LEN d | UNCOMP_NLEN \<Rightarrow> step_UNCOMP_NLEN d
   | UNCOMP_DATA \<Rightarrow> step_UNCOMP_DATA d)"

fun refill :: "8 word list \<Rightarrow> dctx \<Rightarrow> 8 word list \<times> dctx" where
  "refill [] d = ([], d)"
| "refill (b # block) d =
     (if nbits d < 24 then refill block (d\<lparr>bits := bits d OR push_bit (nat (nbits d)) (ucast b), nbits := nbits d + 8\<rparr>)
      else (b # block, d))"

partial_function (option) decompress_loop :: "8 word list \<Rightarrow> dctx \<Rightarrow> dctx outcome option" where
  "decompress_loop block d =
     (if block \<noteq> [] \<or> nbits d > 0 then
        let (block, d) = refill block d in
        case zlib_step d of
          None \<Rightarrow> None
        | Some (Go d) \<Rightarrow> decompress_loop block d
        | Some (Finished d) \<Rightarrow> Some (Finished d)
        | Some (Decode_error d) \<Rightarrow> Some (Decode_error d)
      else Some (Finished d))"

declare decompress_loop.simps [code]

text \<open>The result holds the output, or \<open>None\<close> for a decoding error, whose output buffer stays where it is.\<close>

definition zlib_decompress_block :: "dctx \<Rightarrow> 8 word list \<Rightarrow> (8 word list option \<times> dctx) option" where
  "zlib_decompress_block d block =
     (if outblk d \<noteq> None then None
      else case decompress_loop block (d\<lparr>outblk := Some []\<rparr>) of
        None \<Rightarrow> None
      | Some (Decode_error d) \<Rightarrow> Some (None, d)
      | Some (Finished d) \<Rightarrow> Some (outblk d, d\<lparr>outblk := None\<rparr>)
      | Some (Go d) \<Rightarrow> None)"

end
