(* ===== verification/Zlib.thy ===== *)
theory Zlib
  imports Inflate
begin

text \<open>
  Compressor and decompressor of \<open>putty-src/sshzlib.c\<close> together: what \<open>zlib_compress_block\<close> puts out packet by
  packet, \<open>zlib_decompress_block\<close> turns back into the blocks that went in. The stream is a sequence of items,
  each of which one round of the decompressor takes.
\<close>

unbundle bit_operations_syntax

section \<open>The static trees\<close>

lemma static_lengths_ok: "lengths_ok static_lengths" "kraft static_lengths = 2 ^ 15"
  by code_simp+

lemma dist_lengths_ok: "lengths_ok (replicate 32 5)" "kraft (replicate 32 5) = 2 ^ 15"
  by code_simp+

lemma static_lengths_eq: "static_lengths = map static_len [0..287]"
  by code_simp

lemma static_codes:
  "list_all2 (\<lambda>s c. bits_le (static_len s) c = sym_bits s) [0..287] (huffman_codes static_lengths)"
  by code_simp

lemma dist_codes:
  "list_all2 (\<lambda>s c. bits_le 5 c = dist_bits s) [0..31] (huffman_codes (replicate 32 5))"
  by code_simp

lemma nth_upto_nat: "0 \<le> s \<Longrightarrow> s \<le> m \<Longrightarrow> [0..m] ! nat s = s"
  by simp

lemma static_sym:
  assumes "0 \<le> s" "s \<le> 287"
  shows "nat s < length static_lengths" "static_lengths ! nat s = static_len s" "huffman_bits static_lengths (nat s) = sym_bits s"
proof -
  show l: "nat s < length static_lengths" "static_lengths ! nat s = static_len s" using assms by (auto simp: static_lengths_eq)
  have "nat s < length [0..287]" using assms by simp
  from list_all2_nthD [OF static_codes this] have "bits_le (static_len s) (huffman_codes static_lengths ! nat s) = sym_bits s"
    using assms by simp
  then show "huffman_bits static_lengths (nat s) = sym_bits s"
    using huffman_bits_code [OF static_lengths_ok(1) l(1)] l(2) by (simp add: static_len_def split: if_splits)
qed

lemma dist_sym:
  assumes "0 \<le> s" "s \<le> 31"
  shows "nat s < length (replicate 32 (5 :: nat))" "replicate 32 (5 :: nat) ! nat s = 5" "huffman_bits (replicate 32 5) (nat s) = dist_bits s"
proof -
  show l: "nat s < length (replicate 32 (5 :: nat))" "replicate 32 (5 :: nat) ! nat s = 5" using assms by auto
  have "nat s < length [0..31]" using assms by simp
  from list_all2_nthD [OF dist_codes this] have "bits_le 5 (huffman_codes (replicate 32 5) ! nat s) = dist_bits s"
    using assms by simp
  then show "huffman_bits (replicate 32 5) (nat s) = dist_bits s"
    using huffman_bits_code [OF dist_lengths_ok(1) l(1)] l(2) by simp
qed

section \<open>Bits in hand\<close>

definition dbits :: "dctx \<Rightarrow> bool list" where
  "dbits d = bits_le (nat (nbits d)) (bits d)"

definition dok :: "dctx \<Rightarrow> bool" where
  "dok d \<longleftrightarrow> 0 \<le> nbits d \<and> nbits d < 32 \<and> take_bit (nat (nbits d)) (bits d) = bits d"

lemma length_dbits [simp]: "length (dbits d) = nat (nbits d)"
  by (simp add: dbits_def)

lemma take_bit_drop_word: "take_bit n w = w \<Longrightarrow> take_bit (n - k) (drop_bit k w) = drop_bit k (w :: 32 word)"
proof (rule bit_eqI)
  fix i assume a: "take_bit n w = w"
  show "bit (take_bit (n - k) (drop_bit k w)) i = bit (drop_bit k w) i"
    using arg_cong [OF a, of "\<lambda>x. bit x (k + i)"] by (auto simp: bit_take_bit_iff bit_drop_bit_eq)
qed

lemma eat_dbits:
  assumes "dok d" "n \<le> nat (nbits d)"
  shows "dok (d\<lparr>bits := drop_bit n (bits d), nbits := nbits d - int n\<rparr>)"
    "dbits (d\<lparr>bits := drop_bit n (bits d), nbits := nbits d - int n\<rparr>) = drop n (dbits d)"
  using assms by (auto simp: dok_def dbits_def drop_bits_le nat_diff_distrib take_bit_drop_word)

lemma eatbits_eq: "0 \<le> n \<Longrightarrow> eatbits n d = d\<lparr>bits := drop_bit (nat n) (bits d), nbits := nbits d - int (nat n)\<rparr>"
  by (simp add: eatbits_def)

lemma low_bits_eq:
  assumes "take n (dbits d) = bits_le n v" "take_bit n v = v" "n \<le> nat (nbits d)"
  shows "take_bit n (uint (bits d)) = v"
proof -
  have "bits_le n (uint (bits d)) = bits_le n v" using assms(1,3) by (simp add: dbits_def take_bits_le)
  from bits_le_take_bit [OF this] show ?thesis using assms(2) by simp
qed

lemma uint_and_mask: "uint (w AND (push_bit n 1 - 1)) = take_bit n (uint w)" if "n < 32" for w :: "32 word"
proof -
  have "push_bit n 1 - 1 = (mask n :: 32 word)" by (simp add: mask_eq_decr_exp)
  then have "w AND (push_bit n 1 - 1) = take_bit n w" by (simp add: take_bit_eq_mask)
  then show ?thesis by (simp add: unsigned_take_bit_eq)
qed

lemma same_dctx: "\<exists>b n. d = d\<lparr>bits := b, nbits := n\<rparr>"
  by (rule exI [of _ "bits d"], rule exI [of _ "nbits d"]) simp

lemma refill_ok:
  "dok d \<Longrightarrow> refill blk d = (blk', d') \<Longrightarrow>
    dok d' \<and> dbits d' @ bytes_bits blk' = dbits d @ bytes_bits blk \<and> (blk' = [] \<or> 24 \<le> nbits d') \<and> nbits d \<le> nbits d' \<and>
    (\<exists>b n. d' = d\<lparr>bits := b, nbits := n\<rparr>)"
proof (induction blk d rule: refill.induct)
  case (1 d)
  then show ?case using same_dctx [of d] by auto
next
  case (2 b blk d)
  show ?case
  proof (cases "nbits d < 24")
    case False
    then show ?thesis using 2(2,3) same_dctx [of d] by auto
  next
    case True
    define n where "n = nat (nbits d)"
    have n: "nbits d = int n" "n < 24" "take_bit n (bits d) = bits d" using True 2(2) by (auto simp: dok_def n_def)
    define w where "w = bits d OR push_bit n (ucast b)"
    let ?d = "d\<lparr>bits := w, nbits := nbits d + 8\<rparr>"
    have low: "\<not> bit (bits d) i" if "n \<le> i" for i using n(3) that by (metis bit_take_bit_iff not_le)
    have bw: "bit w i = (if i < n then bit (bits d) i else i < 32 \<and> bit b (i - n))" for i
      using low [of i] n(2) by (auto simp: w_def bit_simps)
    have "take_bit (n + 8) w = w"
    proof (rule bit_eqI)
      fix i
      show "bit (take_bit (n + 8) w) i \<longleftrightarrow> bit w i"
        using bit_imp_le_length [of b "i - n"] by (auto simp: bit_take_bit_iff bw)
    qed
    then have dok: "dok ?d" using n by (simp add: dok_def nat_add_distrib)
    have "bits_le (n + 8) w = bits_le n (bits d) @ bits_le 8 b"
      by (rule nth_equalityI) (use n(2) in \<open>auto simp: nth_append bw\<close>)
    then have s: "dbits ?d = dbits d @ bits_le 8 b" using n by (simp add: dbits_def nat_add_distrib)
    have e: "push_bit (nat (nbits d)) (ucast b) = push_bit n (ucast b)" by (simp add: n(1))
    have "refill blk ?d = (blk', d')" using 2(3) True unfolding w_def by (simp add: e)
    from 2(1) [OF True, unfolded e, folded w_def, OF dok this]
    have ih: "dok d'" "dbits d' @ bytes_bits blk' = dbits ?d @ bytes_bits blk" "blk' = [] \<or> 24 \<le> nbits d'" "nbits d + 8 \<le> nbits d'"
      "\<exists>b n. d' = ?d\<lparr>bits := b, nbits := n\<rparr>" by auto
    have "\<exists>b n. d' = d\<lparr>bits := b, nbits := n\<rparr>" using ih(5) by fastforce
    then show ?thesis using ih(1-4) s by auto
  qed
qed

section \<open>The window of the decompressor\<close>

definition window_ok :: "dctx \<Rightarrow> 8 word list \<Rightarrow> bool" where
  "window_ok d h \<longleftrightarrow> dwinpos d = slot (length h) \<and> (\<forall>t < length h. int (length h) \<le> int t + WINSIZE \<longrightarrow> window d (slot t) = h ! t)"

text \<open>The output of a call, after what was put out before.\<close>

definition put_out :: "dctx \<Rightarrow> 8 word list \<Rightarrow> 8 word list \<Rightarrow> bool" where
  "put_out d h0 h \<longleftrightarrow> window_ok d h \<and> (\<exists>out. outblk d = Some out \<and> h0 @ out = h)"

lemma emit_ok:
  assumes "put_out d h0 h"
  obtains w p x where "zlib_emit_char d c = Some (d\<lparr>window := w, dwinpos := p, outblk := x\<rparr>)"
    "put_out (d\<lparr>window := w, dwinpos := p, outblk := x\<rparr>) h0 (h @ [c])"
proof -
  obtain out where out: "outblk d = Some out" "h0 @ out = h" and w: "window_ok d h" using assms by (auto simp: put_out_def)
  let ?d = "d\<lparr>window := (window d)(dwinpos d := c), dwinpos := (dwinpos d + 1) AND (WINSIZE - 1), outblk := Some (out @ [c])\<rparr>"
  have pos: "dwinpos d = slot (length h)" using w by (simp add: window_ok_def)
  then have "(dwinpos d + 1) AND (WINSIZE - 1) = slot (length (h @ [c]))" by (simp only: and_window) (simp add: slot_def mod_simps ac_simps)
  moreover have "((window d)(dwinpos d := c)) (slot t) = (h @ [c]) ! t"
    if "t < length (h @ [c])" "int (length (h @ [c])) \<le> int t + WINSIZE" for t
  proof (cases "t < length h")
    case True
    then have "slot t \<noteq> slot (length h)" using slot_inj [of t "length h"] that(2) by auto
    then show ?thesis using True that w by (simp add: window_ok_def pos nth_append)
  next
    case False
    then show ?thesis using that(1) by (simp add: pos nth_append less_Suc_eq)
  qed
  ultimately have "put_out ?d h0 (h @ [c])" using out by (simp add: put_out_def window_ok_def)
  then show thesis using that out(1) pos by (simp add: zlib_emit_char_def wr_def)
qed

lemma copy_match_ok:
  assumes "1 \<le> k" "k \<le> WINSIZE"
  shows "put_out d h0 h \<Longrightarrow> k \<le> int (length h) \<Longrightarrow>
    \<exists>w p x. copy_match n k d = Some (d\<lparr>window := w, dwinpos := p, outblk := x\<rparr>) \<and>
      put_out (d\<lparr>window := w, dwinpos := p, outblk := x\<rparr>) h0 (copy_back n (nat k) h)"
proof (induction n arbitrary: d h)
  case 0
  have "d = d\<lparr>window := window d, dwinpos := dwinpos d, outblk := outblk d\<rparr>" by simp
  then show ?case using 0 by (metis copy_match.simps(1) copy_back.simps(1))
next
  case (Suc n)
  define c where "c = h ! (length h - nat k)"
  have w: "window_ok d h" using Suc.prems(1) by (simp add: put_out_def)
  have "(dwinpos d - k) AND (WINSIZE - 1) = slot (length h - nat k)"
    using w assms Suc.prems(2) by (simp only: and_window) (simp add: window_ok_def slot_def mod_simps of_nat_diff)
  then have "rd WINSIZE (window d) ((dwinpos d - k) AND (WINSIZE - 1)) = Some c"
    using w assms Suc.prems(2) by (simp add: rd_def window_ok_def c_def of_nat_diff)
  moreover obtain w1 p1 x1 where e: "zlib_emit_char d c = Some (d\<lparr>window := w1, dwinpos := p1, outblk := x1\<rparr>)"
    "put_out (d\<lparr>window := w1, dwinpos := p1, outblk := x1\<rparr>) h0 (h @ [c])" by (rule emit_ok [OF Suc.prems(1)])
  moreover have "k \<le> int (length (h @ [c]))" using Suc.prems(2) by simp
  note Suc.IH [OF e(2) this]
  ultimately show ?case by (auto simp: c_def)
qed

section \<open>Items\<close>

text \<open>Where the decompressor is in the stream, and what it takes at once; a length \<open>n\<close> and a distance \<open>k\<close> are on their way.\<close>

datatype pos = At_start | Outside | In_block | Got_lensym int | Got_len int | Got_distsym int int

datatype item = Header | Open_block | Lit "8 word" | End_block | Len_sym int | Len_extra int | Dist_sym int int | Dist_extra int int

primrec item_bits :: "item \<Rightarrow> bool list" where
  "item_bits Header = bits_le 16 (0x9C78 :: 32 word)"
| "item_bits Open_block = open_block"
| "item_bits (Lit c) = sym_bits (uint c)"
| "item_bits End_block = eob"
| "item_bits (Len_sym n) = sym_bits (cr_code (len_rec n))"
| "item_bits (Len_extra n) = bits_le (nat (extrabits (len_rec n))) (n - cr_min (len_rec n))"
| "item_bits (Dist_sym n k) = dist_bits (cr_code (dist_rec k))"
| "item_bits (Dist_extra n k) = bits_le (nat (extrabits (dist_rec k))) (k - cr_min (dist_rec k))"

fun feed :: "pos \<Rightarrow> 8 word list \<Rightarrow> item \<Rightarrow> (pos \<times> 8 word list) option" where
  "feed At_start h Header = Some (Outside, h)"
| "feed Outside h Open_block = Some (In_block, h)"
| "feed In_block h (Lit c) = Some (In_block, h @ [c])"
| "feed In_block h End_block = Some (Outside, h)"
| "feed In_block h (Len_sym n) = (if 3 \<le> n \<and> n \<le> 258 then Some (Got_lensym n, h) else None)"
| "feed (Got_lensym n) h (Len_extra m) = (if m = n then Some (Got_len n, h) else None)"
| "feed (Got_len n) h (Dist_sym m k) = (if m = n \<and> 1 \<le> k \<and> k \<le> WINSIZE then Some (Got_distsym n k, h) else None)"
| "feed (Got_distsym n k) h (Dist_extra m j) =
     (if m = n \<and> j = k \<and> k \<le> int (length h) then Some (In_block, copy_back (nat n) (nat k) h) else None)"
| "feed _ _ _ = None"

primrec feeds :: "pos \<Rightarrow> 8 word list \<Rightarrow> item list \<Rightarrow> (pos \<times> 8 word list) option" where
  "feeds p h [] = Some (p, h)"
| "feeds p h (it # its) = do { (p, h) \<leftarrow> feed p h it; feeds p h its }"

definition static_trees :: "dctx \<Rightarrow> bool" where
  "static_trees d \<longleftrightarrow> currlentable d = Some Static \<and> currdisttable d = Some Static"

primrec at_pos :: "pos \<Rightarrow> dctx \<Rightarrow> bool" where
  "at_pos At_start d \<longleftrightarrow> dstate d = START"
| "at_pos Outside d \<longleftrightarrow> dstate d = OUTSIDEBLK"
| "at_pos In_block d \<longleftrightarrow> dstate d = INBLK \<and> static_trees d"
| "at_pos (Got_lensym n) d \<longleftrightarrow> dstate d = GOTLENSYM \<and> static_trees d \<and> 3 \<le> n \<and> n \<le> 258 \<and> sym d = cr_code (len_rec n)"
| "at_pos (Got_len n) d \<longleftrightarrow> dstate d = GOTLEN \<and> static_trees d \<and> 3 \<le> n \<and> n \<le> 258 \<and> len d = n"
| "at_pos (Got_distsym n k) d \<longleftrightarrow> dstate d = GOTDISTSYM \<and> static_trees d \<and> 3 \<le> n \<and> n \<le> 258 \<and> len d = n \<and>
     1 \<le> k \<and> k \<le> WINSIZE \<and> sym d = cr_code (dist_rec k)"

definition has_tables :: "dctx \<Rightarrow> bool" where
  "has_tables d \<longleftrightarrow> staticlentable d = the (zlib_mktable static_lengths) \<and> staticdisttable d = the (zlib_mktable (replicate 32 5))"

definition synced :: "dctx \<Rightarrow> 8 word list \<Rightarrow> pos \<Rightarrow> 8 word list \<Rightarrow> bool" where
  "synced d h0 p h \<longleftrightarrow> dok d \<and> has_tables d \<and> put_out d h0 h \<and> at_pos p d"

section \<open>One round takes one item\<close>

text \<open>What a round does when the bits in hand and those to come start with the item.\<close>

definition takes :: "dctx \<Rightarrow> 8 word list \<Rightarrow> bool list \<Rightarrow> pos \<Rightarrow> 8 word list \<Rightarrow> dctx outcome option \<Rightarrow> bool" where
  "takes d h0 bs p h res \<longleftrightarrow>
     (if length bs \<le> nat (nbits d) then \<exists>d'. res = Some (Go d') \<and> synced d' h0 p h \<and> dbits d' = drop (length bs) (dbits d)
      else res = Some (Finished d))"

lemma take_dbits: "dbits d @ u = bs @ r \<Longrightarrow> length bs \<le> nat (nbits d) \<Longrightarrow> take (length bs) (dbits d) = bs"
proof -
  assume a: "dbits d @ u = bs @ r" "length bs \<le> nat (nbits d)"
  have "take (length bs) (dbits d @ u) = bs" by (simp add: a(1))
  then show ?thesis using a(2) by simp
qed

lemma dbits_take: "dbits d @ u = bs @ r \<Longrightarrow> nat (nbits d) < length bs \<Longrightarrow> dbits d = take (nat (nbits d)) bs"
proof -
  assume a: "dbits d @ u = bs @ r" "nat (nbits d) < length bs"
  have "take (nat (nbits d)) (dbits d @ u) = take (nat (nbits d)) bs" by (simp only: a(1)) (use a(2) in simp)
  then show ?thesis by simp
qed

lemma dok_uint: "dok d \<Longrightarrow> uint (bits d) < 2 ^ nat (nbits d)"
  using take_bit_int_less_exp [of "nat (nbits d)" "uint (bits d)"] by (simp add: dok_def flip: unsigned_take_bit_eq)

lemma lookup_takes:
  assumes ok: "lengths_ok ls" "kraft ls = 2 ^ 15" and i: "i < length ls" "0 < ls ! i" and d: "dok d" and e: "dbits d @ u = huffman_bits ls i @ r"
  shows "zlib_huflookup (bits d) (nbits d) (the (zlib_mktable ls)) =
    (if ls ! i \<le> nat (nbits d) then Some (Symbol (int i) (drop_bit (ls ! i) (bits d)) (nbits d - int (ls ! i))) else Some Need_more)"
proof -
  have n: "int (nat (nbits d)) = nbits d" using d by (simp add: dok_def)
  show ?thesis
  proof (cases "ls ! i \<le> nat (nbits d)")
    case True
    then show ?thesis using mktable_symbol [OF ok(1) i True, of "bits d"] take_dbits [OF e] n by (simp add: dbits_def of_nat_diff)
  next
    case False
    then show ?thesis using mktable_short [OF ok i, of "nat (nbits d)" "bits d"] dbits_take [OF e] dok_uint [OF d] n by (simp add: dbits_def)
  qed
qed

lemma eaten:
  assumes "dok d" "l \<le> nat (nbits d)" "bits d' = drop_bit l (bits d)" "nbits d' = nbits d - int l"
  shows "dok d'" "dbits d' = drop l (dbits d)"
  using assms by (auto simp: dok_def dbits_def drop_bits_le nat_diff_distrib take_bit_drop_word)

definition goes :: "dctx \<Rightarrow> nat \<Rightarrow> 8 word list \<Rightarrow> pos \<Rightarrow> 8 word list \<Rightarrow> dctx outcome option \<Rightarrow> bool" where
  "goes d l h0 p h res \<longleftrightarrow> (\<exists>d'. res = Some (Go d') \<and> bits d' = drop_bit l (bits d) \<and> nbits d' = nbits d - int l \<and>
     has_tables d' \<and> put_out d' h0 h \<and> at_pos p d')"

lemma takesI:
  assumes "dok d" "length bs \<le> nat (nbits d) \<Longrightarrow> goes d (length bs) h0 p h res" "nat (nbits d) < length bs \<Longrightarrow> res = Some (Finished d)"
  shows "takes d h0 bs p h res"
proof (cases "length bs \<le> nat (nbits d)")
  case True
  obtain d' where d': "res = Some (Go d')" "bits d' = drop_bit (length bs) (bits d)" "nbits d' = nbits d - int (length bs)"
    "has_tables d'" "put_out d' h0 h" "at_pos p d'" using assms(2) [OF True] by (auto simp: goes_def)
  note e = eaten [OF assms(1) True d'(2,3)]
  show ?thesis using d' e True by (simp add: takes_def synced_def)
next
  case False
  then show ?thesis using assms(3) by (simp add: takes_def)
qed

lemma with_len_symbol:
  assumes d: "dok d" "has_tables d" "static_trees d" and s: "0 \<le> s" "s \<le> 287" and e: "dbits d @ u = sym_bits s @ r"
  shows "with_symbol (len_table d) d act = (if static_len s \<le> nat (nbits d)
    then act s (d\<lparr>bits := drop_bit (static_len s) (bits d), nbits := nbits d - int (static_len s)\<rparr>) else Some (Finished d))"
proof -
  note st = static_sym [OF s]
  have "0 < static_lengths ! nat s" using st(2) by (simp add: static_len_def)
  from lookup_takes [OF static_lengths_ok st(1) this d(1), unfolded st(2,3), OF e] show ?thesis
    using d s by (simp add: with_symbol_def len_table_def has_tables_def static_trees_def)
qed

lemma with_dist_symbol:
  assumes d: "dok d" "has_tables d" "static_trees d" and s: "0 \<le> s" "s \<le> 31" and e: "dbits d @ u = dist_bits s @ r"
  shows "with_symbol (dist_table d) d act = (if 5 \<le> nat (nbits d)
    then act s (d\<lparr>bits := drop_bit 5 (bits d), nbits := nbits d - 5\<rparr>) else Some (Finished d))"
proof -
  note st = dist_sym [OF s]
  have "0 < replicate 32 (5 :: nat) ! nat s" using st(2) by simp
  from lookup_takes [OF dist_lengths_ok st(1) this d(1), unfolded st(2,3), OF e] show ?thesis
    using d s by (simp add: with_symbol_def dist_table_def has_tables_def static_trees_def)
qed

lemmas synced_simps = synced_def has_tables_def put_out_def window_ok_def static_trees_def

lemma step_Lit:
  assumes "synced d h0 In_block h" "dbits d @ u = item_bits (Lit c) @ r"
  shows "takes d h0 (item_bits (Lit c)) In_block (h @ [c]) (zlib_step d)"
proof -
  have d: "dok d" "has_tables d" "static_trees d" "put_out d h0 h" "dstate d = INBLK" using assms(1) by (auto simp: synced_def)
  have s: "0 \<le> uint c" "uint c < 256" using uint_bounded [of c] by simp_all
  define l where "l = static_len (uint c)"
  let ?d = "d\<lparr>bits := drop_bit l (bits d), nbits := nbits d - int l\<rparr>"
  have "put_out ?d h0 h" using d(4) by (simp add: put_out_def window_ok_def)
  then obtain w p x where e: "zlib_emit_char ?d c = Some (?d\<lparr>window := w, dwinpos := p, outblk := x\<rparr>)"
    "put_out (?d\<lparr>window := w, dwinpos := p, outblk := x\<rparr>) h0 (h @ [c])" by (rule emit_ok)
  have st: "zlib_step d = (if l \<le> nat (nbits d) then Some (Go (?d\<lparr>window := w, dwinpos := p, outblk := x\<rparr>)) else Some (Finished d))"
    using with_len_symbol [OF d(1-3) s(1) _ assms(2) [unfolded item_bits.simps]] s(2) d(5) e(1)
    by (simp add: zlib_step_def step_INBLK_def l_def)
  show ?thesis
  proof (rule takesI [OF d(1)])
    assume "length (item_bits (Lit c)) \<le> nat (nbits d)"
    then show "goes d (length (item_bits (Lit c))) h0 In_block (h @ [c]) (zlib_step d)"
      using st e(2) d by (simp add: goes_def l_def has_tables_def static_trees_def)
  qed (simp add: st, simp add: l_def)
qed

lemma low_word:
  fixes v :: "32 word"
  assumes "dbits d @ u = bits_le n v @ r" "n \<le> nat (nbits d)" "take_bit n v = v"
  shows "take_bit n (bits d) = v"
proof -
  have "bits_le n (bits d) = bits_le n v" using take_dbits [OF assms(1)] assms(2) by (simp add: dbits_def take_bits_le)
  from bits_le_take_bit [OF this] show ?thesis using assms(3) by simp
qed

lemma and_take:
  fixes a m :: "32 word"
  assumes "take_bit n m = m"
  shows "a AND m = take_bit n a AND m"
proof -
  have "i < n" if "bit m i" for i using that assms by (metis bit_take_bit_iff)
  then show ?thesis by (intro bit_eqI) (auto simp: bit_and_iff bit_take_bit_iff)
qed

lemma step_Header:
  assumes "synced d h0 At_start h" "dbits d @ u = item_bits Header @ r"
  shows "takes d h0 (item_bits Header) Outside h (zlib_step d)"
proof -
  have d: "dok d" "dstate d = START" "0 \<le> nbits d" using assms(1) by (auto simp: synced_def dok_def)
  show ?thesis
  proof (rule takesI [OF d(1)])
    assume n: "length (item_bits Header) \<le> nat (nbits d)"
    have "take_bit 16 (0x9C78 :: 32 word) = 0x9C78" by code_simp
    with n have low: "take_bit 16 (bits d) = 0x9C78" by (intro low_word [OF assms(2) [unfolded item_bits.simps]]) simp_all
    have m: "take_bit 16 (0xFF00 :: 32 word) = 0xFF00" "take_bit 16 (0x00FF :: 32 word) = 0x00FF" by code_simp+
    have "zlib_header_ok (uint (drop_bit 8 (bits d AND 0xFF00) OR push_bit 8 (bits d AND 0x00FF)))"
      unfolding and_take [OF m(1), of "bits d"] and_take [OF m(2), of "bits d"] low by code_simp
    then show "goes d (length (item_bits Header)) h0 Outside h (zlib_step d)"
      using n d assms(1) by (simp add: zlib_step_def step_START_def need_def eatbits_def goes_def synced_simps)
  qed (use d in \<open>simp add: zlib_step_def step_START_def need_def nat_less_iff\<close>)
qed

lemma step_Open:
  assumes "synced d h0 Outside h" "dbits d @ u = item_bits Open_block @ r"
  shows "takes d h0 (item_bits Open_block) In_block h (zlib_step d)"
proof -
  have d: "dok d" "dstate d = OUTSIDEBLK" "0 \<le> nbits d" using assms(1) by (auto simp: synced_def dok_def)
  have l: "length (item_bits Open_block) = 3" by (simp add: open_block_def)
  show ?thesis
  proof (rule takesI [OF d(1)])
    assume n: "length (item_bits Open_block) \<le> nat (nbits d)"
    have "take_bit 3 (2 :: 32 word) = 2" by code_simp
    with n l have low: "take_bit 3 (bits d) = 2" by (intro low_word [OF assms(2) [unfolded item_bits.simps open_bits]]) simp_all
    have "drop_bit 1 (bits d) AND 3 = take_bit 2 (drop_bit 1 (bits d))" by (simp add: take_bit_eq_mask mask_eq_decr_exp)
    also have "\<dots> = drop_bit 1 (take_bit 3 (bits d))" by (simp only: drop_bit_take_bit) simp
    also have "\<dots> = 1" unfolding low by code_simp
    finally have t: "drop_bit 1 (bits d) AND 3 = 1" .
    have "drop_bit 2 (drop_bit 1 (bits d)) = drop_bit 3 (bits d)" by (simp only: drop_bit_drop_bit) simp
    then show "goes d (length (item_bits Open_block)) h0 In_block h (zlib_step d)"
      using n l d assms(1) t by (simp add: zlib_step_def step_OUTSIDEBLK_def need_def eatbits_def goes_def synced_simps)
  qed (use d l in \<open>simp add: zlib_step_def step_OUTSIDEBLK_def need_def nat_less_iff\<close>)
qed

lemma step_End:
  assumes "synced d h0 In_block h" "dbits d @ u = item_bits End_block @ r"
  shows "takes d h0 (item_bits End_block) Outside h (zlib_step d)"
proof -
  have d: "dok d" "has_tables d" "static_trees d" "dstate d = INBLK" using assms(1) by (auto simp: synced_def)
  note w = with_len_symbol [OF d(1-3) _ _ assms(2) [unfolded item_bits.simps eob_def]]
  show ?thesis
    by (rule takesI [OF d(1)]) (use w d assms(1) in \<open>simp_all add: zlib_step_def step_INBLK_def eob_def goes_def synced_simps unless_static_def\<close>)
qed

lemma len_code: "3 \<le> n \<Longrightarrow> n \<le> 258 \<Longrightarrow> 257 \<le> cr_code (len_rec n) \<and> cr_code (len_rec n) \<le> 285"
  and dist_code: "1 \<le> k \<Longrightarrow> k \<le> WINSIZE \<Longrightarrow> 0 \<le> cr_code (dist_rec k) \<and> cr_code (dist_rec k) \<le> 29"
  using len_rec_ok(2) [of n] dist_rec_ok(2) [of k]
  by (auto simp: rec_ok_def nth_opt_def lencodes_def distcodes_def split: if_splits)

lemma step_Len_sym:
  assumes "synced d h0 In_block h" "dbits d @ u = item_bits (Len_sym n) @ r" "3 \<le> n" "n \<le> 258"
  shows "takes d h0 (item_bits (Len_sym n)) (Got_lensym n) h (zlib_step d)"
proof -
  have d: "dok d" "has_tables d" "static_trees d" "dstate d = INBLK" using assms(1) by (auto simp: synced_def)
  note w = with_len_symbol [OF d(1-3) _ _ assms(2) [unfolded item_bits.simps]]
  show ?thesis
    by (rule takesI [OF d(1)])
      (use w d len_code [OF assms(3,4)] assms in \<open>simp_all add: zlib_step_def step_INBLK_def goes_def synced_simps\<close>)
qed

lemma step_Dist_sym:
  assumes "synced d h0 (Got_len n) h" "dbits d @ u = item_bits (Dist_sym n k) @ r" "1 \<le> k" "k \<le> WINSIZE"
  shows "takes d h0 (item_bits (Dist_sym n k)) (Got_distsym n k) h (zlib_step d)"
proof -
  have d: "dok d" "has_tables d" "static_trees d" "dstate d = GOTLEN" using assms(1) by (auto simp: synced_def)
  note w = with_dist_symbol [OF d(1-3) _ _ assms(2) [unfolded item_bits.simps]]
  show ?thesis
    by (rule takesI [OF d(1)])
      (use w d dist_code [OF assms(3,4)] assms in \<open>simp_all add: zlib_step_def step_GOTLEN_def goes_def synced_simps\<close>)
qed

text \<open>The extra bits of a length or a distance.\<close>

lemma extra_value:
  assumes "rec_ok codes b rec" "in_rec x rec" "dbits d @ u = bits_le (nat (extrabits rec)) (x - cr_min rec) @ r"
    "nat (extrabits rec) \<le> nat (nbits d)"
  shows "cr_min rec + low_bits (extrabits rec) d = x"
proof -
  define e where "e = nat (extrabits rec)"
  have v: "take_bit e (x - cr_min rec) = x - cr_min rec" "e < 32" using assms(1,2)
    by (auto simp: rec_ok_def in_rec_def e_def intro!: take_bit_int_eq_self)
  have "take e (dbits d) = bits_le e (x - cr_min rec)" using take_dbits [OF assms(3)] assms(4) by (simp add: e_def)
  from low_bits_eq [OF this v(1)] assms(4) show ?thesis using uint_and_mask [OF v(2), of "bits d"] by (simp add: low_bits_def e_def)
qed

lemma step_Len_extra:
  assumes "synced d h0 (Got_lensym n) h" "dbits d @ u = item_bits (Len_extra n) @ r"
  shows "takes d h0 (item_bits (Len_extra n)) (Got_len n) h (zlib_step d)"
proof -
  have d: "dok d" "dstate d = GOTLENSYM" "3 \<le> n" "n \<le> 258" "sym d = cr_code (len_rec n)" "0 \<le> nbits d"
    using assms(1) by (auto simp: synced_def dok_def)
  note rec = len_rec_ok(2,3) [OF d(3,4)]
  have e: "0 \<le> extrabits (len_rec n)" "nth_opt lencodes (cr_code (len_rec n) - 257) = Some (len_rec n)" using rec(1) by (auto simp: rec_ok_def)
  show ?thesis
  proof (rule takesI [OF d(1)])
    assume n: "length (item_bits (Len_extra n)) \<le> nat (nbits d)"
    then have "cr_min (len_rec n) + low_bits (extrabits (len_rec n)) d = n"
      by (intro extra_value [OF rec assms(2) [unfolded item_bits.simps]]) simp
    then show "goes d (length (item_bits (Len_extra n))) h0 (Got_len n) h (zlib_step d)"
      using n d e assms(1) by (simp add: zlib_step_def step_GOTLENSYM_def need_def eatbits_def goes_def synced_simps)
  qed (use d e in \<open>simp add: zlib_step_def step_GOTLENSYM_def need_def\<close>)
qed

lemma step_Dist_extra:
  assumes "synced d h0 (Got_distsym n k) h" "dbits d @ u = item_bits (Dist_extra n k) @ r" "k \<le> int (length h)"
  shows "takes d h0 (item_bits (Dist_extra n k)) In_block (copy_back (nat n) (nat k) h) (zlib_step d)"
proof -
  have d: "dok d" "dstate d = GOTDISTSYM" "1 \<le> k" "k \<le> WINSIZE" "len d = n" "sym d = cr_code (dist_rec k)" "0 \<le> nbits d"
    using assms(1) by (auto simp: synced_def dok_def)
  note rec = dist_rec_ok(2,3) [OF d(3,4)]
  have e: "0 \<le> extrabits (dist_rec k)" "nth_opt distcodes (cr_code (dist_rec k)) = Some (dist_rec k)" using rec(1) by (auto simp: rec_ok_def)
  show ?thesis
  proof (rule takesI [OF d(1)])
    assume n: "length (item_bits (Dist_extra n k)) \<le> nat (nbits d)"
    then have v: "cr_min (dist_rec k) + low_bits (extrabits (dist_rec k)) d = k"
      by (intro extra_value [OF rec assms(2) [unfolded item_bits.simps]]) simp
    let ?d = "(eatbits (extrabits (dist_rec k)) d)\<lparr>dstate := INBLK\<rparr>"
    have "put_out ?d h0 h" using assms(1) by (simp add: synced_simps eatbits_def)
    from copy_match_ok [OF d(3,4) this assms(3)] obtain w p x where c: "copy_match (nat n) k ?d = Some (?d\<lparr>window := w, dwinpos := p, outblk := x\<rparr>)"
      "put_out (?d\<lparr>window := w, dwinpos := p, outblk := x\<rparr>) h0 (copy_back (nat n) (nat k) h)" by blast
    have "zlib_step d = Some (Go (?d\<lparr>window := w, dwinpos := p, outblk := x, len := - 1\<rparr>))"
      using n d e c(1) v by (simp add: zlib_step_def step_GOTDISTSYM_def need_def)
    then show "goes d (length (item_bits (Dist_extra n k))) h0 In_block (copy_back (nat n) (nat k) h) (zlib_step d)"
      using c(2) e assms(1) by (simp add: goes_def eatbits_def synced_simps)
  qed (use d e in \<open>simp add: zlib_step_def step_GOTDISTSYM_def need_def\<close>)
qed

lemma item_step:
  assumes "synced d h0 p h" "feed p h it = Some (p', h')" "dbits d @ u = item_bits it @ r"
  shows "takes d h0 (item_bits it) p' h' (zlib_step d)"
  using assms step_Header step_Open step_Lit step_End step_Len_sym step_Len_extra step_Dist_sym step_Dist_extra
  by (cases "(p, h, it)" rule: feed.cases) (auto split: if_splits simp del: item_bits.simps)

lemma item_length:
  assumes "synced d h0 p h" "feed p h it = Some (p', h')"
  shows "length (item_bits it) \<le> 24"
proof -
  have "nat (extrabits (len_rec n)) \<le> 24" if "3 \<le> n" "n \<le> 258" for n using len_rec_ok(2) [OF that] by (simp add: rec_ok_def nat_le_iff)
  moreover have "nat (extrabits (dist_rec k)) \<le> 24" if "1 \<le> k" "k \<le> WINSIZE" for k using dist_rec_ok(2) [OF that] by (simp add: rec_ok_def nat_le_iff)
  ultimately show ?thesis using assms
    by (cases "(p, h, it)" rule: feed.cases) (auto simp: synced_def static_len_def open_block_def eob_def split: if_splits)
qed

lemma at_pos_bits: "at_pos p (d\<lparr>bits := b, nbits := n\<rparr>) = at_pos p d"
  by (cases p) (auto simp: static_trees_def)

lemma synced_bits: "synced d h0 p h \<Longrightarrow> dok (d\<lparr>bits := b, nbits := n\<rparr>) \<Longrightarrow> synced (d\<lparr>bits := b, nbits := n\<rparr>) h0 p h"
  by (simp add: synced_def at_pos_bits has_tables_def put_out_def window_ok_def)

definition items_bits :: "item list \<Rightarrow> bool list" where
  "items_bits its = concat (map item_bits its)"

lemma items_bits_simps [simp]:
  "items_bits [] = []" "items_bits (it # its) = item_bits it @ items_bits its" "items_bits (its @ its') = items_bits its @ items_bits its'"
  by (simp_all add: items_bits_def)

text \<open>A call takes the items that have come in full; what is left begins within the first that has not.\<close>

definition handled :: "dctx \<Rightarrow> 8 word list \<Rightarrow> pos \<Rightarrow> 8 word list \<Rightarrow> item list \<Rightarrow> pos \<Rightarrow> 8 word list \<Rightarrow> bool list \<Rightarrow> dctx outcome option \<Rightarrow> bool" where
  "handled d h0 p h its p2 h2 u res \<longleftrightarrow> (\<exists>d' its1 its2 p1 h1. its = its1 @ its2 \<and> res = Some (Finished d') \<and>
     feeds p h its1 = Some (p1, h1) \<and> feeds p1 h1 its2 = Some (p2, h2) \<and> synced d' h0 p1 h1 \<and> dbits d' @ u = items_bits its2 \<and>
     length (items_bits (tl its2)) \<le> length u)"

lemma handled_now:
  assumes "synced d h0 p h" "feeds p h its = Some (p2, h2)" "dbits d @ u = items_bits its" "length (items_bits (tl its)) \<le> length u"
  shows "handled d' h0 p h its p2 h2 u (Some (Finished d))"
  unfolding handled_def using assms
  by (intro exI [of _ d] exI [of _ "[]"] exI [of _ its] exI [of _ p] exI [of _ h]) simp

lemma loop_items:
  "synced d h0 p h \<Longrightarrow> feeds p h its = Some (p2, h2) \<Longrightarrow> dbits d @ bytes_bits blk @ u = items_bits its \<Longrightarrow>
    handled d h0 p h its p2 h2 u (decompress_loop blk d)"
proof (induction its arbitrary: d blk p h)
  case Nil
  then have "bytes_bits blk = []" "nbits d \<le> 0" "u = []" by (auto simp: dbits_def bits_le_def)
  moreover from this have "blk = []" using length_bytes_bits [of blk] by simp
  ultimately have "decompress_loop blk d = Some (Finished d)" by (subst decompress_loop.simps) simp
  then show ?case using handled_now [OF Nil(1,2), of u d] Nil(3) \<open>blk = []\<close> by simp
next
  case (Cons it its)
  obtain p' h' where f: "feed p h it = Some (p', h')" "feeds p' h' its = Some (p2, h2)" using Cons.prems(2) by (auto split: bind_splits)
  have nb: "0 \<le> nbits d" using Cons.prems(1) by (simp add: synced_def dok_def)
  show ?case
  proof (cases "blk \<noteq> [] \<or> nbits d > 0")
    case False
    then have e: "dbits d = []" "blk = []" using nb by (auto simp: dbits_def)
    have "decompress_loop blk d = Some (Finished d)" using False by (subst decompress_loop.simps) simp
    moreover have "length (items_bits its) \<le> length u" using Cons.prems(3) e by (metis append_Nil bytes_bits_simps(1) items_bits_simps(2) length_append le_add2)
    ultimately show ?thesis using handled_now [OF Cons.prems(1,2), of u d] Cons.prems(3) e by simp
  next
    case True
    obtain blk1 d1 where rf: "refill blk d = (blk1, d1)" by fastforce
    have dok: "dok d" using Cons.prems(1) by (simp add: synced_def)
    obtain b n where r: "dok d1" "dbits d1 @ bytes_bits blk1 = dbits d @ bytes_bits blk" "blk1 = [] \<or> 24 \<le> nbits d1" "d1 = d\<lparr>bits := b, nbits := n\<rparr>"
      using refill_ok [OF dok rf] by blast
    have s1: "synced d1 h0 p h" using synced_bits [OF Cons.prems(1)] r(1,4) by simp
    have st: "dbits d1 @ (bytes_bits blk1 @ u) = item_bits it @ items_bits its" using Cons.prems(3) r(2) by (metis append.assoc items_bits_simps(2))
    note t = item_step [OF s1 f(1) st, unfolded takes_def]
    show ?thesis
    proof (cases "length (item_bits it) \<le> nat (nbits d1)")
      case ok: True
      then obtain d2 where d2: "zlib_step d1 = Some (Go d2)" "synced d2 h0 p' h'" "dbits d2 = drop (length (item_bits it)) (dbits d1)"
        using t by auto
      have "dbits d2 @ bytes_bits blk1 @ u = items_bits its"
        using arg_cong [OF st, of "drop (length (item_bits it))"] ok by (simp add: d2(3))
      from Cons.IH [OF d2(2) f(2) this]
      have "handled d2 h0 p' h' its p2 h2 u (decompress_loop blk d)"
        using True rf d2(1) by (subst decompress_loop.simps) simp
      then show ?thesis unfolding handled_def using f(1) by (metis (no_types, lifting) append_Cons bind.bind_lunit feeds.simps(2) prod.case)
    next
      case short: False
      then have "blk1 = []" using r(3) item_length [OF s1 f(1)] by auto
      moreover have "decompress_loop blk d = Some (Finished d1)"
        using True rf t short by (subst decompress_loop.simps) simp
      moreover have "length (items_bits its) \<le> length u"
        using arg_cong [OF st, of length] short \<open>blk1 = []\<close> by simp
      ultimately show ?thesis using handled_now [OF s1 Cons.prems(2), of u d] st by simp
    qed
  qed
qed

section \<open>Packets\<close>

primrec token_items :: "token \<Rightarrow> item list" where
  "token_items (Literal c) = [Lit c]"
| "token_items (Match k n) = concat (map (\<lambda>m. [Len_sym m, Len_extra m, Dist_sym m k, Dist_extra m k]) (cut_match n))"

lemma token_items_bits: "items_bits (token_items t) = token_bits t"
proof (cases t)
  case (Match k n)
  have "items_bits (concat (map (\<lambda>m. [Len_sym m, Len_extra m, Dist_sym m k, Dist_extra m k]) ms)) = concat (map (match1_bits k) ms)" for ms
    by (induction ms) (auto simp: match1_bits_def)
  then show ?thesis by (simp add: Match)
qed simp

lemma feeds_append: "feeds p h (its @ its') = feeds p h its \<bind> (\<lambda>(p, h). feeds p h its')"
  by (induction its arbitrary: p h) (auto split: bind_splits)

lemma copy_back_add: "copy_back (m + n) k h = copy_back n k (copy_back m k h)"
  by (induction m arbitrary: h) auto

lemma length_copy_back [simp]: "length (copy_back n k h) = length h + n"
  by (induction n arbitrary: h) auto

lemma match_items_feed:
  assumes "1 \<le> k" "k \<le> WINSIZE"
  shows "n = 0 \<or> 3 \<le> n \<Longrightarrow> k \<le> int (length h) \<Longrightarrow> feeds In_block h (token_items (Match k n)) = Some (In_block, copy_back (nat n) (nat k) h)"
proof (induction n arbitrary: h rule: cut_match.induct)
  case (1 n)
  show ?case
  proof (cases "n > 0")
    case True
    let ?m = "this_length n"
    have m: "3 \<le> ?m" "?m \<le> 258" "n - ?m = 0 \<or> 3 \<le> n - ?m" "0 \<le> n - ?m" using 1(2) True by (auto simp: this_length_def)
    have h: "k \<le> int (length (copy_back (nat ?m) (nat k) h))" using 1(3) m(1) by simp
    have c: "cut_match n = ?m # cut_match (n - ?m)" using True by (subst cut_match.simps) simp
    have "nat n = nat ?m + nat (n - ?m)" using m(1,4) by simp
    then show ?thesis using 1(1) [OF True m(3) h] m(1,2) assms 1(3) by (simp add: c copy_back_add)
  next
    case False
    then have "cut_match n = []" by (subst cut_match.simps) simp
    then show ?thesis using False by simp
  qed
qed

lemma token_feed: "expand_token t h = Some h' \<Longrightarrow> feeds In_block h (token_items t) = Some (In_block, h')"
proof (cases t)
  case (Match k n)
  assume "expand_token t h = Some h'"
  then show ?thesis using match_items_feed [of k n h] by (auto simp: Match split: if_splits)
qed simp

lemma tokens_feed: "expand ts h = Some h' \<Longrightarrow> feeds In_block h (concat (map token_items ts)) = Some (In_block, h')"
  by (induction ts arbitrary: h) (auto simp: feeds_append token_feed split: bind_splits)

definition packet_tail :: "nat \<Rightarrow> item list" where
  "packet_tail k = [End_block, Open_block, End_block, Open_block] @ concat (replicate k [End_block, Open_block])"

definition packet_items :: "bool \<Rightarrow> token list \<Rightarrow> item list" where
  "packet_items first toks = (if first then [Header, Open_block] else []) @ concat (map token_items toks)"

lemma packet_items_bits: "items_bits (packet_items first toks @ packet_tail k) = packet_bits first toks k"
proof -
  have "items_bits (concat (map token_items toks)) = concat (map token_bits toks)"
    by (induction toks) (auto simp: token_items_bits)
  moreover have "items_bits (concat (replicate k [End_block, Open_block])) = concat (replicate k (eob @ open_block))"
    by (induction k) auto
  ultimately show ?thesis by (simp add: packet_items_def packet_tail_def packet_bits_def)
qed

lemma length_packet_tail: "20 \<le> length (items_bits (packet_tail k))"
  by (simp add: packet_tail_def open_block_def eob_def static_len_def)

lemma packet_tail_quiet: "set (packet_tail k) \<subseteq> {End_block, Open_block}"
  by (auto simp: packet_tail_def)

lemma quiet_feeds: "set its \<subseteq> {End_block, Open_block} \<Longrightarrow> feeds p h its = Some (p', h') \<Longrightarrow> h' = h"
proof (induction its arbitrary: p h)
  case (Cons it its)
  then obtain p1 h1 where f: "feed p h it = Some (p1, h1)" "feeds p1 h1 its = Some (p', h')" by (auto split: bind_splits)
  then have "h1 = h" using Cons.prems(1) by (cases p) auto
  then show ?case using Cons.IH [OF _ f(2)] Cons.prems(1) by simp
qed simp

lemma tail_feed: "feeds In_block h (packet_tail k) = Some (In_block, h)"
proof -
  have "feeds In_block h (concat (replicate k [End_block, Open_block])) = Some (In_block, h)" by (induction k) auto
  then show ?thesis by (simp add: packet_tail_def)
qed

lemma packet_feed:
  assumes "expand toks h = Some h'"
  shows "feeds (if first then At_start else In_block) h (packet_items first toks @ packet_tail k) = Some (In_block, h')"
  using tokens_feed [OF assms] tail_feed by (simp add: packet_items_def feeds_append)

text \<open>What remains when fewer bits than the tail has are missing lies within the tail.\<close>

lemma remaining_in_tail:
  assumes "a @ packet_tail k = its1 @ its2" "length (items_bits (tl its2)) < 20"
  shows "set its2 \<subseteq> {End_block, Open_block}"
proof -
  have "length its2 \<le> length (packet_tail k)"
  proof (rule ccontr)
    assume "\<not> length its2 \<le> length (packet_tail k)"
    then have l: "length its1 < length a" using arg_cong [OF assms(1), of length] by simp
    then have "its2 = drop (length its1) a @ packet_tail k" using arg_cong [OF assms(1), of "drop (length its1)"] by simp
    then obtain x b where "its2 = x # b @ packet_tail k" using l by (cases "drop (length its1) a") auto
    then show False using assms(2) length_packet_tail [of k] by simp
  qed
  moreover have "length a + length (packet_tail k) = length its1 + length its2" using arg_cong [OF assms(1), of length] by simp
  ultimately have "length its1 - length a = length (packet_tail k) - length its2" "length a \<le> length its1" by linarith+
  then have "its2 = drop (length (packet_tail k) - length its2) (packet_tail k)"
    using arg_cong [OF assms(1), of "drop (length its1)"] by simp
  then show ?thesis using packet_tail_quiet by (metis order_trans set_drop_subset)
qed

section \<open>Round trip\<close>

text \<open>Blocks go in order through a compressor, and their packets through a decompressor.\<close>

primrec send_all :: "compressor \<Rightarrow> (8 word list \<times> int) list \<Rightarrow> (8 word list list \<times> compressor) option" where
  "send_all z [] = Some ([], z)"
| "send_all z (b # bs) = do {
     (pkt, z) \<leftarrow> zlib_compress_block z (fst b) (snd b);
     (pkts, z) \<leftarrow> send_all z bs;
     Some (pkt # pkts, z)
   }"

primrec receive_all :: "dctx \<Rightarrow> 8 word list list \<Rightarrow> (8 word list option list \<times> dctx) option" where
  "receive_all d [] = Some ([], d)"
| "receive_all d (pkt # pkts) = do {
     (res, d) \<leftarrow> zlib_decompress_block d pkt;
     (ress, d) \<leftarrow> receive_all d pkts;
     Some (res # ress, d)
   }"

definition in_step :: "compressor \<Rightarrow> dctx \<Rightarrow> 8 word list \<Rightarrow> bool" where
  "in_step z d s \<longleftrightarrow> comp_ok z s \<and> dok d \<and> has_tables d \<and> window_ok d s \<and> outblk d = None \<and>
     (\<exists>p its. at_pos p d \<and> feeds p s its = Some (if firstblock (snd z) then At_start else In_block, s) \<and>
        dbits d @ in_hand (snd z) = items_bits its)"

lemma init_in_step:
  obtains d where "zlib_decompress_init junk' = Some d" "in_step (zlib_compress_init junk) d []"
proof -
  have t: "zlib_mktable static_lengths = Some (the (zlib_mktable static_lengths))"
    "zlib_mktable (replicate 32 5) = Some (the (zlib_mktable (replicate 32 5)))"
    using mktable_Some [OF static_lengths_ok(1)] mktable_Some [OF dist_lengths_ok(1)] by simp_all
  obtain lt dt where "zlib_mktable static_lengths = Some lt" "zlib_mktable (replicate 32 5) = Some dt" using t by blast
  then obtain d where d: "zlib_decompress_init junk' = Some d" "staticlentable d = lt" "staticdisttable d = dt"
    "dstate d = START" "nbits d = 0" "bits d = 0" "dwinpos d = 0" "outblk d = None"
    by (simp add: zlib_decompress_init_def)
  moreover have "lt = the (zlib_mktable static_lengths)" "dt = the (zlib_mktable (replicate 32 5))"
    using \<open>zlib_mktable static_lengths = Some lt\<close> \<open>zlib_mktable (replicate 32 5) = Some dt\<close> by simp_all
  ultimately have "in_step (zlib_compress_init junk) d []" using zlib_compress_init_ok [of junk]
    by (auto simp: in_step_def dok_def has_tables_def window_ok_def slot_def dbits_def intro!: exI [of _ At_start] exI [of _ "[]"])
  then show thesis using that d(1) by blast
qed

lemma in_hand_short: "comp_ok z s \<Longrightarrow> length (in_hand (snd z)) < 8"
  by (auto simp: comp_ok_def ob_ok_def in_hand_def)

lemma packet_in_step:
  assumes "in_step z d s"
  obtains pkt z' d' where "zlib_compress_block z b m = Some (pkt, z')" "zlib_decompress_block d pkt = Some (Some b, d')"
    "in_step z' d' (s @ b)" "size_of_int m \<le> length pkt"
proof -
  have d: "comp_ok z s" "dok d" "has_tables d" "window_ok d s" "outblk d = None" using assms by (auto simp: in_step_def)
  obtain p its where p: "at_pos p d" "feeds p s its = Some (if firstblock (snd z) then At_start else In_block, s)"
    "dbits d @ in_hand (snd z) = items_bits its" using assms by (auto simp: in_step_def)
  obtain pkt z' toks k where c: "zlib_compress_block z b m = Some (pkt, z')" "comp_ok z' (s @ b)" "\<not> firstblock (snd z')"
    "expand toks s = Some (s @ b)" "in_hand (snd z) @ packet_bits (firstblock (snd z)) toks k = bytes_bits pkt @ in_hand (snd z')"
    "size_of_int m \<le> length pkt" by (rule zlib_compress_block_ok [OF d(1)])
  define d0 where "d0 = d\<lparr>outblk := Some []\<rparr>"
  have at: "at_pos p (d\<lparr>outblk := x\<rparr>) = at_pos p d" for p d x by (cases p) (auto simp: static_trees_def)
  have s0: "synced d0 s p s" using d p(1) by (simp add: d0_def synced_def at dok_def has_tables_def put_out_def window_ok_def)
  let ?its = "(its @ packet_items (firstblock (snd z)) toks) @ packet_tail k"
  have "feeds p s ?its = Some (In_block, s @ b)"
    using packet_feed [OF c(4), of "firstblock (snd z)" k] p(2) by (simp add: feeds_append)
  moreover have "dbits d0 @ bytes_bits pkt @ in_hand (snd z') = items_bits ?its"
  proof -
    have "dbits d0 = dbits d" by (simp add: d0_def dbits_def)
    then have "dbits d0 @ bytes_bits pkt @ in_hand (snd z') = (dbits d @ in_hand (snd z)) @ packet_bits (firstblock (snd z)) toks k"
      by (simp add: c(5))
    then show ?thesis by (simp add: p(3) flip: packet_items_bits)
  qed
  ultimately have "handled d0 s p s ?its In_block (s @ b) (in_hand (snd z')) (decompress_loop pkt d0)" by (rule loop_items [OF s0])
  then obtain d' its1 its2 p1 h1 where h: "?its = its1 @ its2" "decompress_loop pkt d0 = Some (Finished d')"
    "feeds p1 h1 its2 = Some (In_block, s @ b)" "synced d' s p1 h1" "dbits d' @ in_hand (snd z') = items_bits its2"
    "length (items_bits (tl its2)) \<le> length (in_hand (snd z'))" unfolding handled_def by blast
  have "length (items_bits (tl its2)) < 20" using h(6) in_hand_short [OF c(2)] by simp
  from quiet_feeds [OF remaining_in_tail [OF h(1) this] h(3)] have h1: "h1 = s @ b" by simp
  then have out: "outblk d' = Some b" using h(4) by (auto simp: synced_def put_out_def)
  then have "zlib_decompress_block d pkt = Some (Some b, d'\<lparr>outblk := None\<rparr>)"
    using d(5) h(2) by (simp add: zlib_decompress_block_def d0_def)
  moreover have "in_step z' (d'\<lparr>outblk := None\<rparr>) (s @ b)"
    using h(3-5) c(2,3) h1 unfolding in_step_def synced_def
    by (simp add: at dok_def has_tables_def put_out_def window_ok_def dbits_def) blast
  ultimately show thesis using that c(1,6) by blast
qed

lemma all_in_step:
  "in_step z d s \<Longrightarrow> \<exists>pkts z' d'. send_all z bs = Some (pkts, z') \<and> receive_all d pkts = Some (map (\<lambda>b. Some (fst b)) bs, d') \<and>
    list_all2 (\<lambda>pkt b. size_of_int (snd b) \<le> length pkt) pkts bs"
proof (induction bs arbitrary: z d s)
  case (Cons b bs)
  obtain pkt z1 d1 where p: "zlib_compress_block z (fst b) (snd b) = Some (pkt, z1)" "zlib_decompress_block d pkt = Some (Some (fst b), d1)"
    "in_step z1 d1 (s @ fst b)" "size_of_int (snd b) \<le> length pkt" by (rule packet_in_step [OF Cons.prems])
  from Cons.IH [OF p(3)] obtain pkts z2 d2 where q: "send_all z1 bs = Some (pkts, z2)" "receive_all d1 pkts = Some (map (\<lambda>b. Some (fst b)) bs, d2)"
    "list_all2 (\<lambda>pkt b. size_of_int (snd b) \<le> length pkt) pkts bs" by blast
  then show ?case using p by (intro exI [of _ "pkt # pkts"] exI [of _ z2] exI [of _ d2]) simp
qed simp

text \<open>
  C1: Whatever the windows of both sides hold at first, a decompressor that gets the packets a compressor makes,
  in order, gives back exactly the blocks, one for one: each packet brings all of its block although its last
  bits may only come with the next, and no assertion, bounds check or decoding error strikes on either side.
  Each packet is at least as long as was asked for, where no negative length is asked for.
\<close>

theorem zlib_roundtrip:
  assumes "\<forall>b \<in> set blocks. 0 \<le> snd b \<and> snd b < 2 ^ 31"
  shows "\<exists>pkts z d d'. send_all (zlib_compress_init junk) blocks = Some (pkts, z) \<and> zlib_decompress_init junk' = Some d \<and>
     receive_all d pkts = Some (map (\<lambda>b. Some (fst b)) blocks, d') \<and> list_all2 (\<lambda>pkt b. snd b \<le> int (length pkt)) pkts blocks"
proof -
  obtain d where d: "zlib_decompress_init junk' = Some d" "in_step (zlib_compress_init junk) d []" by (rule init_in_step)
  have long: "list_all2 (\<lambda>pkt b. snd b \<le> int (length pkt)) pkts blocks"
    if "list_all2 (\<lambda>pkt b. size_of_int (snd b) \<le> length pkt) pkts blocks" for pkts :: "8 word list list"
    using that
  proof (rule list.rel_mono_strong)
    fix pkt :: "8 word list" and b
    assume "b \<in> set blocks" "size_of_int (snd b) \<le> length pkt"
    then show "snd b \<le> int (length pkt)" using assms size_of_int_nonneg [of "snd b"] by auto
  qed
  from all_in_step [OF d(2), of blocks] d(1) long show ?thesis by blast
qed

theorem zlib_roundtrip_witness:
  "\<exists>pkts z d d'. send_all (zlib_compress_init (\<lambda>_. 0)) [([104, 105], 0), ([104, 105, 104, 105], 40)] = Some (pkts, z) \<and>
     zlib_decompress_init (\<lambda>_. 1) = Some d \<and>
     receive_all d pkts = Some ([Some [104, 105], Some [104, 105, 104, 105]], d') \<and> 40 \<le> length (pkts ! 1)"
proof -
  let ?bs = "[([104, 105], 0), ([104, 105, 104, 105], 40)] :: (8 word list \<times> int) list"
  have "\<forall>b \<in> set ?bs. 0 \<le> snd b \<and> snd b < 2 ^ 31" by simp
  from zlib_roundtrip [OF this, of "\<lambda>_. 0" "\<lambda>_. 1"] show ?thesis by (auto simp: list_all2_Cons2)
qed

end
