(* ===== verification/InflateSafe.thy ===== *)
theory InflateSafe
  imports Zlib
begin

text \<open>
  The decompressor of \<open>putty-src/sshzlib.c\<close> on hostile input: whatever bytes come, in whatever packets, every
  lookup ends, every index is in bounds, no null pointer is followed and every call returns.
\<close>

unbundle bit_operations_syntax

section \<open>Tables\<close>

text \<open>An entry with a symbol takes a bit at least; one without leads to a table, or to nothing.\<close>

inductive table_ok :: "int \<Rightarrow> zlib_table \<Rightarrow> bool" for N where
  "length es = 2 ^ b \<Longrightarrow>
   (\<forall>e \<in> set es. 0 \<le> te_nbits e \<and> (te_code e \<noteq> - 1 \<longrightarrow> 0 \<le> te_code e \<and> te_code e < N \<and> 1 \<le> te_nbits e) \<and>
     (\<forall>t. te_next e = Some t \<longrightarrow> table_ok N t)) \<Longrightarrow>
   table_ok N (Ztable (2 ^ b - 1) es)"

definition hand_ok :: "int \<Rightarrow> 32 word \<Rightarrow> bool" where
  "hand_ok n w \<longleftrightarrow> 0 \<le> n \<and> n < 32 \<and> take_bit (nat n) w = w"

lemma huflookup_ok:
  "table_ok N t \<Longrightarrow> hand_ok n w \<Longrightarrow>
    \<exists>l. zlib_huflookup w n t = Some l \<and> (\<forall>c b m. l = Symbol c b m \<longrightarrow> 0 \<le> c \<and> c < N \<and> hand_ok m b \<and> m < n)"
proof (induction t arbitrary: w n rule: table_ok.induct)
  case (1 es b)
  define i where "i = uint w AND (2 ^ b - 1)"
  have i: "0 \<le> i" "nat i < length es"
  proof -
    have "i = take_bit b (uint w)" by (simp add: i_def and_low)
    then show "0 \<le> i" "nat i < length es" using 1(1) by (simp_all add: nat_less_iff)
  qed
  define e where "e = es ! nat i"
  have e: "e \<in> set es" "nth_opt es i = Some e" using i by (simp_all add: e_def nth_opt_def nat_less_iff)
  note ok = bspec [OF 1(2) e(1)]
  have step: "zlib_huflookup w n (Ztable (2 ^ b - 1) es) =
      (if te_nbits e > n then Some Need_more
       else if te_code e = - 1 then (case te_next e of None \<Rightarrow> Some Missing | Some t \<Rightarrow> zlib_huflookup (drop_bit (nat (te_nbits e)) w) (n - te_nbits e) t)
       else Some (Symbol (te_code e) (drop_bit (nat (te_nbits e)) w) (n - te_nbits e)))"
    using e(2) by (subst zlib_huflookup.simps) (simp add: i_def Let_def)
  show ?case
  proof (cases "te_nbits e > n")
    case False
    have h: "hand_ok (n - te_nbits e) (drop_bit (nat (te_nbits e)) w)"
      using 1(3) ok False take_bit_drop_word [of "nat n" w "nat (te_nbits e)"] by (simp add: hand_ok_def nat_diff_distrib)
    show ?thesis
    proof (cases "te_code e = - 1")
      case none: True
      show ?thesis
      proof (cases "te_next e")
        case None
        then show ?thesis using step False none by simp
      next
        case (Some t)
        then obtain l where l: "zlib_huflookup (drop_bit (nat (te_nbits e)) w) (n - te_nbits e) t = Some l"
          "\<forall>c b m. l = Symbol c b m \<longrightarrow> 0 \<le> c \<and> c < N \<and> hand_ok m b \<and> m < n - te_nbits e" using ok h by blast
        then show ?thesis using step False none Some ok by fastforce
      qed
    next
      case sym: False
      then show ?thesis using step False ok h by auto
    qed
  qed (simp add: step)
qed

lemma mkonetab_ok:
  "codes_fit codes ls \<Longrightarrow> table_ok (int (length ls)) (zlib_mkonetab codes ls pfx pfxbits b)"
proof (induction codes ls pfx pfxbits b rule: zlib_mkonetab.induct)
  case (1 codes ls pfx pfxbits b)
  let ?f = "\<lambda>j. let (n, code) = fill_table codes ls pfx pfxbits b ! j in
    if n \<le> int b then Entry n code None
    else Entry (int b) (- 1) (Some (zlib_mkonetab codes ls (pfx OR push_bit pfxbits (int j)) (pfxbits + b)
      (nat (if n - int b > 7 then 7 else n - int b))))"
  let ?P = "\<lambda>e. 0 \<le> te_nbits e \<and> (te_code e \<noteq> - 1 \<longrightarrow> 0 \<le> te_code e \<and> te_code e < int (length ls) \<and> 1 \<le> te_nbits e) \<and>
     (\<forall>t. te_next e = Some t \<longrightarrow> table_ok (int (length ls)) t)"
  have "?P (?f j)" if j: "j < 2 ^ b" for j
  proof -
    obtain n code where nc: "fill_table codes ls pfx pfxbits b ! j = (n, code)" by fastforce
    have "entry_ok codes ls pfx pfxbits b {..<length ls} (int j) (n, code)"
      using fill_table_ok [OF 1(2), of "int j" b pfx pfxbits] j nc by simp
    then have ok: "0 \<le> n" "code \<noteq> - 1 \<longrightarrow> 0 \<le> code \<and> code < int (length ls) \<and> 1 \<le> n"
      by (auto simp: entry_ok_def hits_def active_def split: if_splits)
    show ?thesis
    proof (cases "n \<le> int b")
      case True
      then show ?thesis using ok nc by simp
    next
      case False
      then show ?thesis using 1(1) [of "fill_table codes ls pfx pfxbits b" j "(n, code)" n code] 1(2) nc j by simp
    qed
  qed
  then have "\<forall>e \<in> set (map ?f [0..<2 ^ b]). ?P e" by auto
  from table_ok.intros [OF _ this] show ?case by (subst zlib_mkonetab.simps) (simp add: Let_def)
qed

definition all_lengths :: "nat list \<Rightarrow> bool" where
  "all_lengths ls \<longleftrightarrow> list_all (\<lambda>l. l < 16) ls"

lemma mktable_table_ok:
  assumes "all_lengths ls" "int (length ls) \<le> N" "N \<le> 288"
  obtains t where "zlib_mktable ls = Some t" "table_ok N t"
proof -
  have fit: "codes_fit (huffman_codes ls) ls"
    by (rule huffman_codes_fit) (use assms(1) in \<open>simp add: all_lengths_def MAXCODELEN_def\<close>)
  have mono: "table_ok N t" if "table_ok M t" "M \<le> N" for M t
    using that by (induction t rule: table_ok.induct) (rule table_ok.intros, auto)
  show thesis using that mono [OF mkonetab_ok [OF fit] assms(2)] assms(1)
    using assms(2,3) by (simp add: zlib_mktable_def all_lengths_def MAXCODELEN_def MAXSYMS_def)
qed

section \<open>The states\<close>

lemma dok_hand: "dok d \<longleftrightarrow> hand_ok (nbits d) (bits d)"
  by (simp add: dok_def hand_ok_def)

lemma hand_eat: "hand_ok n w \<Longrightarrow> 0 \<le> k \<Longrightarrow> k \<le> n \<Longrightarrow> hand_ok (n - k) (drop_bit (nat k) w)"
  using take_bit_drop_word [of "nat n" w "nat k"] by (simp add: hand_ok_def nat_diff_distrib)

definition trees_in :: "dctx \<Rightarrow> bool" where
  "trees_in d \<longleftrightarrow> (\<exists>t. len_table d = Some t \<and> table_ok 288 t) \<and> (\<exists>t. dist_table d = Some t \<and> table_ok 32 t)"

definition header_in :: "dctx \<Rightarrow> bool" where
  "header_in d \<longleftrightarrow> 257 \<le> hlit d \<and> hlit d \<le> 288 \<and> 1 \<le> hdist d \<and> hdist d \<le> 32 \<and> 0 \<le> lenptr d"

definition lenlen_in :: "dctx \<Rightarrow> bool" where
  "lenlen_in d \<longleftrightarrow> header_in d \<and> lenptr d \<le> hlit d + hdist d \<and> (\<exists>t. lenlentable d = Some t \<and> table_ok 19 t)"

primrec state_ok :: "dstate \<Rightarrow> dctx \<Rightarrow> bool" where
  "state_ok START d \<longleftrightarrow> True"
| "state_ok OUTSIDEBLK d \<longleftrightarrow> True"
| "state_ok TREES_HDR d \<longleftrightarrow> True"
| "state_ok TREES_LENLEN d \<longleftrightarrow> header_in d \<and> hclen d \<le> 19 \<and> lenptr d < hclen d"
| "state_ok TREES_LEN d \<longleftrightarrow> lenlen_in d"
| "state_ok TREES_LENREP d \<longleftrightarrow> lenlen_in d \<and> lenextrabits d \<in> {2, 3, 7} \<and> lenrep d < 16"
| "state_ok INBLK d \<longleftrightarrow> trees_in d"
| "state_ok GOTLENSYM d \<longleftrightarrow> trees_in d \<and> 257 \<le> sym d \<and> sym d < 286"
| "state_ok GOTLEN d \<longleftrightarrow> trees_in d"
| "state_ok GOTDISTSYM d \<longleftrightarrow> trees_in d \<and> 0 \<le> sym d \<and> sym d < 30"
| "state_ok UNCOMP_LEN d \<longleftrightarrow> True"
| "state_ok UNCOMP_NLEN d \<longleftrightarrow> True"
| "state_ok UNCOMP_DATA d \<longleftrightarrow> True"

definition base_ok :: "dctx \<Rightarrow> bool" where
  "base_ok d \<longleftrightarrow> table_ok 288 (staticlentable d) \<and> table_ok 32 (staticdisttable d) \<and> 0 \<le> dwinpos d \<and> dwinpos d < WINSIZE \<and>
     length (lengths d) = 320 \<and> all_lengths (lengths d) \<and> length (lenlen d) = 19 \<and> all_lengths (lenlen d)"

definition dctx_ok :: "dctx \<Rightarrow> bool" where
  "dctx_ok d \<longleftrightarrow> hand_ok (nbits d) (bits d) \<and> base_ok d \<and> outblk d \<noteq> None \<and> state_ok (dstate d) d"

text \<open>Each round takes a bit, or leaves one of the three states that may take none.\<close>

definition rank :: "dctx \<Rightarrow> int" where
  "rank d = 2 * nbits d + (if dstate d \<in> {GOTLENSYM, GOTDISTSYM, TREES_LEN} then 1 else 0)"

primrec result_ok :: "dctx \<Rightarrow> dctx outcome \<Rightarrow> bool" where
  "result_ok d (Go d') \<longleftrightarrow> dctx_ok d' \<and> rank d' < rank d"
| "result_ok d (Finished d') \<longleftrightarrow> dctx_ok d'"
| "result_ok d (Decode_error d') \<longleftrightarrow> outblk d' \<noteq> None"

definition round_ok :: "dctx \<Rightarrow> dctx outcome option \<Rightarrow> bool" where
  "round_ok d r \<longleftrightarrow> (\<exists>out. r = Some out \<and> result_ok d out)"

lemma round_need: "dctx_ok d \<Longrightarrow> (n \<le> nbits d \<Longrightarrow> round_ok d act) \<Longrightarrow> round_ok d (need n d act)"
  by (simp add: need_def round_ok_def)

lemma round_Go: "dctx_ok d' \<Longrightarrow> rank d' < rank d \<Longrightarrow> round_ok d (Some (Go d'))"
  by (simp add: round_ok_def)

lemma round_error [simp]: "round_ok d (Some (Decode_error d')) \<longleftrightarrow> outblk d' \<noteq> None"
  by (simp add: round_ok_def)

lemma round_symbol:
  assumes "dctx_ok d" "tab = Some t" "table_ok N t"
    and "\<And>c b m. 0 \<le> c \<Longrightarrow> c < N \<Longrightarrow> hand_ok m b \<Longrightarrow> m < nbits d \<Longrightarrow> round_ok d (act c (d\<lparr>bits := b, nbits := m\<rparr>))"
  shows "round_ok d (with_symbol tab d act)"
proof -
  have "hand_ok (nbits d) (bits d)" using assms(1) by (simp add: dctx_ok_def)
  from huflookup_ok [OF assms(3) this] obtain l where l: "zlib_huflookup (bits d) (nbits d) t = Some l"
    "\<forall>c b m. l = Symbol c b m \<longrightarrow> 0 \<le> c \<and> c < N \<and> hand_ok m b \<and> m < nbits d" by blast
  show ?thesis
  proof (cases l)
    case Need_more
    then show ?thesis using l(1) assms(1,2) by (simp add: with_symbol_def round_ok_def)
  next
    case Missing
    then show ?thesis using l(1) assms(1,2) by (simp add: with_symbol_def dctx_ok_def)
  next
    case (Symbol c b m)
    then show ?thesis using l assms(2,4) by (simp add: with_symbol_def)
  qed
qed

lemma round_eat:
  assumes "dctx_ok d" "0 \<le> k" "k \<le> nbits d" "bits d' = drop_bit (nat k) (bits d)" "nbits d' = nbits d - k"
    "base_ok d'" "outblk d' \<noteq> None" "state_ok (dstate d') d'"
    "0 < k \<or> dstate d \<in> {GOTLENSYM, GOTDISTSYM, TREES_LEN} \<and> dstate d' \<notin> {GOTLENSYM, GOTDISTSYM, TREES_LEN}"
  shows "round_ok d (Some (Go d'))"
  using assms hand_eat [of "nbits d" "bits d" k] by (intro round_Go) (auto simp: dctx_ok_def rank_def)

lemma trees_keep [simp]:
  "trees_in (d\<lparr>bits := x0\<rparr>) = trees_in d"
  "trees_in (d\<lparr>nbits := x1\<rparr>) = trees_in d"
  "trees_in (d\<lparr>dstate := x2\<rparr>) = trees_in d"
  "trees_in (d\<lparr>sym := x3\<rparr>) = trees_in d"
  "trees_in (d\<lparr>len := x4\<rparr>) = trees_in d"
  "trees_in (d\<lparr>window := x5\<rparr>) = trees_in d"
  "trees_in (d\<lparr>dwinpos := x6\<rparr>) = trees_in d"
  "trees_in (d\<lparr>outblk := x7\<rparr>) = trees_in d"
  by (simp_all add: trees_in_def len_table_def dist_table_def split: option.split table_ref.split)

lemmas ok_simps = dctx_ok_def base_ok_def eatbits_def header_in_def

lemmas trees_simps = trees_in_def len_table_def dist_table_def

lemma START_ok:
  assumes "dctx_ok d" "dstate d = START"
  shows "round_ok d (step_START d)"
  unfolding step_START_def using assms by (intro round_need) (auto simp: Let_def ok_simps intro!: round_eat [where k = 16])

lemma OUTSIDEBLK_ok:
  assumes "dctx_ok d" "dstate d = OUTSIDEBLK"
  shows "round_ok d (step_OUTSIDEBLK d)"
  unfolding step_OUTSIDEBLK_def
proof (rule round_need [OF assms(1)])
  assume n: "3 \<le> nbits d"
  have e: "drop_bit 2 (drop_bit 1 (bits d)) = drop_bit 3 (bits d)" by (simp only: drop_bit_drop_bit) simp
  have d3: "eatbits 2 (eatbits 1 d) = eatbits 3 d" using e by (simp add: eatbits_def)
  define k where "k = take_bit 3 (nbits (eatbits 3 d))"
  have k: "nbits (eatbits 3 d) AND 7 = k" by (simp add: k_def take_bit_eq_mask mask_eq_exp_minus_1)
  have k_range: "0 \<le> k" "k \<le> nbits d - 3"
    using n take_bit_int_less_eq_self_iff [of 3 "nbits d - 3"] by (simp_all add: k_def eatbits_def)
  have "drop_bit (nat k) (drop_bit 3 (bits d)) = drop_bit (nat (3 + k)) (bits d)"
    using k_range by (simp add: drop_bit_drop_bit nat_add_distrib add.commute)
  then have stored: "round_ok d (Some (Go (eatbits k ((eatbits 3 d)\<lparr>dstate := UNCOMP_LEN\<rparr>))))"
    using assms n k_range by (intro round_eat [where k = "3 + k"]) (auto simp: ok_simps)
  show "round_ok d (let d = eatbits 1 d; blktype = uint (bits d AND 3); d = eatbits 2 d in
      if blktype = 0 then Some (Go (eatbits (nbits d AND 7) (d\<lparr>dstate := UNCOMP_LEN\<rparr>)))
      else if blktype = 1 then Some (Go (d\<lparr>currlentable := Some Static, currdisttable := Some Static, dstate := INBLK\<rparr>))
      else if blktype = 2 then Some (Go (d\<lparr>dstate := TREES_HDR\<rparr>))
      else Some (Go d))"
    unfolding Let_def d3 k
    using stored assms n by (auto simp del: One_nat_def simp: ok_simps trees_simps intro!: round_eat [where k = 3])
qed

lemma TREES_HDR_ok:
  assumes "dctx_ok d" "dstate d = TREES_HDR"
  shows "round_ok d (step_TREES_HDR d)"
  unfolding step_TREES_HDR_def
proof (rule round_need [OF assms(1)])
  assume n: "5 + 5 + 4 \<le> nbits d"
  have e: "drop_bit 4 (drop_bit 5 (drop_bit 5 (bits d))) = drop_bit 14 (bits d)" by (simp only: drop_bit_drop_bit) simp
  have m: "uint (w AND 31) \<le> 31" "uint (w AND 15) \<le> 15" for w :: "32 word"
    using word_and_le1 [of w 31] word_and_le1 [of w 15] by (simp_all add: word_le_def)
  have pos: "0 < 4 + uint w" for w :: "32 word" using uint_nonnegative [of w] by linarith
  show "round_ok d (let d = eatbits 5 (d\<lparr>hlit := 257 + uint (bits d AND 31)\<rparr>);
          d = eatbits 5 (d\<lparr>hdist := 1 + uint (bits d AND 31)\<rparr>);
          d = eatbits 4 (d\<lparr>hclen := 4 + uint (bits d AND 15)\<rparr>)
      in Some (Go (d\<lparr>lenptr := 0, dstate := TREES_LENLEN, lenlen := replicate 19 0\<rparr>)))"
    using assms n e m pos by (auto simp: Let_def ok_simps all_lengths_def list_all_iff intro!: round_eat [where k = 14])
qed

lemma UNCOMP_LEN_ok:
  assumes "dctx_ok d" "dstate d = UNCOMP_LEN"
  shows "round_ok d (step_UNCOMP_LEN d)"
  unfolding step_UNCOMP_LEN_def using assms by (intro round_need) (auto simp: ok_simps intro!: round_eat [where k = 16])

lemma UNCOMP_NLEN_ok:
  assumes "dctx_ok d" "dstate d = UNCOMP_NLEN"
  shows "round_ok d (step_UNCOMP_NLEN d)"
  unfolding step_UNCOMP_NLEN_def using assms by (intro round_need) (auto simp: Let_def ok_simps intro!: round_eat [where k = 16])

section \<open>Code lengths\<close>

lemma all_lengths_update: "all_lengths ls \<Longrightarrow> l < 16 \<Longrightarrow> all_lengths (ls[i := l])"
  by (auto simp: all_lengths_def list_all_iff dest!: set_update_subset_insert [THEN subsetD])

lemma lenlenmap_range:
  assumes "0 \<le> i" "i < 19"
  obtains j where "nth_opt lenlenmap i = Some j" "0 \<le> j" "j < 19"
proof -
  have "list_all (\<lambda>j. 0 \<le> j \<and> j < 19) lenlenmap" "length lenlenmap = 19" by code_simp+
  then show thesis using that [of "lenlenmap ! nat i"] assms by (simp add: nth_opt_def list_all_length nat_less_iff)
qed

definition lenlen_read :: "dctx \<Rightarrow> dctx \<Rightarrow> bool" where
  "lenlen_read d d' \<longleftrightarrow> (\<exists>ll p b n. d' = d\<lparr>lenlen := ll, lenptr := p, bits := b, nbits := n\<rparr> \<and> length ll = 19 \<and> all_lengths ll \<and>
     lenptr d \<le> p \<and> p \<le> hclen d \<and> hand_ok n b \<and> n \<le> nbits d \<and> (lenptr d < hclen d \<and> 3 \<le> nbits d \<longrightarrow> n \<le> nbits d - 3))"

lemma read_lenlen_ok:
  "hand_ok (nbits d) (bits d) \<Longrightarrow> 0 \<le> lenptr d \<Longrightarrow> lenptr d \<le> hclen d \<Longrightarrow> hclen d \<le> 19 \<Longrightarrow> length (lenlen d) = 19 \<Longrightarrow> all_lengths (lenlen d) \<Longrightarrow>
    \<exists>d'. read_lenlen d = Some d' \<and> lenlen_read d d'"
proof (induction d rule: read_lenlen.induct)
  case (1 d)
  show ?case
  proof (cases "lenptr d < hclen d \<and> nbits d \<ge> 3")
    case False
    have "d = d\<lparr>lenlen := lenlen d, lenptr := lenptr d, bits := bits d, nbits := nbits d\<rparr>" by simp
    then have "lenlen_read d d" unfolding lenlen_read_def using 1(2-7) False by blast
    moreover have "read_lenlen d = Some d" by (subst read_lenlen.simps) (simp only: False if_False)
    ultimately show ?thesis by blast
  next
    case True
    obtain j where j: "nth_opt lenlenmap (lenptr d) = Some j" "0 \<le> j" "j < 19" using lenlenmap_range [of "lenptr d"] 1(3,5) True by auto
    define ll where "ll = (lenlen d)[nat j := unat (bits d AND 7)]"
    have set: "set_at (lenlen d) j (unat (bits d AND 7)) = Some ll" using j 1(6) by (simp add: set_at_def ll_def)
    have "bits d AND 7 \<le> 7" by (rule word_and_le1)
    then have "unat (bits d AND 7) \<le> 7" by (simp add: word_le_nat_alt)
    then have ll: "length ll = 19" "all_lengths ll" using 1(6,7) by (auto simp: ll_def intro!: all_lengths_update)
    let ?d = "eatbits 3 (d\<lparr>lenlen := ll, lenptr := lenptr d + 1\<rparr>)"
    have "hand_ok (nbits ?d) (bits ?d)" using hand_eat [OF 1(2), of 3] True by (simp add: eatbits_def)
    then obtain d' where d': "read_lenlen ?d = Some d'" "lenlen_read ?d d'"
      using 1(1) [OF True j(1) set] ll 1(3,5) True by (auto simp: eatbits_def)
    from d'(2) obtain l2 p b n where e: "d' = ?d\<lparr>lenlen := l2, lenptr := p, bits := b, nbits := n\<rparr>" "length l2 = 19" "all_lengths l2"
      "lenptr d + 1 \<le> p" "p \<le> hclen d" "hand_ok n b" "n \<le> nbits d - 3" unfolding lenlen_read_def by (auto simp: eatbits_def)
    have "d' = d\<lparr>lenlen := l2, lenptr := p, bits := b, nbits := n\<rparr>" using e(1) by (simp add: eatbits_def)
    moreover have "lenptr d \<le> p" "n \<le> nbits d" using e(4,7) by simp_all
    ultimately have "lenlen_read d d'" unfolding lenlen_read_def using e(2,3,5-7) by blast
    then show ?thesis using d'(1) True j(1) set by (subst read_lenlen.simps) simp
  qed
qed

lemma TREES_LENLEN_ok:
  assumes "dctx_ok d" "dstate d = TREES_LENLEN"
  shows "round_ok d (step_TREES_LENLEN d)"
  unfolding step_TREES_LENLEN_def
proof (rule round_need [OF assms(1)])
  assume n: "3 \<le> nbits d"
  obtain d' where r: "read_lenlen d = Some d'" "lenlen_read d d'"
    using read_lenlen_ok [of d] assms by (auto simp: dctx_ok_def base_ok_def header_in_def)
  then obtain ll p b m where d': "d' = d\<lparr>lenlen := ll, lenptr := p, bits := b, nbits := m\<rparr>" "length ll = 19" "all_lengths ll"
    "lenptr d \<le> p" "p \<le> hclen d" "hand_ok m b" "m \<le> nbits d - 3" using n assms by (auto simp: lenlen_read_def dctx_ok_def)
  obtain t where t: "zlib_mktable ll = Some t" "table_ok 19 t" using mktable_table_ok [OF d'(3), of 19] d'(2) by auto
  show "round_ok d (read_lenlen d \<bind> (\<lambda>d. if lenptr d = hclen d
      then zlib_mktable (lenlen d) \<bind> (\<lambda>t. Some (Go (d\<lparr>lenlentable := Some t, dstate := TREES_LEN, lenptr := 0\<rparr>)))
      else Some (Go d)))"
    using assms d' t by (auto simp: r(1) ok_simps rank_def lenlen_in_def intro!: round_Go)
qed

lemma repeat_length_ok:
  "0 \<le> lenptr d \<Longrightarrow> lenptr d \<le> hlit d + hdist d \<Longrightarrow> hlit d + hdist d \<le> 320 \<Longrightarrow> length (lengths d) = 320 \<Longrightarrow> all_lengths (lengths d) \<Longrightarrow> lenrep d < 16 \<Longrightarrow>
    \<exists>ls p. repeat_length rep d = Some (d\<lparr>lengths := ls, lenptr := p\<rparr>) \<and> length ls = 320 \<and> all_lengths ls \<and> 0 \<le> p \<and> p \<le> hlit d + hdist d"
proof (induction rep d rule: repeat_length.induct)
  case (1 d)
  then show ?case by (intro exI [of _ "lengths d"] exI [of _ "lenptr d"]) simp
next
  case (2 rep d)
  show ?case
  proof (cases "lenptr d < hlit d + hdist d")
    case True
    define ls where "ls = (lengths d)[nat (lenptr d) := lenrep d]"
    have s: "set_at (lengths d) (lenptr d) (lenrep d) = Some ls" using 2(2,4,5) True by (simp add: set_at_def ls_def)
    have ls: "length ls = 320" "all_lengths ls" using 2(5-7) by (simp_all add: ls_def all_lengths_update)
    show ?thesis using 2(1) [OF True s] 2(2-7) True s ls by auto
  next
    case False
    then show ?thesis using 2(2-7) by (intro exI [of _ "lengths d"] exI [of _ "lenptr d"]) simp
  qed
qed

lemma TREES_LENREP_ok:
  assumes "dctx_ok d" "dstate d = TREES_LENREP"
  shows "round_ok d (step_TREES_LENREP d)"
  unfolding step_TREES_LENREP_def Let_def
proof (rule round_need [OF assms(1)])
  assume n: "lenextrabits d \<le> nbits d"
  let ?d = "eatbits (lenextrabits d) d"
  let ?rep = "nat (lenaddon d + low_bits (lenextrabits d) d)"
  have e: "lenextrabits d \<in> {2, 3, 7}" "hand_ok (nbits d) (bits d)" using assms by (auto simp: dctx_ok_def)
  then have h: "hand_ok (nbits ?d) (bits ?d)" "nbits ?d < nbits d" using hand_eat [of "nbits d" "bits d" "lenextrabits d"] n by (auto simp: eatbits_def)
  have "\<exists>ls p. repeat_length ?rep ?d = Some (?d\<lparr>lengths := ls, lenptr := p\<rparr>) \<and> length ls = 320 \<and> all_lengths ls \<and> 0 \<le> p \<and> p \<le> hlit ?d + hdist ?d"
    by (rule repeat_length_ok) (use assms in \<open>auto simp: ok_simps lenlen_in_def\<close>)
  then obtain ls p where r: "repeat_length ?rep ?d = Some (?d\<lparr>lengths := ls, lenptr := p\<rparr>)" "length ls = 320" "all_lengths ls"
    "0 \<le> p" "p \<le> hlit ?d + hdist ?d" by blast
  show "round_ok d (repeat_length ?rep ?d \<bind> (\<lambda>d. Some (Go (d\<lparr>dstate := TREES_LEN\<rparr>))))"
    unfolding r(1) bind.bind_lunit
    by (rule round_Go) (use assms h r(2-5) in \<open>auto simp: ok_simps lenlen_in_def rank_def\<close>)
qed

lemma TREES_LEN_ok:
  assumes "dctx_ok d" "dstate d = TREES_LEN"
  shows "round_ok d (step_TREES_LEN d)"
proof (cases "lenptr d \<ge> hlit d + hdist d")
  case True
  have h: "257 \<le> hlit d" "hlit d \<le> 288" "1 \<le> hdist d" "hdist d \<le> 32" "length (lengths d) = 320" "all_lengths (lengths d)"
    using assms by (auto simp: ok_simps lenlen_in_def)
  have sub: "all_lengths (take m (lengths d))" "all_lengths (take m (drop n (lengths d)))" for m n
    using h(6) set_take_subset [of m "lengths d"] set_take_subset [of m "drop n (lengths d)"] set_drop_subset [of n "lengths d"]
    by (auto simp: all_lengths_def list_all_iff)
  have l: "int (length (take (nat (hlit d)) (lengths d))) \<le> 288" "int (length (take (nat (hdist d)) (drop (nat (hlit d)) (lengths d)))) \<le> 32"
    using h by simp_all
  obtain lt where lt: "zlib_mktable (take (nat (hlit d)) (lengths d)) = Some lt" "table_ok 288 lt"
    by (rule mktable_table_ok [OF sub(1) l(1)]) simp_all
  obtain dt where dt: "zlib_mktable (take (nat (hdist d)) (drop (nat (hlit d)) (lengths d))) = Some dt" "table_ok 32 dt"
    by (rule mktable_table_ok [OF sub(2) l(2)]) simp_all
  show ?thesis unfolding step_TREES_LEN_def using True lt dt assms
    by (auto simp: ok_simps trees_simps rank_def intro!: round_Go)
next
  case False
  obtain t where t: "lenlentable d = Some t" "table_ok 19 t" using assms by (auto simp: dctx_ok_def lenlen_in_def)
  show ?thesis unfolding step_TREES_LEN_def if_not_P [OF False]
  proof (rule round_symbol [OF assms(1) t])
    fix c b m
    assume c: "0 \<le> (c :: int)" "c < 19" and h: "hand_ok m b" "m < nbits d"
    let ?d = "d\<lparr>bits := b, nbits := m\<rparr>"
    have p: "0 \<le> lenptr d" "lenptr d < 320" "length (lengths d) = 320" "all_lengths (lengths d)"
      using assms False by (auto simp: ok_simps lenlen_in_def)
    define ls where "ls = (lengths d)[nat (lenptr d) := nat c]"
    have s: "set_at (lengths ?d) (lenptr ?d) (nat c) = Some ls" "length ls = 320" using p by (simp_all add: set_at_def ls_def)
    have ls: "c < 16 \<Longrightarrow> all_lengths ls" using p(4) c by (simp add: ls_def all_lengths_update)
    have "\<exists>r. (if c = 16 \<and> lenptr ?d > 0 then nth_opt (lengths ?d) (lenptr ?d - 1) else Some 0) = Some r \<and> r < 16"
      using p by (auto simp: nth_opt_def all_lengths_def list_all_length)
    then obtain r where r: "(if c = 16 \<and> lenptr ?d > 0 then nth_opt (lengths ?d) (lenptr ?d - 1) else Some 0) = Some r" "r < 16" by blast
    show "round_ok d (if c < 16 then set_at (lengths ?d) (lenptr ?d) (nat c) \<bind> (\<lambda>ls. Some (Go (?d\<lparr>lengths := ls, lenptr := lenptr ?d + 1\<rparr>)))
      else (if c = 16 \<and> lenptr ?d > 0 then nth_opt (lengths ?d) (lenptr ?d - 1) else Some 0) \<bind>
        (\<lambda>rep. Some (Go (?d\<lparr>lenextrabits := if c = 16 then 2 else if c = 17 then 3 else 7,
                      lenaddon := if c = 18 then 11 else 3, lenrep := rep, dstate := TREES_LENREP\<rparr>))))"
      unfolding s(1) r(1) bind.bind_lunit
      using assms False h s(2) ls r(2) by (auto simp: ok_simps lenlen_in_def rank_def intro!: round_Go)
  qed
qed

section \<open>Data\<close>

lemma window_range: "0 \<le> x AND (WINSIZE - 1)" "x AND (WINSIZE - 1) < WINSIZE"
  by (simp_all only: and_window) simp_all

lemma emit_safe:
  assumes "0 \<le> dwinpos d" "dwinpos d < WINSIZE" "outblk d \<noteq> None"
  obtains w p out where "zlib_emit_char d c = Some (d\<lparr>window := w, dwinpos := p, outblk := Some out\<rparr>)" "0 \<le> p" "p < WINSIZE"
proof -
  obtain out where "outblk d = Some out" using assms(3) by auto
  then have "zlib_emit_char d c = Some (d\<lparr>window := (window d)(dwinpos d := c), dwinpos := (dwinpos d + 1) AND (WINSIZE - 1), outblk := Some (out @ [c])\<rparr>)"
    using assms(1,2) by (simp add: zlib_emit_char_def wr_def)
  then show thesis using that window_range by blast
qed

lemma copy_safe:
  "0 \<le> dwinpos d \<Longrightarrow> dwinpos d < WINSIZE \<Longrightarrow> outblk d \<noteq> None \<Longrightarrow>
    \<exists>w p out. copy_match n k d = Some (d\<lparr>window := w, dwinpos := p, outblk := Some out\<rparr>) \<and> 0 \<le> p \<and> p < WINSIZE"
proof (induction n arbitrary: d)
  case 0
  then obtain out where "outblk d = Some out" by auto
  then have "d = d\<lparr>window := window d, dwinpos := dwinpos d, outblk := Some out\<rparr>" by simp
  then have "copy_match 0 k d = Some (d\<lparr>window := window d, dwinpos := dwinpos d, outblk := Some out\<rparr>)" by simp
  then show ?case using 0 by blast
next
  case (Suc n)
  define i where "i = (dwinpos d - k) AND (WINSIZE - 1)"
  have "0 \<le> i" "i < WINSIZE" unfolding i_def by (rule window_range)+
  then have r: "rd WINSIZE (window d) i = Some (window d i)" by (simp add: rd_def)
  obtain w p out where e: "zlib_emit_char d (window d i) = Some (d\<lparr>window := w, dwinpos := p, outblk := Some out\<rparr>)" "0 \<le> p" "p < WINSIZE"
    by (rule emit_safe [OF Suc.prems])
  then show ?case using Suc.IH [of "d\<lparr>window := w, dwinpos := p, outblk := Some out\<rparr>"] r by (auto simp flip: i_def)
qed

lemma INBLK_ok:
  assumes "dctx_ok d" "dstate d = INBLK"
  shows "round_ok d (step_INBLK d)"
proof -
  obtain t where t: "len_table d = Some t" "table_ok 288 t" using assms by (auto simp: dctx_ok_def trees_in_def)
  show ?thesis unfolding step_INBLK_def
  proof (rule round_symbol [OF assms(1) t])
    fix c b m
    assume c: "0 \<le> (c :: int)" "c < 288" and h: "hand_ok m b" "m < nbits d"
    let ?d = "d\<lparr>bits := b, nbits := m\<rparr>"
    obtain w p out where e: "zlib_emit_char ?d (word_of_int c) = Some (?d\<lparr>window := w, dwinpos := p, outblk := Some out\<rparr>)" "0 \<le> p" "p < WINSIZE"
      by (rule emit_safe [of ?d "word_of_int c"]) (use assms in \<open>auto simp: dctx_ok_def base_ok_def\<close>)
    show "round_ok d (if c < 256 then map_option Go (zlib_emit_char ?d (word_of_int c))
      else if c = 256 then Some (Go (?d\<lparr>dstate := OUTSIDEBLK, currlentable := unless_static (currlentable ?d), currdisttable := unless_static (currdisttable ?d)\<rparr>))
      else if c < 286 then Some (Go (?d\<lparr>dstate := GOTLENSYM, sym := c\<rparr>)) else Some (Decode_error ?d))"
      unfolding e(1) using assms c h e(2,3) by (auto simp: ok_simps rank_def intro!: round_Go)
  qed
qed

lemma GOTLEN_ok:
  assumes "dctx_ok d" "dstate d = GOTLEN"
  shows "round_ok d (step_GOTLEN d)"
proof -
  obtain t where t: "dist_table d = Some t" "table_ok 32 t" using assms by (auto simp: dctx_ok_def trees_in_def)
  show ?thesis unfolding step_GOTLEN_def
    by (rule round_symbol [OF assms(1) t]) (use assms in \<open>auto simp: ok_simps rank_def intro!: round_Go\<close>)
qed

lemma rec_found:
  "257 \<le> s \<Longrightarrow> s < 286 \<Longrightarrow> \<exists>r. nth_opt lencodes (s - 257) = Some r \<and> 0 \<le> extrabits r"
  "0 \<le> s \<Longrightarrow> s < 30 \<Longrightarrow> \<exists>r. nth_opt distcodes s = Some r \<and> 0 \<le> extrabits r"
proof -
  have "length lencodes = 29" "length distcodes = 30" by (simp_all add: lencodes_def distcodes_def)
  then show "257 \<le> s \<Longrightarrow> s < 286 \<Longrightarrow> \<exists>r. nth_opt lencodes (s - 257) = Some r \<and> 0 \<le> extrabits r"
    "0 \<le> s \<Longrightarrow> s < 30 \<Longrightarrow> \<exists>r. nth_opt distcodes s = Some r \<and> 0 \<le> extrabits r"
    using tables_ok by (auto simp: nth_opt_def rec_ok_def list_all_length nat_less_iff)
qed

lemma GOTLENSYM_ok:
  assumes "dctx_ok d" "dstate d = GOTLENSYM"
  shows "round_ok d (step_GOTLENSYM d)"
proof -
  obtain r where r: "nth_opt lencodes (sym d - 257) = Some r" "0 \<le> extrabits r" using rec_found(1) [of "sym d"] assms by (auto simp: dctx_ok_def)
  show ?thesis unfolding step_GOTLENSYM_def r(1) bind.bind_lunit
    by (rule round_need [OF assms(1)]) (use assms r(2) in \<open>auto simp: ok_simps intro!: round_eat [where k = "extrabits r"]\<close>)
qed

lemma GOTDISTSYM_ok:
  assumes "dctx_ok d" "dstate d = GOTDISTSYM"
  shows "round_ok d (step_GOTDISTSYM d)"
proof -
  obtain r where r: "nth_opt distcodes (sym d) = Some r" "0 \<le> extrabits r" using rec_found(2) [of "sym d"] assms by (auto simp: dctx_ok_def)
  show ?thesis unfolding step_GOTDISTSYM_def r(1) bind.bind_lunit Let_def
  proof (rule round_need [OF assms(1)])
    assume n: "extrabits r \<le> nbits d"
    let ?d = "(eatbits (extrabits r) d)\<lparr>dstate := INBLK\<rparr>"
    let ?k = "cr_min r + low_bits (extrabits r) d"
    obtain w p out where e: "copy_match (nat (len d)) ?k ?d = Some (?d\<lparr>window := w, dwinpos := p, outblk := Some out\<rparr>)" "0 \<le> p" "p < WINSIZE"
    proof -
      have "0 \<le> dwinpos ?d" "dwinpos ?d < WINSIZE" "outblk ?d \<noteq> None" using assms by (simp_all add: ok_simps)
      from copy_safe [OF this] show thesis using that by blast
    qed
    show "round_ok d (copy_match (nat (len d)) ?k ?d \<bind> (\<lambda>d. Some (Go (d\<lparr>len := - 1\<rparr>))))"
      unfolding e(1) bind.bind_lunit
      by (rule round_eat [where k = "extrabits r"]) (use assms n r(2) e(2,3) in \<open>auto simp: ok_simps\<close>)
  qed
qed

lemma UNCOMP_DATA_ok:
  assumes "dctx_ok d" "dstate d = UNCOMP_DATA"
  shows "round_ok d (step_UNCOMP_DATA d)"
  unfolding step_UNCOMP_DATA_def
proof (rule round_need [OF assms(1)])
  assume n: "8 \<le> nbits d"
  obtain w p out where e: "zlib_emit_char d (ucast (bits d AND 0xFF)) = Some (d\<lparr>window := w, dwinpos := p, outblk := Some out\<rparr>)" "0 \<le> p" "p < WINSIZE"
    by (rule emit_safe [of d "ucast (bits d AND 0xFF)"]) (use assms in \<open>auto simp: dctx_ok_def base_ok_def\<close>)
  show "round_ok d (zlib_emit_char d (ucast (bits d AND 0xFF)) \<bind> (\<lambda>d. let d = eatbits 8 d in let d = d\<lparr>uncomplen := uncomplen d - 1\<rparr> in
      Some (Go (if uncomplen d = 0 then d\<lparr>dstate := OUTSIDEBLK\<rparr> else d))))"
    unfolding e(1) bind.bind_lunit Let_def
    by (rule round_eat [where k = 8]) (use assms n e(2,3) in \<open>auto simp: ok_simps\<close>)
qed

section \<open>Every call returns\<close>

lemma zlib_step_ok: "dctx_ok d \<Longrightarrow> round_ok d (zlib_step d)"
  unfolding zlib_step_def
  using START_ok OUTSIDEBLK_ok TREES_HDR_ok TREES_LENLEN_ok TREES_LEN_ok TREES_LENREP_ok INBLK_ok GOTLENSYM_ok GOTLEN_ok GOTDISTSYM_ok
    UNCOMP_LEN_ok UNCOMP_NLEN_ok UNCOMP_DATA_ok
  by (cases "dstate d") simp_all

lemma state_ok_bits: "state_ok s (d\<lparr>bits := b, nbits := n\<rparr>) = state_ok s d"
  by (cases s) (simp_all add: header_in_def lenlen_in_def)

lemma state_ok_outblk: "state_ok s (d\<lparr>outblk := x\<rparr>) = state_ok s d"
  by (cases s) (simp_all add: header_in_def lenlen_in_def)

primrec loop_result :: "dctx outcome \<Rightarrow> bool" where
  "loop_result (Go d) \<longleftrightarrow> False"
| "loop_result (Finished d) \<longleftrightarrow> dctx_ok d"
| "loop_result (Decode_error d) \<longleftrightarrow> outblk d \<noteq> None"

lemma decompress_loop_ok: "dctx_ok d \<Longrightarrow> \<exists>out. decompress_loop blk d = Some out \<and> loop_result out"
proof (induction "nat (16 * int (length blk) + rank d)" arbitrary: blk d rule: less_induct)
  case less
  show ?case
  proof (cases "blk \<noteq> [] \<or> nbits d > 0")
    case False
    then have "decompress_loop blk d = Some (Finished d)" by (subst decompress_loop.simps) simp
    then show ?thesis using less.prems by simp
  next
    case True
    obtain blk1 d1 where rf: "refill blk d = (blk1, d1)" by fastforce
    have dok: "dok d" using less.prems by (simp add: dok_hand dctx_ok_def)
    obtain b n where r: "dok d1" "dbits d1 @ bytes_bits blk1 = dbits d @ bytes_bits blk" "d1 = d\<lparr>bits := b, nbits := n\<rparr>"
      using refill_ok [OF dok rf] by blast
    have ok: "dctx_ok d1" using less.prems r(1) unfolding r(3) by (simp add: dctx_ok_def base_ok_def state_ok_bits dok_hand)
    have "nat (nbits d1) + 8 * length blk1 = nat (nbits d) + 8 * length blk" using arg_cong [OF r(2), of length] by simp
    then have "nbits d1 + 8 * int (length blk1) = nbits d + 8 * int (length blk)" using dok r(1) by (simp add: dok_def) linarith
    moreover have "rank d1 - 2 * nbits d1 = rank d - 2 * nbits d" by (simp add: rank_def r(3))
    ultimately have rk: "16 * int (length blk1) + rank d1 = 16 * int (length blk) + rank d" by simp
    obtain out where st: "zlib_step d1 = Some out" "result_ok d1 out" using zlib_step_ok [OF ok] by (auto simp: round_ok_def)
    show ?thesis
    proof (cases out)
      case (Go d2)
      then have d2: "dctx_ok d2" "rank d2 < rank d1" using st(2) by simp_all
      have "0 \<le> rank d2" using d2(1) by (simp add: rank_def dctx_ok_def hand_ok_def)
      then have "nat (16 * int (length blk1) + rank d2) < nat (16 * int (length blk) + rank d)" using rk d2(2) by simp
      from less.hyps [OF this d2(1)] show ?thesis using True rf st(1) Go by (subst decompress_loop.simps) simp
    next
      case (Finished d2)
      then have "decompress_loop blk d = Some (Finished d2)" using True rf st(1) by (subst decompress_loop.simps) simp
      then show ?thesis using st(2) Finished by simp
    next
      case (Decode_error d2)
      then have "decompress_loop blk d = Some (Decode_error d2)" using True rf st(1) by (subst decompress_loop.simps) simp
      then show ?thesis using st(2) Decode_error by simp
    qed
  qed
qed

definition idle_ok :: "dctx \<Rightarrow> bool" where
  "idle_ok d \<longleftrightarrow> outblk d = None \<and> dctx_ok (d\<lparr>outblk := Some []\<rparr>)"

lemma decompress_block_ok:
  assumes "idle_ok d"
  obtains out d' where "zlib_decompress_block d blk = Some (Some out, d')" "idle_ok d'"
  | d' where "zlib_decompress_block d blk = Some (None, d')" "outblk d' \<noteq> None"
proof -
  obtain res where res: "decompress_loop blk (d\<lparr>outblk := Some []\<rparr>) = Some res" "loop_result res"
    using decompress_loop_ok assms by (auto simp: idle_ok_def)
  show thesis
  proof (cases res)
    case (Finished d')
    then have "idle_ok (d'\<lparr>outblk := None\<rparr>)" using res(2)
      by (simp add: idle_ok_def dctx_ok_def base_ok_def state_ok_outblk)
    moreover obtain out where "outblk d' = Some out" using res(2) Finished by (auto simp: dctx_ok_def)
    ultimately show thesis using that(1) res assms Finished by (simp add: zlib_decompress_block_def idle_ok_def)
  next
    case (Decode_error d')
    then show thesis using that(2) res assms by (simp add: zlib_decompress_block_def idle_ok_def)
  qed (use res in simp)
qed

lemma decompress_init_ok:
  obtains d where "zlib_decompress_init junk = Some d" "idle_ok d"
proof -
  have a: "all_lengths static_lengths" "length static_lengths = 288" "all_lengths (replicate 32 5)" by code_simp+
  obtain lt where lt: "zlib_mktable static_lengths = Some lt" "table_ok 288 lt" using mktable_table_ok [OF a(1), of 288] a(2) by auto
  obtain dt where dt: "zlib_mktable (replicate 32 5) = Some dt" "table_ok 32 dt" using mktable_table_ok [OF a(3), of 32] by auto
  show thesis using that lt dt
    by (simp add: zlib_decompress_init_def idle_ok_def dctx_ok_def base_ok_def hand_ok_def all_lengths_def list_all_iff)
qed

text \<open>
  A decoding error leaves \<open>outblk\<close> allocated: the assertion at the start of the next call fails.
\<close>

lemma decompress_after_error: "outblk d \<noteq> None \<Longrightarrow> zlib_decompress_block d blk = None"
  by (simp add: zlib_decompress_block_def)

lemma receive_all_ok:
  "idle_ok d \<Longrightarrow> \<exists>outs d'. receive_all d (take (length outs) pkts) = Some (map Some outs, d') \<and>
     (length outs = length pkts \<or>
      length outs < length pkts \<and> (\<exists>d''. zlib_decompress_block d' (pkts ! length outs) = Some (None, d'') \<and> outblk d'' \<noteq> None))"
proof (induction pkts arbitrary: d)
  case (Cons pkt pkts)
  show ?case
  proof (rule decompress_block_ok [OF Cons.prems, of pkt])
    fix out d1 assume d1: "zlib_decompress_block d pkt = Some (Some out, d1)" "idle_ok d1"
    from Cons.IH [OF d1(2)] obtain outs d' where
      "receive_all d1 (take (length outs) pkts) = Some (map Some outs, d')"
      "length outs = length pkts \<or>
      length outs < length pkts \<and> (\<exists>d''. zlib_decompress_block d' (pkts ! length outs) = Some (None, d'') \<and> outblk d'' \<noteq> None)"
      by blast
    then show ?thesis using d1(1) by (intro exI [of _ "out # outs"] exI [of _ d']) simp
  next
    fix d' assume "zlib_decompress_block d pkt = Some (None, d')" "outblk d' \<noteq> None"
    then show ?thesis by (intro exI [of _ "[]"] exI [of _ d]) simp
  qed
qed simp

text \<open>
  C2: On no input does the decompressor fail before it has reported an error. For any packets of any bytes and
  whatever its window holds at first, the calls in order return output, for all of the packets or up to the first
  one that is malformed, and for that the call returns a decoding error. In all these calls no shift, table
  lookup or loop over a header runs on without end, no index leaves the window, the code lengths, the codes, the
  code records or a table, no missing table is followed and no assertion fails. Only a call after the one that
  reported the error fails, whatever packet it gets: its assertion finds the output of the failed call.
\<close>

theorem zlib_decompress_safe:
  "\<exists>d outs d'. zlib_decompress_init junk = Some d \<and>
     receive_all d (take (length outs) pkts) = Some (map Some outs, d') \<and>
     (length outs = length pkts \<or>
      length outs < length pkts \<and>
        (\<exists>d''. zlib_decompress_block d' (pkts ! length outs) = Some (None, d'') \<and>
           (\<forall>pkt. zlib_decompress_block d'' pkt = None)))"
proof -
  obtain d where "zlib_decompress_init junk = Some d" "idle_ok d" by (rule decompress_init_ok)
  then show ?thesis using receive_all_ok [of d pkts] decompress_after_error by meson
qed

end
