(* ===== verification/Bytes.thy ===== *)
theory Bytes
  imports Prelude
begin

unbundle bit_operations_syntax

text \<open>
  Bytes in memory: the fixed-width integer accessors of \<open>putty-src/misc.h\<close>, in both byte
  orders, with the round trips between an integer and its bytes.

  A byte is an \<open>8 word\<close>, a block of memory a list of bytes, and an integer of the C
  source a word of its width. A \<open>PUT_\<close> function stores at the start of the block
  it is given and returns the bytes it stores; a \<open>GET_\<close> function reads from the
  start of a list long enough. \<open>size_t\<close> is 64 bits wide.
\<close>

type_synonym byte = "8 word"
type_synonym size_t = "64 word"

section \<open>Accessors\<close>

definition GET_64BIT_LSB_FIRST :: "byte list \<Rightarrow> 64 word" where
  "GET_64BIT_LSB_FIRST p =
     ucast (p ! 0) OR push_bit 8 (ucast (p ! 1)) OR
     push_bit 16 (ucast (p ! 2)) OR push_bit 24 (ucast (p ! 3)) OR
     push_bit 32 (ucast (p ! 4)) OR push_bit 40 (ucast (p ! 5)) OR
     push_bit 48 (ucast (p ! 6)) OR push_bit 56 (ucast (p ! 7))"

definition PUT_64BIT_LSB_FIRST :: "64 word \<Rightarrow> byte list" where
  "PUT_64BIT_LSB_FIRST value =
     [ucast value, ucast (drop_bit 8 value), ucast (drop_bit 16 value),
      ucast (drop_bit 24 value), ucast (drop_bit 32 value), ucast (drop_bit 40 value),
      ucast (drop_bit 48 value), ucast (drop_bit 56 value)]"

definition GET_32BIT_LSB_FIRST :: "byte list \<Rightarrow> 32 word" where
  "GET_32BIT_LSB_FIRST p =
     ucast (p ! 0) OR push_bit 8 (ucast (p ! 1)) OR
     push_bit 16 (ucast (p ! 2)) OR push_bit 24 (ucast (p ! 3))"

definition PUT_32BIT_LSB_FIRST :: "32 word \<Rightarrow> byte list" where
  "PUT_32BIT_LSB_FIRST value =
     [ucast value, ucast (drop_bit 8 value), ucast (drop_bit 16 value),
      ucast (drop_bit 24 value)]"

definition GET_16BIT_LSB_FIRST :: "byte list \<Rightarrow> 16 word" where
  "GET_16BIT_LSB_FIRST p = ucast (p ! 0) OR push_bit 8 (ucast (p ! 1))"

definition PUT_16BIT_LSB_FIRST :: "16 word \<Rightarrow> byte list" where
  "PUT_16BIT_LSB_FIRST value = [ucast value, ucast (drop_bit 8 value)]"

definition GET_64BIT_MSB_FIRST :: "byte list \<Rightarrow> 64 word" where
  "GET_64BIT_MSB_FIRST p =
     ucast (p ! 7) OR push_bit 8 (ucast (p ! 6)) OR
     push_bit 16 (ucast (p ! 5)) OR push_bit 24 (ucast (p ! 4)) OR
     push_bit 32 (ucast (p ! 3)) OR push_bit 40 (ucast (p ! 2)) OR
     push_bit 48 (ucast (p ! 1)) OR push_bit 56 (ucast (p ! 0))"

definition PUT_64BIT_MSB_FIRST :: "64 word \<Rightarrow> byte list" where
  "PUT_64BIT_MSB_FIRST value =
     [ucast (drop_bit 56 value), ucast (drop_bit 48 value), ucast (drop_bit 40 value),
      ucast (drop_bit 32 value), ucast (drop_bit 24 value), ucast (drop_bit 16 value),
      ucast (drop_bit 8 value), ucast value]"

definition GET_32BIT_MSB_FIRST :: "byte list \<Rightarrow> 32 word" where
  "GET_32BIT_MSB_FIRST p =
     ucast (p ! 3) OR push_bit 8 (ucast (p ! 2)) OR
     push_bit 16 (ucast (p ! 1)) OR push_bit 24 (ucast (p ! 0))"

definition PUT_32BIT_MSB_FIRST :: "32 word \<Rightarrow> byte list" where
  "PUT_32BIT_MSB_FIRST value =
     [ucast (drop_bit 24 value), ucast (drop_bit 16 value), ucast (drop_bit 8 value),
      ucast value]"

definition GET_16BIT_MSB_FIRST :: "byte list \<Rightarrow> 16 word" where
  "GET_16BIT_MSB_FIRST p = ucast (p ! 1) OR push_bit 8 (ucast (p ! 0))"

definition PUT_16BIT_MSB_FIRST :: "16 word \<Rightarrow> byte list" where
  "PUT_16BIT_MSB_FIRST value = [ucast (drop_bit 8 value), ucast value]"

lemmas put_msb_defs =
  PUT_16BIT_MSB_FIRST_def PUT_32BIT_MSB_FIRST_def PUT_64BIT_MSB_FIRST_def
lemmas put_lsb_defs =
  PUT_16BIT_LSB_FIRST_def PUT_32BIT_LSB_FIRST_def PUT_64BIT_LSB_FIRST_def

section \<open>Lengths and prefixes\<close>

named_theorems byte_simps \<open>lengths, reads and round trips of the integer accessors\<close>

lemma length_PUT [byte_simps]:
  "length (PUT_16BIT_MSB_FIRST a) = 2" "length (PUT_32BIT_MSB_FIRST b) = 4"
  "length (PUT_64BIT_MSB_FIRST c) = 8" "length (PUT_16BIT_LSB_FIRST a) = 2"
  "length (PUT_32BIT_LSB_FIRST b) = 4" "length (PUT_64BIT_LSB_FIRST c) = 8"
  by (simp_all add: put_msb_defs put_lsb_defs)

section \<open>Round trips\<close>

lemma bit_byte: "8 \<le> n \<Longrightarrow> \<not> bit (a :: byte) n"
  by (auto dest: bit_imp_le_length)

text \<open>An integer is equal to another when they agree octet by octet.\<close>

lemma octets_eqI:
  fixes v w :: "'a::len word"
  assumes "\<And>q r. r < 8 \<Longrightarrow> 8 * q + r < LENGTH('a) \<Longrightarrow> bit v (8 * q + r) = bit w (8 * q + r)"
  shows "v = w"
proof (rule bit_word_eqI)
  fix n assume "n < LENGTH('a)"
  then show "bit v n = bit w n" using assms [of "n mod 8" "n div 8"] by simp
qed

lemma octet_cases:
  fixes q r :: nat
  assumes "8 * q + r < 64"
  obtains "q = 0" | "q = 1" | "q = 2" | "q = 3" | "q = 4" | "q = 5" | "q = 6" | "q = 7"
proof -
  from assms have "q < 8" by simp
  then have "q = 0 \<or> q = 1 \<or> q = 2 \<or> q = 3 \<or> q = 4 \<or> q = 5 \<or> q = 6 \<or> q = 7" by linarith
  then show thesis using that by blast
qed

lemma octet_cases4:
  fixes q r :: nat
  assumes "8 * q + r < 32"
  obtains "q = 0" | "q = 1" | "q = 2" | "q = 3"
proof -
  from assms have "q < 4" by simp
  then have "q = 0 \<or> q = 1 \<or> q = 2 \<or> q = 3" by linarith
  then show thesis using that by blast
qed

lemma GET_PUT_16_lsb [byte_simps]: "GET_16BIT_LSB_FIRST (PUT_16BIT_LSB_FIRST v @ rest) = v"
  by (rule bit_word_eqI) (auto simp: GET_16BIT_LSB_FIRST_def PUT_16BIT_LSB_FIRST_def bit_simps)

lemma GET_PUT_32_lsb [byte_simps]: "GET_32BIT_LSB_FIRST (PUT_32BIT_LSB_FIRST v @ rest) = v"
proof (rule octets_eqI)
  fix q r :: nat
  assume r: "r < 8" and "8 * q + r < LENGTH(32)"
  then have "8 * q + r < 32" by simp
  then show "bit (GET_32BIT_LSB_FIRST (PUT_32BIT_LSB_FIRST v @ rest)) (8 * q + r) = bit v (8 * q + r)"
    by (cases rule: octet_cases4) (use r in \<open>simp_all add: GET_32BIT_LSB_FIRST_def PUT_32BIT_LSB_FIRST_def bit_simps bit_byte\<close>)
qed

lemma GET_PUT_64_lsb [byte_simps]: "GET_64BIT_LSB_FIRST (PUT_64BIT_LSB_FIRST v @ rest) = v"
proof (rule octets_eqI)
  fix q r :: nat
  assume r: "r < 8" and "8 * q + r < LENGTH(64)"
  then have "8 * q + r < 64" by simp
  then show "bit (GET_64BIT_LSB_FIRST (PUT_64BIT_LSB_FIRST v @ rest)) (8 * q + r) = bit v (8 * q + r)"
    by (cases rule: octet_cases) (use r in \<open>simp_all add: GET_64BIT_LSB_FIRST_def PUT_64BIT_LSB_FIRST_def bit_simps bit_byte\<close>)
qed

lemma GET_PUT_16_msb [byte_simps]: "GET_16BIT_MSB_FIRST (PUT_16BIT_MSB_FIRST v @ rest) = v"
  by (rule bit_word_eqI) (auto simp: GET_16BIT_MSB_FIRST_def PUT_16BIT_MSB_FIRST_def bit_simps)

lemma GET_PUT_32_msb [byte_simps]: "GET_32BIT_MSB_FIRST (PUT_32BIT_MSB_FIRST v @ rest) = v"
proof (rule octets_eqI)
  fix q r :: nat
  assume r: "r < 8" and "8 * q + r < LENGTH(32)"
  then have "8 * q + r < 32" by simp
  then show "bit (GET_32BIT_MSB_FIRST (PUT_32BIT_MSB_FIRST v @ rest)) (8 * q + r) = bit v (8 * q + r)"
    by (cases rule: octet_cases4) (use r in \<open>simp_all add: GET_32BIT_MSB_FIRST_def PUT_32BIT_MSB_FIRST_def bit_simps bit_byte\<close>)
qed

lemma GET_PUT_64_msb [byte_simps]: "GET_64BIT_MSB_FIRST (PUT_64BIT_MSB_FIRST v @ rest) = v"
proof (rule octets_eqI)
  fix q r :: nat
  assume r: "r < 8" and "8 * q + r < LENGTH(64)"
  then have "8 * q + r < 64" by simp
  then show "bit (GET_64BIT_MSB_FIRST (PUT_64BIT_MSB_FIRST v @ rest)) (8 * q + r) = bit v (8 * q + r)"
    by (cases rule: octet_cases) (use r in \<open>simp_all add: GET_64BIT_MSB_FIRST_def PUT_64BIT_MSB_FIRST_def bit_simps bit_byte\<close>)
qed

text \<open>Converse: reading the bytes of a block and storing the integer gives the block back.\<close>

lemma list4E:
  assumes "length p = 4"
  obtains a b c d where "p = [a, b, c, d]"
  using assms by (auto simp: numeral_eq_Suc length_Suc_conv)

lemma PUT_GET_32_msb [byte_simps]:
  assumes "length p = 4"
  shows "PUT_32BIT_MSB_FIRST (GET_32BIT_MSB_FIRST p) = p"
proof -
  obtain a b c d where "p = [a, b, c, d]" using assms by (rule list4E)
  then show ?thesis
    by (auto simp: GET_32BIT_MSB_FIRST_def PUT_32BIT_MSB_FIRST_def bit_simps bit_byte
        intro!: bit_word_eqI)
qed

lemma PUT_GET_32_lsb [byte_simps]:
  assumes "length p = 4"
  shows "PUT_32BIT_LSB_FIRST (GET_32BIT_LSB_FIRST p) = p"
proof -
  obtain a b c d where "p = [a, b, c, d]" using assms by (rule list4E)
  then show ?thesis
    by (auto simp: GET_32BIT_LSB_FIRST_def PUT_32BIT_LSB_FIRST_def bit_simps bit_byte
        intro!: bit_word_eqI)
qed

end
