(* ===== verification/Memory.thy ===== *)
theory Memory
  imports Bytes
begin

text \<open>
  The allocation wrappers of \<open>putty-src/memory.c\<close> and the growing string buffer
  \<open>strbuf\<close> of \<open>putty-src/utils.c\<close>.

  A block of memory is a list of cells, \<open>None\<close> for a byte that has not been written.
  \<open>limit\<close> is the largest block the system's allocator grants. The wrappers do not
  return when they fail (\<open>out_of_memory\<close> ends the program, as does a failed
  \<open>assert\<close>): that is \<open>None\<close> here. \<open>size_t\<close> arithmetic is done on 64-bit words, wrapping
  where the C wraps. What \<open>smemclr\<close> and \<open>free\<close> do to a block that is given up is not
  visible in the model.
\<close>

type_synonym cell = "byte option"

definition SIZE_MAX :: size_t where "SIZE_MAX = NOT 0"

definition INT_MAX :: size_t where "INT_MAX = 0x7FFFFFFF"

definition fresh :: "size_t \<Rightarrow> cell list" where
  "fresh sz = replicate (unat sz) None"

definition safemalloc :: "size_t \<Rightarrow> size_t \<Rightarrow> size_t \<Rightarrow> size_t \<Rightarrow> cell list option" where
  "safemalloc limit factor1 factor2 addend =
     (if factor2 = 0 \<or> factor1 > SIZE_MAX div factor2 then None
      else let product = factor1 * factor2 in
        if addend > SIZE_MAX then None
        else if product > SIZE_MAX - addend then None
        else let sz = product + addend;
                 sz = (if sz = 0 then 1 else sz) in
          if sz > limit then None else Some (fresh sz))"

definition saferealloc :: "size_t \<Rightarrow> cell list option \<Rightarrow> size_t \<Rightarrow> size_t \<Rightarrow> cell list option" where
  "saferealloc limit ptr n sz =
     (if sz = 0 \<or> n > INT_MAX div sz then None
      else let sz = sz * n in
        if sz > limit then None
        else Some (case ptr of
            None \<Rightarrow> fresh sz
          | Some block \<Rightarrow> take (unat sz) (block @ fresh sz)))"

definition memcpy :: "'c list \<Rightarrow> nat \<Rightarrow> 'c list \<Rightarrow> 'c list" where
  "memcpy dst pos src = take pos dst @ src @ drop (pos + length src) dst"

text \<open>The new size of an array that is too small for \<open>wanted\<close> elements.\<close>

definition grow_to :: "size_t \<Rightarrow> size_t \<Rightarrow> size_t \<Rightarrow> size_t \<Rightarrow> size_t" where
  "grow_to maxsize eltsize oldsize wanted =
     (let increment = wanted - oldsize;
          increment = (if increment < 256 div eltsize then 256 div eltsize else increment);
          increment = (if increment < oldsize div 16 then oldsize div 16 else increment);
          maxincr = maxsize - oldsize;
          increment = (if increment > maxincr then maxincr else increment)
      in oldsize + increment)"

definition safegrowarray ::
  "size_t \<Rightarrow> cell list \<Rightarrow> size_t \<Rightarrow> size_t \<Rightarrow> size_t \<Rightarrow> size_t \<Rightarrow> bool \<Rightarrow> (cell list \<times> size_t) option"
where
  "safegrowarray limit ptr allocated eltsize oldlen extralen secret =
     (if eltsize = 0 then None
      else let maxsize = NOT 0 div eltsize; oldsize = allocated in
        if \<not> (oldsize \<le> maxsize \<and> oldlen \<le> maxsize \<and> extralen \<le> maxsize - oldlen) then None
        else if oldsize > oldlen + extralen then Some (ptr, allocated)
        else
          let newsize = grow_to maxsize eltsize oldsize (oldlen + extralen)
          in map_option (\<lambda>block. (block, newsize))
            (if secret then
               map_option (\<lambda>block. memcpy block 0 (take (unat (oldsize * eltsize)) ptr))
                 (safemalloc limit newsize eltsize 0)
             else saferealloc limit (Some ptr) newsize eltsize))"

section \<open>Growing keeps the contents and makes room\<close>

lemma unat_SIZE_MAX: "unat SIZE_MAX = 2 ^ 64 - 1"
  by (simp add: SIZE_MAX_def unsigned_minus_1_eq_mask mask_eq_exp_minus_1)

lemma unat_lt64: "unat (x :: 64 word) < 2 ^ 64"
  by (rule order_less_le_trans [OF unsigned_less]) simp

lemma le_SIZE_MAX [simp]: "x \<le> SIZE_MAX"
  by (simp add: SIZE_MAX_def)

lemma le_div_mult:
  fixes n s m :: "64 word"
  assumes "n \<le> m div s"
  shows "unat (n * s) = unat n * unat s" "unat n * unat s \<le> unat m"
proof -
  have "unat n \<le> unat m div unat s" using assms by (simp add: word_le_nat_alt unat_div)
  then have "unat n * unat s \<le> (unat m div unat s) * unat s" by (rule mult_right_mono) simp
  also have "\<dots> \<le> unat m" by simp
  finally show le: "unat n * unat s \<le> unat m" .
  then show "unat (n * s) = unat n * unat s"
    using unat_lt64 [of m] by (intro unat_mult_lem [THEN iffD1]) (simp add: le_less_trans)
qed

lemma safemalloc_block:
  assumes "safemalloc limit n s 0 = Some block"
  shows "length block \<ge> unat n * unat s" "set block \<subseteq> {None}"
  using assms le_div_mult [of n SIZE_MAX s]
  by (auto simp: safemalloc_def Let_def fresh_def not_less split: if_splits)

lemma saferealloc_block:
  assumes "saferealloc limit (Some ptr) n s = Some block"
  shows "length block = unat n * unat s"
    "k \<le> unat n * unat s \<Longrightarrow> k \<le> length ptr \<Longrightarrow> take k block = take k ptr"
  using assms le_div_mult [of n INT_MAX s]
  by (auto simp: saferealloc_def Let_def fresh_def not_less mult.commute min_def split: if_splits)

lemma min_shift: "(k :: nat) \<le> m \<Longrightarrow> k + min i (m - k) = min m (k + i)"
  by (cases "i \<le> m - k") (auto simp: min_def)

lemma unat_if_max: "unat (if x < y then y else x :: 64 word) = max (unat x) (unat y)"
  by (simp add: word_less_nat_alt max_def)

lemma unat_if_min: "unat (if x > y then y else x :: 64 word) = min (unat x) (unat y)"
  by (simp add: word_less_nat_alt min_def)

lemma unat_grow_to:
  assumes "oldsize \<le> maxsize" "oldsize \<le> wanted" "wanted \<le> maxsize"
  shows "unat (grow_to maxsize eltsize oldsize wanted) =
     min (unat maxsize)
       (unat oldsize + max (max (unat wanted - unat oldsize) (256 div unat eltsize)) (unat oldsize div 16))"
    (is "_ = min _ (_ + ?inc)")
proof -
  define i1 where "i1 = (if wanted - oldsize < 256 div eltsize then 256 div eltsize else wanted - oldsize)"
  define i2 where "i2 = (if i1 < oldsize div 16 then oldsize div 16 else i1)"
  define i3 where "i3 = (if i2 > maxsize - oldsize then maxsize - oldsize else i2)"
  have d: "unat (256 div eltsize) = 256 div unat eltsize" "unat (oldsize div 16) = unat oldsize div 16"
    by (simp_all add: unat_div)
  have sub: "unat (wanted - oldsize) = unat wanted - unat oldsize"
    "unat (maxsize - oldsize) = unat maxsize - unat oldsize"
    using assms by (simp_all add: unat_sub)
  have i3: "unat i3 = min ?inc (unat maxsize - unat oldsize)"
    unfolding i3_def unat_if_min i2_def unat_if_max i1_def sub d ..
  have le: "unat oldsize \<le> unat maxsize" using assms(1) by (simp add: word_le_nat_alt)
  then have "unat oldsize + unat i3 < 2 ^ 64"
    using i3 unat_lt64 [of maxsize] by linarith
  then have "unat (oldsize + i3) = unat oldsize + unat i3"
    by (simp add: unat_word_ariths(1))
  moreover have "grow_to maxsize eltsize oldsize wanted = oldsize + i3"
    by (simp add: grow_to_def Let_def i3_def i2_def i1_def)
  ultimately have "unat (grow_to maxsize eltsize oldsize wanted) = unat oldsize + unat i3"
    by (simp only:)
  then show ?thesis by (simp only: i3 min_shift [OF le])
qed

lemma grown_size:
  fixes oldlen extralen :: size_t
  assumes "oldlen \<le> maxsize" "extralen \<le> maxsize - oldlen"
  shows "unat (oldlen + extralen) = unat oldlen + unat extralen" "oldlen + extralen \<le> maxsize"
proof -
  have "unat extralen \<le> unat maxsize - unat oldlen"
    using assms by (simp add: word_le_nat_alt unat_sub)
  moreover have "unat oldlen \<le> unat maxsize" using assms by (simp add: word_le_nat_alt)
  ultimately have le: "unat oldlen + unat extralen \<le> unat maxsize" by linarith
  then have "unat oldlen + unat extralen < 2 ^ 64" using unat_lt64 [of maxsize] by linarith
  then show s: "unat (oldlen + extralen) = unat oldlen + unat extralen"
    by (simp add: unat_word_ariths(1))
  then show "oldlen + extralen \<le> maxsize" using le by (simp add: word_le_nat_alt)
qed

lemma safegrowarray_ok:
  assumes grow: "safegrowarray limit ptr allocated eltsize oldlen extralen secret = Some (ptr', allocated')"
    and block: "unat allocated * unat eltsize \<le> length ptr"
  shows "unat oldlen + unat extralen \<le> unat allocated'"
    and "allocated \<le> allocated'"
    and "unat allocated' * unat eltsize \<le> length ptr'"
    and "take (unat allocated * unat eltsize) ptr' = take (unat allocated * unat eltsize) ptr"
proof -
  let ?max = "NOT 0 div eltsize :: size_t"
  let ?new = "grow_to ?max eltsize allocated (oldlen + extralen)"
  let ?old = "unat allocated * unat eltsize"
  from grow have chk: "allocated \<le> ?max" "oldlen \<le> ?max" "extralen \<le> ?max - oldlen"
    by (auto simp: safegrowarray_def Let_def split: if_splits)
  note sum = grown_size [OF chk(2,3)]
  have "unat oldlen + unat extralen \<le> unat allocated' \<and> allocated \<le> allocated' \<and>
    unat allocated' * unat eltsize \<le> length ptr' \<and> take ?old ptr' = take ?old ptr"
  proof (cases "allocated > oldlen + extralen")
    case True
    then show ?thesis
      using grow sum(1) block
      by (auto simp: safegrowarray_def Let_def word_less_nat_alt split: if_splits)
  next
    case False
    then have wanted: "allocated \<le> oldlen + extralen" by simp
    have new: "unat ?new \<ge> unat oldlen + unat extralen" "unat ?new \<ge> unat allocated"
      using unat_grow_to [OF chk(1) wanted sum(2), of eltsize] wanted sum
      by (simp_all add: word_le_nat_alt)
    then have le: "?old \<le> unat ?new * unat eltsize" by simp
    have fit: "unat (allocated * eltsize) = ?old"
      by (rule le_div_mult(1) [OF chk(1)])
    have *: "unat ?new * unat eltsize \<le> length ptr' \<and> take ?old ptr' = take ?old ptr"
      if "(if secret then
               map_option (\<lambda>block. memcpy block 0 (take (unat (allocated * eltsize)) ptr))
                 (safemalloc limit ?new eltsize 0)
             else saferealloc limit (Some ptr) ?new eltsize) = Some ptr'"
    proof (cases secret)
      case True
      with that obtain b where b: "safemalloc limit ?new eltsize 0 = Some b"
          "ptr' = memcpy b 0 (take ?old ptr)"
        by (auto simp: fit)
      then show ?thesis
        using safemalloc_block(1) [OF b(1)] le block by (simp add: memcpy_def)
    next
      case False
      with that have "saferealloc limit (Some ptr) ?new eltsize = Some ptr'" by simp
      from saferealloc_block [OF this] le block show ?thesis by simp
    qed
    show ?thesis
      using grow chk False new * by (auto simp: safegrowarray_def Let_def word_le_nat_alt split: if_splits)
  qed
  then show "unat oldlen + unat extralen \<le> unat allocated'" "allocated \<le> allocated'"
    "unat allocated' * unat eltsize \<le> length ptr'" "take ?old ptr' = take ?old ptr" by blast+
qed

section \<open>String buffers\<close>

text \<open>
  \<open>sb_s\<close> is the allocated block, \<open>sb_size\<close> its size and \<open>sb_len\<close> the length of the string
  in it. \<open>poke\<close> is a \<open>memcpy\<close> into a block; \<open>None\<close> is a write outside it.
\<close>

record strbuf =
  sb_s :: "cell list"
  sb_size :: size_t
  sb_len :: size_t
  sb_nm :: bool

definition poke :: "cell list \<Rightarrow> nat \<Rightarrow> byte list \<Rightarrow> cell list option" where
  "poke dst pos src =
     (if pos + length src \<le> length dst then Some (memcpy dst pos (map Some src)) else None)"

definition strbuf_append :: "size_t \<Rightarrow> strbuf \<Rightarrow> size_t \<Rightarrow> (nat \<times> strbuf) option" where
  "strbuf_append limit buf len =
     Option.bind (safegrowarray limit (sb_s buf) (sb_size buf) 1 (sb_len buf + 1) len (sb_nm buf))
       (\<lambda>(s, sz). let toret = unat (sb_len buf); len' = sb_len buf + len in
         map_option (\<lambda>s. (toret, buf\<lparr>sb_s := s, sb_size := sz, sb_len := len'\<rparr>))
           (poke s (unat len') [0]))"

definition strbuf_BinarySink_write :: "size_t \<Rightarrow> strbuf \<Rightarrow> byte list \<Rightarrow> strbuf option" where
  "strbuf_BinarySink_write limit buf data =
     Option.bind (strbuf_append limit buf (of_nat (length data)))
       (\<lambda>(pos, buf'). map_option (\<lambda>s. buf'\<lparr>sb_s := s\<rparr>) (poke (sb_s buf') pos data))"

definition strbuf_new_general :: "size_t \<Rightarrow> bool \<Rightarrow> strbuf option" where
  "strbuf_new_general limit nm =
     Option.bind (safemalloc limit 512 1 0)
       (\<lambda>s. map_option (\<lambda>s. \<lparr>sb_s = s, sb_size = 512, sb_len = 0, sb_nm = nm\<rparr>) (poke s 0 [0]))"

definition strbuf_finalise_agent_query :: "strbuf \<Rightarrow> strbuf option" where
  "strbuf_finalise_agent_query buf =
     (if sb_len buf \<ge> 5 then
        map_option (\<lambda>s. buf\<lparr>sb_s := s\<rparr>)
          (poke (sb_s buf) 0 (PUT_32BIT_MSB_FIRST (ucast (sb_len buf - 4))))
      else None)"

definition strbuf_new_for_agent_query :: "size_t \<Rightarrow> strbuf option" where
  "strbuf_new_for_agent_query limit =
     Option.bind (strbuf_new_general limit False)
       (\<lambda>buf. map_option snd (strbuf_append limit buf 4))"

text \<open>The string a buffer holds, its NUL, and room for both in the block.\<close>

definition strbuf_data :: "strbuf \<Rightarrow> byte list" where
  "strbuf_data buf = map the (take (unat (sb_len buf)) (sb_s buf))"

definition strbuf_ok :: "strbuf \<Rightarrow> bool" where
  "strbuf_ok buf \<longleftrightarrow>
     unat (sb_len buf) < unat (sb_size buf) \<and> unat (sb_size buf) \<le> length (sb_s buf) \<and>
     None \<notin> set (take (unat (sb_len buf)) (sb_s buf)) \<and>
     sb_s buf ! unat (sb_len buf) = Some 0"

text \<open>
  \<open>strbuf_fits limit buf n\<close>: \<open>n\<close> more bytes can be appended for certain, whatever the sizes the
  array passes through. \<open>safegrowarray\<close> overshoots by up to 256 bytes or a sixteenth.
\<close>

definition strbuf_fits :: "size_t \<Rightarrow> strbuf \<Rightarrow> nat \<Rightarrow> bool" where
  "strbuf_fits limit buf n \<longleftrightarrow>
     (let most = min (unat limit) (unat INT_MAX)
      in unat (sb_len buf) + 1 + n + most div 16 + 256 \<le> most)"

lemma poke_Some:
  assumes "poke dst pos src = Some dst'"
  shows "length dst' = length dst" "k \<le> pos \<Longrightarrow> take k dst' = take k dst"
    "take (pos + length src) dst' = take pos dst @ map Some src"
    "pos + length src \<le> k \<Longrightarrow> k < length dst \<Longrightarrow> dst' ! k = dst ! k"
    "pos + length src \<le> length dst"
proof -
  have le: "pos + length src \<le> length dst" and d: "dst' = memcpy dst pos (map Some src)"
    using assms by (auto simp: poke_def split: if_splits)
  have l: "length (take pos dst) = pos" using le by simp
  show "length dst' = length dst" using le by (simp add: d memcpy_def)
  show "take k dst' = take k dst" if "k \<le> pos"
    using that l by (simp add: d memcpy_def min.absorb1)
  show "take (pos + length src) dst' = take pos dst @ map Some src"
    using le by (simp add: d memcpy_def)
  show "dst' ! k = dst ! k" if "pos + length src \<le> k" "k < length dst"
  proof -
    have "\<not> k < pos" "\<not> k - pos < length src" using that(1) by auto
    then show ?thesis using that le by (simp add: d memcpy_def nth_append)
  qed
  show "pos + length src \<le> length dst" by (rule le)
qed

lemma poke_ok: "pos + length src \<le> length dst \<Longrightarrow> \<exists>dst'. poke dst pos src = Some dst'"
  by (simp add: poke_def)

lemma strbuf_append_ok:
  assumes ok: "strbuf_ok buf" and app: "strbuf_append limit buf len = Some (pos, buf')"
  shows "pos = unat (sb_len buf)" "unat (sb_len buf') = unat (sb_len buf) + unat len"
    "unat (sb_len buf') < unat (sb_size buf')" "unat (sb_size buf') \<le> length (sb_s buf')"
    "take pos (sb_s buf') = take pos (sb_s buf)" "sb_s buf' ! unat (sb_len buf') = Some 0"
proof -
  from app obtain s sz s' where
    g: "safegrowarray limit (sb_s buf) (sb_size buf) 1 (sb_len buf + 1) len (sb_nm buf) = Some (s, sz)"
    and p: "poke s (unat (sb_len buf + len)) [0] = Some s'"
    and r: "pos = unat (sb_len buf)" "buf' = buf\<lparr>sb_s := s', sb_size := sz, sb_len := sb_len buf + len\<rparr>"
    by (auto simp: strbuf_append_def Let_def bind_eq_Some_conv)
  have lt: "unat (sb_len buf) < unat (sb_size buf)" and le: "unat (sb_size buf) \<le> length (sb_s buf)"
    using ok by (auto simp: strbuf_ok_def)
  have one: "unat (sb_len buf + 1) = Suc (unat (sb_len buf))"
    using lt unat_lt64 [of "sb_size buf"] by (simp add: unat_word_ariths(1))
  note sg = safegrowarray_ok [OF g]
  have room: "Suc (unat (sb_len buf)) + unat len \<le> unat sz" "unat sz \<le> length s"
    "take (unat (sb_size buf)) s = take (unat (sb_size buf)) (sb_s buf)"
    using sg(1,3,4) le one by simp_all
  have sum: "unat (sb_len buf + len) = unat (sb_len buf) + unat len"
    using room(1) unat_lt64 [of sz] by (simp add: unat_word_ariths(1))
  show "pos = unat (sb_len buf)" "unat (sb_len buf') = unat (sb_len buf) + unat len"
    "unat (sb_len buf') < unat (sb_size buf')" "unat (sb_size buf') \<le> length (sb_s buf')"
    using r room sum poke_Some(1) [OF p] by simp_all
  have "take pos s' = take pos s"
    using poke_Some(2) [OF p, of pos] r(1) sum by simp
  moreover have "take pos (take (unat (sb_size buf)) s) = take pos (take (unat (sb_size buf)) (sb_s buf))"
    by (simp only: room(3))
  then have "take pos s = take pos (sb_s buf)" using lt r(1) by (simp add: min_def)
  ultimately show "take pos (sb_s buf') = take pos (sb_s buf)" using r by simp
  have "take (Suc (unat (sb_len buf + len))) s' = take (unat (sb_len buf + len)) s @ [Some 0]"
    using poke_Some(3) [OF p] by simp
  then have "(take (Suc (unat (sb_len buf + len))) s') ! unat (sb_len buf + len) = Some 0"
    using room sum by (simp add: nth_append)
  then show "sb_s buf' ! unat (sb_len buf') = Some 0" using r by simp
qed

lemma unat_length: "length (data :: byte list) < 2 ^ 64 \<Longrightarrow> unat (of_nat (length data) :: size_t) = length data"
  by (simp add: unat_of_nat)

lemma strbuf_write_keeps:
  assumes ok: "strbuf_ok buf" and wr: "strbuf_BinarySink_write limit buf data = Some buf'"
    and len: "length data < 2 ^ 64"
  shows "strbuf_ok buf'" "strbuf_data buf' = strbuf_data buf @ data"
    "unat (sb_len buf') = unat (sb_len buf) + length data"
proof -
  from wr obtain pos b s where a: "strbuf_append limit buf (of_nat (length data)) = Some (pos, b)"
    and p: "poke (sb_s b) pos data = Some s" and r: "buf' = b\<lparr>sb_s := s\<rparr>"
    by (auto simp: strbuf_BinarySink_write_def bind_eq_Some_conv)
  note ap = strbuf_append_ok [OF ok a]
  have l: "unat (sb_len b) = unat (sb_len buf) + length data"
    using ap(2) unat_length [OF len] by simp
  have t: "take (unat (sb_len b)) s = take (unat (sb_len buf)) (sb_s buf) @ map Some data"
    using poke_Some(3) [OF p] ap(1,5) l by simp
  have n: "s ! unat (sb_len b) = Some 0"
    using poke_Some(4) [OF p, of "unat (sb_len b)"] ap l by simp
  show "strbuf_ok buf'"
    using ok ap(3,4) r t n poke_Some(1) [OF p] by (auto simp: strbuf_ok_def)
  show "strbuf_data buf' = strbuf_data buf @ data"
    using r t by (simp add: strbuf_data_def comp_def)
  show "unat (sb_len buf') = unat (sb_len buf) + length data" using l r by simp
qed


section \<open>When a write succeeds\<close>

lemma div_ge_1: "unat s = 1 \<Longrightarrow> m div s = (m :: 64 word)"
  by (simp add: word_unat_eq_iff unat_div)

lemma saferealloc_succeeds:
  assumes "unat n \<le> unat INT_MAX" "unat n \<le> unat limit"
  shows "\<exists>block. saferealloc limit (Some ptr) n 1 = Some block"
  using assms by (auto simp: saferealloc_def Let_def word_less_nat_alt div_ge_1)

lemma safemalloc_succeeds:
  assumes "0 < unat n" "unat n \<le> unat limit"
  shows "\<exists>block. safemalloc limit n 1 0 = Some block"
proof -
  have "n \<noteq> 0" "n \<le> limit" using assms by (auto simp: word_le_nat_alt)
  then show ?thesis by (auto simp: safemalloc_def Let_def div_ge_1 not_less)
qed

lemma safegrowarray_succeeds:
  assumes "unat oldlen + unat extralen + most div 16 + 256 \<le> most"
    and "most = min (unat limit) (unat INT_MAX)"
  shows "\<exists>res. safegrowarray limit ptr allocated 1 oldlen extralen secret = Some res"
proof (cases "allocated > oldlen + extralen")
  case True
  have "unat oldlen + unat extralen < 2 ^ 64"
    using assms by (simp add: INT_MAX_def)
  then have "extralen \<le> NOT 0 - oldlen"
    using unat_SIZE_MAX by (simp add: word_le_nat_alt SIZE_MAX_def unat_sub)
  then show ?thesis using True by (simp add: safegrowarray_def div_ge_1)
next
  case False
  have big: "unat oldlen + unat extralen < 2 ^ 64"
    using assms by (simp add: INT_MAX_def)
  then have c: "extralen \<le> NOT 0 - oldlen"
    using unat_SIZE_MAX by (simp add: word_le_nat_alt SIZE_MAX_def unat_sub)
  have sum: "unat (oldlen + extralen) = unat oldlen + unat extralen"
    using big by (simp add: unat_word_ariths(1))
  have le: "allocated \<le> oldlen + extralen" using False by simp
  define new where "new = grow_to (NOT 0) 1 allocated (oldlen + extralen)"
  have m: "allocated \<le> NOT 0" "oldlen + extralen \<le> NOT 0" by simp_all
  have n: "unat new = min (unat (NOT 0 :: size_t))
      (unat allocated + max (max (unat (oldlen + extralen) - unat allocated) (256 div unat (1 :: size_t)))
        (unat allocated div 16))"
    unfolding new_def by (rule unat_grow_to [OF m(1) le m(2)])
  have al: "unat allocated \<le> unat oldlen + unat extralen"
    using le sum by (simp add: word_le_nat_alt)
  then have d: "unat allocated div 16 \<le> most div 16"
    using assms(1) by (intro div_le_mono) linarith
  have "unat allocated + max (max (unat (oldlen + extralen) - unat allocated) (256 div unat (1 :: size_t)))
        (unat allocated div 16) \<le> most"
    using al d assms(1) sum by simp
  then have up: "unat new \<le> most" unfolding n by (rule min.coboundedI2)
  have pos: "0 < unat new" using n unat_SIZE_MAX by (auto simp: SIZE_MAX_def)
  have new: "grow_to (- 1) 1 allocated (oldlen + extralen) = new" by (simp add: new_def)
  show ?thesis
    using up pos c False saferealloc_succeeds [of new limit ptr] safemalloc_succeeds [of new limit]
    by (auto simp: safegrowarray_def Let_def div_ge_1 assms(2) new)
qed

lemma strbuf_write_succeeds:
  assumes ok: "strbuf_ok buf" and fits: "strbuf_fits limit buf n" and len: "length data \<le> n"
  shows "\<exists>buf'. strbuf_BinarySink_write limit buf data = Some buf' \<and> strbuf_fits limit buf' (n - length data)"
proof -
  define most where "most = min (unat limit) (unat INT_MAX)"
  have f: "unat (sb_len buf) + 1 + n + most div 16 + 256 \<le> most"
    using fits by (simp add: strbuf_fits_def Let_def most_def)
  moreover have "most \<le> 2147483647" by (simp add: most_def INT_MAX_def)
  ultimately have small: "length data < 2 ^ 64" "unat (sb_len buf) + 1 + length data < 2 ^ 64"
    using len by simp_all
  have one: "unat (sb_len buf + 1) = unat (sb_len buf) + 1"
    using small by (simp add: unat_word_ariths(1))
  have "\<exists>res. safegrowarray limit (sb_s buf) (sb_size buf) 1 (sb_len buf + 1) (of_nat (length data)) (sb_nm buf) = Some res"
    by (rule safegrowarray_succeeds [OF _ most_def])
       (use f one len unat_length [OF small(1)] in simp)
  then obtain s sz where
    g: "safegrowarray limit (sb_s buf) (sb_size buf) 1 (sb_len buf + 1) (of_nat (length data)) (sb_nm buf) = Some (s, sz)"
    by auto
  have le: "unat (sb_size buf) \<le> length (sb_s buf)"
    using ok by (simp add: strbuf_ok_def)
  have r: "unat (sb_len buf) + 1 + length data \<le> length s"
    using safegrowarray_ok [OF g] le one unat_length [OF small(1)] by simp
  have sum: "unat (sb_len buf + of_nat (length data)) = unat (sb_len buf) + length data"
    using small unat_length [OF small(1)] by (simp add: unat_word_ariths(1))
  obtain s' where s': "poke s (unat (sb_len buf + of_nat (length data))) [0] = Some s'"
    using poke_ok [of "unat (sb_len buf + of_nat (length data))" "[0]" s] r sum by auto
  obtain s'' where s'': "poke s' (unat (sb_len buf)) data = Some s''"
    using poke_ok [of "unat (sb_len buf)" data s'] r poke_Some(1) [OF s'] by auto
  show ?thesis
    using g s' s'' sum f len
    by (simp add: strbuf_BinarySink_write_def strbuf_append_def Let_def strbuf_fits_def most_def)
qed

lemma safegrowarray_growth:
  assumes "safegrowarray limit ptr allocated eltsize oldlen extralen secret = Some (ptr', allocated')"
    and "allocated' \<noteq> allocated"
  shows "min (unat (NOT 0 div eltsize)) (unat allocated + unat allocated div 16) \<le> unat allocated'"
proof -
  let ?max = "NOT 0 div eltsize :: size_t"
  from assms have chk: "allocated \<le> ?max" "oldlen \<le> ?max" "extralen \<le> ?max - oldlen"
    and w: "allocated \<le> oldlen + extralen"
    and new: "allocated' = grow_to ?max eltsize allocated (oldlen + extralen)"
    by (auto simp: safegrowarray_def Let_def split: if_splits)
  show ?thesis
    unfolding new unat_grow_to [OF chk(1) w grown_size(2) [OF chk(2,3)]]
    by (intro min.mono order_refl add_left_mono) simp
qed

section \<open>Chunks written one after the other\<close>

fun write_all :: "('s \<Rightarrow> byte list \<Rightarrow> 's option) \<Rightarrow> 's \<Rightarrow> byte list list \<Rightarrow> 's option" where
  "write_all write s [] = Some s"
| "write_all write s (c # cs) = Option.bind (write s c) (\<lambda>s'. write_all write s' cs)"

lemma strbuf_write_all:
  assumes "strbuf_ok buf" "strbuf_fits limit buf n" "length (concat cs) \<le> n" "n < 2 ^ 64"
  shows "\<exists>buf'. write_all (strbuf_BinarySink_write limit) buf cs = Some buf' \<and> strbuf_ok buf' \<and>
    strbuf_data buf' = strbuf_data buf @ concat cs \<and>
    unat (sb_len buf') = unat (sb_len buf) + length (concat cs)"
  using assms
proof (induction cs arbitrary: buf n)
  case Nil
  then show ?case by simp
next
  case (Cons c cs)
  have c: "length c \<le> n" "length c < 2 ^ 64" using Cons.prems by simp_all
  obtain b where b: "strbuf_BinarySink_write limit buf c = Some b" "strbuf_fits limit b (n - length c)"
    using strbuf_write_succeeds [OF Cons.prems(1,2) c(1)] by auto
  note k = strbuf_write_keeps [OF Cons.prems(1) b(1) c(2)]
  have "length (concat cs) \<le> n - length c" "n - length c < 2 ^ 64" using Cons.prems by auto
  from Cons.IH [OF k(1) b(2) this] show ?case using b(1) k by auto
qed

lemma strbuf_new_ok:
  assumes "strbuf_new_general limit nm = Some buf"
  shows "strbuf_ok buf" "strbuf_data buf = []" "unat (sb_len buf) = 0"
proof -
  from assms obtain s s' where s: "safemalloc limit 512 1 0 = Some s" and p: "poke s 0 [0] = Some s'"
    and b: "buf = \<lparr>sb_s = s', sb_size = 512, sb_len = 0, sb_nm = nm\<rparr>"
    by (auto simp: strbuf_new_general_def bind_eq_Some_conv)
  have "512 \<le> length s" using safemalloc_block(1) [OF s] by simp
  then have l: "512 \<le> length s'" using poke_Some(1) [OF p] by simp
  have "take 1 s' ! 0 = Some 0" using poke_Some(3) [OF p] by simp
  then have z: "s' ! 0 = Some 0" by simp
  show "strbuf_ok buf" using l z by (simp add: b strbuf_ok_def)
  show "strbuf_data buf = []" "unat (sb_len buf) = 0" by (simp_all add: b strbuf_data_def)
qed

section \<open>Properties\<close>

text \<open>
  \<open>safegrowarray\<close>, on 64-bit sizes. When it returns, the array has room for \<open>oldlen\<close>
  and \<open>extralen\<close> elements together with no wrapped sum or product behind it, the block is
  as large as the new count says, the old contents are all there, and an array that grew
  grew by at least a sixteenth of its size (up to the largest countable size), so that
  repeated appends cost amortised constant time.
\<close>

theorem safegrowarray_makes_room:
  assumes "safegrowarray limit ptr allocated eltsize oldlen extralen secret = Some (ptr', allocated')"
    and "unat allocated * unat eltsize \<le> length ptr"
  shows "unat oldlen + unat extralen \<le> unat allocated' \<and>
    unat allocated' * unat eltsize \<le> length ptr' \<and>
    take (unat allocated * unat eltsize) ptr' = take (unat allocated * unat eltsize) ptr \<and>
    (allocated' = allocated \<or>
     min (unat (NOT 0 div eltsize)) (unat allocated + unat allocated div 16) \<le> unat allocated')"
  using safegrowarray_ok [OF assms] safegrowarray_growth [OF assms(1)] by blast

theorem safegrowarray_makes_room_witness:
  "\<exists>block n. safegrowarray 1000000 [Some 7, Some 8] 2 1 2 5 True = Some (block, n) \<and>
     7 \<le> unat n \<and> take 2 block = [Some 7, Some 8]"
proof -
  have fit: "unat (2 :: size_t) + unat (5 :: size_t) + 1000000 div 16 + 256 \<le> 1000000"
    "1000000 = min (unat (1000000 :: size_t)) (unat INT_MAX)"
    by (simp_all add: INT_MAX_def)
  obtain r where g: "safegrowarray 1000000 [Some 7, Some 8] 2 1 2 5 True = Some r"
    using safegrowarray_succeeds [OF fit] by blast
  then have g: "safegrowarray 1000000 [Some 7, Some 8] 2 1 2 5 True = Some (fst r, snd r)" by simp
  have len: "unat (2 :: size_t) * unat (1 :: size_t) \<le> length [Some 7, Some 8 :: cell]" by simp
  have "7 \<le> unat (snd r) \<and> take 2 (fst r) = [Some 7, Some 8]"
    using safegrowarray_makes_room [OF g len] by simp
  then show ?thesis using g by blast
qed

text \<open>
  C9: a new \<open>strbuf\<close> to which any chunks of bytes are written, in any number and of any
  sizes, holds their concatenation, with its length, and a NUL behind it inside
  the block; as long as the total (with what \<open>safegrowarray\<close> overshoots) is below the
  allocator's limit no write fails, none leaves the block, and no size wraps.
\<close>

theorem strbuf_collects:
  assumes "strbuf_new_general limit nm = Some buf"
    and "strbuf_fits limit buf (length (concat chunks))"
  shows "\<exists>buf'. write_all (strbuf_BinarySink_write limit) buf chunks = Some buf' \<and>
    strbuf_data buf' = concat chunks \<and> unat (sb_len buf') = length (concat chunks) \<and>
    sb_s buf' ! length (concat chunks) = Some 0 \<and> length (concat chunks) < length (sb_s buf')"
proof -
  have "length (concat chunks) < 2 ^ 64"
    using assms(2) by (simp add: strbuf_fits_def Let_def INT_MAX_def)
  from strbuf_write_all [OF strbuf_new_ok(1) [OF assms(1)] assms(2) order_refl this]
  show ?thesis using strbuf_new_ok(2,3) [OF assms(1)] by (auto simp: strbuf_ok_def)
qed

theorem strbuf_collects_witness:
  "\<exists>buf buf'. strbuf_new_general 100000 False = Some buf \<and>
     write_all (strbuf_BinarySink_write 100000) buf [[1, 2], [], [3]] = Some buf' \<and>
     strbuf_data buf' = [1, 2, 3]"
proof -
  obtain s where s: "safemalloc 100000 512 1 0 = Some s"
    using safemalloc_succeeds [of 512 100000] by auto
  have "512 \<le> length s" using safemalloc_block(1) [OF s] by simp
  then have "\<exists>s'. poke s 0 [0] = Some s'" using poke_ok [of 0 "[0]" s] by auto
  then obtain buf where b: "strbuf_new_general 100000 False = Some buf"
    using s by (auto simp: strbuf_new_general_def)
  have "strbuf_fits 100000 buf (length (concat [[1, 2], [], [3 :: byte]]))"
    using strbuf_new_ok(3) [OF b] by (simp add: strbuf_fits_def Let_def INT_MAX_def)
  from strbuf_collects [OF b this] b show ?thesis by auto
qed

end
