(* ===== verification/Bufchain.thy ===== *)
theory Bufchain
  imports Memory
begin

text \<open>
  The buffer chains of \<open>putty-src/utils.c\<close>: a queue of bytes kept as a linked list of
  granules.

  A granule is the bytes between \<open>bufpos\<close> and \<open>bufend\<close> and the free room between \<open>bufend\<close> and
  \<open>bufmax\<close>; the list of granules stands for the links, its last element for \<open>tail\<close>.
  \<open>buffersize\<close> and the lengths a caller passes are \<open>size_t\<close>; the local \<open>int remlen\<close> is
  their low 32 bits read as a signed number, as the C conversion gives it. \<open>None\<close> is a
  failed assertion, a wild pointer or a loop that does not end. \<open>bufchain_add\<close> also returns
  the idempotent callback it queues, if the chain has one.
\<close>

section \<open>Data\<close>

record granule =
  gr_data :: "byte list"
  gr_room :: nat

record 'i bufchain =
  bc_chain :: "granule list"
  bc_size :: size_t
  bc_ic :: "'i option"

definition SIZEOF_GRANULE :: nat where "SIZEOF_GRANULE = 32"

definition BUFFER_MIN_GRANULE :: nat where "BUFFER_MIN_GRANULE = 512"

definition bufchain_init :: "'i bufchain" where
  "bufchain_init = \<lparr>bc_chain = [], bc_size = 0, bc_ic = None\<rparr>"

definition bufchain_clear :: "'i bufchain \<Rightarrow> 'i bufchain" where
  "bufchain_clear ch = ch\<lparr>bc_chain := [], bc_size := 0\<rparr>"

definition bufchain_size :: "'i bufchain \<Rightarrow> size_t" where
  "bufchain_size ch = bc_size ch"

definition bufchain_set_callback :: "'i bufchain \<Rightarrow> 'i option \<Rightarrow> 'i bufchain" where
  "bufchain_set_callback ch ic = ch\<lparr>bc_ic := ic\<rparr>"

section \<open>Adding\<close>

definition tail_room :: "granule list \<Rightarrow> nat" where
  "tail_room chain = (if chain = [] then 0 else gr_room (last chain))"

definition fill_tail :: "granule list \<Rightarrow> byte list \<Rightarrow> granule list" where
  "fill_tail chain bytes =
     butlast chain @ [(last chain)\<lparr>gr_data := gr_data (last chain) @ bytes,
                                   gr_room := gr_room (last chain) - length bytes\<rparr>]"

definition grain_len :: "nat \<Rightarrow> nat" where
  "grain_len len = max (SIZEOF_GRANULE + len) BUFFER_MIN_GRANULE"

definition new_granule :: "size_t \<Rightarrow> nat \<Rightarrow> granule option" where
  "new_granule limit len =
     map_option (\<lambda>block. \<lparr>gr_data = [], gr_room = length block - SIZEOF_GRANULE\<rparr>)
       (safemalloc limit (of_nat (grain_len len)) 1 0)"

text \<open>
  One turn of the loop of \<open>bufchain_add\<close>: fill the tail, then put a new granule behind it
  if bytes are left.
\<close>

partial_function (option) add_loop :: "size_t \<Rightarrow> granule list \<Rightarrow> byte list \<Rightarrow> granule list option" where
  "add_loop limit chain buf =
     (if buf = [] then Some chain
      else
        let copylen = min (length buf) (tail_room chain);
            chain = (if tail_room chain > 0 then fill_tail chain (take copylen buf) else chain);
            buf = drop copylen buf
        in if buf = [] then Some chain
           else Option.bind (new_granule limit (length buf))
                  (\<lambda>newbuf. add_loop limit (chain @ [newbuf]) buf))"

declare add_loop.simps [code]

definition bufchain_add ::
  "size_t \<Rightarrow> 'i bufchain \<Rightarrow> byte list \<Rightarrow> ('i bufchain \<times> 'i option) option" where
  "bufchain_add limit ch data =
     (if data = [] then Some (ch, None)
      else map_option
        (\<lambda>chain. (ch\<lparr>bc_chain := chain, bc_size := bc_size ch + of_nat (length data)\<rparr>, bc_ic ch))
        (add_loop limit (bc_chain ch) data))"

section \<open>Removing and reading\<close>

definition to_int :: "size_t \<Rightarrow> int" where
  "to_int len = sint (ucast len :: 32 word)"

partial_function (option) consume_loop :: "'i bufchain \<Rightarrow> size_t \<Rightarrow> 'i bufchain option" where
  "consume_loop ch len =
     (if len = 0 then Some ch
      else let remlen = to_int len in
        (case bc_chain ch of
           [] \<Rightarrow> None
         | g # rest \<Rightarrow>
             if remlen \<ge> int (length (gr_data g)) then
               (let n = of_nat (length (gr_data g)) in
                consume_loop (ch\<lparr>bc_chain := rest, bc_size := bc_size ch - n\<rparr>) (len - n))
             else if remlen < 0 then None
             else
               (let n = of_nat (nat remlen) in
                consume_loop
                  (ch\<lparr>bc_chain := g\<lparr>gr_data := drop (nat remlen) (gr_data g)\<rparr> # rest,
                      bc_size := bc_size ch - n\<rparr>) (len - n))))"

declare consume_loop.simps [code]

definition bufchain_consume :: "'i bufchain \<Rightarrow> size_t \<Rightarrow> 'i bufchain option" where
  "bufchain_consume ch len = (if bc_size ch \<ge> len then consume_loop ch len else None)"

definition bufchain_prefix :: "'i bufchain \<Rightarrow> byte list option" where
  "bufchain_prefix ch = (case bc_chain ch of [] \<Rightarrow> None | g # _ \<Rightarrow> Some (gr_data g))"

fun fetch_loop :: "granule list \<Rightarrow> size_t \<Rightarrow> byte list option" where
  "fetch_loop chain len =
     (if len = 0 then Some []
      else (case chain of
          [] \<Rightarrow> None
        | g # rest \<Rightarrow>
            let remlen = to_int len;
                remlen = (if remlen \<ge> int (length (gr_data g)) then int (length (gr_data g)) else remlen)
            in if remlen < 0 then None
               else map_option (\<lambda>more. take (nat remlen) (gr_data g) @ more)
                      (fetch_loop rest (len - of_nat (nat remlen)))))"

declare fetch_loop.simps [simp del]

definition bufchain_fetch :: "'i bufchain \<Rightarrow> size_t \<Rightarrow> byte list option" where
  "bufchain_fetch ch len = (if bc_size ch \<ge> len then fetch_loop (bc_chain ch) len else None)"

definition bufchain_fetch_consume :: "'i bufchain \<Rightarrow> size_t \<Rightarrow> (byte list \<times> 'i bufchain) option" where
  "bufchain_fetch_consume ch len =
     Option.bind (bufchain_fetch ch len) (\<lambda>data.
     map_option (\<lambda>ch'. (data, ch')) (bufchain_consume ch len))"

definition bufchain_try_fetch_consume ::
  "'i bufchain \<Rightarrow> size_t \<Rightarrow> (byte list option \<times> 'i bufchain) option" where
  "bufchain_try_fetch_consume ch len =
     (if bc_size ch \<ge> len then
        map_option (\<lambda>(data, ch'). (Some data, ch')) (bufchain_fetch_consume ch len)
      else Some (None, ch))"

definition bufchain_fetch_consume_up_to ::
  "'i bufchain \<Rightarrow> size_t \<Rightarrow> (byte list \<times> size_t \<times> 'i bufchain) option" where
  "bufchain_fetch_consume_up_to ch len =
     (let len = (if len > bc_size ch then bc_size ch else len) in
      if len \<noteq> 0 then
        map_option (\<lambda>(data, ch'). (data, len, ch')) (bufchain_fetch_consume ch len)
      else Some ([], len, ch))"

section \<open>A chain is a queue of bytes\<close>

definition chain_bytes :: "granule list \<Rightarrow> byte list" where
  "chain_bytes chain = concat (map gr_data chain)"

definition bytes_of :: "'i bufchain \<Rightarrow> byte list" where
  "bytes_of ch = chain_bytes (bc_chain ch)"

definition bufchain_ok :: "'i bufchain \<Rightarrow> bool" where
  "bufchain_ok ch \<longleftrightarrow>
     unat (bc_size ch) = length (bytes_of ch) \<and> (\<forall>g \<in> set (bc_chain ch). gr_data g \<noteq> [])"

lemma chain_bytes_simps [simp]:
  "chain_bytes [] = []" "chain_bytes (g # gs) = gr_data g @ chain_bytes gs"
  "chain_bytes (gs @ hs) = chain_bytes gs @ chain_bytes hs"
  by (simp_all add: chain_bytes_def)

subsection \<open>Adding\<close>

lemma chain_bytes_fill_tail:
  "chain \<noteq> [] \<Longrightarrow> chain_bytes (fill_tail chain bytes) = chain_bytes chain @ bytes"
  by (cases chain rule: rev_cases) (simp_all add: fill_tail_def)

lemma fill_tail_nonempty:
  "\<forall>g \<in> set chain. gr_data g \<noteq> [] \<Longrightarrow> bytes \<noteq> [] \<Longrightarrow> \<forall>g \<in> set (fill_tail chain bytes). gr_data g \<noteq> []"
  by (auto simp: fill_tail_def dest: in_set_butlastD)

lemma new_granule_ok:
  assumes "grain_len len \<le> unat limit"
  shows "\<exists>g. new_granule limit len = Some g \<and> gr_data g = [] \<and> len \<le> gr_room g"
proof -
  have n: "unat (of_nat (grain_len len) :: size_t) = grain_len len"
    using assms unat_lt64 [of limit] by (simp add: unat_of_nat)
  then have "\<exists>block. safemalloc limit (of_nat (grain_len len)) 1 0 = Some block"
    using assms by (intro safemalloc_succeeds) (simp_all add: grain_len_def BUFFER_MIN_GRANULE_def)
  then obtain block where b: "safemalloc limit (of_nat (grain_len len)) 1 0 = Some block" ..
  then have "grain_len len \<le> length block" using safemalloc_block(1) [OF b] n by simp
  then show ?thesis using b by (auto simp: new_granule_def grain_len_def)
qed

text \<open>With room enough in the tail, one turn is all.\<close>

lemma add_loop_room:
  assumes "length buf \<le> tail_room chain" "buf \<noteq> []"
  shows "add_loop limit chain buf = Some (fill_tail chain buf)"
proof -
  have "0 < tail_room chain" using assms by (cases buf) auto
  then show ?thesis
    using assms by (subst add_loop.simps) (simp add: Let_def min.absorb1)
qed

lemma tail_room_snoc [simp]: "tail_room (chain @ [g]) = gr_room g"
  by (simp add: tail_room_def)

lemma fill_tail_snoc [simp]:
  "fill_tail (chain @ [g]) bytes =
     chain @ [g\<lparr>gr_data := gr_data g @ bytes, gr_room := gr_room g - length bytes\<rparr>]"
  by (simp add: fill_tail_def)

lemma add_loop_ok:
  assumes lim: "grain_len (length buf) \<le> unat limit" and buf: "buf \<noteq> []"
    and ne: "\<forall>g \<in> set chain. gr_data g \<noteq> []"
  shows "\<exists>chain'. add_loop limit chain buf = Some chain' \<and>
    chain_bytes chain' = chain_bytes chain @ buf \<and> (\<forall>g \<in> set chain'. gr_data g \<noteq> [])"
proof (cases "length buf \<le> tail_room chain")
  case True
  then have "chain \<noteq> []" using buf by (auto simp: tail_room_def)
  then show ?thesis
    using add_loop_room [OF True buf] chain_bytes_fill_tail fill_tail_nonempty [OF ne buf] by auto
next
  case False
  define c where "c = tail_room chain"
  define chain1 where "chain1 = (if c > 0 then fill_tail chain (take c buf) else chain)"
  have c: "min (length buf) c = c" "drop c buf \<noteq> []" using False by (auto simp: c_def)
  have bytes1: "chain_bytes chain1 = chain_bytes chain @ take c buf"
    by (auto simp: chain1_def c_def tail_room_def chain_bytes_fill_tail)
  have ne1: "\<forall>g \<in> set chain1. gr_data g \<noteq> []"
    using ne fill_tail_nonempty [OF ne, of "take c buf"] buf by (auto simp: chain1_def)
  have "grain_len (length (drop c buf)) \<le> unat limit"
    using lim by (auto simp: grain_len_def)
  from new_granule_ok [OF this] obtain g where
    g: "new_granule limit (length (drop c buf)) = Some g" "gr_data g = []" "length (drop c buf) \<le> gr_room g"
    by auto
  have "add_loop limit chain buf = add_loop limit (chain1 @ [g]) (drop c buf)"
    using buf c g(1) by (subst add_loop.simps) (simp add: Let_def chain1_def c_def)
  also have "\<dots> = Some (fill_tail (chain1 @ [g]) (drop c buf))"
    by (rule add_loop_room) (use g c in simp_all)
  finally have "add_loop limit chain buf = Some (fill_tail (chain1 @ [g]) (drop c buf))" .
  then show ?thesis using bytes1 ne1 g(2) c by auto
qed

lemma bufchain_add_ok:
  assumes ok: "bufchain_ok ch" and lim: "grain_len (length data) \<le> unat limit"
    and total: "unat (bc_size ch) + length data < 2 ^ 64"
  shows "\<exists>ch'. bufchain_add limit ch data = Some (ch', if data = [] then None else bc_ic ch) \<and>
    bufchain_ok ch' \<and> bytes_of ch' = bytes_of ch @ data \<and> bc_ic ch' = bc_ic ch"
proof (cases "data = []")
  case True
  then show ?thesis using ok by (simp add: bufchain_add_def)
next
  case False
  have "\<forall>g \<in> set (bc_chain ch). gr_data g \<noteq> []" using ok by (simp add: bufchain_ok_def)
  from add_loop_ok [OF lim False this] obtain chain' where
    c: "add_loop limit (bc_chain ch) data = Some chain'"
      "chain_bytes chain' = chain_bytes (bc_chain ch) @ data" "\<forall>g \<in> set chain'. gr_data g \<noteq> []"
    by auto
  have "unat (bc_size ch + of_nat (length data)) = unat (bc_size ch) + length data"
    using total by (simp add: unat_word_ariths(1) unat_of_nat)
  then show ?thesis
    using c False ok by (simp add: bufchain_add_def bufchain_ok_def bytes_of_def)
qed

subsection \<open>Removing\<close>

text \<open>Below \<open>2 ^ 31\<close> the conversion to \<open>int\<close> keeps the value.\<close>

lemma to_int_small: "unat len < 2 ^ 31 \<Longrightarrow> to_int len = int (unat len)"
proof -
  assume "unat len < 2 ^ 31"
  then have "unat len < 2147483648" by simp
  then have "int (unat len) < int 2147483648" by (simp only: of_nat_less_iff)
  then have u: "uint len < 2147483648" by (simp only: uint_nat of_nat_numeral)
  have w: "uint (ucast len :: 32 word) = uint len"
    using u by (simp add: unsigned_ucast_eq take_bit_int_eq_self)
  have "sint (ucast len :: 32 word) = signed_take_bit 31 (uint len)"
    by (simp add: sint_uint w)
  also have "\<dots> = uint len"
    using u by (intro signed_take_bit_int_eq_self) (simp_all add: order_trans [of _ 0])
  finally show ?thesis by (simp add: to_int_def)
qed

lemma to_int_obtain:
  assumes "unat len < 2 ^ 31"
  obtains m where "unat len = m" "to_int len = int m" "of_nat m = len"
  by (rule that [OF refl to_int_small [OF assms]]) simp

lemma consume_loop_ok:
  assumes "unat len < 2 ^ 31" "bufchain_ok ch" "unat len \<le> length (bytes_of ch)"
  shows "\<exists>ch'. consume_loop ch len = Some ch' \<and> bufchain_ok ch' \<and>
    bytes_of ch' = drop (unat len) (bytes_of ch) \<and> bc_ic ch' = bc_ic ch"
  using assms
proof (induction "bc_chain ch" arbitrary: ch len)
  case Nil
  then have "len = 0" by (simp add: bytes_of_def word_unat_eq_iff flip: Nil(1))
  then show ?case using Nil by (subst consume_loop.simps) simp
next
  case (Cons g rest)
  note chain = Cons(2) [symmetric]
  define k where "k = length (gr_data g)"
  obtain m where m: "unat len = m" and i: "to_int len = int m" and lm: "of_nat m = len"
    using to_int_obtain [OF Cons(3)] .
  have b: "bytes_of ch = gr_data g @ chain_bytes rest" by (simp add: bytes_of_def chain)
  have sz: "unat (bc_size ch) = k + length (chain_bytes rest)"
    using Cons(4) b by (simp add: bufchain_ok_def k_def)
  have ne: "\<forall>h \<in> set rest. gr_data h \<noteq> []" "gr_data g \<noteq> []"
    using Cons(4) chain by (auto simp: bufchain_ok_def)
  show ?case
  proof (cases "len = 0")
    case True
    then show ?thesis using Cons by (subst consume_loop.simps) simp
  next
    case False
    show ?thesis
    proof (cases "k \<le> m")
      case True
      let ?ch = "ch\<lparr>bc_chain := rest, bc_size := bc_size ch - of_nat k\<rparr>"
      have n: "unat (of_nat k :: size_t) = k"
        using True m unat_lt64 [of len] by (simp add: unat_of_nat)
      have s': "unat (bc_size ch - of_nat k) = length (chain_bytes rest)"
        using sz n by (subst unat_sub) (simp_all add: word_le_nat_alt)
      have l': "unat (len - of_nat k) = m - k"
        using True n m by (subst unat_sub) (simp_all add: word_le_nat_alt)
      have step: "consume_loop ch len = consume_loop ?ch (len - of_nat k)"
        using False True i chain by (subst consume_loop.simps) (simp add: Let_def k_def)
      have "\<exists>ch'. consume_loop ?ch (len - of_nat k) = Some ch' \<and> bufchain_ok ch' \<and>
          bytes_of ch' = drop (unat (len - of_nat k)) (bytes_of ?ch) \<and> bc_ic ch' = bc_ic ?ch"
        by (rule Cons(1))
           (use Cons(3,5) s' l' ne b True m in \<open>simp_all add: bufchain_ok_def bytes_of_def k_def\<close>)
      then show ?thesis using step l' True b m by (simp add: bytes_of_def k_def)
    next
      case False': False
      let ?ch = "ch\<lparr>bc_chain := g\<lparr>gr_data := drop m (gr_data g)\<rparr> # rest, bc_size := bc_size ch - len\<rparr>"
      have s': "unat (bc_size ch - len) = unat (bc_size ch) - m"
        using sz False' m by (simp add: unat_sub word_le_nat_alt)
      have "consume_loop ch len = consume_loop ?ch 0"
        using False False' i lm chain by (subst consume_loop.simps) (simp add: Let_def k_def)
      then have "consume_loop ch len = Some ?ch" by (subst (asm) consume_loop.simps) simp
      then show ?thesis
        using s' sz ne False' b m by (auto simp: bufchain_ok_def bytes_of_def k_def)
    qed
  qed
qed

lemma fetch_loop_ok:
  assumes "unat len < 2 ^ 31" "unat len \<le> length (chain_bytes chain)"
  shows "fetch_loop chain len = Some (take (unat len) (chain_bytes chain))"
  using assms
proof (induction chain arbitrary: len)
  case Nil
  then have "len = 0" by (simp add: word_unat_eq_iff)
  then show ?case by (subst fetch_loop.simps) simp
next
  case (Cons g rest)
  define k where "k = length (gr_data g)"
  obtain m where m: "unat len = m" and i: "to_int len = int m" and lm: "of_nat m = len"
    using to_int_obtain [OF Cons.prems(1)] .
  show ?case
  proof (cases "len = 0 \<or> m < k")
    case True
    then show ?thesis
      using i m lm by (subst fetch_loop.simps) (auto simp: Let_def k_def fetch_loop.simps [of rest 0])
  next
    case False
    then have k: "k \<le> m" by auto
    have n: "unat (of_nat k :: size_t) = k"
      using k m unat_lt64 [of len] by (simp add: unat_of_nat)
    have l': "unat (len - of_nat k) = m - k"
      using k n m by (subst unat_sub) (simp_all add: word_le_nat_alt)
    have "fetch_loop rest (len - of_nat k) = Some (take (m - k) (chain_bytes rest))"
      using Cons.IH [of "len - of_nat k"] Cons.prems l' k m by (simp add: k_def)
    then show ?thesis
      using False k i m by (subst fetch_loop.simps) (auto simp: Let_def k_def)
  qed
qed

lemma bufchain_consume_ok:
  assumes "bufchain_ok ch" "unat len < 2 ^ 31" "unat len \<le> length (bytes_of ch)"
  shows "\<exists>ch'. bufchain_consume ch len = Some ch' \<and> bufchain_ok ch' \<and>
    bytes_of ch' = drop (unat len) (bytes_of ch) \<and> bc_ic ch' = bc_ic ch"
proof -
  have "len \<le> bc_size ch" using assms by (simp add: word_le_nat_alt bufchain_ok_def)
  then show ?thesis
    using consume_loop_ok [OF assms(2,1,3)] by (simp add: bufchain_consume_def)
qed

lemma bufchain_fetch_ok:
  assumes "bufchain_ok ch" "unat len < 2 ^ 31" "unat len \<le> length (bytes_of ch)"
  shows "bufchain_fetch ch len = Some (take (unat len) (bytes_of ch))"
  using fetch_loop_ok [OF assms(2), of "bc_chain ch"] assms
  by (simp add: bufchain_fetch_def word_le_nat_alt bufchain_ok_def bytes_of_def)

lemma bufchain_fetch_consume_ok:
  assumes "bufchain_ok ch" "unat len < 2 ^ 31" "unat len \<le> length (bytes_of ch)"
  shows "\<exists>ch'. bufchain_fetch_consume ch len = Some (take (unat len) (bytes_of ch), ch') \<and>
    bufchain_ok ch' \<and> bytes_of ch' = drop (unat len) (bytes_of ch) \<and> bc_ic ch' = bc_ic ch"
  using bufchain_consume_ok [OF assms] bufchain_fetch_ok [OF assms]
  by (auto simp: bufchain_fetch_consume_def)

lemma bufchain_asserts:
  assumes "bufchain_ok ch" "length (bytes_of ch) < unat len"
  shows "bufchain_consume ch len = None" "bufchain_fetch ch len = None"
    "bufchain_fetch_consume ch len = None"
  using assms
  by (auto simp: bufchain_consume_def bufchain_fetch_def bufchain_fetch_consume_def
      bufchain_ok_def word_le_nat_alt)

section \<open>Runs of operations\<close>

text \<open>
  A client's use of a chain: the operations in order, with everything each hands back.
\<close>

datatype 'i bufop =
    Add "byte list" | Consume size_t | Fetch size_t | FetchConsume size_t
  | TryFetchConsume size_t | FetchConsumeUpTo size_t | Prefix | Clear | Size
  | SetCallback "'i option"

datatype 'i bufout =
    Done | Queued "'i option" | Got "byte list" | GotLen "byte list" size_t | Refused | Count size_t

fun buf_step :: "size_t \<Rightarrow> 'i bufop \<Rightarrow> 'i bufchain \<Rightarrow> ('i bufout \<times> 'i bufchain) option" where
  "buf_step limit (Add data) ch = map_option (\<lambda>(ch', ic). (Queued ic, ch')) (bufchain_add limit ch data)"
| "buf_step limit (Consume len) ch = map_option (\<lambda>ch'. (Done, ch')) (bufchain_consume ch len)"
| "buf_step limit (Fetch len) ch = map_option (\<lambda>data. (Got data, ch)) (bufchain_fetch ch len)"
| "buf_step limit (FetchConsume len) ch =
     map_option (\<lambda>(data, ch'). (Got data, ch')) (bufchain_fetch_consume ch len)"
| "buf_step limit (TryFetchConsume len) ch =
     map_option (\<lambda>(res, ch'). (case res of None \<Rightarrow> Refused | Some data \<Rightarrow> Got data, ch'))
       (bufchain_try_fetch_consume ch len)"
| "buf_step limit (FetchConsumeUpTo len) ch =
     map_option (\<lambda>(data, n, ch'). (GotLen data n, ch')) (bufchain_fetch_consume_up_to ch len)"
| "buf_step limit Prefix ch = map_option (\<lambda>data. (Got data, ch)) (bufchain_prefix ch)"
| "buf_step limit Clear ch = Some (Done, bufchain_clear ch)"
| "buf_step limit Size ch = Some (Count (bufchain_size ch), ch)"
| "buf_step limit (SetCallback ic) ch = Some (Done, bufchain_set_callback ch ic)"

fun buf_run :: "size_t \<Rightarrow> 'i bufop list \<Rightarrow> 'i bufchain \<Rightarrow> ('i bufout list \<times> 'i bufchain) option" where
  "buf_run limit [] ch = Some ([], ch)"
| "buf_run limit (x # xs) ch =
     Option.bind (buf_step limit x ch)
       (\<lambda>(out, ch'). map_option (\<lambda>(outs, ch''). (out # outs, ch'')) (buf_run limit xs ch'))"

text \<open>
  The contract, on a plain list of bytes and the callback the client has set. Where no rule
  applies, the operation may not be called: it asserts. What an operation hands back is
  determined, except that \<open>bufchain_prefix\<close> may hand back any prefix of the queue but
  the empty one.
\<close>

inductive queue_step ::
  "'i bufop \<Rightarrow> byte list \<times> 'i option \<Rightarrow> 'i bufout \<Rightarrow> byte list \<times> 'i option \<Rightarrow> bool" where
  add: "queue_step (Add data) (q, ic) (Queued (if data = [] then None else ic)) (q @ data, ic)"
| consume: "unat len \<le> length q \<Longrightarrow> queue_step (Consume len) (q, ic) Done (drop (unat len) q, ic)"
| fetch: "unat len \<le> length q \<Longrightarrow> queue_step (Fetch len) (q, ic) (Got (take (unat len) q)) (q, ic)"
| fetch_consume: "unat len \<le> length q \<Longrightarrow>
    queue_step (FetchConsume len) (q, ic) (Got (take (unat len) q)) (drop (unat len) q, ic)"
| try_some: "unat len \<le> length q \<Longrightarrow>
    queue_step (TryFetchConsume len) (q, ic) (Got (take (unat len) q)) (drop (unat len) q, ic)"
| try_none: "length q < unat len \<Longrightarrow> queue_step (TryFetchConsume len) (q, ic) Refused (q, ic)"
| up_to: "unat n = min (unat len) (length q) \<Longrightarrow>
    queue_step (FetchConsumeUpTo len) (q, ic) (GotLen (take (unat len) q) n) (drop (unat len) q, ic)"
| prefix: "data \<noteq> [] \<Longrightarrow> queue_step Prefix (data @ rest, ic) (Got data) (data @ rest, ic)"
| clear: "queue_step Clear (q, ic) Done ([], ic)"
| size: "unat n = length q \<Longrightarrow> queue_step Size (q, ic) (Count n) (q, ic)"
| set_callback: "queue_step (SetCallback ic') (q, ic) Done (q, ic')"

inductive_simps queue_step_simps:
  "queue_step (Add data) (q, ic) out s'" "queue_step (Consume len) (q, ic) out s'"
  "queue_step Size (q, ic) out s'" "queue_step (FetchConsumeUpTo len) (q, ic) out s'"
  "queue_step (SetCallback ic') (q, ic) out s'"

inductive_cases queue_stepE [elim!]:
  "queue_step (Add data) s out s'" "queue_step (Consume len) s out s'"
  "queue_step (Fetch len) s out s'" "queue_step (FetchConsume len) s out s'"
  "queue_step (TryFetchConsume len) s out s'" "queue_step (FetchConsumeUpTo len) s out s'"
  "queue_step Prefix s out s'" "queue_step Clear s out s'" "queue_step Size s out s'"
  "queue_step (SetCallback ic) s out s'"

inductive queue_run ::
  "'i bufop list \<Rightarrow> byte list \<times> 'i option \<Rightarrow> 'i bufout list \<Rightarrow> byte list \<times> 'i option \<Rightarrow> bool" where
  no_ops: "queue_run [] s [] s"
| first_op: "queue_step x s out s' \<Longrightarrow> queue_run xs s' outs s'' \<Longrightarrow> queue_run (x # xs) s (out # outs) s''"

inductive_simps queue_run_simps: "queue_run [] s outs s'" "queue_run (x # xs) s outs s'"

text \<open>The state after an operation is determined, also behind a prefix.\<close>

lemma queue_step_state: "queue_step x s out s' \<Longrightarrow> queue_step x s out' s'' \<Longrightarrow> s' = s''"
  by (cases x) auto

fun op_len :: "'i bufop \<Rightarrow> nat" where
  "op_len (Consume len) = unat len"
| "op_len (Fetch len) = unat len"
| "op_len (FetchConsume len) = unat len"
| "op_len (TryFetchConsume len) = unat len"
| "op_len (FetchConsumeUpTo len) = unat len"
| "op_len _ = 0"

fun added :: "'i bufop \<Rightarrow> nat" where
  "added (Add data) = length data"
| "added _ = 0"

lemma queue_step_length: "queue_step x s out s' \<Longrightarrow> length (fst s') \<le> length (fst s) + added x"
  by (cases x) auto

lemma bufchain_up_to_ok:
  assumes ok: "bufchain_ok ch" and len: "unat len < 2 ^ 31"
  shows "\<exists>n ch'. bufchain_fetch_consume_up_to ch len = Some (take (unat len) (bytes_of ch), n, ch') \<and>
    unat n = min (unat len) (length (bytes_of ch)) \<and>
    bufchain_ok ch' \<and> bytes_of ch' = drop (unat len) (bytes_of ch) \<and> bc_ic ch' = bc_ic ch"
proof -
  define l where "l = (if len > bc_size ch then bc_size ch else len)"
  have n: "unat l = min (unat len) (length (bytes_of ch))"
    using ok by (auto simp: l_def bufchain_ok_def word_less_nat_alt)
  have tk: "take (unat l) (bytes_of ch) = take (unat len) (bytes_of ch)"
    "drop (unat l) (bytes_of ch) = drop (unat len) (bytes_of ch)"
    unfolding n by (auto simp: min_def)
  show ?thesis
  proof (cases "l = 0")
    case True
    have "take (unat len) (bytes_of ch) = []" "drop (unat len) (bytes_of ch) = bytes_of ch"
      using tk True by simp_all
    then show ?thesis using True ok n
      by (auto simp: bufchain_fetch_consume_up_to_def Let_def simp flip: l_def)
  next
    case False
    have "unat l < 2 ^ 31" "unat l \<le> length (bytes_of ch)" using n len by linarith+
    from bufchain_fetch_consume_ok [OF ok this] False tk n show ?thesis
      by (auto simp: bufchain_fetch_consume_up_to_def Let_def simp flip: l_def)
  qed
qed

definition queue_of :: "'i bufchain \<Rightarrow> byte list \<times> 'i option" where
  "queue_of ch = (bytes_of ch, bc_ic ch)"

lemma buf_step_refines:
  assumes ok: "bufchain_ok ch" and len: "op_len x < 2 ^ 31"
    and add: "grain_len (added x) \<le> unat limit" "length (bytes_of ch) + added x < 2 ^ 31"
  shows "case buf_step limit x ch of
      None \<Rightarrow> \<not> (\<exists>out s. queue_step x (queue_of ch) out s)
    | Some (out, ch') \<Rightarrow> bufchain_ok ch' \<and> queue_step x (queue_of ch) out (queue_of ch')"
proof (cases x)
  case (Add data)
  have "unat (bc_size ch) + length data < 2 ^ 64"
    using add(2) ok Add by (simp add: bufchain_ok_def)
  from bufchain_add_ok [OF ok _ this, of limit] add(1) Add obtain ch' where
    "bufchain_add limit ch data = Some (ch', if data = [] then None else bc_ic ch)"
    "bufchain_ok ch'" "bytes_of ch' = bytes_of ch @ data" "bc_ic ch' = bc_ic ch" by auto
  then show ?thesis using Add by (simp add: queue_of_def queue_step.add)
next
  case (Consume len)
  then show ?thesis
    using bufchain_consume_ok [OF ok, of len] bufchain_asserts [OF ok, of len] assms(2)
    by (cases "unat len \<le> length (bytes_of ch)") (auto simp: queue_of_def intro: queue_step.intros)
next
  case (Fetch len)
  then show ?thesis
    using bufchain_fetch_ok [OF ok] bufchain_asserts [OF ok, of len] assms
    by (cases "unat len \<le> length (bytes_of ch)") (auto simp: queue_of_def intro: queue_step.intros)
next
  case (FetchConsume len)
  then show ?thesis
    using bufchain_fetch_consume_ok [OF ok, of len] bufchain_asserts [OF ok, of len] assms(2)
    by (cases "unat len \<le> length (bytes_of ch)") (auto simp: queue_of_def intro: queue_step.intros)
next
  case (TryFetchConsume len)
  show ?thesis
  proof (cases "unat len \<le> length (bytes_of ch)")
    case True
    then show ?thesis
      using bufchain_fetch_consume_ok [OF ok _ True] TryFetchConsume ok assms(2)
      by (auto simp: bufchain_try_fetch_consume_def bufchain_ok_def word_le_nat_alt queue_of_def
          intro: queue_step.intros)
  next
    case False
    then show ?thesis
      using TryFetchConsume ok
      by (auto simp: bufchain_try_fetch_consume_def bufchain_ok_def word_le_nat_alt queue_of_def
          intro: queue_step.intros)
  qed
next
  case (FetchConsumeUpTo len)
  then show ?thesis
    using bufchain_up_to_ok [OF ok, of len] assms(2) by (auto simp: queue_of_def intro: queue_step.up_to)
next
  case Prefix
  show ?thesis
  proof (cases "bc_chain ch")
    case Nil
    then show ?thesis using Prefix by (auto simp: bufchain_prefix_def queue_of_def bytes_of_def)
  next
    case (Cons g rest)
    then have "queue_step Prefix (gr_data g @ chain_bytes rest, bc_ic ch) (Got (gr_data g))
        (gr_data g @ chain_bytes rest, bc_ic ch)"
      using ok by (intro queue_step.prefix) (simp add: bufchain_ok_def)
    then show ?thesis using Cons Prefix ok by (simp add: bufchain_prefix_def queue_of_def bytes_of_def)
  qed
next
  case Clear
  then show ?thesis
    by (auto simp: bufchain_clear_def bufchain_ok_def bytes_of_def queue_of_def intro: queue_step.clear)
next
  case Size
  then show ?thesis
    using ok by (auto simp: bufchain_size_def bufchain_ok_def queue_of_def intro: queue_step.size)
next
  case (SetCallback ic)
  then show ?thesis
    using ok by (auto simp: bufchain_set_callback_def bufchain_ok_def bytes_of_def queue_of_def
        intro: queue_step.set_callback)
qed

lemma buf_run_refines:
  assumes "bufchain_ok ch" "\<forall>x \<in> set xs. op_len x < 2 ^ 31 \<and> grain_len (added x) \<le> unat limit"
    "length (bytes_of ch) + sum_list (map added xs) < 2 ^ 31"
  shows "case buf_run limit xs ch of
      None \<Rightarrow> \<not> (\<exists>outs s. queue_run xs (queue_of ch) outs s)
    | Some (outs, ch') \<Rightarrow> bufchain_ok ch' \<and> queue_run xs (queue_of ch) outs (queue_of ch')"
  using assms
proof (induction xs arbitrary: ch)
  case Nil
  then show ?case by (simp add: queue_run.no_ops)
next
  case (Cons x xs)
  have lens: "op_len x < 2 ^ 31" "grain_len (added x) \<le> unat limit"
    "length (bytes_of ch) + added x < 2 ^ 31"
    using Cons.prems by auto
  note step = buf_step_refines [OF Cons.prems(1) lens]
  show ?case
  proof (cases "buf_step limit x ch")
    case None
    then show ?thesis using step by (auto simp: queue_run_simps)
  next
    case (Some r)
    obtain out ch' where r: "r = (out, ch')" by force
    with Some step have
      ch': "bufchain_ok ch'" "queue_step x (queue_of ch) out (queue_of ch')" by auto
    have "length (bytes_of ch') \<le> length (bytes_of ch) + added x"
      using queue_step_length [OF ch'(2)] by (simp add: queue_of_def)
    then have "length (bytes_of ch') + sum_list (map added xs) < 2 ^ 31"
      using Cons.prems(3) by simp
    note IH = Cons.IH [OF ch'(1) _ this]
    show ?thesis
    proof (cases "buf_run limit xs ch'")
      case None
      then have "\<not> (\<exists>outs s. queue_run xs (queue_of ch') outs s)" using IH Cons.prems(2) by simp
      then show ?thesis using Some r None queue_step_state [OF ch'(2)] by (auto simp: queue_run_simps)
    next
      case (Some r')
      then show ?thesis
        using IH Cons.prems(2) \<open>buf_step limit x ch = Some r\<close> r ch'(2)
        by (auto intro: queue_run.first_op)
    qed
  qed
qed

lemma bufchain_init_ok: "bufchain_ok bufchain_init" "bytes_of bufchain_init = []"
  by (simp_all add: bufchain_init_def bufchain_ok_def bytes_of_def)

section \<open>A length that \<open>int\<close> cannot hold\<close>

lemma consume_loop_stuck:
  fixes ch ch' :: "'i bufchain"
  assumes "consume_loop ch len = Some ch'" "to_int len = 0" "len \<noteq> 0"
    "bc_chain ch = g # rest" "gr_data g \<noteq> []"
  shows False
proof -
  have "to_int len = 0 \<longrightarrow> len \<noteq> 0 \<longrightarrow> (\<forall>g rest. bc_chain ch = g # rest \<longrightarrow> gr_data g = [])"
  proof (rule consume_loop.raw_induct [OF _ assms(1)])
    fix self :: "'i bufchain \<Rightarrow> size_t \<Rightarrow> 'i bufchain option" and ch :: "'i bufchain" and len ch'
    assume IH: "\<And>ch len ch'. self ch len = Some ch' \<Longrightarrow> to_int len = 0 \<longrightarrow> len \<noteq> 0 \<longrightarrow>
        (\<forall>g rest. bc_chain ch = g # rest \<longrightarrow> gr_data g = [])"
    assume body: "(if len = 0 then Some ch
       else let remlen = to_int len
            in case bc_chain ch of [] \<Rightarrow> None
               | g # rest \<Rightarrow>
                   if int (length (gr_data g)) \<le> remlen
                   then let n = word_of_nat (length (gr_data g))
                        in self (ch\<lparr>bc_chain := rest, bc_size := bc_size ch - n\<rparr>) (len - n)
                   else if remlen < 0 then None
                        else let n = word_of_nat (nat remlen)
                             in self (ch\<lparr>bc_chain := g\<lparr>gr_data := drop (nat remlen) (gr_data g)\<rparr> # rest,
                                        bc_size := bc_size ch - n\<rparr>) (len - n)) = Some ch'"
    show "to_int len = 0 \<longrightarrow> len \<noteq> 0 \<longrightarrow> (\<forall>g rest. bc_chain ch = g # rest \<longrightarrow> gr_data g = [])"
    proof (intro impI allI, rule ccontr)
      fix g rest
      assume len: "to_int len = 0" "len \<noteq> 0" "bc_chain ch = g # rest" "gr_data g \<noteq> []"
      then have "self (ch\<lparr>bc_chain := g # rest, bc_size := bc_size ch\<rparr>) len = Some ch'"
        using body by (simp add: Let_def)
      from IH [OF this] len show False by simp
    qed
  qed
  then show False using assms(2-) by blast
qed

section \<open>Properties\<close>

text \<open>
  C10: a buffer chain is a queue of bytes. For any sequence of adds, consumes, fetches
  (plain, consuming, conditional and up to a limit), prefixes, clears, sizes and settings of the
  callback on a new chain, either the run returns, and everything it handed back, the lengths
  and the callbacks to queue included, is what the contract lets a plain list of bytes hand
  back, with the chain's bytes that list at the end; or it stops at an \<open>assert\<close>, and then the
  contract has no such run. It holds as long as fewer than \<open>2 ^ 31\<close> bytes are added in
  all, the lengths asked for are below \<open>2 ^ 31\<close> and the allocator grants the granules.
\<close>

theorem bufchain_is_queue:
  fixes xs :: "'i bufop list"
  assumes "\<forall>x \<in> set xs. op_len x < 2 ^ 31 \<and> grain_len (added x) \<le> unat limit"
    and "sum_list (map added xs) < 2 ^ 31"
  shows "case buf_run limit xs bufchain_init of
      None \<Rightarrow> \<not> (\<exists>outs s. queue_run xs ([], None) outs s)
    | Some (outs, ch) \<Rightarrow> queue_run xs ([], None) outs (bytes_of ch, bc_ic ch)"
proof -
  have init: "queue_of (bufchain_init :: 'i bufchain) = ([], None)"
    by (simp add: queue_of_def bufchain_init_ok) (simp add: bufchain_init_def)
  have "length (bytes_of (bufchain_init :: 'i bufchain)) + sum_list (map added xs) < 2 ^ 31"
    using assms(2) by (simp add: bufchain_init_ok)
  from buf_run_refines [OF bufchain_init_ok(1) assms(1) this] show ?thesis
    unfolding init by (auto simp: queue_of_def split: option.splits)
qed

text \<open>A run inside the contract therefore returns.\<close>

theorem bufchain_is_queue_witness:
  "\<exists>outs ch. buf_run 4096 [SetCallback (Some CHR ''x''), Add [1, 2, 3], Consume 1, Add [4], Size, FetchConsumeUpTo 9]
      bufchain_init = Some (outs, ch) \<and>
    queue_run [SetCallback (Some CHR ''x''), Add [1, 2, 3], Consume 1, Add [4], Size, FetchConsumeUpTo 9]
      ([], None) outs (bytes_of ch, bc_ic ch)"
proof -
  let ?xs = "[SetCallback (Some CHR ''x''), Add [1, 2, 3], Consume 1, Add [4], Size, FetchConsumeUpTo 9]"
  have "queue_run ?xs ([], None)
      [Done, Queued (Some CHR ''x''), Done, Queued (Some CHR ''x''), Count 3, GotLen [2, 3, 4] 3] ([], Some CHR ''x'')"
    by (simp add: queue_run_simps queue_step_simps)
  moreover have "\<forall>x \<in> set ?xs. op_len x < 2 ^ 31 \<and> grain_len (added x) \<le> unat (4096 :: size_t)"
    "sum_list (map added ?xs) < 2 ^ 31"
    by (simp_all add: grain_len_def SIZEOF_GRANULE_def BUFFER_MIN_GRANULE_def)
  note bufchain_is_queue [OF this]
  ultimately show ?thesis by (auto split: option.splits)
qed

text \<open>
  asked to consume \<open>2 ^ 32\<close> bytes, \<open>bufchain_consume\<close> never returns, on any chain long
  enough to hold them: \<open>int remlen\<close> is 0, so no granule shrinks and \<open>len\<close> stays.
\<close>

theorem bufchain_consume_hangs:
  assumes "bufchain_ok ch" "2 ^ 32 \<le> length (bytes_of ch)"
  shows "(2 :: size_t) ^ 32 \<le> bufchain_size ch \<and> bufchain_consume ch (2 ^ 32) = None"
proof -
  obtain g rest where chain: "bc_chain ch = g # rest"
    using assms(2) by (cases "bc_chain ch") (auto simp: bytes_of_def)
  then have "gr_data g \<noteq> []" using assms(1) by (simp add: bufchain_ok_def)
  moreover have "to_int (2 ^ 32) = 0" by (simp add: to_int_def)
  ultimately have "consume_loop ch (2 ^ 32) \<noteq> Some ch'" for ch'
    using consume_loop_stuck [of ch "2 ^ 32" ch' g rest] chain by auto
  then have "consume_loop ch (2 ^ 32) = None" by (cases "consume_loop ch (2 ^ 32)") simp_all
  moreover have "(2 :: size_t) ^ 32 \<le> bc_size ch"
    using assms by (simp add: bufchain_ok_def word_le_nat_alt)
  ultimately show ?thesis by (simp add: bufchain_consume_def bufchain_size_def)
qed

text \<open>A chain that long exists.\<close>

definition long_chain :: "nat \<Rightarrow> unit bufchain" where
  "long_chain n = \<lparr>bc_chain = [\<lparr>gr_data = replicate n 0, gr_room = 0\<rparr>], bc_size = of_nat n, bc_ic = None\<rparr>"

lemma long_chain_ok:
  assumes "0 < n" "n < 2 ^ 64"
  shows "bufchain_ok (long_chain n)" "length (bytes_of (long_chain n)) = n"
  using assms by (simp_all add: long_chain_def bufchain_ok_def bytes_of_def unat_of_nat)

theorem bufchain_consume_hangs_witness:
  "bufchain_consume (long_chain (2 ^ 32)) (2 ^ 32) = None"
proof -
  have "(0 :: nat) < 2 ^ 32" "(2 :: nat) ^ 32 < 2 ^ 64" by simp_all
  note ok = long_chain_ok [OF this]
  show ?thesis using bufchain_consume_hangs [OF ok(1)] ok(2) by simp
qed

end
