(* ===== verification/Marshal.thy ===== *)
theory Marshal
  imports Bufchain
begin

text \<open>
  Marshalling in the SSH binary conventions: \<open>putty-src/marshal.c\<close> and \<open>marshal.h\<close>.

  A \<open>BinarySink\<close> is an object with a \<open>write\<close> function pointer. Here each \<open>put_\<close> function
  takes the \<open>write\<close> function and the object, and returns the object after it, or \<open>None\<close>
  where the program does not go on (a failed \<open>assert\<close>, memory exhausted). What a sink must
  guarantee is the locale \<open>binary_sink\<close>; it is interpreted on the two sinks modelled
  so far, \<open>strbuf\<close> and \<open>bufchain\<close>.

  A \<open>BinarySource\<close> is a record with the C fields. A \<open>get_\<close> function returns the value and
  the source after it; out of data is the sticky \<open>err\<close> field. A \<open>ptrlen\<close> and a C string
  are the bytes they point to, a C string without its NUL. \<open>unsigned long\<close> and \<open>size_t\<close> are 64 bits
  wide, \<open>unsigned\<close> 32.
\<close>

type_synonym ulong = "64 word"

section \<open>Sinks\<close>

type_synonym 's writer = "'s \<Rightarrow> byte list \<Rightarrow> 's option"

definition put_data :: "'s writer \<Rightarrow> byte list \<Rightarrow> 's \<Rightarrow> 's option" where
  "put_data write data bs = write bs data"

definition put_datapl :: "'s writer \<Rightarrow> byte list \<Rightarrow> 's \<Rightarrow> 's option" where
  "put_datapl write pl bs = put_data write pl bs"

function put_padding :: "'s writer \<Rightarrow> nat \<Rightarrow> byte \<Rightarrow> 's \<Rightarrow> 's option" where
  "put_padding write len padbyte bs =
     (if len > 0 then
        let thislen = (if len < 16 then len else 16) in
        Option.bind (write bs (take thislen (replicate 16 padbyte)))
          (put_padding write (len - thislen) padbyte)
      else Some bs)"
  by pat_completeness auto
termination by (relation "measure (\<lambda>(_, len, _, _). len)") auto

declare put_padding.simps [simp del]

definition put_byte :: "'s writer \<Rightarrow> byte \<Rightarrow> 's \<Rightarrow> 's option" where
  "put_byte write val bs = write bs [val]"

definition put_bool :: "'s writer \<Rightarrow> bool \<Rightarrow> 's \<Rightarrow> 's option" where
  "put_bool write val bs = write bs [if val then 1 else 0]"

definition put_uint16 :: "'s writer \<Rightarrow> ulong \<Rightarrow> 's \<Rightarrow> 's option" where
  "put_uint16 write val bs = write bs (PUT_16BIT_MSB_FIRST (ucast val))"

definition put_uint32 :: "'s writer \<Rightarrow> ulong \<Rightarrow> 's \<Rightarrow> 's option" where
  "put_uint32 write val bs = write bs (PUT_32BIT_MSB_FIRST (ucast val))"

definition put_uint64 :: "'s writer \<Rightarrow> 64 word \<Rightarrow> 's \<Rightarrow> 's option" where
  "put_uint64 write val bs = write bs (PUT_64BIT_MSB_FIRST val)"

definition put_string :: "'s writer \<Rightarrow> byte list \<Rightarrow> 's \<Rightarrow> 's option" where
  "put_string write data bs =
     (if length data div 2 ^ 31 < 2 then
        Option.bind (put_uint32 write (of_nat (length data)) bs) (\<lambda>bs. write bs data)
      else None)"

definition put_stringpl :: "'s writer \<Rightarrow> byte list \<Rightarrow> 's \<Rightarrow> 's option" where
  "put_stringpl write pl bs = put_string write pl bs"

definition put_stringz :: "'s writer \<Rightarrow> byte list \<Rightarrow> 's \<Rightarrow> 's option" where
  "put_stringz write str bs = put_string write str bs"

definition put_stringsb :: "'s writer \<Rightarrow> strbuf \<Rightarrow> 's \<Rightarrow> 's option" where
  "put_stringsb write buf bs = put_string write (strbuf_data buf) bs"

definition put_asciz :: "'s writer \<Rightarrow> byte list \<Rightarrow> 's \<Rightarrow> 's option" where
  "put_asciz write str bs = write bs (str @ [0])"

definition put_pstring :: "'s writer \<Rightarrow> byte list \<Rightarrow> 's \<Rightarrow> (bool \<times> 's) option" where
  "put_pstring write str bs =
     (let len = length str in
      if len > 255 then Some (False, bs)
      else Option.bind (put_byte write (of_nat len) bs) (\<lambda>bs.
           map_option (Pair True) (write bs str)))"

lemmas put_defs =
  put_data_def put_datapl_def put_byte_def put_bool_def put_uint16_def put_uint32_def
  put_uint64_def put_string_def put_stringpl_def put_stringz_def put_stringsb_def put_asciz_def

subsection \<open>What a sink guarantees\<close>

text \<open>
  \<open>out s\<close> is what has been written so far, \<open>fits s n\<close> that \<open>n\<close> more bytes will be
  accepted. \<open>emits f bs\<close> says that \<open>f\<close> writes exactly \<open>bs\<close>, in room for it.
\<close>

locale binary_sink =
  fixes wr :: "'s \<Rightarrow> byte list \<Rightarrow> 's option"
    and ok :: "'s \<Rightarrow> bool"
    and out :: "'s \<Rightarrow> byte list"
    and fits :: "'s \<Rightarrow> nat \<Rightarrow> bool"
  assumes write_ok: "ok s \<Longrightarrow> fits s n \<Longrightarrow> length bs \<le> n \<Longrightarrow>
    \<exists>s'. wr s bs = Some s' \<and> ok s' \<and> out s' = out s @ bs \<and> fits s' (n - length bs)"
begin

definition emits :: "('s \<Rightarrow> 's option) \<Rightarrow> byte list \<Rightarrow> bool" where
  "emits f bs \<longleftrightarrow> (\<forall>s n. ok s \<longrightarrow> fits s n \<longrightarrow> length bs \<le> n \<longrightarrow>
     (\<exists>s'. f s = Some s' \<and> ok s' \<and> out s' = out s @ bs \<and> fits s' (n - length bs)))"

lemma emits_write: "emits (\<lambda>s. wr s bs) bs"
  using write_ok by (auto simp: emits_def)

lemma emits_None: "emits Some []"
  by (simp add: emits_def)

lemma emits_bind:
  assumes "emits f as" "emits g bs"
  shows "emits (\<lambda>s. Option.bind (f s) g) (as @ bs)"
  unfolding emits_def
proof (intro allI impI)
  fix s n assume s: "ok s" "fits s n" "length (as @ bs) \<le> n"
  then obtain s1 where f: "f s = Some s1" "ok s1" "out s1 = out s @ as" "fits s1 (n - length as)"
    using assms(1) unfolding emits_def by fastforce
  have "length bs \<le> n - length as" using s(3) by simp
  then obtain s2 where "g s1 = Some s2" "ok s2" "out s2 = out s1 @ bs" "fits s2 (n - length as - length bs)"
    using assms(2) f unfolding emits_def by fastforce
  then show "\<exists>s'. Option.bind (f s) g = Some s' \<and> ok s' \<and> out s' = out s @ as @ bs \<and>
      fits s' (n - length (as @ bs))"
    using f by (simp add: diff_diff_eq)
qed

lemma emits_byte: "emits (put_byte wr v) [v]"
  and emits_bool: "emits (put_bool wr b) [if b then 1 else 0]"
  and emits_uint16: "emits (put_uint16 wr w) (PUT_16BIT_MSB_FIRST (ucast w))"
  and emits_uint32: "emits (put_uint32 wr w) (PUT_32BIT_MSB_FIRST (ucast w))"
  and emits_uint64: "emits (put_uint64 wr w) (PUT_64BIT_MSB_FIRST w)"
  and emits_data: "emits (put_data wr d) d"
  and emits_asciz: "emits (put_asciz wr d) (d @ [0])"
  using emits_write unfolding put_defs by simp_all

lemma emits_string:
  assumes "length d < 2 ^ 32"
  shows "emits (put_string wr d) (PUT_32BIT_MSB_FIRST (of_nat (length d)) @ d)"
proof -
  have "ucast (of_nat (length d) :: ulong) = (of_nat (length d) :: 32 word)"
    using assms by (simp add: unsigned_of_nat take_bit_nat_eq_self)
  then have "emits (\<lambda>bs. Option.bind (put_uint32 wr (of_nat (length d)) bs) (\<lambda>bs. wr bs d))
      (PUT_32BIT_MSB_FIRST (of_nat (length d)) @ d)"
    using emits_bind [OF emits_uint32 emits_write, of "of_nat (length d)" d] by simp
  moreover have "length d div 2 ^ 31 < 2" using assms by (simp add: less_mult_imp_div_less)
  ultimately show ?thesis unfolding put_string_def by simp
qed

lemma emits_padding: "emits (put_padding wr len b) (replicate len b)"
proof (induction len rule: less_induct)
  case (less len)
  define k where "k = (if len < 16 then len else 16)"
  have take: "take k (replicate 16 b) = replicate k b"
    by (simp add: k_def take_replicate)
  have "put_padding wr len b = (if len > 0 then (\<lambda>bs. Option.bind (wr bs (replicate k b))
      (put_padding wr (len - k) b)) else Some)"
    using take by (auto simp: fun_eq_iff put_padding.simps [of wr len] Let_def simp flip: k_def)
  moreover have "emits (\<lambda>bs. Option.bind (wr bs (replicate k b)) (put_padding wr (len - k) b))
      (replicate k b @ replicate (len - k) b)" if "len > 0"
    using that by (intro emits_bind emits_write less) (simp add: k_def)
  moreover have "replicate k b @ replicate (len - k) b = replicate len b"
    by (simp add: k_def flip: replicate_add)
  ultimately show ?case using emits_None by auto
qed

end

subsection \<open>The sinks of the program\<close>

definition bufchain_sink_write :: "size_t \<Rightarrow> 'i bufchain \<Rightarrow> byte list \<Rightarrow> 'i bufchain option" where
  "bufchain_sink_write limit ch data = map_option fst (bufchain_add limit ch data)"

definition bufchain_fits :: "size_t \<Rightarrow> 'i bufchain \<Rightarrow> nat \<Rightarrow> bool" where
  "bufchain_fits limit ch n \<longleftrightarrow>
     grain_len n \<le> unat limit \<and> length (bytes_of ch) + n < 2 ^ 64"

interpretation strbuf_sink: binary_sink "strbuf_BinarySink_write limit" strbuf_ok strbuf_data
    "\<lambda>buf n. strbuf_fits limit buf n \<and> n < 2 ^ 64" for limit
proof (unfold_locales, goal_cases)
  case (1 s n bs)
  then have "length bs < 2 ^ 64" by simp
  then show ?case
    using strbuf_write_succeeds [of s limit n bs] strbuf_write_keeps [of s limit bs] 1 by fastforce
qed

interpretation bufchain_sink: binary_sink "bufchain_sink_write limit" bufchain_ok bytes_of
    "bufchain_fits limit" for limit
proof (unfold_locales, goal_cases)
  case (1 s n bs)
  then have "grain_len (length bs) \<le> unat limit" "unat (bc_size s) + length bs < 2 ^ 64"
    by (auto simp: bufchain_fits_def bufchain_ok_def grain_len_def)
  from bufchain_add_ok [OF 1(1) this] obtain ch' where
    "bufchain_sink_write limit s bs = Some ch'" "bufchain_ok ch'" "bytes_of ch' = bytes_of s @ bs"
    by (auto simp: bufchain_sink_write_def)
  then show ?case using 1 by (auto simp: bufchain_fits_def grain_len_def)
qed

section \<open>Sources\<close>

datatype BinarySourceError = BSE_NO_ERROR | BSE_OUT_OF_DATA | BSE_INVALID

record BinarySource =
  src_data :: "byte list"
  src_pos :: size_t
  src_len :: size_t
  src_err :: BinarySourceError

definition BinarySource_INIT :: "byte list \<Rightarrow> BinarySource" where
  "BinarySource_INIT data =
     \<lparr>src_data = data, src_pos = 0, src_len = of_nat (length data), src_err = BSE_NO_ERROR\<rparr>"

definition data_avail :: "BinarySource \<Rightarrow> size_t \<Rightarrow> bool \<times> BinarySource" where
  "data_avail src wanted =
     (if src_err src \<noteq> BSE_NO_ERROR then (False, src)
      else if wanted \<le> src_len src - src_pos src then (True, src)
      else (False, src\<lparr>src_err := BSE_OUT_OF_DATA\<rparr>))"

text \<open>\<open>here\<close> is the data from the current position on; \<open>consume\<close> takes it and advances.\<close>

definition here :: "BinarySource \<Rightarrow> byte list" where
  "here src = drop (unat (src_pos src)) (src_data src)"

definition advance :: "size_t \<Rightarrow> BinarySource \<Rightarrow> BinarySource" where
  "advance dist src = src\<lparr>src_pos := src_pos src + dist\<rparr>"

definition get_data :: "size_t \<Rightarrow> BinarySource \<Rightarrow> byte list \<times> BinarySource" where
  "get_data wanted src = (case data_avail src wanted of
      (False, src) \<Rightarrow> ([], src)
    | (True, src) \<Rightarrow> (take (unat wanted) (here src), advance wanted src))"

definition get_byte :: "BinarySource \<Rightarrow> byte \<times> BinarySource" where
  "get_byte src = (case data_avail src 1 of
      (False, src) \<Rightarrow> (0, src)
    | (True, src) \<Rightarrow> (here src ! 0, advance 1 src))"

definition get_bool :: "BinarySource \<Rightarrow> bool \<times> BinarySource" where
  "get_bool src = (case data_avail src 1 of
      (False, src) \<Rightarrow> (False, src)
    | (True, src) \<Rightarrow> (here src ! 0 \<noteq> 0, advance 1 src))"

definition get_uint16 :: "BinarySource \<Rightarrow> 32 word \<times> BinarySource" where
  "get_uint16 src = (case data_avail src 2 of
      (False, src) \<Rightarrow> (0, src)
    | (True, src) \<Rightarrow> (ucast (GET_16BIT_MSB_FIRST (here src)), advance 2 src))"

definition get_uint32 :: "BinarySource \<Rightarrow> ulong \<times> BinarySource" where
  "get_uint32 src = (case data_avail src 4 of
      (False, src) \<Rightarrow> (0, src)
    | (True, src) \<Rightarrow> (ucast (GET_32BIT_MSB_FIRST (here src)), advance 4 src))"

definition get_uint64 :: "BinarySource \<Rightarrow> 64 word \<times> BinarySource" where
  "get_uint64 src = (case data_avail src 8 of
      (False, src) \<Rightarrow> (0, src)
    | (True, src) \<Rightarrow> (GET_64BIT_MSB_FIRST (here src), advance 8 src))"

definition get_string :: "BinarySource \<Rightarrow> byte list \<times> BinarySource" where
  "get_string src = (case data_avail src 4 of
      (False, src) \<Rightarrow> ([], src)
    | (True, src) \<Rightarrow>
        (let len = ucast (GET_32BIT_MSB_FIRST (here src)); src = advance 4 src in
         case data_avail src len of
           (False, src) \<Rightarrow> ([], src)
         | (True, src) \<Rightarrow> (take (unat len) (here src), advance len src)))"

fun memchr :: "byte list \<Rightarrow> byte \<Rightarrow> nat \<Rightarrow> nat option" where
  "memchr p c 0 = None"
| "memchr [] c (Suc n) = None"
| "memchr (b # p) c (Suc n) = (if b = c then Some 0 else map_option Suc (memchr p c n))"

definition get_asciz :: "BinarySource \<Rightarrow> byte list \<times> BinarySource" where
  "get_asciz src =
     (if src_err src \<noteq> BSE_NO_ERROR then ([], src)
      else (case memchr (here src) 0 (unat (src_len src - src_pos src)) of
          None \<Rightarrow> ([], src\<lparr>src_err := BSE_OUT_OF_DATA\<rparr>)
        | Some end' \<Rightarrow> (take end' (here src), advance (of_nat (end' + 1)) src)))"

definition get_pstring :: "BinarySource \<Rightarrow> byte list \<times> BinarySource" where
  "get_pstring src = (case data_avail src 1 of
      (False, src) \<Rightarrow> ([], src)
    | (True, src) \<Rightarrow>
        (let len = ucast (here src ! 0); src = advance 1 src in
         case data_avail src len of
           (False, src) \<Rightarrow> ([], src)
         | (True, src) \<Rightarrow> (take (unat len) (here src), advance len src)))"

subsection \<open>Reading as parsing\<close>

text \<open>
  A good source has its position inside its data. \<open>reads g d p\<close>: the function \<open>g\<close> with
  default \<open>d\<close> behaves as the parser \<open>p\<close> of the rest of the data: nothing on an error already
  there, the parsed value and the rest behind it, or the default and the error.
\<close>

definition src_ok :: "BinarySource \<Rightarrow> bool" where
  "src_ok src \<longleftrightarrow> src_pos src \<le> src_len src \<and> unat (src_len src) = length (src_data src)"

definition follows :: "BinarySource \<Rightarrow> BinarySource \<Rightarrow> bool" where
  "follows src src' \<longleftrightarrow> src_ok src' \<and> src_data src' = src_data src \<and> src_pos src \<le> src_pos src'"

definition reads ::
  "(BinarySource \<Rightarrow> 'a \<times> BinarySource) \<Rightarrow> 'a \<Rightarrow> (byte list \<Rightarrow> ('a \<times> byte list) option) \<Rightarrow> bool"
where
  "reads g d p \<longleftrightarrow> (\<forall>src. src_ok src \<longrightarrow>
     (if src_err src \<noteq> BSE_NO_ERROR then g src = (d, src)
      else (case p (here src) of
          None \<Rightarrow> \<exists>src'. g src = (d, src') \<and> src_err src' = BSE_OUT_OF_DATA \<and> follows src src'
        | Some (v, rest) \<Rightarrow> \<exists>src'. g src = (v, src') \<and> src_err src' = BSE_NO_ERROR \<and>
            here src' = rest \<and> follows src src')))"

lemma length_here: "src_ok src \<Longrightarrow> length (here src) = unat (src_len src - src_pos src)"
  by (auto simp: here_def src_ok_def unat_sub word_le_nat_alt)

lemma data_avail_iff:
  "src_ok src \<Longrightarrow> src_err src = BSE_NO_ERROR \<Longrightarrow> data_avail src n =
     (if unat n \<le> length (here src) then (True, src) else (False, src\<lparr>src_err := BSE_OUT_OF_DATA\<rparr>))"
  by (simp add: data_avail_def length_here word_le_nat_alt)

lemma follows_refl: "src_ok src \<Longrightarrow> follows src (src\<lparr>src_err := e\<rparr>)"
  by (simp add: follows_def src_ok_def)

lemma follows_trans: "follows a b \<Longrightarrow> follows b c \<Longrightarrow> follows a c"
  by (auto simp: follows_def)

lemma advance_ok:
  assumes "src_ok src" "unat n \<le> length (here src)"
  shows "follows src (advance n src)" "here (advance n src) = drop (unat n) (here src)"
    "src_err (advance n src) = src_err src" "src_ok (advance n src)"
proof -
  have le: "unat (src_pos src) + unat n \<le> unat (src_len src)"
    using assms by (auto simp: length_here unat_sub src_ok_def word_le_nat_alt)
  then have s: "unat (src_pos src + n) = unat (src_pos src) + unat n"
    using unat_lt64 [of "src_len src"] by (simp add: unat_word_ariths(1))
  show "src_ok (advance n src)"
    using le s assms(1) by (simp add: advance_def src_ok_def word_le_nat_alt)
  then show "follows src (advance n src)"
    using s by (simp add: follows_def advance_def word_le_nat_alt)
  show "here (advance n src) = drop (unat n) (here src)"
    using s by (simp add: here_def advance_def add.commute)
  show "src_err (advance n src) = src_err src" by (simp add: advance_def)
qed

lemma data_avail_err: "src_err src \<noteq> BSE_NO_ERROR \<Longrightarrow> data_avail src n = (False, src)"
  by (simp add: data_avail_def)

text \<open>A fixed number of bytes, handed to a function of them.\<close>

definition fixed :: "nat \<Rightarrow> (byte list \<Rightarrow> 'a) \<Rightarrow> byte list \<Rightarrow> ('a \<times> byte list) option" where
  "fixed n f bs = (if n \<le> length bs then Some (f bs, drop n bs) else None)"

lemma reads_fixed:
  assumes "\<And>src. g src = (case data_avail src w of
      (False, src) \<Rightarrow> (d, src) | (True, src) \<Rightarrow> (f (here src), advance w src))"
  shows "reads g d (fixed (unat w) f)"
  unfolding reads_def fixed_def
  by (auto simp: assms data_avail_err data_avail_iff advance_ok follows_refl)

lemma reads_get_data: "reads (get_data n) [] (fixed (unat n) (take (unat n)))"
  by (rule reads_fixed) (simp add: get_data_def)

lemma reads_get_byte: "reads get_byte 0 (fixed 1 (\<lambda>bs. bs ! 0))"
  using reads_fixed [where g = get_byte and w = 1 and d = 0 and f = "\<lambda>bs. bs ! 0"] by (simp add: get_byte_def)

lemma reads_get_bool: "reads get_bool False (fixed 1 (\<lambda>bs. bs ! 0 \<noteq> 0))"
  using reads_fixed [where g = get_bool and w = 1 and d = False and f = "\<lambda>bs. bs ! 0 \<noteq> 0"] by (simp add: get_bool_def)

lemma reads_get_uint16: "reads get_uint16 0 (fixed 2 (\<lambda>bs. ucast (GET_16BIT_MSB_FIRST bs)))"
  using reads_fixed [where g = get_uint16 and w = 2 and d = 0 and f = "\<lambda>bs. ucast (GET_16BIT_MSB_FIRST bs)"]
  by (simp add: get_uint16_def)

lemma reads_get_uint32: "reads get_uint32 0 (fixed 4 (\<lambda>bs. ucast (GET_32BIT_MSB_FIRST bs)))"
  using reads_fixed [where g = get_uint32 and w = 4 and d = 0 and f = "\<lambda>bs. ucast (GET_32BIT_MSB_FIRST bs)"]
  by (simp add: get_uint32_def)

lemma reads_get_uint64: "reads get_uint64 0 (fixed 8 GET_64BIT_MSB_FIRST)"
  using reads_fixed [where g = get_uint64 and w = 8 and d = 0 and f = GET_64BIT_MSB_FIRST] by (simp add: get_uint64_def)

text \<open>A length, then that many bytes.\<close>

definition counted :: "nat \<Rightarrow> (byte list \<Rightarrow> size_t) \<Rightarrow> byte list \<Rightarrow> (byte list \<times> byte list) option" where
  "counted k f bs =
     (if k \<le> length bs then fixed (unat (f bs)) (take (unat (f bs))) (drop k bs) else None)"

lemma reads_counted:
  assumes "\<And>src. g src = (case data_avail src w of
      (False, src) \<Rightarrow> ([], src)
    | (True, src) \<Rightarrow>
        (let len = f (here src); src = advance w src in
         case data_avail src len of
           (False, src) \<Rightarrow> ([], src)
         | (True, src) \<Rightarrow> (take (unat len) (here src), advance len src)))"
  shows "reads g [] (counted (unat w) f)"
  unfolding reads_def
proof (intro allI impI)
  fix src assume ok: "src_ok src"
  show "if src_err src \<noteq> BSE_NO_ERROR then g src = ([], src)
     else (case counted (unat w) f (here src) of
          None \<Rightarrow> \<exists>src'. g src = ([], src') \<and> src_err src' = BSE_OUT_OF_DATA \<and> follows src src'
        | Some (v, rest) \<Rightarrow> \<exists>src'. g src = (v, src') \<and> src_err src' = BSE_NO_ERROR \<and>
            here src' = rest \<and> follows src src')"
  proof (cases "src_err src = BSE_NO_ERROR \<and> unat w \<le> length (here src)")
    case True
    then have e: "src_err src = BSE_NO_ERROR" and w: "unat w \<le> length (here src)" by auto
    note ad = advance_ok [OF ok w]
    have e1: "src_err (advance w src) = BSE_NO_ERROR" using ad(3) e by simp
    define len where "len = f (here src)"
    show ?thesis
    proof (cases "unat len \<le> length (here (advance w src))")
      case True
      note ad' = advance_ok [OF ad(4) True]
      show ?thesis
        using True e w e1 ad ad' follows_trans [OF ad(1) ad'(1)]
        by (simp add: assms data_avail_iff [OF ok e] data_avail_iff [OF ad(4) e1] counted_def
            fixed_def Let_def flip: len_def)
    next
      case False
      then show ?thesis
        using e w e1 ad follows_trans [OF ad(1) follows_refl [OF ad(4)]]
        by (simp add: assms data_avail_iff [OF ok e] data_avail_iff [OF ad(4) e1] counted_def
            fixed_def Let_def flip: len_def)
    qed
  next
    case False
    then show ?thesis
      using ok by (auto simp: assms data_avail_err data_avail_iff counted_def follows_refl)
  qed
qed

lemma reads_get_string: "reads get_string [] (counted 4 (\<lambda>bs. ucast (GET_32BIT_MSB_FIRST bs)))"
  using reads_counted [where g = get_string and w = 4 and f = "\<lambda>bs. ucast (GET_32BIT_MSB_FIRST bs)"]
  by (simp add: get_string_def)

lemma reads_get_pstring: "reads get_pstring [] (counted 1 (\<lambda>bs. ucast (bs ! 0)))"
  using reads_counted [where g = get_pstring and w = 1 and f = "\<lambda>bs. ucast (bs ! 0)"] by (simp add: get_pstring_def)

text \<open>Up to a NUL.\<close>

definition zterm :: "byte list \<Rightarrow> (byte list \<times> byte list) option" where
  "zterm bs = (if 0 \<in> set bs
     then Some (takeWhile (\<lambda>b. b \<noteq> 0) bs, drop (Suc (length (takeWhile (\<lambda>b. b \<noteq> 0) bs))) bs)
     else None)"

lemma memchr_all: "memchr p 0 (length p) =
    (if 0 \<in> set p then Some (length (takeWhile (\<lambda>b. b \<noteq> 0) p)) else None)"
  by (induction p) auto

lemma takeWhile_take: "take (length (takeWhile P xs)) xs = takeWhile P xs"
  by (metis append_eq_conv_conj takeWhile_dropWhile_id)

lemma length_takeWhile_less: "x \<in> set xs \<Longrightarrow> \<not> P x \<Longrightarrow> length (takeWhile P xs) < length xs"
  by (induction xs) auto

lemma reads_get_asciz: "reads get_asciz [] zterm"
  unfolding reads_def
proof (intro allI impI)
  fix src assume ok: "src_ok src"
  define k where "k = length (takeWhile (\<lambda>b. b \<noteq> 0) (here src))"
  show "if src_err src \<noteq> BSE_NO_ERROR then get_asciz src = ([], src)
     else (case zterm (here src) of
          None \<Rightarrow> \<exists>src'. get_asciz src = ([], src') \<and> src_err src' = BSE_OUT_OF_DATA \<and> follows src src'
        | Some (v, rest) \<Rightarrow> \<exists>src'. get_asciz src = (v, src') \<and> src_err src' = BSE_NO_ERROR \<and>
            here src' = rest \<and> follows src src')"
  proof (cases "src_err src = BSE_NO_ERROR \<and> 0 \<in> set (here src)")
    case True
    then have k: "Suc k \<le> length (here src)"
      using length_takeWhile_less [of 0 "here src" "\<lambda>b. b \<noteq> 0"] by (auto simp: k_def)
    moreover have "length (here src) < 2 ^ 64"
      using unat_lt64 by (simp only: length_here [OF ok])
    ultimately have n: "unat (of_nat (k + 1) :: size_t) = Suc k"
      by (simp add: unat_of_nat del: of_nat_Suc of_nat_add)
    then have le: "unat (of_nat (k + 1) :: size_t) \<le> length (here src)" using k by simp
    note ad = advance_ok [OF ok le]
    have "memchr (here src) 0 (unat (src_len src - src_pos src)) = Some k"
      using True by (simp add: memchr_all k_def flip: length_here [OF ok])
    then show ?thesis
      using True ad n
      by (simp add: get_asciz_def zterm_def takeWhile_take k_def [symmetric])
         (simp add: k_def takeWhile_take)
  next
    case False
    then show ?thesis
      using ok by (auto simp: get_asciz_def zterm_def memchr_all follows_refl
          simp flip: length_here)
  qed
qed

section \<open>Messages\<close>

text \<open>
  A message is a sequence of typed fields, as the protocol code writes and reads them. A
  reader knows the types (and the length of a raw data block), not the values.
\<close>

datatype field =
    FByte byte | FBool bool | FUint16 ulong | FUint32 ulong | FUint64 "64 word"
  | FString "byte list" | FPstring "byte list" | FAsciz "byte list" | FData "byte list"

datatype shape = SByte | SBool | SUint16 | SUint32 | SUint64 | SString | SPstring | SAsciz | SData size_t

fun shape_of :: "field \<Rightarrow> shape" where
  "shape_of (FByte _) = SByte"
| "shape_of (FBool _) = SBool"
| "shape_of (FUint16 _) = SUint16"
| "shape_of (FUint32 _) = SUint32"
| "shape_of (FUint64 _) = SUint64"
| "shape_of (FString _) = SString"
| "shape_of (FPstring _) = SPstring"
| "shape_of (FAsciz _) = SAsciz"
| "shape_of (FData d) = SData (of_nat (length d))"

fun put_field :: "'s writer \<Rightarrow> field \<Rightarrow> 's \<Rightarrow> 's option" where
  "put_field write (FByte b) s = put_byte write b s"
| "put_field write (FBool b) s = put_bool write b s"
| "put_field write (FUint16 v) s = put_uint16 write v s"
| "put_field write (FUint32 v) s = put_uint32 write v s"
| "put_field write (FUint64 v) s = put_uint64 write v s"
| "put_field write (FString d) s = put_string write d s"
| "put_field write (FPstring d) s = map_option snd (put_pstring write d s)"
| "put_field write (FAsciz d) s = put_asciz write d s"
| "put_field write (FData d) s = put_data write d s"

fun put_fields :: "'s writer \<Rightarrow> field list \<Rightarrow> 's \<Rightarrow> 's option" where
  "put_fields write [] s = Some s"
| "put_fields write (f # fs) s = Option.bind (put_field write f s) (put_fields write fs)"

fun get_field :: "shape \<Rightarrow> BinarySource \<Rightarrow> field \<times> BinarySource" where
  "get_field SByte src = map_prod FByte id (get_byte src)"
| "get_field SBool src = map_prod FBool id (get_bool src)"
| "get_field SUint16 src = map_prod (\<lambda>v. FUint16 (ucast v)) id (get_uint16 src)"
| "get_field SUint32 src = map_prod FUint32 id (get_uint32 src)"
| "get_field SUint64 src = map_prod FUint64 id (get_uint64 src)"
| "get_field SString src = map_prod FString id (get_string src)"
| "get_field SPstring src = map_prod FPstring id (get_pstring src)"
| "get_field SAsciz src = map_prod FAsciz id (get_asciz src)"
| "get_field (SData n) src = map_prod FData id (get_data n src)"

fun get_fields :: "shape list \<Rightarrow> BinarySource \<Rightarrow> field list \<times> BinarySource" where
  "get_fields [] src = ([], src)"
| "get_fields (t # ts) src =
     (let (f, src) = get_field t src; (fs, src) = get_fields ts src in (f # fs, src))"

text \<open>The values each field type can carry.\<close>

fun fits_type :: "field \<Rightarrow> bool" where
  "fits_type (FUint16 v) \<longleftrightarrow> unat v < 2 ^ 16"
| "fits_type (FUint32 v) \<longleftrightarrow> unat v < 2 ^ 32"
| "fits_type (FString d) \<longleftrightarrow> length d < 2 ^ 32"
| "fits_type (FPstring d) \<longleftrightarrow> length d \<le> 255"
| "fits_type (FAsciz d) \<longleftrightarrow> 0 \<notin> set d"
| "fits_type (FData d) \<longleftrightarrow> length d < 2 ^ 64"
| "fits_type _ \<longleftrightarrow> True"

fun encoding :: "field \<Rightarrow> byte list" where
  "encoding (FByte b) = [b]"
| "encoding (FBool b) = [if b then 1 else 0]"
| "encoding (FUint16 v) = PUT_16BIT_MSB_FIRST (ucast v)"
| "encoding (FUint32 v) = PUT_32BIT_MSB_FIRST (ucast v)"
| "encoding (FUint64 v) = PUT_64BIT_MSB_FIRST v"
| "encoding (FString d) = PUT_32BIT_MSB_FIRST (of_nat (length d)) @ d"
| "encoding (FPstring d) = of_nat (length d) # d"
| "encoding (FAsciz d) = d @ [0]"
| "encoding (FData d) = d"

definition encodings :: "field list \<Rightarrow> byte list" where
  "encodings fs = concat (map encoding fs)"

context binary_sink
begin

lemma emits_ext: "emits f bs \<Longrightarrow> (\<And>s. g s = f s) \<Longrightarrow> emits g bs"
  by (simp add: emits_def)

lemma emits_pstring:
  assumes "length d \<le> 255"
  shows "emits (\<lambda>s. map_option snd (put_pstring wr d s)) (of_nat (length d) # d)"
proof -
  have "emits (\<lambda>s. Option.bind (put_byte wr (of_nat (length d)) s) (\<lambda>s. wr s d)) ([of_nat (length d)] @ d)"
    by (rule emits_bind [OF emits_byte emits_write])
  moreover have "map_option snd (put_pstring wr d s) =
      Option.bind (put_byte wr (of_nat (length d)) s) (\<lambda>s. wr s d)" for s
    using assms by (cases "put_byte wr (of_nat (length d)) s")
      (simp_all add: put_pstring_def Let_def option.map_comp comp_def option.map_ident)
  ultimately show ?thesis by (auto intro: emits_ext)
qed

lemma emits_field:
  assumes "fits_type f"
  shows "emits (put_field wr f) (encoding f)"
proof (cases f)
  case (FByte b)
  then show ?thesis by (auto intro: emits_ext [OF emits_byte])
next
  case (FBool b)
  then show ?thesis by (simp only: encoding.simps) (rule emits_ext [OF emits_bool], simp)
next
  case (FUint16 v)
  then show ?thesis by (simp only: encoding.simps) (rule emits_ext [OF emits_uint16], simp)
next
  case (FUint32 v)
  then show ?thesis by (simp only: encoding.simps) (rule emits_ext [OF emits_uint32], simp)
next
  case (FUint64 v)
  then show ?thesis by (simp only: encoding.simps) (rule emits_ext [OF emits_uint64], simp)
next
  case (FString d)
  with assms have "length d < 2 ^ 32" by simp
  with FString show ?thesis by (simp only: encoding.simps) (rule emits_ext [OF emits_string], simp_all)
next
  case (FPstring d)
  with assms have "length d \<le> 255" by simp
  with FPstring show ?thesis by (simp only: encoding.simps) (rule emits_ext [OF emits_pstring], simp_all)
next
  case (FAsciz d)
  then show ?thesis by (simp only: encoding.simps) (rule emits_ext [OF emits_asciz], simp)
next
  case (FData d)
  then show ?thesis by (simp only: encoding.simps) (rule emits_ext [OF emits_data], simp)
qed

lemma emits_fields: "\<forall>f \<in> set fs. fits_type f \<Longrightarrow> emits (put_fields wr fs) (encodings fs)"
proof (induction fs)
  case Nil
  have "put_fields wr [] = Some" by auto
  then show ?case using emits_None by (simp add: encodings_def)
next
  case (Cons f fs)
  have "put_fields wr (f # fs) = (\<lambda>s. Option.bind (put_field wr f s) (put_fields wr fs))" by auto
  then show ?case using emits_bind [OF emits_field Cons.IH, of f] Cons.prems by (simp add: encodings_def)
qed

end

section \<open>What is read back\<close>

fun parse :: "shape \<Rightarrow> byte list \<Rightarrow> (field \<times> byte list) option" where
  "parse SByte bs = map_option (map_prod FByte id) (fixed 1 (\<lambda>bs. bs ! 0) bs)"
| "parse SBool bs = map_option (map_prod FBool id) (fixed 1 (\<lambda>bs. bs ! 0 \<noteq> 0) bs)"
| "parse SUint16 bs = map_option (map_prod (\<lambda>v. FUint16 (ucast v)) id)
     (fixed 2 (\<lambda>bs. ucast (GET_16BIT_MSB_FIRST bs) :: 32 word) bs)"
| "parse SUint32 bs = map_option (map_prod FUint32 id) (fixed 4 (\<lambda>bs. ucast (GET_32BIT_MSB_FIRST bs)) bs)"
| "parse SUint64 bs = map_option (map_prod FUint64 id) (fixed 8 GET_64BIT_MSB_FIRST bs)"
| "parse SString bs = map_option (map_prod FString id) (counted 4 (\<lambda>bs. ucast (GET_32BIT_MSB_FIRST bs)) bs)"
| "parse SPstring bs = map_option (map_prod FPstring id) (counted 1 (\<lambda>bs. ucast (bs ! 0)) bs)"
| "parse SAsciz bs = map_option (map_prod FAsciz id) (zterm bs)"
| "parse (SData n) bs = map_option (map_prod FData id) (fixed (unat n) (take (unat n)) bs)"

fun default :: "shape \<Rightarrow> field" where
  "default SByte = FByte 0" | "default SBool = FBool False" | "default SUint16 = FUint16 0"
| "default SUint32 = FUint32 0" | "default SUint64 = FUint64 0" | "default SString = FString []"
| "default SPstring = FPstring []" | "default SAsciz = FAsciz []" | "default (SData _) = FData []"

lemma reads_map:
  assumes "reads g d p"
  shows "reads (\<lambda>src. map_prod h id (g src)) (h d) (\<lambda>bs. map_option (map_prod h id) (p bs))"
  using assms by (fastforce simp: reads_def split: option.splits)

lemma reads_ext:
  assumes "reads g' d p'" "\<And>s. g s = g' s" "\<And>b. p b = p' b"
  shows "reads g d p"
proof -
  have "g = g'" "p = p'" using assms(2,3) by auto
  then show ?thesis using assms(1) by simp
qed

lemma reads_get_field: "reads (get_field t) (default t) (parse t)"
proof (cases t)
  case SByte
  show ?thesis unfolding SByte default.simps
    by (rule reads_ext [OF reads_map [OF reads_get_byte]]) simp_all
next
  case SBool
  show ?thesis unfolding SBool default.simps
    by (rule reads_ext [OF reads_map [OF reads_get_bool]]) simp_all
next
  case SUint16
  have "FUint16 0 = (\<lambda>v :: 32 word. FUint16 (ucast v)) 0" by simp
  then show ?thesis unfolding SUint16 default.simps
    by (simp only:) (rule reads_ext [OF reads_map [OF reads_get_uint16]], simp_all)
next
  case SUint32
  show ?thesis unfolding SUint32 default.simps
    by (rule reads_ext [OF reads_map [OF reads_get_uint32]]) simp_all
next
  case SUint64
  show ?thesis unfolding SUint64 default.simps
    by (rule reads_ext [OF reads_map [OF reads_get_uint64]]) simp_all
next
  case SString
  show ?thesis unfolding SString default.simps
    by (rule reads_ext [OF reads_map [OF reads_get_string]]) simp_all
next
  case SPstring
  show ?thesis unfolding SPstring default.simps
    by (rule reads_ext [OF reads_map [OF reads_get_pstring]]) simp_all
next
  case SAsciz
  show ?thesis unfolding SAsciz default.simps
    by (rule reads_ext [OF reads_map [OF reads_get_asciz]]) simp_all
next
  case (SData n)
  show ?thesis unfolding SData default.simps
    by (rule reads_ext [OF reads_map [OF reads_get_data]]) simp_all
qed

subsection \<open>Encoded fields parse back, cut ones do not\<close>

lemma unat_ucast32: "unat (ucast (of_nat n :: 32 word) :: 64 word) = n" if "n < 2 ^ 32"
  using that by (simp add: unsigned_ucast_eq unat_of_nat take_bit_nat_eq_self)

lemma unat_ucast8: "unat (ucast (of_nat n :: byte) :: 64 word) = n" if "n \<le> 255"
  using that by (simp add: unsigned_ucast_eq unat_of_nat take_bit_nat_eq_self)

lemma ucast_down_up: "unat (v :: 64 word) < 2 ^ LENGTH('b) \<Longrightarrow> (ucast (ucast v :: 'b::len word) :: 64 word) = v"
  by (rule word_unat_eq_iff [THEN iffD2])
     (simp add: unsigned_ucast_eq unsigned_take_bit_eq take_bit_nat_eq_self)

lemma ucast_16_32: "(ucast (ucast (w :: 16 word) :: 32 word) :: 64 word) = ucast w"
  by (rule bit_word_eqI) (auto simp: bit_simps dest: bit_imp_le_length)

lemma parse_encoding:
  assumes "fits_type f"
  shows "parse (shape_of f) (encoding f @ rest) = Some (f, rest)"
proof (cases f)
  case (FUint16 v)
  have "ucast (ucast (ucast v :: 16 word) :: 32 word) = v"
    using assms FUint16 ucast_down_up [of v, where 'b = 16]
    by (simp add: ucast_16_32)
  then show ?thesis using FUint16 by (simp add: fixed_def byte_simps)
next
  case (FUint32 v)
  then show ?thesis
    using assms ucast_down_up [of v, where 'b = 32] by (simp add: fixed_def byte_simps)
next
  case (FUint64 v)
  then show ?thesis by (simp add: fixed_def byte_simps)
next
  case (FString d)
  then show ?thesis
    using assms unat_ucast32 [of "length d"] by (simp add: counted_def fixed_def byte_simps)
next
  case (FPstring d)
  then show ?thesis
    using assms unat_ucast8 [of "length d"] by (simp add: counted_def fixed_def)
next
  case (FAsciz d)
  have "takeWhile (\<lambda>b. b \<noteq> 0) (d @ 0 # rest) = d"
    using assms FAsciz by (subst takeWhile_append2) auto
  then show ?thesis using FAsciz by (simp add: zterm_def)
next
  case (FData d)
  then show ?thesis using assms by (simp add: fixed_def unat_of_nat)
qed (simp_all add: fixed_def)

lemma parse_cut:
  assumes "fits_type f" "k < length (encoding f)"
  shows "parse (shape_of f) (take k (encoding f)) = None"
proof (cases f)
  case (FString d)
  have "take k (PUT_32BIT_MSB_FIRST (of_nat (length d)) @ d) =
      PUT_32BIT_MSB_FIRST (of_nat (length d)) @ take (k - 4) d" if "4 \<le> k"
    using that by (simp add: byte_simps)
  then show ?thesis
    using assms FString unat_ucast32 [of "length d"]
    by (cases "4 \<le> k") (auto simp: counted_def fixed_def byte_simps min_def)
next
  case (FPstring d)
  then show ?thesis
    using assms unat_ucast8 [of "length d"]
    by (cases k) (auto simp: counted_def fixed_def)
next
  case (FAsciz d)
  then have "take k (encoding f) = take k d" using assms by simp
  moreover have "0 \<notin> set (take k d)" using assms FAsciz by (auto dest: in_set_takeD)
  ultimately show ?thesis using FAsciz by (simp add: zterm_def)
next
  case (FData d)
  then show ?thesis using assms by (simp add: fixed_def unat_of_nat)
qed (use assms in \<open>simp_all add: fixed_def byte_simps\<close>)

subsection \<open>Whole messages\<close>

lemma get_field_err: "src_ok src \<Longrightarrow> src_err src \<noteq> BSE_NO_ERROR \<Longrightarrow> get_field t src = (default t, src)"
  using reads_get_field [of t] by (simp add: reads_def)

lemma get_fields_err:
  "src_ok src \<Longrightarrow> src_err src \<noteq> BSE_NO_ERROR \<Longrightarrow> get_fields ts src = (map default ts, src)"
  by (induction ts) (simp_all add: get_field_err)

lemma get_field_Some:
  assumes "src_ok src" "src_err src = BSE_NO_ERROR" "parse t (here src) = Some (v, rest)"
  obtains src' where "get_field t src = (v, src')" "src_err src' = BSE_NO_ERROR"
    "here src' = rest" "follows src src'"
  using assms reads_get_field [of t] unfolding reads_def by fastforce

lemma get_field_None:
  assumes "src_ok src" "src_err src = BSE_NO_ERROR" "parse t (here src) = None"
  obtains src' where "get_field t src = (default t, src')" "src_err src' = BSE_OUT_OF_DATA"
    "follows src src'"
  using assms reads_get_field [of t] unfolding reads_def by fastforce

lemma get_field_follows: "src_ok src \<Longrightarrow> follows src (snd (get_field t src))"
proof -
  assume ok: "src_ok src"
  show ?thesis
  proof (cases "src_err src = BSE_NO_ERROR")
    case True
    show ?thesis
    proof (cases "parse t (here src)")
      case None
      then show ?thesis using get_field_None [OF ok True None] by (metis snd_conv)
    next
      case (Some r)
      obtain v rest where "r = (v, rest)" by force
      with Some have p: "parse t (here src) = Some (v, rest)" by simp
      show ?thesis using get_field_Some [OF ok True p] by (metis snd_conv)
    qed
  next
    case False
    then show ?thesis using ok by (simp add: get_field_err follows_def)
  qed
qed

lemma get_fields_follows: "src_ok src \<Longrightarrow> follows src (snd (get_fields ts src))"
proof (induction ts arbitrary: src)
  case Nil
  then show ?case by (simp add: follows_def)
next
  case (Cons t ts)
  have f: "follows src (snd (get_field t src))" by (rule get_field_follows [OF Cons.prems])
  then have "src_ok (snd (get_field t src))" by (simp add: follows_def)
  from follows_trans [OF f Cons.IH [OF this]] show ?case
    by (simp add: case_prod_unfold Let_def)
qed

lemma get_fields_encodings:
  assumes "\<forall>f \<in> set fs. fits_type f" "src_ok src" "src_err src = BSE_NO_ERROR"
    "here src = encodings fs @ rest"
  shows "\<exists>src'. get_fields (map shape_of fs) src = (fs, src') \<and> src_err src' = BSE_NO_ERROR \<and>
    here src' = rest \<and> src_ok src'"
  using assms
proof (induction fs arbitrary: src)
  case Nil
  then show ?case by (simp add: encodings_def)
next
  case (Cons f fs)
  have "parse (shape_of f) (here src) = Some (f, encodings fs @ rest)"
    using Cons.prems parse_encoding [of f "encodings fs @ rest"] by (simp add: encodings_def)
  from get_field_Some [OF Cons.prems(2,3) this] obtain src1 where
    1: "get_field (shape_of f) src = (f, src1)" "src_err src1 = BSE_NO_ERROR"
      "here src1 = encodings fs @ rest" "follows src src1" .
  then have "src_ok src1" by (simp add: follows_def)
  from Cons.IH [OF _ this 1(2,3)] Cons.prems(1) 1(1) show ?case by auto
qed

lemma get_fields_cut:
  assumes "\<forall>f \<in> set fs. fits_type f" "src_ok src" "src_err src = BSE_NO_ERROR"
    "here src = take k (encodings fs)" "k < length (encodings fs)"
  shows "src_err (snd (get_fields (map shape_of fs) src)) = BSE_OUT_OF_DATA"
  using assms
proof (induction fs arbitrary: src k)
  case Nil
  then show ?case by (simp add: encodings_def)
next
  case (Cons f fs)
  let ?n = "length (encoding f)"
  show ?case
  proof (cases "k < ?n")
    case True
    then have "parse (shape_of f) (here src) = None"
      using Cons.prems parse_cut [of f k] by (simp add: encodings_def)
    from get_field_None [OF Cons.prems(2,3) this] obtain src1 where
      1: "get_field (shape_of f) src = (default (shape_of f), src1)" "src_err src1 = BSE_OUT_OF_DATA"
        "follows src src1" .
    then have "src_ok src1" by (simp add: follows_def)
    then show ?thesis using 1 by (simp add: get_fields_err)
  next
    case False
    then have h: "here src = encoding f @ take (k - ?n) (encodings fs)"
      using Cons.prems(4) by (simp add: encodings_def)
    then have "parse (shape_of f) (here src) = Some (f, take (k - ?n) (encodings fs))"
      using Cons.prems(1) parse_encoding [of f] by simp
    from get_field_Some [OF Cons.prems(2,3) this] obtain src1 where
      1: "get_field (shape_of f) src = (f, src1)" "src_err src1 = BSE_NO_ERROR"
        "here src1 = take (k - ?n) (encodings fs)" "follows src src1" .
    then have ok: "src_ok src1" by (simp add: follows_def)
    have "k - ?n < length (encodings fs)"
      using Cons.prems(5) False by (simp add: encodings_def)
    from Cons.IH [OF _ ok 1(2,3) this] Cons.prems(1) 1(1) show ?thesis
      by (simp add: case_prod_unfold Let_def)
  qed
qed

lemma INIT_ok:
  assumes "length data < 2 ^ 64"
  shows "src_ok (BinarySource_INIT data)" "src_err (BinarySource_INIT data) = BSE_NO_ERROR"
    "here (BinarySource_INIT data) = data"
  using assms by (simp_all add: BinarySource_INIT_def src_ok_def here_def unat_of_nat)

section \<open>Properties\<close>

text \<open>A small message for the witnesses.\<close>

definition hello :: "field list" where
  "hello = [FByte 20, FUint32 70000, FString [104, 105], FBool True, FAsciz [7]]"

lemma hello_fits: "\<forall>f \<in> set hello. fits_type f" "length (encodings hello) = 14"
  by (simp_all add: hello_def encodings_def byte_simps)

lemma new_strbuf: "\<exists>buf. strbuf_new_general 100000 False = Some buf"
proof -
  obtain s where s: "safemalloc 100000 512 1 0 = Some s"
    using safemalloc_succeeds [of 512 100000] by auto
  have "512 \<le> length s" using safemalloc_block(1) [OF s] by simp
  then have "\<exists>s'. poke s 0 [0] = Some s'" using poke_ok [of 0 "[0]" s] by auto
  then show ?thesis using s by (auto simp: strbuf_new_general_def)
qed

text \<open>
  C11: round trip through a \<open>strbuf\<close>. Any message, of any fields in any order, with values
  their types can carry, written to a new buffer with the \<open>put_\<close> functions and read with
  the \<open>get_\<close> functions of the same types comes back value for value, with no error and
  nothing left over.
\<close>

theorem marshal_roundtrip:
  assumes "\<forall>f \<in> set fs. fits_type f" "strbuf_new_general limit nm = Some buf"
    and "strbuf_fits limit buf (length (encodings fs))"
  shows "\<exists>buf' src'. put_fields (strbuf_BinarySink_write limit) fs buf = Some buf' \<and>
    get_fields (map shape_of fs) (BinarySource_INIT (strbuf_data buf')) = (fs, src') \<and>
    src_err src' = BSE_NO_ERROR \<and> here src' = []"
proof -
  note new = strbuf_new_ok [OF assms(2)]
  have len: "length (encodings fs) < 2 ^ 64"
    using assms(3) by (simp add: strbuf_fits_def Let_def INT_MAX_def)
  obtain buf' where b: "put_fields (strbuf_BinarySink_write limit) fs buf = Some buf'"
      "strbuf_data buf' = encodings fs"
    using strbuf_sink.emits_fields [OF assms(1), of limit] new assms(3) len
    unfolding strbuf_sink.emits_def by fastforce
  show ?thesis
    using get_fields_encodings [OF assms(1) INIT_ok(1,2), of "encodings fs" "[]"] INIT_ok(3) len b by auto
qed

theorem marshal_roundtrip_witness:
  "\<exists>buf buf' src'. strbuf_new_general 100000 False = Some buf \<and>
     put_fields (strbuf_BinarySink_write 100000) hello buf = Some buf' \<and>
     get_fields [SByte, SUint32, SString, SBool, SAsciz] (BinarySource_INIT (strbuf_data buf')) = (hello, src')"
proof -
  obtain buf where b: "strbuf_new_general 100000 False = Some buf" using new_strbuf ..
  have "strbuf_fits 100000 buf (length (encodings hello))"
    using strbuf_new_ok(3) [OF b] hello_fits(2) by (simp add: strbuf_fits_def Let_def INT_MAX_def)
  from marshal_roundtrip [OF hello_fits(1) b this] b show ?thesis
    by (auto simp: hello_def)
qed

text \<open>
  the same through a \<open>bufchain\<close>: a message marshalled into a chain, taken off it in one
  piece and unmarshalled is the message, and the chain is empty again.
\<close>

theorem bufchain_carries_messages:
  assumes "\<forall>f \<in> set fs. fits_type f" "bufchain_fits limit (bufchain_init :: 'i bufchain) (length (encodings fs))"
    and "length (encodings fs) < 2 ^ 31"
  shows "\<exists>ch :: 'i bufchain. \<exists>data ch' src'. put_fields (bufchain_sink_write limit) fs bufchain_init = Some ch \<and>
    bufchain_fetch_consume ch (bufchain_size ch) = Some (data, ch') \<and> bytes_of ch' = [] \<and>
    get_fields (map shape_of fs) (BinarySource_INIT data) = (fs, src') \<and> src_err src' = BSE_NO_ERROR"
proof -
  obtain ch :: "'i bufchain" where ch: "put_fields (bufchain_sink_write limit) fs bufchain_init = Some ch"
      "bufchain_ok ch" "bytes_of ch = encodings fs"
    using bufchain_sink.emits_fields [OF assms(1), of limit] bufchain_init_ok assms(2)
    unfolding bufchain_sink.emits_def by fastforce
  have n: "unat (bufchain_size ch) = length (encodings fs)"
    using ch(2,3) by (simp add: bufchain_ok_def bufchain_size_def)
  obtain ch' where "bufchain_fetch_consume ch (bufchain_size ch) = Some (encodings fs, ch')" "bytes_of ch' = []"
    using bufchain_fetch_consume_ok [OF ch(2), of "bufchain_size ch"] n ch(3) assms(3) by auto
  then show ?thesis
    using ch(1) get_fields_encodings [OF assms(1) INIT_ok(1,2), of "encodings fs" "[]"]
      INIT_ok(3) [of "encodings fs"] assms(3) by auto
qed

theorem bufchain_carries_messages_witness:
  "\<exists>ch :: unit bufchain. \<exists>data ch' src'. put_fields (bufchain_sink_write 4096) hello bufchain_init = Some ch \<and>
     bufchain_fetch_consume ch (bufchain_size ch) = Some (data, ch') \<and>
     get_fields (map shape_of hello) (BinarySource_INIT data) = (hello, src')"
proof -
  have "bufchain_fits 4096 (bufchain_init :: unit bufchain) (length (encodings hello))"
    by (simp add: bufchain_fits_def hello_fits bufchain_init_ok grain_len_def SIZEOF_GRANULE_def
        BUFFER_MIN_GRANULE_def)
  from bufchain_carries_messages [OF hello_fits(1) this] hello_fits(2) show ?thesis by auto
qed

text \<open>
  C12: a cut message is always noticed. However few bytes are missing at the end of a
  marshalled message, and whichever field they cut, reading it sets the error.
\<close>

theorem truncation_detected:
  assumes "\<forall>f \<in> set fs. fits_type f" "k < length (encodings fs)" "length (encodings fs) < 2 ^ 64"
  shows "src_err (snd (get_fields (map shape_of fs) (BinarySource_INIT (take k (encodings fs))))) =
    BSE_OUT_OF_DATA"
proof -
  have "length (take k (encodings fs)) < 2 ^ 64" using assms by simp
  from get_fields_cut [OF assms(1) INIT_ok [OF this] assms(2)] show ?thesis .
qed

theorem truncation_detected_witness:
  "src_err (snd (get_fields (map shape_of hello) (BinarySource_INIT (take 9 (encodings hello))))) = BSE_OUT_OF_DATA"
  using truncation_detected [OF hello_fits(1), of 9] hello_fits(2) by simp

text \<open>
  C13: reading is safe on any input. Whatever fields a client asks for, of whatever bytes, the
  position only moves forward and never past the end of the data, the data is
  unchanged, and after an error every read returns its default and changes nothing.
\<close>

theorem source_safe:
  assumes "src_ok src"
  shows "src_ok (snd (get_fields ts src)) \<and> src_data (snd (get_fields ts src)) = src_data src \<and>
    src_pos src \<le> src_pos (snd (get_fields ts src)) \<and>
    (src_err src \<noteq> BSE_NO_ERROR \<longrightarrow> get_fields ts src = (map default ts, src))"
  using get_fields_follows [OF assms, of ts] get_fields_err [OF assms, of ts]
  by (auto simp: follows_def)

theorem source_safe_witness:
  "src_ok (snd (get_fields [SString, SUint64] (BinarySource_INIT [0, 0, 0, 9, 1]))) \<and>
   src_data (snd (get_fields [SString, SUint64] (BinarySource_INIT [0, 0, 0, 9, 1]))) = [0, 0, 0, 9, 1]"
  using source_safe [OF INIT_ok(1), of "[0, 0, 0, 9, 1]" "[SString, SUint64]"]
  by (simp add: BinarySource_INIT_def)

end
