(* ===== verification/Telnet.thy ===== *)
theory Telnet
  imports Bytes
begin

text \<open>
  The Telnet backend, \<open>putty-src/telnet.c\<close>: option negotiation, the reader's state
  machine, subnegotiations, and what is sent.

  The record \<open>telnet\<close> has the fields of \<open>struct Telnet\<close> that the protocol uses. What the
  code does to the socket, the seat and the line discipline is appended to \<open>t_out\<close> as an
  event, in order. \<open>t_net\<close> and \<open>t_seat\<close> stand for the socket and the seat: the backlog they
  return, as a function of the events so far. \<open>t_s\<close> is \<open>telnet->s != NULL\<close>. The settings
  read from the \<open>Conf\<close> are the record \<open>t_conf\<close>. Bytes and option codes (C \<open>int\<close>s from
  0 to 255) are \<open>byte\<close>s. Log messages are left out.
\<close>

section \<open>Constants and option tables\<close>

definition IAC :: byte where "IAC = 255"
definition DONT :: byte where "DONT = 254"
definition DO :: byte where "DO = 253"
definition WONT :: byte where "WONT = 252"
definition WILL :: byte where "WILL = 251"
definition SB :: byte where "SB = 250"
definition SE :: byte where "SE = 240"
definition DM :: byte where "DM = 242"
definition CR :: byte where "CR = 13"
definition LF :: byte where "LF = 10"
definition NUL :: byte where "NUL = 0"

definition TELOPT_BINARY :: byte where "TELOPT_BINARY = 0"
definition TELOPT_ECHO :: byte where "TELOPT_ECHO = 1"
definition TELOPT_SGA :: byte where "TELOPT_SGA = 3"
definition TELOPT_TTYPE :: byte where "TELOPT_TTYPE = 24"
definition TELOPT_NAWS :: byte where "TELOPT_NAWS = 31"
definition TELOPT_TSPEED :: byte where "TELOPT_TSPEED = 32"
definition TELOPT_OLD_ENVIRON :: byte where "TELOPT_OLD_ENVIRON = 36"
definition TELOPT_NEW_ENVIRON :: byte where "TELOPT_NEW_ENVIRON = 39"

definition TELQUAL_IS :: byte where "TELQUAL_IS = 0"
definition TELQUAL_SEND :: byte where "TELQUAL_SEND = 1"
definition BSD_VAR :: byte where "BSD_VAR = 1"
definition BSD_VALUE :: byte where "BSD_VALUE = 0"
definition RFC_VAR :: byte where "RFC_VAR = 0"
definition RFC_VALUE :: byte where "RFC_VALUE = 1"

lemmas cmd_defs = IAC_def DONT_def DO_def WONT_def WILL_def SB_def SE_def DM_def CR_def LF_def NUL_def
lemmas telopt_defs =
  TELOPT_BINARY_def TELOPT_ECHO_def TELOPT_SGA_def TELOPT_TTYPE_def TELOPT_NAWS_def
  TELOPT_TSPEED_def TELOPT_OLD_ENVIRON_def TELOPT_NEW_ENVIRON_def

datatype optindex =
    OPTINDEX_NAWS | OPTINDEX_TSPEED | OPTINDEX_TTYPE | OPTINDEX_OENV | OPTINDEX_NENV
  | OPTINDEX_ECHO | OPTINDEX_WE_SGA | OPTINDEX_THEY_SGA | OPTINDEX_WE_BIN | OPTINDEX_THEY_BIN

datatype opt_state = REQUESTED | ACTIVE | INACTIVE | REALLY_INACTIVE

record Opt =
  o_send :: byte
  o_nsend :: byte
  o_ack :: byte
  o_nak :: byte
  o_option :: byte
  o_index :: optindex
  o_initial :: opt_state

definition we :: "byte \<Rightarrow> optindex \<Rightarrow> opt_state \<Rightarrow> Opt" where
  "we code i st = \<lparr>o_send = WILL, o_nsend = WONT, o_ack = DO, o_nak = DONT, o_option = code,
     o_index = i, o_initial = st\<rparr>"

definition they :: "byte \<Rightarrow> optindex \<Rightarrow> opt_state \<Rightarrow> Opt" where
  "they code i st = \<lparr>o_send = DO, o_nsend = DONT, o_ack = WILL, o_nak = WONT, o_option = code,
     o_index = i, o_initial = st\<rparr>"

definition o_naws :: Opt where "o_naws = we TELOPT_NAWS OPTINDEX_NAWS REQUESTED"
definition o_tspeed :: Opt where "o_tspeed = we TELOPT_TSPEED OPTINDEX_TSPEED REQUESTED"
definition o_ttype :: Opt where "o_ttype = we TELOPT_TTYPE OPTINDEX_TTYPE REQUESTED"
definition o_oenv :: Opt where "o_oenv = we TELOPT_OLD_ENVIRON OPTINDEX_OENV INACTIVE"
definition o_nenv :: Opt where "o_nenv = we TELOPT_NEW_ENVIRON OPTINDEX_NENV REQUESTED"
definition o_echo :: Opt where "o_echo = they TELOPT_ECHO OPTINDEX_ECHO REQUESTED"
definition o_we_sga :: Opt where "o_we_sga = we TELOPT_SGA OPTINDEX_WE_SGA REQUESTED"
definition o_they_sga :: Opt where "o_they_sga = they TELOPT_SGA OPTINDEX_THEY_SGA REQUESTED"
definition o_we_bin :: Opt where "o_we_bin = we TELOPT_BINARY OPTINDEX_WE_BIN INACTIVE"
definition o_they_bin :: Opt where "o_they_bin = they TELOPT_BINARY OPTINDEX_THEY_BIN INACTIVE"

definition opts :: "Opt list" where
  "opts = [o_naws, o_tspeed, o_ttype, o_oenv, o_nenv, o_echo, o_we_sga, o_they_sga, o_we_bin, o_they_bin]"

lemmas opt_defs =
  o_naws_def o_tspeed_def o_ttype_def o_oenv_def o_nenv_def o_echo_def o_we_sga_def
  o_they_sga_def o_we_bin_def o_they_bin_def

section \<open>State\<close>

datatype tstate =
    TOP_LEVEL | SEENIAC | SEENWILL | SEENWONT | SEENDO | SEENDONT
  | SEENSB | SUBNEGOT | SUBNEG_IAC | SEENCR

datatype event =
    Write "byte list" | WriteOob "byte list" | Stdout "byte list" | Frozen bool
  | LdiscUpdate | Close | RemoteExit | Fatal "byte list"

record tconf =
  termspeed :: "byte list"
  termtype :: "byte list"
  environmt :: "(byte list \<times> byte list) list"
  username :: "byte list option"
  rfc_environ :: bool
  passive_telnet :: bool

record telnet =
  t_s :: bool
  closed_on_socket_error :: bool
  has_ldisc :: bool
  term_width :: "32 word"
  term_height :: "32 word"
  opt_states :: "optindex \<Rightarrow> opt_state"
  echoing :: bool
  editing :: bool
  activated :: bool
  bufsize :: size_t
  in_synch :: bool
  sb_opt :: byte
  sb_buf :: "byte list"
  session_started :: bool
  t_state :: tstate
  t_conf :: tconf
  t_net :: "event list \<Rightarrow> size_t"
  t_seat :: "event list \<Rightarrow> size_t"
  t_out :: "event list"

definition TELNET_MAX_BACKLOG :: size_t where "TELNET_MAX_BACKLOG = 4096"

definition emit :: "event \<Rightarrow> telnet \<Rightarrow> telnet" where
  "emit e t = t\<lparr>t_out := t_out t @ [e]\<rparr>"

definition sk_write :: "byte list \<Rightarrow> telnet \<Rightarrow> telnet" where
  "sk_write b t = (let out = t_out t @ [Write b] in t\<lparr>t_out := out, bufsize := t_net t out\<rparr>)"

definition sk_write_oob :: "byte list \<Rightarrow> telnet \<Rightarrow> telnet" where
  "sk_write_oob b t = (let out = t_out t @ [WriteOob b] in t\<lparr>t_out := out, bufsize := t_net t out\<rparr>)"

definition c_write :: "byte list \<Rightarrow> telnet \<Rightarrow> telnet" where
  "c_write buf t =
     (let out = t_out t @ [Stdout buf]; backlog = t_seat t out
      in emit (Frozen (backlog > TELNET_MAX_BACKLOG)) (t\<lparr>t_out := out\<rparr>))"

section \<open>Option negotiation\<close>

definition opt_is :: "telnet \<Rightarrow> Opt \<Rightarrow> opt_state" where
  "opt_is t o' = opt_states t (o_index o')"

definition set_opt :: "Opt \<Rightarrow> opt_state \<Rightarrow> telnet \<Rightarrow> telnet" where
  "set_opt o' st t = t\<lparr>opt_states := (opt_states t)(o_index o' := st)\<rparr>"

definition send_opt :: "byte \<Rightarrow> byte \<Rightarrow> telnet \<Rightarrow> telnet" where
  "send_opt cmd option t = sk_write [IAC, cmd, option] t"

definition deactivate_option :: "Opt \<Rightarrow> telnet \<Rightarrow> telnet" where
  "deactivate_option o' t =
     set_opt o' REALLY_INACTIVE
       (if opt_is t o' = REQUESTED \<or> opt_is t o' = ACTIVE then send_opt (o_nsend o') (o_option o') t
        else t)"

text \<open>The minimum options, requested once if they are not on when the first option changes.\<close>

definition request_if_inactive :: "Opt \<Rightarrow> telnet \<Rightarrow> telnet" where
  "request_if_inactive o' t =
     (if opt_is t o' = INACTIVE then send_opt (o_send o') (o_option o') (set_opt o' REQUESTED t)
      else t)"

definition option_side_effects :: "Opt \<Rightarrow> bool \<Rightarrow> telnet \<Rightarrow> telnet" where
  "option_side_effects o' enabled t =
     (let t = (if o_option o' = TELOPT_ECHO \<and> o_send o' = DO then t\<lparr>echoing := \<not> enabled\<rparr>
               else if o_option o' = TELOPT_SGA \<and> o_send o' = DO then t\<lparr>editing := \<not> enabled\<rparr>
               else t);
          t = (if has_ldisc t then emit LdiscUpdate t else t)
      in if \<not> activated t then
           (request_if_inactive o_they_sga
             (request_if_inactive o_we_sga (request_if_inactive o_echo t)))\<lparr>activated := True\<rparr>
         else t)"

text \<open>\<open>telnet_size\<close>; a byte of the size that happens to be IAC is doubled.\<close>

definition esc :: "byte \<Rightarrow> byte list" where
  "esc b = (if b = IAC then [b, IAC] else [b])"

definition naws_msg :: "32 word \<Rightarrow> 32 word \<Rightarrow> byte list" where
  "naws_msg width height =
     [IAC, SB, TELOPT_NAWS] @
     esc (ucast (drop_bit 8 width)) @ esc (ucast (width AND 0xFF)) @
     esc (ucast (drop_bit 8 height)) @ esc (ucast (height AND 0xFF)) @ [IAC, SE]"

definition telnet_size :: "32 word \<Rightarrow> 32 word \<Rightarrow> telnet \<Rightarrow> telnet" where
  "telnet_size width height t =
     (let t = t\<lparr>term_width := width, term_height := height\<rparr> in
      if \<not> t_s t \<or> opt_is t o_naws \<noteq> ACTIVE then t
      else sk_write (naws_msg (term_width t) (term_height t)) t)"

definition activate_option :: "Opt \<Rightarrow> telnet \<Rightarrow> telnet" where
  "activate_option o' t =
     (let t = (if o_send o' = WILL \<and> o_option o' = TELOPT_NAWS
               then telnet_size (term_width t) (term_height t) t else t);
          t = (if o_send o' = WILL \<and>
                  (o_option o' = TELOPT_NEW_ENVIRON \<or> o_option o' = TELOPT_OLD_ENVIRON)
               then deactivate_option (if o_option o' = TELOPT_NEW_ENVIRON then o_oenv else o_nenv) t
               else t)
      in option_side_effects o' True t)"

definition refused_option :: "Opt \<Rightarrow> telnet \<Rightarrow> telnet" where
  "refused_option o' t =
     option_side_effects o' False
       (if o_send o' = WILL \<and> o_option o' = TELOPT_NEW_ENVIRON \<and> opt_is t o_oenv = INACTIVE
        then set_opt o_oenv REQUESTED (send_opt WILL TELOPT_OLD_ENVIRON t)
        else t)"

definition proc_ack :: "Opt \<Rightarrow> telnet \<Rightarrow> telnet" where
  "proc_ack o' t = (case opt_is t o' of
      REQUESTED \<Rightarrow> activate_option o' (set_opt o' ACTIVE t)
    | ACTIVE \<Rightarrow> t
    | INACTIVE \<Rightarrow> activate_option o' (send_opt (o_send o') (o_option o') (set_opt o' ACTIVE t))
    | REALLY_INACTIVE \<Rightarrow> send_opt (o_nsend o') (o_option o') t)"

definition proc_nak :: "Opt \<Rightarrow> telnet \<Rightarrow> telnet" where
  "proc_nak o' t = (case opt_is t o' of
      REQUESTED \<Rightarrow> refused_option o' (set_opt o' INACTIVE t)
    | ACTIVE \<Rightarrow> option_side_effects o' False (send_opt (o_nsend o') (o_option o') (set_opt o' INACTIVE t))
    | _ \<Rightarrow> t)"

definition proc_rec_opt :: "byte \<Rightarrow> byte \<Rightarrow> telnet \<Rightarrow> telnet" where
  "proc_rec_opt cmd option t =
     (case List.find (\<lambda>o'. o_option o' = option \<and> (o_ack o' = cmd \<or> o_nak o' = cmd)) opts of
        Some o' \<Rightarrow> (if o_ack o' = cmd then proc_ack o' t else proc_nak o' t)
      | None \<Rightarrow>
          if cmd = WILL \<or> cmd = DO then send_opt (if cmd = WILL then DONT else WONT) option t
          else t)"

section \<open>Subnegotiations\<close>

definition to_upper :: "byte \<Rightarrow> byte" where
  "to_upper c = (if 97 \<le> c \<and> c \<le> 122 then c + 65 - 97 else c)"

text \<open>The sense of VAR and VALUE that the last such byte of the request suggests.\<close>

fun guess_var :: "byte list \<Rightarrow> byte \<times> byte \<Rightarrow> byte \<times> byte" where
  "guess_var [] vv = vv"
| "guess_var (p # ps) vv = guess_var ps
     (if p = RFC_VAR then (RFC_VAR, RFC_VALUE) else if p = BSD_VAR then (BSD_VAR, BSD_VALUE) else vv)"

definition environ_vars :: "tconf \<Rightarrow> byte \<Rightarrow> byte \<Rightarrow> byte list" where
  "environ_vars conf var value =
     concat (map (\<lambda>(ekey, eval). var # ekey @ value # eval) (environmt conf)) @
     (case username conf of None \<Rightarrow> [] | Some user \<Rightarrow> [var, 85, 83, 69, 82, value] @ user)"

definition environ_msg :: "byte \<Rightarrow> tconf \<Rightarrow> byte \<Rightarrow> byte \<Rightarrow> byte list" where
  "environ_msg code conf var value =
     [IAC, SB, code, TELQUAL_IS] @ environ_vars conf var value @ [IAC, SE]"

text \<open>The size of the buffer that \<open>environ_msg\<close> is built in.\<close>

definition environ_bsize :: "tconf \<Rightarrow> nat" where
  "environ_bsize conf =
     20 + sum_list (map (\<lambda>(ekey, eval). length ekey + length eval + 2) (environmt conf)) +
     (case username conf of None \<Rightarrow> 0 | Some user \<Rightarrow> 6 + length user)"

definition process_subneg :: "telnet \<Rightarrow> telnet" where
  "process_subneg t =
     (let conf = t_conf t in
      if sb_opt t = TELOPT_TSPEED then
        (if sb_buf t = [TELQUAL_SEND] then
           sk_write ([IAC, SB, TELOPT_TSPEED, TELQUAL_IS] @ termspeed conf @ [IAC, SE]) t
         else t)
      else if sb_opt t = TELOPT_TTYPE then
        (if sb_buf t = [TELQUAL_SEND] then
           sk_write ([IAC, SB, TELOPT_TTYPE, TELQUAL_IS] @ map to_upper (termtype conf) @ [IAC, SE]) t
         else t)
      else if sb_opt t = TELOPT_OLD_ENVIRON \<or> sb_opt t = TELOPT_NEW_ENVIRON then
        (case sb_buf t of
           p # ps \<Rightarrow>
             if p = TELQUAL_SEND then
               (let (var, value) =
                  (if sb_opt t = TELOPT_OLD_ENVIRON then
                     guess_var ps (if rfc_environ conf then (RFC_VAR, RFC_VALUE) else (BSD_VAR, BSD_VALUE))
                   else (RFC_VAR, RFC_VALUE))
                in sk_write (environ_msg (sb_opt t) conf var value) t)
             else t
         | [] \<Rightarrow> t)
      else t)"

section \<open>Reading\<close>

text \<open>
  One byte of the loop of \<open>do_telnet_read\<close>: the state of the backend and the bytes
  gathered for the terminal.
\<close>

definition subneg_addchar :: "byte \<Rightarrow> telnet \<Rightarrow> telnet" where
  "subneg_addchar c t = t\<lparr>sb_buf := sb_buf t @ [c], t_state := SUBNEGOT\<rparr>"

definition read_data :: "byte \<Rightarrow> telnet \<times> byte list \<Rightarrow> telnet \<times> byte list" where
  "read_data c = (\<lambda>(t, outbuf).
     if c = NUL \<and> t_state t = SEENCR then (t\<lparr>t_state := TOP_LEVEL\<rparr>, outbuf)
     else if c = IAC then (t\<lparr>t_state := SEENIAC\<rparr>, outbuf)
     else
       let (t, outbuf) =
             (if \<not> in_synch t then (t, outbuf @ [c])
              else if c = DM then (t\<lparr>in_synch := False\<rparr>, outbuf)
              else (t, outbuf))
       in (t\<lparr>t_state := (if c = CR \<and> opt_is t o_they_bin \<noteq> ACTIVE then SEENCR else TOP_LEVEL)\<rparr>, outbuf))"

definition read_iac :: "byte \<Rightarrow> telnet \<times> byte list \<Rightarrow> telnet \<times> byte list" where
  "read_iac c = (\<lambda>(t, outbuf).
     if c = DO then (t\<lparr>t_state := SEENDO\<rparr>, outbuf)
     else if c = DONT then (t\<lparr>t_state := SEENDONT\<rparr>, outbuf)
     else if c = WILL then (t\<lparr>t_state := SEENWILL\<rparr>, outbuf)
     else if c = WONT then (t\<lparr>t_state := SEENWONT\<rparr>, outbuf)
     else if c = SB then (t\<lparr>t_state := SEENSB\<rparr>, outbuf)
     else if c = DM then (t\<lparr>in_synch := False, t_state := TOP_LEVEL\<rparr>, outbuf)
     else (t\<lparr>t_state := TOP_LEVEL\<rparr>, if c = IAC then outbuf @ [c] else outbuf))"

definition read_byte :: "byte \<Rightarrow> telnet \<times> byte list \<Rightarrow> telnet \<times> byte list" where
  "read_byte c = (\<lambda>(t, outbuf). (case t_state t of
      TOP_LEVEL \<Rightarrow> read_data c (t, outbuf)
    | SEENCR \<Rightarrow> read_data c (t, outbuf)
    | SEENIAC \<Rightarrow> read_iac c (t, outbuf)
    | SEENWILL \<Rightarrow> ((proc_rec_opt WILL c t)\<lparr>t_state := TOP_LEVEL\<rparr>, outbuf)
    | SEENWONT \<Rightarrow> ((proc_rec_opt WONT c t)\<lparr>t_state := TOP_LEVEL\<rparr>, outbuf)
    | SEENDO \<Rightarrow> ((proc_rec_opt DO c t)\<lparr>t_state := TOP_LEVEL\<rparr>, outbuf)
    | SEENDONT \<Rightarrow> ((proc_rec_opt DONT c t)\<lparr>t_state := TOP_LEVEL\<rparr>, outbuf)
    | SEENSB \<Rightarrow> (t\<lparr>sb_opt := c, sb_buf := [], t_state := SUBNEGOT\<rparr>, outbuf)
    | SUBNEGOT \<Rightarrow> (if c = IAC then t\<lparr>t_state := SUBNEG_IAC\<rparr> else subneg_addchar c t, outbuf)
    | SUBNEG_IAC \<Rightarrow> (if c \<noteq> SE then subneg_addchar c t else (process_subneg t)\<lparr>t_state := TOP_LEVEL\<rparr>, outbuf)))"

definition flush :: "telnet \<times> byte list \<Rightarrow> telnet \<times> byte list" where
  "flush = (\<lambda>(t, outbuf). if length outbuf \<ge> 4096 then (c_write outbuf t, []) else (t, outbuf))"

fun read_loop :: "byte list \<Rightarrow> telnet \<times> byte list \<Rightarrow> telnet \<times> byte list" where
  "read_loop [] st = st"
| "read_loop (c # buf) st = read_loop buf (flush (read_byte c st))"

definition do_telnet_read :: "byte list \<Rightarrow> telnet \<Rightarrow> telnet" where
  "do_telnet_read buf t =
     (let (t, outbuf) = read_loop buf (t, []) in if outbuf \<noteq> [] then c_write outbuf t else t)"

definition telnet_receive :: "bool \<Rightarrow> byte list \<Rightarrow> telnet \<Rightarrow> telnet" where
  "telnet_receive urgent data t =
     do_telnet_read data
       ((if urgent then t\<lparr>in_synch := True\<rparr> else t)\<lparr>session_started := True\<rparr>)"

definition telnet_sent :: "size_t \<Rightarrow> telnet \<Rightarrow> telnet" where
  "telnet_sent n t = t\<lparr>bufsize := n\<rparr>"

definition telnet_closing :: "byte list option \<Rightarrow> telnet \<Rightarrow> telnet" where
  "telnet_closing error_msg t =
     (let t = (if t_s t then
                 emit RemoteExit
                   ((emit Close t)\<lparr>t_s := False,
                      closed_on_socket_error := closed_on_socket_error t \<or> error_msg \<noteq> None\<rparr>)
               else t)
      in case error_msg of None \<Rightarrow> t | Some msg \<Rightarrow> emit (Fatal msg) t)"

section \<open>Starting and sending\<close>

definition init_opt :: "Opt \<Rightarrow> telnet \<Rightarrow> telnet" where
  "init_opt o' t =
     (let t = set_opt o' (o_initial o') t
      in if opt_is t o' = REQUESTED then send_opt (o_send o') (o_option o') t else t)"

text \<open>
  \<open>telnet_init\<close> from the point where the connection is open; before that the C only
  allocates the structure, looks the host up and can return an error.
\<close>

definition telnet_open ::
  "tconf \<Rightarrow> 32 word \<Rightarrow> 32 word \<Rightarrow> (event list \<Rightarrow> size_t) \<Rightarrow> (event list \<Rightarrow> size_t) \<Rightarrow> telnet" where
  "telnet_open conf width height net seat =
     (let t = \<lparr>t_s = True, closed_on_socket_error = False, has_ldisc = False, term_width = width,
               term_height = height, opt_states = (\<lambda>_. INACTIVE), echoing = True, editing = True,
               activated = False, bufsize = 0, in_synch = False, sb_opt = 0, sb_buf = [],
               session_started = True, t_state = TOP_LEVEL, t_conf = conf, t_net = net,
               t_seat = seat, t_out = []\<rparr>
      in if passive_telnet conf then fold (\<lambda>o'. set_opt o' INACTIVE) opts t
         else (fold init_opt opts t)\<lparr>activated := True\<rparr>)"

definition iswritable :: "telnet \<Rightarrow> byte \<Rightarrow> bool" where
  "iswritable t x \<longleftrightarrow> x \<noteq> IAC \<and> (opt_is t o_we_bin = ACTIVE \<or> x \<noteq> CR)"

fun send_special_bytes :: "byte list \<Rightarrow> telnet \<Rightarrow> byte list \<times> telnet" where
  "send_special_bytes [] t = ([], t)"
| "send_special_bytes (p # ps) t =
     (if \<not> iswritable t p
      then send_special_bytes ps (sk_write (if p = IAC then [IAC, IAC] else [CR, NUL]) t)
      else (p # ps, t))"

lemma send_special_bytes_shorter: "length (fst (send_special_bytes ps t)) \<le> length ps"
  by (induction ps arbitrary: t) (auto simp: le_SucI)

lemma opt_is_sk_write [simp]: "opt_is (sk_write b t) o' = opt_is t o'"
  by (simp add: sk_write_def opt_is_def Let_def)

lemma iswritable_sk_write [simp]: "iswritable (sk_write b t) = iswritable t"
  by (simp add: iswritable_def fun_eq_iff)

lemma send_loop_shorter:
  assumes "p \<noteq> []"
  shows "length (fst (send_special_bytes (dropWhile (iswritable t) p)
      (sk_write (takeWhile (iswritable t) p) t))) < length p"
proof -
  obtain c ps where p: "p = c # ps" using assms by (cases p) auto
  show ?thesis
  proof (cases "iswritable t c")
    case True
    have "length (fst (send_special_bytes (dropWhile (iswritable t) ps) t')) \<le> length ps" for t'
      by (rule order_trans [OF send_special_bytes_shorter length_dropWhile_le])
    then show ?thesis using True p by (simp add: less_Suc_eq_le)
  next
    case False
    then show ?thesis using p send_special_bytes_shorter [of ps] by (simp add: less_Suc_eq_le)
  qed
qed

function send_loop :: "byte list \<Rightarrow> telnet \<Rightarrow> telnet" where
  "send_loop p t =
     (if p = [] then t
      else
        let q = takeWhile (iswritable t) p;
            (p', t') = send_special_bytes (dropWhile (iswritable t) p) (sk_write q t)
        in send_loop p' t')"
  by pat_completeness auto
termination
proof (relation "measure (\<lambda>(p, _). length p)")
  fix p t q x p' t'
  assume "p \<noteq> []" "q = takeWhile (iswritable t) p"
    "x = send_special_bytes (dropWhile (iswritable t) p) (sk_write q t)" "(p', t') = x"
  then have "p' = fst (send_special_bytes (dropWhile (iswritable t) p) (sk_write (takeWhile (iswritable t) p) t))"
    by (metis fst_conv)
  then show "((p', t'), p, t) \<in> measure (\<lambda>(p, _). length p)"
    using send_loop_shorter [OF \<open>p \<noteq> []\<close>, of t] by simp
qed simp

declare send_loop.simps [simp del]

definition telnet_send :: "byte list \<Rightarrow> telnet \<Rightarrow> size_t \<times> telnet" where
  "telnet_send buf t =
     (if \<not> t_s t then (0, t) else let t = send_loop buf t in (bufsize t, t))"

text \<open>The special commands that are IAC and one byte, and the ones that are not.\<close>

datatype special =
    SS_AYT | SS_BRK | SS_EC | SS_EL | SS_GA | SS_NOP | SS_ABORT | SS_AO | SS_IP | SS_SUSP
  | SS_EOR | SS_EOF | SS_EOL | SS_SYNCH | SS_PING | SS_OTHER

definition special_code :: "special \<Rightarrow> byte option" where
  "special_code code = (case code of
      SS_AYT \<Rightarrow> Some 246 | SS_BRK \<Rightarrow> Some 243 | SS_EC \<Rightarrow> Some 247 | SS_EL \<Rightarrow> Some 248
    | SS_GA \<Rightarrow> Some 249 | SS_NOP \<Rightarrow> Some 241 | SS_ABORT \<Rightarrow> Some 238 | SS_AO \<Rightarrow> Some 245
    | SS_IP \<Rightarrow> Some 244 | SS_SUSP \<Rightarrow> Some 237 | SS_EOR \<Rightarrow> Some 239 | SS_EOF \<Rightarrow> Some 236
    | _ \<Rightarrow> None)"

definition telnet_special :: "special \<Rightarrow> telnet \<Rightarrow> telnet" where
  "telnet_special code t =
     (if \<not> t_s t then t
      else case special_code code of
        Some b \<Rightarrow> sk_write [IAC, b] t
      | None \<Rightarrow> (case code of
          SS_EOL \<Rightarrow> sk_write (if opt_is t o_we_bin = ACTIVE then [CR] else [CR, LF]) t
        | SS_SYNCH \<Rightarrow> sk_write_oob [DM] (sk_write [IAC] t)
        | SS_PING \<Rightarrow> if opt_is t o_they_sga = ACTIVE then sk_write [IAC, 241] t else t
        | _ \<Rightarrow> t))"

definition telnet_reconfig :: "tconf \<Rightarrow> telnet \<Rightarrow> telnet" where
  "telnet_reconfig conf t = t\<lparr>t_conf := conf\<rparr>"

text \<open>\<open>telnet_unthrottle\<close> follows the socket pointer, which is NULL once the socket is closed.\<close>

definition telnet_unthrottle :: "size_t \<Rightarrow> telnet \<Rightarrow> telnet option" where
  "telnet_unthrottle backlog t =
     (if t_s t then Some (emit (Frozen (backlog > TELNET_MAX_BACKLOG)) t) else None)"

datatype ld_option = LD_ECHO | LD_EDIT | LD_OTHER

definition telnet_ldisc :: "telnet \<Rightarrow> ld_option \<Rightarrow> bool" where
  "telnet_ldisc t option = (case option of LD_ECHO \<Rightarrow> echoing t | LD_EDIT \<Rightarrow> editing t | LD_OTHER \<Rightarrow> False)"

definition telnet_provide_ldisc :: "bool \<Rightarrow> telnet \<Rightarrow> telnet" where
  "telnet_provide_ldisc ldisc t = t\<lparr>has_ldisc := ldisc\<rparr>"

definition telnet_exitcode :: "telnet \<Rightarrow> int" where
  "telnet_exitcode t = (if t_s t then -1 else if closed_on_socket_error t then 2147483647 else 0)"

section \<open>What each step writes\<close>

definition written :: "telnet \<Rightarrow> byte list" where
  "written t = concat (map (\<lambda>e. case e of Write b \<Rightarrow> b | _ \<Rightarrow> []) (t_out t))"

definition shown :: "telnet \<Rightarrow> byte list" where
  "shown t = concat (map (\<lambda>e. case e of Stdout b \<Rightarrow> b | _ \<Rightarrow> []) (t_out t))"

text \<open>
  \<open>adds P t t'\<close>: going from \<open>t\<close> to \<open>t'\<close> only appends events, all with property \<open>P\<close>.
  \<open>polite e\<close>: a WILL or DO in it is for an option of the table, with that option's own
  verb.
\<close>

definition adds :: "(event \<Rightarrow> bool) \<Rightarrow> telnet \<Rightarrow> telnet \<Rightarrow> bool" where
  "adds P t t' \<longleftrightarrow> (\<exists>es. t_out t' = t_out t @ es \<and> (\<forall>e \<in> set es. P e))"

definition polite :: "event \<Rightarrow> bool" where
  "polite e \<longleftrightarrow> (\<forall>cmd code. e = Write [IAC, cmd, code] \<longrightarrow> cmd = WILL \<or> cmd = DO \<longrightarrow>
     (\<exists>o' \<in> set opts. o_send o' = cmd \<and> o_option o' = code))"

lemma adds_refl [intro]: "adds P t t"
  by (simp add: adds_def)

lemma adds_trans: "adds P t t' \<Longrightarrow> adds P t' t'' \<Longrightarrow> adds P t t''"
  unfolding adds_def by fastforce

lemma adds_sk_write: "P (Write b) \<Longrightarrow> adds P t (sk_write b t)"
  by (auto simp: adds_def sk_write_def Let_def)

lemma adds_emit: "P e \<Longrightarrow> adds P t (emit e t)"
  by (auto simp: adds_def emit_def)

lemma adds_out: "t_out t' = t_out t \<Longrightarrow> adds P t t'"
  by (auto simp: adds_def)

lemma adds_same: "adds P t t' \<Longrightarrow> t_out t'' = t_out t' \<Longrightarrow> adds P t t''"
  by (simp add: adds_def)

lemma out_set_opt [simp]: "t_out (set_opt o' st t) = t_out t"
  by (simp add: set_opt_def)

lemma adds_set_opt [simp]:
  "adds P (set_opt o' st t) t' = adds P t t'" "adds P t (set_opt o' st t') = adds P t t'"
  by (simp_all add: adds_def)

lemma neg_verbs: "WONT \<noteq> WILL" "WONT \<noteq> DO" "DONT \<noteq> WILL" "DONT \<noteq> DO"
  by (simp_all add: cmd_defs)

lemma opts_verbs: "o' \<in> set opts \<Longrightarrow> (o_send o' = WILL \<and> o_nsend o' = WONT \<and> o_ack o' = DO \<and> o_nak o' = DONT)
    \<or> (o_send o' = DO \<and> o_nsend o' = DONT \<and> o_ack o' = WILL \<and> o_nak o' = WONT)"
  by (auto simp: opts_def opt_defs we_def they_def)

lemma in_opts [simp]:
  "o_oenv \<in> set opts" "o_nenv \<in> set opts" "o_echo \<in> set opts" "o_we_sga \<in> set opts" "o_they_sga \<in> set opts"
  by (simp_all add: opts_def)

lemma polite_opts: "o' \<in> set opts \<Longrightarrow> polite (Write [IAC, o_send o', o_option o'])"
  by (auto simp: polite_def)

lemma polite_neg: "cmd = WONT \<or> cmd = DONT \<Longrightarrow> polite (Write [IAC, cmd, code])"
  using neg_verbs by (auto simp: polite_def)

lemma polite_nsend: "o' \<in> set opts \<Longrightarrow> polite (Write [IAC, o_nsend o', code])"
  using opts_verbs polite_neg by blast

lemma polite_long: "length b > 3 \<Longrightarrow> polite (Write b)"
  by (auto simp: polite_def)

lemma polite_other [simp]:
  "polite LdiscUpdate" "polite (Stdout b)" "polite (Frozen f)" "polite (WriteOob b)"
  by (simp_all add: polite_def)

lemma adds_send_opt: "polite (Write [IAC, cmd, code]) \<Longrightarrow> adds polite t (send_opt cmd code t)"
  by (simp add: send_opt_def adds_sk_write)

lemma adds_request:
  assumes "o' \<in> set opts"
  shows "adds polite t (request_if_inactive o' t)"
proof -
  have "adds polite (set_opt o' REQUESTED t) (send_opt (o_send o') (o_option o') (set_opt o' REQUESTED t))"
    using assms by (intro adds_send_opt polite_opts)
  then show ?thesis by (auto simp: request_if_inactive_def adds_def)
qed

lemma adds_deactivate:
  assumes "o' \<in> set opts"
  shows "adds polite t (deactivate_option o' t)"
  using adds_send_opt [OF polite_nsend [OF assms], of t]
  by (auto simp: deactivate_option_def)

lemma adds_side_effects: "adds polite t (option_side_effects o' en t)"
proof -
  define t1 where "t1 = (if o_option o' = TELOPT_ECHO \<and> o_send o' = DO then t\<lparr>echoing := \<not> en\<rparr>
               else if o_option o' = TELOPT_SGA \<and> o_send o' = DO then t\<lparr>editing := \<not> en\<rparr> else t)"
  define t2 where "t2 = (if has_ldisc t1 then emit LdiscUpdate t1 else t1)"
  have "adds polite t t1" by (rule adds_out) (simp add: t1_def)
  moreover have "adds polite t1 t2" by (auto simp: t2_def intro: adds_emit)
  ultimately have 2: "adds polite t t2" by (rule adds_trans)
  have "adds polite t2 (request_if_inactive o_they_sga
      (request_if_inactive o_we_sga (request_if_inactive o_echo t2)))"
    by (intro adds_trans [OF adds_request adds_trans [OF adds_request adds_request]]) simp_all
  then have "adds polite t2 ((request_if_inactive o_they_sga
      (request_if_inactive o_we_sga (request_if_inactive o_echo t2)))\<lparr>activated := True\<rparr>)"
    by (rule adds_same) simp
  from adds_trans [OF 2 this] 2 show ?thesis
    by (simp add: option_side_effects_def Let_def t1_def [symmetric] t2_def [symmetric])
qed

lemma adds_size: "adds polite t (telnet_size w h t)"
proof -
  have "polite (Write (naws_msg w h))" by (rule polite_long) (simp add: naws_msg_def)
  then show ?thesis
    by (auto simp: telnet_size_def Let_def adds_def sk_write_def)
qed

lemma adds_activate: "adds polite t (activate_option o' t)"
proof -
  define t1 where "t1 = (if o_send o' = WILL \<and> o_option o' = TELOPT_NAWS
               then telnet_size (term_width t) (term_height t) t else t)"
  define t2 where "t2 = (if o_send o' = WILL \<and>
                  (o_option o' = TELOPT_NEW_ENVIRON \<or> o_option o' = TELOPT_OLD_ENVIRON)
               then deactivate_option (if o_option o' = TELOPT_NEW_ENVIRON then o_oenv else o_nenv) t1
               else t1)"
  have "adds polite t t1" using adds_size by (auto simp: t1_def)
  moreover have "adds polite t1 t2" by (auto simp: t2_def adds_deactivate)
  ultimately have "adds polite t t2" by (rule adds_trans)
  then show ?thesis
    unfolding activate_option_def Let_def t1_def [symmetric] t2_def [symmetric]
    by (rule adds_trans [OF _ adds_side_effects])
qed

lemma adds_refused: "adds polite t (refused_option o' t)"
proof -
  have "o_send o_oenv = WILL" "o_option o_oenv = TELOPT_OLD_ENVIRON"
    by (simp_all add: o_oenv_def we_def)
  then have "polite (Write [IAC, WILL, TELOPT_OLD_ENVIRON])"
    using polite_opts [of o_oenv] by simp
  then show ?thesis
    unfolding refused_option_def
    by (intro adds_trans [OF _ adds_side_effects]) (auto intro: adds_send_opt)
qed

lemma adds_nsend: "o' \<in> set opts \<Longrightarrow> adds polite t (send_opt (o_nsend o') code t)"
  by (intro adds_send_opt polite_nsend)

lemma adds_send: "o' \<in> set opts \<Longrightarrow> adds polite t (send_opt (o_send o') (o_option o') t)"
  by (intro adds_send_opt polite_opts)

lemma adds_proc_ack: "o' \<in> set opts \<Longrightarrow> adds polite t (proc_ack o' t)"
  using adds_activate [of "set_opt o' ACTIVE t" o']
    adds_trans [OF adds_send [of o' "set_opt o' ACTIVE t"] adds_activate, of o']
  by (auto simp: proc_ack_def adds_nsend split: opt_state.split)

lemma adds_proc_nak: "o' \<in> set opts \<Longrightarrow> adds polite t (proc_nak o' t)"
  using adds_refused [of "set_opt o' INACTIVE t" o']
    adds_trans [OF adds_nsend [of o' "set_opt o' INACTIVE t" "o_option o'"] adds_side_effects, of o' False]
  by (auto simp: proc_nak_def split: opt_state.split)

lemma find_Some: "List.find P xs = Some x \<Longrightarrow> x \<in> set xs \<and> P x"
  by (auto simp: find_Some_iff)

lemma adds_proc_rec_opt: "adds polite t (proc_rec_opt cmd code t)"
  using polite_neg adds_proc_ack adds_proc_nak
  by (auto simp: proc_rec_opt_def adds_send_opt dest!: find_Some split: option.split)

lemma adds_process_subneg: "adds polite t (process_subneg t)"
  by (auto simp: process_subneg_def environ_msg_def Let_def split: list.split prod.split
      intro!: adds_sk_write polite_long)

lemma adds_read_data: "adds polite t (fst (read_data c (t, ob)))"
  by (rule adds_out) (simp add: read_data_def Let_def)

lemma adds_read_iac: "adds polite t (fst (read_iac c (t, ob)))"
  by (rule adds_out) (simp add: read_iac_def)

lemma adds_state: "adds P t t' \<Longrightarrow> adds P t (t'\<lparr>t_state := st\<rparr>)"
  by (simp add: adds_def)

lemma adds_read_byte: "adds polite t (fst (read_byte c (t, ob)))"
  by (cases "t_state t")
     (simp_all add: read_byte_def adds_read_data adds_read_iac adds_state adds_proc_rec_opt
        adds_process_subneg adds_out subneg_addchar_def)

lemma adds_c_write: "adds polite t (c_write b t)"
  by (auto simp: c_write_def Let_def adds_def emit_def)

lemma adds_flush: "adds polite (fst st) (fst (flush st))"
  by (cases st) (auto simp: flush_def adds_c_write)

lemma adds_read_loop: "adds polite (fst st) (fst (read_loop buf st))"
proof (induction buf arbitrary: st)
  case Nil
  then show ?case by auto
next
  case (Cons c buf)
  have "adds polite (fst st) (fst (read_byte c st))"
    using adds_read_byte [of "fst st" c "snd st"] by simp
  then have "adds polite (fst st) (fst (flush (read_byte c st)))"
    by (rule adds_trans [OF _ adds_flush])
  then show ?case using adds_trans Cons.IH by auto
qed

lemma adds_do_telnet_read: "adds polite t (do_telnet_read buf t)"
  using adds_read_loop [of "(t, [])" buf] adds_trans [OF _ adds_c_write]
  by (auto simp: do_telnet_read_def case_prod_unfold Let_def)

section \<open>Sending and reading back\<close>

definition sent_as :: "telnet \<Rightarrow> byte \<Rightarrow> byte list" where
  "sent_as t c = (if iswritable t c then [c] else if c = IAC then [IAC, IAC] else [CR, NUL])"

lemma written_sk_write [simp]: "written (sk_write b t) = written t @ b"
  by (simp add: written_def sk_write_def Let_def)

lemma sent_as_sk_write [simp]: "sent_as (sk_write b t) = sent_as t"
  by (simp add: sent_as_def fun_eq_iff)

lemma concat_writable: "\<forall>c \<in> set q. iswritable t c \<Longrightarrow> concat (map (sent_as t) q) = q"
  by (induction q) (auto simp: sent_as_def)

lemma send_special_written:
  "send_special_bytes ps t = (ps', t') \<Longrightarrow>
     written t' @ concat (map (sent_as t) ps') = written t @ concat (map (sent_as t) ps) \<and>
     sent_as t' = sent_as t \<and> iswritable t' = iswritable t"
proof (induction ps arbitrary: t)
  case Nil
  then show ?case by simp
next
  case (Cons p ps)
  show ?case
  proof (cases "iswritable t p")
    case True
    then show ?thesis using Cons.prems by auto
  next
    case False
    then have "send_special_bytes ps (sk_write (sent_as t p) t) = (ps', t')"
      using Cons.prems by (simp add: sent_as_def)
    from Cons.IH [OF this] show ?thesis by simp
  qed
qed

lemma send_loop_written: "written (send_loop p t) = written t @ concat (map (sent_as t) p)"
proof (induction p t rule: send_loop.induct)
  case (1 p t)
  show ?case
  proof (cases "p = []")
    case True
    then show ?thesis by (simp add: send_loop.simps)
  next
    case False
    define q where "q = takeWhile (iswritable t) p"
    obtain p' t' where st: "send_special_bytes (dropWhile (iswritable t) p) (sk_write q t) = (p', t')"
      by force
    have "concat (map (sent_as t) q) = q"
      by (rule concat_writable) (auto simp: q_def dest: set_takeWhileD)
    moreover have "p = q @ dropWhile (iswritable t) p" by (simp add: q_def)
    ultimately have p: "concat (map (sent_as t) p) = q @ concat (map (sent_as t) (dropWhile (iswritable t) p))"
      by (metis concat_append map_append)
    have "written (send_loop p t) = written (send_loop p' t')"
      using False st by (simp add: send_loop.simps [of p] q_def)
    also have "\<dots> = written t' @ concat (map (sent_as t') p')"
      by (rule 1 [OF False q_def refl]) (simp add: st)
    finally show ?thesis using send_special_written [OF st] p by simp
  qed
qed

text \<open>The reader gives back the bytes that were sent, from between two characters.\<close>

lemma shown_state [simp]: "shown (t\<lparr>t_state := st\<rparr>) = shown t"
  by (simp add: shown_def)

lemma shown_c_write [simp]: "shown (c_write b t) = shown t @ b"
  by (simp add: shown_def c_write_def emit_def Let_def)

lemma flush_view:
  "shown (fst (flush st)) @ snd (flush st) = shown (fst st) @ snd st"
  "t_state (fst (flush st)) = t_state (fst st)" "opt_states (fst (flush st)) = opt_states (fst st)"
  "in_synch (fst (flush st)) = in_synch (fst st)"
  by (simp_all add: flush_def c_write_def emit_def Let_def shown_def split: prod.split)

lemma read_loop_append: "read_loop (a @ b) st = read_loop b (read_loop a st)"
  by (induction a arbitrary: st) auto

definition ready :: "bool \<Rightarrow> byte list \<Rightarrow> telnet \<times> byte list \<Rightarrow> bool" where
  "ready bin data st \<longleftrightarrow> t_state (fst st) = TOP_LEVEL \<and> \<not> in_synch (fst st) \<and>
     (opt_is (fst st) o_they_bin = ACTIVE \<longleftrightarrow> bin) \<and> shown (fst st) @ snd st = data"

lemma verbs_distinct [simp]:
  "IAC \<noteq> DO" "IAC \<noteq> DONT" "IAC \<noteq> WILL" "IAC \<noteq> WONT" "IAC \<noteq> SB" "IAC \<noteq> DM" "CR \<noteq> NUL" "CR \<noteq> IAC"
  "NUL \<noteq> IAC" "NUL \<noteq> CR" "IAC \<noteq> CR" "IAC \<noteq> NUL" "IAC \<noteq> SE" "SB \<noteq> IAC" "SB \<noteq> DO" "SB \<noteq> DONT" "SB \<noteq> WILL"
  "SB \<noteq> WONT" "TELOPT_NAWS \<noteq> IAC" "SE \<noteq> IAC"
  "CR \<noteq> DM" "DM \<noteq> CR"
  by (simp_all add: cmd_defs telopt_defs)

lemma ready_flush: "ready bin data (flush st) = ready bin data st"
  using flush_view [of st] by (simp add: ready_def opt_is_def)

lemma read_sent_as:
  assumes "ready bin data (t, ob)" "opt_is s o_we_bin = ACTIVE \<longleftrightarrow> bin"
  shows "ready bin (data @ [c]) (read_loop (sent_as s c) (t, ob))"
proof -
  have st: "t_state t = TOP_LEVEL" "\<not> in_synch t" "opt_is t o_they_bin = ACTIVE \<longleftrightarrow> bin"
    "shown t @ ob = data" using assms(1) by (auto simp: ready_def)
  consider "c = IAC" | "c = CR" "\<not> bin" | "c \<noteq> IAC" "c \<noteq> CR \<or> bin" by blast
  then show ?thesis
  proof cases
    case 1
    then have s: "sent_as s c = [IAC, IAC]" by (simp add: sent_as_def iswritable_def)
    define st1 where "st1 = flush (read_byte IAC (t, ob))"
    have r1: "read_byte IAC (t, ob) = (t\<lparr>t_state := SEENIAC\<rparr>, ob)"
      using st by (simp add: read_byte_def read_data_def)
    then have v1: "t_state (fst st1) = SEENIAC" "\<not> in_synch (fst st1)"
      "opt_is (fst st1) o_they_bin = ACTIVE \<longleftrightarrow> bin" "shown (fst st1) @ snd st1 = data"
      using flush_view [of "read_byte IAC (t, ob)"] st by (simp_all add: st1_def opt_is_def)
    have "read_byte IAC st1 = ((fst st1)\<lparr>t_state := TOP_LEVEL\<rparr>, snd st1 @ [IAC])"
      using v1 by (cases st1) (simp add: read_byte_def read_iac_def)
    then have "ready bin (data @ [c]) (read_byte IAC st1)"
      using v1 1 by (simp add: ready_def opt_is_def)
    then show ?thesis using s by (simp add: ready_flush st1_def)
  next
    case 2
    then have s: "sent_as s c = [CR, NUL]" using assms(2) by (simp add: sent_as_def iswritable_def)
    define st1 where "st1 = flush (read_byte CR (t, ob))"
    have r1: "read_byte CR (t, ob) = (t\<lparr>t_state := SEENCR\<rparr>, ob @ [CR])"
      using st 2 by (simp add: read_byte_def read_data_def)
    then have v1: "t_state (fst st1) = SEENCR" "\<not> in_synch (fst st1)"
      "opt_is (fst st1) o_they_bin = ACTIVE \<longleftrightarrow> bin" "shown (fst st1) @ snd st1 = data @ [CR]"
      using flush_view [of "read_byte CR (t, ob)"] st by (simp_all add: st1_def opt_is_def)
    have "read_byte NUL st1 = ((fst st1)\<lparr>t_state := TOP_LEVEL\<rparr>, snd st1)"
      using v1 by (cases st1) (simp add: read_byte_def read_data_def)
    then have "ready bin (data @ [c]) (read_byte NUL st1)"
      using v1 2 by (simp add: ready_def opt_is_def)
    then show ?thesis using s by (simp add: ready_flush st1_def)
  next
    case 3
    then have s: "sent_as s c = [c]" using assms(2) by (auto simp: sent_as_def iswritable_def)
    have "read_byte c (t, ob) = (t\<lparr>t_state := TOP_LEVEL\<rparr>, ob @ [c])"
      using st 3 by (auto simp: read_byte_def read_data_def opt_is_def)
    then have "ready bin (data @ [c]) (read_byte c (t, ob))"
      using st by (simp add: ready_def opt_is_def)
    then show ?thesis using s by (simp add: ready_flush)
  qed
qed

lemma read_sent_all:
  assumes "ready bin data st" "opt_is s o_we_bin = ACTIVE \<longleftrightarrow> bin"
  shows "ready bin (data @ buf) (read_loop (concat (map (sent_as s) buf)) st)"
  using assms(1)
proof (induction buf arbitrary: data st)
  case Nil
  then show ?case by simp
next
  case (Cons c buf)
  have "ready bin (data @ [c]) (read_loop (sent_as s c) st)"
    using read_sent_as [of bin data "fst st" "snd st" s c] Cons.prems assms(2) by simp
  from Cons.IH [OF this] show ?case by (simp add: read_loop_append)
qed

lemma do_telnet_read_view:
  "shown (do_telnet_read buf t) = shown (fst (read_loop buf (t, []))) @ snd (read_loop buf (t, []))"
  "t_state (do_telnet_read buf t) = t_state (fst (read_loop buf (t, [])))"
  by (simp_all add: do_telnet_read_def c_write_def emit_def Let_def shown_def split: prod.split)

text \<open>A subnegotiation with doubled IACs is read back as its data.\<close>

lemma flush_empty [simp]: "flush (t, []) = (t, [])"
  by (simp add: flush_def)

lemma subneg_read:
  "t_state t = SUBNEGOT \<Longrightarrow> read_loop (concat (map esc bs)) (t, []) = (t\<lparr>sb_buf := sb_buf t @ bs\<rparr>, [])"
proof (induction bs arbitrary: t)
  case (Cons b bs)
  have "read_loop (esc b) (t, []) = (t\<lparr>sb_buf := sb_buf t @ [b]\<rparr>, [])"
    using Cons.prems by (simp add: esc_def read_byte_def subneg_addchar_def)
  then show ?case using Cons by (simp add: read_loop_append)
qed simp

text \<open>The two ends of a subnegotiation.\<close>

lemma subneg_begin:
  "t_state t = TOP_LEVEL \<Longrightarrow> read_loop [IAC, SB, code] (t, []) =
     (t\<lparr>sb_opt := code, sb_buf := [], t_state := SUBNEGOT\<rparr>, [])"
  by (simp add: read_byte_def read_data_def read_iac_def NUL_def)

lemma subneg_end:
  "t_state t = SUBNEGOT \<Longrightarrow> read_loop [IAC, SE] (t, []) =
     ((process_subneg (t\<lparr>t_state := SUBNEG_IAC\<rparr>))\<lparr>t_state := TOP_LEVEL\<rparr>, [])"
  by (simp add: read_byte_def)


section \<open>Segments do not matter\<close>

text \<open>
  \<open>sim t t'\<close>: the same state, and the same events sent, in the same order, apart from what
  is shown and how it was cut into pieces.
\<close>

definition sends :: "event \<Rightarrow> bool" where
  "sends e = (case e of Stdout _ \<Rightarrow> False | Frozen _ \<Rightarrow> False | _ \<Rightarrow> True)"

definition core :: "telnet \<Rightarrow> telnet" where
  "core t = t\<lparr>bufsize := 0, t_out := filter sends (t_out t)\<rparr>"

definition sim :: "telnet \<Rightarrow> telnet \<Rightarrow> bool" where
  "sim t t' \<longleftrightarrow> core t = core t'"

lemma sim_refl [simp]: "sim t t"
  by (simp add: sim_def)

lemma sim_fields:
  assumes "sim t t'"
  shows "t_s t = t_s t'" "has_ldisc t = has_ldisc t'" "term_width t = term_width t'"
    "term_height t = term_height t'" "opt_states t = opt_states t'" "opt_is t = opt_is t'"
    "activated t = activated t'" "in_synch t = in_synch t'" "sb_opt t = sb_opt t'"
    "sb_buf t = sb_buf t'" "t_state t = t_state t'" "t_conf t = t_conf t'"
    "filter sends (t_out t) = filter sends (t_out t')" "core t = core t'"
proof -
  have c: "core t = core t'" using assms by (simp add: sim_def)
  note f = arg_cong [OF c, of t_s] arg_cong [OF c, of has_ldisc] arg_cong [OF c, of term_width]
    arg_cong [OF c, of term_height] arg_cong [OF c, of opt_states] arg_cong [OF c, of activated]
    arg_cong [OF c, of in_synch] arg_cong [OF c, of sb_opt] arg_cong [OF c, of sb_buf]
    arg_cong [OF c, of t_state] arg_cong [OF c, of t_conf] arg_cong [OF c, of t_out]
  show "t_s t = t_s t'" "has_ldisc t = has_ldisc t'" "term_width t = term_width t'"
    "term_height t = term_height t'" "opt_states t = opt_states t'"
    "activated t = activated t'" "in_synch t = in_synch t'" "sb_opt t = sb_opt t'"
    "sb_buf t = sb_buf t'" "t_state t = t_state t'" "t_conf t = t_conf t'"
    "filter sends (t_out t) = filter sends (t_out t')"
    using f by (simp_all add: core_def)
  then show "opt_is t = opt_is t'" by (simp add: fun_eq_iff opt_is_def)
  show "core t = core t'" by (rule c)
qed

named_theorems sim_intros \<open>operations that keep two states similar\<close>

lemma core_upd:
  "core (t\<lparr>echoing := e\<rparr>) = (core t)\<lparr>echoing := e\<rparr>" "core (t\<lparr>editing := e\<rparr>) = (core t)\<lparr>editing := e\<rparr>"
  "core (t\<lparr>activated := e\<rparr>) = (core t)\<lparr>activated := e\<rparr>"
  "core (t\<lparr>term_width := w\<rparr>) = (core t)\<lparr>term_width := w\<rparr>"
  "core (t\<lparr>term_height := w\<rparr>) = (core t)\<lparr>term_height := w\<rparr>"
  "core (t\<lparr>opt_states := os\<rparr>) = (core t)\<lparr>opt_states := os\<rparr>"
  "core (t\<lparr>t_state := st\<rparr>) = (core t)\<lparr>t_state := st\<rparr>" "core (t\<lparr>in_synch := e\<rparr>) = (core t)\<lparr>in_synch := e\<rparr>"
  "core (t\<lparr>sb_opt := b\<rparr>) = (core t)\<lparr>sb_opt := b\<rparr>" "core (t\<lparr>sb_buf := bs\<rparr>) = (core t)\<lparr>sb_buf := bs\<rparr>"
  by (simp_all add: core_def)

lemma core_sk_write: "core (sk_write b t) = (core t)\<lparr>t_out := t_out (core t) @ [Write b]\<rparr>"
  by (simp add: core_def sk_write_def Let_def sends_def)

lemma core_emit: "sends e \<Longrightarrow> core (emit e t) = (core t)\<lparr>t_out := t_out (core t) @ [e]\<rparr>"
  by (simp add: core_def emit_def)

lemma core_c_write: "core (c_write b t) = core t"
  by (simp add: core_def c_write_def emit_def Let_def sends_def)

lemma sim_upd [sim_intros]:
  "sim t t' \<Longrightarrow> sim (t\<lparr>echoing := e\<rparr>) (t'\<lparr>echoing := e\<rparr>)"
  "sim t t' \<Longrightarrow> sim (t\<lparr>editing := e\<rparr>) (t'\<lparr>editing := e\<rparr>)"
  "sim t t' \<Longrightarrow> sim (t\<lparr>activated := e\<rparr>) (t'\<lparr>activated := e\<rparr>)"
  "sim t t' \<Longrightarrow> sim (t\<lparr>term_width := w\<rparr>) (t'\<lparr>term_width := w\<rparr>)"
  "sim t t' \<Longrightarrow> sim (t\<lparr>term_height := w\<rparr>) (t'\<lparr>term_height := w\<rparr>)"
  "sim t t' \<Longrightarrow> sim (t\<lparr>t_state := st\<rparr>) (t'\<lparr>t_state := st\<rparr>)"
  "sim t t' \<Longrightarrow> sim (t\<lparr>in_synch := e\<rparr>) (t'\<lparr>in_synch := e\<rparr>)"
  "sim t t' \<Longrightarrow> sim (t\<lparr>sb_opt := b\<rparr>) (t'\<lparr>sb_opt := b\<rparr>)"
  "sim t t' \<Longrightarrow> sim (t\<lparr>sb_buf := bs\<rparr>) (t'\<lparr>sb_buf := bs\<rparr>)"
  "sim t t' \<Longrightarrow> sim (sk_write m t) (sk_write m t')"
  "sim t t' \<Longrightarrow> sim (emit LdiscUpdate t) (emit LdiscUpdate t')"
  by (simp_all add: sim_def core_upd core_sk_write core_emit sends_def)

lemma sim_set_opt [sim_intros]: "sim t t' \<Longrightarrow> sim (set_opt o' st t) (set_opt o' st t')"
  using sim_fields(5) [of t t'] by (simp add: sim_def set_opt_def core_upd)

lemma sim_send_opt [sim_intros]: "sim t t' \<Longrightarrow> sim (send_opt cmd code t) (send_opt cmd code t')"
  by (simp add: send_opt_def sim_intros)

lemma sim_request [sim_intros]: "sim t t' \<Longrightarrow> sim (request_if_inactive o' t) (request_if_inactive o' t')"
  using sim_fields(6) [of t t'] by (simp add: request_if_inactive_def sim_intros)

lemma sim_deactivate [sim_intros]: "sim t t' \<Longrightarrow> sim (deactivate_option o' t) (deactivate_option o' t')"
  using sim_fields(6) [of t t'] by (simp add: deactivate_option_def sim_intros)

lemma sim_side_effects [sim_intros]:
  assumes "sim t t'"
  shows "sim (option_side_effects o' en t) (option_side_effects o' en t')"
proof -
  define f where "f t = (if o_option o' = TELOPT_ECHO \<and> o_send o' = DO then t\<lparr>echoing := \<not> en\<rparr>
     else if o_option o' = TELOPT_SGA \<and> o_send o' = DO then t\<lparr>editing := \<not> en\<rparr> else t)" for t :: telnet
  define g where "g t = (if has_ldisc t then emit LdiscUpdate t else t)" for t
  have "sim (f t) (f t')" using assms by (simp add: f_def sim_intros)
  then have "sim (g (f t)) (g (f t'))" using sim_fields(2) by (auto simp: g_def sim_intros)
  then show ?thesis
    using sim_fields(7) [of "g (f t)" "g (f t')"]
    by (simp add: option_side_effects_def Let_def f_def [symmetric] g_def [symmetric] sim_intros)
qed

lemma sim_size [sim_intros]: "sim t t' \<Longrightarrow> sim (telnet_size w h t) (telnet_size w h t')"
  using sim_fields(1,5) [of t t'] by (simp add: telnet_size_def Let_def sim_intros opt_is_def)

lemma sim_activate [sim_intros]:
  assumes "sim t t'"
  shows "sim (activate_option o' t) (activate_option o' t')"
  using assms sim_fields(3,4) [OF assms] by (auto simp: activate_option_def Let_def sim_intros)

lemma sim_refused [sim_intros]: "sim t t' \<Longrightarrow> sim (refused_option o' t) (refused_option o' t')"
  using sim_fields(6) [of t t'] by (simp add: refused_option_def sim_intros)

lemma sim_proc_ack [sim_intros]: "sim t t' \<Longrightarrow> sim (proc_ack o' t) (proc_ack o' t')"
  using sim_fields(6) [of t t'] by (simp add: proc_ack_def sim_intros split: opt_state.split)

lemma sim_proc_nak [sim_intros]: "sim t t' \<Longrightarrow> sim (proc_nak o' t) (proc_nak o' t')"
  using sim_fields(6) [of t t'] by (simp add: proc_nak_def sim_intros split: opt_state.split)

lemma sim_proc_rec_opt [sim_intros]: "sim t t' \<Longrightarrow> sim (proc_rec_opt cmd code t) (proc_rec_opt cmd code t')"
  by (simp add: proc_rec_opt_def sim_intros split: option.split)

lemma sim_process_subneg [sim_intros]: "sim t t' \<Longrightarrow> sim (process_subneg t) (process_subneg t')"
  using sim_fields(9,10,12) [of t t']
  by (simp add: process_subneg_def Let_def sim_intros split: list.split prod.split)

text \<open>
  The view of the reader: the similar states, and the same bytes shown or gathered.
\<close>

definition sim_read :: "telnet \<times> byte list \<Rightarrow> telnet \<times> byte list \<Rightarrow> bool" where
  "sim_read st st' \<longleftrightarrow> sim (fst st) (fst st') \<and>
     shown (fst st) @ snd st = shown (fst st') @ snd st'"

lemma shown_same_sends:
  "shown (sk_write b t) = shown t" "shown (emit LdiscUpdate t) = shown t"
  "shown (set_opt o' s t) = shown t" "shown (send_opt cmd code t) = shown t"
  by (simp_all add: shown_def sk_write_def emit_def set_opt_def send_opt_def Let_def)

lemma shown_upd:
  "shown (t\<lparr>echoing := e\<rparr>) = shown t" "shown (t\<lparr>editing := e\<rparr>) = shown t"
  "shown (t\<lparr>activated := e\<rparr>) = shown t" "shown (t\<lparr>term_width := w\<rparr>) = shown t"
  "shown (t\<lparr>term_height := w\<rparr>) = shown t" "shown (t\<lparr>in_synch := e\<rparr>) = shown t"
  "shown (t\<lparr>sb_opt := b\<rparr>) = shown t" "shown (t\<lparr>sb_buf := bs\<rparr>) = shown t"
  by (simp_all add: shown_def)

lemma shown_request [simp]: "shown (request_if_inactive o' t) = shown t"
  by (simp add: request_if_inactive_def shown_same_sends)

lemma shown_side_effects [simp]: "shown (option_side_effects o' en t) = shown t"
  by (simp add: option_side_effects_def Let_def shown_same_sends shown_upd)

lemma shown_activate [simp]: "shown (activate_option o' t) = shown t"
  by (simp add: activate_option_def deactivate_option_def telnet_size_def Let_def
      shown_same_sends shown_upd)

lemma shown_refused [simp]: "shown (refused_option o' t) = shown t"
  by (simp add: refused_option_def shown_same_sends)

lemma shown_proc_ack [simp]: "shown (proc_ack o' t) = shown t"
  by (cases "opt_is t o'") (simp_all add: proc_ack_def shown_same_sends)

lemma shown_proc_nak [simp]: "shown (proc_nak o' t) = shown t"
  by (cases "opt_is t o'") (simp_all add: proc_nak_def shown_same_sends)

lemma shown_proc_rec_opt [simp]: "shown (proc_rec_opt cmd code t) = shown t"
  by (simp add: proc_rec_opt_def shown_same_sends split: option.split)

lemma process_subneg_cases: "process_subneg t = t \<or> (\<exists>m. process_subneg t = sk_write m t)"
  by (simp add: process_subneg_def Let_def split: list.split prod.split) blast

lemma shown_process_subneg [simp]: "shown (process_subneg t) = shown t"
  using process_subneg_cases [of t] by (auto simp: shown_same_sends)

lemma opt_is_in_synch: "opt_is (t\<lparr>in_synch := e\<rparr>) = opt_is t"
  by (simp add: opt_is_def fun_eq_iff)

lemma sim_read_data:
  assumes "sim t t'" "shown t @ ob = shown t' @ ob'"
  shows "sim_read (read_data c (t, ob)) (read_data c (t', ob'))"
  using sim_fields(6,8,11) [OF assms(1)] assms
  by (auto simp: read_data_def Let_def sim_read_def shown_upd opt_is_in_synch intro!: sim_intros)

lemma sim_read_iac:
  assumes "sim t t'" "shown t @ ob = shown t' @ ob'"
  shows "sim_read (read_iac c (t, ob)) (read_iac c (t', ob'))"
  using assms by (auto simp: read_iac_def sim_read_def shown_upd intro!: sim_intros)

lemma sim_read_byte:
  assumes "sim_read st st'"
  shows "sim_read (read_byte c st) (read_byte c st')"
proof -
  obtain t ob t' ob' where st: "st = (t, ob)" "st' = (t', ob')" by fastforce
  have s: "sim t t'" "shown t @ ob = shown t' @ ob'" using assms st by (auto simp: sim_read_def)
  note f = sim_fields(10,11) [OF s(1)]
  show ?thesis
    using s sim_read_data [OF s] sim_read_iac [OF s] f
    by (cases "t_state t'")
       (simp_all add: st read_byte_def sim_read_def subneg_addchar_def sim_intros shown_upd)
qed

lemma sim_flush: "sim_read (flush st) st"
  by (cases st) (simp add: flush_def sim_read_def sim_def core_c_write)

lemma sim_read_trans: "sim_read a b \<Longrightarrow> sim_read b c \<Longrightarrow> sim_read a c"
  by (simp add: sim_read_def sim_def)

lemma sim_read_sym: "sim_read a b \<Longrightarrow> sim_read b a"
  by (simp add: sim_read_def sim_def)

lemma sim_read_loop: "sim_read st st' \<Longrightarrow> sim_read (read_loop buf st) (read_loop buf st')"
proof (induction buf arbitrary: st st')
  case Nil
  then show ?case by simp
next
  case (Cons c buf)
  have "sim_read (flush (read_byte c st)) (flush (read_byte c st'))"
    by (rule sim_read_trans [OF sim_flush sim_read_trans [OF sim_read_byte [OF Cons.prems]
        sim_read_sym [OF sim_flush]]])
  from Cons.IH [OF this] show ?case by simp
qed

lemma do_telnet_read_sim: "sim_read (do_telnet_read buf t, []) (read_loop buf (t, []))"
  by (simp add: do_telnet_read_def sim_read_def sim_def core_c_write split: prod.split)

lemma do_telnet_read_split:
  "sim_read (do_telnet_read (a @ b) t, []) (do_telnet_read b (do_telnet_read a t), [])"
proof -
  have "sim_read (read_loop b (read_loop a (t, []))) (read_loop b (do_telnet_read a t, []))"
    by (rule sim_read_loop [OF sim_read_sym [OF do_telnet_read_sim]])
  then show ?thesis
    using sim_read_trans [OF do_telnet_read_sim [of "a @ b" t]]
      sim_read_trans [OF _ sim_read_sym [OF do_telnet_read_sim]]
    by (metis read_loop_append)
qed

lemma do_telnet_read_segments:
  "sim_read (do_telnet_read (concat segs) t, []) (fold do_telnet_read segs t, [])"
proof (induction segs arbitrary: t)
  case Nil
  then show ?case by (simp add: do_telnet_read_def sim_read_def)
next
  case (Cons a segs)
  from sim_read_trans [OF do_telnet_read_split [of a "concat segs" t] Cons.IH] show ?case by simp
qed

section \<open>Invariants of the negotiation\<close>

text \<open>
  \<open>neg_inv\<close>: of the two ENVIRON options one is given up for good before the other
  becomes active, and before the first option changes none is requested or active.
\<close>

definition neg_inv :: "telnet \<Rightarrow> bool" where
  "neg_inv t \<longleftrightarrow>
     (opt_states t OPTINDEX_NENV = ACTIVE \<longrightarrow> opt_states t OPTINDEX_OENV = REALLY_INACTIVE) \<and>
     (opt_states t OPTINDEX_OENV = ACTIVE \<longrightarrow> opt_states t OPTINDEX_NENV = REALLY_INACTIVE) \<and>
     (\<not> activated t \<longrightarrow> (\<forall>i. opt_states t i = INACTIVE))"

lemma opt_states_same [simp]:
  "opt_states (sk_write b t) = opt_states t" "opt_states (sk_write_oob b t) = opt_states t"
  "opt_states (emit e t) = opt_states t" "opt_states (c_write b t) = opt_states t"
  "opt_states (send_opt cmd code t) = opt_states t"
  "opt_states (set_opt o' st t) = (opt_states t)(o_index o' := st)"
  "activated (sk_write b t) = activated t" "activated (sk_write_oob b t) = activated t"
  "activated (emit e t) = activated t" "activated (c_write b t) = activated t"
  "activated (send_opt cmd code t) = activated t" "activated (set_opt o' st t) = activated t"
  by (simp_all add: sk_write_def sk_write_oob_def emit_def c_write_def send_opt_def set_opt_def Let_def)

lemma index_env [simp]:
  "o_index o_oenv = OPTINDEX_OENV" "o_index o_nenv = OPTINDEX_NENV" "o_index o_echo = OPTINDEX_ECHO"
  "o_index o_we_sga = OPTINDEX_WE_SGA" "o_index o_they_sga = OPTINDEX_THEY_SGA"
  by (simp_all add: opt_defs we_def they_def)

lemma request_states:
  "opt_states (request_if_inactive o' t) =
     (if opt_is t o' = INACTIVE then (opt_states t)(o_index o' := REQUESTED) else opt_states t)"
  "activated (request_if_inactive o' t) = activated t"
  by (simp_all add: request_if_inactive_def)

lemma side_effects_states:
  "activated (option_side_effects o' en t)"
  "opt_states t i \<noteq> INACTIVE \<or> activated t \<or> i = OPTINDEX_NENV \<or> i = OPTINDEX_OENV \<Longrightarrow>
     opt_states (option_side_effects o' en t) i = opt_states t i"
  by (auto simp: option_side_effects_def Let_def request_states opt_is_def)

lemma size_states [simp]:
  "opt_states (telnet_size w h t) = opt_states t" "activated (telnet_size w h t) = activated t"
  by (simp_all add: telnet_size_def Let_def)

lemma deactivate_states:
  "opt_states (deactivate_option o' t) = (opt_states t)(o_index o' := REALLY_INACTIVE)"
  "activated (deactivate_option o' t) = activated t"
  by (simp_all add: deactivate_option_def)

text \<open>What activation leaves behind: the other ENVIRON option is off for good.\<close>

definition env_rival :: "Opt \<Rightarrow> optindex option" where
  "env_rival o' = (if o_send o' = WILL \<and> o_option o' = TELOPT_NEW_ENVIRON then Some OPTINDEX_OENV
     else if o_send o' = WILL \<and> o_option o' = TELOPT_OLD_ENVIRON then Some OPTINDEX_NENV else None)"

lemma activate_states:
  assumes "opt_states t i \<noteq> INACTIVE \<or> activated t \<or> i = OPTINDEX_NENV \<or> i = OPTINDEX_OENV"
  shows "opt_states (activate_option o' t) i =
     (if env_rival o' = Some i then REALLY_INACTIVE else opt_states t i)"
proof -
  define t1 where "t1 = (if o_send o' = WILL \<and> o_option o' = TELOPT_NAWS
               then telnet_size (term_width t) (term_height t) t else t)"
  define t2 where "t2 = (if o_send o' = WILL \<and>
                  (o_option o' = TELOPT_NEW_ENVIRON \<or> o_option o' = TELOPT_OLD_ENVIRON)
               then deactivate_option (if o_option o' = TELOPT_NEW_ENVIRON then o_oenv else o_nenv) t1
               else t1)"
  have 1: "opt_states t1 = opt_states t" "activated t1 = activated t" by (simp_all add: t1_def)
  have ne: "TELOPT_OLD_ENVIRON \<noteq> TELOPT_NEW_ENVIRON" by (simp add: telopt_defs)
  have 2: "opt_states t2 i = (if env_rival o' = Some i then REALLY_INACTIVE else opt_states t i)"
    "activated t2 = activated t"
    using ne by (auto simp: t2_def deactivate_states env_rival_def 1)
  have "opt_states (option_side_effects o' True t2) i = opt_states t2 i"
    by (rule side_effects_states(2)) (use assms 2 in \<open>auto split: if_splits\<close>)
  then show ?thesis
    using 2(1) by (simp add: activate_option_def Let_def t1_def [symmetric] t2_def [symmetric])
qed

lemma activated_activate: "activated (activate_option o' t)"
  by (simp add: activate_option_def Let_def side_effects_states(1))

lemma rival_of_env:
  assumes "o' \<in> set opts"
  shows "(o_index o' = OPTINDEX_NENV \<longleftrightarrow> env_rival o' = Some OPTINDEX_OENV) \<and>
    (o_index o' = OPTINDEX_OENV \<longleftrightarrow> env_rival o' = Some OPTINDEX_NENV)"
  using assms by (auto simp: opts_def opt_defs we_def they_def env_rival_def telopt_defs)

lemma neg_inv_activate:
  assumes "o' \<in> set opts" "neg_inv t" "opt_is t o' \<noteq> REALLY_INACTIVE" "opt_states t' = (opt_states t)(o_index o' := ACTIVE)"
  shows "neg_inv (activate_option o' t')"
proof -
  have s: "opt_states (activate_option o' t') i = (if env_rival o' = Some i then REALLY_INACTIVE
      else opt_states t' i)" if "i = OPTINDEX_NENV \<or> i = OPTINDEX_OENV" for i
    using that by (intro activate_states) auto
  show ?thesis
    using assms rival_of_env [OF assms(1)] activated_activate [of o' t']
    by (auto simp: neg_inv_def s opt_is_def)
qed

lemma neg_inv_proc_ack: "o' \<in> set opts \<Longrightarrow> neg_inv t \<Longrightarrow> neg_inv (proc_ack o' t)"
  using neg_inv_activate [of o' t "set_opt o' ACTIVE t"]
    neg_inv_activate [of o' t "send_opt (o_send o') (o_option o') (set_opt o' ACTIVE t)"]
  by (auto simp: proc_ack_def split: opt_state.split) (simp add: neg_inv_def)

lemma neg_inv_refused:
  assumes "neg_inv t"
  shows "neg_inv (refused_option o' t)"
  using assms side_effects_states by (auto simp: refused_option_def neg_inv_def opt_is_def)

lemma neg_inv_cong: "opt_states t' = opt_states t \<Longrightarrow> activated t' = activated t \<Longrightarrow> neg_inv t' = neg_inv t"
  by (simp add: neg_inv_def)

lemma neg_inv_simps [simp]:
  "neg_inv (sk_write m t) = neg_inv t" "neg_inv (sk_write_oob m t) = neg_inv t"
  "neg_inv (c_write m t) = neg_inv t" "neg_inv (emit e t) = neg_inv t"
  "neg_inv (send_opt cmd code t) = neg_inv t" "neg_inv (t\<lparr>t_state := st\<rparr>) = neg_inv t"
  "neg_inv (t\<lparr>in_synch := b\<rparr>) = neg_inv t" "neg_inv (t\<lparr>sb_opt := c, sb_buf := bs\<rparr>) = neg_inv t"
  "neg_inv (t\<lparr>sb_buf := bs\<rparr>) = neg_inv t" "neg_inv (t\<lparr>sb_opt := c\<rparr>) = neg_inv t"
  "neg_inv (t\<lparr>session_started := b\<rparr>) = neg_inv t"
  "neg_inv (telnet_size w h t) = neg_inv t"
  by (simp_all add: neg_inv_def)

lemma neg_inv_off:
  "neg_inv t \<Longrightarrow> opt_is t o' \<noteq> REALLY_INACTIVE \<Longrightarrow> neg_inv (set_opt o' INACTIVE t)"
  by (auto simp: neg_inv_def opt_is_def)

lemma neg_inv_side_effects: "neg_inv t \<Longrightarrow> neg_inv (option_side_effects o' en t)"
  using side_effects_states by (auto simp: neg_inv_def)

lemma neg_inv_proc_nak: "neg_inv t \<Longrightarrow> neg_inv (proc_nak o' t)"
  using neg_inv_refused [OF neg_inv_off, of t o' o'] neg_inv_off [of t o']
  by (cases "opt_is t o'") (simp_all add: proc_nak_def neg_inv_side_effects)

lemma neg_inv_proc_rec_opt: "neg_inv t \<Longrightarrow> neg_inv (proc_rec_opt cmd code t)"
  using neg_inv_proc_ack neg_inv_proc_nak
  by (auto simp: proc_rec_opt_def dest!: find_Some split: option.split)

lemma neg_inv_process_subneg [simp]: "neg_inv (process_subneg t) = neg_inv t"
  using process_subneg_cases [of t] by auto

lemma neg_inv_read_byte: "neg_inv t \<Longrightarrow> neg_inv (fst (read_byte c (t, ob)))"
  using neg_inv_proc_rec_opt
  by (cases "t_state t")
     (simp_all add: read_byte_def read_data_def read_iac_def subneg_addchar_def Let_def)

lemma neg_inv_flush: "neg_inv (fst (flush st)) = neg_inv (fst st)"
  by (cases st) (simp add: flush_def)

lemma neg_inv_read_loop: "neg_inv (fst st) \<Longrightarrow> neg_inv (fst (read_loop buf st))"
proof (induction buf arbitrary: st)
  case Nil
  then show ?case by simp
next
  case (Cons c buf)
  have "neg_inv (fst (read_byte c st))" using neg_inv_read_byte [of "fst st" c "snd st"] Cons.prems by simp
  then show ?case using Cons.IH by (simp add: neg_inv_flush)
qed

lemma neg_inv_do_telnet_read: "neg_inv t \<Longrightarrow> neg_inv (do_telnet_read buf t)"
  using neg_inv_read_loop [of "(t, [])" buf]
  by (auto simp: do_telnet_read_def Let_def case_prod_unfold)

lemma neg_inv_open: "neg_inv (telnet_open conf w h net seat)"
  by (simp add: telnet_open_def Let_def opts_def init_opt_def opt_is_def opt_defs we_def they_def neg_inv_def)

section \<open>Reachable states\<close>

text \<open>
  One step of the backend: a call from the socket layer, the seat or the front end.
\<close>

inductive telnet_step :: "telnet \<Rightarrow> telnet \<Rightarrow> bool" where
  step_receive: "telnet_step t (telnet_receive urgent data t)"
| step_sent: "telnet_step t (telnet_sent n t)"
| step_closing: "telnet_step t (telnet_closing msg t)"
| step_send: "telnet_step t (snd (telnet_send buf t))"
| step_size: "telnet_step t (telnet_size w h t)"
| step_special: "telnet_step t (telnet_special code t)"
| step_reconfig: "telnet_step t (telnet_reconfig conf t)"
| step_unthrottle: "telnet_unthrottle n t = Some t' \<Longrightarrow> telnet_step t t'"
| step_provide_ldisc: "telnet_step t (telnet_provide_ldisc b t)"

inductive reachable :: "telnet \<Rightarrow> bool" where
  reachable_open: "reachable (telnet_open conf w h net seat)"
| reachable_step: "reachable t \<Longrightarrow> telnet_step t t' \<Longrightarrow> reachable t'"

inductive_cases telnet_stepE: "telnet_step t t'"

lemma neg_inv_send_special: "neg_inv (snd (send_special_bytes ps t)) = neg_inv t"
  by (induction ps arbitrary: t) auto

lemma neg_inv_send_loop: "neg_inv (send_loop p t) = neg_inv t"
proof (induction p t rule: send_loop.induct)
  case (1 p t)
  show ?case
  proof (cases "p = []")
    case True
    then show ?thesis by (simp add: send_loop.simps)
  next
    case False
    obtain p' t' where st: "send_special_bytes (dropWhile (iswritable t) p)
        (sk_write (takeWhile (iswritable t) p) t) = (p', t')" by force
    have "neg_inv (send_loop p t) = neg_inv t'"
      using 1 [OF False refl refl] st False by (simp add: send_loop.simps [of p t])
    also have "\<dots> = neg_inv t"
      using neg_inv_send_special [of "dropWhile (iswritable t) p" "sk_write (takeWhile (iswritable t) p) t"] st
      by simp
    finally show ?thesis .
  qed
qed

lemma neg_inv_step: "telnet_step t t' \<Longrightarrow> neg_inv t \<Longrightarrow> neg_inv t'"
proof (induction rule: telnet_step.induct)
  case (step_receive t urgent data)
  then show ?case by (simp add: telnet_receive_def neg_inv_do_telnet_read)
next
  case (step_closing t msg)
  then show ?case
    by (auto simp: telnet_closing_def Let_def split: option.split intro: iffD2 [OF neg_inv_cong])
next
  case (step_send t buf)
  then show ?case by (simp add: telnet_send_def Let_def neg_inv_send_loop)
next
  case (step_special t code)
  then show ?case by (auto simp: telnet_special_def split: option.split special.split)
qed (auto simp: telnet_sent_def telnet_reconfig_def telnet_unthrottle_def telnet_provide_ldisc_def
    intro: iffD2 [OF neg_inv_cong] split: if_splits)

lemma reachable_neg_inv: "reachable t \<Longrightarrow> neg_inv t"
  by (induction rule: reachable.induct) (auto intro: neg_inv_open neg_inv_step)

text \<open>An option given up for good stays so.\<close>

definition given_up :: "optindex \<Rightarrow> telnet \<Rightarrow> bool" where
  "given_up i t \<longleftrightarrow> opt_states t i = REALLY_INACTIVE"

lemma given_up_simps [simp]:
  "given_up i (sk_write m t) = given_up i t" "given_up i (sk_write_oob m t) = given_up i t"
  "given_up i (c_write m t) = given_up i t" "given_up i (emit e t) = given_up i t"
  "given_up i (send_opt cmd code t) = given_up i t" "given_up i (t\<lparr>t_state := st\<rparr>) = given_up i t"
  "given_up i (t\<lparr>in_synch := b\<rparr>) = given_up i t" "given_up i (t\<lparr>sb_opt := c, sb_buf := bs\<rparr>) = given_up i t"
  "given_up i (t\<lparr>sb_buf := bs\<rparr>) = given_up i t" "given_up i (t\<lparr>session_started := b\<rparr>) = given_up i t"
  "given_up i (telnet_size w h t) = given_up i t" "given_up i (t\<lparr>sb_opt := c\<rparr>) = given_up i t"
  by (simp_all add: given_up_def)

lemma given_up_flush [simp]: "given_up i (fst (flush st)) = given_up i (fst st)"
  by (cases st) (simp add: flush_def)

lemma given_up_side_effects: "given_up i t \<Longrightarrow> given_up i (option_side_effects o' en t)"
  using side_effects_states(2) [of t i o' en] by (simp add: given_up_def)

lemma given_up_activate: "given_up i t \<Longrightarrow> given_up i (activate_option o' t)"
  using activate_states [of t i o'] by (simp add: given_up_def)

lemma given_up_set_opt:
  "given_up i t \<Longrightarrow> opt_is t o' \<noteq> REALLY_INACTIVE \<Longrightarrow> given_up i (set_opt o' st t)"
  by (auto simp: given_up_def opt_is_def)

lemma given_up_proc_rec_opt: "given_up i t \<Longrightarrow> given_up i (proc_rec_opt cmd code t)"
proof -
  assume i: "given_up i t"
  have "given_up i (proc_ack o' t)" for o'
    using i given_up_set_opt [OF i, of o' ACTIVE]
    by (cases "opt_is t o'") (simp_all add: proc_ack_def given_up_activate)
  moreover have "given_up i (refused_option o' t')" if "given_up i t'" for o' t'
    using that given_up_set_opt [of i "send_opt WILL TELOPT_OLD_ENVIRON t'" o_oenv REQUESTED]
    by (auto simp: refused_option_def opt_is_def intro!: given_up_side_effects)
  then have "given_up i (proc_nak o' t)" for o'
    using i given_up_set_opt [OF i, of o' INACTIVE]
    by (cases "opt_is t o'") (simp_all add: proc_nak_def given_up_side_effects)
  ultimately show ?thesis using i by (auto simp: proc_rec_opt_def split: option.split)
qed

lemma given_up_process_subneg [simp]: "given_up i (process_subneg t) = given_up i t"
  using process_subneg_cases [of t] by auto

lemma given_up_read_byte: "given_up i t \<Longrightarrow> given_up i (fst (read_byte c (t, ob)))"
  using given_up_proc_rec_opt
  by (cases "t_state t")
     (simp_all add: read_byte_def read_data_def read_iac_def subneg_addchar_def Let_def)

lemma given_up_read_loop: "given_up i (fst st) \<Longrightarrow> given_up i (fst (read_loop buf st))"
proof (induction buf arbitrary: st)
  case (Cons c buf)
  have "given_up i (fst (flush (read_byte c st)))"
    using given_up_read_byte [of i "fst st" c "snd st"] Cons.prems by simp
  then show ?case using Cons.IH by simp
qed simp

lemma given_up_send_loop: "given_up i (send_loop p t) = given_up i t"
proof (induction p t rule: send_loop.induct)
  case (1 p t)
  have sp: "given_up i (snd (send_special_bytes ps t')) = given_up i t'" for ps t'
    by (induction ps arbitrary: t') auto
  show ?case
  proof (cases "p = []")
    case False
    obtain p' t' where st: "send_special_bytes (dropWhile (iswritable t) p)
        (sk_write (takeWhile (iswritable t) p) t) = (p', t')" by force
    then show ?thesis
      using 1 [OF False refl refl] False sp [of "dropWhile (iswritable t) p" "sk_write (takeWhile (iswritable t) p) t"]
      by (simp add: send_loop.simps [of p t])
  qed (simp add: send_loop.simps)
qed

lemma given_up_step: "telnet_step t t' \<Longrightarrow> given_up i t \<Longrightarrow> given_up i t'"
proof (induction rule: telnet_step.induct)
  case (step_receive t urgent data)
  then show ?case
    using given_up_read_loop [of i "((if urgent then t\<lparr>in_synch := True\<rparr> else t)\<lparr>session_started := True\<rparr>, [])" data]
    by (auto simp: telnet_receive_def do_telnet_read_def Let_def case_prod_unfold split: if_splits)
next
  case (step_send t buf)
  then show ?case by (simp add: telnet_send_def Let_def given_up_send_loop)
next
  case (step_special t code)
  then show ?case by (auto simp: telnet_special_def split: option.split special.split)
qed (auto simp: given_up_def telnet_closing_def telnet_sent_def telnet_reconfig_def telnet_unthrottle_def
    telnet_provide_ldisc_def Let_def split: option.split if_splits)

lemma given_up_steps: "telnet_step\<^sup>*\<^sup>* t t' \<Longrightarrow> given_up i t \<Longrightarrow> given_up i t'"
  by (induction rule: rtranclp_induct) (auto intro: given_up_step)

text \<open>Every entry of the table is the one its own acknowledgements find.\<close>

lemma opts_distinct: "distinct (map (\<lambda>x. (o_send x, o_option x)) opts)"
  by (simp add: opts_def opt_defs we_def they_def telopt_defs cmd_defs)

lemma find_unique:
  assumes "a \<in> set xs" "P a" "\<forall>x \<in> set xs. P x \<longrightarrow> x = a"
  shows "List.find P xs = Some a"
proof (cases "List.find P xs")
  case None
  then show ?thesis using assms(1,2) by (auto simp: find_None_iff)
next
  case (Some y)
  then show ?thesis using find_Some [OF Some] assms(3) by simp
qed

lemma send_of_reply:
  "o' \<in> set opts \<Longrightarrow> cmd = o_ack o' \<or> cmd = o_nak o' \<Longrightarrow>
     o_send o' = (if cmd = DO \<or> cmd = DONT then WILL else DO)"
  by (drule opts_verbs) (auto simp: cmd_defs)

lemma find_opts:
  assumes "o' \<in> set opts" "cmd = o_ack o' \<or> cmd = o_nak o'"
  shows "List.find (\<lambda>x. o_option x = o_option o' \<and> (o_ack x = cmd \<or> o_nak x = cmd)) opts = Some o'"
proof (rule find_unique [OF assms(1)], goal_cases)
  case 1
  show ?case using assms(2) by auto
next
  case 2
  show ?case
  proof (intro ballI impI)
  fix x assume x: "x \<in> set opts" "o_option x = o_option o' \<and> (o_ack x = cmd \<or> o_nak x = cmd)"
  have "o_send x = o_send o'"
    using send_of_reply [OF x(1), of cmd] send_of_reply [OF assms] x(2) by auto
  then show "x = o'"
    using opts_distinct x assms(1) by (auto simp: distinct_map inj_on_def)
  qed
qed

lemma proc_rec_known:
  assumes "o' \<in> set opts"
  shows "proc_rec_opt (o_ack o') (o_option o') t = proc_ack o' t"
    "proc_rec_opt (o_nak o') (o_option o') t = proc_nak o' t"
proof -
  have "o_nak o' \<noteq> o_ack o'" using opts_verbs [OF assms] by (auto simp: cmd_defs)
  then show "proc_rec_opt (o_ack o') (o_option o') t = proc_ack o' t"
    "proc_rec_opt (o_nak o') (o_option o') t = proc_nak o' t"
    using find_opts [OF assms] by (simp_all add: proc_rec_opt_def)
qed

lemma env_rival_range: "env_rival o' = Some i \<Longrightarrow> i = OPTINDEX_NENV \<or> i = OPTINDEX_OENV"
  by (auto simp: env_rival_def split: if_splits)

lemma rival_other: "o' \<in> set opts \<Longrightarrow> env_rival o' \<noteq> Some (o_index o')"
  using rival_of_env [of o'] env_rival_range [of o' "o_index o'"] by fastforce

lemma ack_settles:
  assumes "o' \<in> set opts" "opt_is t o' \<noteq> REALLY_INACTIVE"
  shows "opt_is (proc_ack o' t) o' = ACTIVE"
proof -
  have "opt_states (activate_option o' t') (o_index o') = ACTIVE"
    if "opt_states t' (o_index o') = ACTIVE" for t'
    using activate_states [of t' "o_index o'" o'] that rival_other [OF assms(1)] by simp
  then show ?thesis
    using assms(2) by (cases "opt_is t o'") (simp_all add: proc_ack_def opt_is_def)
qed

lemma nak_settles:
  assumes "o' \<in> set opts" "neg_inv t"
  shows "opt_is (proc_nak o' t) o' \<in> {INACTIVE, REALLY_INACTIVE}"
proof -
  have act: "activated t" if "opt_is t o' = REQUESTED \<or> opt_is t o' = ACTIVE"
    using assms(2) that by (auto simp: neg_inv_def opt_is_def)
  have se: "opt_states (option_side_effects o' False t') = opt_states t'" if "activated t'" for t'
    using that side_effects_states(2) by (auto simp: fun_eq_iff)
  have "o_index o' \<noteq> OPTINDEX_OENV" if "o_send o' = WILL" "o_option o' = TELOPT_NEW_ENVIRON"
    using that rival_of_env [OF assms(1)] by (auto simp: env_rival_def)
  then show ?thesis
    using act se by (cases "opt_is t o'") (auto simp: proc_nak_def refused_option_def opt_is_def)
qed

lemma given_up_refused:
  "o' \<in> set opts \<Longrightarrow> given_up (o_index o') t \<Longrightarrow>
     proc_rec_opt (o_ack o') (o_option o') t = send_opt (o_nsend o') (o_option o') t"
  by (simp add: proc_rec_known proc_ack_def given_up_def opt_is_def)

lemma env_refused:
  "given_up OPTINDEX_OENV t \<Longrightarrow> proc_rec_opt DO TELOPT_OLD_ENVIRON t = send_opt WONT TELOPT_OLD_ENVIRON t"
  "given_up OPTINDEX_NENV t \<Longrightarrow> proc_rec_opt DO TELOPT_NEW_ENVIRON t = send_opt WONT TELOPT_NEW_ENVIRON t"
proof -
  have "o_ack o_oenv = DO" "o_nsend o_oenv = WONT" "o_option o_oenv = TELOPT_OLD_ENVIRON"
    "o_ack o_nenv = DO" "o_nsend o_nenv = WONT" "o_option o_nenv = TELOPT_NEW_ENVIRON"
    by (simp_all add: o_oenv_def o_nenv_def we_def)
  then show "given_up OPTINDEX_OENV t \<Longrightarrow> proc_rec_opt DO TELOPT_OLD_ENVIRON t = send_opt WONT TELOPT_OLD_ENVIRON t"
    "given_up OPTINDEX_NENV t \<Longrightarrow> proc_rec_opt DO TELOPT_NEW_ENVIRON t = send_opt WONT TELOPT_NEW_ENVIRON t"
    using given_up_refused [of o_oenv t] given_up_refused [of o_nenv t] by simp_all
qed

section \<open>The ENVIRON reply\<close>

lemma length_environ_vars:
  "length (environ_vars conf var value) + 20 \<le> environ_bsize conf"
proof -
  have "length (concat (map (\<lambda>(ekey, eval). var # ekey @ value # eval) es)) =
      sum_list (map (\<lambda>(ekey, eval). length ekey + length eval + 2) es)" for es
    by (induction es) auto
  then show ?thesis by (simp add: environ_vars_def environ_bsize_def split: option.split)
qed

section \<open>Properties\<close>

text \<open>A backend just opened, for the witnesses.\<close>

definition plain_conf :: tconf where
  "plain_conf = \<lparr>termspeed = [51, 56], termtype = [120], environmt = [], username = None,
     rfc_environ = False, passive_telnet = True\<rparr>"

definition idle_telnet :: telnet where
  "idle_telnet = telnet_open plain_conf 80 24 (\<lambda>_. 0) (\<lambda>_. 0)"

lemma idle_fields:
  "t_s idle_telnet" "t_state idle_telnet = TOP_LEVEL" "\<not> in_synch idle_telnet" "opt_states idle_telnet = (\<lambda>_. INACTIVE)"
  "t_out idle_telnet = []" "t_conf idle_telnet = plain_conf" "\<not> has_ldisc idle_telnet"
  by (simp_all add: idle_telnet_def telnet_open_def plain_conf_def opts_def set_opt_def fun_eq_iff)

lemma nenv_active: "opt_is (telnet_receive False [IAC, DO, TELOPT_NEW_ENVIRON] idle_telnet) o_nenv = ACTIVE"
proof -
  define t where "t = idle_telnet\<lparr>session_started := True, t_state := SEENDO\<rparr>"
  have r: "telnet_receive False [IAC, DO, TELOPT_NEW_ENVIRON] idle_telnet =
    (proc_rec_opt DO TELOPT_NEW_ENVIRON t)\<lparr>t_state := TOP_LEVEL\<rparr>"
    by (simp add: t_def telnet_receive_def do_telnet_read_def flush_def read_byte_def read_data_def read_iac_def
        idle_fields cmd_defs)
  have o': "o_nenv \<in> set opts" "opt_is t o_nenv \<noteq> REALLY_INACTIVE"
    by (simp_all add: t_def opts_def opt_is_def idle_fields)
  have p: "proc_rec_opt DO TELOPT_NEW_ENVIRON t = proc_ack o_nenv t"
    using proc_rec_known(1) [OF o'(1), of t] by (simp add: opt_defs we_def)
  show ?thesis using ack_settles [OF o'] by (simp add: r p opt_is_def)
qed

text \<open>
  C14: how TCP cuts the incoming stream does not matter. Reading the pieces of any stream one
  after the other leaves the same backend (every field but the backlog), the same
  bytes shown on the terminal and the same replies sent, in the same order, as reading it
  in one piece; also when a cut falls inside a command, a subnegotiation or CR NUL.
\<close>

theorem telnet_segments:
  "core (do_telnet_read (concat segs) t) = core (fold do_telnet_read segs t) \<and>
   shown (do_telnet_read (concat segs) t) = shown (fold do_telnet_read segs t)"
  using do_telnet_read_segments [of segs t] by (simp add: sim_read_def sim_def)

text \<open>
  C15: transparency. Whatever bytes the user sends, IAC and CR included, a Telnet reader that
  is between two characters and agrees on BINARY mode shows exactly these bytes and is
  again between two characters.
\<close>

theorem telnet_transparent:
  assumes "t_s s" and "t_state r = TOP_LEVEL" "\<not> in_synch r"
    and "opt_is s o_we_bin = ACTIVE \<longleftrightarrow> opt_is r o_they_bin = ACTIVE"
  shows "\<exists>wire. written (snd (telnet_send buf s)) = written s @ wire \<and>
    shown (do_telnet_read wire r) = shown r @ buf \<and> t_state (do_telnet_read wire r) = TOP_LEVEL"
proof -
  define bin where "bin \<longleftrightarrow> opt_is r o_they_bin = ACTIVE"
  let ?wire = "concat (map (sent_as s) buf)"
  have "ready bin (shown r) (r, [])" using assms by (simp add: ready_def bin_def)
  from read_sent_all [OF this, of s buf] assms(4)
  have "ready bin (shown r @ buf) (read_loop ?wire (r, []))" by (simp add: bin_def)
  then have "shown (do_telnet_read ?wire r) = shown r @ buf" "t_state (do_telnet_read ?wire r) = TOP_LEVEL"
    by (simp_all add: ready_def do_telnet_read_view)
  moreover have "written (snd (telnet_send buf s)) = written s @ ?wire"
    using assms(1) send_loop_written by (simp add: telnet_send_def Let_def)
  ultimately show ?thesis by blast
qed

theorem telnet_transparent_witness:
  "\<exists>wire. written (snd (telnet_send [65, 255, 13, 10] idle_telnet)) = wire \<and>
     shown (do_telnet_read wire idle_telnet) = [65, 255, 13, 10]"
  using telnet_transparent [OF idle_fields(1-3), of "[65, 255, 13, 10]"]
  by (simp add: idle_fields opt_is_def written_def shown_def)

text \<open>
  C16: no option that the backend does not implement is ever agreed to. Whatever bytes a server
  sends, reading them only appends events, and every three-byte WILL or DO command among
  them names an option of the table, on the side the table has it.
\<close>

theorem telnet_agrees_only_to_known:
  "\<exists>es. t_out (do_telnet_read buf t) = t_out t @ es \<and>
     {(cmd, code). Write [IAC, cmd, code] \<in> set es \<and> cmd \<in> {WILL, DO}} \<subseteq>
       (\<lambda>o'. (o_send o', o_option o')) ` set opts"
proof -
  obtain es where "t_out (do_telnet_read buf t) = t_out t @ es" "\<forall>e \<in> set es. polite e"
    using adds_do_telnet_read unfolding adds_def by blast
  then show ?thesis by (force simp: polite_def)
qed

text \<open>
  C17: in no reachable state are both ENVIRON options active. Once one of them is active, the
  other is given up for good: in every state reached from there by any further calls it is
  off, and a request for it is answered with nothing but a refusal. Before the first option
  has changed, none is on.
\<close>

theorem environ_options_exclusive:
  assumes "reachable t" "telnet_step\<^sup>*\<^sup>* t t'"
  shows "(opt_is t o_nenv = ACTIVE \<longrightarrow> opt_is t' o_oenv = REALLY_INACTIVE \<and>
      proc_rec_opt DO TELOPT_OLD_ENVIRON t' = send_opt WONT TELOPT_OLD_ENVIRON t') \<and>
    (opt_is t o_oenv = ACTIVE \<longrightarrow> opt_is t' o_nenv = REALLY_INACTIVE \<and>
      proc_rec_opt DO TELOPT_NEW_ENVIRON t' = send_opt WONT TELOPT_NEW_ENVIRON t') \<and>
    (\<not> activated t \<longrightarrow> (\<forall>i. opt_states t i = INACTIVE))"
  using reachable_neg_inv [OF assms(1)] given_up_steps [OF assms(2)] env_refused [of t']
  by (simp add: neg_inv_def opt_is_def given_up_def)

theorem environ_options_exclusive_witness:
  "opt_is (telnet_receive False [IAC, DO, TELOPT_NEW_ENVIRON] idle_telnet) o_nenv = ACTIVE \<and>
   opt_is (telnet_sent 0 (telnet_receive False [IAC, DO, TELOPT_NEW_ENVIRON] idle_telnet)) o_oenv = REALLY_INACTIVE"
proof -
  let ?t = "telnet_receive False [IAC, DO, TELOPT_NEW_ENVIRON] idle_telnet"
  have "reachable ?t" unfolding idle_telnet_def by (rule reachable_step [OF reachable_open step_receive])
  moreover have "telnet_step\<^sup>*\<^sup>* ?t (telnet_sent 0 ?t)" by (rule r_into_rtranclp, rule step_sent)
  ultimately show ?thesis using environ_options_exclusive [of ?t "telnet_sent 0 ?t"] nenv_active by simp
qed

text \<open>
  C18: negotiation settles. In every reachable state, a server's answer about an option the
  backend implements has its effect the first time. The same answer again changes
  and sends nothing, with one exception: an option given up for good is refused again
  every time the server offers it, and nothing else changes.
\<close>

theorem negotiation_settles:
  assumes "reachable t" "o' \<in> set opts" "cmd = o_ack o' \<or> cmd = o_nak o'"
  shows "proc_rec_opt cmd (o_option o') (proc_rec_opt cmd (o_option o') t) =
    (if opt_is t o' = REALLY_INACTIVE \<and> cmd = o_ack o'
     then send_opt (o_nsend o') (o_option o') (proc_rec_opt cmd (o_option o') t)
     else proc_rec_opt cmd (o_option o') t)"
proof (cases "cmd = o_ack o'")
  case True
  then show ?thesis
    using ack_settles [OF assms(2), of t]
    by (cases "opt_is t o' = REALLY_INACTIVE")
       (simp_all add: proc_rec_known [OF assms(2)] proc_ack_def opt_is_def)
next
  case False
  then have "cmd = o_nak o'" using assms(3) by simp
  then show ?thesis
    using nak_settles [OF assms(2) reachable_neg_inv [OF assms(1)]] False
    by (auto simp: proc_rec_known [OF assms(2)] proc_nak_def)
qed

theorem negotiation_settles_witness:
  "proc_rec_opt WILL TELOPT_ECHO (proc_rec_opt WILL TELOPT_ECHO idle_telnet) = proc_rec_opt WILL TELOPT_ECHO idle_telnet"
  using negotiation_settles [of idle_telnet o_echo WILL] reachable_open [of plain_conf 80 24 "\<lambda>_. 0" "\<lambda>_. 0"]
  by (simp add: idle_telnet_def [symmetric] idle_fields opt_is_def) (simp add: o_echo_def they_def)

text \<open>
  C19: the window size message. On an open connection with the option active, \<open>telnet_size\<close>
  writes a message that fits its 24-byte buffer and that a Telnet reader between two
  characters takes for one complete subnegotiation: at its end the reader is between two
  characters again, has shown nothing, and has the four bytes of the size, with the doubled IAC
  bytes single again, as the data of the NAWS option.
\<close>

theorem naws_roundtrip:
  assumes "t_s s" "opt_is s o_naws = ACTIVE" "t_state t = TOP_LEVEL"
  shows "\<exists>wire. written (telnet_size w h s) = written s @ wire \<and> length wire \<le> 24 \<and>
    read_loop wire (t, []) =
      (t\<lparr>sb_opt := TELOPT_NAWS,
         sb_buf := [ucast (drop_bit 8 w), ucast (w AND 0xFF), ucast (drop_bit 8 h), ucast (h AND 0xFF)],
         t_state := TOP_LEVEL\<rparr>, [])"
proof (intro exI conjI)
  let ?bs = "[ucast (drop_bit 8 w), ucast (w AND 0xFF), ucast (drop_bit 8 h), ucast (h AND 0xFF)] :: byte list"
  let ?t = "t\<lparr>sb_opt := TELOPT_NAWS, sb_buf := [], t_state := SUBNEGOT\<rparr>"
  show "written (telnet_size w h s) = written s @ naws_msg w h"
    using assms(1,2) by (simp add: telnet_size_def opt_is_def) (simp add: written_def)
  show "length (naws_msg w h) \<le> 24" by (simp add: naws_msg_def esc_def)
  have m: "naws_msg w h = [IAC, SB, TELOPT_NAWS] @ concat (map esc ?bs) @ [IAC, SE]"
    by (simp add: naws_msg_def)
  have "read_loop (naws_msg w h) (t, []) = read_loop [IAC, SE] (?t\<lparr>sb_buf := ?bs\<rparr>, [])"
    unfolding m read_loop_append subneg_begin [OF assms(3)] by (subst subneg_read) simp_all
  also have "\<dots> = ((process_subneg (?t\<lparr>sb_buf := ?bs, t_state := SUBNEG_IAC\<rparr>))\<lparr>t_state := TOP_LEVEL\<rparr>, [])"
    by (subst subneg_end) simp_all
  also have "\<dots> = (t\<lparr>sb_opt := TELOPT_NAWS, sb_buf := ?bs, t_state := TOP_LEVEL\<rparr>, [])"
    by (simp add: process_subneg_def telopt_defs)
  finally show "read_loop (naws_msg w h) (t, []) =
    (t\<lparr>sb_opt := TELOPT_NAWS, sb_buf := ?bs, t_state := TOP_LEVEL\<rparr>, [])" .
qed

definition naws_telnet :: telnet where
  "naws_telnet = set_opt o_naws ACTIVE idle_telnet"

theorem naws_roundtrip_witness:
  "\<exists>wire. written (telnet_size 255 300 naws_telnet) = wire \<and>
     sb_buf (fst (read_loop wire (idle_telnet, []))) = [0, 255, 1, 44]"
  using naws_roundtrip [of naws_telnet idle_telnet 255 300]
  by (auto simp: naws_telnet_def idle_fields opt_is_def set_opt_def written_def)

text \<open>
  the ENVIRON reply never overruns the buffer that was sized for it, for any list of
  variables and any user name.
\<close>

theorem environ_reply_fits: "length (environ_msg code conf var value) \<le> environ_bsize conf"
proof -
  have "length (environ_msg code conf var value) = length (environ_vars conf var value) + 6"
    by (simp add: environ_msg_def)
  moreover have "length (environ_vars conf var value) + 20 \<le> environ_bsize conf"
    by (rule length_environ_vars)
  ultimately show ?thesis by linarith
qed




end
