(* ===== verification/Wildcard.thy ===== *)
theory Wildcard
  imports Bytes
begin

text \<open>
  The wildcard matcher of \<open>putty-src/wildcard.c\<close>, used on file names by PSCP and PSFTP.

  A pointer into the wildcard is the list of bytes from it to the end of the memory, the
  terminating NUL the last of them: reading through the empty list is a read outside the
  memory. The target pointer is the list of bytes up to \<open>target_end\<close>; \<open>beyond\<close> are the
  bytes that lie behind it in memory (for a C string its NUL), because one loop of the
  code looks at them. \<open>None\<close> is a read outside the memory, a failed assertion or a loop
  that does not end.
\<close>

section \<open>The matcher\<close>

definition STAR :: byte where "STAR = 42"
definition QUERY :: byte where "QUERY = 63"
definition LBRACKET :: byte where "LBRACKET = 91"
definition RBRACKET :: byte where "RBRACKET = 93"
definition BACKSLASH :: byte where "BACKSLASH = 92"
definition CARET :: byte where "CARET = 94"
definition DASH :: byte where "DASH = 45"

lemmas char_defs = STAR_def QUERY_def LBRACKET_def RBRACKET_def BACKSLASH_def CARET_def DASH_def

datatype wc_err = WC_TRAILINGBACKSLASH | WC_UNCLOSEDCLASS | WC_INVALIDRANGE

definition wc_code :: "wc_err \<Rightarrow> int" where
  "wc_code e = (case e of WC_TRAILINGBACKSLASH \<Rightarrow> 1 | WC_UNCLOSEDCLASS \<Rightarrow> 2 | WC_INVALIDRANGE \<Rightarrow> 3)"

text \<open>
  The loop over a character class, from behind the bracket and the caret: a syntax error,
  or the pointer to the closing bracket and \<open>matched\<close>.
\<close>

function class_loop :: "byte list \<Rightarrow> byte \<Rightarrow> bool \<Rightarrow> (wc_err + byte list \<times> bool) option" where
  "class_loop f ourchr matched =
     (case f of [] \<Rightarrow> None | c # f1 \<Rightarrow>
        if c = RBRACKET then Some (Inr (f, matched))
        else (case (if c = BACKSLASH then f1 else f) of [] \<Rightarrow> None | lower # f2 \<Rightarrow>
          if lower = 0 then Some (Inl WC_UNCLOSEDCLASS)
          else (case f2 of [] \<Rightarrow> None | d # f3 \<Rightarrow>
            if d = DASH then
              (case f3 of [] \<Rightarrow> None | e # f4 \<Rightarrow>
                 if e = RBRACKET then Some (Inl WC_INVALIDRANGE)
                 else (case (if e = BACKSLASH then f4 else f3) of [] \<Rightarrow> None | upper # f5 \<Rightarrow>
                   if upper = 0 then Some (Inl WC_UNCLOSEDCLASS)
                   else class_loop f5 ourchr
                     (matched \<or> (if lower > upper then upper \<le> ourchr \<and> ourchr \<le> lower
                                 else lower \<le> ourchr \<and> ourchr \<le> upper))))
            else class_loop f2 ourchr (matched \<or> ourchr = lower))))"
  by pat_completeness auto
termination by (relation "measure (\<lambda>(f, _, _). length f)") (auto split: if_splits)

declare class_loop.simps [simp del]

datatype frag_result = Match "byte list" "byte list" | Fail | Err wc_err

function wc_match_fragment :: "byte list \<Rightarrow> byte list \<Rightarrow> frag_result option" where
  "wc_match_fragment f t =
     (case f of [] \<Rightarrow> None | c # f1 \<Rightarrow>
        if c \<noteq> 0 \<and> c \<noteq> STAR \<and> t \<noteq> [] then
          (if c = BACKSLASH then
             (case f1 of [] \<Rightarrow> None | d # f2 \<Rightarrow>
                if d = 0 then Some (Err WC_TRAILINGBACKSLASH)
                else if d \<noteq> hd t then Some Fail
                else wc_match_fragment f2 (tl t))
           else if c = QUERY then wc_match_fragment f1 (tl t)
           else if c = LBRACKET then
             (case f1 of [] \<Rightarrow> None | d # f2 \<Rightarrow>
                let invert = (d = CARET) in
                case class_loop (if invert then f2 else f1) (hd t) False of
                  None \<Rightarrow> None
                | Some (Inl e) \<Rightarrow> Some (Err e)
                | Some (Inr (g, matched)) \<Rightarrow>
                    if invert = matched then Some Fail else wc_match_fragment (tl g) (tl t))
           else if c \<noteq> hd t then Some Fail
           else wc_match_fragment f1 (tl t))
        else if c = 0 \<or> c = STAR then Some (Match f t)
        else Some Fail)"
  by pat_completeness auto
termination by (relation "measure (\<lambda>(_, t). length t)") auto

declare wc_match_fragment.simps [simp del]

text \<open>
  The search for a fragment behind an asterisk: \<open>Found\<close> is the \<open>break\<close> with the pointers
  behind the match, \<open>Return\<close> a \<open>return\<close>.
\<close>

datatype search_result = Found "byte list" "byte list" | Return int

definition frag_code :: "frag_result \<Rightarrow> int" where
  "frag_code r = (case r of Match _ _ \<Rightarrow> 1 | Fail \<Rightarrow> 0 | Err e \<Rightarrow> - wc_code e)"

function search_loop :: "byte list \<Rightarrow> byte list \<Rightarrow> byte list \<Rightarrow> search_result option" where
  "search_loop w t beyond =
     (case t @ beyond of
        [] \<Rightarrow> None
      | b # _ \<Rightarrow>
          if b = 0 then Some (Return 0)
          else (case wc_match_fragment w t of
              None \<Rightarrow> None
            | Some (Err e) \<Rightarrow> Some (Return (- wc_code e))
            | Some (Match w' t') \<Rightarrow>
                (case w' of [] \<Rightarrow> None | c # _ \<Rightarrow>
                   if c = 0 \<and> t' \<noteq> []
                   then map_option (\<lambda>r. Return (frag_code r))
                          (wc_match_fragment w (drop (length t') t))
                   else Some (Found w' t'))
            | Some Fail \<Rightarrow> search_loop w (tl t) (if t = [] then tl beyond else beyond)))"
  by pat_completeness auto
termination
  by (relation "measure (\<lambda>(_, t, beyond). length t + length beyond)")
     (auto simp: append_eq_Cons_conv Cons_eq_append_conv)

declare search_loop.simps [simp del]

partial_function (option) wc_match_inner_loop ::
  "byte list \<Rightarrow> byte list \<Rightarrow> byte list \<Rightarrow> int option" where
  "wc_match_inner_loop w t beyond =
     (case w of [] \<Rightarrow> None | c # _ \<Rightarrow>
        if c = 0 then Some (if t = [] then 1 else 0)
        else if c \<noteq> STAR then None
        else let w = dropWhile (\<lambda>c. c = STAR) w in
          (case w of [] \<Rightarrow> None | c # _ \<Rightarrow>
             if c = 0 then Some 1
             else (case search_loop w t beyond of
                 None \<Rightarrow> None
               | Some (Return r) \<Rightarrow> Some r
               | Some (Found w' t') \<Rightarrow> wc_match_inner_loop w' t' beyond)))"

declare wc_match_inner_loop.simps [code]

definition wc_match_inner :: "byte list \<Rightarrow> byte list \<Rightarrow> byte list \<Rightarrow> int option" where
  "wc_match_inner w t beyond =
     (case w of [] \<Rightarrow> None | c # _ \<Rightarrow>
        if c \<noteq> STAR then
          (case wc_match_fragment w t of
             None \<Rightarrow> None
           | Some (Match w' t') \<Rightarrow> wc_match_inner_loop w' t' beyond
           | Some r \<Rightarrow> Some (frag_code r))
        else wc_match_inner_loop w t beyond)"

text \<open>
  \<open>wc_match\<close> gets two C strings, here without their NULs: \<open>strlen\<close> finds the end of the target.
\<close>

definition wc_match :: "byte list \<Rightarrow> byte list \<Rightarrow> int option" where
  "wc_match w target =
     (let mem = target @ [0] in
      wc_match_inner (w @ [0]) (takeWhile (\<lambda>c. c \<noteq> 0) mem) (dropWhile (\<lambda>c. c \<noteq> 0) mem))"

text \<open>\<open>wc_match_pl\<close> gets a pointer and a length: anything may lie behind.\<close>

definition wc_match_pl :: "byte list \<Rightarrow> byte list \<Rightarrow> byte list \<Rightarrow> int option" where
  "wc_match_pl w target beyond = wc_match_inner (w @ [0]) target beyond"

text \<open>\<open>wc_unescape\<close>: the output and \<open>True\<close>, or \<open>None\<close> for a returned \<open>False\<close>.\<close>

fun wc_unescape :: "byte list \<Rightarrow> byte list option" where
  "wc_unescape [] = Some []"
| "wc_unescape (c # w) =
     (if c = BACKSLASH then (case w of [] \<Rightarrow> Some [] | d # w' \<Rightarrow> map_option (Cons d) (wc_unescape w'))
      else if c = STAR \<or> c = QUERY \<or> c = LBRACKET \<or> c = RBRACKET then None
      else map_option (Cons c) (wc_unescape w))"

section \<open>Error messages\<close>

text \<open>
  The texts of \<open>wc_error\<close>. The first one begins with two quotes: the C literal's
  backslash escapes the quote behind it.
\<close>

definition wc_error :: "int \<Rightarrow> string" where
  "wc_error value' =
     (let v = \<bar>value'\<bar> in
      if v = wc_code WC_TRAILINGBACKSLASH
      then [CHR 0x27, CHR 0x27] @ '' occurred at end of string (expected another character)''
      else if v = wc_code WC_UNCLOSEDCLASS then ''expected ']' to close character class''
      else if v = wc_code WC_INVALIDRANGE
      then ''character range was not terminated (']' just after '-')''
      else ''INTERNAL ERROR: unrecognised wildcard error number'')"

section \<open>Reading a terminated wildcard\<close>

text \<open>
  For the proofs: the same code on the wildcard without its NUL, where \<open>at f\<close>, the byte
  under a pointer, is NUL at the end. The lemmas \<open>class_loop_scan\<close> to \<open>wc_match_inner_scan\<close> show
  that the code computes the same on memory that holds the NUL, so it never reads behind it.
\<close>

definition at :: "byte list \<Rightarrow> byte" where
  "at f = (case f of [] \<Rightarrow> 0 | c # _ \<Rightarrow> c)"

definition unescape1 :: "byte list \<Rightarrow> byte list" where
  "unescape1 f = (if at f = BACKSLASH then tl f else f)"

lemma length_unescape1: "length (unescape1 f) \<le> length f"
  by (simp add: unescape1_def)

lemma at_neq_0: "at f \<noteq> 0 \<Longrightarrow> f \<noteq> []"
  by (auto simp: at_def)

function class_scan :: "byte list \<Rightarrow> byte \<Rightarrow> bool \<Rightarrow> wc_err + byte list \<times> bool" where
  "class_scan f0 ourchr matched =
     (if at f0 = RBRACKET then Inr (f0, matched)
      else let f = unescape1 f0 in
        if at f = 0 then Inl WC_UNCLOSEDCLASS
        else if at (tl f) = DASH then
          (let lower = at f; f = tl (tl f) in
           if at f = RBRACKET then Inl WC_INVALIDRANGE
           else let f = unescape1 f in
             if at f = 0 then Inl WC_UNCLOSEDCLASS
             else let upper = at f;
                      (lower, upper) = (if lower > upper then (upper, lower) else (lower, upper))
               in class_scan (tl f) ourchr (matched \<or> lower \<le> ourchr \<and> ourchr \<le> upper))
        else class_scan (tl f) ourchr (matched \<or> ourchr = at f))"
  by pat_completeness auto
termination
proof (relation "measure (\<lambda>(f, _, _). length f)", goal_cases)
  case (2 f0 c m f lower f' f'' upper lu lower' upper')
  have "f'' \<noteq> []" using 2 by (auto dest: at_neq_0)
  moreover have "length f'' \<le> length (tl (tl f0))"
    using 2 by (auto simp: unescape1_def split: if_splits)
  ultimately have "length (tl f'') < length f0" by (cases f'') auto
  then show ?case by simp
next
  case (3 f0 c m f)
  have "f \<noteq> []" "length f \<le> length f0" using 3 length_unescape1 by (auto dest: at_neq_0)
  then show ?case by (cases f) auto
qed simp

declare class_scan.simps [simp del]

function fragment_scan :: "byte list \<Rightarrow> byte list \<Rightarrow> frag_result" where
  "fragment_scan f t =
     (if at f \<noteq> 0 \<and> at f \<noteq> STAR \<and> t \<noteq> [] then
        (if at f = BACKSLASH then
           (if at (tl f) = 0 then Err WC_TRAILINGBACKSLASH
            else if at (tl f) \<noteq> hd t then Fail
            else fragment_scan (tl (tl f)) (tl t))
         else if at f = QUERY then fragment_scan (tl f) (tl t)
         else if at f = LBRACKET then
           (let invert = (at (tl f) = CARET);
                g = (if invert then tl (tl f) else tl f)
            in case class_scan g (hd t) False of
                 Inl e \<Rightarrow> Err e
               | Inr (g', matched) \<Rightarrow>
                   if invert = matched then Fail else fragment_scan (tl g') (tl t))
         else if at f \<noteq> hd t then Fail
         else fragment_scan (tl f) (tl t))
      else if at f = 0 \<or> at f = STAR then Match f t
      else Fail)"
  by pat_completeness auto
termination by (relation "measure (\<lambda>(_, t). length t)") auto

declare fragment_scan.simps [simp del]

function search_scan :: "byte list \<Rightarrow> byte list \<Rightarrow> byte list \<Rightarrow> search_result option" where
  "search_scan w t beyond =
     (case t @ beyond of
        [] \<Rightarrow> None
      | b # _ \<Rightarrow>
          if b = 0 then Some (Return 0)
          else (case fragment_scan w t of
              Err e \<Rightarrow> Some (Return (- wc_code e))
            | Match w' t' \<Rightarrow>
                if at w' = 0 \<and> t' \<noteq> []
                then Some (Return (frag_code (fragment_scan w (drop (length t') t))))
                else Some (Found w' t')
            | Fail \<Rightarrow> search_scan w (tl t) (if t = [] then tl beyond else beyond)))"
  by pat_completeness auto
termination
  by (relation "measure (\<lambda>(_, t, beyond). length t + length beyond)")
     (auto simp: append_eq_Cons_conv Cons_eq_append_conv)

declare search_scan.simps [simp del]

lemma class_scan_shorter: "class_scan f c m = Inr (f', m') \<Longrightarrow> length f' \<le> length f"
proof (induction f c m rule: class_scan.induct)
  case (1 f0 c m)
  have u: "length (unescape1 g) \<le> length g" for g by (rule length_unescape1)
  show ?case
  proof (cases "at f0 = RBRACKET")
    case True
    then show ?thesis using "1.prems" by (simp add: class_scan.simps [of f0])
  next
    case False
    define f where "f = unescape1 f0"
    have nz: "at f \<noteq> 0" using "1.prems" False by (auto simp: class_scan.simps [of f0] f_def)
    show ?thesis
    proof (cases "at (tl f) = DASH")
      case True
      define h where "h = unescape1 (tl (tl f))"
      have "length f' \<le> length (tl h)"
        using "1.prems" "1.IH"(1) [OF False f_def nz True refl refl _ h_def] False nz True
        by (auto simp: class_scan.simps [of f0] f_def [symmetric] h_def [symmetric] Let_def
            split: if_splits)
      also have "\<dots> \<le> length f0" using u [of "tl (tl f)"] u [of f0] by (simp add: h_def f_def)
      finally show ?thesis .
    next
      case False': False
      then have "length f' \<le> length (tl f)"
        using "1.prems" "1.IH"(2) [OF False f_def nz False'] False nz
        by (simp add: class_scan.simps [of f0] f_def [symmetric] Let_def)
      also have "\<dots> \<le> length f0" using u [of f0] by (simp add: f_def)
      finally show ?thesis .
    qed
  qed
qed

lemma length_tl_le: "length (tl f) \<le> length f" "length (tl (tl f)) \<le> length f"
  by simp_all

lemma fragment_shorter:
  "fragment_scan f t = Match f' t' \<Longrightarrow> length f' \<le> length f \<and> (at f' = 0 \<or> at f' = STAR)"
proof (induction f t rule: fragment_scan.induct)
  case (1 f t)
  show ?case
  proof (cases "at f \<noteq> 0 \<and> at f \<noteq> STAR \<and> t \<noteq> []")
    case False
    then show ?thesis using "1.prems" by (auto simp: fragment_scan.simps [of f] split: if_splits)
  next
    case loop: True
    note unf = fragment_scan.simps [of f t]
    consider "at f = BACKSLASH" | "at f \<noteq> BACKSLASH" "at f = QUERY"
      | "at f \<noteq> BACKSLASH" "at f \<noteq> QUERY" "at f = LBRACKET"
      | "at f \<noteq> BACKSLASH" "at f \<noteq> QUERY" "at f \<noteq> LBRACKET" by blast
    then show ?thesis
    proof cases
      case 1
      then show ?thesis
        using "1.prems" "1.IH"(1) [OF loop] loop length_tl_le(2) [of f]
        by (auto simp: unf split: if_splits)
    next
      case 2
      then show ?thesis
        using "1.prems" "1.IH"(2) [OF loop] loop length_tl_le(1) [of f]
        by (auto simp: unf split: if_splits)
    next
      case 3
      define invert where "invert = (at (tl f) = CARET)"
      define g where "g = (if invert then tl (tl f) else tl f)"
      have eq: "fragment_scan f t = (case class_scan g (hd t) False of
          Inl e \<Rightarrow> Err e
        | Inr (g', matched) \<Rightarrow> if invert = matched then Fail else fragment_scan (tl g') (tl t))"
        using loop 3 unfolding unf Let_def invert_def g_def by simp
      then obtain g' matched where cl: "class_scan g (hd t) False = Inr (g', matched)"
          and nm: "invert \<noteq> matched"
        using "1.prems" by (auto split: sum.splits if_splits)
      have "fragment_scan (tl g') (tl t) = Match f' t'"
        using "1.prems" eq cl nm by (simp split: if_splits)
      then have "length f' \<le> length (tl g') \<and> (at f' = 0 \<or> at f' = STAR)"
        using "1.IH"(3) [OF loop 3 invert_def g_def cl refl nm] by simp
      moreover have "length (tl g') \<le> length f"
        using class_scan_shorter [OF cl] by (simp add: g_def split: if_splits)
      ultimately show ?thesis by linarith
    next
      case 4
      then show ?thesis
        using "1.prems" "1.IH"(4) [OF loop] loop length_tl_le(1) [of f]
        by (auto simp: unf split: if_splits)
    qed
  qed
qed

lemma search_shorter:
  "search_scan w t beyond = Some (Found w' t') \<Longrightarrow> length w' \<le> length w \<and> (at w' = 0 \<or> at w' = STAR)"
proof (induction w t beyond rule: search_scan.induct)
  case (1 w t beyond)
  then show ?case
    using fragment_shorter [of w t]
    by (simp add: search_scan.simps [of w t] split: list.splits if_splits frag_result.splits)
qed

function loop_scan :: "byte list \<Rightarrow> byte list \<Rightarrow> byte list \<Rightarrow> int option" where
  "loop_scan w t beyond =
     (if at w = 0 then Some (if t = [] then 1 else 0)
      else if at w \<noteq> STAR then None
      else let w = dropWhile (\<lambda>c. c = STAR) w in
        if at w = 0 then Some 1
        else (case search_scan w t beyond of
            None \<Rightarrow> None
          | Some (Return r) \<Rightarrow> Some r
          | Some (Found w' t') \<Rightarrow> loop_scan w' t' beyond))"
  by pat_completeness auto
termination
proof (relation "measure (\<lambda>(w, _, _). length w)", goal_cases)
  case (2 w t beyond wa x w' t')
  have "length w' \<le> length wa" using search_shorter [of wa t beyond] 2 by simp
  moreover obtain ws where "w = STAR # ws" using 2 by (cases w) (auto simp: at_def)
  then have "length wa < length w"
    using 2 length_dropWhile_le [of "\<lambda>c. c = STAR" ws] by (simp add: less_Suc_eq_le)
  ultimately show ?case by simp
qed simp

declare loop_scan.simps [simp del]

definition inner_scan :: "byte list \<Rightarrow> byte list \<Rightarrow> byte list \<Rightarrow> int option" where
  "inner_scan w t beyond =
     (if at w \<noteq> STAR then
        (case fragment_scan w t of
           Match w' t' \<Rightarrow> loop_scan w' t' beyond
         | r \<Rightarrow> Some (frag_code r))
      else loop_scan w t beyond)"

text \<open>The code computes the same.\<close>

definition with_NUL :: "byte list \<Rightarrow> byte list \<Rightarrow> byte list" where
  "with_NUL z f = f @ 0 # z"

lemma with_NUL_simps [simp]:
  "with_NUL z [] = 0 # z" "with_NUL z (c # f) = c # with_NUL z f"
  by (simp_all add: with_NUL_def)

lemma with_NUL_neq_Nil [simp]: "with_NUL z f \<noteq> []"
  by (simp add: with_NUL_def)

lemma read_with_NUL:
  "(case with_NUL z f of [] \<Rightarrow> a | c # r \<Rightarrow> b c r) = b (at f) (if f = [] then z else with_NUL z (tl f))"
  by (cases f) (simp_all add: at_def)

lemma char_nz [simp]: "STAR \<noteq> 0" "QUERY \<noteq> 0" "LBRACKET \<noteq> 0" "RBRACKET \<noteq> 0" "BACKSLASH \<noteq> 0"
  "CARET \<noteq> 0" "DASH \<noteq> 0"
  by (simp_all add: char_defs)

lemma at_Cons [simp]: "at [] = 0" "at (c # f) = c"
  by (simp_all add: at_def)

lemma class_loop_scan:
  "class_loop (with_NUL z f) c m = Some (map_sum (\<lambda>e. e) (apfst (with_NUL z)) (class_scan f c m))"
proof (induction f c m rule: class_scan.induct)
  case (1 f0 c m)
  show ?case
  proof (cases "at f0 = RBRACKET")
    case True
    then show ?thesis
      by (simp add: class_loop.simps [of "with_NUL z f0"] class_scan.simps [of f0] read_with_NUL)
  next
    case rb: False
    define f where "f = unescape1 f0"
    have un: "(if at f0 = BACKSLASH then if f0 = [] then z else with_NUL z (tl f0) else with_NUL z f0) = with_NUL z f"
      by (cases f0) (simp_all add: f_def unescape1_def char_nz [symmetric])
    have loop: "class_loop (with_NUL z f0) c m =
       (case with_NUL z f of [] \<Rightarrow> None | lower # f2 \<Rightarrow>
          if lower = 0 then Some (Inl WC_UNCLOSEDCLASS)
          else (case f2 of [] \<Rightarrow> None | d # f3 \<Rightarrow>
            if d = DASH then
              (case f3 of [] \<Rightarrow> None | e # f4 \<Rightarrow>
                 if e = RBRACKET then Some (Inl WC_INVALIDRANGE)
                 else (case (if e = BACKSLASH then f4 else f3) of [] \<Rightarrow> None | upper # f5 \<Rightarrow>
                   if upper = 0 then Some (Inl WC_UNCLOSEDCLASS)
                   else class_loop f5 c
                     (m \<or> (if lower > upper then upper \<le> c \<and> c \<le> lower
                                 else lower \<le> c \<and> c \<le> upper))))
            else class_loop f2 c (m \<or> c = lower)))"
      using rb un by (simp add: class_loop.simps [of "with_NUL z f0"] read_with_NUL)
    show ?thesis
    proof (cases f)
      case Nil
      then show ?thesis using rb loop by (simp add: class_scan.simps [of f0] f_def [symmetric] Let_def)
    next
      case (Cons lower f2)
      show ?thesis
      proof (cases "lower = 0")
        case True
        then show ?thesis
          using rb loop Cons by (simp add: class_scan.simps [of f0] f_def [symmetric] Let_def)
      next
        case nz: False
        then have nz': "at f \<noteq> 0" using Cons by simp
        show ?thesis
        proof (cases "at f2 = DASH")
          case False
          then have d: "at (tl f) \<noteq> DASH" using Cons by simp
          show ?thesis
            using rb loop Cons nz False "1.IH"(2) [OF rb f_def nz' d]
            by (simp add: class_scan.simps [of f0] f_def [symmetric] Let_def read_with_NUL)
        next
          case True
          then obtain f3 where f2: "f2 = DASH # f3" by (cases f2) auto
          define g where "g = unescape1 f3"
          have g': "g = unescape1 (tl (tl f))" using Cons f2 by (simp add: g_def)
          have d: "at (tl f) = DASH" using Cons f2 by simp
          have un': "(if at f3 = BACKSLASH then if f3 = [] then z else with_NUL z (tl f3) else with_NUL z f3) = with_NUL z g"
            by (cases f3) (simp_all add: g_def unescape1_def char_nz [symmetric])
          show ?thesis
          proof (cases "at f3 = RBRACKET \<or> at g = 0")
            case bad: True
            then show ?thesis
              using rb loop Cons nz f2 un'
              by (auto simp: class_scan.simps [of f0] f_def [symmetric] g_def [symmetric] Let_def read_with_NUL)
          next
            case ok: False
            then obtain upper f5 where u: "g = upper # f5" by (cases g) auto
            obtain lo hi where lh: "(lo, hi) = (if at f > at g then (at g, at f) else (at f, at g))"
              by (metis surj_pair)
            have "class_loop (with_NUL z f5) c (m \<or> lo \<le> c \<and> c \<le> hi) =
                Some (map_sum (\<lambda>e. e) (apfst (with_NUL z)) (class_scan f5 c (m \<or> lo \<le> c \<and> c \<le> hi)))"
              using "1.IH"(1) [OF rb f_def nz' d refl refl _ g' _ refl lh refl] Cons f2 ok u by simp
            moreover have "(if lower > upper then upper \<le> c \<and> c \<le> lower else lower \<le> c \<and> c \<le> upper)
                \<longleftrightarrow> lo \<le> c \<and> c \<le> hi"
              using lh Cons u by (simp split: if_splits)
            moreover have "class_scan f0 c m = class_scan f5 c (m \<or> lo \<le> c \<and> c \<le> hi)"
              using rb nz ok Cons f2 u lh
              by (simp add: class_scan.simps [of f0] f_def [symmetric] g_def [symmetric] Let_def split: if_splits)
            ultimately show ?thesis
              using rb loop Cons nz f2 un' ok u by (simp add: read_with_NUL)
          qed
        qed
      qed
    qed
  qed
qed

fun frag_with_NUL :: "byte list \<Rightarrow> frag_result \<Rightarrow> frag_result" where
  "frag_with_NUL z (Match f t) = Match (with_NUL z f) t"
| "frag_with_NUL z Fail = Fail"
| "frag_with_NUL z (Err e) = Err e"

lemma class_scan_bracket: "class_scan f c m = Inr (f', m') \<Longrightarrow> at f' = RBRACKET"
proof (induction f c m rule: class_scan.induct)
  case (1 f0 c m)
  show ?case
  proof (cases "at f0 = RBRACKET")
    case True
    then show ?thesis using "1.prems" by (simp add: class_scan.simps [of f0])
  next
    case False
    note IH = "1.IH" [OF False refl]
    show ?thesis
      using "1.prems" False IH
      by (subst (asm) class_scan.simps [of f0]) (auto simp: Let_def split: if_splits)
  qed
qed

lemma wc_match_fragment_scan:
  "wc_match_fragment (with_NUL z f) t = Some (frag_with_NUL z (fragment_scan f t))"
proof (induction f t rule: fragment_scan.induct)
  case (1 f t)
  show ?case
  proof (cases "at f \<noteq> 0 \<and> at f \<noteq> STAR \<and> t \<noteq> []")
    case False
    then show ?thesis
      by (auto simp: wc_match_fragment.simps [of "with_NUL z f"] fragment_scan.simps [of f] read_with_NUL)
  next
    case loop: True
    then obtain c f1 where f: "f = c # f1" by (cases f) auto
    have code0: "wc_match_fragment (with_NUL z f) t = wc_match_fragment (c # with_NUL z f1) t"
      using f by simp
    note unf = wc_match_fragment.simps [of "c # with_NUL z f1" t] fragment_scan.simps [of f t]
    consider "c = BACKSLASH" | "c \<noteq> BACKSLASH" "c = QUERY"
      | "c \<noteq> BACKSLASH" "c \<noteq> QUERY" "c = LBRACKET"
      | "c \<noteq> BACKSLASH" "c \<noteq> QUERY" "c \<noteq> LBRACKET" by blast
    then show ?thesis
    proof cases
      case 1
      then show ?thesis
        using "1.IH"(1) [OF loop] loop f unfolding code0 unf by (cases f1) auto
    next
      case 2
      then show ?thesis using "1.IH"(2) [OF loop] loop f unfolding code0 unf by simp
    next
      case 4
      then show ?thesis using "1.IH"(4) [OF loop] loop f unfolding code0 unf by simp
    next
      case 3
      define invert where "invert = (at f1 = CARET)"
      define g where "g = (if invert then tl f1 else f1)"
      have gz: "(if invert then if f1 = [] then z else with_NUL z (tl f1) else with_NUL z f1) = with_NUL z g"
        by (cases f1) (auto simp: g_def invert_def char_nz [symmetric])
      have code: "wc_match_fragment (with_NUL z f) t =
          (case class_loop (with_NUL z g) (hd t) False of
             None \<Rightarrow> None
           | Some (Inl e) \<Rightarrow> Some (Err e)
           | Some (Inr (g, matched)) \<Rightarrow>
               if invert = matched then Some Fail else wc_match_fragment (tl g) (tl t))"
        using loop f 3 gz unfolding code0 unf by (simp add: read_with_NUL Let_def invert_def [symmetric])
      have scan: "fragment_scan f t = (case class_scan g (hd t) False of
          Inl e \<Rightarrow> Err e
        | Inr (g', matched) \<Rightarrow> if invert = matched then Fail else fragment_scan (tl g') (tl t))"
        using loop f 3 unfolding unf by (simp add: Let_def invert_def [symmetric] g_def)
      show ?thesis
      proof (cases "class_scan g (hd t) False")
        case (Inl e)
        then show ?thesis using code scan by (simp add: class_loop_scan)
      next
        case (Inr r)
        obtain g' matched where r: "r = (g', matched)" by force
        have i: "invert = (at (tl f) = CARET)" and g': "g = (if invert then tl (tl f) else tl f)"
          using f by (simp_all add: invert_def g_def)
        have cs: "class_scan g (hd t) False = Inr (g', matched)" using Inr r by simp
        from r have "at g' = RBRACKET" using class_scan_bracket Inr by simp
        then have tl: "tl (with_NUL z g') = with_NUL z (tl g')" by (cases g') auto
        have "wc_match_fragment (with_NUL z (tl g')) (tl t) = Some (frag_with_NUL z (fragment_scan (tl g') (tl t)))"
          if "invert \<noteq> matched"
          by (rule "1.IH"(3) [OF loop _ _ _ i g' cs refl that]) (use f 3 in simp_all)
        then show ?thesis using code scan Inr r tl by (simp add: class_loop_scan)
      qed
    qed
  qed
qed

fun search_with_NUL :: "byte list \<Rightarrow> search_result \<Rightarrow> search_result" where
  "search_with_NUL z (Found w t) = Found (with_NUL z w) t"
| "search_with_NUL z (Return r) = Return r"

lemma frag_code_with_NUL [simp]: "frag_code (frag_with_NUL z r) = frag_code r"
  by (cases r) (simp_all add: frag_code_def)

lemma search_loop_scan:
  "search_loop (with_NUL z w) t beyond = map_option (search_with_NUL z) (search_scan w t beyond)"
proof (induction w t beyond rule: search_scan.induct)
  case (1 w t beyond)
  show ?case
  proof (cases "t @ beyond")
    case Nil
    then show ?thesis by (simp add: search_loop.simps [of _ "[]" "[]"] search_scan.simps [of _ "[]" "[]"])
  next
    case (Cons b r)
    show ?thesis
    proof (cases "b = 0")
      case True
      then show ?thesis using Cons by (simp add: search_loop.simps [of _ t] search_scan.simps [of _ t])
    next
      case nz: False
      show ?thesis
        using Cons nz "1.IH" [OF Cons nz]
        by (cases "fragment_scan w t")
           (simp_all add: search_loop.simps [of _ t] search_scan.simps [of _ t]
             wc_match_fragment_scan read_with_NUL)
    qed
  qed
qed

lemma dropWhile_with_NUL:
  "dropWhile (\<lambda>c. c = STAR) (with_NUL z w) = with_NUL z (dropWhile (\<lambda>c. c = STAR) w)"
  by (induction w) auto

lemma wc_match_inner_loop_scan:
  "wc_match_inner_loop (with_NUL z w) t beyond = loop_scan w t beyond"
proof (induction w t beyond rule: loop_scan.induct)
  case (1 w t beyond)
  show ?case
  proof (cases "at w = 0 \<or> at w \<noteq> STAR")
    case True
    then show ?thesis
      by (subst wc_match_inner_loop.simps) (auto simp: loop_scan.simps [of w] read_with_NUL)
  next
    case False
    then have w: "at w \<noteq> 0" "\<not> at w \<noteq> STAR" by auto
    define v where "v = dropWhile (\<lambda>c. c = STAR) w"
    have code: "wc_match_inner_loop (with_NUL z w) t beyond =
        (if at v = 0 then Some 1
         else (case search_loop (with_NUL z v) t beyond of
                 None \<Rightarrow> None
               | Some (Return r) \<Rightarrow> Some r
               | Some (Found w' t') \<Rightarrow> wc_match_inner_loop w' t' beyond))"
      using w by (subst wc_match_inner_loop.simps)
        (simp add: read_with_NUL dropWhile_with_NUL v_def [symmetric])
    have scan: "loop_scan w t beyond = (if at v = 0 then Some 1
         else (case search_scan v t beyond of
                 None \<Rightarrow> None
               | Some (Return r) \<Rightarrow> Some r
               | Some (Found w' t') \<Rightarrow> loop_scan w' t' beyond))"
      using w by (simp add: loop_scan.simps [of w] v_def [symmetric] Let_def)
    show ?thesis
    proof (cases "at v = 0 \<or> search_scan v t beyond = None")
      case True
      then show ?thesis using code scan by (auto simp: search_loop_scan)
    next
      case False
      then obtain r where r: "search_scan v t beyond = Some r" and nz: "at v \<noteq> 0" by auto
      show ?thesis
      proof (cases r)
        case (Found w' t')
        then show ?thesis
          using "1.IH" [OF w v_def nz r Found] code scan r nz by (simp add: search_loop_scan)
      qed (use code scan r nz in \<open>simp add: search_loop_scan\<close>)
    qed
  qed
qed

lemma wc_match_inner_scan: "wc_match_inner (with_NUL z w) t beyond = inner_scan w t beyond"
  by (cases "fragment_scan w t")
     (simp_all add: wc_match_inner_def inner_scan_def read_with_NUL wc_match_fragment_scan
       wc_match_inner_loop_scan frag_code_def)

lemma wc_match_scan:
  "wc_match w t = inner_scan w (takeWhile (\<lambda>c. c \<noteq> 0) t) (0 # tl (dropWhile (\<lambda>c. c \<noteq> 0) (t @ [0])))"
proof -
  have "takeWhile (\<lambda>c. c \<noteq> 0) (t @ [0]) = takeWhile (\<lambda>c. c \<noteq> 0) t"
    "dropWhile (\<lambda>c. c \<noteq> 0) (t @ [0]) = 0 # tl (dropWhile (\<lambda>c. c \<noteq> 0) (t @ [0]))"
    by (induction t) auto
  moreover have "w @ [0] = with_NUL [] w" by (simp add: with_NUL_def)
  ultimately show ?thesis by (simp add: wc_match_def wc_match_inner_scan)
qed

section \<open>What a wildcard means\<close>

text \<open>
  The syntax of the comment at the top of \<open>wildcard.c\<close> as tokens, and their meaning. A
  class is a list of ranges, a single character a range of one; the ends of a range may be
  in either order. \<open>glob toks t\<close> has no algorithm in it: an asterisk matches any
  prefix.
\<close>

datatype item = Lit byte | Any | Class bool "(byte \<times> byte) list"

datatype token = Item item | Star

fun item_ok :: "item \<Rightarrow> byte \<Rightarrow> bool" where
  "item_ok (Lit c) b \<longleftrightarrow> b = c"
| "item_ok Any b \<longleftrightarrow> True"
| "item_ok (Class invert ranges) b \<longleftrightarrow> invert \<noteq> (\<exists>(lo, hi) \<in> set ranges. lo \<le> b \<and> b \<le> hi)"

fun glob :: "token list \<Rightarrow> byte list \<Rightarrow> bool" where
  "glob [] t \<longleftrightarrow> t = []"
| "glob (Star # p) t \<longleftrightarrow> (\<exists>k \<le> length t. glob p (drop k t))"
| "glob (Item i # p) [] \<longleftrightarrow> False"
| "glob (Item i # p) (b # t) \<longleftrightarrow> item_ok i b \<and> glob p t"

fun char_range :: "byte \<Rightarrow> byte \<Rightarrow> byte \<times> byte" where
  "char_range a b = (if a > b then (b, a) else (a, b))"

declare char_range.simps [simp del]

function parse_class :: "byte list \<Rightarrow> ((byte \<times> byte) list \<times> byte list) option" where
  "parse_class f0 =
     (if at f0 = RBRACKET then Some ([], f0)
      else let f = unescape1 f0 in
        if at f = 0 then None
        else if at (tl f) = DASH then
          (let g = unescape1 (tl (tl f)) in
           if at (tl (tl f)) = RBRACKET \<or> at g = 0 then None
           else map_option (\<lambda>(rs, f'). (char_range (at f) (at g) # rs, f')) (parse_class (tl g)))
        else map_option (\<lambda>(rs, f'). ((at f, at f) # rs, f')) (parse_class (tl f)))"
  by pat_completeness auto
termination
proof (relation "measure length", goal_cases)
  case (2 f0 f g)
  have "g \<noteq> []" using 2 by (auto dest: at_neq_0)
  moreover have "length g \<le> length f0"
    using 2 length_unescape1 [of f0] length_unescape1 [of "tl (tl f)"] by simp
  ultimately show ?case by (cases g) auto
next
  case (3 f0 f)
  have "f \<noteq> []" "length f \<le> length f0" using 3 length_unescape1 by (auto dest: at_neq_0)
  then show ?case by (cases f) auto
qed simp

declare parse_class.simps [simp del]

lemma in_range: "(case char_range a b of (lo, hi) \<Rightarrow> lo \<le> c \<and> c \<le> hi) \<longleftrightarrow>
    (case (if a > b then (b, a) else (a, b)) of (lo, hi) \<Rightarrow> lo \<le> c \<and> c \<le> hi)"
  by (simp add: char_range.simps)

definition in_class :: "(byte \<times> byte) list \<Rightarrow> byte \<Rightarrow> bool" where
  "in_class rs c \<longleftrightarrow> (\<exists>(lo, hi) \<in> set rs. lo \<le> c \<and> c \<le> hi)"

lemma in_class_simps [simp]:
  "\<not> in_class [] c"
  "in_class ((a, a) # rs) c \<longleftrightarrow> c = a \<or> in_class rs c"
  by (auto simp: in_class_def)

lemma in_class_range: "in_class (char_range a b # rs) c \<longleftrightarrow>
    (if a > b then b \<le> c \<and> c \<le> a else a \<le> c \<and> c \<le> b) \<or> in_class rs c"
  by (auto simp: in_class_def char_range.simps)

lemma class_scan_parse:
  "case parse_class f of
     None \<Rightarrow> \<exists>e. class_scan f c m = Inl e
   | Some (rs, f') \<Rightarrow> class_scan f c m = Inr (f', m \<or> in_class rs c)"
proof (induction f c m rule: class_scan.induct)
  case (1 f0 c m)
  show ?case
  proof (cases "at f0 = RBRACKET")
    case True
    then show ?thesis by (simp add: class_scan.simps [of f0] parse_class.simps [of f0])
  next
    case rb: False
    define f where "f = unescape1 f0"
    show ?thesis
    proof (cases "at f = 0")
      case True
      then show ?thesis
        using rb by (simp add: class_scan.simps [of f0] parse_class.simps [of f0] f_def [symmetric] Let_def)
    next
      case nz: False
      show ?thesis
      proof (cases "at (tl f) = DASH")
        case False
        have c: "class_scan f0 c m = class_scan (tl f) c (m \<or> c = at f)"
          using rb nz False by (simp add: class_scan.simps [of f0] f_def [symmetric] Let_def)
        have p: "parse_class f0 = map_option (\<lambda>(rs, f'). ((at f, at f) # rs, f')) (parse_class (tl f))"
          using rb nz False by (simp add: parse_class.simps [of f0] f_def [symmetric] Let_def)
        show ?thesis
          using "1.IH"(2) [OF rb f_def nz False] c p
          by (auto split: option.splits)
      next
        case True
        define g where "g = unescape1 (tl (tl f))"
        show ?thesis
        proof (cases "at (tl (tl f)) = RBRACKET \<or> at g = 0")
          case bad: True
          then show ?thesis
            using rb nz True
            by (auto simp: class_scan.simps [of f0] parse_class.simps [of f0] f_def [symmetric]
                g_def [symmetric] Let_def)
        next
          case ok: False
          let ?m = "m \<or> (if at f > at g then at g \<le> c \<and> c \<le> at f else at f \<le> c \<and> c \<le> at g)"
          have c: "class_scan f0 c m = class_scan (tl g) c ?m"
            using rb nz True ok
            by (simp add: class_scan.simps [of f0] f_def [symmetric] g_def [symmetric] Let_def)
          have p: "parse_class f0 = map_option (\<lambda>(rs, f'). (char_range (at f) (at g) # rs, f')) (parse_class (tl g))"
            using rb nz True ok
            by (simp add: parse_class.simps [of f0] f_def [symmetric] g_def [symmetric] Let_def)
          obtain lo hi where lh: "(lo, hi) = (if at f > at g then (at g, at f) else (at f, at g))" by (metis surj_pair)
          have "case parse_class (tl g) of
               None \<Rightarrow> \<exists>e. class_scan (tl g) c (m \<or> lo \<le> c \<and> c \<le> hi) = Inl e
             | Some (rs, f') \<Rightarrow> class_scan (tl g) c (m \<or> lo \<le> c \<and> c \<le> hi) = Inr (f', (m \<or> lo \<le> c \<and> c \<le> hi) \<or> in_class rs c)"
            using "1.IH"(1) [OF rb f_def nz True refl refl _ g_def _ refl lh refl] ok by simp
          moreover have "?m \<longleftrightarrow> m \<or> lo \<le> c \<and> c \<le> hi" using lh by (auto split: if_splits)
          ultimately show ?thesis
            using c p by (auto simp: in_class_range split: option.splits)
        qed
      qed
    qed
  qed
qed

lemma parse_class_shorter: "parse_class f = Some (rs, f') \<Longrightarrow> length f' \<le> length f"
  using class_scan_parse [of f 0 False] class_scan_shorter by auto

lemma at_longer: "at f \<noteq> 0 \<Longrightarrow> length f - Suc n < length f"
  by (drule at_neq_0) simp

function parse :: "byte list \<Rightarrow> token list option" where
  "parse f =
     (if at f = 0 then Some []
      else if at f = STAR then map_option (Cons Star) (parse (tl f))
      else if at f = BACKSLASH then
        (if at (tl f) = 0 then None
         else map_option (Cons (Item (Lit (at (tl f))))) (parse (tl (tl f))))
      else if at f = QUERY then map_option (Cons (Item Any)) (parse (tl f))
      else if at f = LBRACKET then
        (let invert = (at (tl f) = CARET); g = (if invert then tl (tl f) else tl f) in
         case parse_class g of
           None \<Rightarrow> None
         | Some (rs, g') \<Rightarrow> map_option (Cons (Item (Class invert rs))) (parse (tl g')))
      else map_option (Cons (Item (Lit (at f)))) (parse (tl f)))"
  by pat_completeness auto
termination
proof (relation "measure length", goal_cases)
  case (5 f invert g x rs g')
  then have "length g' \<le> length g" using parse_class_shorter [of g rs g'] by simp
  moreover have "f \<noteq> []" using 5 at_neq_0 by blast
  then obtain c fs where "f = c # fs" by (cases f) auto
  then have "length g < length f" using 5 by (cases fs) auto
  ultimately show ?case by simp
qed (simp_all add: at_longer)

declare parse.simps [simp del]

text \<open>A fragment: items that must match one character each, at the start of the target.\<close>

fun all_ok :: "item list \<Rightarrow> byte list \<Rightarrow> bool" where
  "all_ok [] t \<longleftrightarrow> True"
| "all_ok (i # is) [] \<longleftrightarrow> False"
| "all_ok (i # is) (b # t) \<longleftrightarrow> item_ok i b \<and> all_ok is t"

definition fragment_of :: "byte list \<Rightarrow> item list \<Rightarrow> byte list \<Rightarrow> bool" where
  "fragment_of f is f' \<longleftrightarrow> (at f' = 0 \<or> at f' = STAR) \<and>
     (\<forall>t. fragment_scan f t = (if all_ok is t then Match f' (drop (length is) t) else Fail))"

lemma fragment_end: "at f = 0 \<or> at f = STAR \<Longrightarrow> fragment_of f [] f"
  by (auto simp: fragment_of_def fragment_scan.simps [of f])

lemma fragment_step:
  assumes "fragment_of g is f'" "at f \<noteq> 0" "at f \<noteq> STAR"
    and "\<And>b t. fragment_scan f (b # t) = (if item_ok i b then fragment_scan g t else Fail)"
  shows "fragment_of f (i # is) f'"
  unfolding fragment_of_def
proof (intro conjI allI)
  fix t
  show "fragment_scan f t = (if all_ok (i # is) t then Match f' (drop (length (i # is)) t) else Fail)"
  proof (cases t)
    case Nil
    then show ?thesis using assms(2,3) by (simp add: fragment_scan.simps [of f])
  next
    case (Cons b t')
    then show ?thesis using assms(1,4) by (simp add: fragment_of_def)
  qed
qed (use assms(1) in \<open>simp add: fragment_of_def\<close>)

lemma parse_fragment:
  assumes "parse f = Some toks"
  shows "\<exists>is rest f'. toks = map Item is @ rest \<and> parse f' = Some rest \<and> fragment_of f is f' \<and>
    (is = [] \<longrightarrow> at f = 0 \<or> at f = STAR)"
  using assms
proof (induction f arbitrary: toks rule: parse.induct)
  case (1 f)
  let ?P = "\<lambda>toks. \<exists>is rest f'. toks = map Item is @ rest \<and> parse f' = Some rest \<and> fragment_of f is f' \<and>
    (is = [] \<longrightarrow> at f = 0 \<or> at f = STAR)"
  have step: "?P toks"
    if "at f \<noteq> 0" "at f \<noteq> STAR" "toks = Item i # toks'"
      "\<exists>is rest f'. toks' = map Item is @ rest \<and> parse f' = Some rest \<and> fragment_of g is f'"
      "\<And>b t. fragment_scan f (b # t) = (if item_ok i b then fragment_scan g t else Fail)"
    for i toks' g
  proof -
    from that(4) obtain "is" rest f' where
      r: "toks' = map Item is @ rest" "parse f' = Some rest" "fragment_of g is f'" by blast
    from fragment_step [OF r(3) that(1,2,5)] r that(3) show ?thesis
      by (intro exI [of _ "i # is"] exI [of _ rest] exI [of _ f']) simp
  qed
  note fr = fragment_scan.simps [of f]
  consider "at f = 0 \<or> at f = STAR"
    | "at f \<noteq> 0" "at f \<noteq> STAR" "at f = BACKSLASH"
    | "at f \<noteq> 0" "at f \<noteq> STAR" "at f \<noteq> BACKSLASH" "at f = QUERY"
    | "at f \<noteq> 0" "at f \<noteq> STAR" "at f \<noteq> BACKSLASH" "at f \<noteq> QUERY" "at f = LBRACKET"
    | "at f \<noteq> 0" "at f \<noteq> STAR" "at f \<noteq> BACKSLASH" "at f \<noteq> QUERY" "at f \<noteq> LBRACKET" by blast
  then show ?case
  proof cases
    case 1
    then show ?thesis
      using fragment_end [OF 1] "1.prems" by (intro exI [of _ "[]"] exI [of _ toks] exI [of _ f]) simp
  next
    case 2
    then have nz: "at (tl f) \<noteq> 0" using "1.prems" by (auto simp: parse.simps [of f])
    then obtain toks' where t: "parse (tl (tl f)) = Some toks'" "toks = Item (Lit (at (tl f))) # toks'"
      using 2 "1.prems" by (auto simp: parse.simps [of f])
    show ?thesis
      by (rule step [OF 2(1,2) t(2)]) (use "1.IH"(2) [OF 2 nz t(1)] 2 nz fr in auto)
  next
    case 3
    then obtain toks' where t: "parse (tl f) = Some toks'" "toks = Item Any # toks'"
      using "1.prems" by (auto simp: parse.simps [of f])
    show ?thesis
      by (rule step [OF 3(1,2) t(2)]) (use "1.IH"(3) [OF 3 t(1)] 3 fr in auto)
  next
    case 4
    define invert where "invert = (at (tl f) = CARET)"
    define g where "g = (if invert then tl (tl f) else tl f)"
    have eq: "parse f = (case parse_class g of None \<Rightarrow> None
       | Some (rs, g') \<Rightarrow> map_option (Cons (Item (Class invert rs))) (parse (tl g')))"
      using 4 unfolding parse.simps [of f] Let_def invert_def g_def by simp
    then obtain rs g' toks' where c: "parse_class g = Some (rs, g')"
        and t: "parse (tl g') = Some toks'" "toks = Item (Class invert rs) # toks'"
      using "1.prems" [unfolded eq] by (auto split: option.splits prod.splits)
    have cl: "class_scan g b False = Inr (g', in_class rs b)" for b
      using class_scan_parse [of g b False] c by simp
    have m: "fragment_scan f (b # t) = (if item_ok (Class invert rs) b then fragment_scan (tl g') t else Fail)"
      for b t
    proof -
      have "fragment_scan f (b # t) = (case class_scan g b False of
          Inl e \<Rightarrow> Err e
        | Inr (g', matched) \<Rightarrow> if invert = matched then Fail else fragment_scan (tl g') t)"
        using 4 unfolding fr Let_def invert_def g_def by (simp split: sum.splits)
      then show ?thesis by (auto simp: cl in_class_def)
    qed
    have "\<exists>is rest f'. toks' = map Item is @ rest \<and> parse f' = Some rest \<and> fragment_of (tl g') is f'"
      using "1.IH"(4) [OF 4 invert_def g_def c refl t(1)] by blast
    from step [OF 4(1,2) t(2) this m] show ?thesis .
  next
    case 5
    then obtain toks' where t: "parse (tl f) = Some toks'" "toks = Item (Lit (at f)) # toks'"
      using "1.prems" by (auto simp: parse.simps [of f])
    show ?thesis
      by (rule step [OF 5(1,2) t(2)]) (use "1.IH"(5) [OF 5 t(1)] 5 fr in auto)
  qed
qed


section \<open>The search\<close>

lemma glob_items: "glob (map Item is @ rest) t \<longleftrightarrow> all_ok is t \<and> glob rest (drop (length is) t)"
  by (induction "is" t rule: all_ok.induct) auto

lemma glob_star_Cons: "glob (Star # p) (b # t) \<longleftrightarrow> glob p (b # t) \<or> glob (Star # p) t"
proof
  assume "glob (Star # p) (b # t)"
  then obtain k where k: "k \<le> Suc (length t)" "glob p (drop k (b # t))" by auto
  then show "glob p (b # t) \<or> glob (Star # p) t" by (cases k) auto
next
  assume "glob p (b # t) \<or> glob (Star # p) t"
  then show "glob (Star # p) (b # t)"
  proof
    assume "glob p (b # t)"
    then show ?thesis by (auto intro!: exI [of _ 0])
  next
    assume "glob (Star # p) t"
    then obtain k where "k \<le> length t" "glob p (drop k t)" by auto
    then show ?thesis by (auto intro!: exI [of _ "Suc k"])
  qed
qed

lemma glob_star_drop: "glob (Star # p) (drop k t) \<Longrightarrow> glob (Star # p) t"
proof (induction t arbitrary: k)
  case (Cons b t)
  then show ?case using glob_star_Cons by (cases k) (auto simp del: glob.simps)
qed simp

lemma glob_star_star: "glob (Star # Star # p) t \<longleftrightarrow> glob (Star # p) t"
proof (induction t)
  case (Cons b t)
  then show ?case using glob_star_Cons [of "Star # p" b t] glob_star_Cons [of p b t] by blast
qed simp

lemma all_ok_length: "all_ok is t \<Longrightarrow> length is \<le> length t"
  by (induction "is" t rule: all_ok.induct) auto

text \<open>A last fragment can only match at the end: where the code looks for it.\<close>

lemma glob_last_fragment:
  assumes "length is \<le> length t"
  shows "glob (Star # map Item is) t \<longleftrightarrow> all_ok is (drop (length t - length is) t)"
proof
  assume "glob (Star # map Item is) t"
  then obtain k where k: "k \<le> length t" "all_ok is (drop k t)" "length t \<le> k + length is"
    using glob_items [of "is" "[]"] by auto
  with all_ok_length [OF k(2)] have "k = length t - length is" by simp
  with k show "all_ok is (drop (length t - length is) t)" by simp
next
  assume "all_ok is (drop (length t - length is) t)"
  then have "glob (map Item is @ []) (drop (length t - length is) t)"
    using assms by (subst glob_items) simp
  then show "glob (Star # map Item is) t" by (auto intro!: exI [of _ "length t - length is"])
qed

lemma parse_end: "at f = 0 \<Longrightarrow> parse f = Some []"
  by (simp add: parse.simps [of f])

lemma parse_star: "at f = STAR \<Longrightarrow> parse f = map_option (Cons Star) (parse (tl f))"
  by (simp add: parse.simps [of f] char_nz)

text \<open>
  What the search for the fragment \<open>w\<close> in \<open>t\<close> achieves, for the tokens \<open>toks\<close> of \<open>w\<close>: a
  returned value is the verdict, and a found place is as good as any later one.
\<close>

fun search_post :: "token list \<Rightarrow> byte list \<Rightarrow> search_result \<Rightarrow> bool" where
  "search_post toks t (Return r) \<longleftrightarrow> r = (if glob (Star # toks) t then 1 else 0)"
| "search_post toks t (Found w' t') \<longleftrightarrow>
     (\<exists>rest. parse w' = Some rest \<and> (glob (Star # toks) t \<longleftrightarrow> glob rest t') \<and> set t' \<subseteq> set t)"

lemma search_scan_glob:
  assumes "parse w = Some (map Item is @ rest)" "parse f' = Some rest" "fragment_of w is f'" "is \<noteq> []"
    and "0 \<notin> set t"
  shows "\<exists>r. search_scan w t (0 # z) = Some r \<and> search_post (map Item is @ rest) t r"
  using assms(5)
proof (induction t)
  case Nil
  have "\<not> all_ok is []" using assms(4) by (cases "is") auto
  then have "\<not> glob (map Item is @ rest) []" by (simp add: glob_items)
  then show ?case by (simp add: search_scan.simps [of w "[]"])
next
  case (Cons b t)
  let ?t = "b # t"
  let ?n = "length is"
  let ?toks = "map Item is @ rest"
  have frag: "fragment_scan w u = (if all_ok is u then Match f' (drop ?n u) else Fail)" for u
    using assms(3) by (simp add: fragment_of_def)
  have f': "at f' = 0 \<or> at f' = STAR" using assms(3) by (simp add: fragment_of_def)
  note sl = search_scan.simps [of w ?t "0 # z"]
  show ?case
  proof (cases "all_ok is ?t")
    case False
    then have "\<not> glob ?toks ?t" by (simp add: glob_items)
    then have same: "glob (Star # ?toks) ?t \<longleftrightarrow> glob (Star # ?toks) t" by (simp only: glob_star_Cons simp_thms)
    have "search_scan w ?t (0 # z) = search_scan w t (0 # z)"
      using False Cons.prems by (simp add: sl frag)
    moreover obtain r where r: "search_scan w t (0 # z) = Some r" "search_post ?toks t r"
      using Cons by auto
    moreover have "search_post ?toks ?t r"
      using r(2) same by (cases r) (auto simp del: glob.simps)
    ultimately show ?thesis by simp
  next
    case ok: True
    have here: "glob ?toks ?t \<longleftrightarrow> glob rest (drop ?n ?t)" using ok by (simp add: glob_items)
    show ?thesis
    proof (cases "at f' = 0 \<and> drop ?n ?t \<noteq> []")
      case True
      then have "rest = []" using assms(2) parse_end by simp
      have n: "?n \<le> length ?t" using all_ok_length [OF ok] .
      have "search_scan w ?t (0 # z) = Some (Return (if all_ok is (drop (length ?t - ?n) ?t) then 1 else 0))"
        using True ok Cons.prems by (simp add: sl frag frag_code_def)
      then show ?thesis
        using glob_last_fragment [OF n] \<open>rest = []\<close> by (simp del: glob.simps)
    next
      case False
      have "search_scan w ?t (0 # z) = Some (Found f' (drop ?n ?t))"
        using False ok Cons.prems by (simp add: sl frag) 
      moreover have "glob (Star # ?toks) ?t \<longleftrightarrow> glob rest (drop ?n ?t)"
      proof
        assume "glob rest (drop ?n ?t)"
        then show "glob (Star # ?toks) ?t" using here glob_star_Cons by blast
      next
        assume "glob (Star # ?toks) ?t"
        then obtain k where "glob ?toks (drop k ?t)" by auto
        then have k: "glob rest (drop ?n (drop k ?t))" by (simp only: glob_items)
        show "glob rest (drop ?n ?t)"
        proof (cases "at f' = 0")
          case True
          then show ?thesis using False assms(2) parse_end by simp
        next
          case False
          then obtain p where "rest = Star # p" using f' assms(2) parse_star by auto
          then show ?thesis using k glob_star_drop [of p k "drop ?n ?t"] by (simp add: add.commute)
        qed
      qed
      moreover have "set (drop ?n ?t) \<subseteq> set ?t" by (rule set_drop_subset)
      ultimately show ?thesis using assms(2) by (simp del: glob.simps)
    qed
  qed
qed

lemma parse_skip_stars:
  assumes "parse w = Some toks" "at w = STAR"
  shows "\<exists>toks'. parse (dropWhile (\<lambda>c. c = STAR) w) = Some toks' \<and> (\<forall>t. glob toks t \<longleftrightarrow> glob (Star # toks') t)"
  using assms
proof (induction w arbitrary: toks)
  case (Cons c w)
  then have c: "c = STAR" by (simp add: at_def)
  with Cons.prems parse_star [of "c # w"] have "map_option (Cons Star) (parse w) = Some toks" by simp
  then obtain p where p: "parse w = Some p" "toks = Star # p" by auto
  show ?case
  proof (cases "at w = STAR")
    case True
    from Cons.IH [OF p(1) True] obtain toks' where
      t: "parse (dropWhile (\<lambda>c. c = STAR) w) = Some toks'" "\<forall>t. glob p t \<longleftrightarrow> glob (Star # toks') t" by blast
    have "glob toks t \<longleftrightarrow> glob (Star # toks') t" for t
    proof -
      have "glob toks t \<longleftrightarrow> glob (Star # Star # toks') t" using t(2) p(2) by simp
      then show ?thesis by (simp only: glob_star_star)
    qed
    then show ?thesis using t c by simp
  next
    case False
    then have "dropWhile (\<lambda>c. c = STAR) w = w" by (cases w) (auto simp: at_def)
    then show ?thesis using p c by simp
  qed
qed (simp add: at_def STAR_def)

lemma at_after_stars: "at (dropWhile (\<lambda>c. c = STAR) w) \<noteq> STAR"
  by (induction w) (auto simp: at_def STAR_def)

lemma glob_star_Nil: "glob [Star] t"
  by (auto intro!: exI [of _ "length t"])

lemma loop_scan_glob:
  assumes "parse w = Some toks" "at w = 0 \<or> at w = STAR" "0 \<notin> set t"
  shows "loop_scan w t (0 # z) = Some (if glob toks t then 1 else 0)"
  using assms
proof (induction w t "0 # z" arbitrary: toks rule: loop_scan.induct)
  case (1 w t)
  note unf = loop_scan.simps [of w t]
  show ?case
  proof (cases "at w = 0")
    case True
    then show ?thesis using "1.prems" parse_end [OF True] by (simp add: unf)
  next
    case nz: False
    then have st: "at w = STAR" using "1.prems" by simp
    define v where "v = dropWhile (\<lambda>c. c = STAR) w"
    obtain toks' where t': "parse v = Some toks'" "\<forall>t. glob toks t \<longleftrightarrow> glob (Star # toks') t"
      using parse_skip_stars [OF "1.prems"(1) st] unfolding v_def by blast
    have loop: "loop_scan w t (0 # z) = (if at v = 0 then Some 1 else (case search_scan v t (0 # z) of
            None \<Rightarrow> None
          | Some (Return r) \<Rightarrow> Some r
          | Some (Found w' t') \<Rightarrow> loop_scan w' t' (0 # z)))"
      using nz st unfolding unf Let_def v_def by simp
    show ?thesis
    proof (cases "at v = 0")
      case True
      then have "toks' = []" using parse_end [OF True] t' by simp
      then have "glob toks t" using t'(2) glob_star_Nil by metis
      then show ?thesis using loop True by simp
    next
      case vz: False
      obtain "is" rest f' where f: "toks' = map Item is @ rest" "parse f' = Some rest" "fragment_of v is f'" "is \<noteq> []"
        using parse_fragment [OF t'(1)] vz at_after_stars [of w] unfolding v_def by blast
      obtain r where r: "search_scan v t (0 # z) = Some r" "search_post toks' t r"
        using search_scan_glob [of v "is" rest f' t z] f t'(1) "1.prems"(3) by auto
      show ?thesis
      proof (cases r)
        case (Return q)
        then show ?thesis using r loop vz t'(2) by (simp del: glob.simps)
      next
        case (Found w' u)
        with r(2) obtain rest' where p: "parse w' = Some rest'" "glob (Star # toks') t \<longleftrightarrow> glob rest' u" "set u \<subseteq> set t"
          by (auto simp del: glob.simps)
        have "at w' = 0 \<or> at w' = STAR" using search_shorter [of v t "0 # z"] r Found by simp
        then have "loop_scan w' u (0 # z) = Some (if glob rest' u then 1 else 0)"
          using "1.hyps" [OF nz _ v_def vz r(1) Found p(1)] st subsetD [OF p(3)] "1.prems"(3) by blast
        then show ?thesis using r loop vz t'(2) p(2) Found by (simp del: glob.simps)
      qed
    qed
  qed
qed

lemma inner_scan_glob:
  assumes "parse w = Some toks" "0 \<notin> set t"
  shows "inner_scan w t (0 # z) = Some (if glob toks t then 1 else 0)"
proof (cases "at w = STAR")
  case True
  then show ?thesis using loop_scan_glob assms by (simp add: inner_scan_def)
next
  case False
  obtain "is" rest f' where f: "toks = map Item is @ rest" "parse f' = Some rest" "fragment_of w is f'"
    using parse_fragment [OF assms(1)] by blast
  have frag: "fragment_scan w t = (if all_ok is t then Match f' (drop (length is) t) else Fail)"
    using f(3) by (simp add: fragment_of_def)
  show ?thesis
  proof (cases "all_ok is t")
    case True
    have "0 \<notin> set (drop (length is) t)" using assms(2) in_set_dropD by metis
    moreover have "at f' = 0 \<or> at f' = STAR" using f(3) by (simp add: fragment_of_def)
    ultimately show ?thesis
      using loop_scan_glob [OF f(2)] True False frag f(1) by (simp add: inner_scan_def glob_items)
  next
    case no: False
    then show ?thesis using False frag f(1) by (simp add: inner_scan_def glob_items frag_code_def)
  qed
qed

section \<open>Results\<close>

lemma wc_code_range: "1 \<le> wc_code e \<and> wc_code e \<le> 3"
  by (simp add: wc_code_def split: wc_err.split)

lemma frag_code_range: "- 3 \<le> frag_code r \<and> frag_code r \<le> 1"
proof (cases r)
  case (Err e)
  then show ?thesis using wc_code_range [of e] by (simp add: frag_code_def)
qed (simp_all add: frag_code_def)

lemma search_scan_total:
  "\<exists>r. search_scan w t (0 # z) = Some r \<and> (case r of Return q \<Rightarrow> - 3 \<le> q \<and> q \<le> 1 | _ \<Rightarrow> True)"
proof (induction t)
  case Nil
  then show ?case by (simp add: search_scan.simps [of w "[]"])
next
  case (Cons c t)
  note sl = search_scan.simps [of w "c # t"]
  show ?case
  proof (cases "fragment_scan w (c # t)")
    case (Err e)
    then show ?thesis using wc_code_range [of e] by (simp add: sl)
  next
    case (Match w' t')
    then show ?thesis using frag_code_range by (simp add: sl)
  qed (use Cons in \<open>simp add: sl\<close>)
qed

lemma loop_scan_total:
  "at w = 0 \<or> at w = STAR \<Longrightarrow> \<exists>q. loop_scan w t (0 # z) = Some q \<and> - 3 \<le> q \<and> q \<le> 1"
proof (induction w t "0 # z" rule: loop_scan.induct)
  case (1 w t)
  define v where "v = dropWhile (\<lambda>c. c = STAR) w"
  obtain r where r: "search_scan v t (0 # z) = Some r" "case r of Return q \<Rightarrow> - 3 \<le> q \<and> q \<le> 1 | _ \<Rightarrow> True"
    using search_scan_total by blast
  have "\<exists>q. loop_scan w' u (0 # z) = Some q \<and> - 3 \<le> q \<and> q \<le> 1"
    if "r = Found w' u" "at w \<noteq> 0" "at v \<noteq> 0" for w' u
    using "1.hyps" [OF that(2) _ v_def that(3) r(1) that(1)] search_shorter [of v t "0 # z"] r that "1.prems" by simp
  then show ?case
    using r "1.prems" unfolding loop_scan.simps [of w t] Let_def v_def [symmetric]
    by (cases r) auto
qed

section \<open>Properties\<close>

lemma glob_star_Nil_item: "\<not> glob (Star # Item i # p) []"
  by simp

lemma STAR_b_tokens: "parse [STAR, 98] = Some [Star, Item (Lit 98)]"
  by (simp add: parse.simps at_def char_defs)

lemma takeWhile_NUL: "0 \<notin> set t \<Longrightarrow> takeWhile (\<lambda>c. c \<noteq> 0) t = t"
  by (auto simp: takeWhile_eq_all_conv)

text \<open>
  C21: the matcher is right. For every well-formed wildcard and every NUL-terminated
  string, \<open>wc_match\<close> returns 1 when the string has the wildcard's meaning and 0 when
  it has not: taking each fragment at the first place it occurs, with the last one
  tried again at the end, never misses a match.
\<close>

theorem wc_match_is_glob:
  assumes "parse w = Some toks" "0 \<notin> set t"
  shows "wc_match w t = Some (if glob toks t then 1 else 0)"
  using inner_scan_glob [OF assms] assms(2) by (simp add: wc_match_scan takeWhile_NUL)

theorem wc_match_is_glob_witness:
  "wc_match [STAR, 98] [97, 98, 97, 98] = Some 1 \<and> wc_match [STAR, 98] [98, 97] = Some 0"
  using wc_match_is_glob [OF STAR_b_tokens, of "[97, 98, 97, 98]"] wc_match_is_glob [OF STAR_b_tokens, of "[98, 97]"]
  by (simp add: glob_star_Cons glob_star_Nil_item del: glob.simps(2))

text \<open>
  C22: the matcher always answers and stays inside its strings. On any two C strings, the
  wildcard well-formed or not, \<open>wc_match\<close> ends, never reads behind either string's
  NUL or trips its assertion, and returns 1, 0, or, only for a malformed wildcard, a negative
  code with a message of its own in \<open>wc_error\<close>.
\<close>

theorem wc_match_answers:
  "\<exists>q. wc_match w t = Some q \<and>
     (q = 1 \<or> q = 0 \<or> q < 0 \<and> hd (wc_error q) \<noteq> CHR ''I'' \<and> parse w = None)"
proof -
  let ?t = "takeWhile (\<lambda>c. c \<noteq> 0) t"
  have "\<exists>q. inner_scan w ?t (0 # z) = Some q \<and> - 3 \<le> q \<and> q \<le> 1" for z
    using loop_scan_total [of _ _ z] frag_code_range fragment_shorter [of w ?t]
    by (auto simp: inner_scan_def split: frag_result.splits)
  then obtain q where q: "wc_match w t = Some q" "- 3 \<le> q" "q \<le> 1" unfolding wc_match_scan by blast
  then have "q = 1 \<or> q = 0 \<or> q = - 1 \<or> q = - 2 \<or> q = - 3" by arith
  moreover have "hd (wc_error (- 1)) \<noteq> CHR ''I''" "hd (wc_error (- 2)) \<noteq> CHR ''I''" "hd (wc_error (- 3)) \<noteq> CHR ''I''"
    by (simp_all add: wc_error_def wc_code_def)
  moreover have "parse w = None" if "q < 0"
  proof (rule ccontr)
    assume "parse w \<noteq> None"
    then obtain toks where "parse w = Some toks" by auto
    moreover have "0 \<notin> set ?t" by (auto dest: set_takeWhileD)
    ultimately show False
      using inner_scan_glob [of w toks ?t] q(1) that by (simp add: wc_match_scan split: if_splits)
  qed
  ultimately show ?thesis using q(1) by auto
qed

lemma parse_unescaped:
  "wc_unescape w = Some s \<Longrightarrow> parse w = Some toks \<Longrightarrow> 0 \<notin> set w \<Longrightarrow> toks = map (\<lambda>c. Item (Lit c)) s"
proof (induction w arbitrary: s toks rule: wc_unescape.induct)
  case (2 c w)
  show ?case
  proof (cases "c = BACKSLASH")
    case True
    show ?thesis
    proof (cases w)
      case Nil
      have "parse [BACKSLASH] = None" by (simp add: parse.simps at_def char_defs)
      then show ?thesis using 2 True Nil by simp
    next
      case (Cons d w')
      have "parse (BACKSLASH # d # w') = (if d = 0 then None else map_option (Cons (Item (Lit d))) (parse w'))"
        by (simp add: parse.simps [of "BACKSLASH # d # w'"]) (simp add: at_def char_defs)
      then show ?thesis using 2 True Cons by (auto split: if_splits)
    qed
  next
    case False
    then show ?thesis
      using 2 by (auto simp: parse.simps [of "c # w"] at_def char_defs split: if_splits)
  qed
qed (simp add: parse_end at_def)

lemma glob_literals: "glob (map (\<lambda>c. Item (Lit c)) s) t \<longleftrightarrow> t = s"
proof (induction s arbitrary: t)
  case (Cons c s)
  then show ?case by (cases t) auto
qed simp

text \<open>
  a name that \<open>wc_unescape\<close> accepts, and whose last character is not a lone
  backslash, is matched as a wildcard by exactly one string: its unescaped form.
\<close>

theorem unescape_names_one_file:
  assumes "wc_unescape w = Some s" "parse w = Some toks" "0 \<notin> set w" "0 \<notin> set t"
  shows "wc_match w t = Some (if t = s then 1 else 0)"
  using inner_scan_glob [OF assms(2,4)] parse_unescaped [OF assms(1-3)] glob_literals assms(4)
  by (simp add: wc_match_scan takeWhile_NUL)

theorem unescape_names_one_file_witness:
  "wc_unescape [BACKSLASH, STAR, 98] = Some [STAR, 98] \<and> wc_match [BACKSLASH, STAR, 98] [STAR, 98] = Some 1"
  using unescape_names_one_file [of "[BACKSLASH, STAR, 98]" "[STAR, 98]" "[Item (Lit STAR), Item (Lit 98)]" "[STAR, 98]"]
  by (simp add: parse.simps at_def char_defs)

text \<open>
  \<open>wc_match_pl\<close>, which is given the length, still stops at a NUL: the string \<open>a\0b\<close>
  has the meaning of \<open>*b\<close> and is refused; and on a target without a match it reads the byte
  behind the end it was given.
\<close>

theorem wc_match_pl_stops_at_NUL:
  "glob [Star, Item (Lit 98)] [97, 0, 98] \<and> parse [STAR, 98] = Some [Star, Item (Lit 98)] \<and>
   wc_match_pl [STAR, 98] [97, 0, 98] [] = Some 0 \<and> wc_match_pl [STAR, 98] [97] [] = None"
proof -
  have "glob [Star, Item (Lit 98)] [97, 0, 98]"
    by (auto intro!: exI [of _ 2])
  moreover have "wc_match_pl [STAR, 98] [97, 0, 98] [] = Some 0" "wc_match_pl [STAR, 98] [97] [] = None"
    using wc_match_inner_scan [of "[]" "[STAR, 98]"]
    by (simp_all add: with_NUL_def wc_match_pl_def inner_scan_def loop_scan.simps search_scan.simps
        fragment_scan.simps char_defs)
  ultimately show ?thesis using STAR_b_tokens by simp
qed

end
