(* ===== verification/Conf.thy ===== *)
theory Conf
  imports Tree234 Marshal
begin

text \<open>
  The configuration store: \<open>putty-src/conf.c\<close>, with the option table of \<open>putty.h\<close> and the Unix
  \<open>Filename\<close> and \<open>FontSpec\<close> of \<open>unix/uxmisc.c\<close>.

  A \<open>Conf\<close> is a sorted tree of entries; it is a client of the interface \<open>ordered_store\<close>
  of \<open>Tree234\<close>. The program compares entries by pointer in one place, so an entry carries
  the address it was allocated at, and the record has the next address not in use.
  The two unions are datatypes: the constructor is the member written last. \<open>None\<close> is a
  failed assertion, a table access out of bounds, a read of a union member that was not
  written, or a loop that does not end. Memory exhaustion and \<open>free\<close> are not modelled.
\<close>

section \<open>Data\<close>

type_synonym int32 = "32 word"

datatype Type = TYPE_NONE | TYPE_BOOL | TYPE_INT | TYPE_STR | TYPE_FILENAME | TYPE_FONT

text \<open>
  The table \<open>CONFIG_OPTIONS\<close>: value type, subkey type and keyword. The position in it is the
  number of the option.
\<close>

definition session_options :: "(Type \<times> Type \<times> string) list" where
  "session_options = [
    (TYPE_STR, TYPE_NONE, ''host''), (TYPE_INT, TYPE_NONE, ''port''),
    (TYPE_INT, TYPE_NONE, ''protocol''), (TYPE_INT, TYPE_NONE, ''addressfamily''),
    (TYPE_INT, TYPE_NONE, ''close_on_exit''), (TYPE_BOOL, TYPE_NONE, ''warn_on_close''),
    (TYPE_INT, TYPE_NONE, ''ping_interval''), (TYPE_BOOL, TYPE_NONE, ''tcp_nodelay''),
    (TYPE_BOOL, TYPE_NONE, ''tcp_keepalives''), (TYPE_STR, TYPE_NONE, ''loghost''),
    (TYPE_STR, TYPE_NONE, ''proxy_exclude_list''), (TYPE_INT, TYPE_NONE, ''proxy_dns''),
    (TYPE_BOOL, TYPE_NONE, ''even_proxy_localhost''), (TYPE_INT, TYPE_NONE, ''proxy_type''),
    (TYPE_STR, TYPE_NONE, ''proxy_host''), (TYPE_INT, TYPE_NONE, ''proxy_port''),
    (TYPE_STR, TYPE_NONE, ''proxy_username''), (TYPE_STR, TYPE_NONE, ''proxy_password''),
    (TYPE_STR, TYPE_NONE, ''proxy_telnet_command''),
    (TYPE_INT, TYPE_NONE, ''proxy_log_to_term''), (TYPE_STR, TYPE_NONE, ''remote_cmd''),
    (TYPE_STR, TYPE_NONE, ''remote_cmd2''), (TYPE_BOOL, TYPE_NONE, ''nopty''),
    (TYPE_BOOL, TYPE_NONE, ''compression''), (TYPE_INT, TYPE_INT, ''ssh_kexlist''),
    (TYPE_INT, TYPE_INT, ''ssh_hklist''), (TYPE_INT, TYPE_NONE, ''ssh_rekey_time''),
    (TYPE_STR, TYPE_NONE, ''ssh_rekey_data''), (TYPE_BOOL, TYPE_NONE, ''tryagent''),
    (TYPE_BOOL, TYPE_NONE, ''agentfwd''), (TYPE_BOOL, TYPE_NONE, ''change_username''),
    (TYPE_INT, TYPE_INT, ''ssh_cipherlist''), (TYPE_FILENAME, TYPE_NONE, ''keyfile''),
    (TYPE_INT, TYPE_NONE, ''sshprot''), (TYPE_BOOL, TYPE_NONE, ''ssh2_des_cbc''),
    (TYPE_BOOL, TYPE_NONE, ''ssh_no_userauth''), (TYPE_BOOL, TYPE_NONE, ''ssh_show_banner''),
    (TYPE_BOOL, TYPE_NONE, ''try_tis_auth''), (TYPE_BOOL, TYPE_NONE, ''try_ki_auth''),
    (TYPE_BOOL, TYPE_NONE, ''try_gssapi_auth''), (TYPE_BOOL, TYPE_NONE, ''try_gssapi_kex''),
    (TYPE_BOOL, TYPE_NONE, ''gssapifwd''), (TYPE_INT, TYPE_NONE, ''gssapirekey''),
    (TYPE_INT, TYPE_INT, ''ssh_gsslist''), (TYPE_FILENAME, TYPE_NONE, ''ssh_gss_custom''),
    (TYPE_BOOL, TYPE_NONE, ''ssh_subsys''), (TYPE_BOOL, TYPE_NONE, ''ssh_subsys2''),
    (TYPE_BOOL, TYPE_NONE, ''ssh_no_shell''), (TYPE_STR, TYPE_NONE, ''ssh_nc_host''),
    (TYPE_INT, TYPE_NONE, ''ssh_nc_port''), (TYPE_STR, TYPE_NONE, ''termtype''),
    (TYPE_STR, TYPE_NONE, ''termspeed''), (TYPE_STR, TYPE_STR, ''ttymodes''),
    (TYPE_STR, TYPE_STR, ''environmt''), (TYPE_STR, TYPE_NONE, ''username''),
    (TYPE_BOOL, TYPE_NONE, ''username_from_env''), (TYPE_STR, TYPE_NONE, ''localusername''),
    (TYPE_BOOL, TYPE_NONE, ''rfc_environ''), (TYPE_BOOL, TYPE_NONE, ''passive_telnet''),
    (TYPE_STR, TYPE_NONE, ''serline''), (TYPE_INT, TYPE_NONE, ''serspeed''),
    (TYPE_INT, TYPE_NONE, ''serdatabits''), (TYPE_INT, TYPE_NONE, ''serstopbits''),
    (TYPE_INT, TYPE_NONE, ''serparity''), (TYPE_INT, TYPE_NONE, ''serflow'')]"

definition terminal_options :: "(Type \<times> Type \<times> string) list" where
  "terminal_options = [
    (TYPE_BOOL, TYPE_NONE, ''bksp_is_delete''), (TYPE_BOOL, TYPE_NONE, ''rxvt_homeend''),
    (TYPE_INT, TYPE_NONE, ''funky_type''), (TYPE_BOOL, TYPE_NONE, ''no_applic_c''),
    (TYPE_BOOL, TYPE_NONE, ''no_applic_k''), (TYPE_BOOL, TYPE_NONE, ''no_mouse_rep''),
    (TYPE_BOOL, TYPE_NONE, ''no_remote_resize''), (TYPE_BOOL, TYPE_NONE, ''no_alt_screen''),
    (TYPE_BOOL, TYPE_NONE, ''no_remote_wintitle''),
    (TYPE_BOOL, TYPE_NONE, ''no_remote_clearscroll''),
    (TYPE_BOOL, TYPE_NONE, ''no_dbackspace''), (TYPE_BOOL, TYPE_NONE, ''no_remote_charset''),
    (TYPE_INT, TYPE_NONE, ''remote_qtitle_action''), (TYPE_BOOL, TYPE_NONE, ''app_cursor''),
    (TYPE_BOOL, TYPE_NONE, ''app_keypad''), (TYPE_BOOL, TYPE_NONE, ''nethack_keypad''),
    (TYPE_BOOL, TYPE_NONE, ''telnet_keyboard''), (TYPE_BOOL, TYPE_NONE, ''telnet_newline''),
    (TYPE_BOOL, TYPE_NONE, ''alt_f4''), (TYPE_BOOL, TYPE_NONE, ''alt_space''),
    (TYPE_BOOL, TYPE_NONE, ''alt_only''), (TYPE_INT, TYPE_NONE, ''localecho''),
    (TYPE_INT, TYPE_NONE, ''localedit''), (TYPE_BOOL, TYPE_NONE, ''alwaysontop''),
    (TYPE_BOOL, TYPE_NONE, ''fullscreenonaltenter''), (TYPE_BOOL, TYPE_NONE, ''scroll_on_key''),
    (TYPE_BOOL, TYPE_NONE, ''scroll_on_disp''), (TYPE_BOOL, TYPE_NONE, ''erase_to_scrollback''),
    (TYPE_BOOL, TYPE_NONE, ''compose_key''), (TYPE_BOOL, TYPE_NONE, ''ctrlaltkeys''),
    (TYPE_BOOL, TYPE_NONE, ''osx_option_meta''), (TYPE_BOOL, TYPE_NONE, ''osx_command_meta''),
    (TYPE_STR, TYPE_NONE, ''wintitle''), (TYPE_INT, TYPE_NONE, ''savelines''),
    (TYPE_BOOL, TYPE_NONE, ''dec_om''), (TYPE_BOOL, TYPE_NONE, ''wrap_mode''),
    (TYPE_BOOL, TYPE_NONE, ''lfhascr''), (TYPE_INT, TYPE_NONE, ''cursor_type''),
    (TYPE_BOOL, TYPE_NONE, ''blink_cur''), (TYPE_INT, TYPE_NONE, ''beep''),
    (TYPE_INT, TYPE_NONE, ''beep_ind''), (TYPE_BOOL, TYPE_NONE, ''bellovl''),
    (TYPE_INT, TYPE_NONE, ''bellovl_n''), (TYPE_INT, TYPE_NONE, ''bellovl_t''),
    (TYPE_INT, TYPE_NONE, ''bellovl_s''), (TYPE_FILENAME, TYPE_NONE, ''bell_wavefile''),
    (TYPE_BOOL, TYPE_NONE, ''scrollbar''), (TYPE_BOOL, TYPE_NONE, ''scrollbar_in_fullscreen''),
    (TYPE_INT, TYPE_NONE, ''resize_action''), (TYPE_BOOL, TYPE_NONE, ''bce''),
    (TYPE_BOOL, TYPE_NONE, ''blinktext''), (TYPE_BOOL, TYPE_NONE, ''win_name_always''),
    (TYPE_INT, TYPE_NONE, ''width''), (TYPE_INT, TYPE_NONE, ''height''),
    (TYPE_FONT, TYPE_NONE, ''font''), (TYPE_INT, TYPE_NONE, ''font_quality''),
    (TYPE_FILENAME, TYPE_NONE, ''logfilename''), (TYPE_INT, TYPE_NONE, ''logtype''),
    (TYPE_INT, TYPE_NONE, ''logxfovr''), (TYPE_BOOL, TYPE_NONE, ''logflush''),
    (TYPE_BOOL, TYPE_NONE, ''logheader''), (TYPE_BOOL, TYPE_NONE, ''logomitpass''),
    (TYPE_BOOL, TYPE_NONE, ''logomitdata''), (TYPE_BOOL, TYPE_NONE, ''hide_mouseptr''),
    (TYPE_BOOL, TYPE_NONE, ''sunken_edge''), (TYPE_INT, TYPE_NONE, ''window_border''),
    (TYPE_STR, TYPE_NONE, ''answerback''), (TYPE_STR, TYPE_NONE, ''printer''),
    (TYPE_BOOL, TYPE_NONE, ''no_arabicshaping''), (TYPE_BOOL, TYPE_NONE, ''no_bidi''),
    (TYPE_BOOL, TYPE_NONE, ''ansi_colour''), (TYPE_BOOL, TYPE_NONE, ''xterm_256_colour''),
    (TYPE_BOOL, TYPE_NONE, ''true_colour''), (TYPE_BOOL, TYPE_NONE, ''system_colour''),
    (TYPE_BOOL, TYPE_NONE, ''try_palette''), (TYPE_INT, TYPE_NONE, ''bold_style''),
    (TYPE_INT, TYPE_INT, ''colours'')]"

definition other_options :: "(Type \<times> Type \<times> string) list" where
  "other_options = [
    (TYPE_INT, TYPE_NONE, ''mouse_is_xterm''), (TYPE_BOOL, TYPE_NONE, ''rect_select''),
    (TYPE_BOOL, TYPE_NONE, ''paste_controls''), (TYPE_BOOL, TYPE_NONE, ''rawcnp''),
    (TYPE_BOOL, TYPE_NONE, ''utf8linedraw''), (TYPE_BOOL, TYPE_NONE, ''rtf_paste''),
    (TYPE_BOOL, TYPE_NONE, ''mouse_override''), (TYPE_INT, TYPE_INT, ''wordness''),
    (TYPE_BOOL, TYPE_NONE, ''mouseautocopy''), (TYPE_INT, TYPE_NONE, ''mousepaste''),
    (TYPE_INT, TYPE_NONE, ''ctrlshiftins''), (TYPE_INT, TYPE_NONE, ''ctrlshiftcv''),
    (TYPE_STR, TYPE_NONE, ''mousepaste_custom''),
    (TYPE_STR, TYPE_NONE, ''ctrlshiftins_custom''),
    (TYPE_STR, TYPE_NONE, ''ctrlshiftcv_custom''), (TYPE_INT, TYPE_NONE, ''vtmode''),
    (TYPE_STR, TYPE_NONE, ''line_codepage''), (TYPE_BOOL, TYPE_NONE, ''cjk_ambig_wide''),
    (TYPE_BOOL, TYPE_NONE, ''utf8_override''), (TYPE_BOOL, TYPE_NONE, ''xlat_capslockcyr''),
    (TYPE_BOOL, TYPE_NONE, ''x11_forward''), (TYPE_STR, TYPE_NONE, ''x11_display''),
    (TYPE_INT, TYPE_NONE, ''x11_auth''), (TYPE_FILENAME, TYPE_NONE, ''xauthfile''),
    (TYPE_BOOL, TYPE_NONE, ''lport_acceptall''), (TYPE_BOOL, TYPE_NONE, ''rport_acceptall''),
    (TYPE_STR, TYPE_STR, ''portfwd''), (TYPE_INT, TYPE_NONE, ''sshbug_ignore1''),
    (TYPE_INT, TYPE_NONE, ''sshbug_plainpw1''), (TYPE_INT, TYPE_NONE, ''sshbug_rsa1''),
    (TYPE_INT, TYPE_NONE, ''sshbug_hmac2''), (TYPE_INT, TYPE_NONE, ''sshbug_derivekey2''),
    (TYPE_INT, TYPE_NONE, ''sshbug_rsapad2''), (TYPE_INT, TYPE_NONE, ''sshbug_pksessid2''),
    (TYPE_INT, TYPE_NONE, ''sshbug_rekey2''), (TYPE_INT, TYPE_NONE, ''sshbug_maxpkt2''),
    (TYPE_INT, TYPE_NONE, ''sshbug_ignore2''), (TYPE_INT, TYPE_NONE, ''sshbug_oldgex2''),
    (TYPE_INT, TYPE_NONE, ''sshbug_winadj''), (TYPE_INT, TYPE_NONE, ''sshbug_chanreq''),
    (TYPE_BOOL, TYPE_NONE, ''ssh_simple''), (TYPE_BOOL, TYPE_NONE, ''ssh_connection_sharing''),
    (TYPE_BOOL, TYPE_NONE, ''ssh_connection_sharing_upstream''),
    (TYPE_BOOL, TYPE_NONE, ''ssh_connection_sharing_downstream''),
    (TYPE_STR, TYPE_STR, ''ssh_manual_hostkeys''), (TYPE_BOOL, TYPE_NONE, ''stamp_utmp''),
    (TYPE_BOOL, TYPE_NONE, ''login_shell''), (TYPE_BOOL, TYPE_NONE, ''scrollbar_on_left''),
    (TYPE_BOOL, TYPE_NONE, ''shadowbold''), (TYPE_FONT, TYPE_NONE, ''boldfont''),
    (TYPE_FONT, TYPE_NONE, ''widefont''), (TYPE_FONT, TYPE_NONE, ''wideboldfont''),
    (TYPE_INT, TYPE_NONE, ''shadowboldoffset''), (TYPE_BOOL, TYPE_NONE, ''crhaslf''),
    (TYPE_STR, TYPE_NONE, ''winclass'')]"

definition CONFIG_OPTIONS :: "(Type \<times> Type \<times> string) list" where
  "CONFIG_OPTIONS = session_options @ terminal_options @ other_options"

definition N_CONFIG_OPTIONS :: nat where
  "N_CONFIG_OPTIONS = length CONFIG_OPTIONS"

definition CONF :: "string \<Rightarrow> nat" where
  "CONF keyword = length (takeWhile (\<lambda>(_, _, k). k \<noteq> keyword) CONFIG_OPTIONS)"

definition subkeytypes :: "nat \<Rightarrow> Type option" where
  "subkeytypes p = (if p < N_CONFIG_OPTIONS then Some (fst (snd (CONFIG_OPTIONS ! p))) else None)"

definition valuetypes :: "nat \<Rightarrow> Type option" where
  "valuetypes p = (if p < N_CONFIG_OPTIONS then Some (fst (CONFIG_OPTIONS ! p)) else None)"

datatype subkey = No_subkey | Sec_i int32 | Sec_s "byte list"

record key =
  k_primary :: nat
  k_secondary :: subkey

record Filename =
  path :: "byte list"

record FontSpec =
  fontname :: "byte list"

datatype cvalue = No_value | Boolval bool | Intval int32 | Stringval "byte list" | Fileval Filename | Fontval FontSpec

record conf_entry =
  e_key :: key
  e_value :: cvalue
  e_addr :: nat

record conf =
  conf_tree :: "conf_entry tree234"
  conf_fresh :: nat

text \<open>Reading a member of the union of a key that was not written gives a fixed value here;
  the invariant below shows that it does not happen.\<close>

definition sec_i :: "subkey \<Rightarrow> int32" where
  "sec_i s = (case s of Sec_i i \<Rightarrow> i | _ \<Rightarrow> 0)"

definition sec_s :: "subkey \<Rightarrow> byte list" where
  "sec_s s = (case s of Sec_s s \<Rightarrow> s | _ \<Rightarrow> [])"

fun strcmp :: "byte list \<Rightarrow> byte list \<Rightarrow> int" where
  "strcmp [] [] = 0"
| "strcmp [] (y # ys) = -1"
| "strcmp (x # xs) [] = 1"
| "strcmp (x # xs) (y # ys) = (if x < y then -1 else if x > y then 1 else strcmp xs ys)"

definition conf_cmp :: "key \<Rightarrow> key \<Rightarrow> int" where
  "conf_cmp a b =
     (if k_primary a < k_primary b then -1
      else if k_primary a > k_primary b then 1
      else (case subkeytypes (k_primary a) of
          Some TYPE_INT \<Rightarrow>
            if sint (sec_i (k_secondary a)) < sint (sec_i (k_secondary b)) then -1
            else if sint (sec_i (k_secondary a)) > sint (sec_i (k_secondary b)) then 1
            else 0
        | Some TYPE_STR \<Rightarrow> strcmp (sec_s (k_secondary a)) (sec_s (k_secondary b))
        | _ \<Rightarrow> 0))"

text \<open>Both a sort function for entries and a search function for a key alone.\<close>

definition entry_cmp :: "conf_entry \<Rightarrow> conf_entry \<Rightarrow> int" where
  "entry_cmp a b = conf_cmp (e_key a) (e_key b)"

definition conf_cmp_constkey :: "key \<Rightarrow> conf_entry \<Rightarrow> int" where
  "conf_cmp_constkey a b = conf_cmp a (e_key b)"

section \<open>Operations\<close>

definition copy_key :: "key \<Rightarrow> key" where
  "copy_key from' = \<lparr>k_primary = k_primary from',
     k_secondary = (case subkeytypes (k_primary from') of
         Some TYPE_INT \<Rightarrow> Sec_i (sec_i (k_secondary from'))
       | Some TYPE_STR \<Rightarrow> Sec_s (sec_s (k_secondary from'))
       | _ \<Rightarrow> No_subkey)\<rparr>"

definition filename_from_str :: "byte list \<Rightarrow> Filename" where
  "filename_from_str str = \<lparr>path = str\<rparr>"

definition filename_copy :: "Filename \<Rightarrow> Filename" where
  "filename_copy fn = filename_from_str (path fn)"

definition fontspec_new :: "byte list \<Rightarrow> FontSpec" where
  "fontspec_new nm = \<lparr>fontname = nm\<rparr>"

definition fontspec_copy :: "FontSpec \<Rightarrow> FontSpec" where
  "fontspec_copy f = fontspec_new (fontname f)"

definition boolval :: "cvalue \<Rightarrow> bool option" where
  "boolval v = (case v of Boolval b \<Rightarrow> Some b | _ \<Rightarrow> None)"

definition intval :: "cvalue \<Rightarrow> int32 option" where
  "intval v = (case v of Intval i \<Rightarrow> Some i | _ \<Rightarrow> None)"

definition stringval :: "cvalue \<Rightarrow> byte list option" where
  "stringval v = (case v of Stringval s \<Rightarrow> Some s | _ \<Rightarrow> None)"

definition fileval :: "cvalue \<Rightarrow> Filename option" where
  "fileval v = (case v of Fileval f \<Rightarrow> Some f | _ \<Rightarrow> None)"

definition fontval :: "cvalue \<Rightarrow> FontSpec option" where
  "fontval v = (case v of Fontval f \<Rightarrow> Some f | _ \<Rightarrow> None)"

definition copy_value :: "cvalue \<Rightarrow> Type option \<Rightarrow> cvalue option" where
  "copy_value from' type = (case type of
       Some TYPE_BOOL \<Rightarrow> map_option Boolval (boolval from')
     | Some TYPE_INT \<Rightarrow> map_option Intval (intval from')
     | Some TYPE_STR \<Rightarrow> map_option Stringval (stringval from')
     | Some TYPE_FILENAME \<Rightarrow> map_option (\<lambda>f. Fileval (filename_copy f)) (fileval from')
     | Some TYPE_FONT \<Rightarrow> map_option (\<lambda>f. Fontval (fontspec_copy f)) (fontval from')
     | _ \<Rightarrow> Some No_value)"

definition conf_new :: conf where
  "conf_new = \<lparr>conf_tree = newtree234 (Some entry_cmp), conf_fresh = 0\<rparr>"

partial_function (option) conf_clear :: "conf \<Rightarrow> conf option" where
  "conf_clear conf =
     Option.bind (delpos234 (conf_tree conf) 0) (\<lambda>(t, entry).
       case entry of
         None \<Rightarrow> Some (conf\<lparr>conf_tree := t\<rparr>)
       | Some entry \<Rightarrow> conf_clear (conf\<lparr>conf_tree := t\<rparr>))"

declare conf_clear.simps [code]

definition new_entry :: "key \<Rightarrow> cvalue \<Rightarrow> conf \<Rightarrow> conf_entry \<times> conf" where
  "new_entry k v conf =
     (\<lparr>e_key = k, e_value = v, e_addr = conf_fresh conf\<rparr>, conf\<lparr>conf_fresh := conf_fresh conf + 1\<rparr>)"

definition conf_insert :: "conf \<Rightarrow> conf_entry \<Rightarrow> conf option" where
  "conf_insert conf entry =
     Option.bind (add234 (conf_tree conf) entry) (\<lambda>(t, oldentry).
       case oldentry of
         None \<Rightarrow> Some (conf\<lparr>conf_tree := t\<rparr>)
       | Some oldentry \<Rightarrow>
           if e_addr oldentry \<noteq> e_addr entry then
             Option.bind (del234 t oldentry) (\<lambda>(t, _).
             Option.bind (add234 t entry) (\<lambda>(t, oldentry).
               case oldentry of
                 None \<Rightarrow> None
               | Some oldentry \<Rightarrow>
                   if e_addr oldentry = e_addr entry then Some (conf\<lparr>conf_tree := t\<rparr>) else None))
           else Some (conf\<lparr>conf_tree := t\<rparr>))"

partial_function (option) copy_loop :: "int \<Rightarrow> conf \<Rightarrow> conf \<Rightarrow> conf option" where
  "copy_loop i newconf oldconf = (case index234 (conf_tree oldconf) i of
       None \<Rightarrow> Some newconf
     | Some entry \<Rightarrow>
         Option.bind (copy_value (e_value entry) (valuetypes (k_primary (e_key entry)))) (\<lambda>v.
         (let (entry2, newconf) = new_entry (copy_key (e_key entry)) v newconf in
          Option.bind (add234 (conf_tree newconf) entry2) (\<lambda>(t, _).
          copy_loop (i + 1) (newconf\<lparr>conf_tree := t\<rparr>) oldconf))))"

declare copy_loop.simps [code]

definition conf_copy_into :: "conf \<Rightarrow> conf \<Rightarrow> conf option" where
  "conf_copy_into newconf oldconf =
     Option.bind (conf_clear newconf) (\<lambda>newconf. copy_loop 0 newconf oldconf)"

definition conf_copy :: "conf \<Rightarrow> conf option" where
  "conf_copy oldconf = conf_copy_into conf_new oldconf"

text \<open>The lookup that all the readers share, after the two assertions on the types.\<close>

definition key_of :: "nat \<Rightarrow> subkey \<Rightarrow> key" where
  "key_of p s = \<lparr>k_primary = p, k_secondary = s\<rparr>"

definition types_are :: "nat \<Rightarrow> Type \<Rightarrow> Type \<Rightarrow> bool" where
  "types_are p subtype valtype \<longleftrightarrow> subkeytypes p = Some subtype \<and> valuetypes p = Some valtype"

definition find_entry :: "conf \<Rightarrow> key \<Rightarrow> conf_entry option option" where
  "find_entry conf key = find234 (conf_tree conf) key conf_cmp_constkey"

definition conf_get_bool :: "conf \<Rightarrow> nat \<Rightarrow> bool option" where
  "conf_get_bool conf p =
     (if types_are p TYPE_NONE TYPE_BOOL then
        Option.bind (find_entry conf (key_of p No_subkey)) (\<lambda>entry.
        Option.bind entry (\<lambda>entry. boolval (e_value entry)))
      else None)"

definition conf_get_int :: "conf \<Rightarrow> nat \<Rightarrow> int32 option" where
  "conf_get_int conf p =
     (if types_are p TYPE_NONE TYPE_INT then
        Option.bind (find_entry conf (key_of p No_subkey)) (\<lambda>entry.
        Option.bind entry (\<lambda>entry. intval (e_value entry)))
      else None)"

definition conf_get_int_int :: "conf \<Rightarrow> nat \<Rightarrow> int32 \<Rightarrow> int32 option" where
  "conf_get_int_int conf p secondary =
     (if types_are p TYPE_INT TYPE_INT then
        Option.bind (find_entry conf (key_of p (Sec_i secondary))) (\<lambda>entry.
        Option.bind entry (\<lambda>entry. intval (e_value entry)))
      else None)"

definition conf_get_str :: "conf \<Rightarrow> nat \<Rightarrow> byte list option" where
  "conf_get_str conf p =
     (if types_are p TYPE_NONE TYPE_STR then
        Option.bind (find_entry conf (key_of p No_subkey)) (\<lambda>entry.
        Option.bind entry (\<lambda>entry. stringval (e_value entry)))
      else None)"

text \<open>A result \<open>Some None\<close> is a returned NULL.\<close>

definition conf_get_str_str_opt :: "conf \<Rightarrow> nat \<Rightarrow> byte list \<Rightarrow> byte list option option" where
  "conf_get_str_str_opt conf p secondary =
     (if types_are p TYPE_STR TYPE_STR then
        Option.bind (find_entry conf (key_of p (Sec_s secondary))) (\<lambda>entry.
        case entry of None \<Rightarrow> Some None | Some entry \<Rightarrow> map_option Some (stringval (e_value entry)))
      else None)"

definition conf_get_str_str :: "conf \<Rightarrow> nat \<Rightarrow> byte list \<Rightarrow> byte list option" where
  "conf_get_str_str conf p secondary = Option.bind (conf_get_str_str_opt conf p secondary) (\<lambda>ret. ret)"

text \<open>The subkey and the value of the next entry, in the order of the subkeys.\<close>

definition conf_get_str_strs :: "conf \<Rightarrow> nat \<Rightarrow> byte list option \<Rightarrow> (byte list \<times> byte list) option option" where
  "conf_get_str_strs conf p subkeyin =
     (if types_are p TYPE_STR TYPE_STR then
        Option.bind (case subkeyin of
            Some s \<Rightarrow> findrel234 (conf_tree conf) (Some (key_of p (Sec_s s))) conf_cmp_constkey REL234_GT
          | None \<Rightarrow> findrel234 (conf_tree conf) (Some (key_of p (Sec_s []))) conf_cmp_constkey REL234_GE)
          (\<lambda>entry. case entry of
             None \<Rightarrow> Some None
           | Some entry \<Rightarrow>
               if k_primary (e_key entry) \<noteq> p then Some None
               else map_option (\<lambda>v. Some (sec_s (k_secondary (e_key entry)), v)) (stringval (e_value entry)))
      else None)"

definition conf_get_str_nthstrkey :: "conf \<Rightarrow> nat \<Rightarrow> int \<Rightarrow> byte list option option" where
  "conf_get_str_nthstrkey conf p n =
     (if types_are p TYPE_STR TYPE_STR then
        Option.bind (findrelpos234 (conf_tree conf) (Some (key_of p (Sec_s []))) conf_cmp_constkey REL234_GE)
          (\<lambda>found. case found of
             None \<Rightarrow> Some None
           | Some (entry, index) \<Rightarrow>
               if k_primary (e_key entry) \<noteq> p then Some None
               else (case index234 (conf_tree conf) (index + n) of
                   None \<Rightarrow> Some None
                 | Some entry \<Rightarrow>
                     if k_primary (e_key entry) \<noteq> p then Some None
                     else Some (Some (sec_s (k_secondary (e_key entry))))))
      else None)"

definition conf_get_filename :: "conf \<Rightarrow> nat \<Rightarrow> Filename option" where
  "conf_get_filename conf p =
     (if types_are p TYPE_NONE TYPE_FILENAME then
        Option.bind (find_entry conf (key_of p No_subkey)) (\<lambda>entry.
        Option.bind entry (\<lambda>entry. fileval (e_value entry)))
      else None)"

definition conf_get_fontspec :: "conf \<Rightarrow> nat \<Rightarrow> FontSpec option" where
  "conf_get_fontspec conf p =
     (if types_are p TYPE_NONE TYPE_FONT then
        Option.bind (find_entry conf (key_of p No_subkey)) (\<lambda>entry.
        Option.bind entry (\<lambda>entry. fontval (e_value entry)))
      else None)"

text \<open>The setters allocate an entry, check the types, fill the entry in and insert it.\<close>

definition conf_set_bool :: "conf \<Rightarrow> nat \<Rightarrow> bool \<Rightarrow> conf option" where
  "conf_set_bool conf p v =
     (if types_are p TYPE_NONE TYPE_BOOL then
        (let (entry, conf) = new_entry (key_of p No_subkey) (Boolval v) conf in conf_insert conf entry)
      else None)"

definition conf_set_int :: "conf \<Rightarrow> nat \<Rightarrow> int32 \<Rightarrow> conf option" where
  "conf_set_int conf p v =
     (if types_are p TYPE_NONE TYPE_INT then
        (let (entry, conf) = new_entry (key_of p No_subkey) (Intval v) conf in conf_insert conf entry)
      else None)"

definition conf_set_int_int :: "conf \<Rightarrow> nat \<Rightarrow> int32 \<Rightarrow> int32 \<Rightarrow> conf option" where
  "conf_set_int_int conf p secondary v =
     (if types_are p TYPE_INT TYPE_INT then
        (let (entry, conf) = new_entry (key_of p (Sec_i secondary)) (Intval v) conf in conf_insert conf entry)
      else None)"

definition conf_set_str :: "conf \<Rightarrow> nat \<Rightarrow> byte list \<Rightarrow> conf option" where
  "conf_set_str conf p v =
     (if types_are p TYPE_NONE TYPE_STR then
        (let (entry, conf) = new_entry (key_of p No_subkey) (Stringval v) conf in conf_insert conf entry)
      else None)"

definition conf_set_str_str :: "conf \<Rightarrow> nat \<Rightarrow> byte list \<Rightarrow> byte list \<Rightarrow> conf option" where
  "conf_set_str_str conf p secondary v =
     (if types_are p TYPE_STR TYPE_STR then
        (let (entry, conf) = new_entry (key_of p (Sec_s secondary)) (Stringval v) conf in conf_insert conf entry)
      else None)"

definition conf_del_str_str :: "conf \<Rightarrow> nat \<Rightarrow> byte list \<Rightarrow> conf option" where
  "conf_del_str_str conf p secondary =
     (if types_are p TYPE_STR TYPE_STR then
        Option.bind (find_entry conf (key_of p (Sec_s secondary))) (\<lambda>entry. case entry of
            None \<Rightarrow> Some conf
          | Some entry \<Rightarrow> map_option (\<lambda>(t, _). conf\<lparr>conf_tree := t\<rparr>) (del234 (conf_tree conf) entry))
      else None)"

definition conf_set_filename :: "conf \<Rightarrow> nat \<Rightarrow> Filename \<Rightarrow> conf option" where
  "conf_set_filename conf p v =
     (if types_are p TYPE_NONE TYPE_FILENAME then
        (let (entry, conf) = new_entry (key_of p No_subkey) (Fileval (filename_copy v)) conf in
         conf_insert conf entry)
      else None)"

definition conf_set_fontspec :: "conf \<Rightarrow> nat \<Rightarrow> FontSpec \<Rightarrow> conf option" where
  "conf_set_fontspec conf p v =
     (if types_are p TYPE_NONE TYPE_FONT then
        (let (entry, conf) = new_entry (key_of p No_subkey) (Fontval (fontspec_copy v)) conf in
         conf_insert conf entry)
      else None)"

section \<open>Serialisation\<close>

definition filename_serialise :: "'s writer \<Rightarrow> Filename \<Rightarrow> 's \<Rightarrow> 's option" where
  "filename_serialise wr f bs = put_asciz wr (path f) bs"

definition filename_deserialise :: "BinarySource \<Rightarrow> Filename \<times> BinarySource" where
  "filename_deserialise src = (let (str, src) = get_asciz src in (filename_from_str str, src))"

definition fontspec_serialise :: "'s writer \<Rightarrow> FontSpec \<Rightarrow> 's \<Rightarrow> 's option" where
  "fontspec_serialise wr f bs = put_asciz wr (fontname f) bs"

definition fontspec_deserialise :: "BinarySource \<Rightarrow> FontSpec \<times> BinarySource" where
  "fontspec_deserialise src = (let (str, src) = get_asciz src in (fontspec_new str, src))"

text \<open>The arguments of \<open>put_uint32\<close> are \<open>unsigned long\<close>: an \<open>int\<close> is sign-extended.\<close>

definition serialise_key :: "'s writer \<Rightarrow> key \<Rightarrow> 's \<Rightarrow> 's option" where
  "serialise_key wr k bs =
     Option.bind (put_uint32 wr (of_nat (k_primary k)) bs) (\<lambda>bs.
       case subkeytypes (k_primary k) of
         Some TYPE_INT \<Rightarrow> put_uint32 wr (scast (sec_i (k_secondary k))) bs
       | Some TYPE_STR \<Rightarrow> put_asciz wr (sec_s (k_secondary k)) bs
       | _ \<Rightarrow> Some bs)"

definition serialise_value :: "'s writer \<Rightarrow> conf_entry \<Rightarrow> 's \<Rightarrow> 's option" where
  "serialise_value wr entry bs = (case valuetypes (k_primary (e_key entry)) of
       Some TYPE_BOOL \<Rightarrow> Option.bind (boolval (e_value entry)) (\<lambda>b. put_bool wr b bs)
     | Some TYPE_INT \<Rightarrow> Option.bind (intval (e_value entry)) (\<lambda>i. put_uint32 wr (scast i) bs)
     | Some TYPE_STR \<Rightarrow> Option.bind (stringval (e_value entry)) (\<lambda>s. put_asciz wr s bs)
     | Some TYPE_FILENAME \<Rightarrow> Option.bind (fileval (e_value entry)) (\<lambda>f. filename_serialise wr f bs)
     | Some TYPE_FONT \<Rightarrow> Option.bind (fontval (e_value entry)) (\<lambda>f. fontspec_serialise wr f bs)
     | _ \<Rightarrow> Some bs)"

partial_function (option) serialise_loop :: "'s writer \<Rightarrow> conf \<Rightarrow> int \<Rightarrow> 's \<Rightarrow> 's option" where
  "serialise_loop wr conf i bs = (case index234 (conf_tree conf) i of
       None \<Rightarrow> Some bs
     | Some entry \<Rightarrow>
         Option.bind (serialise_key wr (e_key entry) bs) (\<lambda>bs.
         Option.bind (serialise_value wr entry bs) (\<lambda>bs.
         serialise_loop wr conf (i + 1) bs)))"

declare serialise_loop.simps [code]

definition conf_serialise :: "'s writer \<Rightarrow> conf \<Rightarrow> 's \<Rightarrow> 's option" where
  "conf_serialise wr conf bs =
     Option.bind (serialise_loop wr conf 0 bs) (\<lambda>bs. put_uint32 wr 0xFFFFFFFF bs)"

definition toint :: "32 word \<Rightarrow> int32" where
  "toint u =
     (if u \<le> 0x7FFFFFFF then u
      else if u \<ge> 0x80000000 then 0x80000000 + (u - 0x80000000)
      else 0x80000000)"

definition deserialise_key :: "nat \<Rightarrow> BinarySource \<Rightarrow> subkey \<times> BinarySource" where
  "deserialise_key p src = (case subkeytypes p of
       Some TYPE_INT \<Rightarrow> (let (v, src) = get_uint32 src in (Sec_i (toint (ucast v)), src))
     | Some TYPE_STR \<Rightarrow> (let (s, src) = get_asciz src in (Sec_s s, src))
     | _ \<Rightarrow> (No_subkey, src))"

definition deserialise_value :: "nat \<Rightarrow> BinarySource \<Rightarrow> cvalue \<times> BinarySource" where
  "deserialise_value p src = (case valuetypes p of
       Some TYPE_BOOL \<Rightarrow> (let (b, src) = get_bool src in (Boolval b, src))
     | Some TYPE_INT \<Rightarrow> (let (v, src) = get_uint32 src in (Intval (toint (ucast v)), src))
     | Some TYPE_STR \<Rightarrow> (let (s, src) = get_asciz src in (Stringval s, src))
     | Some TYPE_FILENAME \<Rightarrow> (let (f, src) = filename_deserialise src in (Fileval f, src))
     | Some TYPE_FONT \<Rightarrow> (let (f, src) = fontspec_deserialise src in (Fontval f, src))
     | _ \<Rightarrow> (No_value, src))"

partial_function (option) conf_deserialise ::
  "conf \<Rightarrow> BinarySource \<Rightarrow> (bool \<times> conf \<times> BinarySource) option" where
  "conf_deserialise conf src =
     (let (primary, src) = get_uint32 src in
      if src_err src \<noteq> BSE_NO_ERROR then Some (False, conf, src)
      else if ucast primary = (0xFFFFFFFF :: 32 word) then Some (True, conf, src)
      else if unat (ucast primary :: 32 word) \<ge> N_CONFIG_OPTIONS then Some (False, conf, src)
      else
        (let p = unat (ucast primary :: 32 word);
             (k, src) = deserialise_key p src;
             (v, src) = deserialise_value p src;
             (entry, conf) = new_entry (key_of p k) v conf in
         if src_err src \<noteq> BSE_NO_ERROR then Some (False, conf, src)
         else Option.bind (conf_insert conf entry) (\<lambda>conf. conf_deserialise conf src)))"

declare conf_deserialise.simps [code]

section \<open>The order of the keys\<close>

lemma strcmp_self [simp]: "strcmp s s = 0"
  by (induction s) auto

lemma strcmp_eq: "strcmp s t = 0 \<longleftrightarrow> s = t"
  by (induction s t rule: strcmp.induct) auto

lemma strcmp_sym: "strcmp s t < 0 \<longleftrightarrow> 0 < strcmp t s"
  by (induction s t rule: strcmp.induct) auto

lemma strcmp_trans: "strcmp s t \<le> 0 \<Longrightarrow> strcmp t u \<le> 0 \<Longrightarrow> strcmp s u \<le> 0"
proof (induction s t arbitrary: u rule: strcmp.induct)
  case (1 u)
  then show ?case by simp
next
  case (2 y ys)
  then show ?case by (cases u) auto
next
  case (3 x xs)
  then show ?case by simp
next
  case (4 x xs y ys)
  then show ?case by (cases u) (auto split: if_splits)
qed

lemma strcmp_empty: "0 \<le> strcmp s []"
  by (cases s) auto

definition sub_cmp :: "Type option \<Rightarrow> subkey \<Rightarrow> subkey \<Rightarrow> int" where
  "sub_cmp t a b = (case t of
     Some TYPE_INT \<Rightarrow> if sint (sec_i a) < sint (sec_i b) then -1
       else if sint (sec_i a) > sint (sec_i b) then 1 else 0
   | Some TYPE_STR \<Rightarrow> strcmp (sec_s a) (sec_s b)
   | _ \<Rightarrow> 0)"

lemma conf_cmp_sub:
  "conf_cmp a b =
     (if k_primary a < k_primary b then -1
      else if k_primary a > k_primary b then 1
      else sub_cmp (subkeytypes (k_primary a)) (k_secondary a) (k_secondary b))"
  by (simp add: conf_cmp_def sub_cmp_def)

lemma sub_cmp_self [simp]: "sub_cmp t a a = 0"
  by (simp add: sub_cmp_def split: option.splits Type.splits)

lemma sub_cmp_sym: "sub_cmp t a b < 0 \<longleftrightarrow> 0 < sub_cmp t b a"
  using strcmp_sym by (simp add: sub_cmp_def split: option.splits Type.splits)

lemma sub_cmp_trans: "sub_cmp t a b \<le> 0 \<Longrightarrow> sub_cmp t b c \<le> 0 \<Longrightarrow> sub_cmp t a c \<le> 0"
  using strcmp_trans [of "sec_s a" "sec_s b" "sec_s c"]
  by (auto simp: sub_cmp_def split: option.splits Type.splits if_splits)

lemma total_entry_cmp: "total_cmp entry_cmp"
  unfolding total_cmp_def
proof (intro conjI allI impI)
  fix x y z :: conf_entry
  show "entry_cmp x y < 0 \<longleftrightarrow> 0 < entry_cmp y x"
    using sub_cmp_sym by (auto simp: entry_cmp_def conf_cmp_sub not_less_iff_gr_or_eq)
  assume "entry_cmp x y \<le> 0" "entry_cmp y z \<le> 0"
  then show "entry_cmp x z \<le> 0"
    using sub_cmp_trans by (auto simp: entry_cmp_def conf_cmp_sub split: if_splits)
qed

section \<open>Well-typed stores\<close>

text \<open>
  \<open>key_ok\<close> and \<open>value_ok\<close>: the union member that was written is the one the tables name.
\<close>

definition key_ok :: "key \<Rightarrow> bool" where
  "key_ok k = (case subkeytypes (k_primary k) of
     Some TYPE_NONE \<Rightarrow> k_secondary k = No_subkey
   | Some TYPE_INT \<Rightarrow> (\<exists>i. k_secondary k = Sec_i i)
   | Some TYPE_STR \<Rightarrow> (\<exists>s. k_secondary k = Sec_s s)
   | _ \<Rightarrow> False)"

definition value_ok :: "nat \<Rightarrow> cvalue \<Rightarrow> bool" where
  "value_ok p v = (case valuetypes p of
     Some TYPE_BOOL \<Rightarrow> (\<exists>b. v = Boolval b)
   | Some TYPE_INT \<Rightarrow> (\<exists>i. v = Intval i)
   | Some TYPE_STR \<Rightarrow> (\<exists>s. v = Stringval s)
   | Some TYPE_FILENAME \<Rightarrow> (\<exists>f. v = Fileval f)
   | Some TYPE_FONT \<Rightarrow> (\<exists>f. v = Fontval f)
   | _ \<Rightarrow> False)"

definition entry_ok :: "conf_entry \<Rightarrow> bool" where
  "entry_ok e \<longleftrightarrow> key_ok (e_key e) \<and> value_ok (k_primary (e_key e)) (e_value e)"

lemmas ok_splits = option.splits Type.splits

abbreviation conf_elems :: "conf \<Rightarrow> conf_entry list" where
  "conf_elems c \<equiv> elems234 (conf_tree c)"

definition conf_inv :: "conf \<Rightarrow> bool" where
  "conf_inv c \<longleftrightarrow> tree_inv entry_cmp (conf_tree c) \<and>
     (\<forall>e \<in> set (conf_elems c). entry_ok e \<and> e_addr e < conf_fresh c)"

definition kv :: "conf_entry \<Rightarrow> key \<times> cvalue" where
  "kv e = (e_key e, e_value e)"

text \<open>What a store means: a finite map from keys to values.\<close>

definition conf_map :: "conf \<Rightarrow> key \<rightharpoonup> cvalue" where
  "conf_map c = map_of (map kv (conf_elems c))"

lemma conf_cmp_self [simp]: "conf_cmp k k = 0"
  by (simp add: conf_cmp_sub)

lemma entry_cmp_self [simp]: "entry_cmp e e = 0"
  by (simp add: entry_cmp_def)

lemma conf_cmp_eq:
  assumes "key_ok a" "key_ok b" "conf_cmp a b = 0"
  shows "a = b"
proof -
  have p: "k_primary a = k_primary b" using assms(3) by (auto simp: conf_cmp_sub split: if_splits)
  then have "sub_cmp (subkeytypes (k_primary b)) (k_secondary a) (k_secondary b) = 0"
    using assms(3) by (simp add: conf_cmp_sub)
  then have "k_secondary a = k_secondary b"
    using assms(1,2) p
    by (auto simp: key_ok_def sub_cmp_def strcmp_eq sec_i_def sec_s_def signed_word_eqI
        split: ok_splits if_splits)
  with p show ?thesis by simp
qed

lemma constkey_search:
  "findrelpos234 t (Some k) conf_cmp_constkey r =
   findrelpos234 t (Some \<lparr>e_key = k, e_value = No_value, e_addr = 0\<rparr>) entry_cmp r"
proof -
  have "conf_cmp_constkey k = entry_cmp \<lparr>e_key = k, e_value = No_value, e_addr = 0\<rparr>"
    by (auto simp: conf_cmp_constkey_def entry_cmp_def)
  then show ?thesis by (simp add: findrelpos234_def)
qed

lemma same_key:
  assumes "conf_inv c" "x \<in> set (conf_elems c)" "y \<in> set (conf_elems c)" "e_key x = e_key y"
  shows "x = y"
proof -
  have "tree_inv entry_cmp (conf_tree c)" using assms(1) by (simp add: conf_inv_def)
  from t234.unique [OF this assms(2,3), of x] assms(4) show ?thesis
    by (simp add: entry_cmp_def)
qed

lemma conf_map_iff:
  assumes "conf_inv c"
  shows "conf_map c k = Some v \<longleftrightarrow> (k, v) \<in> kv ` set (conf_elems c)"
proof -
  have "distinct (conf_elems c)"
    using t234.elems_distinct assms by (auto simp: conf_inv_def)
  moreover have "inj_on (fst \<circ> kv) (set (conf_elems c))"
    using same_key [OF assms] by (auto simp: inj_on_def kv_def)
  ultimately have "distinct (map fst (map kv (conf_elems c)))" by (simp add: distinct_map)
  then show ?thesis by (simp add: conf_map_def)
qed

lemma option_ext: "(\<And>v. a = Some v \<longleftrightarrow> b = Some v) \<Longrightarrow> a = b"
  by (metis not_None_eq)

lemma conf_map_eqI:
  assumes "conf_inv c" "\<And>k v. m k = Some v \<longleftrightarrow> (k, v) \<in> kv ` set (conf_elems c)"
  shows "conf_map c = m"
proof
  fix k
  have "conf_map c k = Some v \<longleftrightarrow> m k = Some v" for v
    using assms(2) conf_map_iff [OF assms(1)] by simp
  then show "conf_map c k = m k" by (rule option_ext)
qed

lemma find_entry_ok:
  assumes "conf_inv c" "key_ok k"
  shows "case conf_map c k of
      None \<Rightarrow> find_entry c k = Some None \<and> (\<forall>x \<in> set (conf_elems c). conf_cmp k (e_key x) \<noteq> 0)
    | Some v \<Rightarrow> \<exists>e. find_entry c k = Some (Some e) \<and> e \<in> set (conf_elems c) \<and> e_key e = k \<and> e_value e = v"
proof -
  define q where "q = \<lparr>e_key = k, e_value = No_value, e_addr = 0\<rparr>"
  have inv: "tree_inv entry_cmp (conf_tree c)" using assms(1) by (simp add: conf_inv_def)
  have q: "entry_cmp q x = conf_cmp k (e_key x)" for x by (simp add: entry_cmp_def q_def)
  have eq: "conf_cmp k (e_key x) = 0 \<longleftrightarrow> e_key x = k" if "x \<in> set (conf_elems c)" for x
    using conf_cmp_eq [OF assms(2), of "e_key x"] that assms(1) by (auto simp: conf_inv_def entry_ok_def)
  have f: "find_entry c k = map_option (map_option fst) (findrelpos234 (conf_tree c) (Some q) entry_cmp REL234_EQ)"
    by (simp add: find_entry_def find234_def constkey_search q_def)
  show ?thesis
  proof (cases "conf_map c k")
    case None
    then have no: "\<forall>x \<in> set (conf_elems c). e_key x \<noteq> k"
      using conf_map_iff [OF assms(1), of k] by (force simp: kv_def)
    then have "findrelpos234 (conf_tree c) (Some q) entry_cmp REL234_EQ = Some None"
      using t234.find_EQ [OF inv, of q] q eq by auto
    then show ?thesis using None f no eq by simp
  next
    case (Some v)
    then obtain e where e: "e \<in> set (conf_elems c)" "e_key e = k" "e_value e = v"
      using conf_map_iff [OF assms(1)] by (auto simp: kv_def)
    then obtain x i where x: "findrelpos234 (conf_tree c) (Some q) entry_cmp REL234_EQ = Some (Some (x, i))"
        "x \<in> set (conf_elems c)" "e_key x = k"
      using t234.find_EQ [OF inv, of q] q eq by (metis (mono_tags, lifting))
    then have "x = e" using same_key [OF assms(1) x(2) e(1)] e by simp
    then show ?thesis using Some f x e by simp
  qed
qed


section \<open>Writing\<close>

lemma conf_inv_new [simp]: "conf_inv conf_new" "conf_map conf_new = Map.empty"
  using total_entry_cmp
  by (auto simp: conf_inv_def conf_new_def tree_inv_def wf234_def newtree234_def elems234_def sorted_by_def
      conf_map_def intro!: exI [of _ 0])

lemma conf_inv_tree:
  assumes "conf_inv c" "tree_inv entry_cmp t" "set (elems234 t) \<subseteq> set (conf_elems c)"
  shows "conf_inv (c\<lparr>conf_tree := t\<rparr>)"
  using assms by (auto simp: conf_inv_def)

text \<open>An entry at a new address, with its key and value of the right types.\<close>

lemma conf_insert_ok:
  assumes "conf_inv c" "key_ok k" "value_ok (k_primary k) v"
  shows "\<exists>c'. (let (entry, c) = new_entry k v c in conf_insert c entry) = Some c' \<and> conf_inv c' \<and>
    conf_map c' = (conf_map c)(k \<mapsto> v)"
proof -
  define e where "e = \<lparr>e_key = k, e_value = v, e_addr = conf_fresh c\<rparr>"
  let ?c = "c\<lparr>conf_fresh := conf_fresh c + 1\<rparr>"
  let ?t = "conf_tree c"
  have inv: "tree_inv entry_cmp ?t" using assms(1) by (simp add: conf_inv_def)
  have eok: "entry_ok e" using assms(2,3) by (simp add: entry_ok_def e_def)
  have eq: "entry_cmp e x = 0 \<longleftrightarrow> e_key x = k" if "x \<in> set (elems234 ?t)" for x
    using conf_cmp_eq [OF assms(2), of "e_key x"] that assms(1)
    by (auto simp: conf_inv_def entry_ok_def entry_cmp_def e_def)
  have old: "e_addr x < conf_fresh c" "entry_ok x" if "x \<in> set (elems234 ?t)" for x
    using that assms(1) by (auto simp: conf_inv_def)
  have finish: ?thesis
    if "conf_insert ?c e = Some (?c\<lparr>conf_tree := t\<rparr>)" "tree_inv entry_cmp t"
      "set (elems234 t) = insert e {x \<in> set (elems234 ?t). e_key x \<noteq> k}" for t
  proof -
    have inv': "conf_inv (?c\<lparr>conf_tree := t\<rparr>)"
      using that(2,3) old eok by (auto simp: conf_inv_def e_def less_Suc_eq)
    moreover have "conf_map (?c\<lparr>conf_tree := t\<rparr>) = (conf_map c)(k \<mapsto> v)"
    proof (rule conf_map_eqI [OF inv'])
      fix k' v'
      have "kv e = (k, v)" by (simp add: kv_def e_def)
      then show "((conf_map c)(k \<mapsto> v)) k' = Some v' \<longleftrightarrow> (k', v') \<in> kv ` set (conf_elems (?c\<lparr>conf_tree := t\<rparr>))"
        using that(3) conf_map_iff [OF assms(1), of k' v'] by (auto simp: kv_def)
    qed
    ultimately show ?thesis using that(1) by (simp add: new_entry_def e_def)
  qed
  show ?thesis
  proof (cases "\<exists>x \<in> set (elems234 ?t). e_key x = k")
    case False
    then obtain t where t: "add234 ?t e = Some (t, Some e)" "tree_inv entry_cmp t"
        "set (elems234 t) = insert e (set (elems234 ?t))"
      using t234.add_set [OF inv, of e] eq by metis
    then have "conf_insert ?c e = Some (?c\<lparr>conf_tree := t\<rparr>)" by (simp add: conf_insert_def)
    then show ?thesis using t False by (intro finish) auto
  next
    case True
    then obtain x where x: "x \<in> set (elems234 ?t)" "e_key x = k" by blast
    have add: "add234 ?t e = Some (?t, Some x)" using t234.add_old [OF inv x(1)] eq x by simp
    obtain t1 where t1: "del234 ?t x = Some (t1, Some x)" "tree_inv entry_cmp t1"
        "set (elems234 t1) = set (elems234 ?t) - {x}"
      using t234.del_set [OF inv x(1) entry_cmp_self] by blast
    have only: "y = x" if "y \<in> set (elems234 ?t)" "e_key y = k" for y
      using same_key [OF assms(1) that(1) x(1)] that(2) x(2) by simp
    then have "\<forall>y \<in> set (elems234 t1). entry_cmp e y \<noteq> 0" using t1(3) eq by auto
    then obtain t2 where t2: "add234 t1 e = Some (t2, Some e)" "tree_inv entry_cmp t2"
        "set (elems234 t2) = insert e (set (elems234 t1))"
      using t234.add_set [OF t1(2)] by blast
    have "e_addr x \<noteq> e_addr e" using old(1) [OF x(1)] by (simp add: e_def)
    then have "conf_insert ?c e = Some (?c\<lparr>conf_tree := t2\<rparr>)"
      using add t1(1) t2(1) by (simp add: conf_insert_def)
    moreover have "set (elems234 t2) = insert e {x \<in> set (elems234 ?t). e_key x \<noteq> k}"
      using t1(3) t2(3) only x(2) by auto
    ultimately show ?thesis using t2(2) by (intro finish)
  qed
qed

lemma conf_delete_ok:
  assumes "conf_inv c" "e \<in> set (conf_elems c)"
  shows "\<exists>c'. map_option (\<lambda>(t, _). c\<lparr>conf_tree := t\<rparr>) (del234 (conf_tree c) e) = Some c' \<and> conf_inv c' \<and>
    conf_map c' = (conf_map c)(e_key e := None)"
proof -
  have inv: "tree_inv entry_cmp (conf_tree c)" using assms(1) by (simp add: conf_inv_def)
  obtain t where t: "del234 (conf_tree c) e = Some (t, Some e)" "tree_inv entry_cmp t"
      "set (elems234 t) = set (conf_elems c) - {e}"
    using t234.del_set [OF inv assms(2) entry_cmp_self] by blast
  have inv': "conf_inv (c\<lparr>conf_tree := t\<rparr>)"
    by (rule conf_inv_tree [OF assms(1) t(2)]) (use t(3) in auto)
  moreover have "conf_map (c\<lparr>conf_tree := t\<rparr>) = (conf_map c)(e_key e := None)"
  proof (rule conf_map_eqI [OF inv'])
    fix k v
    have "(k, v) \<in> kv ` set (conf_elems c) - {kv e} \<longleftrightarrow> (k, v) \<in> kv ` (set (conf_elems c) - {e})"
      using same_key [OF assms(1) _ assms(2)] by (force simp: kv_def)
    moreover have "((conf_map c)(e_key e := None)) k = Some v \<longleftrightarrow> (k, v) \<in> kv ` set (conf_elems c) \<and> k \<noteq> e_key e"
      using conf_map_iff [OF assms(1), of k v] by auto
    moreover have "(k, v) \<in> kv ` set (conf_elems c) \<and> k = e_key e \<Longrightarrow> (k, v) = kv e"
      using same_key [OF assms(1) _ assms(2)] by (force simp: kv_def)
    moreover have "kv e = (e_key e, e_value e)" by (simp add: kv_def)
    ultimately show "((conf_map c)(e_key e := None)) k = Some v \<longleftrightarrow> (k, v) \<in> kv ` set (conf_elems (c\<lparr>conf_tree := t\<rparr>))"
      using t(3) by auto
  qed
  ultimately show ?thesis using t(1) by simp
qed

lemma conf_clear_ok:
  "conf_inv c \<Longrightarrow> \<exists>c'. conf_clear c = Some c' \<and> conf_inv c' \<and> conf_map c' = Map.empty"
proof (induction "length (conf_elems c)" arbitrary: c)
  case 0
  have wf: "wf234 (conf_tree c)" using "0.prems" by (simp add: conf_inv_def tree_inv_def)
  then have "delpos234 (conf_tree c) 0 = Some (conf_tree c, None)"
    using delpos234_ok [OF wf, of 0] 0 by simp
  then have "conf_clear c = Some c" by (subst conf_clear.simps) simp
  then show ?case using 0 by (simp add: conf_map_def)
next
  case (Suc n)
  have inv: "tree_inv entry_cmp (conf_tree c)" using Suc.prems by (simp add: conf_inv_def)
  obtain x xs where x: "conf_elems c = x # xs" using Suc.hyps(2) by (cases "conf_elems c") auto
  then have "nth_opt (conf_elems c) 0 = Some x" by (simp add: nth_opt_Cons)
  then obtain t where t: "delpos234 (conf_tree c) 0 = Some (t, Some x)" "tree_inv entry_cmp t"
      "elems234 t = xs"
    using t234.delpos_ok [OF inv, of 0 x] x by (auto simp: del_at_Cons)
  have inv': "conf_inv (c\<lparr>conf_tree := t\<rparr>)"
    by (rule conf_inv_tree [OF Suc.prems t(2)]) (use t(3) x in auto)
  have "conf_clear c = conf_clear (c\<lparr>conf_tree := t\<rparr>)"
    by (subst conf_clear.simps) (simp add: t(1))
  then show ?case using Suc.hyps(1) [of "c\<lparr>conf_tree := t\<rparr>"] inv' Suc.hyps(2) x t(3) by simp
qed

lemma copy_key_ok: "key_ok k \<Longrightarrow> copy_key k = k"
  by (cases k) (auto simp: key_ok_def copy_key_def sec_i_def sec_s_def split: ok_splits)

lemma copies [simp]: "filename_copy f = f" "fontspec_copy g = g"
  by (cases f; cases g; simp add: filename_copy_def filename_from_str_def fontspec_copy_def fontspec_new_def)+

lemma copy_value_ok: "value_ok p v \<Longrightarrow> copy_value v (valuetypes p) = Some v"
  by (auto simp: value_ok_def copy_value_def boolval_def intval_def stringval_def fileval_def fontval_def
      split: ok_splits)

lemma nth_opt_nth: "n < length xs \<Longrightarrow> nth_opt xs (int n) = Some (xs ! n)"
  by (simp add: nth_opt_def)

lemma copy_loop_ok:
  assumes "conf_inv old" "conf_inv new" "n \<le> length (conf_elems old)"
    and "kv ` set (conf_elems new) = kv ` set (take n (conf_elems old))"
  shows "\<exists>new'. copy_loop (int n) new old = Some new' \<and> conf_inv new' \<and> conf_map new' = conf_map old"
  using assms(2-4)
proof (induction "length (conf_elems old) - n" arbitrary: n new)
  case 0
  have "index234 (conf_tree old) (int n) = None"
    using 0 t234.index_ok [of entry_cmp "conf_tree old" "int n"] assms(1)
    by (simp add: conf_inv_def nth_opt_big)
  then have "copy_loop (int n) new old = Some new" by (subst copy_loop.simps) simp
  moreover have "conf_map new = conf_map old"
    by (rule conf_map_eqI [OF 0(2)]) (use 0 conf_map_iff [OF assms(1)] in simp)
  ultimately show ?case using 0 by simp
next
  case (Suc m)
  let ?xs = "conf_elems old"
  have n: "n < length ?xs" using Suc.hyps(2) by simp
  define e where "e = ?xs ! n"
  have e: "e \<in> set ?xs" "entry_ok e" using n assms(1) by (auto simp: e_def conf_inv_def)
  have at: "index234 (conf_tree old) (int n) = Some e"
    using t234.index_ok [of entry_cmp "conf_tree old"] assms(1) n
    by (simp add: conf_inv_def nth_opt_nth e_def)
  define e2 where "e2 = \<lparr>e_key = e_key e, e_value = e_value e, e_addr = conf_fresh new\<rparr>"
  have inv: "tree_inv entry_cmp (conf_tree new)" using Suc.prems(1) by (simp add: conf_inv_def)
  have "e_key x \<noteq> e_key e" if x: "x \<in> set (conf_elems new)" for x
  proof
    assume k: "e_key x = e_key e"
    have "kv x \<in> kv ` set (take n ?xs)" using x Suc.prems(3) by blast
    then obtain y where y: "y \<in> set (take n ?xs)" "kv y = kv x" by auto
    then have "y = e" using same_key [OF assms(1) in_set_takeD e(1)] k by (simp add: kv_def)
    moreover have "distinct ?xs"
      using t234.elems_distinct assms(1) by (auto simp: conf_inv_def)
    then have "distinct (take n ?xs @ e # drop (Suc n) ?xs)"
      using id_take_nth_drop [OF n] by (simp add: e_def)
    ultimately show False using y(1) by simp
  qed
  moreover have "entry_cmp e2 x = 0 \<longleftrightarrow> e_key x = e_key e" if "x \<in> set (conf_elems new)" for x
    using conf_cmp_eq [of "e_key e" "e_key x"] e(2) that Suc.prems(1)
    by (auto simp: conf_inv_def entry_ok_def entry_cmp_def e2_def)
  ultimately obtain t where t: "add234 (conf_tree new) e2 = Some (t, Some e2)" "tree_inv entry_cmp t"
      "set (elems234 t) = insert e2 (set (conf_elems new))"
    using t234.add_set [OF inv, of e2] by blast
  define new' where "new' = new\<lparr>conf_fresh := conf_fresh new + 1, conf_tree := t\<rparr>"
  have "copy_loop (int n) new old = copy_loop (int (Suc n)) new' old"
    using e(2) t(1)
    by (subst copy_loop.simps)
       (simp add: at copy_key_ok copy_value_ok entry_ok_def new_entry_def e2_def new'_def add.commute)
  moreover have "conf_inv new'"
    using t Suc.prems(1) e(2) by (auto simp: conf_inv_def new'_def e2_def entry_ok_def less_Suc_eq)
  moreover have "kv ` set (conf_elems new') = kv ` set (take (Suc n) ?xs)"
    using t(3) Suc.prems(3) n by (simp add: new'_def take_Suc_conv_app_nth e2_def kv_def e_def)
  ultimately show ?case using Suc.hyps(1) [of "Suc n" new'] Suc.hyps(2) n by simp
qed

lemma conf_copy_into_ok:
  assumes "conf_inv old" "conf_inv new"
  shows "\<exists>new'. conf_copy_into new old = Some new' \<and> conf_inv new' \<and> conf_map new' = conf_map old"
proof -
  obtain c where c: "conf_clear new = Some c" "conf_inv c" "conf_map c = Map.empty"
    using conf_clear_ok [OF assms(2)] by blast
  then have "kv ` set (conf_elems c) = kv ` set (take 0 (conf_elems old))"
    by (auto simp: conf_map_def)
  from copy_loop_ok [OF assms(1) c(2) _ this] c(1) show ?thesis by (simp add: conf_copy_into_def)
qed


section \<open>A store is a finite map\<close>

text \<open>
  A run of operations on a store, and the same run on a map. The results are values;
  \<open>No_value\<close> stands for a returned NULL and for \<open>void\<close>.
\<close>

datatype conf_op =
    SetBool nat bool | SetInt nat int32 | SetIntInt nat int32 int32 | SetStr nat "byte list"
  | SetStrStr nat "byte list" "byte list" | DelStrStr nat "byte list"
  | SetFilename nat Filename | SetFontspec nat FontSpec
  | GetBool nat | GetInt nat | GetIntInt nat int32 | GetStr nat | GetStrStrOpt nat "byte list"
  | GetStrStr nat "byte list" | GetFilename nat | GetFontspec nat

fun run_op :: "conf_op \<Rightarrow> conf \<Rightarrow> (cvalue \<times> conf) option" where
  "run_op (SetBool p b) c = map_option (Pair No_value) (conf_set_bool c p b)"
| "run_op (SetInt p i) c = map_option (Pair No_value) (conf_set_int c p i)"
| "run_op (SetIntInt p j i) c = map_option (Pair No_value) (conf_set_int_int c p j i)"
| "run_op (SetStr p s) c = map_option (Pair No_value) (conf_set_str c p s)"
| "run_op (SetStrStr p t s) c = map_option (Pair No_value) (conf_set_str_str c p t s)"
| "run_op (DelStrStr p t) c = map_option (Pair No_value) (conf_del_str_str c p t)"
| "run_op (SetFilename p f) c = map_option (Pair No_value) (conf_set_filename c p f)"
| "run_op (SetFontspec p f) c = map_option (Pair No_value) (conf_set_fontspec c p f)"
| "run_op (GetBool p) c = map_option (\<lambda>b. (Boolval b, c)) (conf_get_bool c p)"
| "run_op (GetInt p) c = map_option (\<lambda>i. (Intval i, c)) (conf_get_int c p)"
| "run_op (GetIntInt p j) c = map_option (\<lambda>i. (Intval i, c)) (conf_get_int_int c p j)"
| "run_op (GetStr p) c = map_option (\<lambda>s. (Stringval s, c)) (conf_get_str c p)"
| "run_op (GetStrStrOpt p t) c =
     map_option (\<lambda>r. (case r of None \<Rightarrow> No_value | Some s \<Rightarrow> Stringval s, c)) (conf_get_str_str_opt c p t)"
| "run_op (GetStrStr p t) c = map_option (\<lambda>s. (Stringval s, c)) (conf_get_str_str c p t)"
| "run_op (GetFilename p) c = map_option (\<lambda>f. (Fileval f, c)) (conf_get_filename c p)"
| "run_op (GetFontspec p) c = map_option (\<lambda>f. (Fontval f, c)) (conf_get_fontspec c p)"

fun run_ops :: "conf_op list \<Rightarrow> conf \<Rightarrow> (cvalue list \<times> conf) option" where
  "run_ops [] c = Some ([], c)"
| "run_ops (x # xs) c =
     Option.bind (run_op x c) (\<lambda>(r, c). map_option (\<lambda>(rs, c). (r # rs, c)) (run_ops xs c))"

type_synonym conf_spec = "key \<rightharpoonup> cvalue"

definition spec_set :: "Type \<Rightarrow> Type \<Rightarrow> nat \<Rightarrow> subkey \<Rightarrow> cvalue \<Rightarrow> conf_spec \<Rightarrow> (cvalue \<times> conf_spec) option" where
  "spec_set st vt p s v m = (if types_are p st vt then Some (No_value, m(key_of p s \<mapsto> v)) else None)"

definition spec_get :: "Type \<Rightarrow> Type \<Rightarrow> nat \<Rightarrow> subkey \<Rightarrow> conf_spec \<Rightarrow> (cvalue \<times> conf_spec) option" where
  "spec_get st vt p s m = (if types_are p st vt then map_option (\<lambda>v. (v, m)) (m (key_of p s)) else None)"

fun spec_op :: "conf_op \<Rightarrow> conf_spec \<Rightarrow> (cvalue \<times> conf_spec) option" where
  "spec_op (SetBool p b) m = spec_set TYPE_NONE TYPE_BOOL p No_subkey (Boolval b) m"
| "spec_op (SetInt p i) m = spec_set TYPE_NONE TYPE_INT p No_subkey (Intval i) m"
| "spec_op (SetIntInt p j i) m = spec_set TYPE_INT TYPE_INT p (Sec_i j) (Intval i) m"
| "spec_op (SetStr p s) m = spec_set TYPE_NONE TYPE_STR p No_subkey (Stringval s) m"
| "spec_op (SetStrStr p t s) m = spec_set TYPE_STR TYPE_STR p (Sec_s t) (Stringval s) m"
| "spec_op (DelStrStr p t) m =
     (if types_are p TYPE_STR TYPE_STR then Some (No_value, m(key_of p (Sec_s t) := None)) else None)"
| "spec_op (SetFilename p f) m = spec_set TYPE_NONE TYPE_FILENAME p No_subkey (Fileval f) m"
| "spec_op (SetFontspec p f) m = spec_set TYPE_NONE TYPE_FONT p No_subkey (Fontval f) m"
| "spec_op (GetBool p) m = spec_get TYPE_NONE TYPE_BOOL p No_subkey m"
| "spec_op (GetInt p) m = spec_get TYPE_NONE TYPE_INT p No_subkey m"
| "spec_op (GetIntInt p j) m = spec_get TYPE_INT TYPE_INT p (Sec_i j) m"
| "spec_op (GetStr p) m = spec_get TYPE_NONE TYPE_STR p No_subkey m"
| "spec_op (GetStrStrOpt p t) m =
     (if types_are p TYPE_STR TYPE_STR
      then Some (case m (key_of p (Sec_s t)) of None \<Rightarrow> No_value | Some v \<Rightarrow> v, m) else None)"
| "spec_op (GetStrStr p t) m = spec_get TYPE_STR TYPE_STR p (Sec_s t) m"
| "spec_op (GetFilename p) m = spec_get TYPE_NONE TYPE_FILENAME p No_subkey m"
| "spec_op (GetFontspec p) m = spec_get TYPE_NONE TYPE_FONT p No_subkey m"

fun spec_ops :: "conf_op list \<Rightarrow> conf_spec \<Rightarrow> (cvalue list \<times> conf_spec) option" where
  "spec_ops [] m = Some ([], m)"
| "spec_ops (x # xs) m =
     Option.bind (spec_op x m) (\<lambda>(r, m). map_option (\<lambda>(rs, m). (r # rs, m)) (spec_ops xs m))"

definition implements :: "('r \<times> conf) option \<Rightarrow> ('r \<times> conf_spec) option \<Rightarrow> bool" where
  "implements run spec = (case spec of
     None \<Rightarrow> run = None
   | Some (r, m) \<Rightarrow> \<exists>c. run = Some (r, c) \<and> conf_inv c \<and> conf_map c = m)"

lemma set_implements:
  assumes "conf_inv c" "f = (if types_are p st vt then
      (let (entry, conf) = new_entry (key_of p s) v c in conf_insert conf entry) else None)"
    and "types_are p st vt \<Longrightarrow> key_ok (key_of p s) \<and> value_ok p v"
  shows "implements (map_option (Pair No_value) f) (spec_set st vt p s v (conf_map c))"
  using conf_insert_ok [OF assms(1), of "key_of p s" v] assms(2,3)
  by (auto simp: implements_def spec_set_def key_of_def)

lemma get_implements:
  assumes "conf_inv c" "f = (if types_are p st vt then
      Option.bind (find_entry c (key_of p s)) (\<lambda>entry. Option.bind entry (\<lambda>entry. member (e_value entry))) else None)"
    and "types_are p st vt \<Longrightarrow> key_ok (key_of p s)"
    and "\<And>v. types_are p st vt \<Longrightarrow> value_ok p v \<Longrightarrow> map_option con (member v) = Some v"
  shows "implements (map_option (\<lambda>x. (con x, c)) f) (spec_get st vt p s (conf_map c))"
proof (cases "types_are p st vt")
  case False
  then show ?thesis by (simp add: implements_def spec_get_def assms(2))
next
  case True
  have find: "case conf_map c (key_of p s) of None \<Rightarrow> find_entry c (key_of p s) = Some None
    | Some v \<Rightarrow> \<exists>e. find_entry c (key_of p s) = Some (Some e) \<and> e \<in> set (conf_elems c) \<and> e_key e = key_of p s \<and> e_value e = v"
    using find_entry_ok [OF assms(1,3)] True by (auto split: option.splits)
  show ?thesis
  proof (cases "conf_map c (key_of p s)")
    case None
    then show ?thesis using find True by (simp add: implements_def spec_get_def assms(2))
  next
    case (Some v)
    then obtain e where e: "find_entry c (key_of p s) = Some (Some e)" "e \<in> set (conf_elems c)"
        "e_key e = key_of p s" "e_value e = v" using find by auto
    then have "value_ok p v" using assms(1) by (auto simp: conf_inv_def entry_ok_def key_of_def)
    then obtain x where "member v = Some x" "con x = v" using assms(4) True by auto
    then show ?thesis using Some e True assms(1) by (simp add: implements_def spec_get_def assms(2))
  qed
qed

lemma typed_keys [intro]:
  "types_are p TYPE_NONE vt \<Longrightarrow> key_ok (key_of p No_subkey)"
  "types_are p TYPE_INT vt \<Longrightarrow> key_ok (key_of p (Sec_i i))"
  "types_are p TYPE_STR vt \<Longrightarrow> key_ok (key_of p (Sec_s s))"
  by (simp_all add: types_are_def key_ok_def key_of_def)

lemma typed_values [intro]:
  "types_are p st TYPE_BOOL \<Longrightarrow> value_ok p (Boolval b)"
  "types_are p st TYPE_INT \<Longrightarrow> value_ok p (Intval i)"
  "types_are p st TYPE_STR \<Longrightarrow> value_ok p (Stringval s)"
  "types_are p st TYPE_FILENAME \<Longrightarrow> value_ok p (Fileval f)"
  "types_are p st TYPE_FONT \<Longrightarrow> value_ok p (Fontval g)"
  by (simp_all add: types_are_def value_ok_def)

lemma member_values:
  "types_are p st TYPE_BOOL \<Longrightarrow> value_ok p v \<Longrightarrow> map_option Boolval (boolval v) = Some v"
  "types_are p st TYPE_INT \<Longrightarrow> value_ok p v \<Longrightarrow> map_option Intval (intval v) = Some v"
  "types_are p st TYPE_STR \<Longrightarrow> value_ok p v \<Longrightarrow> map_option Stringval (stringval v) = Some v"
  "types_are p st TYPE_FILENAME \<Longrightarrow> value_ok p v \<Longrightarrow> map_option Fileval (fileval v) = Some v"
  "types_are p st TYPE_FONT \<Longrightarrow> value_ok p v \<Longrightarrow> map_option Fontval (fontval v) = Some v"
  by (auto simp: types_are_def value_ok_def boolval_def intval_def stringval_def fileval_def fontval_def)

lemma find_str:
  assumes "conf_inv c" "types_are p TYPE_STR TYPE_STR"
  shows "conf_get_str_str_opt c p t = Some (Option.bind (conf_map c (key_of p (Sec_s t))) stringval)"
    and "conf_map c (key_of p (Sec_s t)) = Some v \<Longrightarrow> \<exists>s. v = Stringval s"
proof -
  note k = typed_keys(3) [OF assms(2), of t]
  note find = find_entry_ok [OF assms(1) k]
  show "\<exists>s. v = Stringval s" if m: "conf_map c (key_of p (Sec_s t)) = Some v" for v
  proof -
    obtain e where "e \<in> set (conf_elems c)" "e_key e = key_of p (Sec_s t)" "e_value e = v"
      using find m by auto
    then have "value_ok p v" using assms(1) by (auto simp: conf_inv_def entry_ok_def key_of_def)
    then show ?thesis using assms(2) by (auto simp: value_ok_def types_are_def)
  qed
  then show "conf_get_str_str_opt c p t = Some (Option.bind (conf_map c (key_of p (Sec_s t))) stringval)"
    using find assms(2) by (fastforce simp: conf_get_str_str_opt_def stringval_def split: option.splits)
qed

lemma run_op_implements:
  assumes "conf_inv c"
  shows "implements (run_op x c) (spec_op x (conf_map c))"
proof (cases x)
  case (DelStrStr p t)
  show ?thesis
  proof (cases "types_are p TYPE_STR TYPE_STR")
    case False
    then show ?thesis by (simp add: DelStrStr implements_def conf_del_str_str_def)
  next
    case True
    note find = find_entry_ok [OF assms typed_keys(3) [OF True], of t]
    show ?thesis
    proof (cases "conf_map c (key_of p (Sec_s t))")
      case None
      then have "(conf_map c)(key_of p (Sec_s t) := None) = conf_map c" by (auto simp: fun_eq_iff)
      then show ?thesis
        using find None True assms by (simp add: DelStrStr implements_def conf_del_str_str_def)
    next
      case (Some v)
      then obtain e where e: "find_entry c (key_of p (Sec_s t)) = Some (Some e)" "e \<in> set (conf_elems c)"
          "e_key e = key_of p (Sec_s t)" using find by auto
      show ?thesis
        using conf_delete_ok [OF assms e(2)] e True
        by (auto simp: DelStrStr implements_def conf_del_str_str_def)
    qed
  qed
next
  case (GetStrStrOpt p t)
  show ?thesis
  proof (cases "types_are p TYPE_STR TYPE_STR")
    case True
    then show ?thesis
      using find_str(1) [OF assms True, of t] find_str(2) [OF assms True, of t] assms
      by (cases "conf_map c (key_of p (Sec_s t))") (auto simp: GetStrStrOpt implements_def stringval_def)
  qed (simp add: GetStrStrOpt implements_def conf_get_str_str_opt_def)
next
  case (GetStrStr p t)
  show ?thesis
  proof (cases "types_are p TYPE_STR TYPE_STR")
    case True
    then show ?thesis
      using find_str(1) [OF assms True, of t] find_str(2) [OF assms True, of t] assms
      by (cases "conf_map c (key_of p (Sec_s t))")
         (auto simp: GetStrStr implements_def spec_get_def conf_get_str_str_def stringval_def)
  qed (simp add: GetStrStr implements_def spec_get_def conf_get_str_str_def conf_get_str_str_opt_def)
qed (simp_all, (rule set_implements [OF assms] get_implements [OF assms] |
       (auto simp: conf_set_bool_def conf_set_int_def conf_set_int_int_def conf_set_str_def conf_set_str_str_def
          conf_set_filename_def conf_set_fontspec_def conf_get_bool_def conf_get_int_def conf_get_int_int_def conf_get_str_def
          conf_get_filename_def conf_get_fontspec_def member_values; fail))+)

lemma run_ops_implements:
  "conf_inv c \<Longrightarrow> implements (run_ops xs c) (spec_ops xs (conf_map c))"
proof (induction xs arbitrary: c)
  case (Cons x xs)
  note step = run_op_implements [OF Cons.prems, of x]
  show ?case
  proof (cases "spec_op x (conf_map c)")
    case None
    then show ?thesis using step by (simp add: implements_def)
  next
    case (Some rm)
    then obtain r c' where r: "run_op x c = Some (r, c')" "conf_inv c'" "rm = (r, conf_map c')"
      using step by (auto simp: implements_def split: prod.splits)
    show ?thesis
      using Cons.IH [OF r(2)] r Some
      by (cases "spec_ops xs (conf_map c')") (auto simp: implements_def split: prod.splits)
  qed
qed (simp add: implements_def)


section \<open>Subkeys in order\<close>

text \<open>In a list cut by a query, the two insertion points as searches from the left.\<close>

lemma nth_opt_below:
  "cut p xs \<Longrightarrow> nth_opt xs (below p xs) = List.find (\<lambda>x. p x \<le> 0) xs"
proof (induction xs)
  case (Cons x xs)
  show ?case
  proof (cases "0 < p x")
    case True
    then have "below p (x # xs) = below p xs + 1" "0 \<le> below p xs" by (simp_all add: below_def)
    then show ?thesis using Cons True by (simp add: nth_opt_Cons)
  next
    case False
    then have "filter (\<lambda>y. 0 < p y) xs = []" using Cons.prems by (auto simp: filter_empty_conv)
    then show ?thesis using False by (simp add: below_def nth_opt_Cons)
  qed
qed (simp add: below_def nth_opt_Nil)

lemma nth_opt_not_above:
  "cut p xs \<Longrightarrow> nth_opt xs (not_above p xs) = List.find (\<lambda>x. p x < 0) xs"
proof (induction xs)
  case (Cons x xs)
  show ?case
  proof (cases "0 \<le> p x")
    case True
    then have "not_above p (x # xs) = not_above p xs + 1" "0 \<le> not_above p xs" by (simp_all add: not_above_def)
    then show ?thesis using Cons True by (simp add: nth_opt_Cons)
  next
    case False
    then have "filter (\<lambda>y. 0 \<le> p y) xs = []" using Cons.prems by (fastforce simp: filter_empty_conv)
    then show ?thesis using False by (simp add: not_above_def nth_opt_Cons)
  qed
qed (simp add: not_above_def nth_opt_Nil)

context ordered_store
begin

lemma below_at:
  assumes "inv s" "nth_opt (elems s) i = Some x" "cmp q x = 0"
  shows "below (cmp q) (elems s) = i"
proof -
  have n: "0 \<le> i" "nat i < length (elems s)" "elems s ! nat i = x"
    using assms(2) by (auto simp: nth_opt_def split: if_splits)
  define a b where "a = take (nat i) (elems s)" and "b = drop (Suc (nat i)) (elems s)"
  have split: "elems s = a @ x # b" using id_take_nth_drop [OF n(2)] n(3) by (simp add: a_def b_def)
  have len: "int (length a) = i" using n by (simp add: a_def)
  have srt: "sorted_wrt (\<lambda>x y. cmp x y < 0) (a @ x # b)"
    using elems_sorted [OF assms(1)] split by (simp add: sorted_by_def)
  note t = total_cmpD [OF cmp_total [OF assms(1)]]
  have "0 < cmp q y" if "y \<in> set a" for y
  proof -
    have "cmp y x < 0" using srt that by (simp add: sorted_wrt_append)
    moreover have "cmp x q = 0" using t(2) [of q x] assms(3) by simp
    ultimately have "cmp y q < 0" using t(5) [of y x q] by simp
    then show ?thesis using t(1) by blast
  qed
  moreover have "cmp q y < 0" if "y \<in> set b" for y
  proof -
    have "cmp x y < 0" using srt that by (simp add: sorted_wrt_append)
    then show ?thesis using t(4) [of q x y] assms(3) by simp
  qed
  ultimately have "filter (\<lambda>y. 0 < cmp q y) (elems s) = a"
    using assms(3) split by (auto simp: filter_id_conv filter_empty_conv dest: less_asym)
  then show ?thesis using len by (simp add: below_def)
qed

lemma find_GE:
  assumes "inv s"
  shows "find s (Some q) REL234_GE =
    Some (map_option (\<lambda>x. (x, below (cmp q) (elems s))) (List.find (\<lambda>x. cmp q x \<le> 0) (elems s)))"
proof -
  obtain res where r: "find s (Some q) REL234_GE = Some res" "find_spec REL234_GE (cmp q) (elems s) res"
    using find_ok [OF assms, of REL234_GE "Some q"] by auto
  have c: "cut (cmp q) (elems s)" by (rule sorted_by_cut [OF cmp_total elems_sorted]) (use assms in auto)
  have "res = map_option (\<lambda>x. (x, below (cmp q) (elems s))) (nth_opt (elems s) (below (cmp q) (elems s)))"
  proof (cases "\<exists>x \<in> set (elems s). cmp q x = 0")
    case True
    then obtain x i where x: "res = Some (x, i)" "cmp q x = 0" "nth_opt (elems s) i = Some x"
      using r(2) by (auto simp: find_spec_def equal_permitted_def)
    then show ?thesis using below_at [OF assms x(3,2)] by simp
  next
    case False
    then show ?thesis using r(2) by (simp add: find_spec_def Let_def)
  qed
  then show ?thesis using r(1) nth_opt_below [OF c] by simp
qed

lemma find_GT:
  assumes "inv s"
  shows "\<exists>i. find s (Some q) REL234_GT = Some (map_option (\<lambda>x. (x, i)) (List.find (\<lambda>x. cmp q x < 0) (elems s)))"
proof -
  have c: "cut (cmp q) (elems s)" by (rule sorted_by_cut [OF cmp_total elems_sorted]) (use assms in auto)
  show ?thesis
    using find_ok [OF assms, of REL234_GT "Some q"] nth_opt_not_above [OF c]
    by (auto simp: find_spec_def equal_permitted_def Let_def)
qed

end

text \<open>The entries of one option stand together, between those with smaller and greater numbers.\<close>

abbreviation e_primary :: "conf_entry \<Rightarrow> nat" where
  "e_primary e \<equiv> k_primary (e_key e)"

lemma sorted_split:
  "sorted (map f xs) \<Longrightarrow> xs = filter (\<lambda>x. f x < p) xs @ filter (\<lambda>x. f x = p) xs @ filter (\<lambda>x. p < f x) xs"
  for p :: nat
proof (induction xs)
  case (Cons x xs)
  have ge: "\<forall>y \<in> set xs. f x \<le> f y" using Cons.prems by simp
  have "filter (\<lambda>y. f y < p) xs = []" if "p \<le> f x" using ge that by (auto simp: filter_empty_conv)
  moreover have "filter (\<lambda>y. f y = p) xs = []" if "p < f x" using ge that by (auto simp: filter_empty_conv)
  ultimately show ?case using Cons by (cases "f x" p rule: linorder_cases) auto
qed simp

lemma conf_sorted: "conf_inv c \<Longrightarrow> sorted (map e_primary (conf_elems c))"
proof -
  assume "conf_inv c"
  then have "sorted_wrt (\<lambda>x y. entry_cmp x y < 0) (conf_elems c)"
    using t234.elems_sorted by (auto simp: conf_inv_def sorted_by_def)
  then show ?thesis
    unfolding sorted_map
    by (rule sorted_wrt_mono_rel [rotated]) (auto simp: entry_cmp_def conf_cmp_sub split: if_splits)
qed

text \<open>The subkeys of an option with string subkeys, in the order of the store.\<close>

definition option_entries :: "conf \<Rightarrow> nat \<Rightarrow> conf_entry list" where
  "option_entries c p = filter (\<lambda>e. e_primary e = p) (conf_elems c)"

definition entry_subkey :: "conf_entry \<Rightarrow> byte list" where
  "entry_subkey e = sec_s (k_secondary (e_key e))"

definition subkeys :: "conf \<Rightarrow> nat \<Rightarrow> byte list list" where
  "subkeys c p = map entry_subkey (option_entries c p)"

lemma subkeys_sorted:
  assumes "conf_inv c" "types_are p TYPE_STR vt"
  shows "sorted_wrt (\<lambda>s t. strcmp s t < 0) (subkeys c p)"
proof -
  have "sorted_wrt (\<lambda>x y. entry_cmp x y < 0) (option_entries c p)"
    using t234.elems_sorted assms(1)
    by (auto simp: conf_inv_def sorted_by_def option_entries_def intro!: sorted_wrt_filter)
  moreover have "strcmp (entry_subkey x) (entry_subkey y) < 0"
    if "x \<in> set (option_entries c p)" "y \<in> set (option_entries c p)" "entry_cmp x y < 0" for x y
    using that assms(2)
    by (simp add: option_entries_def entry_cmp_def conf_cmp_sub types_are_def sub_cmp_def entry_subkey_def)
  ultimately show ?thesis
    unfolding subkeys_def sorted_wrt_map by (rule sorted_wrt_mono_rel [rotated]) auto
qed

lemma subkeys_map:
  assumes "conf_inv c" "types_are p TYPE_STR vt"
  shows "s \<in> set (subkeys c p) \<longleftrightarrow> conf_map c (key_of p (Sec_s s)) \<noteq> None"
proof -
  have "conf_map c (key_of p (Sec_s s)) \<noteq> None \<longleftrightarrow> (\<exists>e \<in> set (conf_elems c). e_key e = key_of p (Sec_s s))"
    using conf_map_iff [OF assms(1)] by (force simp: kv_def)
  moreover have "e_key e = key_of p (Sec_s s) \<longleftrightarrow> e_primary e = p \<and> entry_subkey e = s"
    if "e \<in> set (conf_elems c)" for e
  proof -
    have "key_ok (e_key e)" using that assms(1) by (auto simp: conf_inv_def entry_ok_def)
    then show ?thesis
      using assms(2) by (cases "e_key e") (auto simp: key_ok_def key_of_def types_are_def entry_subkey_def sec_s_def)
  qed
  ultimately show ?thesis by (auto simp: subkeys_def option_entries_def)
qed

lemma find_append: "List.find P (xs @ ys) = (case List.find P xs of None \<Rightarrow> List.find P ys | Some x \<Rightarrow> Some x)"
  by (induction xs) auto

text \<open>A search for the first entry at or behind a string subkey, and the test of its option.\<close>

lemma find_option:
  assumes "conf_inv c" "types_are p TYPE_STR vt"
    and "\<And>e. e_primary e < p \<Longrightarrow> \<not> P e" "\<And>e. p < e_primary e \<Longrightarrow> P e"
  shows "case List.find P (option_entries c p) of
     None \<Rightarrow> (case List.find P (conf_elems c) of None \<Rightarrow> True | Some e \<Rightarrow> e_primary e \<noteq> p)
   | Some e \<Rightarrow> List.find P (conf_elems c) = Some e \<and> e_primary e = p"
proof -
  let ?xs = "conf_elems c"
  define a b d where "a = filter (\<lambda>x. e_primary x < p) ?xs" and "b = filter (\<lambda>x. e_primary x = p) ?xs"
    and "d = filter (\<lambda>x. p < e_primary x) ?xs"
  have split: "?xs = a @ b @ d"
    using sorted_split [OF conf_sorted [OF assms(1)], of p] unfolding a_def b_def d_def .
  have a: "List.find P a = None" using assms(3) by (auto simp: find_None_iff a_def)
  have d: "case List.find P d of None \<Rightarrow> True | Some e \<Rightarrow> e_primary e \<noteq> p"
    by (auto simp: find_Some_iff d_def in_set_conv_nth dest: nth_mem split: option.split)
  have b: "e_primary e = p" if "List.find P b = Some e" for e
    using that by (metis (mono_tags, lifting) b_def find_Some_iff mem_Collect_eq nth_mem set_filter)
  have o': "option_entries c p = b" by (simp add: option_entries_def b_def)
  show ?thesis
    using a b d unfolding o' split find_append by (auto split: option.splits)
qed


lemma sorted_option_entries:
  assumes "conf_inv c" "types_are p TYPE_STR vt" "e \<in> set (option_entries c p)"
  shows "conf_cmp (key_of p (Sec_s s)) (e_key e) = strcmp s (entry_subkey e)" "e_primary e = p"
  using assms by (auto simp: option_entries_def conf_cmp_sub key_of_def types_are_def sub_cmp_def entry_subkey_def
      sec_s_def)

lemma constkey_query:
  "findrelpos234 (conf_tree c) (Some k) conf_cmp_constkey r =
   findrelpos234 (conf_tree c) (Some \<lparr>e_key = k, e_value = v, e_addr = a\<rparr>) entry_cmp r"
proof -
  have "conf_cmp_constkey k = entry_cmp \<lparr>e_key = k, e_value = v, e_addr = a\<rparr>"
    by (auto simp: conf_cmp_constkey_def entry_cmp_def)
  then show ?thesis by (simp add: findrelpos234_def)
qed

lemma entry_stringval:
  assumes "conf_inv c" "types_are p TYPE_STR TYPE_STR" "e \<in> set (option_entries c p)"
  shows "\<exists>v. e_value e = Stringval v"
proof -
  have "value_ok (e_primary e) (e_value e)" "e_primary e = p"
    using assms(1,3) by (auto simp: option_entries_def conf_inv_def entry_ok_def)
  then show ?thesis using assms(2) by (auto simp: value_ok_def types_are_def)
qed

lemma find_cong_set: "(\<And>x. x \<in> set xs \<Longrightarrow> P x = Q x) \<Longrightarrow> List.find P xs = List.find Q xs"
  by (induction xs) auto

lemma find_mem: "List.find P xs = Some x \<Longrightarrow> x \<in> set xs"
  by (induction xs) (auto split: if_splits)

lemma find_map_option: "List.find P (map f xs) = map_option f (List.find (\<lambda>x. P (f x)) xs)"
  by (induction xs) auto

text \<open>\<open>conf_get_str_strs\<close> finds the first subkey, or the one after the subkey it is given.\<close>

lemma get_str_strs_ok:
  assumes "conf_inv c" "types_are p TYPE_STR TYPE_STR"
  shows "map_option (map_option fst) (conf_get_str_strs c p sub) =
    Some (List.find (\<lambda>t. case sub of None \<Rightarrow> True | Some s \<Rightarrow> strcmp s t < 0) (subkeys c p))"
proof -
  have inv: "tree_inv entry_cmp (conf_tree c)" using assms(1) by (simp add: conf_inv_def)
  define q where "q s = \<lparr>e_key = key_of p (Sec_s s), e_value = No_value, e_addr = 0\<rparr>" for s
  define P where "P e = (case sub of None \<Rightarrow> entry_cmp (q []) e \<le> 0 | Some s \<Rightarrow> entry_cmp (q s) e < 0)" for e
  have found: "(case sub of
          Some s \<Rightarrow> findrel234 (conf_tree c) (Some (key_of p (Sec_s s))) conf_cmp_constkey REL234_GT
        | None \<Rightarrow> findrel234 (conf_tree c) (Some (key_of p (Sec_s []))) conf_cmp_constkey REL234_GE)
      = Some (List.find P (conf_elems c))"
  proof (cases sub)
    case None
    then have "P = (\<lambda>x. entry_cmp (q []) x \<le> 0)" by (simp add: P_def fun_eq_iff)
    then show ?thesis
      using t234.find_GE [OF inv, of "q []"] None
      by (simp add: findrel234_def constkey_query [of _ _ _ No_value 0] q_def P_def option.map_comp comp_def
          option.map_ident)
  next
    case (Some s)
    then have "P = (\<lambda>x. entry_cmp (q s) x < 0)" by (simp add: P_def fun_eq_iff)
    then show ?thesis
      using t234.find_GT [OF inv, of "q s"] Some
      by (auto simp: findrel234_def constkey_query [of _ _ _ No_value 0] q_def P_def option.map_comp comp_def
          option.map_ident)
  qed
  have opt: "case List.find P (option_entries c p) of
     None \<Rightarrow> (case List.find P (conf_elems c) of None \<Rightarrow> True | Some e \<Rightarrow> e_primary e \<noteq> p)
   | Some e \<Rightarrow> List.find P (conf_elems c) = Some e \<and> e_primary e = p"
    by (rule find_option [OF assms])
       (auto simp: P_def entry_cmp_def conf_cmp_sub q_def key_of_def split: option.splits)
  have "List.find P (option_entries c p) =
      List.find (\<lambda>e. case sub of None \<Rightarrow> True | Some s \<Rightarrow> strcmp s (entry_subkey e) < 0) (option_entries c p)"
  proof (rule find_cong_set)
    fix e assume e: "e \<in> set (option_entries c p)"
    have "0 \<le> strcmp (entry_subkey e) []" by (rule strcmp_empty)
    then have "strcmp [] (entry_subkey e) \<le> 0" using strcmp_sym by (meson not_less)
    then show "P e = (case sub of None \<Rightarrow> True | Some s \<Rightarrow> strcmp s (entry_subkey e) < 0)"
      using sorted_option_entries [OF assms(1,2) e]
      by (simp add: P_def entry_cmp_def q_def split: option.split)
  qed
  then have rhs: "List.find (\<lambda>t. case sub of None \<Rightarrow> True | Some s \<Rightarrow> strcmp s t < 0) (subkeys c p)
      = map_option entry_subkey (List.find P (option_entries c p))"
    by (simp add: subkeys_def find_map_option)
  have lhs: "conf_get_str_strs c p sub = (case List.find P (conf_elems c) of
       None \<Rightarrow> Some None
     | Some e \<Rightarrow> if e_primary e \<noteq> p then Some None
         else map_option (\<lambda>v. Some (entry_subkey e, v)) (stringval (e_value e)))"
    unfolding entry_subkey_def using assms(2) by (simp add: conf_get_str_strs_def found)
  show ?thesis
  proof (cases "List.find P (option_entries c p)")
    case None
    then show ?thesis using opt unfolding lhs rhs by (auto split: option.splits)
  next
    case (Some e)
    then obtain v where "e_value e = Stringval v" using entry_stringval [OF assms find_mem] by blast
    then show ?thesis using Some opt unfolding lhs rhs by (simp add: stringval_def)
  qed
qed

text \<open>\<open>conf_get_str_nthstrkey\<close> is the subkey at a position.\<close>

lemma nth_opt_shift:
  assumes "0 \<le> n"
  shows "nth_opt (a @ b @ d) (int (length a) + n) = nth_opt (b @ d) n"
  using assms by (simp add: nth_opt_append)

lemma get_nthstrkey_ok:
  assumes "conf_inv c" "types_are p TYPE_STR TYPE_STR" "0 \<le> n"
  shows "conf_get_str_nthstrkey c p n = Some (nth_opt (subkeys c p) n)"
proof -
  let ?xs = "conf_elems c"
  have inv: "tree_inv entry_cmp (conf_tree c)" using assms(1) by (simp add: conf_inv_def)
  define q where "q = \<lparr>e_key = key_of p (Sec_s []), e_value = No_value, e_addr = 0\<rparr>"
  define a b d where "a = filter (\<lambda>x. e_primary x < p) ?xs" and "b = filter (\<lambda>x. e_primary x = p) ?xs"
    and "d = filter (\<lambda>x. p < e_primary x) ?xs"
  have split: "?xs = a @ b @ d"
    using sorted_split [OF conf_sorted [OF assms(1)], of p] unfolding a_def b_def d_def .
  have le: "strcmp [] t \<le> 0" for t using strcmp_empty strcmp_sym by (meson not_less)
  have pos: "0 < entry_cmp q x \<longleftrightarrow> e_primary x < p" if "x \<in> set ?xs" for x
    using that le assms(2)
    by (auto simp: q_def entry_cmp_def conf_cmp_sub key_of_def sub_cmp_def types_are_def sec_s_def not_less)
  have "filter (\<lambda>x. 0 < entry_cmp q x) ?xs = a" unfolding a_def by (rule filter_cong) (use pos in auto)
  then have below: "below (entry_cmp q) ?xs = int (length a)" by (simp add: below_def)
  have cut: "cut (entry_cmp q) ?xs" by (rule tree_inv_cut [OF inv])
  have found: "findrelpos234 (conf_tree c) (Some (key_of p (Sec_s []))) conf_cmp_constkey REL234_GE =
      Some (map_option (\<lambda>x. (x, int (length a))) (nth_opt (b @ d) 0))"
    using t234.find_GE [OF inv, of q] nth_opt_below [OF cut] nth_opt_shift [of 0 a b d] below split
    by (simp add: constkey_query [of _ _ _ No_value 0] q_def)
  have idx: "index234 (conf_tree c) (int (length a) + n) = nth_opt (b @ d) n"
    using t234.index_ok [OF inv] nth_opt_shift [OF assms(3), of a b d] split by simp
  have b: "e_primary e = p" if "nth_opt b i = Some e" for e i
    using in_set_nth_opt [of e b] that by (auto simp: b_def)
  have d: "e_primary e \<noteq> p" if "nth_opt d i = Some e" for e i
    using in_set_nth_opt [of e d] that by (auto simp: d_def)
  have sub: "nth_opt (subkeys c p) n = map_option entry_subkey (nth_opt b n)"
    unfolding subkeys_def option_entries_def b_def [symmetric] by (auto simp: nth_opt_def nat_less_iff)
  show ?thesis
  proof (cases "n < int (length b)")
    case True
    then have "nth_opt (b @ d) 0 = nth_opt b 0" "nth_opt (b @ d) n = nth_opt b n"
      using assms(3) by (auto simp: nth_opt_append)
    moreover obtain x y where "nth_opt b 0 = Some x" "nth_opt b n = Some y"
      using True assms(3) by (cases b) (auto simp: nth_opt_def)
    ultimately show ?thesis
      using found idx sub b assms(2) by (simp add: conf_get_str_nthstrkey_def entry_subkey_def)
  next
    case False
    then have "nth_opt b n = None" by (simp add: nth_opt_big)
    moreover have "e_primary e \<noteq> p" if "nth_opt (b @ d) n = Some e" for e
      using that d False by (auto simp: nth_opt_append)
    ultimately show ?thesis
      using found idx sub assms(2) by (auto simp: conf_get_str_nthstrkey_def split: option.split)
  qed
qed


section \<open>Saving and loading\<close>

text \<open>The fields an entry is written as, and the strings that survive: those without a NUL.\<close>

definition key_fields :: "key \<Rightarrow> field list" where
  "key_fields k = FUint32 (of_nat (k_primary k)) # (case subkeytypes (k_primary k) of
     Some TYPE_INT \<Rightarrow> [FUint32 (ucast (sec_i (k_secondary k)))]
   | Some TYPE_STR \<Rightarrow> [FAsciz (sec_s (k_secondary k))]
   | _ \<Rightarrow> [])"

fun value_field :: "cvalue \<Rightarrow> field" where
  "value_field (Boolval b) = FBool b"
| "value_field (Intval i) = FUint32 (ucast i)"
| "value_field (Stringval s) = FAsciz s"
| "value_field (Fileval f) = FAsciz (path f)"
| "value_field (Fontval f) = FAsciz (fontname f)"
| "value_field No_value = FData []"

definition entry_fields :: "key \<times> cvalue \<Rightarrow> field list" where
  "entry_fields e = key_fields (fst e) @ [value_field (snd e)]"

definition nul_free :: "cvalue \<Rightarrow> bool" where
  "nul_free v = (case v of Stringval s \<Rightarrow> 0 \<notin> set s | Fileval f \<Rightarrow> 0 \<notin> set (path f)
     | Fontval f \<Rightarrow> 0 \<notin> set (fontname f) | _ \<Rightarrow> True)"

definition conf_nul_free :: "conf \<Rightarrow> bool" where
  "conf_nul_free c \<longleftrightarrow> (\<forall>e \<in> set (conf_elems c). 0 \<notin> set (sec_s (k_secondary (e_key e))) \<and> nul_free (e_value e))"

definition conf_fields :: "conf \<Rightarrow> field list" where
  "conf_fields c = concat (map (entry_fields \<circ> kv) (conf_elems c)) @ [FUint32 0xFFFFFFFF]"

lemma N_CONFIG_OPTIONS_eq: "N_CONFIG_OPTIONS = 197"
  by (simp add: N_CONFIG_OPTIONS_def CONFIG_OPTIONS_def session_options_def terminal_options_def other_options_def)

lemma key_ok_bound: "key_ok k \<Longrightarrow> k_primary k < 197"
  by (auto simp: key_ok_def subkeytypes_def N_CONFIG_OPTIONS_eq split: ok_splits if_splits)

lemma put_uint32_scast: "put_uint32 wr (scast (i :: int32)) = put_uint32 wr (ucast i)"
proof -
  have "(ucast (scast i :: ulong) :: 32 word) = ucast (ucast i :: ulong)"
    by (rule bit_word_eqI) (simp add: bit_simps)
  then show ?thesis by (simp add: put_uint32_def fun_eq_iff)
qed

lemma put_fields_Some: "put_fields wr [] = Some"
  by (simp add: fun_eq_iff)

lemma put_fields_single: "put_fields wr [f] = put_field wr f"
  by (simp add: fun_eq_iff put_fields_Some)

lemma put_fields_append: "put_fields wr (fs @ gs) bs = Option.bind (put_fields wr fs bs) (put_fields wr gs)"
proof (induction fs arbitrary: bs)
  case (Cons f fs)
  have "put_fields wr (fs @ gs) = (\<lambda>s. Option.bind (put_fields wr fs s) (put_fields wr gs))"
    using Cons by (simp add: fun_eq_iff)
  then show ?case by (simp add: bind_assoc)
qed simp

lemma serialise_key_fields: "key_ok k \<Longrightarrow> serialise_key wr k bs = put_fields wr (key_fields k) bs"
  by (auto simp: key_ok_def serialise_key_def key_fields_def sec_i_def sec_s_def put_uint32_scast
      put_fields_Some put_fields_single fun_eq_iff split: ok_splits intro!: Option.bind_cong)

lemma serialise_value_fields:
  "value_ok (e_primary e) (e_value e) \<Longrightarrow> serialise_value wr e = put_field wr (value_field (e_value e))"
  by (auto simp: value_ok_def serialise_value_def put_uint32_scast boolval_def intval_def stringval_def fileval_def
      fontval_def filename_serialise_def fontspec_serialise_def fun_eq_iff split: ok_splits)

lemma serialise_fields:
  assumes "entry_ok e"
  shows "Option.bind (serialise_key wr (e_key e) bs) (serialise_value wr e) = put_fields wr (entry_fields (kv e)) bs"
  using assms
  by (simp add: serialise_key_fields serialise_value_fields entry_ok_def entry_fields_def kv_def put_fields_append put_fields_single)

lemma serialise_loop_fields:
  assumes "conf_inv c" "n \<le> length (conf_elems c)"
  shows "serialise_loop wr c (int n) bs =
    put_fields wr (concat (map (entry_fields \<circ> kv) (drop n (conf_elems c)))) bs"
  using assms(2)
proof (induction "length (conf_elems c) - n" arbitrary: n bs)
  case 0
  have "index234 (conf_tree c) (int n) = None"
    using 0 t234.index_ok [of entry_cmp "conf_tree c" "int n"] assms(1)
    by (simp add: conf_inv_def nth_opt_big)
  then show ?case using 0 by (subst serialise_loop.simps) simp
next
  case (Suc m)
  have n: "n < length (conf_elems c)" using Suc.hyps(2) by simp
  define e where "e = conf_elems c ! n"
  have e: "entry_ok e" using n assms(1) by (auto simp: e_def conf_inv_def)
  have at: "index234 (conf_tree c) (int n) = Some e"
    using t234.index_ok [of entry_cmp "conf_tree c"] assms(1) n by (simp add: conf_inv_def nth_opt_nth e_def)
  have ih: "serialise_loop wr c (int n + 1) bs =
      put_fields wr (concat (map (entry_fields \<circ> kv) (drop (Suc n) (conf_elems c)))) bs" for bs
    using Suc.hyps(1) [of "Suc n" bs] Suc.hyps(2) n by (simp add: add.commute)
  have rest: "serialise_loop wr c (int n + 1) = put_fields wr (concat (map (entry_fields \<circ> kv) (drop (Suc n) (conf_elems c))))"
    using ih by (simp add: fun_eq_iff)
  have "serialise_loop wr c (int n) bs = Option.bind (serialise_key wr (e_key e) bs) (\<lambda>bs.
      Option.bind (serialise_value wr e bs) (serialise_loop wr c (int n + 1)))"
    by (subst serialise_loop.simps) (simp add: at)
  also have "\<dots> = Option.bind (put_fields wr (entry_fields (kv e)) bs) (serialise_loop wr c (int n + 1))"
    by (simp flip: serialise_fields [OF e] bind_assoc)
  also have "\<dots> = put_fields wr (entry_fields (kv e) @ concat (map (entry_fields \<circ> kv) (drop (Suc n) (conf_elems c)))) bs"
    by (simp only: rest put_fields_append)
  also have "entry_fields (kv e) @ concat (map (entry_fields \<circ> kv) (drop (Suc n) (conf_elems c))) =
      concat (map (entry_fields \<circ> kv) (drop n (conf_elems c)))"
    using n by (simp add: e_def flip: Cons_nth_drop_Suc)
  finally show ?case .
qed

lemma conf_serialise_fields:
  "conf_inv c \<Longrightarrow> conf_serialise wr c bs = put_fields wr (conf_fields c) bs"
  using serialise_loop_fields [of c 0 wr bs] 
  by (simp add: conf_serialise_def conf_fields_def put_fields_append put_fields_single cong: Option.bind_cong)

lemma int32_fits: "unat (ucast (i :: int32) :: ulong) < 2 ^ 32" "ucast (ucast i :: ulong) = (i :: int32)"
proof -
  have "unat i < 2 ^ 32" using unsigned_less [of i] by simp
  then show "unat (ucast i :: ulong) < 2 ^ 32"
    using le_less_trans [OF take_bit_nat_less_eq_self] by (simp add: unsigned_ucast_eq)
  show "ucast (ucast i :: ulong) = i" by (rule bit_word_eqI) (simp add: bit_simps)
qed

lemma entry_fields_fit:
  assumes "entry_ok e" "0 \<notin> set (sec_s (k_secondary (e_key e)))" "nul_free (e_value e)"
  shows "\<forall>f \<in> set (entry_fields (kv e)). fits_type f"
proof -
  note u = int32_fits(1)
  have "e_primary e < 197" using assms(1) key_ok_bound by (simp add: entry_ok_def)
  then have "unat (of_nat (e_primary e) :: ulong) < 2 ^ 32" by (simp add: unat_of_nat)
  then show ?thesis
    using assms u
    by (auto simp: entry_fields_def key_fields_def kv_def entry_ok_def value_ok_def nul_free_def
        split: ok_splits) (metis Type.exhaust)+
qed

lemma conf_fields_fit:
  assumes "conf_inv c" "conf_nul_free c"
  shows "\<forall>f \<in> set (conf_fields c). fits_type f"
  using assms entry_fields_fit by (fastforce simp: conf_fields_def conf_inv_def conf_nul_free_def)


text \<open>Reading back: a source in front of an encoded field.\<close>

definition src_at :: "BinarySource \<Rightarrow> byte list \<Rightarrow> bool" where
  "src_at src bs \<longleftrightarrow> src_ok src \<and> src_err src = BSE_NO_ERROR \<and> here src = bs"

lemma get_encoded:
  assumes "fits_type f" "src_at src (encoding f @ rest)"
  shows "\<exists>src'. get_field (shape_of f) src = (f, src') \<and> src_at src' rest"
proof -
  have "parse (shape_of f) (here src) = Some (f, rest)"
    using assms parse_encoding [OF assms(1), of rest] by (simp add: src_at_def)
  then obtain src' where "get_field (shape_of f) src = (f, src')" "src_err src' = BSE_NO_ERROR"
      "here src' = rest" "follows src src'"
    using get_field_Some [of src "shape_of f" f rest] assms(2) by (auto simp: src_at_def)
  then show ?thesis by (auto simp: src_at_def follows_def)
qed

lemma get_uint32_encoded:
  assumes "unat v < 2 ^ 32" "src_at src (encoding (FUint32 v) @ rest)"
  shows "\<exists>src'. get_uint32 src = (v, src') \<and> src_at src' rest"
  using get_encoded [OF _ assms(2)] assms(1) by (auto simp: map_prod_def split: prod.splits)

lemma get_asciz_encoded:
  assumes "0 \<notin> set s" "src_at src (encoding (FAsciz s) @ rest)"
  shows "\<exists>src'. get_asciz src = (s, src') \<and> src_at src' rest"
  using get_encoded [OF _ assms(2)] assms(1) by (auto simp: map_prod_def split: prod.splits)

lemma get_bool_encoded:
  assumes "src_at src (encoding (FBool b) @ rest)"
  shows "\<exists>src'. get_bool src = (b, src') \<and> src_at src' rest"
  using get_encoded [OF _ assms] by (auto simp: map_prod_def split: prod.splits)

lemma toint_id [simp]: "toint u = u"
  by (auto simp: toint_def word_le_nat_alt intro!: word_unat_eq_iff [THEN iffD2])

lemma deserialise_key_fields:
  assumes "key_ok k" "0 \<notin> set (sec_s (k_secondary k))" "src_at src (encodings (tl (key_fields k)) @ rest)"
  shows "\<exists>src'. deserialise_key (k_primary k) src = (k_secondary k, src') \<and> src_at src' rest"
proof -
  consider (none) "subkeytypes (k_primary k) = Some TYPE_NONE" "k_secondary k = No_subkey"
    | (int) i where "subkeytypes (k_primary k) = Some TYPE_INT" "k_secondary k = Sec_i i"
    | (str) s where "subkeytypes (k_primary k) = Some TYPE_STR" "k_secondary k = Sec_s s"
    using assms(1) by (auto simp: key_ok_def split: ok_splits)
  then show ?thesis
  proof cases
    case none
    then show ?thesis using assms(3) by (simp add: deserialise_key_def key_fields_def encodings_def)
  next
    case int
    then have "src_at src (encoding (FUint32 (ucast i)) @ rest)"
      using assms(3) by (simp add: key_fields_def encodings_def sec_i_def)
    from get_uint32_encoded [OF int32_fits(1) this] int show ?thesis
      by (auto simp: deserialise_key_def int32_fits(2))
  next
    case str
    then have "src_at src (encoding (FAsciz s) @ rest)"
      using assms(3) by (simp add: key_fields_def encodings_def sec_s_def)
    from get_asciz_encoded [OF _ this] str assms(2) show ?thesis
      by (auto simp: deserialise_key_def sec_s_def)
  qed
qed

lemma deserialise_value_fields:
  assumes "value_ok p v" "nul_free v" "src_at src (encoding (value_field v) @ rest)"
  shows "\<exists>src'. deserialise_value p src = (v, src') \<and> src_at src' rest"
proof -
  consider b where "valuetypes p = Some TYPE_BOOL" "v = Boolval b"
    | i where "valuetypes p = Some TYPE_INT" "v = Intval i"
    | s where "valuetypes p = Some TYPE_STR" "v = Stringval s"
    | f where "valuetypes p = Some TYPE_FILENAME" "v = Fileval f"
    | g where "valuetypes p = Some TYPE_FONT" "v = Fontval g"
    using assms(1) by (auto simp: value_ok_def split: ok_splits)
  then show ?thesis
  proof cases
    case 1
    then show ?thesis
      using get_bool_encoded [of src b rest] assms(3) by (auto simp: deserialise_value_def)
  next
    case (2 i)
    then show ?thesis
      using get_uint32_encoded [OF int32_fits(1), of src i rest] assms(3)
      by (auto simp: deserialise_value_def int32_fits(2))
  next
    case (3 s)
    then show ?thesis
      using get_asciz_encoded [of s src rest] assms(2,3) by (auto simp: deserialise_value_def nul_free_def)
  next
    case (4 f)
    then show ?thesis
      using get_asciz_encoded [of "path f" src rest] assms(2,3)
      by (auto simp: deserialise_value_def nul_free_def filename_deserialise_def filename_from_str_def)
  next
    case (5 g)
    then show ?thesis
      using get_asciz_encoded [of "fontname g" src rest] assms(2,3)
      by (auto simp: deserialise_value_def nul_free_def fontspec_deserialise_def fontspec_new_def)
  qed
qed

text \<open>One turn of the loop, on an encoded entry.\<close>

lemma deserialise_entry:
  assumes "conf_inv c" "entry_ok e" "0 \<notin> set (sec_s (k_secondary (e_key e)))" "nul_free (e_value e)"
    and "src_at src (encodings (entry_fields (kv e)) @ rest)"
  shows "\<exists>c' src'. conf_deserialise c src = conf_deserialise c' src' \<and> src_at src' rest \<and> conf_inv c' \<and>
    conf_map c' = (conf_map c)(e_key e \<mapsto> e_value e)"
proof -
  define p where "p = e_primary e"
  have k: "key_ok (e_key e)" and v: "value_ok p (e_value e)" using assms(2) by (simp_all add: entry_ok_def p_def)
  have p: "p < 197" using key_ok_bound [OF k] by (simp add: p_def)
  have u: "unat (of_nat p :: ulong) = p" using p by (simp add: unat_of_nat)
  have u': "unat (ucast (of_nat p :: ulong) :: 32 word) = p"
    using p by (simp add: unsigned_ucast_eq unat_of_nat take_bit_nat_eq_self)
  have "src_at src (encoding (FUint32 (of_nat p)) @ encodings (tl (key_fields (e_key e))) @
      encoding (value_field (e_value e)) @ rest)"
    using assms(5) by (simp add: entry_fields_def kv_def encodings_def key_fields_def p_def)
  then obtain s1 where s1: "get_uint32 src = (of_nat p, s1)"
      "src_at s1 (encodings (tl (key_fields (e_key e))) @ encoding (value_field (e_value e)) @ rest)"
    using get_uint32_encoded [of "of_nat p" src] u p by auto
  obtain s2 where s2: "deserialise_key p s1 = (k_secondary (e_key e), s2)"
      "src_at s2 (encoding (value_field (e_value e)) @ rest)"
    using deserialise_key_fields [OF k assms(3) s1(2)] by (auto simp: p_def)
  obtain s3 where s3: "deserialise_value p s2 = (e_value e, s3)" "src_at s3 rest"
    using deserialise_value_fields [OF v assms(4) s2(2)] by auto
  have key: "key_of p (k_secondary (e_key e)) = e_key e" by (simp add: key_of_def p_def)
  obtain c' where c': "(let (entry, c) = new_entry (e_key e) (e_value e) c in conf_insert c entry) = Some c'"
      "conf_inv c'" "conf_map c' = (conf_map c)(e_key e \<mapsto> e_value e)"
    using conf_insert_ok [OF assms(1) k] v by (auto simp: p_def)
  have "(ucast (of_nat p :: ulong) :: 32 word) \<noteq> 0xFFFFFFFF"
  proof
    assume "(ucast (of_nat p :: ulong) :: 32 word) = 0xFFFFFFFF"
    then have "p = unat (0xFFFFFFFF :: 32 word)" using u' by simp
    then show False using p by simp
  qed
  then have "conf_deserialise c src = conf_deserialise c' s3"
    using s1 s2 s3 c'(1) p u' key
    by (subst conf_deserialise.simps)
       (auto simp: src_at_def N_CONFIG_OPTIONS_eq split: prod.splits)
  then show ?thesis using s3(2) c'(2,3) by blast
qed


lemma deserialise_entries:
  assumes "conf_inv c" "distinct (map e_key es)"
    and "\<forall>e \<in> set es. entry_ok e \<and> 0 \<notin> set (sec_s (k_secondary (e_key e))) \<and> nul_free (e_value e)"
    and "src_at src (encodings (concat (map (entry_fields \<circ> kv) es)) @ rest)"
  shows "\<exists>c' src'. conf_deserialise c src = conf_deserialise c' src' \<and> src_at src' rest \<and> conf_inv c' \<and>
    conf_map c' = conf_map c ++ map_of (map kv es)"
  using assms
proof (induction es arbitrary: c src)
  case Nil
  then show ?case by (auto simp: encodings_def)
next
  case (Cons e es)
  have e: "src_at src (encodings (entry_fields (kv e)) @ encodings (concat (map (entry_fields \<circ> kv) es)) @ rest)"
    using Cons.prems(4) by (simp add: encodings_def comp_def)
  obtain c1 s1 where 1: "conf_deserialise c src = conf_deserialise c1 s1"
      "src_at s1 (encodings (concat (map (entry_fields \<circ> kv) es)) @ rest)" "conf_inv c1"
      "conf_map c1 = (conf_map c)(e_key e \<mapsto> e_value e)"
    using deserialise_entry [OF Cons.prems(1) _ _ _ e] Cons.prems(3) by auto
  have d: "distinct (map e_key es)" "e_key e \<notin> dom (map_of (map kv es))"
    using Cons.prems(2) by (auto simp: dom_map_of_conv_image_fst kv_def image_image)
  have "\<exists>c' src'. conf_deserialise c1 s1 = conf_deserialise c' src' \<and> src_at src' rest \<and> conf_inv c' \<and>
      conf_map c' = conf_map c1 ++ map_of (map kv es)"
    by (rule Cons.IH [OF 1(3) d(1) _ 1(2)]) (use Cons.prems(3) in simp)
  moreover have "conf_map c1 ++ map_of (map kv es) = conf_map c ++ map_of (map kv (e # es))"
    using map_add_upd_left [OF d(2)] 1(4) by (simp add: kv_def)
  ultimately show ?case using 1(1) by metis
qed

lemma conf_keys_distinct: "conf_inv c \<Longrightarrow> distinct (map e_key (conf_elems c))"
proof -
  assume c: "conf_inv c"
  then have "distinct (conf_elems c)" using t234.elems_distinct by (auto simp: conf_inv_def)
  moreover have "inj_on e_key (set (conf_elems c))" using same_key [OF c] by (auto simp: inj_on_def)
  ultimately show ?thesis by (simp add: distinct_map)
qed

lemma conf_load:
  assumes "conf_inv c" "conf_inv old" "conf_nul_free old" "src_at src (encodings (conf_fields old) @ rest)"
  shows "\<exists>c' src'. conf_deserialise c src = Some (True, c', src') \<and> src_at src' rest \<and> conf_inv c' \<and>
    conf_map c' = conf_map c ++ conf_map old"
proof -
  have "src_at src (encodings (concat (map (entry_fields \<circ> kv) (conf_elems old))) @
      encoding (FUint32 0xFFFFFFFF) @ rest)"
    using assms(4) by (simp add: conf_fields_def encodings_def)
  then obtain c' s' where 1: "conf_deserialise c src = conf_deserialise c' s'"
      "src_at s' (encoding (FUint32 0xFFFFFFFF) @ rest)" "conf_inv c'"
      "conf_map c' = conf_map c ++ conf_map old"
    using deserialise_entries [OF assms(1) conf_keys_distinct [OF assms(2)]] assms(2,3)
    by (force simp: conf_inv_def conf_nul_free_def conf_map_def)
  obtain s'' where s'': "get_uint32 s' = (0xFFFFFFFF, s'')" "src_at s'' rest"
    using get_uint32_encoded [OF _ 1(2)] by auto
  have "conf_deserialise c' s' = Some (True, c', s'')"
    using s'' by (subst conf_deserialise.simps) (simp add: src_at_def)
  then show ?thesis using 1 s''(2) by auto
qed

text \<open>On any input.\<close>

lemma follows_get:
  assumes "reads g d p" "src_ok src"
  shows "follows src (snd (g src))"
proof (cases "src_err src = BSE_NO_ERROR")
  case True
  then show ?thesis using assms by (fastforce simp: reads_def split: option.splits)
next
  case False
  then show ?thesis using assms by (simp add: reads_def follows_def)
qed

lemma reads_success:
  assumes "reads g d p" "src_ok src" "g src = (v, src')" "src_err src' = BSE_NO_ERROR"
  shows "p (here src) = Some (v, here src')"
proof -
  have r: "if src_err src \<noteq> BSE_NO_ERROR then g src = (d, src)
      else (case p (here src) of
          None \<Rightarrow> \<exists>src'. g src = (d, src') \<and> src_err src' = BSE_OUT_OF_DATA \<and> follows src src'
        | Some (v, rest) \<Rightarrow> \<exists>src'. g src = (v, src') \<and> src_err src' = BSE_NO_ERROR \<and>
            here src' = rest \<and> follows src src')"
    using assms(1,2) unfolding reads_def by blast
  show ?thesis
  proof (cases "src_err src = BSE_NO_ERROR")
    case True
    then show ?thesis using r assms(3,4) by (cases "p (here src)") auto
  next
    case False
    then show ?thesis using r assms(3,4) by simp
  qed
qed

lemma length_follows: "src_ok src \<Longrightarrow> follows src src' \<Longrightarrow> length (here src') \<le> length (here src)"
  by (auto simp: follows_def here_def word_le_nat_alt)

lemma option_types:
  "list_all (\<lambda>e. fst e \<noteq> TYPE_NONE \<and> fst (snd e) \<in> {TYPE_NONE, TYPE_INT, TYPE_STR}) CONFIG_OPTIONS"
  by code_simp

lemma deserialise_key_any:
  assumes "p < 197" "src_ok src"
  shows "\<exists>s src'. deserialise_key p src = (s, src') \<and> follows src src' \<and> key_ok (key_of p s)"
proof -
  have "CONFIG_OPTIONS ! p \<in> set CONFIG_OPTIONS" using assms(1) N_CONFIG_OPTIONS_eq by (simp add: N_CONFIG_OPTIONS_def)
  then have "subkeytypes p = Some TYPE_NONE \<or> subkeytypes p = Some TYPE_INT \<or> subkeytypes p = Some TYPE_STR"
    using option_types assms(1) by (auto simp: list_all_iff subkeytypes_def N_CONFIG_OPTIONS_eq)
  moreover have "follows src src" using assms(2) by (simp add: follows_def)
  ultimately show ?thesis
    using follows_get [OF reads_get_uint32 assms(2)] follows_get [OF reads_get_asciz assms(2)]
    by (auto simp: deserialise_key_def key_ok_def key_of_def split: prod.splits)
qed

lemma deserialise_value_any:
  assumes "p < 197" "src_ok src"
  shows "\<exists>v src'. deserialise_value p src = (v, src') \<and> follows src src' \<and> value_ok p v"
proof -
  have "CONFIG_OPTIONS ! p \<in> set CONFIG_OPTIONS" using assms(1) N_CONFIG_OPTIONS_eq by (simp add: N_CONFIG_OPTIONS_def)
  then obtain t where "valuetypes p = Some t" "t \<noteq> TYPE_NONE"
    using option_types assms(1) by (auto simp: list_all_iff valuetypes_def N_CONFIG_OPTIONS_eq)
  then show ?thesis
    using follows_get [OF reads_get_uint32 assms(2)] follows_get [OF reads_get_asciz assms(2)]
      follows_get [OF reads_get_bool assms(2)]
    by (cases t) (auto simp: deserialise_value_def value_ok_def filename_deserialise_def fontspec_deserialise_def
        split: prod.splits)
qed

lemma conf_deserialise_any:
  assumes "conf_inv c" "src_ok src"
  shows "\<exists>b c' src'. conf_deserialise c src = Some (b, c', src') \<and> conf_inv c' \<and> follows src src'"
  using assms
proof (induction "length (here src)" arbitrary: c src rule: less_induct)
  case less
  obtain w s1 where w: "get_uint32 src = (w, s1)" by fastforce
  have f1: "follows src s1" using follows_get [OF reads_get_uint32 less.prems(2)] w by simp
  note unf = conf_deserialise.simps [of c src]
  define p where "p = unat (ucast w :: 32 word)"
  show ?case
  proof (cases "src_err s1 = BSE_NO_ERROR \<and> (ucast w :: 32 word) \<noteq> 0xFFFFFFFF \<and> p < 197")
    case False
    then show ?thesis
      using f1 w less.prems by (auto simp: unf N_CONFIG_OPTIONS_eq p_def not_le)
  next
    case True
    then have p: "p < 197" by simp
    have short: "length (here s1) < length (here src)"
    proof -
      have "fixed 4 (\<lambda>bs. ucast (GET_32BIT_MSB_FIRST bs)) (here src) = Some (w, here s1)"
        by (rule reads_success [OF reads_get_uint32 less.prems(2) w]) (use True in simp)
      then have "4 \<le> length (here src)" "here s1 = drop 4 (here src)"
        by (simp_all add: fixed_def split: if_splits)
      then show ?thesis by simp
    qed
    have ok1: "src_ok s1" using f1 by (simp add: follows_def)
    obtain k s2 where k: "deserialise_key p s1 = (k, s2)" "follows s1 s2" "key_ok (key_of p k)"
      using deserialise_key_any [OF p ok1] by blast
    have ok2: "src_ok s2" using k(2) by (simp add: follows_def)
    obtain v s3 where v: "deserialise_value p s2 = (v, s3)" "follows s2 s3" "value_ok p v"
      using deserialise_value_any [OF p ok2] by blast
    have f3: "follows src s3" using f1 k(2) v(2) follows_trans by blast
    have ok3: "src_ok s3" using v(2) by (simp add: follows_def)
    have short3: "length (here s3) < length (here src)"
      using short length_follows [OF ok1 k(2)] length_follows [OF ok2 v(2)] by simp
    obtain e c1 where e: "new_entry (key_of p k) v c = (e, c1)" by fastforce
    have c1: "conf_inv c1" using e less.prems(1) by (auto simp: new_entry_def conf_inv_def less_Suc_eq)
    have run: "conf_deserialise c src = (if src_err s3 \<noteq> BSE_NO_ERROR then Some (False, c1, s3)
        else Option.bind (conf_insert c1 e) (\<lambda>c. conf_deserialise c s3))"
      using True w k(1) v(1) e unfolding unf by (simp add: N_CONFIG_OPTIONS_eq p_def)
    obtain c2 where c2: "conf_insert c1 e = Some c2" "conf_inv c2"
      using conf_insert_ok [OF less.prems(1) k(3), of v] v(3) e by (auto simp: key_of_def)
    obtain b c' src' where "conf_deserialise c2 s3 = Some (b, c', src')" "conf_inv c'" "follows s3 src'"
      using less.hyps [OF short3 c2(2) ok3] by blast
    then show ?thesis using run c1 c2(1) f3 follows_trans by (cases "src_err s3 = BSE_NO_ERROR") auto
  qed
qed


section \<open>Properties\<close>

text \<open>A store with a host name and an environment variable, for the witnesses.\<close>

definition sample_host :: conf_entry where
  "sample_host = \<lparr>e_key = key_of 0 No_subkey, e_value = Stringval [104], e_addr = 0\<rparr>"

definition sample_env :: conf_entry where
  "sample_env = \<lparr>e_key = key_of 53 (Sec_s [65]), e_value = Stringval [66], e_addr = 1\<rparr>"

definition sample_conf :: conf where
  "sample_conf = \<lparr>conf_tree = \<lparr>t_root = N3 Nul 0 sample_host Nul 0 sample_env Nul 0, t_cmp = Some entry_cmp\<rparr>,
     conf_fresh = 2\<rparr>"

lemma sample_types: "CONF ''host'' = 0" "CONF ''environmt'' = 53" "types_are 0 TYPE_NONE TYPE_STR"
  "types_are 53 TYPE_STR TYPE_STR"
  by code_simp+

lemma sample_elems: "conf_elems sample_conf = [sample_host, sample_env]"
  by (simp add: sample_conf_def elems234_def)

lemma sample_inv: "conf_inv sample_conf" "conf_nul_free sample_conf"
  "conf_map sample_conf (key_of 0 No_subkey) = Some (Stringval [104])"
  "conf_map sample_conf (key_of 53 (Sec_s [65])) = Some (Stringval [66])"
proof -
  have "wf234 (conf_tree sample_conf)" by (auto simp: wf234_def sample_conf_def intro!: exI [of _ 1])
  moreover have "entry_ok sample_host" "entry_ok sample_env"
    using typed_keys(1) [OF sample_types(3)] typed_values(3) [OF sample_types(3)]
      typed_keys(3) [OF sample_types(4)] typed_values(3) [OF sample_types(4)]
    by (simp_all add: entry_ok_def sample_host_def sample_env_def key_of_def)
  moreover have "entry_cmp sample_host sample_env < 0"
    by (simp add: entry_cmp_def conf_cmp_sub sample_host_def sample_env_def key_of_def)
  ultimately show "conf_inv sample_conf"
    using total_entry_cmp sample_elems
    by (simp add: conf_inv_def tree_inv_def sorted_by_def)
       (simp add: sample_conf_def sample_host_def sample_env_def)
  show "conf_nul_free sample_conf"
    "conf_map sample_conf (key_of 0 No_subkey) = Some (Stringval [104])"
    "conf_map sample_conf (key_of 53 (Sec_s [65])) = Some (Stringval [66])"
    by (simp_all add: conf_nul_free_def conf_map_def sample_elems sample_host_def sample_env_def nul_free_def
        kv_def key_of_def sec_s_def)
qed

text \<open>
  C23: a configuration is a finite map from option and subkey to value. Any sequence of calls of
  the setters, the getters and the deletion, on any store, returns what the same sequence on
  the map returns and leaves the store that stands for the map it leaves; an
  assertion fails exactly where the map has no value or the option has other types. Behind the
  scenes this is the replacement of an entry that compares equal, by pointer.
\<close>

theorem conf_refines_map:
  assumes "conf_inv c"
  shows "case spec_ops xs (conf_map c) of
     None \<Rightarrow> run_ops xs c = None
   | Some (rs, m) \<Rightarrow> \<exists>c'. run_ops xs c = Some (rs, c') \<and> conf_inv c' \<and> conf_map c' = m"
  using run_ops_implements [OF assms, of xs] by (simp add: implements_def)

theorem conf_refines_map_witness:
  "\<exists>c'. run_ops [GetStr 0, SetStr 0 [105], GetStr 0] sample_conf =
     Some ([Stringval [104], No_value, Stringval [105]], c') \<and>
   run_ops [GetBool 0] sample_conf = None"
  using conf_refines_map [OF sample_inv(1), of "[GetStr 0, SetStr 0 [105], GetStr 0]"]
    conf_refines_map [OF sample_inv(1), of "[GetBool 0]"] sample_types(3) sample_inv(3)
  by (auto simp: spec_get_def spec_set_def types_are_def)

text \<open>
  C24: loading always ends. On any bytes whatsoever \<open>conf_deserialise\<close> returns, without a
  failed assertion, and the store it leaves is sorted and well typed: every entry of it has a
  key and a value written through the union members that the option tables name.
\<close>

theorem conf_deserialise_returns:
  assumes "conf_inv c" "length data < 2 ^ 64"
  shows "\<exists>b c' src'. conf_deserialise c (BinarySource_INIT data) = Some (b, c', src') \<and> conf_inv c' \<and>
    src_pos src' \<le> of_nat (length data)"
proof -
  obtain b c' src' where r: "conf_deserialise c (BinarySource_INIT data) = Some (b, c', src')" "conf_inv c'"
      "follows (BinarySource_INIT data) src'"
    using conf_deserialise_any [OF assms(1) INIT_ok(1) [OF assms(2)]] by blast
  have "src_pos src' \<le> src_len src'" "unat (src_len src') = length data"
    using r(3) by (auto simp: follows_def src_ok_def BinarySource_INIT_def)
  then have "src_pos src' \<le> of_nat (length data)" using assms(2) by (simp add: word_le_nat_alt unat_of_nat)
  with r(1,2) show ?thesis by blast
qed

theorem conf_deserialise_returns_witness:
  "\<exists>b c' src'. conf_deserialise conf_new (BinarySource_INIT [0, 0, 0, 1, 9]) = Some (b, c', src') \<and> conf_inv c'"
  using conf_deserialise_returns [OF conf_inv_new(1), of "[0, 0, 0, 1, 9]"] by auto

text \<open>
  C25: saving and loading. A store whose strings are C strings, written with \<open>conf_serialise\<close>
  to a new buffer with room for it and read with \<open>conf_deserialise\<close> into any store,
  leaves there every saved setting, over what it held; the reader says that it succeeded
  and stands behind the last byte. Negative numbers survive.
\<close>

theorem conf_save_load:
  assumes "conf_inv old" "conf_nul_free old" "conf_inv c" "strbuf_new_general limit nm = Some buf"
    and "strbuf_fits limit buf (length (encodings (conf_fields old)))"
  shows "\<exists>buf' c' src'. conf_serialise (strbuf_BinarySink_write limit) old buf = Some buf' \<and>
    conf_deserialise c (BinarySource_INIT (strbuf_data buf')) = Some (True, c', src') \<and>
    here src' = [] \<and> conf_map c' = conf_map c ++ conf_map old"
proof -
  note new = strbuf_new_ok [OF assms(4)]
  let ?out = "encodings (conf_fields old)"
  have len: "length ?out < 2 ^ 64"
    using assms(5) by (simp add: strbuf_fits_def Let_def INT_MAX_def)
  obtain buf' where b: "conf_serialise (strbuf_BinarySink_write limit) old buf = Some buf'"
      "strbuf_data buf' = ?out"
    using strbuf_sink.emits_fields [OF conf_fields_fit [OF assms(1,2)], of limit] new assms(5) len
    unfolding strbuf_sink.emits_def conf_serialise_fields [OF assms(1)] by fastforce
  have "src_at (BinarySource_INIT ?out) (?out @ [])"
    using INIT_ok [OF len] by (simp add: src_at_def)
  from conf_load [OF assms(3,1,2) this] b show ?thesis by (auto simp: src_at_def)
qed

theorem conf_save_load_witness:
  "\<exists>buf buf' c' src'. strbuf_new_general 100000 False = Some buf \<and>
     conf_serialise (strbuf_BinarySink_write 100000) sample_conf buf = Some buf' \<and>
     conf_deserialise conf_new (BinarySource_INIT (strbuf_data buf')) = Some (True, c', src') \<and>
     conf_map c' (key_of 53 (Sec_s [65])) = Some (Stringval [66])"
proof -
  obtain buf where b: "strbuf_new_general 100000 False = Some buf" using new_strbuf ..
  have "subkeytypes 0 = Some TYPE_NONE" "subkeytypes 53 = Some TYPE_STR"
    using sample_types by (simp_all add: types_are_def)
  then have "length (encodings (conf_fields sample_conf)) = 18"
    by (simp add: conf_fields_def sample_elems entry_fields_def key_fields_def kv_def sample_host_def
        sample_env_def key_of_def encodings_def byte_simps sec_s_def)
  then have "strbuf_fits 100000 buf (length (encodings (conf_fields sample_conf)))"
    using strbuf_new_ok(3) [OF b] by (simp add: strbuf_fits_def Let_def INT_MAX_def)
  from conf_save_load [OF sample_inv(1,2) conf_inv_new(1) b this] b sample_inv(4) show ?thesis by auto
qed

text \<open>
  C26: copying. \<open>conf_copy_into\<close> empties the target, ends, and leaves in it exactly the
  settings of the source, in a store of its own.
\<close>

theorem conf_copy_into_copies:
  assumes "conf_inv old" "conf_inv new"
  shows "\<exists>new'. conf_copy_into new old = Some new' \<and> conf_inv new' \<and> conf_map new' = conf_map old"
  by (rule conf_copy_into_ok [OF assms])

theorem conf_copy_into_copies_witness:
  "\<exists>new'. conf_copy sample_conf = Some new' \<and> conf_map new' (key_of 53 (Sec_s [65])) = Some (Stringval [66])"
  using conf_copy_into_copies [OF sample_inv(1) conf_inv_new(1)] sample_inv(4) by (auto simp: conf_copy_def)

text \<open>
  the two ways to walk over the subkeys of an option agree with the map. The subkeys in
  the order of \<open>strcmp\<close> are exactly those that have a value; \<open>conf_get_str_nthstrkey\<close>
  returns the one at the position asked for, and NULL behind the last, and
  \<open>conf_get_str_strs\<close> the first one, or the first one behind the subkey it is given, there
  or not.
\<close>

theorem subkeys_walk:
  assumes "conf_inv c" "types_are p TYPE_STR TYPE_STR" "0 \<le> n"
  shows "sorted_wrt (\<lambda>s t. strcmp s t < 0) (subkeys c p) \<and>
    set (subkeys c p) = {s. conf_map c (key_of p (Sec_s s)) \<noteq> None} \<and>
    conf_get_str_nthstrkey c p n = Some (nth_opt (subkeys c p) n) \<and>
    map_option (map_option fst) (conf_get_str_strs c p sub) =
      Some (List.find (\<lambda>t. case sub of None \<Rightarrow> True | Some s \<Rightarrow> strcmp s t < 0) (subkeys c p))"
  using subkeys_sorted [OF assms(1,2)] subkeys_map [OF assms(1,2)] get_nthstrkey_ok [OF assms]
    get_str_strs_ok [OF assms(1,2)] by auto

theorem subkeys_walk_witness:
  "conf_get_str_nthstrkey sample_conf 53 0 = Some (Some [65]) \<and>
   conf_get_str_nthstrkey sample_conf 53 1 = Some None"
  using subkeys_walk [OF sample_inv(1) sample_types(4), of 0] subkeys_walk [OF sample_inv(1) sample_types(4), of 1]
  by (simp add: subkeys_def option_entries_def sample_elems sample_host_def sample_env_def key_of_def
      nth_opt_Cons nth_opt_Nil entry_subkey_def sec_s_def)

end
