(* ===== verification/Mpint.thy ===== *)
theory Mpint
  imports Marshal "HOL-Library.Numeral_Type"
begin

text \<open>
  Multiprecision integers: \<open>putty-src/mpint.c\<close> and \<open>mpint_i.h\<close>.

  An \<open>mp_int\<close> is the list of its words, the least significant first; \<open>nw\<close> is the length. The
  word type is a parameter \<open>'w\<close>, because the header chooses it for the platform
  (16, 32 or 64 bits), and \<open>BignumDblInt\<close> is the type twice as long. A function \<open>f_into(r, a, b)\<close>
  takes the length of \<open>r\<close> and returns its new words; when \<open>r\<close> and an input are the
  same object the result is the same, because every loop reads the input words at an index
  before it writes that one and never reads a written one. Word counts are \<open>nat\<close>.
  \<open>None\<close> is a failed assertion.
\<close>

type_synonym 'w mp_int = "'w word list"

section \<open>Words\<close>

text \<open>The statement macros, by the double-width type.\<close>

definition BignumADC :: "'w::len word \<Rightarrow> 'w word \<Rightarrow> 'w word \<Rightarrow> 'w word \<times> 'w word" where
  "BignumADC a b c =
     (let temp = ucast a + ucast b + ucast c :: 'w bit0 word
      in (ucast temp, ucast (drop_bit LENGTH('w) temp)))"

definition BignumMULADD :: "'w::len word \<Rightarrow> 'w word \<Rightarrow> 'w word \<Rightarrow> 'w word \<times> 'w word" where
  "BignumMULADD a b addend =
     (let temp = ucast a * ucast b + ucast addend :: 'w bit0 word
      in (ucast (drop_bit LENGTH('w) temp), ucast temp))"

definition BignumMULADD2 :: "'w::len word \<Rightarrow> 'w word \<Rightarrow> 'w word \<Rightarrow> 'w word \<Rightarrow> 'w word \<times> 'w word" where
  "BignumMULADD2 a b addend1 addend2 =
     (let temp = ucast a * ucast b + ucast addend1 + ucast addend2 :: 'w bit0 word
      in (ucast (drop_bit LENGTH('w) temp), ucast temp))"

definition mp_word :: "'w::len mp_int \<Rightarrow> nat \<Rightarrow> 'w word" where
  "mp_word x i = (if i < length x then x ! i else 0)"

definition mp_make_sized :: "nat \<Rightarrow> 'w::len mp_int option" where
  "mp_make_sized nw = (if nw \<noteq> 0 then Some (replicate nw 0) else None)"

section \<open>Addition and subtraction\<close>

primrec add_words ::
  "'w::len mp_int \<Rightarrow> 'w mp_int \<Rightarrow> 'w word \<Rightarrow> 'w word \<Rightarrow> nat \<Rightarrow> nat \<Rightarrow> 'w word \<Rightarrow> 'w mp_int \<times> 'w word"
where
  "add_words a b b_and b_xor i 0 carry = ([], carry)"
| "add_words a b b_and b_xor i (Suc n) carry =
     (let bword = (mp_word b i AND b_and) XOR b_xor;
          (out, carry) = BignumADC (mp_word a i) bword carry;
          (outs, carry) = add_words a b b_and b_xor (Suc i) n carry
      in (out # outs, carry))"

definition mp_add_masked_into ::
  "nat \<Rightarrow> 'w::len mp_int \<Rightarrow> 'w mp_int \<Rightarrow> 'w word \<Rightarrow> 'w word \<Rightarrow> 'w word \<Rightarrow> 'w mp_int \<times> 'w word"
where
  "mp_add_masked_into rw a b b_and b_xor carry = add_words a b b_and b_xor 0 rw carry"

definition mp_add_into_internal :: "nat \<Rightarrow> 'w::len mp_int \<Rightarrow> 'w mp_int \<Rightarrow> 'w mp_int \<times> 'w word" where
  "mp_add_into_internal rw a b = mp_add_masked_into rw a b (- 1) 0 0"

definition mp_add_into :: "nat \<Rightarrow> 'w::len mp_int \<Rightarrow> 'w mp_int \<Rightarrow> 'w mp_int" where
  "mp_add_into rw a b = fst (mp_add_into_internal rw a b)"

definition mp_sub_into :: "nat \<Rightarrow> 'w::len mp_int \<Rightarrow> 'w mp_int \<Rightarrow> 'w mp_int" where
  "mp_sub_into rw a b = fst (mp_add_masked_into rw a b (- 1) (- 1) 1)"

definition mp_cond_add_into :: "nat \<Rightarrow> 'w::len mp_int \<Rightarrow> 'w mp_int \<Rightarrow> 32 word \<Rightarrow> 'w mp_int" where
  "mp_cond_add_into rw a b yes =
     (let mask = - ucast (yes AND 1) in fst (mp_add_masked_into rw a b mask 0 0))"

definition mp_cond_sub_into :: "nat \<Rightarrow> 'w::len mp_int \<Rightarrow> 'w mp_int \<Rightarrow> 32 word \<Rightarrow> 'w mp_int" where
  "mp_cond_sub_into rw a b yes =
     (let mask = - ucast (yes AND 1) in fst (mp_add_masked_into rw a b mask mask (1 AND mask)))"

definition mp_cmp_hs :: "'w::len mp_int \<Rightarrow> 'w mp_int \<Rightarrow> 32 word" where
  "mp_cmp_hs a b = ucast (snd (mp_add_masked_into (max (length a) (length b)) a b (- 1) (- 1) 1))"

definition mp_neg_into :: "nat \<Rightarrow> 'w::len mp_int \<Rightarrow> 'w mp_int" where
  "mp_neg_into rw a = mp_sub_into rw [] a"

definition mp_add :: "'w::len mp_int \<Rightarrow> 'w mp_int \<Rightarrow> 'w mp_int" where
  "mp_add x y = mp_add_into (max (length x) (length y) + 1) x y"

definition mp_sub :: "'w::len mp_int \<Rightarrow> 'w mp_int \<Rightarrow> 'w mp_int" where
  "mp_sub x y = mp_sub_into (max (length x) (length y)) x y"

definition mp_neg :: "'w::len mp_int \<Rightarrow> 'w mp_int" where
  "mp_neg a = mp_neg_into (length a) a"

text \<open>The operand is a \<open>uintmax_t\<close>; the test compares a number of bits with a number of bytes.\<close>

primrec add_integer_words ::
  "'w::len mp_int \<Rightarrow> 64 word \<Rightarrow> 'w word \<Rightarrow> 'w word \<Rightarrow> nat \<Rightarrow> nat \<Rightarrow> 'w word \<Rightarrow> 'w mp_int \<times> 'w word"
where
  "add_integer_words a b b_and b_xor i 0 carry = ([], carry)"
| "add_integer_words a b b_and b_xor i (Suc n) carry =
     (let shift = i * LENGTH('w);
          bword = (if shift < LENGTH('w) div 8 then ucast (drop_bit shift b) else 0);
          bword = (bword XOR b_xor) AND b_and;
          (out, carry) = BignumADC (mp_word a i) bword carry;
          (outs, carry) = add_integer_words a b b_and b_xor (Suc i) n carry
      in (out # outs, carry))"

definition mp_add_integer_into :: "nat \<Rightarrow> 'w::len mp_int \<Rightarrow> 64 word \<Rightarrow> 'w mp_int" where
  "mp_add_integer_into rw a n = fst (add_integer_words a n (- 1) 0 0 rw 0)"

definition mp_sub_integer_into :: "nat \<Rightarrow> 'w::len mp_int \<Rightarrow> 64 word \<Rightarrow> 'w mp_int" where
  "mp_sub_integer_into rw a n = fst (add_integer_words a n (- 1) (- 1) 0 rw 1)"

primrec mul_integer_words :: "'w::len mp_int \<Rightarrow> 'w word \<Rightarrow> nat \<Rightarrow> nat \<Rightarrow> 'w word \<Rightarrow> 'w mp_int \<times> 'w word" where
  "mul_integer_words a mult i 0 carry = ([], carry)"
| "mul_integer_words a mult i (Suc n) carry =
     (let (carry, out) = BignumMULADD (mp_word a i) mult carry;
          (outs, carry) = mul_integer_words a mult (Suc i) n carry
      in (out # outs, carry))"

definition mp_mul_integer_into :: "nat \<Rightarrow> 'w::len mp_int \<Rightarrow> 16 word \<Rightarrow> 'w mp_int option" where
  "mp_mul_integer_into rw a n =
     (let (out, carry) = mul_integer_words a (ucast n) 0 rw 0 in if carry = 0 then Some out else None)"

section \<open>Multiplication\<close>

text \<open>
  The inner loops of \<open>mp_mul_add_simple\<close>, on the words of \<open>r\<close> from \<open>rp\<close> on: the product
  with one word of \<open>a\<close>, then the carry.
\<close>

primrec add_carry :: "'w::len word \<Rightarrow> 'w mp_int \<Rightarrow> 'w mp_int" where
  "add_carry carry [] = []"
| "add_carry carry (r # rs) = (let (out, carry) = BignumADC carry r 0 in out # add_carry carry rs)"

fun muladd_word :: "'w::len word \<Rightarrow> 'w mp_int \<Rightarrow> 'w word \<Rightarrow> 'w mp_int \<Rightarrow> 'w mp_int" where
  "muladd_word adata [] carry rs = add_carry carry rs"
| "muladd_word adata (b # bs) carry [] = []"
| "muladd_word adata (b # bs) carry (r # rs) =
     (let (carry, out) = BignumMULADD2 adata b r carry in out # muladd_word adata bs carry rs)"

fun mp_mul_add_simple :: "'w::len mp_int \<Rightarrow> 'w mp_int \<Rightarrow> 'w mp_int \<Rightarrow> 'w mp_int" where
  "mp_mul_add_simple r [] b = r"
| "mp_mul_add_simple [] (a # as) b = []"
| "mp_mul_add_simple (r # rs) (a # as) b =
     (case muladd_word a b 0 (r # rs) of
        [] \<Rightarrow> []
      | r # rs \<Rightarrow> r # mp_mul_add_simple rs as b)"

definition KARATSUBA_THRESHOLD :: nat where
  "KARATSUBA_THRESHOLD = 24"

definition mp_mul_scratchspace_unary :: "nat \<Rightarrow> nat" where
  "mp_mul_scratchspace_unary n = n * 6"

definition mp_mul_scratchspace :: "nat \<Rightarrow> nat \<Rightarrow> nat \<Rightarrow> nat" where
  "mp_mul_scratchspace rw aw bw = mp_mul_scratchspace_unary (min rw (max aw bw))"

definition mp_make_alias :: "'w::len mp_int \<Rightarrow> nat \<Rightarrow> nat \<Rightarrow> 'w mp_int" where
  "mp_make_alias x offset len' =
     (let offset = min offset (length x); len' = min len' (length x - offset) in take len' (drop offset x))"

text \<open>
  The scratch space counts by its size only: whatever is allocated from it is written
  before it is read. \<open>mp_alloc_from_scratch\<close> takes words off it.
\<close>

definition mp_alloc_from_scratch :: "nat \<Rightarrow> nat \<Rightarrow> nat option" where
  "mp_alloc_from_scratch pool len' = (if len' \<le> pool then Some (pool - len') else None)"

text \<open>The words of \<open>r\<close> from \<open>offset\<close> on, replaced through an alias.\<close>

definition put_at :: "nat \<Rightarrow> 'w::len mp_int \<Rightarrow> 'w mp_int \<Rightarrow> 'w mp_int" where
  "put_at offset r new = take offset r @ new"

lemma length_alias [simp]: "length (mp_make_alias x i n) = min n (length x - i)"
  by (auto simp: mp_make_alias_def Let_def min_def)

lemma length_add_words [simp]: "length (fst (add_words a b m x i n c)) = n"
  by (induction n arbitrary: i c) (auto simp: case_prod_unfold Let_def)

lemma length_add_into [simp]: "length (mp_add_into n a b) = n" "length (mp_sub_into n a b) = n"
  by (simp_all add: mp_add_into_def mp_add_into_internal_def mp_sub_into_def mp_add_masked_into_def)

lemma mul_step:
  assumes "n = min rw (max (length a) (length b))" "\<not> (n < KARATSUBA_THRESHOLD \<or> P)"
    and "length x \<le> n - n div 2 + 1" "length y \<le> n - n div 2 + 1"
  shows "((r, x, y, s), (rw, a, b, s')) \<in> measure (\<lambda>(rw, a, b, scratch). min rw (max (length a) (length b)))"
proof -
  have "24 \<le> n" using assms(2) by (simp add: KARATSUBA_THRESHOLD_def)
  then have "n - n div 2 + 1 < n" by presburger
  moreover have "min r (max (length x) (length y)) \<le> n - n div 2 + 1" using assms(3,4) by simp
  ultimately have "min r (max (length x) (length y)) < n" by (rule le_less_trans [rotated])
  then show ?thesis using assms(1) by (simp only: in_measure split_conv)
qed

lemma part_lengths:
  "xa = n div 2 \<Longrightarrow> xb = n - xa \<Longrightarrow> xc = mp_make_alias a i xb \<Longrightarrow> length xc \<le> n - n div 2 + 1"
  "xa = n div 2 \<Longrightarrow> xb = n - xa \<Longrightarrow> xc = mp_make_alias a i xa \<Longrightarrow> length xc \<le> n - n div 2 + 1"
  "xa = n div 2 \<Longrightarrow> xb = n - xa \<Longrightarrow> xc = mp_add_into (xb + 1) c d \<Longrightarrow> length xc \<le> n - n div 2 + 1"
proof -
  have "n div 2 \<le> n - n div 2 + 1" by presburger
  then show "xa = n div 2 \<Longrightarrow> xb = n - xa \<Longrightarrow> xc = mp_make_alias a i xb \<Longrightarrow> length xc \<le> n - n div 2 + 1"
    "xa = n div 2 \<Longrightarrow> xb = n - xa \<Longrightarrow> xc = mp_make_alias a i xa \<Longrightarrow> length xc \<le> n - n div 2 + 1"
    "xa = n div 2 \<Longrightarrow> xb = n - xa \<Longrightarrow> xc = mp_add_into (xb + 1) c d \<Longrightarrow> length xc \<le> n - n div 2 + 1"
    by (simp_all add: min_le_iff_disj)
qed

function mp_mul_internal :: "nat \<Rightarrow> 'w::len mp_int \<Rightarrow> 'w mp_int \<Rightarrow> nat \<Rightarrow> 'w mp_int option" where
  "mp_mul_internal rw a b scratch =
     (let inlen = min rw (max (length a) (length b)) in
      if \<not> scratch \<ge> mp_mul_scratchspace_unary inlen then None
      else if inlen < KARATSUBA_THRESHOLD \<or> length a = 0 \<or> length b = 0
      then Some (mp_mul_add_simple (replicate rw 0) a b)
      else
        let toplen = inlen div 2; botlen = inlen - toplen;
            a0 = mp_make_alias a 0 botlen; b0 = mp_make_alias b 0 botlen;
            a1 = mp_make_alias a botlen toplen; b1 = mp_make_alias b botlen toplen
        in Option.bind (mp_mul_internal (min (botlen * 2) rw) a0 b0 scratch) (\<lambda>r0.
           Option.bind (mp_mul_internal (rw - min (botlen * 2) rw) a1 b1 scratch) (\<lambda>r2.
           let r = r0 @ r2; r1 = mp_make_alias r botlen rw in
           if rw < inlen * 2 then
             let sw = min (botlen + toplen) (length r1) in
             Option.bind (mp_alloc_from_scratch scratch sw) (\<lambda>scratch.
             Option.bind (mp_mul_internal sw a0 b1 scratch) (\<lambda>s.
             let r1 = mp_add_into (length r1) r1 s in
             Option.bind (mp_mul_internal sw a1 b0 scratch) (\<lambda>s.
             let r1 = mp_add_into (length r1) r1 s in
             Some (put_at botlen r r1))))
           else
             Option.bind (mp_alloc_from_scratch scratch (botlen + 1)) (\<lambda>scratch.
             Option.bind (mp_alloc_from_scratch scratch (botlen + 1)) (\<lambda>scratch.
             let asum = mp_add_into (botlen + 1) a0 a1; bsum = mp_add_into (botlen + 1) b0 b1 in
             Option.bind (mp_alloc_from_scratch scratch (botlen * 2 + 1)) (\<lambda>scratch.
             Option.bind (mp_mul_internal (botlen * 2 + 1) asum bsum scratch) (\<lambda>product.
             let product = mp_sub_into (botlen * 2 + 1) product r0;
                 product = mp_sub_into (botlen * 2 + 1) product r2;
                 r1 = mp_add_into (length r1) r1 product
             in Some (put_at botlen r r1))))))))"
  by pat_completeness auto
termination
proof (relation "measure (\<lambda>(rw, a, b, scratch). min rw (max (length a) (length b)))", goal_cases)
  case 1
  show ?case by simp
qed (rule mul_step, assumption, assumption; erule (2) part_lengths)+

declare mp_mul_internal.simps [simp del]

definition mp_mul_into :: "nat \<Rightarrow> 'w::len mp_int \<Rightarrow> 'w mp_int \<Rightarrow> 'w mp_int option" where
  "mp_mul_into rw a b =
     Option.bind (mp_make_sized (mp_mul_scratchspace rw (length a) (length b)) :: 'w mp_int option)
       (\<lambda>scratch. mp_mul_internal rw a b (length scratch))"

definition mp_mul :: "'w::len mp_int \<Rightarrow> 'w mp_int \<Rightarrow> 'w mp_int option" where
  "mp_mul x y =
     Option.bind (mp_make_sized (length x + length y) :: 'w mp_int option) (\<lambda>r. mp_mul_into (length r) x y)"

section \<open>Values\<close>

fun mp_val :: "'w::len mp_int \<Rightarrow> nat" where
  "mp_val [] = 0"
| "mp_val (w # ws) = unat w + 2 ^ LENGTH('w) * mp_val ws"

lemma unat_bound: "unat (w :: 'w::len word) < 2 ^ LENGTH('w)"
  by simp

text \<open>The double-width type holds every intermediate value.\<close>

lemma double_split:
  fixes t :: "'w::len bit0 word"
  shows "unat (ucast t :: 'w word) = unat t mod 2 ^ LENGTH('w)"
    and "unat (ucast (drop_bit LENGTH('w) t) :: 'w word) = unat t div 2 ^ LENGTH('w)"
proof -
  show "unat (ucast t :: 'w word) = unat t mod 2 ^ LENGTH('w)"
    by (simp add: unsigned_ucast_eq take_bit_eq_mod)
  have lt: "unat t < 2 ^ (2 * LENGTH('w))" using unsigned_less [of t] by simp
  then have "unat t div 2 ^ LENGTH('w) < 2 ^ LENGTH('w)"
    by (simp add: less_mult_imp_div_less power_add mult_2)
  moreover have "unat (drop_bit LENGTH('w) t) = unat t div 2 ^ LENGTH('w)"
    using lt by (simp add: unsigned_drop_bit_eq) (simp add: drop_bit_eq_div take_bit_nat_eq_self)
  ultimately show "unat (ucast (drop_bit LENGTH('w) t) :: 'w word) = unat t div 2 ^ LENGTH('w)"
    by (simp add: unsigned_ucast_eq take_bit_nat_eq_self)
qed

lemma unat_double [simp]: "unat (ucast (a :: 'w::len word) :: 'w bit0 word) = unat a"
  by (simp add: unsigned_ucast_eq take_bit_nat_eq_self less_le_trans [OF unat_bound])


lemma double_sum:
  fixes t :: "'w::len bit0 word"
  assumes "unat t = n"
  shows "unat (ucast t :: 'w word) + 2 ^ LENGTH('w) * unat (ucast (drop_bit LENGTH('w) t) :: 'w word) = n"
  unfolding double_split(2) unfolding double_split(1) assms by (rule mod_mult_div_eq)

lemma unat_small_sum: "n + m < 2 ^ LENGTH('a) \<Longrightarrow> unat a = n \<Longrightarrow> unat b = m \<Longrightarrow> unat (a + b :: 'a::len word) = n + m"
  by (simp add: unat_word_ariths(1))

lemma unat_small_prod: "n * m < 2 ^ LENGTH('a) \<Longrightarrow> unat a = n \<Longrightarrow> unat b = m \<Longrightarrow> unat (a * b :: 'a::len word) = n * m"
  by (simp add: unat_word_ariths(2))

lemma muladd_bound:
  fixes a b c d x :: nat
  assumes "a < x" "b < x" "c < x" "d < x"
  shows "a * b + c + d < x * x"
proof -
  obtain y where y: "x = Suc y" using assms(1) by (cases x) auto
  have "a * b \<le> y * y" using assms y by (intro mult_le_mono) auto
  then show ?thesis using assms y by simp
qed

lemma BignumMULADD2_val:
  fixes a :: "'w::len word"
  assumes "BignumMULADD2 a b c d = (hi, lo)"
  shows "unat lo + 2 ^ LENGTH('w) * unat hi = unat a * unat b + unat c + unat d"
proof -
  let ?t = "ucast a * ucast b + ucast c + ucast d :: 'w bit0 word"
  have x: "(2::nat) ^ LENGTH('w bit0) = 2 ^ LENGTH('w) * 2 ^ LENGTH('w)"
    by (simp add: power_add mult_2)
  have b: "unat a * unat b + unat c + unat d < 2 ^ LENGTH('w bit0)"
    unfolding x by (rule muladd_bound) simp_all
  have "unat ?t = unat a * unat b + unat c + unat d"
    using b by (intro unat_small_sum unat_small_prod) simp_all
  from double_sum [OF this] show ?thesis
    using assms by (auto simp: BignumMULADD2_def Let_def)
qed

lemma BignumMULADD_val:
  fixes a :: "'w::len word"
  assumes "BignumMULADD a b c = (hi, lo)"
  shows "unat lo + 2 ^ LENGTH('w) * unat hi = unat a * unat b + unat c"
proof -
  have "BignumMULADD2 a b c 0 = (hi, lo)" using assms by (simp add: BignumMULADD_def BignumMULADD2_def)
  from BignumMULADD2_val [OF this] show ?thesis by simp
qed

lemma BignumADC_val:
  fixes a :: "'w::len word"
  assumes "BignumADC a b c = (ret, retc)"
  shows "unat ret + 2 ^ LENGTH('w) * unat retc = unat a + unat b + unat c"
proof -
  have "a * 1 = a" by simp
  have "BignumMULADD2 a 1 b c = (retc, ret)" using assms by (auto simp: BignumADC_def BignumMULADD2_def Let_def)
  from BignumMULADD2_val [OF this] show ?thesis by (cases "LENGTH('w) = 0") (simp_all add: unat_1)
qed

text \<open>With a carry in of at most one, the carry out is at most one.\<close>

lemma BignumADC_carry:
  fixes a :: "'w::len word"
  assumes "BignumADC a b c = (ret, retc)" "unat c \<le> 1"
  shows "unat retc \<le> 1"
proof -
  have "2 ^ LENGTH('w) * unat retc \<le> unat a + unat b + 1"
    using BignumADC_val [OF assms(1)] assms(2) by simp
  also have "\<dots> < 2 ^ LENGTH('w) * 2" using unat_bound [of a] unat_bound [of b] by linarith
  finally show ?thesis by simp
qed

text \<open>\<open>window x i n\<close>: the value of \<open>n\<close> words of \<open>x\<close> from the index \<open>i\<close> on, zeros behind its end.\<close>

definition window :: "(nat \<Rightarrow> 'w::len word) \<Rightarrow> nat \<Rightarrow> nat \<Rightarrow> nat" where
  "window f i n = mp_val (map f [i ..< i + n])"

lemma window_0 [simp]: "window f i 0 = 0"
  by (simp add: window_def)

lemma window_Suc: "window (f :: nat \<Rightarrow> 'w::len word) i (Suc n) = unat (f i) + 2 ^ LENGTH('w) * window f (Suc i) n"
  by (simp add: window_def upt_conv_Cons del: upt_Suc)

lemma mp_val_bound: "mp_val (x :: 'w::len mp_int) < 2 ^ (LENGTH('w) * length x)"
proof (induction x)
  case (Cons w x)
  have "unat w + 2 ^ LENGTH('w) * mp_val x < 2 ^ LENGTH('w) + 2 ^ LENGTH('w) * mp_val x" by simp
  also have "\<dots> = 2 ^ LENGTH('w) * Suc (mp_val x)" by simp
  also have "\<dots> \<le> 2 ^ LENGTH('w) * 2 ^ (LENGTH('w) * length x)" using Cons by (intro mult_le_mono2) simp
  finally show ?case by (simp add: power_add)
qed simp

lemma window_bound: "window (f :: nat \<Rightarrow> 'w::len word) i n < 2 ^ (LENGTH('w) * n)"
  using mp_val_bound [of "map f [i ..< i + n]"] by (simp add: window_def)

lemma mp_val_append: "mp_val (x @ y :: 'w::len mp_int) = mp_val x + 2 ^ (LENGTH('w) * length x) * mp_val y"
  by (induction x) (simp_all add: power_add algebra_simps)

lemma mp_val_replicate_0 [simp]: "mp_val (replicate n 0) = 0"
  by (induction n) simp_all

lemma mp_val_take: "mp_val (take n x :: 'w::len mp_int) = mp_val x mod 2 ^ (LENGTH('w) * n)"
proof (cases "n \<le> length x")
  case True
  have "mp_val x = mp_val (take n x) + 2 ^ (LENGTH('w) * n) * mp_val (drop n x)"
    using mp_val_append [of "take n x" "drop n x"] True by simp
  then show ?thesis using mp_val_bound [of "take n x"] True by simp
next
  case False
  have "(2::nat) ^ (LENGTH('w) * length x) \<le> 2 ^ (LENGTH('w) * n)" using False by (intro power_increasing) auto
  then have "mp_val x < 2 ^ (LENGTH('w) * n)" using mp_val_bound [of x] by (rule order.strict_trans2 [rotated])
  then show ?thesis using False by simp
qed

lemma mp_val_drop: "mp_val (drop n x :: 'w::len mp_int) = mp_val x div 2 ^ (LENGTH('w) * n)"
proof (cases "n \<le> length x")
  case True
  have "mp_val x = mp_val (take n x) + 2 ^ (LENGTH('w) * n) * mp_val (drop n x)"
    using mp_val_append [of "take n x" "drop n x"] True by simp
  then show ?thesis using mp_val_bound [of "take n x"] True by simp
next
  case False
  have "(2::nat) ^ (LENGTH('w) * length x) \<le> 2 ^ (LENGTH('w) * n)" using False by (intro power_increasing) auto
  then have "mp_val x < 2 ^ (LENGTH('w) * n)" using mp_val_bound [of x] by (rule order.strict_trans2 [rotated])
  then show ?thesis using False by simp
qed

lemma window_words: "window (mp_word x) 0 n = mp_val (x :: 'w::len mp_int) mod 2 ^ (LENGTH('w) * n)"
proof -
  have "map (mp_word x) [0 ..< n] = take n x @ replicate (n - length x) 0"
    by (rule nth_equalityI) (auto simp: mp_word_def nth_append)
  then have "window (mp_word x) 0 n = mp_val (take n x)" by (simp add: window_def mp_val_append)
  then show ?thesis by (simp add: mp_val_take)
qed


section \<open>Addition and subtraction, by value\<close>

definition masked :: "'w::len mp_int \<Rightarrow> 'w word \<Rightarrow> 'w word \<Rightarrow> nat \<Rightarrow> 'w word" where
  "masked b b_and b_xor i = (mp_word b i AND b_and) XOR b_xor"

lemma add_words_val:
  assumes "add_words a b m x i n c = (out, c')"
  shows "mp_val (out :: 'w::len mp_int) + 2 ^ (LENGTH('w) * n) * unat c' =
    window (mp_word a) i n + window (masked b m x) i n + unat c"
  using assms
proof (induction n arbitrary: i c out c')
  case 0
  then show ?case by simp
next
  case (Suc n)
  obtain w c1 where adc: "BignumADC (mp_word a i) (masked b m x i) c = (w, c1)" by fastforce
  obtain ws c2 where rest: "add_words a b m x (Suc i) n c1 = (ws, c2)" by fastforce
  have out: "out = w # ws" "c' = c2"
    using Suc.prems adc rest by (simp_all add: masked_def)
  have "mp_val out + 2 ^ (LENGTH('w) * Suc n) * unat c' =
      unat w + 2 ^ LENGTH('w) * (mp_val ws + 2 ^ (LENGTH('w) * n) * unat c2)"
    using out by (simp add: power_add algebra_simps)
  also have "\<dots> = unat w + 2 ^ LENGTH('w) * (window (mp_word a) (Suc i) n + window (masked b m x) (Suc i) n + unat c1)"
    using Suc.IH [OF rest] by simp
  also have "\<dots> = (unat w + 2 ^ LENGTH('w) * unat c1) +
      2 ^ LENGTH('w) * (window (mp_word a) (Suc i) n + window (masked b m x) (Suc i) n)"
    by (simp add: algebra_simps)
  finally show ?case using BignumADC_val [OF adc] by (simp add: window_Suc algebra_simps)
qed

lemma add_words_carry:
  assumes "add_words a b m x i n c = (out, c')" "unat c \<le> 1"
  shows "unat c' \<le> 1"
  using assms
proof (induction n arbitrary: i c out c')
  case (Suc n)
  obtain w c1 where adc: "BignumADC (mp_word a i) (masked b m x i) c = (w, c1)" by fastforce
  obtain ws c2 where rest: "add_words a b m x (Suc i) n c1 = (ws, c2)" by fastforce
  have "c' = c2" using Suc.prems(1) adc rest by (simp add: masked_def)
  then show ?case using Suc.IH [OF rest BignumADC_carry [OF adc Suc.prems(2)]] by simp
qed simp

lemma window_cong: "(\<And>i. f i = g i) \<Longrightarrow> window f i n = window g i n"
  by (simp add: window_def cong: map_cong)

text \<open>The mask leaves the operand alone, drops it, or turns it into its complement.\<close>

lemma window_keep: "window (masked b (- 1) 0) i n = window (mp_word b) i n"
  by (rule window_cong) (simp add: masked_def)

lemma window_zero: "window (\<lambda>_. 0 :: 'w::len word) i n = 0"
  by (induction n arbitrary: i) (simp_all add: window_Suc)

lemma window_drop: "window (masked (b :: 'w::len mp_int) 0 0) i n = 0"
proof -
  have "masked b 0 0 = (\<lambda>_. 0)" by (simp add: masked_def fun_eq_iff)
  then show ?thesis by (simp only: window_zero)
qed

lemma unat_not: "unat (NOT w :: 'w::len word) + unat w = 2 ^ LENGTH('w) - 1"
proof -
  have "NOT w = - 1 - w" by (simp add: not_eq_complement)
  moreover have "w \<le> - 1" by simp
  ultimately have "unat (NOT w) = unat (- 1 :: 'w word) - unat w" by (simp only: unat_sub)
  moreover have "unat (- 1 :: 'w word) = 2 ^ LENGTH('w) - 1" by (simp add: unsigned_minus_1_eq_mask mask_eq_exp_minus_1)
  moreover have "unat w < 2 ^ LENGTH('w)" by simp
  ultimately show ?thesis by linarith
qed

lemma window_complement:
  "window (masked (b :: 'w::len mp_int) (- 1) (- 1)) i n + window (mp_word b) i n + 1 = 2 ^ (LENGTH('w) * n)"
proof (induction n arbitrary: i)
  case (Suc n)
  let ?B = "2 ^ LENGTH('w) :: nat"
  have m: "masked b (- 1) (- 1) i = NOT (mp_word b i)" by (simp add: masked_def)
  have u: "unat (NOT (mp_word b i)) + unat (mp_word b i) + 1 = ?B"
    using unat_not [of "mp_word b i"] by simp
  have "window (masked b (- 1) (- 1)) i (Suc n) + window (mp_word b) i (Suc n) + 1 =
      (unat (NOT (mp_word b i)) + unat (mp_word b i) + 1) +
      ?B * (window (masked b (- 1) (- 1)) (Suc i) n + window (mp_word b) (Suc i) n)"
    by (simp add: window_Suc m algebra_simps)
  also have "\<dots> = ?B * (window (masked b (- 1) (- 1)) (Suc i) n + window (mp_word b) (Suc i) n + 1)"
    using u by (simp add: algebra_simps)
  also have "\<dots> = 2 ^ (LENGTH('w) * Suc n)" by (simp only: Suc.IH) (simp add: power_add)
  finally show ?case .
qed simp

text \<open>\<open>mp_add_into\<close>, \<open>mp_sub_into\<close> and the carry, modulo the size of the output.\<close>

lemma mp_add_into_val:
  "mp_val (mp_add_into n a b :: 'w::len mp_int) = (mp_val a + mp_val b) mod 2 ^ (LENGTH('w) * n)"
proof -
  obtain out c where r: "add_words a b (- 1) 0 0 n 0 = (out, c)" by fastforce
  let ?M = "2 ^ (LENGTH('w) * n) :: nat"
  have "length out = n" using length_add_words [of a b "- 1" 0 0 n 0] r by simp
  then have "mp_val out < ?M" using mp_val_bound [of out] by simp
  moreover have "mp_val out + ?M * unat c = mp_val a mod ?M + mp_val b mod ?M"
    using add_words_val [OF r] by (simp add: window_keep window_words)
  ultimately have "mp_val out = (mp_val a mod ?M + mp_val b mod ?M) mod ?M"
    by (metis mod_less mod_mult_self2)
  then show ?thesis
    using r by (simp add: mp_add_into_def mp_add_into_internal_def mp_add_masked_into_def mod_add_eq)
qed

lemma sub_words_val:
  assumes "add_words a b (- 1) (- 1) 0 n 1 = (out, c)"
  shows "mp_val (out :: 'w::len mp_int) + 2 ^ (LENGTH('w) * n) * unat c + mp_val b mod 2 ^ (LENGTH('w) * n) =
    mp_val a mod 2 ^ (LENGTH('w) * n) + 2 ^ (LENGTH('w) * n)"
  using add_words_val [OF assms] window_complement [of b 0 n] by (simp add: window_words)

lemma mp_sub_into_val:
  "int (mp_val (mp_sub_into n a b :: 'w::len mp_int)) = (int (mp_val a) - int (mp_val b)) mod 2 ^ (LENGTH('w) * n)"
proof -
  obtain out c where r: "add_words a b (- 1) (- 1) 0 n 1 = (out, c)" by fastforce
  let ?M = "2 ^ (LENGTH('w) * n) :: nat"
  have "length out = n" using length_add_words [of a b "- 1" "- 1" 0 n 1] r by simp
  then have "mp_val out < ?M" using mp_val_bound [of out] by simp
  then have lt: "int (mp_val out) < int ?M" by (simp only: of_nat_less_iff)
  have "int (mp_val out + ?M * unat c + mp_val b mod ?M) = int (mp_val a mod ?M + ?M)"
    using sub_words_val [OF r] by simp
  then have "int (mp_val out) = (int (mp_val a mod ?M) - int (mp_val b mod ?M)) + int ?M * (1 - int (unat c))"
    by (simp add: algebra_simps)
  then have "int (mp_val out) mod int ?M = (int (mp_val a mod ?M) - int (mp_val b mod ?M)) mod int ?M"
    by (simp only: mod_mult_self2)
  also have "\<dots> = (int (mp_val a) - int (mp_val b)) mod int ?M"
    by (simp only: of_nat_mod mod_diff_eq)
  finally show ?thesis
    using r lt by (simp add: mp_sub_into_def mp_add_masked_into_def)
qed

lemma mp_cmp_hs_val: "mp_cmp_hs (a :: 'w::len mp_int) b = (if mp_val b \<le> mp_val a then 1 else 0)"
proof -
  let ?n = "max (length a) (length b)"
  let ?M = "2 ^ (LENGTH('w) * ?n) :: nat"
  obtain out c where r: "add_words a b (- 1) (- 1) 0 ?n 1 = (out, c)" by fastforce
  have "length out = ?n" using length_add_words [of a b "- 1" "- 1" 0 ?n 1] r by simp
  then have out: "mp_val out < ?M" using mp_val_bound [of out] by simp
  have big: "mp_val x < ?M" if "length x \<le> ?n" for x :: "'w mp_int"
  proof -
    have "(2::nat) ^ (LENGTH('w) * length x) \<le> ?M" using that by (intro power_increasing) auto
    then show ?thesis using mp_val_bound [of x] by (rule order.strict_trans2 [rotated])
  qed
  have eq: "mp_val out + ?M * unat c + mp_val b = mp_val a + ?M"
    using sub_words_val [OF r] big [of a] big [of b] by simp
  have "unat c \<le> 1" using add_words_carry [OF r] by simp
  then consider "c = 0" | "c = 1" by (metis One_nat_def le_SucE le_zero_eq unat_1 unat_eq_zero word_unat_eq_iff)
  then have "c = (if mp_val b \<le> mp_val a then 1 else 0)"
  proof cases
    case 1
    then show ?thesis using eq out by auto
  next
    case 2
    then show ?thesis using eq by auto
  qed
  then show ?thesis using r by (simp add: mp_cmp_hs_def mp_add_masked_into_def)
qed


section \<open>Multiplication, by value\<close>

lemma digit_mod:
  fixes d B M x :: nat
  assumes "d < B"
  shows "d + B * (x mod M) = (d + B * x) mod (B * M)"
proof (cases "M = 0")
  case False
  have "d + B * (x mod M) < B * M"
  proof -
    have "x mod M + 1 \<le> M" using False by (simp add: Suc_leI)
    then have "B * (x mod M + 1) \<le> B * M" by (intro mult_le_mono2)
    then show ?thesis using assms by simp
  qed
  moreover have "d + B * x = d + B * (x mod M) + (B * M) * (x div M)"
  proof -
    have "B * x = B * (x mod M + M * (x div M))" by simp
    then show ?thesis by (simp only: add_mult_distrib2 ac_simps)
  qed
  ultimately show ?thesis by (simp only: mod_mult_self2 mod_less)
qed simp

lemma mod_sum3: "((a + x) mod R + y) mod R = (a + x mod R + y mod R) mod R" for R :: nat
proof -
  have "(a + x mod R + y mod R) mod R = ((a + x mod R) mod R + y) mod R"
    by (simp only: mod_add_left_eq mod_add_right_eq [of "a + x mod R" y R])
  also have "(a + x mod R) mod R = (a + x) mod R" by (rule mod_add_right_eq)
  finally show ?thesis by simp
qed

lemma mod_sum3_mult: "(a + (d * u) mod R + (d * v) mod R) mod R = (a + d * (u + v)) mod R" for R :: nat
proof -
  have "(a + (d * u) mod R + (d * v) mod R) mod R = ((a + d * u) mod R + d * v) mod R" by (rule mod_sum3 [symmetric])
  also have "\<dots> = (a + d * u + d * v) mod R" by (rule mod_add_left_eq)
  finally show ?thesis by (simp only: add_mult_distrib2 add.assoc)
qed

lemma length_add_carry [simp]: "length (add_carry c rs) = length rs"
  by (induction rs arbitrary: c) (auto simp: case_prod_unfold Let_def)

lemma add_carry_val:
  "mp_val (add_carry c rs :: 'w::len mp_int) = (mp_val rs + unat c) mod 2 ^ (LENGTH('w) * length rs)"
proof (induction rs arbitrary: c)
  case (Cons r rs)
  obtain w c1 where adc: "BignumADC c r 0 = (w, c1)" by fastforce
  have "mp_val (add_carry c (r # rs)) = unat w + 2 ^ LENGTH('w) * ((mp_val rs + unat c1) mod 2 ^ (LENGTH('w) * length rs))"
    using adc Cons.IH by simp
  also have "\<dots> = (unat w + 2 ^ LENGTH('w) * (mp_val rs + unat c1)) mod (2 ^ LENGTH('w) * 2 ^ (LENGTH('w) * length rs))"
    by (rule digit_mod) simp
  also have "unat w + 2 ^ LENGTH('w) * (mp_val rs + unat c1) = mp_val (r # rs) + unat c"
    using BignumADC_val [OF adc] by (simp add: algebra_simps)
  finally show ?case by (simp add: power_add)
qed simp

lemma length_muladd_word [simp]: "length (muladd_word a bs c rs) = length rs"
proof (induction bs arbitrary: c rs)
  case (Cons b bs)
  then show ?case by (cases rs) (auto simp: case_prod_unfold Let_def)
qed simp

lemma muladd_word_val:
  "mp_val (muladd_word a bs c rs :: 'w::len mp_int) =
     (mp_val rs + unat a * mp_val bs + unat c) mod 2 ^ (LENGTH('w) * length rs)"
proof (induction a bs c rs rule: muladd_word.induct)
  case (1 a c rs)
  then show ?case by (simp add: add_carry_val)
next
  case (2 a b bs c)
  then show ?case by simp
next
  case (3 a b bs c r rs)
  obtain c1 w where mul: "BignumMULADD2 a b r c = (c1, w)" by fastforce
  let ?B = "2 ^ LENGTH('w) :: nat"
  have "mp_val (muladd_word a (b # bs) c (r # rs)) =
      unat w + ?B * ((mp_val rs + unat a * mp_val bs + unat c1) mod 2 ^ (LENGTH('w) * length rs))"
    using "3.IH" [OF mul [symmetric]] mul by simp
  also have "\<dots> = (unat w + ?B * (mp_val rs + unat a * mp_val bs + unat c1)) mod (?B * 2 ^ (LENGTH('w) * length rs))"
    by (rule digit_mod) simp
  also have "unat w + ?B * (mp_val rs + unat a * mp_val bs + unat c1) =
      mp_val (r # rs) + unat a * mp_val (b # bs) + unat c"
    using BignumMULADD2_val [OF mul] by (simp add: algebra_simps)
  finally show ?case by (simp add: power_add)
qed

lemma mul_add_simple_val:
  "length (mp_mul_add_simple r as bs) = length r \<and>
   mp_val (mp_mul_add_simple r as bs :: 'w::len mp_int) =
     (mp_val r + mp_val as * mp_val bs) mod 2 ^ (LENGTH('w) * length r)"
proof (induction r as bs rule: mp_mul_add_simple.induct)
  case (1 r b)
  then show ?case using mp_val_bound [of r] by simp
next
  case (2 a as b)
  then show ?case by simp
next
  case (3 r rs a as b)
  let ?B = "2 ^ LENGTH('w) :: nat"
  have "length (muladd_word a b 0 (r # rs)) = Suc (length rs)" by simp
  then obtain r' rs' where m: "muladd_word a b 0 (r # rs) = r' # rs'" "length rs' = length rs"
    by (cases "muladd_word a b 0 (r # rs)") auto
  have ih: "length (mp_mul_add_simple rs' as b) = length rs"
      "mp_val (mp_mul_add_simple rs' as b) = (mp_val rs' + mp_val as * mp_val b) mod 2 ^ (LENGTH('w) * length rs)"
    using "3.IH" [OF m(1)] m(2) by auto
  have "mp_val (mp_mul_add_simple (r # rs) (a # as) b) =
      unat r' + ?B * ((mp_val rs' + mp_val as * mp_val b) mod 2 ^ (LENGTH('w) * length rs))"
    using m ih by simp
  also have "\<dots> = (unat r' + ?B * (mp_val rs' + mp_val as * mp_val b)) mod (?B * 2 ^ (LENGTH('w) * length rs))"
    by (rule digit_mod) simp
  also have "\<dots> = (mp_val (r' # rs') + ?B * (mp_val as * mp_val b)) mod (?B * 2 ^ (LENGTH('w) * length rs))"
    by (simp add: algebra_simps)
  also have "mp_val (r' # rs') = (mp_val (r # rs) + unat a * mp_val b) mod (?B * 2 ^ (LENGTH('w) * length rs))"
    using muladd_word_val [of a b 0 "r # rs"] m by (simp add: power_add)
  finally have "mp_val (mp_mul_add_simple (r # rs) (a # as) b) =
      (mp_val (r # rs) + unat a * mp_val b + ?B * (mp_val as * mp_val b)) mod (?B * 2 ^ (LENGTH('w) * length rs))"
    by (simp only: mod_add_left_eq)
  then show ?case using m ih by (simp add: power_add algebra_simps)
qed

lemma alias_take: "mp_make_alias x 0 n = take n x"
  by (simp add: mp_make_alias_def min_def)

lemma alias_drop: "length x \<le> n \<Longrightarrow> mp_make_alias x i n = drop i x"
  by (auto simp: mp_make_alias_def min_def Let_def)

lemma alias_val: "mp_val (mp_make_alias x i n :: 'w::len mp_int) =
    mp_val x div 2 ^ (LENGTH('w) * i) mod 2 ^ (LENGTH('w) * n)"
proof -
  have "mp_make_alias x i n = take n (drop i x)"
    by (auto simp: mp_make_alias_def Let_def min_def)
  then show ?thesis by (simp add: mp_val_take mp_val_drop)
qed

text \<open>Adding to the words from \<open>offset\<close> on adds a shifted number.\<close>

lemma add_at_val:
  assumes "k \<le> length r"
  shows "mp_val (put_at k r (mp_add_into (length r - k) (drop k r) s) :: 'w::len mp_int) =
    (mp_val r + 2 ^ (LENGTH('w) * k) * mp_val s) mod 2 ^ (LENGTH('w) * length r)"
proof -
  let ?D = "2 ^ (LENGTH('w) * k) :: nat" and ?M = "2 ^ (LENGTH('w) * (length r - k)) :: nat"
  have DM: "?D * ?M = 2 ^ (LENGTH('w) * length r)"
    using assms by (simp flip: power_add add_mult_distrib2)
  have r: "mp_val r = mp_val (take k r) + ?D * mp_val (drop k r)"
    using mp_val_append [of "take k r" "drop k r"] assms by simp
  have lt: "mp_val (take k r) < ?D" using mp_val_bound [of "take k r"] assms by simp
  have "mp_val (put_at k r (mp_add_into (length r - k) (drop k r) s)) =
      mp_val (take k r) + ?D * ((mp_val (drop k r) + mp_val s) mod ?M)"
    using assms by (simp add: put_at_def mp_val_append mp_add_into_val)
  also have "\<dots> = (mp_val (take k r) + ?D * (mp_val (drop k r) + mp_val s)) mod (?D * ?M)"
    by (rule digit_mod [OF lt])
  also have "mp_val (take k r) + ?D * (mp_val (drop k r) + mp_val s) = mp_val r + ?D * mp_val s"
    using r by (simp add: algebra_simps)
  finally show ?thesis by (simp only: DM)
qed

lemma length_put_at [simp]: "k \<le> length r \<Longrightarrow> length x = length r - k \<Longrightarrow> length (put_at k r x) = length r"
  by (simp add: put_at_def)

lemma drop_put_at [simp]: "k \<le> length r \<Longrightarrow> drop k (put_at k r x) = x"
  by (simp add: put_at_def)

lemma put_put [simp]: "k \<le> length r \<Longrightarrow> put_at k (put_at k r x) y = put_at k r y"
  by (simp add: put_at_def)

lemma mp_sub_exact:
  assumes "mp_val b \<le> mp_val a" "mp_val a < 2 ^ (LENGTH('w) * n)"
  shows "mp_val (mp_sub_into n a b :: 'w::len mp_int) = mp_val a - mp_val b"
proof -
  have "int (mp_val a - mp_val b) < int (2 ^ (LENGTH('w) * n))"
    using assms(2) by (simp only: of_nat_less_iff)
  then have "(int (mp_val a) - int (mp_val b)) mod 2 ^ (LENGTH('w) * n) = int (mp_val a - mp_val b)"
    using assms(1) by (simp add: of_nat_diff)
  then have "int (mp_val (mp_sub_into n a b :: 'w mp_int)) = int (mp_val a - mp_val b)"
    by (simp only: mp_sub_into_val)
  then show ?thesis by (simp only: of_nat_eq_iff)
qed


text \<open>The two halves of an input give back the words that matter.\<close>

lemma halves_val:
  assumes "k + m = n"
  shows "mp_val (mp_make_alias x 0 k) + 2 ^ (LENGTH('w) * k) * mp_val (mp_make_alias x k m) =
    mp_val (take n x :: 'w::len mp_int)"
proof -
  let ?K = "2 ^ (LENGTH('w) * k) :: nat" and ?M = "2 ^ (LENGTH('w) * m) :: nat"
  have "mp_val (take n x) = mp_val x mod (?K * ?M)"
    using assms by (simp add: mp_val_take flip: power_add add_mult_distrib2)
  also have "\<dots> = ?K * (mp_val x div ?K mod ?M) + mp_val x mod ?K" by (rule mod_mult2_eq)
  finally show ?thesis by (simp add: alias_val)
qed

lemma take_product:
  fixes a b :: "'w::len mp_int"
  assumes "n = min rw (max (length a) (length b))"
  shows "(mp_val (take n a) * mp_val (take n b)) mod 2 ^ (LENGTH('w) * rw) =
    (mp_val a * mp_val b) mod 2 ^ (LENGTH('w) * rw)"
proof (cases "n = rw")
  case True
  then show ?thesis by (simp add: mp_val_take mod_mult_eq)
next
  case False
  then have "take n a = a" "take n b = b" using assms by (auto simp: min_def split: if_splits)
  then show ?thesis by simp
qed

text \<open>
  The recursion is right and its claim on the scratch space is: six words for every word of
  the longer input suffice at every depth.
\<close>

definition mul_post :: "nat \<Rightarrow> 'w::len mp_int \<Rightarrow> 'w mp_int \<Rightarrow> nat \<Rightarrow> bool" where
  "mul_post rw a b scratch \<longleftrightarrow> (\<exists>r. mp_mul_internal rw a b scratch = Some r \<and> length r = rw \<and>
     mp_val r = (mp_val a * mp_val b) mod 2 ^ (LENGTH('w) * rw))"

lemma mul_mod_exact: "x < 2 ^ (LENGTH('w::len) * n) \<Longrightarrow> n \<le> m \<Longrightarrow> x mod 2 ^ (LENGTH('w) * m) = (x :: nat)"
proof -
  assume "x < 2 ^ (LENGTH('w) * n)" "n \<le> m"
  moreover have "(2::nat) ^ (LENGTH('w) * n) \<le> 2 ^ (LENGTH('w) * m)" if "n \<le> m"
    using that by (intro power_increasing) auto
  ultimately show ?thesis by (meson mod_less order.strict_trans2)
qed

lemma product_bound:
  fixes a b :: "'w::len mp_int"
  shows "mp_val a * mp_val b < 2 ^ (LENGTH('w) * (length a + length b))"
  using mult_strict_mono' [OF mp_val_bound [of a] mp_val_bound [of b]]
  by (simp add: power_add add_mult_distrib2)

lemma outer_val:
  fixes r0 r2 :: "'w::len mp_int" and k rw p q :: nat
  assumes "length r0 = min (k * 2) rw" "length r2 = rw - min (k * 2) rw"
    and "mp_val r0 = p mod 2 ^ (LENGTH('w) * min (k * 2) rw)"
    and "mp_val r2 = q mod 2 ^ (LENGTH('w) * (rw - min (k * 2) rw))"
    and "p < 2 ^ (LENGTH('w) * (k * 2))"
  shows "mp_val (r0 @ r2) mod 2 ^ (LENGTH('w) * rw) =
    (p + 2 ^ (LENGTH('w) * (k * 2)) * q) mod 2 ^ (LENGTH('w) * rw)"
proof (cases "k * 2 \<le> rw")
  case True
  let ?D = "2 ^ (LENGTH('w) * (k * 2)) :: nat" and ?M = "2 ^ (LENGTH('w) * (rw - k * 2)) :: nat"
  have DM: "?D * ?M = 2 ^ (LENGTH('w) * rw)" using True by (simp flip: power_add add_mult_distrib2)
  have m: "min (k * 2) rw = k * 2" using True by simp
  have "mp_val (r0 @ r2) = p + ?D * (q mod ?M)"
    using assms unfolding m by (simp add: mp_val_append)
  also have "\<dots> = (p + ?D * q) mod (?D * ?M)" by (rule digit_mod [OF assms(5)])
  finally show ?thesis by (simp only: DM mod_mod_trivial)
next
  case False
  then have m: "min (k * 2) rw = rw" by simp
  have "(2::nat) ^ (LENGTH('w) * rw) dvd 2 ^ (LENGTH('w) * (k * 2)) * q"
    using False by (intro dvd_mult2 le_imp_power_dvd) simp
  then have "(p + 2 ^ (LENGTH('w) * (k * 2)) * q) mod 2 ^ (LENGTH('w) * rw) = p mod 2 ^ (LENGTH('w) * rw)"
    by (metis dvdE mod_mult_self2)
  then show ?thesis using assms unfolding m by (simp add: mp_val_append)
qed

text \<open>The two ways to add in the middle term.\<close>

lemma shift_cut:
  fixes k l sw n w :: nat
  assumes "k \<le> l" "sw = min n (l - k)" "w < 2 ^ (LENGTH('w::len) * n)"
  shows "(2 ^ (LENGTH('w) * k) * (w mod 2 ^ (LENGTH('w) * sw))) mod 2 ^ (LENGTH('w) * l) =
    (2 ^ (LENGTH('w) * k) * w) mod 2 ^ (LENGTH('w) * l)"
proof (cases "sw = n")
  case True
  then show ?thesis using assms(3) by simp
next
  case False
  then have "sw = l - k" using assms(2) by auto
  then have DM: "2 ^ (LENGTH('w) * k) * 2 ^ (LENGTH('w) * sw) = (2 ^ (LENGTH('w) * l) :: nat)"
    using assms(1) by (simp flip: power_add add_mult_distrib2)
  have "2 ^ (LENGTH('w) * k) * (w mod 2 ^ (LENGTH('w) * sw)) =
      (2 ^ (LENGTH('w) * k) * w) mod (2 ^ (LENGTH('w) * k) * 2 ^ (LENGTH('w) * sw))"
    by (rule mult_mod_right)
  then show ?thesis by (simp only: DM mod_mod_trivial)
qed

lemma middle_by_parts:
  fixes r s t :: "'w::len mp_int"
  assumes "k \<le> length r"
    and "mp_val s = u mod 2 ^ (LENGTH('w) * sw)" "mp_val t = v mod 2 ^ (LENGTH('w) * sw)"
    and "sw = min n (length r - k)" "u < 2 ^ (LENGTH('w) * n)" "v < 2 ^ (LENGTH('w) * n)"
  shows "mp_val (put_at k r (mp_add_into (length r - k) (mp_add_into (length r - k) (drop k r) s) t)) =
    (mp_val r + 2 ^ (LENGTH('w) * k) * (u + v)) mod 2 ^ (LENGTH('w) * length r)"
proof -
  define D R where "D = (2 ^ (LENGTH('w) * k) :: nat)" and "R = (2 ^ (LENGTH('w) * length r) :: nat)"
  have su: "(D * mp_val s) mod R = (D * u) mod R" and tv: "(D * mp_val t) mod R = (D * v) mod R"
    using shift_cut [OF assms(1,4,5)] shift_cut [OF assms(1,4,6)] assms(2,3) by (simp_all add: D_def R_def)
  define r' where "r' = put_at k r (mp_add_into (length r - k) (drop k r) s)"
  have len: "length r' = length r" and drop: "drop k r' = mp_add_into (length r - k) (drop k r) s"
    using assms(1) by (simp_all add: r'_def)
  have r': "mp_val r' = (mp_val r + D * mp_val s) mod R"
    unfolding r'_def D_def R_def by (rule add_at_val [OF assms(1)])
  have "put_at k r (mp_add_into (length r - k) (mp_add_into (length r - k) (drop k r) s) t) =
      put_at k r' (mp_add_into (length r' - k) (drop k r') t)"
    unfolding len drop by (simp add: r'_def assms(1))
  moreover have "mp_val (put_at k r' (mp_add_into (length r' - k) (drop k r') t)) = (mp_val r' + D * mp_val t) mod R"
    using add_at_val [of k r' t] assms(1) len by (simp add: D_def R_def)
  moreover have "(mp_val r' + D * mp_val t) mod R = (mp_val r + D * (u + v)) mod R"
    unfolding r' mod_sum3 su tv by (rule mod_sum3_mult)
  ultimately show ?thesis by (simp only: D_def R_def)
qed


lemma cross_terms:
  fixes a0 a1 b0 b1 D :: nat
  shows "(a0 + D * a1) * (b0 + D * b1) = (a0 * b0 + (D * D) * (a1 * b1)) + D * (a0 * b1 + a1 * b0)"
    and "(a0 + a1) * (b0 + b1) - a0 * b0 - a1 * b1 = a0 * b1 + a1 * b0"
    and "a0 * b0 \<le> (a0 + a1) * (b0 + b1)" "a1 * b1 \<le> (a0 + a1) * (b0 + b1) - a0 * b0"
  by (simp_all add: algebra_simps)

lemma mp_add_exact:
  assumes "length a \<le> n" "length b \<le> n"
  shows "mp_val (mp_add_into (n + 1) a b :: 'w::len mp_int) = mp_val a + mp_val b"
proof -
  have le: "(2::nat) ^ (LENGTH('w) * length x) \<le> 2 ^ (LENGTH('w) * n)" if "length x \<le> n" for x :: "'w mp_int"
    using that by (intro power_increasing) auto
  have "mp_val a < 2 ^ (LENGTH('w) * n)" "mp_val b < 2 ^ (LENGTH('w) * n)"
    using mp_val_bound [of a] le [OF assms(1)] mp_val_bound [of b] le [OF assms(2)] by linarith+
  moreover have "2 * 2 ^ (LENGTH('w) * n) \<le> (2::nat) ^ (LENGTH('w) * (n + 1))"
  proof -
    have "(2::nat) ^ (LENGTH('w) * n + 1) \<le> 2 ^ (LENGTH('w) * (n + 1))"
      by (intro power_increasing) (simp_all add: Suc_leI)
    then show ?thesis by simp
  qed
  ultimately have "mp_val a + mp_val b < 2 ^ (LENGTH('w) * (n + 1))" by linarith
  then show ?thesis by (simp only: mp_add_into_val mod_less)
qed

lemma mul_run_simple:
  assumes "n = min rw (max (length a) (length b))" "scratch \<ge> mp_mul_scratchspace_unary n"
    and "n < KARATSUBA_THRESHOLD \<or> length a = 0 \<or> length b = 0"
  shows "mp_mul_internal rw a b scratch = Some (mp_mul_add_simple (replicate rw 0) a b)"
proof -
  have "\<not> \<not> scratch \<ge> mp_mul_scratchspace_unary n" using assms(2) by simp
  then show ?thesis
    unfolding mp_mul_internal.simps [of rw a b scratch] Let_def assms(1) [symmetric]
    using assms(3) by (simp only: if_False if_True)
qed

text \<open>The two runs of the recursive case.\<close>

lemma mul_run_head:
  assumes "n = min rw (max (length a) (length b))" "scratch \<ge> mp_mul_scratchspace_unary n"
    and "\<not> (n < KARATSUBA_THRESHOLD \<or> length a = 0 \<or> length b = 0)"
    and "hi = n div 2" "lo = n - hi" "a0 = mp_make_alias a 0 lo" "b0 = mp_make_alias b 0 lo"
    and "a1 = mp_make_alias a lo hi" "b1 = mp_make_alias b lo hi"
    and "mp_mul_internal (min (lo * 2) rw) a0 b0 scratch = Some r0"
    and "mp_mul_internal (rw - min (lo * 2) rw) a1 b1 scratch = Some r2"
    and "r = r0 @ r2" "r1 = mp_make_alias r lo rw"
  shows "mp_mul_internal rw a b scratch =
    (if rw < n * 2 then
       let sw = min (lo + hi) (length r1) in
       Option.bind (mp_alloc_from_scratch scratch sw) (\<lambda>scratch.
       Option.bind (mp_mul_internal sw a0 b1 scratch) (\<lambda>s.
       let r1 = mp_add_into (length r1) r1 s in
       Option.bind (mp_mul_internal sw a1 b0 scratch) (\<lambda>s.
       let r1 = mp_add_into (length r1) r1 s in
       Some (put_at lo r r1))))
     else
       Option.bind (mp_alloc_from_scratch scratch (lo + 1)) (\<lambda>scratch.
       Option.bind (mp_alloc_from_scratch scratch (lo + 1)) (\<lambda>scratch.
       let asum = mp_add_into (lo + 1) a0 a1; bsum = mp_add_into (lo + 1) b0 b1 in
       Option.bind (mp_alloc_from_scratch scratch (lo * 2 + 1)) (\<lambda>scratch.
       Option.bind (mp_mul_internal (lo * 2 + 1) asum bsum scratch) (\<lambda>product.
       let product = mp_sub_into (lo * 2 + 1) product r0;
           product = mp_sub_into (lo * 2 + 1) product r2;
           r1 = mp_add_into (length r1) r1 product
       in Some (put_at lo r r1))))))"
proof -
  have "\<not> \<not> scratch \<ge> mp_mul_scratchspace_unary n" using assms(2) by simp
  then show ?thesis
    unfolding mp_mul_internal.simps [of rw a b scratch] Let_def assms(1) [symmetric] assms(4) [symmetric]
      assms(5) [symmetric] assms(6-9) [symmetric] assms(10,11) Option.bind.bind_lunit assms(12,13) [symmetric]
    using assms(3) by (simp only: if_False)
qed

lemma mul_run_short:
  assumes "rw < n * 2" "sw = min (lo + hi) (length r1)" "mp_alloc_from_scratch scratch sw = Some sc"
    and "mp_mul_internal sw a0 b1 sc = Some s" "mp_mul_internal sw a1 b0 sc = Some t"
  shows "(if rw < n * 2 then
       let sw = min (lo + hi) (length r1) in
       Option.bind (mp_alloc_from_scratch scratch sw) (\<lambda>scratch.
       Option.bind (mp_mul_internal sw a0 b1 scratch) (\<lambda>s.
       let r1 = mp_add_into (length r1) r1 s in
       Option.bind (mp_mul_internal sw a1 b0 scratch) (\<lambda>s.
       let r1 = mp_add_into (length r1) r1 s in
       Some (put_at lo r r1)))) else X) =
    Some (put_at lo r (mp_add_into (length r1) (mp_add_into (length r1) r1 s) t))"
  unfolding Let_def assms(2) [symmetric] assms(3-5) Option.bind.bind_lunit
  using assms(1) by (simp only: if_True length_add_into)

lemma mul_run_full:
  assumes "\<not> rw < n * 2" "mp_alloc_from_scratch scratch (lo + 1) = Some s1"
    and "mp_alloc_from_scratch s1 (lo + 1) = Some s2" "mp_alloc_from_scratch s2 (lo * 2 + 1) = Some s3"
    and "mp_mul_internal (lo * 2 + 1) (mp_add_into (lo + 1) a0 a1) (mp_add_into (lo + 1) b0 b1) s3 = Some pr"
  shows "(if rw < n * 2 then X else
       Option.bind (mp_alloc_from_scratch scratch (lo + 1)) (\<lambda>scratch.
       Option.bind (mp_alloc_from_scratch scratch (lo + 1)) (\<lambda>scratch.
       let asum = mp_add_into (lo + 1) a0 a1; bsum = mp_add_into (lo + 1) b0 b1 in
       Option.bind (mp_alloc_from_scratch scratch (lo * 2 + 1)) (\<lambda>scratch.
       Option.bind (mp_mul_internal (lo * 2 + 1) asum bsum scratch) (\<lambda>product.
       let product = mp_sub_into (lo * 2 + 1) product r0;
           product = mp_sub_into (lo * 2 + 1) product r2;
           r1 = mp_add_into (length r1) r1 product
       in Some (put_at lo r r1)))))) =
    Some (put_at lo r (mp_add_into (length r1) r1
      (mp_sub_into (lo * 2 + 1) (mp_sub_into (lo * 2 + 1) pr r0) r2)))"
  unfolding Let_def assms(2-5) Option.bind.bind_lunit
  using assms(1) by (simp only: if_False)

lemma sum_product_bound:
  fixes a c b d :: "'w::len mp_int"
  assumes "2 \<le> LENGTH('w)" "length a \<le> k" "length c \<le> k" "length b \<le> k" "length d \<le> k"
  shows "(mp_val a + mp_val c) * (mp_val b + mp_val d) < 2 ^ (LENGTH('w) * (k * 2 + 1))"
proof -
  have lt: "mp_val x < 2 ^ (LENGTH('w) * k)" if "length x \<le> k" for x :: "'w mp_int"
  proof -
    have "(2::nat) ^ (LENGTH('w) * length x) \<le> 2 ^ (LENGTH('w) * k)"
      using that by (intro power_increasing) auto
    then show ?thesis using mp_val_bound [of x] by linarith
  qed
  define K where "K = (2::nat) ^ (LENGTH('w) * k)"
  have "mp_val a + mp_val c < 2 * K" "mp_val b + mp_val d < 2 * K"
    using lt [OF assms(2)] lt [OF assms(3)] lt [OF assms(4)] lt [OF assms(5)] unfolding K_def by linarith+
  then have "(mp_val a + mp_val c) * (mp_val b + mp_val d) < (2 * K) * (2 * K)"
    by (intro mult_strict_mono') auto
  also have "(2 * K) * (2 * K) = 2 ^ 2 * (K * K)" by simp
  also have "\<dots> \<le> 2 ^ LENGTH('w) * (K * K)"
    using assms(1) by (intro mult_le_mono1 power_increasing) auto
  also have "\<dots> = 2 ^ (LENGTH('w) * (k * 2 + 1))"
    by (simp add: K_def power_add mult_2_right add_mult_distrib2)
  finally show ?thesis .
qed

lemma mul_internal_ok:
  fixes a :: "'w::len mp_int"
  assumes width: "2 \<le> LENGTH('w)"
  shows "6 * min rw (max (length a) (length b)) \<le> scratch \<Longrightarrow> mul_post rw a b scratch"
proof (induction "min rw (max (length a) (length b))" arbitrary: rw a b scratch rule: less_induct)
  case less
  define n where "n = min rw (max (length a) (length b))"
  have sc: "scratch \<ge> mp_mul_scratchspace_unary n"
    using less.prems by (simp add: mp_mul_scratchspace_unary_def n_def)
  show ?case
  proof (cases "n < KARATSUBA_THRESHOLD \<or> length a = 0 \<or> length b = 0")
    case True
    from mul_run_simple [OF n_def sc this] show ?thesis using mul_add_simple_val [of "replicate rw 0" a b] by (simp add: mul_post_def)
  next
    case False
    define hi lo where "hi = n div 2" and "lo = n - hi"
    define a0 b0 a1 b1 where parts: "a0 = mp_make_alias a 0 lo" "b0 = mp_make_alias b 0 lo"
      "a1 = mp_make_alias a lo hi" "b1 = mp_make_alias b lo hi"
    have n24: "24 \<le> n" using False by (simp add: KARATSUBA_THRESHOLD_def)
    have half: "2 * hi \<le> n" "n \<le> 2 * hi + 1" unfolding hi_def by linarith+
    moreover have sum: "lo + hi = n" using half(1) by (simp add: lo_def)
    ultimately have tb: "hi \<le> lo" "lo + hi = n" "lo + 1 < n" "10 * lo + 9 \<le> 6 * n"
      using n24 by linarith+
    have nrw: "n \<le> rw" "6 * n \<le> scratch" using less.prems by (simp_all add: n_def)
    have lens: "length a0 \<le> lo" "length b0 \<le> lo" "length a1 \<le> hi" "length b1 \<le> hi"
      by (simp_all add: parts)
    have rec: "mul_post rw' x y s" if "length x \<le> m" "length y \<le> m" "m < n" "6 * m \<le> s"
      for rw' m s and x y :: "'w mp_int"
    proof -
      have "min rw' (max (length x) (length y)) \<le> m" using that(1,2) by simp
      then show ?thesis using less.hyps [of rw' x y s] that(3,4) by (simp add: n_def)
    qed
    obtain r0 where r0: "mp_mul_internal (min (lo * 2) rw) a0 b0 scratch = Some r0" "length r0 = min (lo * 2) rw"
        "mp_val r0 = (mp_val a0 * mp_val b0) mod 2 ^ (LENGTH('w) * min (lo * 2) rw)"
      using rec [of a0 lo b0 scratch "min (lo * 2) rw"] lens tb nrw by (auto simp: mul_post_def)
    obtain r2 where r2: "mp_mul_internal (rw - min (lo * 2) rw) a1 b1 scratch = Some r2"
        "length r2 = rw - min (lo * 2) rw"
        "mp_val r2 = (mp_val a1 * mp_val b1) mod 2 ^ (LENGTH('w) * (rw - min (lo * 2) rw))"
      using rec [of a1 hi b1 scratch "rw - min (lo * 2) rw"] lens tb nrw by (auto simp: mul_post_def)
    define r where "r = r0 @ r2"
    have lr: "length r = rw" using r0(2) r2(2) by (simp add: r_def)
    have al: "mp_make_alias r lo rw = drop lo r" by (rule alias_drop) (simp add: lr)
    have bl: "lo \<le> length r" "length (drop lo r) = rw - lo" using tb nrw lr by simp_all
    note head = mul_run_head [OF n_def sc False hi_def lo_def parts r0(1) r2(1) r_def refl, unfolded al]
    define D R where "D = (2 ^ (LENGTH('w) * lo) :: nat)" and "R = (2 ^ (LENGTH('w) * rw) :: nat)"
    have DD: "2 ^ (LENGTH('w) * (lo * 2)) = D * D" by (simp add: D_def power_add mult_2_right add_mult_distrib2)
    have prod_lt: "mp_val x * mp_val y < 2 ^ (LENGTH('w) * m)"
      if "length x + length y \<le> m" for x y :: "'w mp_int" and m
    proof -
      have "(2::nat) ^ (LENGTH('w) * (length x + length y)) \<le> 2 ^ (LENGTH('w) * m)"
        using that by (intro power_increasing) auto
      then show ?thesis using product_bound [of x y] by linarith
    qed
    have "mp_val a0 * mp_val b0 < 2 ^ (LENGTH('w) * (lo * 2))" by (rule prod_lt) (use lens in simp)
    from outer_val [OF r0(2) r2(2) r0(3) r2(3) this]
    have vr: "mp_val r mod R = (mp_val a0 * mp_val b0 + D * D * (mp_val a1 * mp_val b1)) mod R"
      unfolding r_def R_def DD .
    have target: "(mp_val r + D * (mp_val a0 * mp_val b1 + mp_val a1 * mp_val b0)) mod R =
        (mp_val a * mp_val b) mod R"
    proof -
      have h: "mp_val (take n a) = mp_val a0 + D * mp_val a1" "mp_val (take n b) = mp_val b0 + D * mp_val b1"
        using halves_val [OF tb(2), of a] halves_val [OF tb(2), of b] by (simp_all add: parts D_def)
      have "(mp_val r + D * (mp_val a0 * mp_val b1 + mp_val a1 * mp_val b0)) mod R =
          (mp_val r mod R + D * (mp_val a0 * mp_val b1 + mp_val a1 * mp_val b0)) mod R"
        by (rule mod_add_left_eq [symmetric])
      also have "\<dots> = (mp_val (take n a) * mp_val (take n b)) mod R"
        unfolding vr h mod_add_left_eq cross_terms(1) ..
      also have "\<dots> = (mp_val a * mp_val b) mod R"
        unfolding R_def by (rule take_product [OF n_def])
      finally show ?thesis .
    qed
    show ?thesis
    proof (cases "rw < n * 2")
      case True
      define sw where "sw = min (lo + hi) (length (drop lo r))"
      have sw: "sw \<le> n" "sw = min n (length r - lo)" using tb bl by (simp_all add: sw_def lr)
      then have alloc: "mp_alloc_from_scratch scratch sw = Some (scratch - sw)"
        using nrw by (simp add: mp_alloc_from_scratch_def)
      have room: "6 * lo \<le> scratch - sw" using sw(1) nrw tb by linarith
      obtain s where s: "mp_mul_internal sw a0 b1 (scratch - sw) = Some s" "length s = sw"
          "mp_val s = (mp_val a0 * mp_val b1) mod 2 ^ (LENGTH('w) * sw)"
        using rec [of a0 lo b1 "scratch - sw" sw] lens tb room by (auto simp: mul_post_def)
      obtain t where t: "mp_mul_internal sw a1 b0 (scratch - sw) = Some t" "length t = sw"
          "mp_val t = (mp_val a1 * mp_val b0) mod 2 ^ (LENGTH('w) * sw)"
        using rec [of a1 lo b0 "scratch - sw" sw] lens tb room by (auto simp: mul_post_def)
      define out where "out = put_at lo r
        (mp_add_into (length r - lo) (mp_add_into (length r - lo) (drop lo r) s) t)"
      have "mp_mul_internal rw a b scratch = Some out"
        using trans [OF head mul_run_short [OF True sw_def alloc s(1) t(1)]] by (simp only: out_def bl(2) lr)
      moreover have "length out = rw" using bl lr by (simp add: out_def)
      moreover have "mp_val out = (mp_val r + D * (mp_val a0 * mp_val b1 + mp_val a1 * mp_val b0)) mod R"
        using middle_by_parts [OF bl(1) s(3) t(3) sw(2)] prod_lt [of a0 b1 n] prod_lt [of a1 b0 n] lens tb lr
        by (simp add: out_def D_def R_def)
      ultimately show ?thesis using target by (simp add: mul_post_def R_def)
    next
      case rw2: False
      have alloc1: "mp_alloc_from_scratch scratch (lo + 1) = Some (scratch - (lo + 1))"
        and alloc2: "mp_alloc_from_scratch (scratch - (lo + 1)) (lo + 1) = Some (scratch - (lo + 1) - (lo + 1))"
        and alloc3: "mp_alloc_from_scratch (scratch - (lo + 1) - (lo + 1)) (lo * 2 + 1) =
          Some (scratch - (lo + 1) - (lo + 1) - (lo * 2 + 1))"
        using nrw tb by (simp_all add: mp_alloc_from_scratch_def)
      define S where "S = scratch - (lo + 1) - (lo + 1) - (lo * 2 + 1)"
      have "6 * (lo + 1) + (lo + 1) + (lo + 1) + (lo * 2 + 1) = 10 * lo + 9" by simp
      then have "6 * (lo + 1) + (lo + 1) + (lo + 1) + (lo * 2 + 1) \<le> scratch"
        using le_trans [OF tb(4) nrw(2)] by (simp only:)
      then have room: "6 * (lo + 1) \<le> S" unfolding S_def by simp
      define asum bsum where sums: "asum = mp_add_into (lo + 1) a0 a1" "bsum = mp_add_into (lo + 1) b0 b1"
      have lsum: "length asum = lo + 1" "length bsum = lo + 1" by (simp_all add: sums)
      have vsum: "mp_val asum = mp_val a0 + mp_val a1" "mp_val bsum = mp_val b0 + mp_val b1"
        unfolding sums using lens tb by (simp_all only: mp_add_exact le_trans [OF _ tb(1)])
      obtain pr where pr: "mp_mul_internal (lo * 2 + 1) asum bsum S = Some pr" "length pr = lo * 2 + 1"
          "mp_val pr = (mp_val asum * mp_val bsum) mod 2 ^ (LENGTH('w) * (lo * 2 + 1))"
        using rec [of asum "lo + 1" bsum S "lo * 2 + 1"] lsum tb room by (auto simp: mul_post_def)
      define out where "out = put_at lo r (mp_add_into (length r - lo) (drop lo r)
        (mp_sub_into (lo * 2 + 1) (mp_sub_into (lo * 2 + 1) pr r0) r2))"
      have run: "mp_mul_internal rw a b scratch = Some out"
        using trans [OF head mul_run_full [OF rw2 alloc1 alloc2 alloc3 pr(1) [unfolded S_def sums]]]
        by (simp only: out_def bl(2) lr)
      have m: "min (lo * 2) rw = lo * 2" "2 * hi \<le> rw - lo * 2" using rw2 tb by simp_all
      have v0: "mp_val r0 = mp_val a0 * mp_val b0"
        using r0(3) prod_lt [of a0 b0 "lo * 2"] lens unfolding m(1) by simp
      have v2: "mp_val r2 = mp_val a1 * mp_val b1"
        using r2(3) prod_lt [of a1 b1 "rw - lo * 2"] lens m(2) unfolding m(1) by simp
      have vp: "mp_val pr = (mp_val a0 + mp_val a1) * (mp_val b0 + mp_val b1)"
      proof -
        have "mp_val asum * mp_val bsum < 2 ^ (LENGTH('w) * (lo * 2 + 1))" 
          unfolding vsum by (rule sum_product_bound) (use width lens tb in auto)
        then show ?thesis using pr(3) vsum by simp
      qed
      have pr_lt: "mp_val pr < 2 ^ (LENGTH('w) * (lo * 2 + 1))" using mp_val_bound [of pr] pr(2) by simp
      have s1: "mp_val (mp_sub_into (lo * 2 + 1) pr r0) = mp_val pr - mp_val r0"
        by (rule mp_sub_exact) (use v0 vp cross_terms(3) pr_lt in auto)
      have s2: "mp_val (mp_sub_into (lo * 2 + 1) (mp_sub_into (lo * 2 + 1) pr r0) r2) = mp_val pr - mp_val r0 - mp_val r2"
        using mp_sub_exact [of r2 "mp_sub_into (lo * 2 + 1) pr r0" "lo * 2 + 1"] s1 v0 v2 vp cross_terms(4) pr_lt
        by auto
      have "mp_val out = (mp_val r + D * (mp_val a0 * mp_val b1 + mp_val a1 * mp_val b0)) mod R"
        using add_at_val [OF bl(1), of "mp_sub_into (lo * 2 + 1) (mp_sub_into (lo * 2 + 1) pr r0) r2"]
        by (simp only: out_def s2 v0 v2 vp cross_terms(2) D_def R_def lr)
      moreover have "length out = rw" using bl lr by (simp add: out_def)
      ultimately show ?thesis using target run by (simp add: mul_post_def R_def)
    qed
  qed
qed

section \<open>Operands that are C integers\<close>

text \<open>Only the first word of the operand is ever used.\<close>

lemma add_integer_words_eq:
  assumes "8 \<le> LENGTH('w::len)" "x = 0 \<or> x = - 1"
  shows "add_integer_words (a :: 'w mp_int) b (- 1) x i n c = add_words a [ucast b] (- 1) x i n c"
proof (induction n arbitrary: i c)
  case (Suc n)
  have "i * LENGTH('w) < LENGTH('w) div 8 \<longleftrightarrow> i = 0"
  proof (cases i)
    case (Suc j)
    have "LENGTH('w) \<le> i * LENGTH('w)" unfolding Suc by simp
    moreover have "LENGTH('w) div 8 \<le> LENGTH('w)" by simp
    ultimately show ?thesis unfolding Suc by linarith
  qed (use assms in simp)
  then have "((if i * LENGTH('w) < LENGTH('w) div 8 then ucast (drop_bit (i * LENGTH('w)) b) else 0) XOR x) AND - 1 =
      (mp_word [ucast b] i AND - 1) XOR x"
    by (auto simp: mp_word_def)
  then show ?case by (simp add: Suc.IH Let_def split: prod.splits)
qed simp

lemma mp_add_integer_into_eq:
  "8 \<le> LENGTH('w::len) \<Longrightarrow> mp_add_integer_into n (a :: 'w mp_int) b = mp_add_into n a [ucast b]"
  "8 \<le> LENGTH('w::len) \<Longrightarrow> mp_sub_integer_into n (a :: 'w mp_int) b = mp_sub_into n a [ucast b]"
  by (simp_all add: mp_add_integer_into_def mp_sub_integer_into_def add_integer_words_eq mp_add_into_def
      mp_add_into_internal_def mp_sub_into_def mp_add_masked_into_def)

lemma unat_low_word: "unat (ucast (b :: 64 word) :: 'w::len word) = unat b mod 2 ^ LENGTH('w)"
  by (simp add: unsigned_ucast_eq take_bit_eq_mod)

lemma mul_integer_words_val:
  "mul_integer_words a m i n c = (out, c') \<Longrightarrow> length out = n \<and>
    mp_val (out :: 'w::len mp_int) + 2 ^ (LENGTH('w) * n) * unat c' = window (mp_word a) i n * unat m + unat c"
proof (induction n arbitrary: i c out c')
  case (Suc n)
  obtain c1 w where ma: "BignumMULADD (mp_word a i) m c = (c1, w)" by fastforce
  obtain ws c2 where rest: "mul_integer_words a m (Suc i) n c1 = (ws, c2)" by fastforce
  have out: "out = w # ws" "c' = c2" using Suc.prems ma rest by simp_all
  have "mp_val out + 2 ^ (LENGTH('w) * Suc n) * unat c' =
      unat w + 2 ^ LENGTH('w) * (mp_val ws + 2 ^ (LENGTH('w) * n) * unat c2)"
    using out by (simp add: power_add algebra_simps)
  also have "\<dots> = (unat w + 2 ^ LENGTH('w) * unat c1) + 2 ^ LENGTH('w) * (window (mp_word a) (Suc i) n * unat m)"
    using Suc.IH [OF rest] by (simp add: algebra_simps)
  finally show ?case using BignumMULADD_val [OF ma] out Suc.IH [OF rest] by (simp add: window_Suc algebra_simps)
qed simp

lemma mp_mul_integer_into_val:
  fixes a :: "'w::len mp_int" and k :: "16 word" and n :: nat
  assumes "16 \<le> LENGTH('w)"
  defines "p \<equiv> mp_val a mod 2 ^ (LENGTH('w) * n) * unat k"
  shows "mp_mul_integer_into n a k = None \<longleftrightarrow> 2 ^ (LENGTH('w) * n) \<le> p"
    and "mp_mul_integer_into n a k = Some r \<Longrightarrow> length r = n \<and> mp_val r = p"
proof -
  obtain out c where r: "mul_integer_words a (ucast k) 0 n 0 = (out, c)" by fastforce
  have "unat (ucast k :: 'w word) = unat k"
  proof -
    have "unat k < 2 ^ 16" using unat_bound [of k] by simp
    also have "(2::nat) ^ 16 \<le> 2 ^ LENGTH('w)" using assms(1) by (rule power_increasing) simp
    finally show ?thesis by (simp only: unsigned_ucast_eq take_bit_nat_eq_self)
  qed
  then have eq: "length out = n" "mp_val out + 2 ^ (LENGTH('w) * n) * unat c = p"
    using mul_integer_words_val [OF r] by (simp_all add: window_words p_def)
  have lt: "mp_val out < 2 ^ (LENGTH('w) * n)" using mp_val_bound [of out] eq(1) by simp
  have "c = 0 \<longleftrightarrow> p < 2 ^ (LENGTH('w) * n)"
  proof
    assume "c = 0"
    then show "p < 2 ^ (LENGTH('w) * n)" using eq lt by simp
  next
    assume "p < 2 ^ (LENGTH('w) * n)"
    then have "2 ^ (LENGTH('w) * n) * unat c < 2 ^ (LENGTH('w) * n) * 1" using eq(2) by linarith
    then have "unat c < 1" by (simp only: mult_less_cancel1)
    then show "c = 0" by (simp add: unat_eq_zero)
  qed
  then show "mp_mul_integer_into n a k = None \<longleftrightarrow> 2 ^ (LENGTH('w) * n) \<le> p"
    "mp_mul_integer_into n a k = Some r \<Longrightarrow> length r = n \<and> mp_val r = p"
    using r eq by (auto simp: mp_mul_integer_into_def split: if_splits)
qed

section \<open>Properties\<close>

text \<open>
  C27: the arithmetic is exact. A sum has a word more than its operands and is never cut; a
  difference is taken modulo the size of the longer operand and a negation modulo the size of its
  own; the comparison, which subtracts and looks at the carry, is the order of the values.
\<close>

theorem mp_arith_exact:
  fixes x y :: "'w::len mp_int"
  shows "mp_val (mp_add x y) = mp_val x + mp_val y \<and> length (mp_add x y) = max (length x) (length y) + 1 \<and>
    int (mp_val (mp_sub x y)) = (int (mp_val x) - int (mp_val y)) mod 2 ^ (LENGTH('w) * max (length x) (length y)) \<and>
    int (mp_val (mp_neg x)) = (- int (mp_val x)) mod 2 ^ (LENGTH('w) * length x) \<and>
    mp_cmp_hs x y = (if mp_val y \<le> mp_val x then 1 else 0)"
proof -
  have "mp_val (mp_add x y) = mp_val x + mp_val y" unfolding mp_add_def by (rule mp_add_exact) simp_all
  then show ?thesis
    using mp_sub_into_val [of "length x" "[]" x]
    by (simp add: mp_add_def mp_sub_def mp_sub_into_val mp_neg_def mp_neg_into_def mp_cmp_hs_val)
qed

text \<open>
  C28: \<open>mp_mul\<close> returns the exact product, of any two numbers of any lengths, whether it runs the
  schoolbook loop or one of the two forms of Karatsuba's recursion: no assertion fails, so the
  scratch space \<open>mp_mul_scratchspace\<close> computes is enough for every level of the recursion.
  \<open>mp_mul_into\<close> gives the product modulo the size of its output.
\<close>

theorem mp_mul_exact:
  fixes x y :: "'w::len mp_int"
  assumes "2 \<le> LENGTH('w)" "0 < length x" "0 < length y"
  shows "(\<exists>r. mp_mul x y = Some r \<and> length r = length x + length y \<and> mp_val r = mp_val x * mp_val y) \<and>
    (\<forall>n > 0. \<exists>r. mp_mul_into n x y = Some r \<and> length r = n \<and>
      mp_val r = mp_val x * mp_val y mod 2 ^ (LENGTH('w) * n))"
proof -
  have into: "\<exists>r. mp_mul_into n x y = Some r \<and> length r = n \<and> mp_val r = mp_val x * mp_val y mod 2 ^ (LENGTH('w) * n)"
    if "0 < n" for n
    using mul_internal_ok [OF assms(1), of n x y "6 * min n (max (length x) (length y))"] assms that
    by (auto simp: mp_mul_into_def mp_mul_scratchspace_def mp_mul_scratchspace_unary_def mp_make_sized_def mul_post_def mult.commute)
  obtain r where "mp_mul x y = Some r" "length r = length x + length y"
      "mp_val r = mp_val x * mp_val y mod 2 ^ (LENGTH('w) * (length x + length y))"
    using into [of "length x + length y"] assms(2) by (auto simp: mp_mul_def mp_make_sized_def)
  then show ?thesis using into product_bound [of x y] by auto
qed

theorem mp_mul_exact_witness:
  "\<exists>r. mp_mul (replicate 30 3 :: 64 word list) (replicate 50 5) = Some r \<and> length r = 80 \<and>
     mp_val r = mp_val (replicate 30 3 :: 64 word list) * mp_val (replicate 50 5 :: 64 word list)"
proof -
  have "2 \<le> LENGTH(64)" "0 < length (replicate 30 3 :: 64 word list)" "0 < length (replicate 50 5 :: 64 word list)"
    by simp_all
  from mp_mul_exact [OF this] show ?thesis by simp
qed

text \<open>
  the operations with a C integer. \<open>mp_add_integer_into\<close> and \<open>mp_sub_integer_into\<close> use only
  the lowest word of their operand, so with words of 32 or 16 bits they add and subtract the
  wrong number as soon as the operand has more bits than a word. \<open>mp_mul_integer_into\<close> is exact,
  and its assertion fails exactly when the product does not fit.
\<close>

theorem mp_integer_operands:
  fixes a :: "'w::len mp_int"
  assumes "16 \<le> LENGTH('w)"
  shows "mp_val (mp_add_integer_into n a k) = (mp_val a + unat k mod 2 ^ LENGTH('w)) mod 2 ^ (LENGTH('w) * n) \<and>
    int (mp_val (mp_sub_integer_into n a k)) =
      (int (mp_val a) - int (unat k mod 2 ^ LENGTH('w))) mod 2 ^ (LENGTH('w) * n) \<and>
    (case mp_mul_integer_into n a m of
       None \<Rightarrow> 2 ^ (LENGTH('w) * n) \<le> mp_val a mod 2 ^ (LENGTH('w) * n) * unat m
     | Some r \<Rightarrow> length r = n \<and> mp_val r = mp_val a mod 2 ^ (LENGTH('w) * n) * unat m)"
  using mp_mul_integer_into_val [OF assms, of n a m] mp_add_integer_into_eq [of n a k] assms
  by (simp add: mp_add_into_val mp_sub_into_val unat_low_word split: option.split)

theorem mp_integer_operands_witness:
  "mp_val (mp_add_integer_into 3 [1, 2 :: 32 word] 0x700000005) = 6 + 2 * 2 ^ 32 \<and>
   (case mp_mul_integer_into 2 [1, 2 :: 32 word] 10 of None \<Rightarrow> False | Some r \<Rightarrow> mp_val r = 10 + 20 * 2 ^ 32)"
proof -
  have "16 \<le> LENGTH(32)" by simp
  from mp_integer_operands [OF this, of 3 "[1, 2]" "0x700000005"] mp_integer_operands [OF this, of 2 "[1, 2]" 0 10]
  show ?thesis by (auto split: option.splits)
qed

end
