(* ===== verification/MpBits.thy ===== *)
theory MpBits
  imports Mpint
begin

text \<open>
  The second part of \<open>mpint.c\<close>: conversions, bitwise operations, shifts, comparison, the number of
  bits, and the SSH wire formats.
\<close>

section \<open>The rest of the interface\<close>

definition mp_new :: "nat \<Rightarrow> 'w::len mp_int option" where
  "mp_new maxbits = mp_make_sized ((maxbits + LENGTH('w) - 1) div LENGTH('w))"

definition mp_from_integer :: "64 word \<Rightarrow> 'w::len mp_int option" where
  "mp_from_integer n =
     map_option (\<lambda>x. map (\<lambda>i. ucast (drop_bit (i * LENGTH('w)) n)) [0 ..< length x])
       (mp_make_sized ((8 + LENGTH('w) div 8 - 1) div (LENGTH('w) div 8)) :: 'w mp_int option)"

definition mp_max_bytes :: "'w::len mp_int \<Rightarrow> nat" where
  "mp_max_bytes x = length x * (LENGTH('w) div 8)"

definition mp_max_bits :: "'w::len mp_int \<Rightarrow> nat" where
  "mp_max_bits x = length x * LENGTH('w)"

definition mp_copy_into :: "nat \<Rightarrow> 'w::len mp_int \<Rightarrow> 'w mp_int" where
  "mp_copy_into nw src = (let copy_nw = min nw (length src) in take copy_nw src @ replicate (nw - copy_nw) 0)"

definition mp_select_into :: "nat \<Rightarrow> 'w::len mp_int \<Rightarrow> 'w mp_int \<Rightarrow> 32 word \<Rightarrow> 'w mp_int" where
  "mp_select_into nw src0 src1 which =
     (let mask = - ucast (1 AND which) in
      map (\<lambda>i. mp_word src0 i XOR ((mp_word src1 i XOR mp_word src0 i) AND mask)) [0 ..< nw])"

definition mp_cond_swap :: "'w::len mp_int \<Rightarrow> 'w mp_int \<Rightarrow> 32 word \<Rightarrow> ('w mp_int \<times> 'w mp_int) option" where
  "mp_cond_swap x0 x1 swap =
     (if length x0 = length x1 then
        let mask = - ucast (1 AND swap); diff = map2 (\<lambda>a b. (a XOR b) AND mask) x0 x1
        in Some (map2 (XOR) x0 diff, map2 (XOR) x1 diff)
      else None)"

definition mp_cond_clear :: "'w::len mp_int \<Rightarrow> 32 word \<Rightarrow> 'w mp_int" where
  "mp_cond_clear x clear = (let mask = NOT (- ucast (1 AND clear)) in map (\<lambda>w. w AND mask) x)"

definition mp_and_into :: "nat \<Rightarrow> 'w::len mp_int \<Rightarrow> 'w mp_int \<Rightarrow> 'w mp_int" where
  "mp_and_into rw a b = map (\<lambda>i. mp_word a i AND mp_word b i) [0 ..< rw]"

definition mp_or_into :: "nat \<Rightarrow> 'w::len mp_int \<Rightarrow> 'w mp_int \<Rightarrow> 'w mp_int" where
  "mp_or_into rw a b = map (\<lambda>i. mp_word a i OR mp_word b i) [0 ..< rw]"

definition mp_xor_into :: "nat \<Rightarrow> 'w::len mp_int \<Rightarrow> 'w mp_int \<Rightarrow> 'w mp_int" where
  "mp_xor_into rw a b = map (\<lambda>i. mp_word a i XOR mp_word b i) [0 ..< rw]"

definition mp_bic_into :: "nat \<Rightarrow> 'w::len mp_int \<Rightarrow> 'w mp_int \<Rightarrow> 'w mp_int" where
  "mp_bic_into rw a b = map (\<lambda>i. mp_word a i AND NOT (mp_word b i)) [0 ..< rw]"

text \<open>The value is normalised to 0 or 1 without a branch.\<close>

definition normalise_to_1 :: "'w::len word \<Rightarrow> 32 word" where
  "normalise_to_1 n =
     (let n = drop_bit 1 n OR (n AND 1) in ucast (drop_bit (LENGTH('w) - 1) (- n)))"

definition mp_cmp_eq :: "'w::len mp_int \<Rightarrow> 'w mp_int \<Rightarrow> 32 word" where
  "mp_cmp_eq a b =
     (let diff = fold (\<lambda>i diff. diff OR (mp_word a i XOR mp_word b i)) [0 ..< max (length a) (length b)] 0
      in 1 XOR normalise_to_1 diff)"

definition mp_get_byte :: "'w::len mp_int \<Rightarrow> nat \<Rightarrow> byte" where
  "mp_get_byte x b =
     ucast (0xFF AND drop_bit (8 * (b mod (LENGTH('w) div 8))) (mp_word x (b div (LENGTH('w) div 8))))"

definition mp_get_bit :: "'w::len mp_int \<Rightarrow> nat \<Rightarrow> 32 word" where
  "mp_get_bit x b = ucast (1 AND drop_bit (b mod LENGTH('w)) (mp_word x (b div LENGTH('w))))"

definition mp_set_bit :: "'w::len mp_int \<Rightarrow> nat \<Rightarrow> 32 word \<Rightarrow> 'w mp_int option" where
  "mp_set_bit x b val =
     (let word = b div LENGTH('w); shift = b mod LENGTH('w) in
      if word < length x then
        Some (x[word := (x ! word AND NOT (push_bit shift 1)) OR push_bit shift (ucast (val AND 1))])
      else None)"

text \<open>The bytes are read at \<open>m * i + c\<close>, with \<open>size_t\<close> arithmetic: \<open>m\<close> is 1 or -1.\<close>

definition mp_from_bytes_int :: "byte list \<Rightarrow> 64 word \<Rightarrow> 64 word \<Rightarrow> 'w::len mp_int option" where
  "mp_from_bytes_int bytes m c =
     (let bytes_per_word = LENGTH('w) div 8;
          nw = max ((length bytes + bytes_per_word - 1) div bytes_per_word) 1
      in map_option
           (fold (\<lambda>i n. n[i div bytes_per_word := n ! (i div bytes_per_word) OR
              push_bit (8 * (i mod bytes_per_word)) (ucast (bytes ! unat (m * of_nat i + c)))])
            [0 ..< length bytes])
           (mp_make_sized nw))"

definition mp_from_bytes_le :: "byte list \<Rightarrow> 'w::len mp_int option" where
  "mp_from_bytes_le bytes = mp_from_bytes_int bytes 1 0"

definition mp_from_bytes_be :: "byte list \<Rightarrow> 'w::len mp_int option" where
  "mp_from_bytes_be bytes = mp_from_bytes_int bytes (- 1) (of_nat (length bytes) - 1)"

subsection \<open>Shifts\<close>

definition mp_lshift_fixed_into :: "nat \<Rightarrow> 'w::len mp_int \<Rightarrow> nat \<Rightarrow> 'w mp_int" where
  "mp_lshift_fixed_into rw a bits =
     (let words = bits div LENGTH('w); bitoff = bits mod LENGTH('w) in
      map (\<lambda>i. if i < words then 0
        else let w = mp_word a (i - words) in
          if bitoff \<noteq> 0 then
            let w = push_bit bitoff w in
            if i > words then w OR drop_bit (LENGTH('w) - bitoff) (mp_word a (i - words - 1)) else w
          else w) [0 ..< rw])"

definition mp_rshift_fixed_into :: "nat \<Rightarrow> 'w::len mp_int \<Rightarrow> nat \<Rightarrow> 'w mp_int" where
  "mp_rshift_fixed_into rw a bits =
     (let words = bits div LENGTH('w); bitoff = bits mod LENGTH('w) in
      map (\<lambda>i. let w = mp_word a (i + words) in
        if bitoff \<noteq> 0 then
          drop_bit bitoff w OR push_bit (LENGTH('w) - bitoff) (mp_word a (i + words + 1))
        else w) [0 ..< rw])"

definition mp_rshift_fixed :: "'w::len mp_int \<Rightarrow> nat \<Rightarrow> 'w mp_int option" where
  "mp_rshift_fixed x bits =
     (let words = bits div LENGTH('w); nw = length x - min (length x) words in
      map_option (\<lambda>r. mp_rshift_fixed_into (length r) x bits) (mp_make_sized (max nw 1) :: 'w mp_int option))"

definition mp_cond_negate :: "nat \<Rightarrow> 'w::len mp_int \<Rightarrow> 32 word \<Rightarrow> 'w mp_int" where
  "mp_cond_negate rw x yes =
     fst (fold (\<lambda>i (r, carry).
       let xword = mp_word x i XOR - ucast yes; (out, carry) = BignumADC 0 xword carry in (r @ [out], carry))
       [0 ..< rw] ([], ucast yes))"

definition mp_hs_integer :: "'w::len mp_int \<Rightarrow> 64 word \<Rightarrow> 32 word" where
  "mp_hs_integer x n =
     ucast (fold (\<lambda>i carry.
       let shift = i * LENGTH('w); nword = (if shift < 64 then ucast (drop_bit shift n) else 0)
       in snd (BignumADC (x ! i) (NOT nword) carry)) [0 ..< length x] 1)"

definition mp_eq_integer :: "'w::len mp_int \<Rightarrow> 64 word \<Rightarrow> 32 word" where
  "mp_eq_integer x n =
     (let diff = fold (\<lambda>i diff.
        let shift = i * LENGTH('w); nword = (if shift < 64 then ucast (drop_bit shift n) else 0)
        in diff OR (x ! i XOR nword)) [0 ..< length x] 0
      in 1 XOR normalise_to_1 diff)"

definition mp_min_into :: "nat \<Rightarrow> 'w::len mp_int \<Rightarrow> 'w mp_int \<Rightarrow> 'w mp_int" where
  "mp_min_into rw x y = mp_select_into rw x y (mp_cmp_hs x y)"

definition mp_max_into :: "nat \<Rightarrow> 'w::len mp_int \<Rightarrow> 'w mp_int \<Rightarrow> 'w mp_int" where
  "mp_max_into rw x y = mp_select_into rw y x (mp_cmp_hs x y)"

definition mp_min :: "'w::len mp_int \<Rightarrow> 'w mp_int \<Rightarrow> 'w mp_int option" where
  "mp_min x y =
     map_option (\<lambda>r. mp_min_into (length r) x y) (mp_make_sized (min (length x) (length y)) :: 'w mp_int option)"

definition mp_max :: "'w::len mp_int \<Rightarrow> 'w mp_int \<Rightarrow> 'w mp_int option" where
  "mp_max x y =
     map_option (\<lambda>r. mp_max_into (length r) x y) (mp_make_sized (max (length x) (length y)) :: 'w mp_int option)"

definition mp_power_2 :: "nat \<Rightarrow> 'w::len mp_int option" where
  "mp_power_2 pw = Option.bind (mp_new (pw + 1)) (\<lambda>x. mp_set_bit x pw 1)"

definition mp_get_integer :: "'w::len mp_int \<Rightarrow> 64 word" where
  "mp_get_integer x =
     foldr (\<lambda>w toret. push_bit (LENGTH('w) div 2) (push_bit (LENGTH('w) div 2) toret) OR ucast w) x 0"

subsection \<open>The number of bits\<close>

text \<open>
  \<open>mp_find_highest_nonzero_word_pair\<close>: the words from \<open>curr_index\<close> on, the shift register
  \<open>curr_hi, curr_lo\<close> and the three outputs. A caller that passes NULL for an output drops it.
\<close>

fun find_highest ::
  "'w::len mp_int \<Rightarrow> nat \<Rightarrow> 64 word \<Rightarrow> 64 word \<Rightarrow> 64 word \<Rightarrow> 64 word \<times> 64 word \<times> 64 word \<Rightarrow>
    64 word \<times> 64 word \<times> 64 word"
where
  "find_highest [] shift_wanted curr_index curr_hi curr_lo out = out"
| "find_highest (curr_word # x) shift_wanted curr_index curr_hi curr_lo (index, hi, lo) =
     (let indicator = normalise_to_1 curr_word;
          curr_lo = (if LENGTH('w) < 64 then drop_bit LENGTH('w) curr_lo else 0) OR
            push_bit (64 - LENGTH('w)) curr_hi;
          curr_hi = (if LENGTH('w) < 64 then drop_bit LENGTH('w) curr_hi else 0) OR
            push_bit shift_wanted (ucast curr_word);
          hi = hi XOR ((curr_hi XOR hi) AND - ucast indicator);
          lo = lo XOR ((curr_lo XOR lo) AND - ucast indicator);
          index = index XOR ((curr_index XOR index) AND - ucast indicator)
      in find_highest x shift_wanted (curr_index + 1) curr_hi curr_lo (index, hi, lo))"

definition mp_find_highest_nonzero_word_pair ::
  "'w::len mp_int \<Rightarrow> nat \<Rightarrow> 64 word \<Rightarrow> 64 word \<Rightarrow> 64 word \<Rightarrow> 64 word \<times> 64 word \<times> 64 word"
where
  "mp_find_highest_nonzero_word_pair x shift_wanted index hi lo = find_highest x shift_wanted 0 0 0 (index, hi, lo)"

definition BIGNUM_INT_BITS_BITS :: "nat \<Rightarrow> nat" where
  "BIGNUM_INT_BITS_BITS bits = (if bits = 16 then 4 else if bits = 32 then 5 else 6)"

text \<open>The loop over the halved shift \<open>i\<close>.\<close>

fun hibit_loop :: "nat \<Rightarrow> 'w::len word \<Rightarrow> 'w word \<Rightarrow> 'w word" where
  "hibit_loop i hiword hibit_index =
     (if i = 0 then hibit_index
      else
        let shifted_word = drop_bit i hiword;
            indicator = drop_bit (LENGTH('w) - 1) (- shifted_word);
            hiword = hiword XOR ((shifted_word XOR hiword) AND - indicator);
            hibit_index = hibit_index + ucast (of_nat i AND - ucast indicator :: 64 word)
        in hibit_loop (i div 2) hiword hibit_index)"

declare hibit_loop.simps [simp del]

definition mp_get_nbits :: "'w::len mp_int \<Rightarrow> 64 word" where
  "mp_get_nbits x =
     (let (hiword_index, hiword64, _) =
            mp_find_highest_nonzero_word_pair x 0 (- 1) (ucast (- 1 :: 'w word)) 0;
          hibit_index = hibit_loop (2 ^ (BIGNUM_INT_BITS_BITS LENGTH('w) - 1)) (ucast hiword64 :: 'w word) 0
      in push_bit (BIGNUM_INT_BITS_BITS LENGTH('w)) hiword_index + ucast hibit_index + 1)"

subsection \<open>The wire formats\<close>

text \<open>The loops that put the bytes \<open>n - 1\<close>, ..., \<open>0\<close>.\<close>

primrec put_mp_bytes :: "'s writer \<Rightarrow> 'w::len mp_int \<Rightarrow> nat \<Rightarrow> 's \<Rightarrow> 's option" where
  "put_mp_bytes write x 0 bs = Some bs"
| "put_mp_bytes write x (Suc i) bs = Option.bind (put_byte write (mp_get_byte x i) bs) (put_mp_bytes write x i)"

definition put_mp_ssh1 :: "'s writer \<Rightarrow> 'w::len mp_int \<Rightarrow> 's \<Rightarrow> 's option" where
  "put_mp_ssh1 write x bs =
     (let bits = mp_get_nbits x; bytes = (bits + 7) div 8 in
      if bits < 0x10000 then Option.bind (put_uint16 write bits bs) (put_mp_bytes write x (unat bytes)) else None)"

definition put_mp_ssh2 :: "'s writer \<Rightarrow> 'w::len mp_int \<Rightarrow> 's \<Rightarrow> 's option" where
  "put_mp_ssh2 write x bs =
     (let bytes = (mp_get_nbits x + 8) div 8 in
      Option.bind (put_uint32 write bytes bs) (put_mp_bytes write x (unat bytes)))"

definition get_mp_ssh1 :: "BinarySource \<Rightarrow> ('w::len mp_int \<times> BinarySource) option" where
  "get_mp_ssh1 src =
     (let (bitc, src) = get_uint16 src;
          (bytes, src) = get_data (ucast ((bitc + 7) div 8)) src
      in if src_err src \<noteq> BSE_NO_ERROR then map_option (\<lambda>n. (n, src)) (mp_from_integer 0)
         else Option.bind (mp_from_bytes_be bytes) (\<lambda>toret.
           if mp_get_nbits toret > ucast bitc then
             let src = src\<lparr>src_err := BSE_INVALID\<rparr> in map_option (\<lambda>n. (n, src)) (mp_from_integer 0)
           else Some (toret, src)))"

definition get_mp_ssh2 :: "BinarySource \<Rightarrow> ('w::len mp_int \<times> BinarySource) option" where
  "get_mp_ssh2 src =
     (let (bytes, src) = get_string src
      in if src_err src \<noteq> BSE_NO_ERROR then map_option (\<lambda>n. (n, src)) (mp_from_integer 0)
         else if length bytes > 0 \<and>
           (bytes ! 0 AND 0x80 \<noteq> 0 \<or> bytes ! 0 = 0 \<and> (length bytes \<le> 1 \<or> bytes ! 1 AND 0x80 = 0))
         then
           let src = src\<lparr>src_err := BSE_INVALID\<rparr> in map_option (\<lambda>n. (n, src)) (mp_from_integer 0)
         else map_option (\<lambda>n. (n, src)) (mp_from_bytes_be bytes))"


section \<open>Bits\<close>

text \<open>An integer's bits are the bits of its words: the basis for every operation but the arithmetic.\<close>

lemma mp_word_Cons: "mp_word (w # x) i = (if i = 0 then w else mp_word x (i - 1))"
  by (auto simp: mp_word_def nth_Cons')

lemma mp_val_bit: "bit (mp_val (x :: 'w::len mp_int)) k \<longleftrightarrow> bit (mp_word x (k div LENGTH('w))) (k mod LENGTH('w))"
proof (induction x arbitrary: k)
  case Nil
  then show ?case by (simp add: mp_word_def)
next
  case (Cons w x)
  let ?n = "unat w + 2 ^ LENGTH('w) * mp_val x"
  show ?case
  proof (cases "k < LENGTH('w)")
    case True
    have "take_bit LENGTH('w) ?n = unat w" by (simp add: take_bit_eq_mod)
    then have "bit ?n k \<longleftrightarrow> bit (unat w) k" using True by (metis bit_take_bit_iff)
    then show ?thesis using True by (simp add: mp_word_Cons bit_unsigned_iff possible_bit_word)
  next
    case False
    have "drop_bit LENGTH('w) ?n = mp_val x" by (simp add: drop_bit_eq_div)
    then have "bit ?n k \<longleftrightarrow> bit (mp_val x) (k - LENGTH('w))"
      using False bit_drop_bit_eq [of "LENGTH('w)" ?n] by (simp add: fun_eq_iff)
    moreover have "k div LENGTH('w) = Suc ((k - LENGTH('w)) div LENGTH('w))"
      "k mod LENGTH('w) = (k - LENGTH('w)) mod LENGTH('w)"
      using False by (simp_all add: le_div_geq le_mod_geq)
    ultimately show ?thesis using Cons.IH by (simp add: mp_word_Cons)
  qed
qed

lemma mp_val_eqI:
  assumes "\<And>k. bit (mp_word x (k div LENGTH('w))) (k mod LENGTH('w)) \<longleftrightarrow> bit n k"
  shows "mp_val (x :: 'w::len mp_int) = n"
  by (rule bit_eqI) (simp add: mp_val_bit assms)

lemma mp_word_map: "mp_word (map f [0 ..< n]) i = (if i < n then f i else 0)"
  by (simp add: mp_word_def)

lemma div_less_words: "k div l < n \<longleftrightarrow> k < l * n" if "0 < l" for k l n :: nat
  using that by (simp add: div_less_iff_less_mult mult.commute)

text \<open>Words computed one by one.\<close>

lemma map_words_val:
  assumes "\<And>k. k < LENGTH('w) * n \<Longrightarrow> bit (f (k div LENGTH('w))) (k mod LENGTH('w)) \<longleftrightarrow> bit v k"
  shows "mp_val (map f [0 ..< n] :: 'w::len mp_int) = take_bit (LENGTH('w) * n) v"
  by (rule mp_val_eqI) (use assms in \<open>auto simp: mp_word_map bit_take_bit_iff div_less_words\<close>)

lemma mp_copy_into_val: "mp_val (mp_copy_into n x :: 'w::len mp_int) = take_bit (LENGTH('w) * n) (mp_val x)"
proof (cases "n \<le> length x")
  case True
  then show ?thesis by (simp add: mp_copy_into_def mp_val_take take_bit_eq_mod)
next
  case False
  then have "(2::nat) ^ (LENGTH('w) * length x) \<le> 2 ^ (LENGTH('w) * n)" by (intro power_increasing) auto
  then have "mp_val x < 2 ^ (LENGTH('w) * n)" using mp_val_bound [of x] by (rule order.strict_trans2 [rotated])
  then show ?thesis using False by (simp add: mp_copy_into_def mp_val_append take_bit_nat_eq_self)
qed

lemma logic_val:
  "mp_val (mp_and_into n a b :: 'w::len mp_int) = take_bit (LENGTH('w) * n) (mp_val a AND mp_val b)"
  "mp_val (mp_or_into n a b :: 'w mp_int) = take_bit (LENGTH('w) * n) (mp_val a OR mp_val b)"
  "mp_val (mp_xor_into n a b :: 'w mp_int) = take_bit (LENGTH('w) * n) (mp_val a XOR mp_val b)"
  unfolding mp_and_into_def mp_or_into_def mp_xor_into_def
  by (rule map_words_val; simp add: bit_simps mp_val_bit)+

lemma mask_cases: "- ucast (1 AND s) = (if odd s then - 1 else 0 :: 'w::len word)" for s :: "32 word"
proof -
  have "1 AND s = (if odd s then 1 else 0)" by (simp add: one_and_eq mod_2_eq_odd)
  then show ?thesis by simp
qed

lemma mask_word: "bit (- ucast (1 AND s) :: 'w::len word) k \<longleftrightarrow> odd s \<and> k < LENGTH('w)" for s :: "32 word"
proof -
  show ?thesis by (simp add: mask_cases possible_bit_word)
qed

lemma mp_select_into_val:
  "mp_val (mp_select_into n a b s :: 'w::len mp_int) = take_bit (LENGTH('w) * n) (mp_val (if odd s then b else a))"
  unfolding mp_select_into_def Let_def mask_cases
  by (rule map_words_val) (auto simp: bit_simps mp_val_bit)

lemma bit_above_word: "LENGTH('w::len) \<le> k \<Longrightarrow> \<not> bit (w :: 'w word) k"
  using bit_imp_le_length [of w k] by auto

lemma mul_add_divmod: "x < L \<Longrightarrow> (n * L + x) div L = n" "x < L \<Longrightarrow> (n * L + x) mod L = x" for x L n :: nat
  by simp_all

lemma less_divmod: "k < s \<longleftrightarrow> k div L < s div L \<or> k div L = s div L \<and> k mod L < s mod L" if "0 < L" for k s L :: nat
proof (cases "k div L" "s div L" rule: linorder_cases)
  case less
  then have "(k div L + 1) * L \<le> s div L * L" by (intro mult_le_mono1) simp
  then have "k < s" using div_mult_mod_eq [of s L] div_mult_mod_eq [of k L] mod_less_divisor [OF that, of k]
    unfolding add_mult_distrib mult_1 by linarith
  then show ?thesis using less by simp
next
  case equal
  then show ?thesis using div_mult_mod_eq [of s L] div_mult_mod_eq [of k L] by (metis add_less_cancel_left less_irrefl)
next
  case greater
  then have "(s div L + 1) * L \<le> k div L * L" by (intro mult_le_mono1) simp
  then have "s < k" using div_mult_mod_eq [of s L] div_mult_mod_eq [of k L] mod_less_divisor [OF that, of s]
    unfolding add_mult_distrib mult_1 by linarith
  then show ?thesis using greater by simp
qed

lemma word_index:
  fixes s k :: nat and x :: "'w::len itself"
  defines "L \<equiv> LENGTH('w)"
  obtains (low) "k mod L + s mod L < L" "(s + k) div L = k div L + s div L" "(s + k) mod L = k mod L + s mod L"
  | (high) "L \<le> k mod L + s mod L" "(s + k) div L = k div L + s div L + 1" "(s + k) mod L = k mod L + s mod L - L"
proof -
  have L: "0 < L" by (simp add: L_def)
  define q e d m where v: "q = s div L" "e = s mod L" "d = k div L" "m = k mod L"
  have sk: "s + k = (d + q) * L + (m + e)"
    using div_mult_mod_eq [of s L] div_mult_mod_eq [of k L] by (simp only: v add_mult_distrib)
  have lt: "e < L" "m < L" using L by (simp_all add: v)
  show thesis
  proof (cases "m + e < L")
    case True
    then have "(s + k) div L = d + q" "(s + k) mod L = m + e" by (simp_all only: sk mul_add_divmod)
    then show thesis using low True unfolding v by simp
  next
    case False
    then have sk': "s + k = (d + q + 1) * L + (m + e - L)" and "m + e - L < L" using sk lt by simp_all
    then have "(s + k) div L = d + q + 1" "(s + k) mod L = m + e - L" by (simp_all only: mul_add_divmod)
    then show thesis using high False unfolding v by simp
  qed
qed

lemma mp_rshift_fixed_into_val:
  "mp_val (mp_rshift_fixed_into n a s :: 'w::len mp_int) = take_bit (LENGTH('w) * n) (drop_bit s (mp_val a))"
  unfolding mp_rshift_fixed_into_def Let_def
proof (rule map_words_val)
  fix k assume "k < LENGTH('w) * n"
  let ?L = "LENGTH('w)" and ?q = "s div LENGTH('w)" and ?o = "s mod LENGTH('w)"
  have o: "?o < ?L" "k mod ?L < ?L" by simp_all
  show "bit (if ?o \<noteq> 0 then drop_bit ?o (mp_word a (k div ?L + ?q)) OR
      push_bit (?L - ?o) (mp_word a (k div ?L + ?q + 1)) else mp_word a (k div ?L + ?q)) (k mod ?L)
    \<longleftrightarrow> bit (drop_bit s (mp_val a)) k"
  proof (cases rule: word_index [where 'w = 'w, of k s])
    case low
    then show ?thesis by (auto simp: bit_simps mp_val_bit add.commute)
  next
    case high
    moreover have "\<not> bit (mp_word a (k div ?L + ?q)) (k mod ?L + ?o)" using high(1) by (simp add: bit_above_word)
    moreover have "?o \<noteq> 0" "?L - ?o \<le> k mod ?L" using high(1) o by linarith+
    ultimately show ?thesis using o by (auto simp: bit_simps mp_val_bit add.commute)
  qed
qed


lemma mp_lshift_fixed_into_val:
  "mp_val (mp_lshift_fixed_into n a s :: 'w::len mp_int) = take_bit (LENGTH('w) * n) (push_bit s (mp_val a))"
  unfolding mp_lshift_fixed_into_def Let_def
proof (rule map_words_val)
  fix k assume "k < LENGTH('w) * n"
  let ?L = "LENGTH('w)" and ?q = "s div LENGTH('w)" and ?o = "s mod LENGTH('w)"
  let ?lhs = "bit (if k div ?L < ?q then 0 else if ?o \<noteq> 0 then
        if k div ?L > ?q then push_bit ?o (mp_word a (k div ?L - ?q)) OR
          drop_bit (?L - ?o) (mp_word a (k div ?L - ?q - 1)) else push_bit ?o (mp_word a (k div ?L - ?q))
      else mp_word a (k div ?L - ?q)) (k mod ?L)"
  have o: "?o < ?L" "k mod ?L < ?L" by simp_all
  show "?lhs \<longleftrightarrow> bit (push_bit s (mp_val a)) k"
  proof (cases "k < s")
    case True
    have "k div ?L < ?q \<or> k div ?L = ?q \<and> k mod ?L < ?o" using less_divmod [of ?L k s] True by simp
    then show ?thesis using True by (auto simp: bit_simps)
  next
    case False
    then obtain j where j: "k = s + j" using le_Suc_ex not_less by blast
    then have sk: "s \<le> k" "k - s = j" "j mod ?L < ?L" by simp_all
    show ?thesis
    proof (cases rule: word_index [where 'w = 'w and s = s and k = j])
      case low
      have "\<not> bit w (?L + j mod ?L)" for w :: "'w word" by (rule bit_above_word) simp
      then show ?thesis using low [folded j] sk o by (auto simp: bit_simps mp_val_bit)
    next
      case high
      have "?o \<noteq> 0" "?L - ?o \<le> j mod ?L" "\<not> ?o \<le> k mod ?L" using high(1,3) [folded j] o sk(3) by linarith+
      moreover have "k mod ?L + (?L - ?o) = j mod ?L" using high(1,3) [folded j] o sk(3) by linarith
      ultimately show ?thesis using high [folded j] sk by (simp add: bit_simps mp_val_bit add.commute)
    qed
  qed
qed


section \<open>Comparison\<close>

lemma unat_neg: "s \<noteq> 0 \<Longrightarrow> unat (- s) = 2 ^ LENGTH('w) - unat s" for s :: "'w::len word"
proof -
  assume "s \<noteq> 0"
  have "(unat s + unat (- s)) mod 2 ^ LENGTH('w) = 0" using unat_word_ariths(1) [of s "- s"] by simp
  then obtain q where q: "unat s + unat (- s) = 2 ^ LENGTH('w) * q" by (auto simp: mod_eq_0_iff_dvd)
  have "unat s + unat (- s) < 2 ^ LENGTH('w) * 2" using unat_bound [of s] unat_bound [of "- s"] by linarith
  then have "q < 2" unfolding q by simp
  moreover have "0 < unat s" using \<open>s \<noteq> 0\<close> by (simp add: unat_gt_0)
  then have "q \<noteq> 0" using q by (intro notI) simp
  ultimately have "q = 1" by simp
  then show ?thesis using q by simp
qed

lemma top_of_minus:
  fixes s :: "'w::len word"
  assumes "unat s < 2 ^ (LENGTH('w) - 1)"
  shows "drop_bit (LENGTH('w) - 1) (- s) = (if s = 0 then 0 else 1)"
proof (cases "s = 0")
  case False
  define H where "H = (2::nat) ^ (LENGTH('w) - 1)"
  have LH: "(2::nat) ^ LENGTH('w) = 2 * H" unfolding H_def by (simp flip: power_Suc)
  have "H \<le> unat (- s)" "unat (- s) < 2 * H"
    using unat_neg [OF False] assms unat_bound [of "- s"] unfolding LH H_def [symmetric] by linarith+
  then have "unat (- s) div H = 1" by (simp add: div_nat_eqI)
  then have "unat (drop_bit (LENGTH('w) - 1) (- s)) = unat (1 :: 'w word)"
    unfolding unsigned_drop_bit_eq unat_1 H_def by (simp add: take_bit_nat_eq_self flip: drop_bit_eq_div)
  then show ?thesis using False by (simp only: word_unat_eq_iff if_False)
qed simp

lemma normalise_to_1_val:
  fixes n :: "'w::len word"
  assumes "2 \<le> LENGTH('w)"
  shows "normalise_to_1 n = (if n = 0 then 0 else 1)"
proof -
  define m where "m = drop_bit 1 n OR (n AND 1)"
  have "m = take_bit (LENGTH('w) - 1) m"
    using assms by (intro bit_word_eqI) (auto simp: m_def bit_simps dest: bit_imp_le_length)
  then have "unat m < 2 ^ (LENGTH('w) - 1)"
    by (metis take_bit_nat_less_exp unsigned_take_bit_eq)
  moreover have "m = 0 \<longleftrightarrow> n = 0"
  proof
    assume "m = 0"
    then have z: "\<not> bit m k" for k by simp
    have "\<not> bit n k" for k
      using z [of "k - 1"] z [of 0] by (cases k) (auto simp: m_def bit_simps)
    then show "n = 0" by (intro bit_word_eqI) simp
  qed (simp add: m_def)
  ultimately show ?thesis using top_of_minus [of m] unfolding normalise_to_1_def Let_def m_def [symmetric] by simp
qed

lemma fold_or_0: "fold (\<lambda>i d. d OR f i) xs d = 0 \<longleftrightarrow> d = 0 \<and> (\<forall>i \<in> set xs. f i = 0)" for d :: "'w::len word"
  by (induction xs arbitrary: d) (auto simp: or_eq_0_iff)

lemma xor_0: "a XOR b = 0 \<longleftrightarrow> a = b" for a b :: "'w::len word"
  by (metis xor.assoc xor.right_neutral xor_self_eq)

lemma mp_val_eq_iff: "mp_val a = mp_val b \<longleftrightarrow> (\<forall>i. mp_word a i = mp_word b i)" for a b :: "'w::len mp_int"
proof
  assume eq: "mp_val a = mp_val b"
  show "\<forall>i. mp_word a i = mp_word b i"
  proof (intro allI bit_word_eqI)
    fix i k assume "k < LENGTH('w)"
    then show "bit (mp_word a i) k \<longleftrightarrow> bit (mp_word b i) k"
      using mp_val_bit [of a "i * LENGTH('w) + k"] mp_val_bit [of b "i * LENGTH('w) + k"] eq by simp
  qed
qed (simp add: bit_eq_iff mp_val_bit)

lemma mp_cmp_eq_val:
  assumes "2 \<le> LENGTH('w)"
  shows "mp_cmp_eq (a :: 'w::len mp_int) b = (if mp_val a = mp_val b then 1 else 0)"
proof -
  let ?n = "max (length a) (length b)"
  have "mp_val a = mp_val b \<longleftrightarrow> (\<forall>i \<in> set [0 ..< ?n]. mp_word a i XOR mp_word b i = 0)"
    by (auto simp: mp_val_eq_iff mp_word_def xor_0)
  then show ?thesis
    using normalise_to_1_val [OF assms] by (simp add: mp_cmp_eq_def Let_def fold_or_0)
qed

section \<open>Bytes\<close>

lemma mp_get_bit_val: "mp_get_bit x b = of_bool (bit (mp_val x) b)" for x :: "'w::len mp_int"
  by (simp add: mp_get_bit_def one_and_eq mod_2_eq_odd mp_val_bit flip: bit_iff_odd_drop_bit)

lemma byte_index:
  fixes b k :: nat
  assumes "L = 8 * m" "k < 8" "0 < m"
  shows "(8 * b + k) div L = b div m" "(8 * b + k) mod L = 8 * (b mod m) + k"
proof -
  have "8 * b + k = b div m * L + (8 * (b mod m) + k)"
    using div_mult_mod_eq [of b m] unfolding assms(1) by (metis (no_types, lifting) add.assoc add_mult_distrib2 mult.left_commute)
  moreover have "8 * (b mod m) + k < L"
  proof -
    have "b mod m + 1 \<le> m" using assms(3) by (simp add: Suc_leI)
    then show ?thesis using assms(1,2) by linarith
  qed
  ultimately show "(8 * b + k) div L = b div m" "(8 * b + k) mod L = 8 * (b mod m) + k"
    by (simp_all only: mul_add_divmod)
qed

lemma bit_ff: "bit (0xFF :: int) k \<longleftrightarrow> k < 8"
proof -
  have "(0xFF :: int) = mask 8" by (simp add: mask_eq_exp_minus_1)
  then show ?thesis by (simp only: bit_mask_iff) simp
qed

lemma mp_get_byte_bit:
  assumes "LENGTH('w::len) = 8 * m" "0 < m"
  shows "bit (mp_get_byte (x :: 'w mp_int) b) k \<longleftrightarrow> k < 8 \<and> bit (mp_val x) (8 * b + k)"
proof -
  have "LENGTH('w) div 8 = m" using assms by simp
  then show ?thesis using byte_index [OF assms(1) _ assms(2), of k b] assms bit_imp_le_length [of "mp_word x (b div m)" "8 * (b mod m) + k"]
    by (auto simp: mp_get_byte_def bit_simps mp_val_bit bit_ff)
qed


text \<open>The value of bytes with the least significant first.\<close>

definition bytes_val :: "byte list \<Rightarrow> nat" where
  "bytes_val bs = horner_sum unat 256 bs"

lemma bytes_val_simps [simp]:
  "bytes_val [] = 0" "bytes_val (b # bs) = unat b + 256 * bytes_val bs"
  by (simp_all add: bytes_val_def)

lemma bytes_val_bit: "bit (bytes_val bs) k \<longleftrightarrow> k < 8 * length bs \<and> bit (bs ! (k div 8)) (k mod 8)"
proof (induction bs arbitrary: k)
  case (Cons b bs)
  let ?n = "unat b + 256 * bytes_val bs"
  have p: "(2::nat) ^ 8 = 256" by simp
  have b: "unat b < 256" using unat_bound [of b] by simp
  show ?case
  proof (cases "k < 8")
    case True
    have "take_bit 8 ?n = unat b" using b by (simp add: take_bit_eq_mod p)
    then have "bit ?n k \<longleftrightarrow> bit (unat b) k" using True by (metis bit_take_bit_iff)
    then show ?thesis using True by (simp add: bit_unsigned_iff)
  next
    case False
    then have "bit ?n k \<longleftrightarrow> bit (drop_bit 8 ?n) (k - 8)" by (simp add: bit_drop_bit_eq)
    also have "drop_bit 8 ?n = bytes_val bs" using b by (simp add: drop_bit_eq_div p)
    finally show ?thesis using False Cons.IH [of "k - 8"] by (auto simp: le_div_geq le_mod_geq nth_Cons')
  qed
qed simp

lemma div8: "k < 8 * Suc n \<longleftrightarrow> k < 8 * n \<or> k div 8 = n" "k < 8 * n \<Longrightarrow> k div 8 \<noteq> n"
proof -
  define q r where "q = k div 8" "r = k mod 8"
  have k: "k = 8 * q + r" "r < 8" by (simp_all add: q_r_def)
  then have "k < 8 * Suc n \<longleftrightarrow> k < 8 * n \<or> q = n" "k < 8 * n \<Longrightarrow> q \<noteq> n" by auto
  then show "k < 8 * Suc n \<longleftrightarrow> k < 8 * n \<or> k div 8 = n" "k < 8 * n \<Longrightarrow> k div 8 \<noteq> n" by (simp_all add: q_r_def)
qed

text \<open>The loop of \<open>mp_from_bytes_int\<close>, for any order of reading the bytes.\<close>

lemma from_bytes_loop:
  assumes L: "LENGTH('w::len) = 8 * m" "0 < m" and n: "n \<le> m * nw"
  shows "length (fold (\<lambda>i x. x[i div m := x ! (i div m) OR push_bit (8 * (i mod m)) (ucast (f i :: byte))])
      [0 ..< n] (replicate nw (0 :: 'w word))) = nw \<and>
    (\<forall>k. bit (mp_val (fold (\<lambda>i x. x[i div m := x ! (i div m) OR push_bit (8 * (i mod m)) (ucast (f i :: byte))])
      [0 ..< n] (replicate nw (0 :: 'w word)))) k \<longleftrightarrow> k < 8 * n \<and> bit (f (k div 8)) (k mod 8))"
  using n
proof (induction n)
  case 0
  then show ?case by simp
next
  case (Suc n)
  define x where "x = fold (\<lambda>i x. x[i div m := x ! (i div m) OR push_bit (8 * (i mod m)) (ucast (f i :: byte))])
      [0 ..< n] (replicate nw (0 :: 'w word))"
  have IH: "length x = nw" "\<And>k. bit (mp_val x) k \<longleftrightarrow> k < 8 * n \<and> bit (f (k div 8)) (k mod 8)"
    using Suc unfolding x_def by simp_all
  have q: "n div m < nw" using Suc.prems L(2) by (simp add: div_less_words)
  define y where "y = x[n div m := x ! (n div m) OR push_bit (8 * (n mod m)) (ucast (f n))]"
  have "bit (mp_val y) k \<longleftrightarrow> k < 8 * Suc n \<and> bit (f (k div 8)) (k mod 8)" for k
  proof -
    have k: "k = 8 * (k div 8) + k mod 8" "k mod 8 < 8" by simp_all
    have i: "k div LENGTH('w) = k div 8 div m" "k mod LENGTH('w) = 8 * (k div 8 mod m) + k mod 8"
      using byte_index [OF L(1) k(2) L(2), of "k div 8"] k(1) by simp_all
    have "bit (mp_val y) k \<longleftrightarrow> bit (mp_val x) k \<or>
        k div LENGTH('w) = n div m \<and> 8 * (n mod m) \<le> k mod LENGTH('w) \<and>
        bit (f n) (k mod LENGTH('w) - 8 * (n mod m))"
      using q IH(1) less_imp_diff_less [of "k mod LENGTH('w)" "LENGTH('w)" "8 * (n mod m)"]
      by (auto simp: y_def mp_val_bit mp_word_def nth_list_update bit_simps)
    also have "\<dots> \<longleftrightarrow> bit (mp_val x) k \<or> k div 8 = n \<and> bit (f n) (k mod 8)"
    proof -
      have "k div LENGTH('w) = n div m \<and> 8 * (n mod m) \<le> k mod LENGTH('w) \<and>
          bit (f n) (k mod LENGTH('w) - 8 * (n mod m)) \<longleftrightarrow> k div 8 = n \<and> bit (f n) (k mod 8)"
      proof
        assume l: "k div LENGTH('w) = n div m \<and> 8 * (n mod m) \<le> k mod LENGTH('w) \<and>
          bit (f n) (k mod LENGTH('w) - 8 * (n mod m))"
        then have "k mod LENGTH('w) - 8 * (n mod m) < 8"
          using bit_imp_le_length [of "f n" "k mod LENGTH('w) - 8 * (n mod m)"] by simp
        then have "k div 8 mod m = n mod m" using l i(2) k(2) by linarith
        then have "k div 8 = n" using l i(1) div_mult_mod_eq [of n m] div_mult_mod_eq [of "k div 8" m] by simp
        then show "k div 8 = n \<and> bit (f n) (k mod 8)" using l i(2) by simp
      qed (use i in auto)
      then show ?thesis by blast
    qed
    also have "\<dots> \<longleftrightarrow> k < 8 * Suc n \<and> bit (f (k div 8)) (k mod 8)"
    proof -
      show ?thesis unfolding IH(2) using div8 [of k n] by metis
    qed
    finally show ?thesis .
  qed
  then show ?case using IH(1) unfolding y_def x_def by simp
qed


lemma mp_from_bytes_int_val:
  assumes L: "LENGTH('w::len) = 8 * m" "0 < m"
    and f: "\<And>i. i < length bytes \<Longrightarrow> unat (mul * of_nat i + c) = f i"
  obtains x :: "'w::len mp_int" where "mp_from_bytes_int bytes mul c = Some x"
    "mp_val x = bytes_val (map (\<lambda>i. bytes ! f i) [0 ..< length bytes])" "length x \<le> length bytes + 1"
proof -
  define nw where "nw = max ((length bytes + m - 1) div m) 1"
  have m: "LENGTH('w) div 8 = m" using L by simp
  have "length bytes \<le> m * ((length bytes + m - 1) div m)"
  proof -
    have "length bytes + m - 1 = m * ((length bytes + m - 1) div m) + (length bytes + m - 1) mod m" by simp
    moreover have "(length bytes + m - 1) mod m < m" using L(2) by simp
    ultimately show ?thesis by linarith
  qed
  also have "\<dots> \<le> m * nw" unfolding nw_def by (intro mult_le_mono2) simp
  finally have le: "length bytes \<le> m * nw" .
  define x where "x = fold (\<lambda>i x. x[i div m := x ! (i div m) OR push_bit (8 * (i mod m)) (ucast (bytes ! f i))])
    [0 ..< length bytes] (replicate nw (0 :: 'w word))"
  have "mp_from_bytes_int bytes mul c = Some x"
  proof -
    have "nw \<noteq> 0" by (simp add: nw_def)
    moreover have "fold (\<lambda>i n. n[i div m := n ! (i div m) OR push_bit (8 * (i mod m)) (ucast (bytes ! unat (mul * of_nat i + c)))])
      [0 ..< length bytes] (replicate nw 0) = x"
      unfolding x_def by (rule fold_cong) (simp_all add: f)
    ultimately show ?thesis
      by (simp only: mp_from_bytes_int_def Let_def m nw_def [symmetric] mp_make_sized_def option.map if_True not_False_eq_True)
  qed
  moreover have "mp_val x = bytes_val (map (\<lambda>i. bytes ! f i) [0 ..< length bytes])"
  proof (rule bit_eqI)
    fix k
    have "bit (mp_val x) k \<longleftrightarrow> k < 8 * length bytes \<and> bit (bytes ! f (k div 8)) (k mod 8)"
      using from_bytes_loop [OF L le, of "\<lambda>i. bytes ! f i"] unfolding x_def by (elim conjE allE)
    then show "bit (mp_val x) k \<longleftrightarrow> bit (bytes_val (map (\<lambda>i. bytes ! f i) [0 ..< length bytes])) k"
      using div_less_words [of 8 k "length bytes"] by (cases "k < 8 * length bytes") (simp_all add: bytes_val_bit)
  qed
  moreover have "length x \<le> length bytes + 1"
  proof -
    have "1 * length bytes \<le> m * length bytes" using L(2) by (intro mult_le_mono1) simp
    then have "length bytes + m - 1 \<le> m * length bytes + (m - 1)" using L(2) by linarith
    then have "(length bytes + m - 1) div m \<le> (m * length bytes + (m - 1)) div m" by (rule div_le_mono)
    also have "\<dots> = length bytes" using mul_add_divmod(1) [of "m - 1" m "length bytes"] L(2) by (simp only: mult.commute)
    finally show ?thesis using from_bytes_loop [OF L le, of "\<lambda>i. bytes ! f i"] unfolding x_def by (simp add: nw_def)
  qed
  ultimately show thesis by (rule that)
qed

lemma mp_from_bytes_val:
  assumes L: "LENGTH('w::len) = 8 * m" "0 < m" and len: "length bytes < 2 ^ 64"
  shows "\<exists>x :: 'w mp_int. mp_from_bytes_le bytes = Some x \<and> mp_val x = bytes_val bytes"
    and "\<exists>x :: 'w mp_int. mp_from_bytes_be bytes = Some x \<and> mp_val x = bytes_val (rev bytes) \<and> length x \<le> length bytes + 1"
proof -
  have "unat (1 * of_nat i + 0 :: 64 word) = i" if "i < length bytes" for i
    using that len by (simp add: unat_of_nat take_bit_nat_eq_self)
  from mp_from_bytes_int_val [OF L this] obtain x :: "'w mp_int" where
    "mp_from_bytes_int bytes 1 0 = Some x" "mp_val x = bytes_val (map (\<lambda>i. bytes ! i) [0 ..< length bytes])"
    "length x \<le> length bytes + 1" .
  then show "\<exists>x :: 'w mp_int. mp_from_bytes_le bytes = Some x \<and> mp_val x = bytes_val bytes"
    by (simp add: mp_from_bytes_le_def map_nth)
  have "unat (- 1 * of_nat i + (of_nat (length bytes) - 1) :: 64 word) = length bytes - Suc i" if "i < length bytes" for i
  proof -
    have "- 1 * of_nat i + (of_nat (length bytes) - 1) = (of_nat (length bytes - Suc i) :: 64 word)"
      using that by (simp add: of_nat_diff)
    moreover have "unat (of_nat (length bytes - Suc i) :: 64 word) = length bytes - Suc i"
      using len by (simp add: unat_of_nat take_bit_nat_eq_self)
    ultimately show ?thesis by (simp only:)
  qed
  from mp_from_bytes_int_val [OF L this] obtain x :: "'w mp_int" where
    "mp_from_bytes_int bytes (- 1) (of_nat (length bytes) - 1) = Some x"
    "mp_val x = bytes_val (map (\<lambda>i. bytes ! (length bytes - Suc i)) [0 ..< length bytes])"
    "length x \<le> length bytes + 1" .
  moreover have "map (\<lambda>i. bytes ! (length bytes - Suc i)) [0 ..< length bytes] = rev bytes"
    by (rule nth_equalityI) (simp_all add: rev_nth)
  ultimately show "\<exists>x :: 'w mp_int. mp_from_bytes_be bytes = Some x \<and> mp_val x = bytes_val (rev bytes) \<and> length x \<le> length bytes + 1"
    by (simp add: mp_from_bytes_be_def)
qed


section \<open>The number of bits\<close>

definition has_nbits :: "nat \<Rightarrow> nat \<Rightarrow> bool" where
  "has_nbits v n \<longleftrightarrow> v < 2 ^ n \<and> (n = 0 \<or> 2 ^ (n - 1) \<le> v)"

lemma has_nbits_unique: "has_nbits v n \<Longrightarrow> has_nbits v m \<Longrightarrow> n = m"
proof -
  have "\<not> n < m" if "has_nbits v n" "has_nbits v m" for n m
  proof
    assume "n < m"
    then have "(2::nat) ^ n \<le> 2 ^ (m - 1)" by (intro power_increasing) auto
    moreover have "v < 2 ^ n" "2 ^ (m - 1) \<le> v" using that \<open>n < m\<close> by (auto simp: has_nbits_def)
    ultimately show False by linarith
  qed
  then show "has_nbits v n \<Longrightarrow> has_nbits v m \<Longrightarrow> n = m" by (metis linorder_neqE_nat)
qed

lemma select_word: "a XOR ((b XOR a) AND - ucast (if p then 1 else 0 :: 'b::len word)) = (if p then b else a)"
  and select_word0: "a XOR ((b XOR a) AND - ucast (if p then 0 else 1 :: 'b::len word)) = (if p then a else b)"
  for a b :: "'a::len word"
  by (auto intro: bit_word_eqI simp: bit_simps)

lemma xor_back: "a XOR b XOR a = b" "a XOR (b XOR a) = b" for a b :: "'a::len word"
  by (auto intro: bit_word_eqI simp: bit_simps)

lemma zero_words: "mp_val x = 0 \<longleftrightarrow> (\<forall>i. mp_word x i = 0)" for x :: "'w::len mp_int"
  using mp_val_eq_iff [of x "[]"] by (simp add: mp_word_def)

lemma unat_drop_bits: "unat (drop_bit i w) = unat w div 2 ^ i" for w :: "'a::len word"
  by (simp only: unsigned_drop_bit_eq take_bit_nat_eq_self [OF unat_bound]) (simp only: drop_bit_eq_div)

lemma find_highest_val:
  assumes L: "2 \<le> LENGTH('w::len)" "LENGTH('w) \<le> 64"
  shows "unat curr_hi < 2 ^ LENGTH('w) \<Longrightarrow> \<exists>lo'.
    (\<forall>i. mp_word x i = 0) \<and> find_highest (x :: 'w mp_int) 0 c curr_hi curr_lo (index, hi, lo) = (index, hi, lo') \<or>
    (\<exists>i < length x. x ! i \<noteq> 0 \<and> (\<forall>j > i. mp_word x j = 0) \<and>
      find_highest x 0 c curr_hi curr_lo (index, hi, lo) = (c + of_nat i, ucast (x ! i), lo'))"
proof (induction x arbitrary: c curr_hi curr_lo index hi lo)
  case Nil
  then show ?case by (simp add: mp_word_def)
next
  case (Cons w x)
  have z: "(if LENGTH('w) < 64 then drop_bit LENGTH('w) curr_hi else 0) = 0"
  proof -
    have "unat (drop_bit LENGTH('w) curr_hi) = 0"
      using Cons.prems by (simp only: unat_drop_bits div_less)
    then show ?thesis by (simp add: unat_eq_zero)
  qed
  have lt: "unat (ucast w :: 64 word) < 2 ^ LENGTH('w)"
    unfolding unsigned_ucast_eq by (rule le_less_trans [OF take_bit_nat_less_eq_self unat_bound])
  define l1 where "l1 = (if LENGTH('w) < 64 then drop_bit LENGTH('w) curr_lo else 0) OR push_bit (64 - LENGTH('w)) curr_hi"
  define l2 where "l2 = (if w = 0 then lo else l1)"
  have step: "find_highest (w # x) 0 c curr_hi curr_lo (index, hi, lo) =
      find_highest x 0 (c + 1) (ucast w) l1 (if w = 0 then index else c, if w = 0 then hi else ucast w, l2)"
    unfolding find_highest.simps Let_def z normalise_to_1_val [OF L(1)] l1_def [symmetric] l2_def
    by (simp add: select_word0)
  from Cons.IH [OF lt, of "c + 1" l1 "if w = 0 then index else c" "if w = 0 then hi else ucast w" l2]
  obtain lo' where "(\<forall>i. mp_word x i = 0) \<and> find_highest (w # x) 0 c curr_hi curr_lo (index, hi, lo) =
        (if w = 0 then index else c, if w = 0 then hi else ucast w, lo') \<or>
      (\<exists>i < length x. x ! i \<noteq> 0 \<and> (\<forall>j > i. mp_word x j = 0) \<and>
        find_highest (w # x) 0 c curr_hi curr_lo (index, hi, lo) = (c + 1 + of_nat i, ucast (x ! i), lo'))"
    unfolding step by blast
  then consider (zero) "\<forall>i. mp_word x i = 0" "find_highest (w # x) 0 c curr_hi curr_lo (index, hi, lo) =
        (if w = 0 then index else c, if w = 0 then hi else ucast w, lo')"
    | (high) i where "i < length x" "x ! i \<noteq> 0" "\<forall>j > i. mp_word x j = 0"
        "find_highest (w # x) 0 c curr_hi curr_lo (index, hi, lo) = (c + 1 + of_nat i, ucast (x ! i), lo')"
    by blast
  then show ?case
  proof cases
    case zero
    show ?thesis
    proof (cases "w = 0")
      case True
      then have "\<forall>i. mp_word (w # x) i = 0" using zero(1) by (simp add: mp_word_Cons)
      then show ?thesis using zero(2) True by auto
    next
      case False
      then have "\<forall>j > 0. mp_word (w # x) j = 0" using zero(1) by (simp add: mp_word_Cons)
      then show ?thesis using zero(2) False by (intro exI [of _ lo'] disjI2 exI [of _ 0]) simp
    qed
  next
    case high
    then have "\<forall>j > Suc i. mp_word (w # x) j = 0" by (simp add: mp_word_Cons)
    then show ?thesis using high by (intro exI [of _ lo'] disjI2 exI [of _ "Suc i"]) (simp add: add.assoc)
  qed
qed

lemma top_word_val:
  assumes "i < length x" "\<forall>j > i. mp_word x j = 0"
  shows "mp_val x div 2 ^ (LENGTH('w) * i) = unat (x ! i :: 'w::len word)"
proof -
  have "drop (Suc i) x = replicate (length x - Suc i) 0"
  proof (rule nth_equalityI)
    fix j assume "j < length (drop (Suc i) x)"
    moreover have "mp_word x (Suc i + j) = 0" using assms(2) by simp
    ultimately show "drop (Suc i) x ! j = replicate (length x - Suc i) 0 ! j"
      by (simp add: mp_word_def less_diff_conv add.commute)
  qed simp
  then have "drop i x = x ! i # replicate (length x - Suc i) 0" using assms(1) by (simp add: Cons_nth_drop_Suc [symmetric])
  then show ?thesis using mp_val_drop [of i x] by simp
qed

lemma ucast_of_nat64: "LENGTH('w::len) \<le> 64 \<Longrightarrow> ucast (of_nat i :: 64 word) = (of_nat i :: 'w word)"
  by (simp add: word_unat_eq_iff unsigned_ucast_eq unsigned_of_nat)


lemma exp_less: "(2::nat) ^ a < 2 ^ b \<Longrightarrow> a < b"
  by simp

text \<open>One round of the loop halves the range of the highest bit.\<close>

lemma hibit_round:
  fixes w :: "'w::len word"
  assumes L: "LENGTH('w) \<le> 64" and i: "0 < i"
    and w: "unat w < 2 ^ (2 * i)" "2 ^ h \<le> unat w" "unat w < 2 ^ Suc h"
  obtains w' c' h' where "hibit_loop i w c = hibit_loop (i div 2) w' c'" "unat w' < 2 ^ i"
    "2 ^ h' \<le> unat w'" "unat w' < 2 ^ Suc h'" "c' + of_nat h' = c + of_nat h"
proof -
  define s where "s = drop_bit i w"
  have s: "unat s = unat w div 2 ^ i" unfolding s_def by (rule unat_drop_bits)
  have "unat s < 2 ^ (LENGTH('w) - 1)"
  proof -
    have "unat s \<le> unat w div 2 ^ 1" unfolding s using i by (intro div_le_mono2 power_increasing) auto
    moreover have "unat w < 2 * 2 ^ (LENGTH('w) - 1)" using unat_bound [of w] by (simp flip: power_Suc)
    ultimately show ?thesis by simp
  qed
  from top_of_minus [OF this] have run: "hibit_loop i w c =
      hibit_loop (i div 2) (if s \<noteq> 0 then s else w) (c + (if s \<noteq> 0 then of_nat i else 0))"
    unfolding hibit_loop.simps [of i] Let_def s_def [symmetric] using i
    by (simp add: xor_back ucast_of_nat64 [OF L])
  show thesis
  proof (cases "s = 0")
    case True
    then have "unat w < 2 ^ i" using s by (simp add: div_eq_0_iff)
    then show thesis using that [of w c h] run w True by simp
  next
    case False
    then have "2 ^ i \<le> unat w" using s by (metis div_less linorder_not_le unat_eq_zero)
    then have "(2::nat) ^ i < 2 ^ Suc h" using w(3) by linarith
    then have "i < Suc h" by (rule exp_less)
    then have ih: "i \<le> h" by simp
    have "unat s < 2 ^ i" using w(1) unfolding s by (simp add: less_mult_imp_div_less power_add mult_2)
    moreover have e: "(2::nat) ^ h = 2 ^ (h - i) * 2 ^ i" using ih by (simp flip: power_add)
    have "2 ^ (h - i) \<le> unat s" using div_le_mono [OF w(2), of "2 ^ i"] unfolding s e by simp
    moreover have "unat s < 2 ^ Suc (h - i)"
      using w(3) unfolding s power_Suc e by (intro less_mult_imp_div_less) (simp add: mult.assoc)
    moreover have "c + of_nat i + of_nat (h - i) = c + of_nat h" using ih by (simp add: of_nat_diff)
    ultimately show thesis using that [of s "c + of_nat i" "h - i"] run False by simp
  qed
qed

lemma hibit_loop_val:
  fixes w :: "'w::len word"
  assumes L: "LENGTH('w) \<le> 64"
  shows "unat w < 2 ^ (2 * 2 ^ b) \<Longrightarrow> 2 ^ h \<le> unat w \<Longrightarrow> unat w < 2 ^ Suc h \<Longrightarrow>
    hibit_loop (2 ^ b) w c = c + of_nat h"
proof (induction b arbitrary: w h c)
  case (0 w h c)
  have pos: "0 < (1::nat)" by simp
  have "unat w < 2 ^ (2 * 1)" using 0(1) by simp
  from hibit_round [OF L pos this 0(2,3), of c] obtain w' c' h' where
    r: "hibit_loop 1 w c = hibit_loop (1 div 2) w' c'" "unat w' < 2 ^ 1" "2 ^ h' \<le> unat w'" "unat w' < 2 ^ Suc h'" "c' + of_nat h' = c + of_nat h" .
  have "(2::nat) ^ h' < 2 ^ 1" using r(2,3) by linarith
  then have "h' < 1" by (rule exp_less)
  then have "h' = 0" by simp
  then show ?case using r(1,5) by (simp add: hibit_loop.simps [of 0])
next
  case (Suc b w h c)
  have "0 < (2::nat) ^ Suc b" by simp
  from hibit_round [OF L this Suc.prems, of c] obtain w' c' h' where
    r: "hibit_loop (2 ^ Suc b) w c = hibit_loop (2 ^ Suc b div 2) w' c'" "unat w' < 2 ^ 2 ^ Suc b"
      "2 ^ h' \<le> unat w'" "unat w' < 2 ^ Suc h'" "c' + of_nat h' = c + of_nat h" .
  have "unat w' < 2 ^ (2 * 2 ^ b)" using r(2) by simp
  from Suc.IH [OF this r(3,4), of c'] show ?case using r(1,5) by simp
qed

lemma highest_bit: "0 < n \<Longrightarrow> \<exists>h. 2 ^ h \<le> n \<and> n < 2 ^ Suc h" for n :: nat
  using ex_power_ivl1 [of 2 n] by auto

definition platform_word :: "nat \<Rightarrow> bool" where
  "platform_word bits \<longleftrightarrow> bits \<in> {16, 32, 64}"

lemma platform_bits:
  assumes "platform_word L"
  shows "2 ^ BIGNUM_INT_BITS_BITS L = L" "2 * 2 ^ (BIGNUM_INT_BITS_BITS L - 1) = L" "2 \<le> L" "L \<le> 64"
    "L = 8 * (L div 8)" "0 < L div 8"
  using assms by (auto simp: platform_word_def BIGNUM_INT_BITS_BITS_def)

lemma ucast_again: "LENGTH('w) \<le> 64 \<Longrightarrow> ucast (ucast w :: 64 word) = w" for w :: "'w::len word"
  by (rule bit_word_eqI) (simp add: bit_simps)

lemma push_bit_word_bits: "2 ^ b = L \<Longrightarrow> push_bit b w = of_nat L * (w :: 64 word)"
  by (auto simp: push_bit_eq_mult mult.commute)

lemma mp_get_nbits_val:
  fixes x :: "'w::len mp_int"
  assumes L: "platform_word LENGTH('w)" and len: "LENGTH('w) * length x < 2 ^ 64"
  shows "has_nbits (mp_val x) (unat (mp_get_nbits x))"
proof -
  note P = platform_bits [OF L]
  let ?b = "BIGNUM_INT_BITS_BITS LENGTH('w)"
  have run: "mp_get_nbits x = push_bit ?b index + ucast (hibit_loop (2 ^ (?b - 1)) (ucast hi :: 'w word) 0) + 1"
    if "find_highest x 0 0 0 0 (- 1, ucast (- 1 :: 'w word), 0) = (index, hi, lo)" for index hi lo
    using that by (simp add: mp_get_nbits_def mp_find_highest_nonzero_word_pair_def)
  have loop: "hibit_loop (2 ^ (?b - 1)) w 0 = of_nat h" if "2 ^ h \<le> unat w" "unat w < 2 ^ Suc h" for w :: "'w word" and h
  proof -
    have "unat w < 2 ^ (2 * 2 ^ (?b - 1))" using unat_bound [of w] P(2) by simp
    from hibit_loop_val [OF P(4) this that, of 0] show ?thesis by simp
  qed
  have again: "ucast (ucast w :: 64 word) = w" for w :: "'w word"
    using P(4) by (simp add: ucast_again)
  have small: "ucast (of_nat h :: 'w word) = (of_nat h :: 64 word)" if "h < LENGTH('w)" for h
  proof -
    have "h < 2 ^ LENGTH('w)" using that less_exp [of "LENGTH('w)"] by linarith
    then show ?thesis by (simp add: word_unat_eq_iff unsigned_ucast_eq unsigned_of_nat take_bit_nat_eq_self)
  qed
  consider (zero) lo where "\<forall>i. mp_word x i = 0" "find_highest x 0 0 0 0 (- 1, ucast (- 1 :: 'w word), 0) = (- 1, ucast (- 1 :: 'w word), lo)"
    | (high) i lo where "i < length x" "x ! i \<noteq> 0" "\<forall>j > i. mp_word x j = 0"
        "find_highest x 0 0 0 0 (- 1, ucast (- 1 :: 'w word), 0) = (of_nat i, ucast (x ! i), lo)"
    using find_highest_val [OF P(3,4), of 0 x 0 0 "- 1" "ucast (- 1 :: 'w word)" 0] by auto
  then show ?thesis
  proof cases
    case zero
    have "unat (- 1 :: 'w word) = 2 ^ LENGTH('w) - 1" by (simp add: unsigned_minus_1_eq_mask mask_eq_exp_minus_1)
    moreover have "(2::nat) ^ LENGTH('w) = 2 * 2 ^ (LENGTH('w) - 1)" by (simp flip: power_Suc)
    ultimately have "hibit_loop (2 ^ (?b - 1)) (- 1 :: 'w word) 0 = of_nat (LENGTH('w) - 1)"
      using P(3) by (intro loop) auto
    then have "mp_get_nbits x = push_bit ?b (- 1) + of_nat (LENGTH('w) - 1) + 1"
      using run [OF zero(2)] again [of "- 1"] small by simp
    moreover have "of_nat (LENGTH('w) - 1) + 1 = (of_nat LENGTH('w) :: 64 word)" using P(3) by (simp add: of_nat_diff)
    ultimately have "mp_get_nbits x = 0" by (simp only: push_bit_word_bits [OF P(1)] add.assoc) simp
    moreover have "mp_val x = 0" using zero(1) by (simp add: zero_words)
    ultimately show ?thesis by (simp add: has_nbits_def)
  next
    case high
    define w where "w = x ! i"
    obtain h where h: "2 ^ h \<le> unat w" "unat w < 2 ^ Suc h"
      using highest_bit [of "unat w"] high(2) by (auto simp: unat_gt_0 w_def)
    have "(2::nat) ^ h < 2 ^ LENGTH('w)" using h(1) unat_bound [of w] by linarith
    then have hL: "h < LENGTH('w)" by (rule exp_less)
    have "mp_get_nbits x = push_bit ?b (of_nat i) + of_nat h + 1"
      using run [OF high(4)] again [of w] loop [OF h] small [OF hL] by (simp add: w_def)
    also have "\<dots> = of_nat (LENGTH('w) * i + h + 1)" by (simp add: push_bit_word_bits [OF P(1)])
    finally have "mp_get_nbits x = of_nat (LENGTH('w) * i + h + 1)" .
    moreover have "LENGTH('w) * i + h + 1 < 2 ^ 64"
    proof -
      have "LENGTH('w) * (i + 1) \<le> LENGTH('w) * length x" using high(1) by (intro mult_le_mono2) simp
      then show ?thesis using hL len by (simp add: add_mult_distrib2)
    qed
    ultimately have n: "unat (mp_get_nbits x) = LENGTH('w) * i + h + 1"
      by (simp add: unat_of_nat take_bit_nat_eq_self del: of_nat_add of_nat_mult of_nat_Suc)
    define D where "D = (2::nat) ^ (LENGTH('w) * i)"
    have "mp_val x div D = unat w" using top_word_val [OF high(1,3)] by (simp only: D_def w_def)
    moreover have "0 < D" by (simp add: D_def)
    ultimately have "unat w * D \<le> mp_val x" "mp_val x < (unat w + 1) * D"
      by (metis div_times_less_eq_dividend) (metis \<open>mp_val x div D = unat w\<close> Suc_eq_plus1 dividend_less_div_times \<open>0 < D\<close> mult.commute mult_Suc)
    moreover have "2 ^ h * D \<le> unat w * D" "(unat w + 1) * D \<le> 2 ^ Suc h * D"
      using h by (intro mult_le_mono1; simp)+
    ultimately have "2 ^ h * D \<le> mp_val x" "mp_val x < 2 ^ Suc h * D" by linarith+
    then show ?thesis by (simp add: n has_nbits_def D_def power_add mult_ac)
  qed
qed


section \<open>The wire formats\<close>

text \<open>\<open>wire_bytes x n\<close>: the last \<open>n\<close> bytes of \<open>x\<close>, the most significant first.\<close>

definition wire_bytes :: "'w::len mp_int \<Rightarrow> nat \<Rightarrow> byte list" where
  "wire_bytes x n = map (mp_get_byte x) (rev [0 ..< n])"

lemma wire_bytes_simps [simp]:
  "wire_bytes x 0 = []" "wire_bytes x (Suc n) = mp_get_byte x n # wire_bytes x n"
  "length (wire_bytes x n) = n"
  by (simp_all add: wire_bytes_def)

context binary_sink
begin

text \<open>
  The second part of \<open>mpint.c\<close>: conversions, bitwise operations, shifts, comparison, the number of
  bits, and the SSH wire formats.
\<close>

lemma emits_mp_bytes: "emits (put_mp_bytes wr x n) (wire_bytes x n)"
proof (induction n)
  case 0
  show ?case using emits_None by (simp add: emits_def)
next
  case (Suc n)
  from emits_bind [OF emits_byte Suc.IH, of "mp_get_byte x n"] show ?case by (simp add: emits_def)
qed

lemma emits_mp_ssh2:
  "emits (put_mp_ssh2 wr x) (PUT_32BIT_MSB_FIRST (ucast ((mp_get_nbits x + 8) div 8)) @
     wire_bytes x (unat ((mp_get_nbits x + 8) div 8)))"
  using emits_bind [OF emits_uint32 emits_mp_bytes] by (rule emits_ext) (simp add: put_mp_ssh2_def Let_def)

lemma emits_mp_ssh1:
  assumes "mp_get_nbits x < 0x10000"
  shows "emits (put_mp_ssh1 wr x) (PUT_16BIT_MSB_FIRST (ucast (mp_get_nbits x)) @
     wire_bytes x (unat ((mp_get_nbits x + 7) div 8)))"
  using emits_bind [OF emits_uint16 emits_mp_bytes] by (rule emits_ext) (simp add: put_mp_ssh1_def Let_def assms)

end

lemma wire_bytes_val:
  assumes "platform_word LENGTH('w::len)"
  shows "bytes_val (rev (wire_bytes (x :: 'w mp_int) n)) = mp_val x mod 2 ^ (8 * n)"
proof -
  note P = platform_bits(5,6) [OF assms]
  have "bytes_val (map (mp_get_byte x) [0 ..< n]) = take_bit (8 * n) (mp_val x)"
  proof (rule bit_eqI)
    fix k
    show "bit (bytes_val (map (mp_get_byte x) [0 ..< n])) k = bit (take_bit (8 * n) (mp_val x)) k"
      using div_less_words [of 8 k n] mp_get_byte_bit [OF P, of x "k div 8" "k mod 8"]
      by (cases "k < 8 * n") (simp_all add: bytes_val_bit bit_take_bit_iff)
  qed
  then show ?thesis by (simp add: wire_bytes_def rev_map take_bit_eq_mod)
qed

lemma top_bit_set:
  assumes "has_nbits v n"
  shows "n \<le> k \<Longrightarrow> \<not> bit v k" "0 < n \<Longrightarrow> bit v (n - 1)"
proof -
  assume "n \<le> k"
  then have "(2::nat) ^ n \<le> 2 ^ k" by (intro power_increasing) auto
  moreover have "v < 2 ^ n" using assms by (simp add: has_nbits_def)
  ultimately have "v < 2 ^ k" by (rule order.strict_trans2 [rotated])
  then show "\<not> bit v k" by (simp add: bit_iff_odd)
next
  assume "0 < n"
  then have "v div 2 ^ (n - 1) = 1"
    using assms power_Suc [of "2::nat" "n - 1"] by (intro div_nat_eqI) (auto simp: has_nbits_def)
  then show "bit v (n - 1)" by (simp add: bit_iff_odd)
qed

lemma byte_top: "b AND 0x80 = 0 \<longleftrightarrow> \<not> bit b 7" for b :: byte
proof -
  have "bit (0x80 :: int) k \<longleftrightarrow> k = 7" for k
    using bit_exp_iff [of 7 k, where 'a = int] by auto
  then have b: "bit (b AND 0x80) k \<longleftrightarrow> k = 7 \<and> bit b 7" for k by (auto simp: bit_simps)
  show ?thesis
  proof
    assume "b AND 0x80 = 0"
    then show "\<not> bit b 7" using b [of 7] by (metis bit_0_eq bot_fun_def bot_bool_def)
  next
    assume "\<not> bit b 7"
    then show "b AND 0x80 = 0" using b by (intro bit_word_eqI) (simp del: bit_and_iff)
  qed
qed

text \<open>The number of bytes \<open>put_mp_ssh2\<close> writes leaves the top bit clear and no spare zero byte.\<close>

lemma ssh2_bytes:
  assumes L: "platform_word LENGTH('w::len)" and v: "has_nbits (mp_val (x :: 'w mp_int)) nb" and n: "n = (nb + 8) div 8"
  shows "0 < n" "mp_val x < 2 ^ (8 * n)" "\<not> bit (wire_bytes x n ! 0) 7"
    "0 < mp_val x \<Longrightarrow> wire_bytes x n ! 0 = 0 \<Longrightarrow> 1 < n \<and> bit (wire_bytes x n ! 1) 7"
proof -
  have e: "8 * n = nb + 8 - nb mod 8" "nb mod 8 < 8"
    using div_mult_mod_eq [of "nb + 8" 8] unfolding n mod_add_self2 by linarith simp
  show "0 < n" using e by linarith
  then obtain m where m: "n = Suc m" by (cases n) auto
  have nb: "nb \<le> 8 * m + 7" using e m by linarith
  then have "(2::nat) ^ nb \<le> 2 ^ (8 * n)" using m by (intro power_increasing) auto
  moreover have "mp_val x < 2 ^ nb" using v by (simp add: has_nbits_def)
  ultimately show "mp_val x < 2 ^ (8 * n)" by (rule order.strict_trans2 [rotated])
  note byte = mp_get_byte_bit [OF platform_bits(5,6) [OF L], of x]
  show "\<not> bit (wire_bytes x n ! 0) 7" using top_bit_set(1) [OF v nb] by (simp add: m byte)
  assume pos: "0 < mp_val x" and z: "wire_bytes x n ! 0 = 0"
  have "0 < nb" using v pos by (cases nb) (auto simp: has_nbits_def)
  note top = top_bit_set(2) [OF v this]
  have "nb \<le> 8 * m"
  proof (rule ccontr)
    assume "\<not> nb \<le> 8 * m"
    then have "nb - 1 = 8 * m + (nb - 1 - 8 * m)" "nb - 1 - 8 * m < 8" using nb by linarith+
    then have "bit (mp_get_byte x m) (nb - 1 - 8 * m)" using top byte [of m "nb - 1 - 8 * m"] by simp
    then show False using z by (simp add: m)
  qed
  then have nm: "nb = 8 * m" using e m by linarith
  then obtain l where l: "m = Suc l" using \<open>0 < nb\<close> by (cases m) auto
  have "bit (mp_get_byte x l) 7" using top byte [of l 7] nm l by (simp add: add.commute)
  then show "1 < n \<and> bit (wire_bytes x n ! 1) 7" by (simp add: m l)
qed


lemma get_string_of:
  assumes "src_ok src" "src_err src = BSE_NO_ERROR" "length d < 2 ^ 32"
    "here src = PUT_32BIT_MSB_FIRST (of_nat (length d)) @ d @ rest"
  obtains src' where "get_string src = (d, src')" "src_err src' = BSE_NO_ERROR" "here src' = rest" "src_ok src'"
proof -
  have "parse (shape_of (FString d)) (here src) = Some (FString d, rest)"
    using parse_encoding [of "FString d" rest] assms(3,4) by simp
  from get_field_Some [OF assms(1,2) this] obtain src' where
    "get_field SString src = (FString d, src')" "src_err src' = BSE_NO_ERROR" "here src' = rest" "follows src src'"
    by auto
  then show thesis by (intro that [of src']) (auto simp: follows_def map_prod_def split: prod.splits)
qed

lemma unat_nbits_bytes:
  assumes "unat nb + c < 2 ^ 64" "c < 2 ^ 64"
  shows "unat ((nb + of_nat c) div 8 :: 64 word) = (unat nb + c) div 8"
proof -
  have "unat (nb + of_nat c) = unat nb + c"
    using assms by (intro unat_small_sum) (simp_all add: unat_of_nat take_bit_nat_eq_self)
  then show ?thesis by (simp add: unat_div)
qed

text \<open>\<open>ssh2_wire x\<close>: what \<open>put_mp_ssh2\<close> writes for \<open>x\<close>.\<close>

definition ssh2_wire :: "'w::len mp_int \<Rightarrow> byte list" where
  "ssh2_wire x = (let n = (unat (mp_get_nbits x) + 8) div 8 in PUT_32BIT_MSB_FIRST (of_nat n) @ wire_bytes x n)"

lemma nbits_le:
  assumes "platform_word LENGTH('w::len)" "LENGTH('w) * length (x :: 'w mp_int) < 2 ^ 64"
  shows "unat (mp_get_nbits x) \<le> LENGTH('w) * length x"
proof (rule ccontr)
  assume "\<not> ?thesis"
  then have "(2::nat) ^ (LENGTH('w) * length x) \<le> 2 ^ (unat (mp_get_nbits x) - 1)" "unat (mp_get_nbits x) \<noteq> 0"
    by (auto intro: power_increasing)
  moreover have "2 ^ (unat (mp_get_nbits x) - 1) \<le> mp_val x"
    using mp_get_nbits_val [OF assms] \<open>unat (mp_get_nbits x) \<noteq> 0\<close> by (simp add: has_nbits_def)
  ultimately show False using mp_val_bound [of x] by linarith
qed


lemma ssh2_wire_put:
  assumes "unat (mp_get_nbits x) + 8 < 2 ^ 64"
  shows "ssh2_wire x = PUT_32BIT_MSB_FIRST (ucast ((mp_get_nbits x + 8) div 8)) @
     wire_bytes x (unat ((mp_get_nbits x + 8) div 8))"
proof -
  have n: "unat ((mp_get_nbits x + 8) div 8) = (unat (mp_get_nbits x) + 8) div 8"
    using unat_nbits_bytes [of "mp_get_nbits x" 8] assms by simp
  have "ucast w = (of_nat (unat w) :: 32 word)" for w :: "64 word"
    by (simp add: word_unat_eq_iff unsigned_ucast_eq unsigned_of_nat)
  then show ?thesis by (simp only: ssh2_wire_def Let_def n [symmetric])
qed

lemma mp_from_integer_Some: "platform_word LENGTH('w::len) \<Longrightarrow> \<exists>y :: 'w mp_int. mp_from_integer n = Some y"
  by (auto simp: mp_from_integer_def mp_make_sized_def platform_word_def)

lemma get_ssh2_wire:
  assumes L: "platform_word LENGTH('w::len)" "platform_word LENGTH('v::len)"
    and len: "LENGTH('w) * length (x :: 'w mp_int) < 2 ^ 34" and pos: "0 < mp_val x"
    and src: "src_ok src" "src_err src = BSE_NO_ERROR" "here src = ssh2_wire x @ rest"
  obtains src' and y :: "'v::len mp_int" where "get_mp_ssh2 src = Some (y, src')" "mp_val y = mp_val x"
    "src_err src' = BSE_NO_ERROR" "here src' = rest" "src_ok src'"
proof -
  define n where "n = (unat (mp_get_nbits x) + 8) div 8"
  have len64: "LENGTH('w) * length x < 2 ^ 64" using len by simp
  note v = mp_get_nbits_val [OF L(1) len64]
  note bytes = ssh2_bytes [OF L(1) v n_def]
  define d where "d = wire_bytes x n"
  have ld: "length d = n" "length d < 2 ^ 32" using nbits_le [OF L(1) len64] len by (simp_all add: d_def n_def)
  have "here src = PUT_32BIT_MSB_FIRST (of_nat (length d)) @ d @ rest"
    using src(3) by (simp add: ssh2_wire_def n_def [symmetric] d_def)
  from get_string_of [OF src(1,2) ld(2) this] obtain src' where
    s: "get_string src = (d, src')" "src_err src' = BSE_NO_ERROR" "here src' = rest" "src_ok src'" .
  have "length d < 2 ^ 64" using ld(2) by simp
  from mp_from_bytes_val(2) [OF platform_bits(5,6) [OF L(2)] this] obtain y :: "'v mp_int" where
    y: "mp_from_bytes_be d = Some y" "mp_val y = bytes_val (rev d)" by auto
  have "\<not> (length d > 0 \<and> (d ! 0 AND 0x80 \<noteq> 0 \<or> d ! 0 = 0 \<and> (length d \<le> 1 \<or> d ! 1 AND 0x80 = 0)))"
    using bytes(3) bytes(4) [OF pos] ld(1) unfolding byte_top d_def by auto
  then have "get_mp_ssh2 src = Some (y, src')"
    unfolding get_mp_ssh2_def Let_def s(1) split_conv by (simp only: s(2) y(1) if_False simp_thms option.map)
  moreover have "mp_val y = mp_val x"
    using y(2) wire_bytes_val [OF L(1), of x n] bytes(2) by (simp add: d_def)
  ultimately show thesis using s that by blast
qed

text \<open>Zero has one byte on the wire, which the reader refuses.\<close>

lemma get_ssh2_zero:
  assumes L: "platform_word LENGTH('w::len)" "platform_word LENGTH('v::len)"
    and len: "LENGTH('w) * length (x :: 'w mp_int) < 2 ^ 64" and zero: "mp_val x = 0"
    and src: "src_ok src" "src_err src = BSE_NO_ERROR" "here src = ssh2_wire x @ rest"
  shows "ssh2_wire x = [0, 0, 0, 1, 0]"
    and "\<exists>src' (y :: 'v mp_int). get_mp_ssh2 src = Some (y, src') \<and> src_err src' = BSE_INVALID"
proof -
  have "has_nbits 0 (unat (mp_get_nbits x))" using mp_get_nbits_val [OF L(1) len] zero by simp
  moreover have "has_nbits 0 0" by (simp add: has_nbits_def)
  ultimately have "unat (mp_get_nbits x) = 0" by (rule has_nbits_unique)
  moreover have "mp_get_byte x 0 = 0"
    using mp_get_byte_bit [OF platform_bits(5,6) [OF L(1)], of x 0] zero by (intro bit_word_eqI) simp
  ultimately show w: "ssh2_wire x = [0, 0, 0, 1, 0]"
    by (simp add: ssh2_wire_def PUT_32BIT_MSB_FIRST_def)
  have "here src = PUT_32BIT_MSB_FIRST (of_nat (length [0 :: byte])) @ [0] @ rest"
    using src(3) w by (simp add: PUT_32BIT_MSB_FIRST_def)
  from get_string_of [OF src(1,2) _ this] obtain src' where
    s: "get_string src = ([0], src')" "src_err src' = BSE_NO_ERROR" by auto
  obtain y :: "'v mp_int" where "mp_from_integer 0 = Some y" using mp_from_integer_Some [OF L(2)] by blast
  then show "\<exists>src' (y :: 'v mp_int). get_mp_ssh2 src = Some (y, src') \<and> src_err src' = BSE_INVALID"
    by (simp add: get_mp_ssh2_def s)
qed


text \<open>The SSH-1 format, with the number of bits in front.\<close>

definition ssh1_wire :: "'w::len mp_int \<Rightarrow> byte list" where
  "ssh1_wire x = (let nb = unat (mp_get_nbits x) in PUT_16BIT_MSB_FIRST (of_nat nb) @ wire_bytes x ((nb + 7) div 8))"

lemma ssh1_wire_put:
  assumes "unat (mp_get_nbits x) < 2 ^ 16"
  shows "ssh1_wire x = PUT_16BIT_MSB_FIRST (ucast (mp_get_nbits x)) @
     wire_bytes x (unat ((mp_get_nbits x + 7) div 8))"
proof -
  have n: "unat ((mp_get_nbits x + 7) div 8) = (unat (mp_get_nbits x) + 7) div 8"
    using unat_nbits_bytes [of "mp_get_nbits x" 7] assms by simp
  have "ucast w = (of_nat (unat w) :: 16 word)" for w :: "64 word"
    by (simp add: word_unat_eq_iff unsigned_ucast_eq unsigned_of_nat)
  then show ?thesis by (simp only: ssh1_wire_def Let_def n [symmetric])
qed

lemma get_ssh1_wire:
  assumes L: "platform_word LENGTH('w::len)" "platform_word LENGTH('v::len)"
    and len: "LENGTH('w) * length (x :: 'w mp_int) < 2 ^ 16"
    and src: "src_ok src" "src_err src = BSE_NO_ERROR" "here src = ssh1_wire x @ rest"
  obtains src' and y :: "'v::len mp_int" where "get_mp_ssh1 src = Some (y, src')" "mp_val y = mp_val x"
    "src_err src' = BSE_NO_ERROR" "here src' = rest" "src_ok src'"
proof -
  define nb n where "nb = unat (mp_get_nbits x)" and "n = (nb + 7) div 8"
  have len64: "LENGTH('w) * length x < 2 ^ 64" using len by simp
  have v: "has_nbits (mp_val x) nb" unfolding nb_def by (rule mp_get_nbits_val [OF L(1) len64])
  have nb: "nb < 2 ^ 16" using nbits_le [OF L(1) len64] len by (simp add: nb_def)
  have n: "n \<le> 2 ^ 13" using nb by (simp add: n_def)
  define d where "d = wire_bytes x n"
  have h: "here src = encodings [FUint16 (of_nat nb), FData d] @ rest"
    using src(3) nb by (simp add: ssh1_wire_def encodings_def nb_def [symmetric] n_def [symmetric] d_def ucast_of_nat64 [where 'w = 16])
  have ft: "\<forall>f \<in> set [FUint16 (of_nat nb), FData d]. fits_type f"
    using nb n by (simp add: unat_of_nat take_bit_nat_eq_self d_def)
  from get_fields_encodings [OF ft src(1,2) h] obtain src' where
    g: "get_fields [SUint16, SData (of_nat (length d))] src = ([FUint16 (of_nat nb), FData d], src')"
    "src_err src' = BSE_NO_ERROR" "here src' = rest" "src_ok src'" by auto
  obtain w s1 where w: "get_uint16 src = (w, s1)" by fastforce
  have w': "(ucast w :: 64 word) = of_nat nb" and dat: "get_data (of_nat (length d)) s1 = (d, src')"
    using g(1) w by (auto simp: map_prod_def split: prod.splits)
  have uw: "unat w = nb"
    using arg_cong [OF w', of unat] nb by (simp add: unsigned_ucast_eq unsigned_of_nat take_bit_nat_eq_self take_bit_nat_eq_self [OF unat_bound])
  have "unat (w + 7) = nb + 7" using nb uw by (intro unat_small_sum) simp_all
  then have "unat ((w + 7) div 8) = n" by (simp add: unat_div n_def)
  then have "unat (ucast ((w + 7) div 8) :: 64 word) = n" using n by (simp add: unsigned_ucast_eq take_bit_nat_eq_self)
  then have cnt: "ucast ((w + 7) div 8) = (of_nat (length d) :: 64 word)"
    using n by (simp add: word_unat_eq_iff unsigned_of_nat take_bit_nat_eq_self d_def)
  have "length d < 2 ^ 64" using n by (simp add: d_def)
  from mp_from_bytes_val(2) [OF platform_bits(5,6) [OF L(2)] this] obtain y :: "'v mp_int" where
    y: "mp_from_bytes_be d = Some y" "mp_val y = bytes_val (rev d)" "length y \<le> length d + 1" by auto
  have "8 * n \<ge> nb" unfolding n_def by linarith
  then have "(2::nat) ^ nb \<le> 2 ^ (8 * n)" by (intro power_increasing) auto
  moreover have "mp_val x < 2 ^ nb" using v by (simp add: has_nbits_def)
  ultimately have "mp_val x < 2 ^ (8 * n)" by linarith
  then have vy: "mp_val y = mp_val x" using y(2) wire_bytes_val [OF L(1), of x n] by (simp add: d_def)
  have "LENGTH('v) * length y \<le> 64 * (2 ^ 13 + 1)"
    using y(3) n platform_bits(4) [OF L(2)] by (intro mult_le_mono) (auto simp: d_def)
  then have "LENGTH('v) * length y < 2 ^ 64" by simp
  from mp_get_nbits_val [OF L(2) this] have "unat (mp_get_nbits y) = nb" using vy v has_nbits_unique by simp
  then have "mp_get_nbits y = ucast w" using w' nb by (simp add: word_unat_eq_iff unsigned_of_nat take_bit_nat_eq_self)
  then have "get_mp_ssh1 src = Some (y, src')"
    unfolding get_mp_ssh1_def w Let_def split_conv cnt dat by (simp add: g(2) y(1))
  then show thesis using that vy g by blast
qed


lemma mp_rshift_fixed_val:
  fixes x :: "'w::len mp_int"
  obtains r where "mp_rshift_fixed x s = Some r" "mp_val r = mp_val x div 2 ^ s"
proof -
  define q where "q = s div LENGTH('w)"
  define n where "n = max (length x - min (length x) q) 1"
  have "mp_val x div 2 ^ s < 2 ^ (LENGTH('w) * n)"
  proof -
    have "length x \<le> n + q" by (simp add: n_def)
    then have "LENGTH('w) * length x \<le> LENGTH('w) * n + LENGTH('w) * q"
      unfolding add_mult_distrib2 [symmetric] by (rule mult_le_mono2)
    also have "\<dots> \<le> LENGTH('w) * n + s" by (simp add: q_def)
    finally have "(2::nat) ^ (LENGTH('w) * length x) \<le> 2 ^ (LENGTH('w) * n + s)" by (intro power_increasing) auto
    then have "mp_val x < 2 ^ (LENGTH('w) * n) * 2 ^ s" using mp_val_bound [of x] by (simp add: power_add)
    then show ?thesis by (rule less_mult_imp_div_less)
  qed
  moreover have "mp_rshift_fixed x s = Some (mp_rshift_fixed_into n x s)"
    by (simp add: mp_rshift_fixed_def Let_def mp_make_sized_def n_def q_def)
  ultimately show thesis using that by (simp add: mp_rshift_fixed_into_val take_bit_nat_eq_self drop_bit_eq_div)
qed

lemma mp_min_max_val:
  fixes x y :: "'w::len mp_int"
  shows "0 < length x \<Longrightarrow> 0 < length y \<Longrightarrow> \<exists>r. mp_min x y = Some r \<and> mp_val r = min (mp_val x) (mp_val y)"
    and "0 < length x \<Longrightarrow> \<exists>r. mp_max x y = Some r \<and> mp_val r = max (mp_val x) (mp_val y)"
proof -
  have b: "mp_val z < 2 ^ (LENGTH('w) * n)" if "length z \<le> n" for z :: "'w mp_int" and n
  proof -
    have "(2::nat) ^ (LENGTH('w) * length z) \<le> 2 ^ (LENGTH('w) * n)" using that by (intro power_increasing) auto
    then show ?thesis using mp_val_bound [of z] by linarith
  qed
  have lo: "min (mp_val x) (mp_val y) < 2 ^ (LENGTH('w) * min (length x) (length y))"
    using b [of x "length x"] b [of y "length y"] by (auto simp: min_def)
  have hi: "max (mp_val x) (mp_val y) < 2 ^ (LENGTH('w) * max (length x) (length y))"
    using b [of x "max (length x) (length y)"] b [of y "max (length x) (length y)"] by simp
  have "mp_val (mp_min_into n x y) = take_bit (LENGTH('w) * n) (min (mp_val x) (mp_val y))"
    "mp_val (mp_max_into n x y) = take_bit (LENGTH('w) * n) (max (mp_val x) (mp_val y))" for n
    by (simp_all add: mp_min_into_def mp_max_into_def mp_select_into_val mp_cmp_hs_val)
  then show "0 < length x \<Longrightarrow> 0 < length y \<Longrightarrow> \<exists>r. mp_min x y = Some r \<and> mp_val r = min (mp_val x) (mp_val y)"
    "0 < length x \<Longrightarrow> \<exists>r. mp_max x y = Some r \<and> mp_val r = max (mp_val x) (mp_val y)"
    using lo hi by (simp_all add: mp_min_def mp_max_def mp_make_sized_def take_bit_nat_eq_self)
qed

section \<open>Properties\<close>

text \<open>
  C29: the operations on words do to the values what their names say. The shifts multiply and
  divide by a power of two (\<open>mp_rshift_fixed\<close> sizes its own result, which is never cut), the bitwise
  operations and the selection act on the values, \<open>mp_cmp_eq\<close> decides equality of values whatever
  the lengths, and \<open>mp_min\<close> and \<open>mp_max\<close> are exact.
\<close>

theorem mp_bits_by_value:
  fixes x y :: "'w::len mp_int"
  assumes "2 \<le> LENGTH('w)" "0 < length x" "0 < length y"
  shows "mp_val (mp_lshift_fixed_into n x s) = mp_val x * 2 ^ s mod 2 ^ (LENGTH('w) * n) \<and>
    mp_val (mp_rshift_fixed_into n x s) = mp_val x div 2 ^ s mod 2 ^ (LENGTH('w) * n) \<and>
    (\<exists>r. mp_rshift_fixed x s = Some r \<and> mp_val r = mp_val x div 2 ^ s) \<and>
    mp_val (mp_and_into n x y) = (mp_val x AND mp_val y) mod 2 ^ (LENGTH('w) * n) \<and>
    mp_val (mp_or_into n x y) = (mp_val x OR mp_val y) mod 2 ^ (LENGTH('w) * n) \<and>
    mp_val (mp_xor_into n x y) = (mp_val x XOR mp_val y) mod 2 ^ (LENGTH('w) * n) \<and>
    mp_val (mp_select_into n x y w) = (if odd w then mp_val y else mp_val x) mod 2 ^ (LENGTH('w) * n) \<and>
    mp_get_bit x k = of_bool (bit (mp_val x) k) \<and>
    mp_cmp_eq x y = (if mp_val x = mp_val y then 1 else 0) \<and>
    (\<exists>r. mp_min x y = Some r \<and> mp_val r = min (mp_val x) (mp_val y)) \<and>
    (\<exists>r. mp_max x y = Some r \<and> mp_val r = max (mp_val x) (mp_val y))"
proof -
  obtain r where "mp_rshift_fixed x s = Some r" "mp_val r = mp_val x div 2 ^ s" by (rule mp_rshift_fixed_val)
  then show ?thesis
    using mp_min_max_val(1) [OF assms(2,3)] mp_min_max_val(2) [OF assms(2), of y]
    by (simp add: mp_lshift_fixed_into_val mp_rshift_fixed_into_val logic_val mp_select_into_val mp_get_bit_val
        mp_cmp_eq_val [OF assms(1)] take_bit_eq_mod push_bit_eq_mult drop_bit_eq_div)
qed

theorem mp_bits_by_value_witness:
  "mp_val (mp_lshift_fixed_into 3 [5, 9 :: 32 word] 40) = (5 + 9 * 2 ^ 32) * 2 ^ 40 mod 2 ^ 96 \<and>
   mp_cmp_eq [5, 9 :: 32 word] [5] = 0"
proof -
  have "2 \<le> LENGTH(32)" "0 < length [5, 9 :: 32 word]" "0 < length [5 :: 32 word]" by simp_all
  from mp_bits_by_value [OF this, of 3 40] show ?thesis by simp
qed

text \<open>
  C30: round trip of the wire formats. A number marshalled in the SSH-1 format and another, not
  zero, in the SSH-2 format are read back with their values, with no error and nothing left over,
  also on a platform with another word size.
\<close>

theorem mp_wire_roundtrip:
  fixes x y :: "'w::len mp_int"
  assumes L: "platform_word LENGTH('w)" "platform_word LENGTH('v::len)"
    and len: "LENGTH('w) * length x < 2 ^ 16" "LENGTH('w) * length y < 2 ^ 20" "0 < mp_val y"
    and buf: "strbuf_new_general limit nm = Some buf" "strbuf_fits limit buf (2 ^ 18)"
  shows "\<exists>b1 b2 s1 s2. \<exists>(x' :: 'v::len mp_int) (y' :: 'v mp_int). put_mp_ssh1 (strbuf_BinarySink_write limit) x buf = Some b1 \<and>
    put_mp_ssh2 (strbuf_BinarySink_write limit) y b1 = Some b2 \<and>
    get_mp_ssh1 (BinarySource_INIT (strbuf_data b2)) = Some (x', s1) \<and> get_mp_ssh2 s1 = Some (y', s2) \<and>
    mp_val x' = mp_val x \<and> mp_val y' = mp_val y \<and> src_err s2 = BSE_NO_ERROR \<and> here s2 = []"
proof -
  have n: "unat (mp_get_nbits x) < 2 ^ 16" "unat (mp_get_nbits y) < 2 ^ 20"
    using nbits_le [OF L(1), of x] nbits_le [OF L(1), of y] len by simp_all
  then have nx: "mp_get_nbits x < 0x10000" by (simp add: word_less_nat_alt)
  have l: "length (ssh1_wire x) \<le> 2 ^ 14" "length (ssh2_wire y) \<le> 2 ^ 17 + 8"
    using n by (simp_all add: ssh1_wire_def ssh2_wire_def Let_def byte_simps)
  have "strbuf_sink.emits limit (put_mp_ssh1 (strbuf_BinarySink_write limit) x) (ssh1_wire x)"
    "strbuf_sink.emits limit (put_mp_ssh2 (strbuf_BinarySink_write limit) y) (ssh2_wire y)"
    using strbuf_sink.emits_mp_ssh1 [OF nx, of limit] strbuf_sink.emits_mp_ssh2 [of limit y]
      ssh1_wire_put [OF n(1)] ssh2_wire_put [of y] n(2) by simp_all
  then have "strbuf_sink.emits limit (\<lambda>b. Option.bind (put_mp_ssh1 (strbuf_BinarySink_write limit) x b)
      (put_mp_ssh2 (strbuf_BinarySink_write limit) y)) (ssh1_wire x @ ssh2_wire y)"
    by (rule strbuf_sink.emits_bind)
  then obtain b2 where b2: "Option.bind (put_mp_ssh1 (strbuf_BinarySink_write limit) x buf)
      (put_mp_ssh2 (strbuf_BinarySink_write limit) y) = Some b2" "strbuf_data b2 = ssh1_wire x @ ssh2_wire y"
    using strbuf_new_ok [OF buf(1)] buf(2) l unfolding strbuf_sink.emits_def
    by (elim allE [of _ buf] allE [of _ "2 ^ 18"]) auto
  then obtain b1 where b1: "put_mp_ssh1 (strbuf_BinarySink_write limit) x buf = Some b1"
      "put_mp_ssh2 (strbuf_BinarySink_write limit) y b1 = Some b2"
    by (auto simp: bind_eq_Some_conv)
  have "length (strbuf_data b2) < 2 ^ 64" using b2(2) l by simp
  note init = INIT_ok [OF this]
  obtain s1 and x' :: "'v mp_int" where 1: "get_mp_ssh1 (BinarySource_INIT (strbuf_data b2)) = Some (x', s1)"
      "mp_val x' = mp_val x" "src_err s1 = BSE_NO_ERROR" "here s1 = ssh2_wire y" "src_ok s1"
    by (rule get_ssh1_wire [OF L len(1) init(1,2), of "ssh2_wire y"]) (use init(3) b2(2) in simp)
  obtain s2 and y' :: "'v mp_int" where "get_mp_ssh2 s1 = Some (y', s2)" "mp_val y' = mp_val y"
      "src_err s2 = BSE_NO_ERROR" "here s2 = []"
    by (rule get_ssh2_wire [OF L _ len(3) 1(5,3), of "[]"]) (use len(2) 1(4) in simp_all)
  then show ?thesis using b1 1 by blast
qed

lemma big_strbuf: "\<exists>buf. strbuf_new_general 1000000 False = Some buf \<and> strbuf_fits 1000000 buf (2 ^ 18)"
proof -
  obtain s where s: "safemalloc 1000000 512 1 0 = Some s"
    using safemalloc_succeeds [of 512 1000000] by auto
  have "512 \<le> length s" using safemalloc_block(1) [OF s] by simp
  then have "\<exists>s'. poke s 0 [0] = Some s'" using poke_ok [of 0 "[0]" s] by auto
  then obtain buf where buf: "strbuf_new_general 1000000 False = Some buf" using s by (auto simp: strbuf_new_general_def)
  have "strbuf_fits 1000000 buf (2 ^ 18)"
    using strbuf_new_ok(3) [OF buf] by (simp add: strbuf_fits_def Let_def INT_MAX_def)
  then show ?thesis using buf by blast
qed

theorem mp_wire_roundtrip_witness:
  "\<exists>buf b1 b2 s1 s2. \<exists>(x' :: 32 word list) (y' :: 32 word list). strbuf_new_general 1000000 False = Some buf \<and>
    put_mp_ssh1 (strbuf_BinarySink_write 1000000) [5, 0 :: 64 word] buf = Some b1 \<and>
    put_mp_ssh2 (strbuf_BinarySink_write 1000000) [7, 255 :: 64 word] b1 = Some b2 \<and>
    get_mp_ssh1 (BinarySource_INIT (strbuf_data b2)) = Some (x', s1) \<and> get_mp_ssh2 s1 = Some (y', s2) \<and>
    mp_val x' = 5 \<and> mp_val y' = 7 + 255 * 2 ^ 64 \<and> here s2 = []"
proof -
  obtain buf where buf: "strbuf_new_general 1000000 False = Some buf" "strbuf_fits 1000000 buf (2 ^ 18)"
    using big_strbuf by blast
  have "platform_word LENGTH(64)" "platform_word LENGTH(32)" by (simp_all add: platform_word_def)
  moreover have "LENGTH(64) * length [5, 0 :: 64 word] < 2 ^ 16" "LENGTH(64) * length [7, 255 :: 64 word] < 2 ^ 20"
    "0 < mp_val [7, 255 :: 64 word]" by simp_all
  ultimately obtain b1 b2 s1 s2 and x' y' :: "32 word list" where
    "put_mp_ssh1 (strbuf_BinarySink_write 1000000) [5, 0 :: 64 word] buf = Some b1"
    "put_mp_ssh2 (strbuf_BinarySink_write 1000000) [7, 255 :: 64 word] b1 = Some b2"
    "get_mp_ssh1 (BinarySource_INIT (strbuf_data b2)) = Some (x', s1)" "get_mp_ssh2 s1 = Some (y', s2)"
    "mp_val x' = mp_val [5, 0 :: 64 word]" "mp_val y' = mp_val [7, 255 :: 64 word]" "here s2 = []"
    using mp_wire_roundtrip [OF _ _ _ _ _ buf, of "[5, 0 :: 64 word]" "[7, 255 :: 64 word]", where 'v = 32] by blast
  then show ?thesis using buf(1)
    by - (rule exI [of _ buf], rule exI [of _ b1], rule exI [of _ b2], rule exI [of _ s1], rule exI [of _ s2],
      rule exI [of _ x'], rule exI [of _ y'], simp)
qed

text \<open>
  C31: zero does not survive the SSH-2 format. The writer puts one zero byte for it, on every
  platform and for every length of the number, and the reader refuses that as invalid.
\<close>

theorem mp_ssh2_zero_refused:
  fixes x :: "'w::len mp_int"
  assumes L: "platform_word LENGTH('w)" "platform_word LENGTH('v::len)"
    and len: "LENGTH('w) * length x < 2 ^ 32" "mp_val x = 0"
    and buf: "strbuf_new_general limit nm = Some buf" "strbuf_fits limit buf 5"
  shows "\<exists>b s. \<exists>y :: 'v mp_int. put_mp_ssh2 (strbuf_BinarySink_write limit) x buf = Some b \<and>
    strbuf_data b = [0, 0, 0, 1, 0] \<and>
    get_mp_ssh2 (BinarySource_INIT (strbuf_data b)) = Some (y, s) \<and> src_err s = BSE_INVALID"
proof -
  have l64: "LENGTH('w) * length x < 2 ^ 64" using len by simp
  have init: "src_ok (BinarySource_INIT (ssh2_wire x))" "src_err (BinarySource_INIT (ssh2_wire x)) = BSE_NO_ERROR"
    "here (BinarySource_INIT (ssh2_wire x)) = ssh2_wire x"
    by (rule INIT_ok; use nbits_le [OF L(1) l64] len in \<open>simp add: ssh2_wire_def Let_def byte_simps\<close>)+
  note zero = get_ssh2_zero [OF L l64 len(2) init(1,2), of "[]", simplified, OF init(3)]
  have "unat (mp_get_nbits x) + 8 < 2 ^ 64" using nbits_le [OF L(1) l64] len by simp
  from strbuf_sink.emits_mp_ssh2 [of limit x] ssh2_wire_put [OF this] zero(1)
  have "strbuf_sink.emits limit (put_mp_ssh2 (strbuf_BinarySink_write limit) x) [0, 0, 0, 1, 0]" by simp
  then obtain b where "put_mp_ssh2 (strbuf_BinarySink_write limit) x buf = Some b" "strbuf_data b = [0, 0, 0, 1, 0]"
    using strbuf_new_ok [OF buf(1)] buf(2) unfolding strbuf_sink.emits_def
    by (elim allE [of _ buf] allE [of _ 5]) auto
  then show ?thesis using zero by simp
qed

theorem mp_ssh2_zero_refused_witness:
  "\<exists>buf b s. \<exists>y :: 64 word list. strbuf_new_general 1000000 False = Some buf \<and>
    put_mp_ssh2 (strbuf_BinarySink_write 1000000) [0 :: 64 word] buf = Some b \<and>
    get_mp_ssh2 (BinarySource_INIT (strbuf_data b)) = Some (y, s) \<and> src_err s = BSE_INVALID"
proof -
  obtain buf where buf: "strbuf_new_general 1000000 False = Some buf" "strbuf_fits 1000000 buf (2 ^ 18)"
    using big_strbuf by blast
  have "platform_word LENGTH(64)" by (simp add: platform_word_def)
  moreover have "strbuf_fits 1000000 buf 5" using buf(2) by (auto simp: strbuf_fits_def Let_def)
  ultimately show ?thesis using mp_ssh2_zero_refused [OF _ _ _ _ buf(1), of "[0 :: 64 word]", where 'v = 64] buf(1)
    by auto
qed

end
