(* ===== verification/MpMod.thy ===== *)
theory MpMod
  imports MpBits
begin

text \<open>
  The third part of \<open>mpint.c\<close>: reduction and inversion modulo a power of two, and Montgomery
  arithmetic. The reductions modulo any number are in \<open>mp_divmod_into\<close>.
\<close>

section \<open>Reduction modulo a power of two\<close>

text \<open>The mask is a \<open>size_t\<close>, cut to a word by the assignment.\<close>

fun reduce_words :: "'w::len mp_int \<Rightarrow> nat \<Rightarrow> 64 word \<Rightarrow> 'w mp_int" where
  "reduce_words [] n m = []"
| "reduce_words (w # x) 0 m = (w AND ucast m) # reduce_words x 0 0"
| "reduce_words (w # x) (Suc n) m = w # reduce_words x n m"

definition mp_reduce_mod_2to :: "'w::len mp_int \<Rightarrow> nat \<Rightarrow> 'w mp_int" where
  "mp_reduce_mod_2to x p = reduce_words x (p div LENGTH('w)) (push_bit (p mod LENGTH('w)) 1 - 1)"

subsection \<open>Inverse modulo a power of two\<close>

text \<open>
  One step of the loop of \<open>mp_invert_mod_2to\<close>: \<open>r\<close> inverts \<open>x\<close> modulo \<open>2^b\<close>, and afterwards
  modulo \<open>2^(2b)\<close>. The pool is what is left of the scratch space behind the part for the
  multiplication.
\<close>

definition invert_step :: "'w::len mp_int \<Rightarrow> nat \<Rightarrow> nat \<Rightarrow> nat \<Rightarrow> 'w mp_int \<Rightarrow> 'w mp_int option" where
  "invert_step x pool mul_scratch b r =
     (let Bw = (b + LENGTH('w) - 1) div LENGTH('w);
          B2w = (2 * b + LENGTH('w) - 1) div LENGTH('w)
      in Option.bind (mp_alloc_from_scratch pool Bw) (\<lambda>pool.
         let x0 = mp_reduce_mod_2to (mp_copy_into Bw x) b; r0 = mp_make_alias r 0 Bw in
         Option.bind (mp_alloc_from_scratch pool B2w) (\<lambda>pool.
         Option.bind (mp_mul_internal B2w x0 r0 mul_scratch) (\<lambda>Kshift.
         Option.bind (mp_alloc_from_scratch pool Bw) (\<lambda>pool.
         let K = mp_rshift_fixed_into Bw Kshift b in
         Option.bind (mp_alloc_from_scratch pool Bw) (\<lambda>pool.
         let x1 = mp_reduce_mod_2to (mp_rshift_fixed_into Bw x b) b;
             rx = length (mp_make_alias Kshift 0 Bw)
         in
         Option.bind (mp_mul_internal rx r0 x1 mul_scratch) (\<lambda>r0x1.
         let r0x1 = mp_add_into rx r0x1 K; r0x1 = mp_neg_into rx r0x1 in
         Option.bind (mp_alloc_from_scratch pool Bw) (\<lambda>pool.
         Option.bind (mp_mul_internal Bw r0 r0x1 mul_scratch) (\<lambda>r1.
         let r1 = mp_reduce_mod_2to r1 b;
             K = mp_lshift_fixed_into Bw r1 (b mod LENGTH('w));
             Bpos = b div LENGTH('w);
             r1_position = mp_make_alias r Bpos (B2w - Bpos);
             r1_position = mp_add_into (length r1_position) r1_position K
         in Some (take Bpos r @ r1_position @ drop (Bpos + length r1_position) r))))))))))"

function invert_loop :: "'w::len mp_int \<Rightarrow> nat \<Rightarrow> nat \<Rightarrow> nat \<Rightarrow> nat \<Rightarrow> 'w mp_int \<Rightarrow> 'w mp_int option" where
  "invert_loop x pool mul_scratch p b r =
     (if b \<noteq> 0 \<and> b < p then
        Option.bind (invert_step x pool mul_scratch b r) (invert_loop x pool mul_scratch p (2 * b))
      else Some r)"
  by pat_completeness auto
termination by (relation "measure (\<lambda>(_, _, _, p, b, _). p - b)") auto

declare invert_loop.simps [simp del]

definition mp_invert_mod_2to :: "'w::len mp_int \<Rightarrow> nat \<Rightarrow> 'w mp_int option" where
  "mp_invert_mod_2to x p =
     (if length x > 0 \<and> x ! 0 AND 1 \<noteq> 0 \<and> p > 0 then
        let rw = max ((p + LENGTH('w) - 1) div LENGTH('w)) 1;
            mul_scratchsize = mp_mul_scratchspace (2 * rw) rw rw
        in
        Option.bind (mp_make_sized rw :: 'w mp_int option) (\<lambda>r.
        Option.bind (mp_make_sized (6 * rw + mul_scratchsize) :: 'w mp_int option) (\<lambda>scratch_orig.
        Option.bind (mp_alloc_from_scratch (length scratch_orig) mul_scratchsize) (\<lambda>pool.
        map_option (\<lambda>r. mp_reduce_mod_2to r p) (invert_loop x pool mul_scratchsize p 1 (r[0 := 1])))))
      else None)"


section \<open>Values\<close>

lemma length_reduce_words [simp]: "length (reduce_words x n m) = length x"
  by (induction x n m rule: reduce_words.induct) simp_all

lemma length_reduce [simp]: "length (mp_reduce_mod_2to x p) = length x"
  by (simp add: mp_reduce_mod_2to_def)

lemma reduce_words_word:
  "mp_word (reduce_words x n m) i = (if i < n then mp_word x i else if i = n then mp_word x i AND ucast m else 0)"
proof (induction x n m arbitrary: i rule: reduce_words.induct)
  case (2 w x m)
  show ?case
  proof (cases i)
    case (Suc j)
    then show ?thesis using 2 [of j] by (cases "j = 0") (simp_all add: mp_word_Cons)
  qed (simp add: mp_word_Cons)
next
  case (3 w x n m)
  then show ?case by (cases i) (simp_all add: mp_word_Cons)
qed (simp add: mp_word_def)

lemma mp_reduce_mod_2to_val:
  assumes "LENGTH('w::len) \<le> 64"
  shows "mp_val (mp_reduce_mod_2to (x :: 'w mp_int) p) = mp_val x mod 2 ^ p"
proof -
  let ?L = "LENGTH('w)"
  have mask: "bit (ucast (push_bit o1 1 - 1 :: 64 word) :: 'w word) k \<longleftrightarrow> k < o1" if "o1 < ?L" "k < ?L" for o1 k
  proof -
    have "push_bit o1 1 - 1 = (mask o1 :: 64 word)" by (simp add: mask_eq_exp_minus_1 push_bit_eq_mult)
    then show ?thesis using that assms by (auto simp: bit_simps)
  qed
  have "mp_val (mp_reduce_mod_2to x p) = take_bit p (mp_val x)"
  proof (rule mp_val_eqI)
    fix k
    have "p mod ?L < ?L" "k mod ?L < ?L" by simp_all
    from mask [OF this] show "bit (mp_word (mp_reduce_mod_2to x p) (k div ?L)) (k mod ?L) \<longleftrightarrow> bit (take_bit p (mp_val x)) k"
      using less_divmod [of ?L k p]
      by (auto simp: mp_reduce_mod_2to_def reduce_words_word bit_take_bit_iff mp_val_bit bit_and_iff)
  qed
  then show ?thesis by (simp add: take_bit_eq_mod)
qed

lemma length_shift [simp]:
  "length (mp_rshift_fixed_into n a s) = n" "length (mp_lshift_fixed_into n a s) = n" "length (mp_copy_into n a) = n"
  "length (mp_neg_into n a) = n"
  by (simp_all add: mp_rshift_fixed_into_def mp_lshift_fixed_into_def mp_copy_into_def mp_neg_into_def Let_def)

lemma mul_internal_val:
  fixes a b :: "'w::len mp_int"
  assumes "2 \<le> LENGTH('w)" "6 * min n (max (length a) (length b)) \<le> sc"
  obtains r where "mp_mul_internal n a b sc = Some r" "length r = n" "mp_val r = mp_val a * mp_val b mod 2 ^ (LENGTH('w) * n)"
  using mul_internal_ok [OF assms] by (auto simp: mul_post_def)

text \<open>Adding into the words of \<open>r\<close> at a position.\<close>

lemma splice_val:
  fixes r k :: "'w::len mp_int"
  assumes "i + n \<le> length r" "mp_val r < 2 ^ (LENGTH('w) * (i + n))"
  shows "mp_val (take i r @ mp_add_into n (take n (drop i r)) k @ drop (i + n) r) =
    (mp_val r + 2 ^ (LENGTH('w) * i) * mp_val k) mod 2 ^ (LENGTH('w) * (i + n))"
proof -
  define D M where "D = (2::nat) ^ (LENGTH('w) * i)" and "M = (2::nat) ^ (LENGTH('w) * n)"
  have DM: "2 ^ (LENGTH('w) * (i + n)) = D * M" by (simp add: D_def M_def power_add add_mult_distrib2)
  have "mp_val (drop (i + n) r) = 0" using assms(2) by (simp add: mp_val_drop)
  then have "mp_val (take i r @ mp_add_into n (take n (drop i r)) k @ drop (i + n) r) =
      mp_val r mod D + D * ((mp_val r div D mod M + mp_val k) mod M)"
    using assms(1) by (simp add: mp_val_append mp_add_into_val mp_val_take mp_val_drop D_def M_def)
  also have "\<dots> = mp_val r mod D + D * ((mp_val r div D + mp_val k) mod M)" by (simp only: mod_add_left_eq)
  also have "\<dots> = (mp_val r mod D + D * (mp_val r div D + mp_val k)) mod (D * M)"
    by (rule digit_mod) (simp add: D_def)
  also have "mp_val r mod D + D * (mp_val r div D + mp_val k) = mp_val r + D * mp_val k"
    unfolding add_mult_distrib2 by (simp only: add.assoc [symmetric] mod_mult_div_eq)
  finally show ?thesis by (simp only: DM D_def)
qed

text \<open>The step from an inverse modulo \<open>B\<close> to one modulo \<open>B * B\<close>.\<close>

lemma hensel_step:
  fixes x0 x1 r0 r1 B K :: int
  assumes "x0 * r0 = 1 + B * K" "B dvd r1 + r0 * (r0 * x1 + K)"
  shows "B * B dvd (x0 + B * x1) * (r0 + B * r1) - 1"
proof -
  obtain t where "r1 + r0 * (r0 * x1 + K) = B * t" using assms(2) by (rule dvdE)
  then have t: "r1 = B * t - r0 * (r0 * x1 + K)" by (simp add: eq_diff_eq)
  have "(x0 + B * x1) * (r0 + B * r1) - 1 = (x0 * r0 - 1) + B * (x1 * r0) + B * (x0 * r1) + B * B * (x1 * r1)"
    by (simp add: algebra_simps)
  also have "B * (x0 * r1) = B * B * (x0 * t) - B * (x0 * r0) * (r0 * x1 + K)" unfolding t by (simp add: algebra_simps)
  also have "\<dots> = B * B * (x0 * t) - B * (r0 * x1 + K) - B * B * K * (r0 * x1 + K)" unfolding assms(1) by (simp add: algebra_simps)
  finally have "(x0 + B * x1) * (r0 + B * r1) - 1 = B * B * (x0 * t - K * (r0 * x1 + K) + x1 * r1)"
    using assms(1) by (simp add: algebra_simps)
  then show ?thesis by (simp only: dvd_triv_left)
qed


text \<open>
  What the loop keeps: \<open>b\<close> is a power of two aligned with the words, \<open>r\<close> is below \<open>2^b\<close> and
  inverts \<open>x\<close> as far as its words reach.
\<close>

definition aligned :: "nat \<Rightarrow> nat \<Rightarrow> bool" where
  "aligned L b \<longleftrightarrow> 0 < b \<and> (b < L \<longrightarrow> 2 * b \<le> L) \<and> (L \<le> b \<longrightarrow> L dvd b)"

definition inverts :: "nat \<Rightarrow> nat \<Rightarrow> nat \<Rightarrow> bool" where
  "inverts x r k \<longleftrightarrow> (2 ^ k :: int) dvd int x * int r - 1"

lemma inverts_le: "inverts x r n \<Longrightarrow> m \<le> n \<Longrightarrow> inverts x r m"
  unfolding inverts_def by (meson dvd_trans le_imp_power_dvd)

lemma inverts_mod: "inverts x r n \<Longrightarrow> m \<le> n \<Longrightarrow> m \<le> k \<Longrightarrow> inverts x (r mod 2 ^ k) m"
proof -
  assume r: "inverts x r n" "m \<le> n" "m \<le> k"
  have "r = r mod 2 ^ k + 2 ^ k * (r div 2 ^ k)" by simp
  from arg_cong [OF this, of int] have "int r = int (r mod 2 ^ k) + 2 ^ k * int (r div 2 ^ k)"
    by (simp only: of_nat_add of_nat_mult of_nat_power of_nat_numeral)
  then have "int x * int r - 1 = (int x * int (r mod 2 ^ k) - 1) + 2 ^ k * (int x * int (r div 2 ^ k))"
    by (simp add: algebra_simps)
  moreover have "(2 ^ m :: int) dvd 2 ^ k * (int x * int (r div 2 ^ k))"
    using le_imp_power_dvd [OF r(3)] by (rule dvd_mult2)
  moreover have "(2 ^ m :: int) dvd int x * int r - 1" using inverts_le [OF r(1,2)] by (simp add: inverts_def)
  ultimately show "inverts x (r mod 2 ^ k) m" unfolding inverts_def by (metis dvd_add_left_iff)
qed

text \<open>The counts of words for \<open>b\<close> and \<open>2 b\<close> bits.\<close>

lemma aligned_words:
  assumes "aligned L b" "0 < L"
  obtains (small) "b < L" "2 * b \<le> L" "(b + L - 1) div L = 1" "(2 * b + L - 1) div L = 1" "b div L = 0" "b mod L = b"
  | (large) w where "0 < w" "b = L * w" "(b + L - 1) div L = w" "(2 * b + L - 1) div L = 2 * w" "b div L = w" "b mod L = 0"
proof (cases "b < L")
  case True
  then have "2 * b \<le> L" "0 < b" using assms(1) by (simp_all add: aligned_def)
  moreover have "(x + L - 1) div L = 1" if "0 < x" "x \<le> L" for x
  proof -
    have "x + L - 1 = 1 * L + (x - 1)" "x - 1 < L" using that by simp_all
    then show ?thesis using mul_add_divmod(1) by metis
  qed
  ultimately show thesis using small True by simp
next
  case False
  then obtain w where w: "b = L * w" using assms(1) by (auto simp: aligned_def elim: dvdE)
  have "(L * v + L - 1) div L = v" for v
  proof -
    have "L * v + L - 1 = v * L + (L - 1)" "L - 1 < L" using assms(2) by (simp_all add: mult.commute)
    then show ?thesis using mul_add_divmod(1) by metis
  qed
  from this [of w] this [of "2 * w"] show thesis using large [of w] w assms False by (simp add: aligned_def mult.left_commute)
qed


lemma alloc_some: "n \<le> pool \<Longrightarrow> mp_alloc_from_scratch pool n = Some (pool - n)"
  by (simp add: mp_alloc_from_scratch_def)

lemma invert_step_run:
  fixes x r :: "'w::len mp_int"
  assumes "Bw = (b + LENGTH('w) - 1) div LENGTH('w)" "B2w = (2 * b + LENGTH('w) - 1) div LENGTH('w)"
    and pool: "4 * Bw + B2w \<le> pool"
    and "x0 = mp_reduce_mod_2to (mp_copy_into Bw x) b" "r0 = mp_make_alias r 0 Bw"
    and k: "mp_mul_internal B2w x0 r0 ms = Some Kshift"
    and "K = mp_rshift_fixed_into Bw Kshift b" "x1 = mp_reduce_mod_2to (mp_rshift_fixed_into Bw x b) b"
    and "rx = length (mp_make_alias Kshift 0 Bw)" and m: "mp_mul_internal rx r0 x1 ms = Some r0x1"
    and "s = mp_neg_into rx (mp_add_into rx r0x1 K)" and r1: "mp_mul_internal Bw r0 s ms = Some r1"
    and "K' = mp_lshift_fixed_into Bw (mp_reduce_mod_2to r1 b) (b mod LENGTH('w))"
    and "Bpos = b div LENGTH('w)" "pos = mp_make_alias r Bpos (B2w - Bpos)"
  shows "invert_step x pool ms b r =
    Some (take Bpos r @ mp_add_into (length pos) pos K' @ drop (Bpos + length (mp_add_into (length pos) pos K')) r)"
proof -
  have a: "mp_alloc_from_scratch pool Bw = Some (pool - Bw)"
    "mp_alloc_from_scratch (pool - Bw) B2w = Some (pool - Bw - B2w)"
    "mp_alloc_from_scratch (pool - Bw - B2w) Bw = Some (pool - Bw - B2w - Bw)"
    "mp_alloc_from_scratch (pool - Bw - B2w - Bw) Bw = Some (pool - Bw - B2w - Bw - Bw)"
    "mp_alloc_from_scratch (pool - Bw - B2w - Bw - Bw) Bw = Some (pool - Bw - B2w - Bw - Bw - Bw)"
    using pool by (simp_all add: alloc_some)
  show ?thesis
    unfolding invert_step_def Let_def assms(1) [symmetric] assms(2) [symmetric] a(1) Option.bind.bind_lunit
      assms(4) [symmetric] assms(5) [symmetric] a(2) k a(3) assms(7) [symmetric] a(4)
      assms(8) [symmetric] assms(9) [symmetric] m assms(11) [symmetric] a(5) r1 assms(13) [symmetric]
      assms(14) [symmetric] assms(15) [symmetric] ..
qed

lemma two_power_mono: "a \<le> b \<Longrightarrow> (2::nat) ^ a \<le> 2 ^ b"
  by (rule power_increasing) simp_all

lemma invert_step_ok:
  fixes x r :: "'w::len mp_int"
  assumes L: "2 \<le> LENGTH('w)" "LENGTH('w) \<le> 64" and b: "aligned LENGTH('w) b"
    and r: "mp_val r < 2 ^ b" "inverts (mp_val x) (mp_val r) b"
    and w: "Bw = (b + LENGTH('w) - 1) div LENGTH('w)" "B2w = (2 * b + LENGTH('w) - 1) div LENGTH('w)"
    and room: "4 * Bw + B2w \<le> pool" "6 * Bw \<le> ms" "Bw \<le> length r"
  obtains r' where "invert_step x pool ms b r = Some r'" "length r' = length r" "mp_val r' < 2 ^ (2 * b)"
    "inverts (mp_val x) (mp_val r') (min (2 * b) (LENGTH('w) * length r))"
proof -
  let ?L = "LENGTH('w)"
  define B where "B = (2::nat) ^ b"
  have BB: "2 ^ (2 * b) = B * B" by (simp add: B_def mult_2 power_add)
  have Bw: "b \<le> ?L * Bw" "2 * b \<le> ?L * B2w" "Bw \<le> B2w"
    by (rule aligned_words [OF b]; simp add: w)+
  define W where "W = (2::nat) ^ (?L * Bw)"
  have BW: "B dvd W" unfolding B_def W_def using Bw(1) by (rule le_imp_power_dvd)
  have "B * B \<le> 2 ^ (?L * B2w)" unfolding BB [symmetric] using Bw(2) by (rule two_power_mono)
  note red = mp_reduce_mod_2to_val [OF L(2)]
  define x0 where "x0 = mp_reduce_mod_2to (mp_copy_into Bw x) b"
  define r0 where "r0 = mp_make_alias r 0 Bw"
  have x0: "mp_val x0 = mp_val x mod B" "length x0 = Bw"
    using Bw(1) by (simp_all add: x0_def red mp_copy_into_val take_bit_eq_mod B_def mod_mod_cancel le_imp_power_dvd)
  have "mp_val r < W" using r(1) two_power_mono [OF Bw(1)] unfolding W_def by linarith
  then have r0: "mp_val r0 = mp_val r" "length r0 = Bw" using room(3) by (simp_all add: r0_def alias_val W_def)
  have lt: "mp_val x0 * mp_val r0 < B * B"
    using x0(1) r0(1) r(1) by (intro mult_strict_mono') (simp_all add: B_def)
  obtain Kshift where K1: "mp_mul_internal B2w x0 r0 ms = Some Kshift" "length Kshift = B2w" "mp_val Kshift = mp_val x0 * mp_val r0"
  proof (rule mul_internal_val [OF L(1), of B2w x0 r0 ms])
    show "6 * min B2w (max (length x0) (length r0)) \<le> ms" using room(2) Bw(3) x0(2) r0(2) by simp
    fix k assume "mp_mul_internal B2w x0 r0 ms = Some k" "length k = B2w" "mp_val k = mp_val x0 * mp_val r0 mod 2 ^ (?L * B2w)"
    then show thesis using that lt \<open>B * B \<le> 2 ^ (?L * B2w)\<close> by simp
  qed
  define K where "K = mp_rshift_fixed_into Bw Kshift b"
  define x1 where "x1 = mp_reduce_mod_2to (mp_rshift_fixed_into Bw x b) b"
  have "mp_val x0 * mp_val r0 div B < W"
    using less_mult_imp_div_less [OF lt] dvd_imp_le [OF BW] by (simp add: W_def)
  then have K: "mp_val K = mp_val x0 * mp_val r0 div B"
    unfolding K_def mp_rshift_fixed_into_val take_bit_eq_mod drop_bit_eq_div K1(3) B_def [symmetric] W_def [symmetric]
    by simp
  have x1: "mp_val x1 = (mp_val x div B) mod B" "length x1 = Bw"
    using BW by (simp_all add: x1_def red mp_rshift_fixed_into_val take_bit_eq_mod drop_bit_eq_div B_def W_def mod_mod_cancel)
  have rx: "length (mp_make_alias Kshift 0 Bw) = Bw" using K1(2) Bw(3) by simp
  obtain r0x1 where P1: "mp_mul_internal Bw r0 x1 ms = Some r0x1" "mp_val r0x1 = mp_val r0 * mp_val x1 mod W"
    by (rule mul_internal_val [OF L(1), of Bw r0 x1 ms]) (use room(2) r0(2) x1(2) that in \<open>auto simp: W_def\<close>)
  define s where "s = mp_neg_into Bw (mp_add_into Bw r0x1 K)"
  obtain r1 where P2: "mp_mul_internal Bw r0 s ms = Some r1" "mp_val r1 = mp_val r0 * mp_val s mod W" "length r1 = Bw"
    by (rule mul_internal_val [OF L(1), of Bw r0 s ms]) (use room(2) r0(2) that in \<open>auto simp: W_def s_def\<close>)
  define R where "R = mp_val r0 * mp_val s mod B"
  define K' where "K' = mp_lshift_fixed_into Bw (mp_reduce_mod_2to r1 b) (b mod ?L)"
  define Bpos where "Bpos = b div ?L"
  define n where "n = length (mp_make_alias r Bpos (B2w - Bpos))"
  have pos: "mp_make_alias r Bpos (B2w - Bpos) = take n (drop Bpos r)"
    by (auto simp: n_def mp_make_alias_def Let_def min_def)
  have len_pos: "length (take n (drop Bpos r)) = n" by (simp add: n_def)
  define r' where "r' = take Bpos r @ mp_add_into n (take n (drop Bpos r)) K' @ drop (Bpos + n) r"
  have run: "invert_step x pool ms b r = Some r'"
    using invert_step_run [OF w room(1) x0_def r0_def K1(1) K_def x1_def rx [symmetric] P1(1) s_def P2(1) K'_def Bpos_def refl]
    by (simp only: r'_def pos len_pos length_add_into)
  have bounds: "Bpos + n \<le> length r" "Bpos + n = min B2w (length r)" "b \<le> ?L * (Bpos + n)"
    "2 ^ (?L * Bpos) * mp_val K' = B * R"
  proof -
    have R: "R < B" by (simp add: R_def B_def)
    have K': "mp_val K' = R * 2 ^ (b mod ?L) mod W"
      unfolding K'_def mp_lshift_fixed_into_val red P2(2) push_bit_eq_mult take_bit_eq_mod B_def [symmetric] W_def [symmetric]
        mod_mod_cancel [OF BW] R_def ..
    have "Bpos + n \<le> length r \<and> Bpos + n = min B2w (length r) \<and> b \<le> ?L * (Bpos + n) \<and>
        2 ^ (?L * Bpos) * mp_val K' = B * R"
    proof (rule aligned_words [OF b len_gt_0], goal_cases small large)
      case small
      then have e: "Bw = 1" "B2w = 1" "Bpos = 0" "b mod ?L = b" using w by (simp_all add: Bpos_def)
      then have n: "n = 1" using room(3) by (simp add: n_def)
      have "R * B < B * B" using R by simp
      also have "\<dots> \<le> W" using \<open>B * B \<le> 2 ^ (?L * B2w)\<close> by (simp add: W_def e)
      finally show ?thesis using room(3) small(1) by (simp add: e n K' B_def mult.commute)
    next
      case (large v)
      then have e: "Bw = v" "B2w = 2 * v" "Bpos = v" "b mod ?L = 0" using w by (simp_all add: Bpos_def)
      then have n: "n = min v (length r - v)" by (simp add: n_def)
      have "B = W" by (simp add: B_def W_def large(2) e)
      then have "2 ^ (?L * Bpos) * mp_val K' = B * R" using R by (simp add: K' e W_def)
      then show ?thesis using room(3) e n large(2) by (auto simp: add_mult_distrib2)
    qed
    then show "Bpos + n \<le> length r" "Bpos + n = min B2w (length r)" "b \<le> ?L * (Bpos + n)"
      "2 ^ (?L * Bpos) * mp_val K' = B * R" by blast+
  qed
  define t where "t = mp_val r + B * R"
  have vr: "mp_val r' = t mod 2 ^ (?L * (Bpos + n))"
  proof -
    have "mp_val r < 2 ^ (?L * (Bpos + n))" using r(1) two_power_mono [OF bounds(3)] by linarith
    from splice_val [OF bounds(1) this] show ?thesis by (simp only: r'_def bounds(4) t_def)
  qed
  have "t < B * B"
  proof -
    have "B * R + B \<le> B * B" unfolding mult_Suc_right [symmetric] add.commute [of "B * R"]
      by (intro mult_le_mono2) (simp add: R_def B_def Suc_leI)
    then show ?thesis using r(1) by (simp add: t_def B_def)
  qed
  then have t: "mp_val r' < 2 ^ (2 * b)" unfolding vr BB by (rule le_less_trans [OF mod_less_eq_dividend])
  define X where "X = mp_val x div B"
  have xr: "int (mp_val x0) * int (mp_val r) = 1 + int B * int (mp_val K)"
  proof -
    have "int B dvd int (mp_val x) * int (mp_val r) - 1" using r(2) by (simp add: inverts_def B_def)
    then have "(int (mp_val x) * int (mp_val r)) mod int B = 1 mod int B" by (simp only: mod_eq_dvd_iff)
    then have "int (mp_val x * mp_val r mod B) = int (1 mod B)"
      by (simp only: of_nat_mod of_nat_mult of_nat_1)
    then have "mp_val x * mp_val r mod B = 1 mod B" by (simp only: of_nat_eq_iff)
    moreover have "2 ^ 1 \<le> B" unfolding B_def using b by (intro two_power_mono) (simp add: aligned_def)
    ultimately have "mp_val x0 * mp_val r mod B = 1" by (simp add: x0(1) mod_mult_left_eq)
    then have "mp_val x0 * mp_val r = 1 + B * mp_val K"
      using mod_mult_div_eq [of "mp_val x0 * mp_val r" B] unfolding K(1) r0(1) by simp
    from arg_cong [OF this, of int] show ?thesis by simp
  qed
  have R1: "int B dvd int R + int (mp_val r) * (int (mp_val r) * int X + int (mp_val K))"
  proof -
    have "int (mp_val s) = (- (int (mp_val r) * int (mp_val x1) + int (mp_val K))) mod int W"
    proof -
      have "int (mp_val s) = (- int ((mp_val r * mp_val x1 mod W + mp_val K) mod W)) mod int W"
        using mp_sub_into_val [of Bw "[]" "mp_add_into Bw r0x1 K"]
        by (simp add: s_def mp_neg_into_def mp_add_into_val P1(2) r0(1) W_def)
      also have "(mp_val r * mp_val x1 mod W + mp_val K) mod W = (mp_val r * mp_val x1 + mp_val K) mod W"
        by (rule mod_add_left_eq)
      finally show ?thesis by (simp add: of_nat_mod mod_minus_eq)
    qed
    then have "int W dvd int (mp_val s) - (- (int (mp_val r) * int (mp_val x1) + int (mp_val K)))"
      by (metis mod_eq_dvd_iff mod_mod_trivial)
    then have 1: "int B dvd int (mp_val s) + int (mp_val r) * int (mp_val x1) + int (mp_val K)"
      using dvd_trans [of "int B" "int W"] BW by (simp only: of_nat_dvd_iff diff_minus_eq_add add.assoc)
    have 2: "int B dvd int R - int (mp_val r) * int (mp_val s)"
      unfolding R_def r0(1) of_nat_mod of_nat_mult by (simp add: mod_eq_dvd_iff [symmetric])
    have 3: "int B dvd int X - int (mp_val x1)"
      unfolding x1(1) X_def [symmetric] of_nat_mod by (simp add: mod_eq_dvd_iff [symmetric])
    have "int R + int (mp_val r) * (int (mp_val r) * int X + int (mp_val K)) =
        (int R - int (mp_val r) * int (mp_val s)) +
        int (mp_val r) * (int (mp_val s) + int (mp_val r) * int (mp_val x1) + int (mp_val K)) +
        int (mp_val r) * int (mp_val r) * (int X - int (mp_val x1))"
      by (simp add: algebra_simps)
    moreover have "int B dvd \<dots>" by (intro dvd_add dvd_mult 1 2 3)
    ultimately show ?thesis by (simp only:)
  qed
  have inv: "inverts (mp_val x) t (2 * b)"
  proof -
    have "mp_val x = mp_val x0 + B * X" by (simp add: x0(1) X_def)
    from arg_cong [OF this, of int] have "int (mp_val x) = int (mp_val x0) + int B * int X" by simp
    with hensel_step [OF xr R1] show ?thesis
      by (simp add: inverts_def t_def B_def mult_2 power_add)
  qed
  have "length r' = length r" using bounds(1) by (simp add: r'_def)
  moreover have "inverts (mp_val x) (mp_val r') (min (2 * b) (?L * length r))"
  proof -
    have "min (2 * b) (?L * length r) \<le> ?L * (Bpos + n)"
      using Bw(2) unfolding bounds(2) by (cases "B2w \<le> length r") (simp_all add: min_absorb1 min_absorb2 min_le_iff_disj)
    then show ?thesis unfolding vr by (intro inverts_mod [OF inv]) simp_all
  qed
  ultimately show thesis using that run t by blast
qed


lemma power_aligned: "aligned (2 ^ e) (2 ^ j)"
proof -
  have "2 * 2 ^ j \<le> (2::nat) ^ e" if "2 ^ j < (2::nat) ^ e"
  proof -
    have "Suc j \<le> e" using exp_less [OF that] by simp
    then show ?thesis using two_power_mono by fastforce
  qed
  moreover have "2 ^ e dvd (2::nat) ^ j" if "2 ^ e \<le> (2::nat) ^ j"
    using that by (intro le_imp_power_dvd) simp
  ultimately show ?thesis by (auto simp: aligned_def)
qed

lemma invert_loop_ok:
  fixes x r :: "'w::len mp_int"
  assumes L: "LENGTH('w) = 2 ^ e" "2 \<le> LENGTH('w)" "LENGTH('w) \<le> 64"
    and room: "6 * n \<le> pool" "6 * n \<le> ms" "p \<le> LENGTH('w) * n"
  shows "length r = n \<Longrightarrow> mp_val r < 2 ^ (2 ^ j) \<Longrightarrow> inverts (mp_val x) (mp_val r) (min (2 ^ j) (LENGTH('w) * n)) \<Longrightarrow>
    \<exists>r'. invert_loop x pool ms p (2 ^ j) r = Some r' \<and> length r' = n \<and> inverts (mp_val x) (mp_val r') p"
proof (induction "p - 2 ^ j" arbitrary: j r rule: less_induct)
  case less
  show ?case
  proof (cases "2 ^ j < p")
    case False
    then have "p \<le> min (2 ^ j) (LENGTH('w) * n)" using room(3) by simp
    then show ?thesis using False less.prems inverts_le by (auto simp: invert_loop.simps [of _ _ _ _ "2 ^ j"])
  next
    case True
    let ?b = "2 ^ j :: nat"
    have al: "aligned LENGTH('w) ?b" unfolding L(1) by (rule power_aligned)
    define Bw B2w where w: "Bw = (?b + LENGTH('w) - 1) div LENGTH('w)" "B2w = (2 * ?b + LENGTH('w) - 1) div LENGTH('w)"
    have lt: "?b < LENGTH('w) * n" using True room(3) by simp
    have "Bw \<le> n \<and> B2w \<le> 2 * Bw"
    proof (rule aligned_words [OF al len_gt_0], goal_cases small large)
      case small
      have "0 < n" using lt by (cases n) auto
      then show ?thesis using small by (simp add: w)
    next
      case (large v)
      then show ?thesis using lt by (simp add: w)
    qed
    then have fit: "4 * Bw + B2w \<le> pool" "6 * Bw \<le> ms" "Bw \<le> length r" using room less.prems(1) by linarith+
    have "inverts (mp_val x) (mp_val r) ?b" by (rule inverts_le [OF less.prems(3)]) (use lt in simp)
    from invert_step_ok [OF L(2,3) al less.prems(2) this w fit] obtain r' where
      r': "invert_step x pool ms ?b r = Some r'" "length r' = length r" "mp_val r' < 2 ^ (2 * ?b)"
        "inverts (mp_val x) (mp_val r') (min (2 * ?b) (LENGTH('w) * length r))" .
    have "p - 2 ^ Suc j < p - ?b" using True by (simp add: diff_less_mono2)
    from less.hyps [OF this, of r'] r' less.prems(1) True show ?thesis
      by (simp add: invert_loop.simps [of _ _ _ _ "2 ^ j"])
  qed
qed

lemma mp_invert_mod_2to_ok:
  fixes x :: "'w::len mp_int"
  assumes L: "platform_word LENGTH('w)" and x: "odd (mp_val x)" and p: "0 < p"
  obtains r where "mp_invert_mod_2to x p = Some r" "length r = (p + LENGTH('w) - 1) div LENGTH('w)"
    "mp_val r < 2 ^ p" "inverts (mp_val x) (mp_val r) p"
proof -
  let ?L = "LENGTH('w)"
  obtain e where e: "?L = 2 ^ e" using platform_bits(1) [OF L] by metis
  note L2 = platform_bits(3,4) [OF L]
  define n where "n = (p + ?L - 1) div ?L"
  have n: "0 < n" "p \<le> ?L * n"
  proof -
    have "p + ?L - 1 = ?L * n + (p + ?L - 1) mod ?L" by (simp add: n_def)
    moreover have "(p + ?L - 1) mod ?L < ?L" by simp
    ultimately show "p \<le> ?L * n" by linarith
    then show "0 < n" using p by (cases n) auto
  qed
  have x0: "0 < length x" "x ! 0 AND 1 \<noteq> 0"
  proof -
    show "0 < length x" using x by (cases x) auto
    then have "odd (x ! 0)" using x mp_val_bit [of x 0] by (simp add: mp_word_def bit_0)
    then show "x ! 0 AND 1 \<noteq> 0" by (simp add: and_one_eq mod_2_eq_odd)
  qed
  define one where "one = (replicate n 0)[0 := 1 :: 'w word]"
  have one: "length one = n" "mp_val one = 1"
    using n(1) by (cases n; simp add: one_def)+
  have "inverts (mp_val x) (mp_val one) (min (2 ^ 0) (?L * n))"
  proof -
    have "inverts (mp_val x) 1 1" using x by (simp add: inverts_def)
    then show ?thesis using one(2) by (auto intro: inverts_le)
  qed
  with invert_loop_ok [OF e L2, of n "6 * n" "6 * n" p one 0 x] one n obtain r where
    r: "invert_loop x (6 * n) (6 * n) p 1 one = Some r" "length r = n" "inverts (mp_val x) (mp_val r) p" by auto
  have "mp_mul_scratchspace (2 * n) n n = 6 * n"
    by (simp add: mp_mul_scratchspace_def mp_mul_scratchspace_unary_def)
  moreover have mx: "max ((p + ?L - 1) div ?L) 1 = n" using n(1) by (simp add: n_def)
  ultimately have "mp_invert_mod_2to x p = Some (mp_reduce_mod_2to r p)"
    unfolding mp_invert_mod_2to_def Let_def mx
    using x0 p n(1) r(1) by (simp add: mp_make_sized_def mp_alloc_from_scratch_def one_def [symmetric])
  moreover have "inverts (mp_val x) (mp_val (mp_reduce_mod_2to r p)) p"
    using r(3) by (simp add: mp_reduce_mod_2to_val [OF L2(2)] inverts_mod)
  ultimately show thesis using that r(2) by (simp add: mp_reduce_mod_2to_val [OF L2(2)] n_def)
qed


section \<open>Montgomery arithmetic\<close>

text \<open>Of the scratch space only the size counts: it is cleared after use.\<close>

record (overloaded) 'w MontyContext =
  mc_m :: "'w mp_int"
  mc_rbits :: nat
  mc_rw :: nat
  mc_pw :: nat
  mc_minus_minv_mod_r :: "'w mp_int"
  mc_powers_of_r_mod_m :: "'w mp_int list"
  mc_scratch :: nat

definition monty_scratch_size :: "nat \<Rightarrow> nat \<Rightarrow> nat" where
  "monty_scratch_size rw pw = 3 * rw + pw + mp_mul_scratchspace pw rw rw"

definition monty_reduce_internal :: "'w::len MontyContext \<Rightarrow> 'w mp_int \<Rightarrow> nat \<Rightarrow> 'w mp_int option" where
  "monty_reduce_internal mc x scratch =
     (let x_lo = mp_make_alias x 0 (mc_rbits mc) in
      Option.bind (mp_alloc_from_scratch scratch (mc_rw mc)) (\<lambda>scratch.
      Option.bind (mp_mul_internal (mc_rw mc) x_lo (mc_minus_minv_mod_r mc) scratch) (\<lambda>k.
      Option.bind (mp_alloc_from_scratch scratch (mc_pw mc)) (\<lambda>scratch.
      Option.bind (mp_mul_internal (mc_pw mc) (mc_m mc) k scratch) (\<lambda>mk.
      let mk = mp_add_into (length mk) x mk;
          toret = mp_make_alias mk (mc_rw mc) (length mk - mc_rw mc)
      in Some (mp_cond_sub_into (length toret) toret (mc_m mc) (mp_cmp_hs toret (mc_m mc))))))))"

definition monty_mul_into :: "'w::len MontyContext \<Rightarrow> nat \<Rightarrow> 'w mp_int \<Rightarrow> 'w mp_int \<Rightarrow> 'w mp_int option" where
  "monty_mul_into mc rn x y =
     (if length x \<le> mc_rw mc \<and> length y \<le> mc_rw mc then
        Option.bind (mp_alloc_from_scratch (mc_scratch mc) (2 * mc_rw mc)) (\<lambda>scratch.
        Option.bind (mp_mul_into (2 * mc_rw mc) x y) (\<lambda>tmp.
        map_option (mp_copy_into rn) (monty_reduce_internal mc tmp scratch)))
      else None)"

definition monty_mul :: "'w::len MontyContext \<Rightarrow> 'w mp_int \<Rightarrow> 'w mp_int \<Rightarrow> 'w mp_int option" where
  "monty_mul mc x y =
     Option.bind (mp_make_sized (mc_rw mc) :: 'w mp_int option) (\<lambda>toret. monty_mul_into mc (length toret) x y)"

definition monty_modulus :: "'w::len MontyContext \<Rightarrow> 'w mp_int" where
  "monty_modulus mc = mc_m mc"

definition monty_identity :: "'w::len MontyContext \<Rightarrow> 'w mp_int" where
  "monty_identity mc = mc_powers_of_r_mod_m mc ! 0"

definition monty_export_into :: "'w::len MontyContext \<Rightarrow> nat \<Rightarrow> 'w mp_int \<Rightarrow> 'w mp_int option" where
  "monty_export_into mc rn x =
     (if length x \<le> 2 * mc_rw mc
      then map_option (mp_copy_into rn) (monty_reduce_internal mc x (mc_scratch mc)) else None)"

definition monty_export :: "'w::len MontyContext \<Rightarrow> 'w mp_int \<Rightarrow> 'w mp_int option" where
  "monty_export mc x =
     Option.bind (mp_make_sized (mc_rw mc) :: 'w mp_int option) (\<lambda>toret. monty_export_into mc (length toret) x)"

definition monty_reduce :: "'w::len MontyContext \<Rightarrow> 'w mp_int \<Rightarrow> 'w mp_int option" where
  "monty_reduce mc x = map_option (mp_copy_into (length x)) (monty_reduce_internal mc x (mc_scratch mc))"

function monty_pow_loop ::
  "'w::len MontyContext \<Rightarrow> 'w mp_int \<Rightarrow> nat \<Rightarrow> 'w mp_int \<Rightarrow> 'w mp_int \<Rightarrow> nat \<Rightarrow> 'w mp_int option"
where
  "monty_pow_loop mc exponent i square out tmpn =
     Option.bind (mp_mul_into tmpn out square) (\<lambda>tmp.
     Option.bind (monty_reduce mc tmp) (\<lambda>tmp.
     let out = mp_select_into (length out) out tmp (mp_get_bit exponent i) in
     if Suc i \<ge> length exponent * LENGTH('w) then Some out
     else
       Option.bind (mp_mul_into tmpn square square) (\<lambda>tmp.
       Option.bind (monty_reduce mc tmp) (\<lambda>tmp.
       let square = mp_copy_into (length square) tmp in
       monty_pow_loop mc exponent (Suc i) square out tmpn))))"
  by pat_completeness auto
termination
  by (relation "measure (\<lambda>(mc, exponent :: 'w::len mp_int, i, square, out, tmpn). length exponent * LENGTH('w) - i)") auto

declare monty_pow_loop.simps [simp del]

definition monty_pow :: "'w::len MontyContext \<Rightarrow> 'w mp_int \<Rightarrow> 'w mp_int \<Rightarrow> 'w mp_int option" where
  "monty_pow mc base exponent =
     Option.bind (mp_make_sized (mc_rw mc * 2) :: 'w mp_int option) (\<lambda>tmp.
     monty_pow_loop mc exponent 0 base (mc_powers_of_r_mod_m mc ! 0) (length tmp))"

definition mp_modadd_in_range :: "'w::len mp_int \<Rightarrow> 'w mp_int \<Rightarrow> 'w mp_int \<Rightarrow> 'w mp_int option" where
  "mp_modadd_in_range x y modulus =
     map_option (\<lambda>sum.
       let (sum, carry) = mp_add_into_internal (length sum) x y
       in mp_cond_sub_into (length sum) sum modulus (ucast carry OR mp_cmp_hs sum modulus))
       (mp_make_sized (length modulus) :: 'w mp_int option)"

definition mp_modsub_in_range :: "'w::len mp_int \<Rightarrow> 'w mp_int \<Rightarrow> 'w mp_int \<Rightarrow> 'w mp_int option" where
  "mp_modsub_in_range x y modulus =
     map_option (\<lambda>diff.
       let diff = mp_sub_into (length diff) x y
       in mp_cond_add_into (length diff) diff modulus (1 XOR mp_cmp_hs x y))
       (mp_make_sized (length modulus) :: 'w mp_int option)"

definition monty_add :: "'w::len MontyContext \<Rightarrow> 'w mp_int \<Rightarrow> 'w mp_int \<Rightarrow> 'w mp_int option" where
  "monty_add mc x y = mp_modadd_in_range x y (mc_m mc)"

definition monty_sub :: "'w::len MontyContext \<Rightarrow> 'w mp_int \<Rightarrow> 'w mp_int \<Rightarrow> 'w mp_int option" where
  "monty_sub mc x y = mp_modsub_in_range x y (mc_m mc)"

section \<open>Montgomery reduction is correct\<close>

definition monty_ok :: "'w::len MontyContext \<Rightarrow> bool" where
  "monty_ok mc \<longleftrightarrow> 0 < mc_rw mc \<and> length (mc_m mc) = mc_rw mc \<and> odd (mp_val (mc_m mc)) \<and>
     mc_rbits mc = mc_rw mc * LENGTH('w) \<and> mc_pw mc = mc_rw mc * 2 + 1 \<and>
     length (mc_minus_minv_mod_r mc) = mc_rw mc \<and>
     (mp_val (mc_m mc) * mp_val (mc_minus_minv_mod_r mc) + 1) mod 2 ^ (LENGTH('w) * mc_rw mc) = 0 \<and>
     length (mc_powers_of_r_mod_m mc) = 3 \<and>
     (\<forall>j < 3. length (mc_powers_of_r_mod_m mc ! j) = mc_rw mc \<and>
       mp_val (mc_powers_of_r_mod_m mc ! j) = (2 ^ (LENGTH('w) * mc_rw mc)) ^ (j + 1) mod mp_val (mc_m mc)) \<and>
     mc_scratch mc = monty_scratch_size (mc_rw mc) (mc_pw mc)"

definition monty_r :: "'w::len MontyContext \<Rightarrow> nat" where
  "monty_r mc = 2 ^ (LENGTH('w) * mc_rw mc)"

lemma one_and: "- ucast (yes AND 1) = (if odd yes then - 1 else 0 :: 'w::len word)" for yes :: "32 word"
  using mask_cases [of yes] by (simp only: and.commute)

lemma mp_cond_sub_into_cases:
  "mp_val (mp_cond_sub_into n a b yes :: 'w::len mp_int) =
    (if odd yes then mp_val (mp_sub_into n a b) else mp_val a mod 2 ^ (LENGTH('w) * n))"
  "length (mp_cond_sub_into n a b yes) = n"
proof -
  obtain out c where r: "add_words a b 0 0 0 n 0 = (out, c)" by fastforce
  have l: "length out = n" using length_add_words [of a b 0 0 0 n 0] r by simp
  have "mp_val out + 2 ^ (LENGTH('w) * n) * unat c = mp_val a mod 2 ^ (LENGTH('w) * n)"
    using add_words_val [OF r] by (simp add: window_drop window_words)
  moreover have "mp_val out < 2 ^ (LENGTH('w) * n)" using mp_val_bound [of out] l by simp
  ultimately have "mp_val out = mp_val a mod 2 ^ (LENGTH('w) * n)" by (metis mod_less mod_mult_self2 mod_mod_trivial)
  then show "mp_val (mp_cond_sub_into n a b yes :: 'w mp_int) =
      (if odd yes then mp_val (mp_sub_into n a b) else mp_val a mod 2 ^ (LENGTH('w) * n))"
    using r by (simp add: mp_cond_sub_into_def Let_def one_and mp_add_masked_into_def mp_sub_into_def)
  show "length (mp_cond_sub_into n a b yes) = n"
    by (simp add: mp_cond_sub_into_def Let_def mp_add_masked_into_def)
qed


text \<open>The arithmetic of the reduction: \<open>R\<close> divides \<open>X + m k\<close>, and the quotient is below \<open>2 m\<close>.\<close>

lemma redc_arith:
  fixes X m v R k :: nat
  assumes "(m * v + 1) mod R = 0" "X < m * R" "k = X * v mod R"
  defines "t \<equiv> (X + m * k) div R"
  shows "t * R = X + m * k" "t < 2 * m" "0 < R"
proof -
  have R: "0 < R" using assms(2) by (cases R) auto
  have "(X + m * k) mod R = (X + m * (X * v)) mod R"
    unfolding assms(3) by (metis mod_add_right_eq mod_mult_right_eq)
  also have "X + m * (X * v) = X * (m * v + 1)" by (simp add: algebra_simps)
  also have "\<dots> mod R = 0" using assms(1) by (metis mod_mult_right_eq mult_0_right mod_0)
  finally have "R dvd X + m * k" by (simp add: dvd_eq_mod_eq_0)
  then show t: "t * R = X + m * k" by (simp add: t_def)
  have "k < R" using assms(3) R by simp
  then have "m * k \<le> m * R" by (intro mult_le_mono2) simp
  then have "t * R < (2 * m) * R" using assms(2) t unfolding mult_2 add_mult_distrib by linarith
  then show "t < 2 * m" by (simp only: mult_less_cancel2)
  show "0 < R" by (rule R)
qed

lemma monty_okD:
  assumes "monty_ok (mc :: 'w::len MontyContext)"
  shows "0 < mc_rw mc" "length (mc_m mc) = mc_rw mc" "odd (mp_val (mc_m mc))" "mc_rbits mc = mc_rw mc * LENGTH('w)"
    "mc_pw mc = mc_rw mc * 2 + 1" "length (mc_minus_minv_mod_r mc) = mc_rw mc"
    "(mp_val (mc_m mc) * mp_val (mc_minus_minv_mod_r mc) + 1) mod monty_r mc = 0"
    "mc_scratch mc = 3 * mc_rw mc + mc_pw mc + 6 * mc_rw mc" "mp_val (mc_m mc) < monty_r mc" "0 < mp_val (mc_m mc)"
  using assms mp_val_bound [of "mc_m mc"]
  by (auto simp: monty_ok_def monty_r_def monty_scratch_size_def mp_mul_scratchspace_def mp_mul_scratchspace_unary_def
      intro: Nat.gr0I)

lemma monty_reduce_internal_ok:
  fixes mc :: "'w::len MontyContext"
  assumes L: "2 \<le> LENGTH('w)" and mc: "monty_ok mc" and x: "mp_val x < mp_val (mc_m mc) * monty_r mc"
    and sc: "mc_rw mc + mc_pw mc + 6 * mc_rw mc \<le> scratch"
  obtains y where "monty_reduce_internal mc x scratch = Some y" "length y = mc_rw mc + 1"
    "mp_val y < mp_val (mc_m mc)" "mp_val y * monty_r mc mod mp_val (mc_m mc) = mp_val x mod mp_val (mc_m mc)"
proof -
  note ok = monty_okD [OF mc]
  define n m R v where "n = mc_rw mc" and "m = mp_val (mc_m mc)" and "R = monty_r mc" and "v = mp_val (mc_minus_minv_mod_r mc)"
  have R: "R = 2 ^ (LENGTH('w) * n)" by (simp add: R_def monty_r_def n_def)
  define x_lo where "x_lo = mp_make_alias x 0 (mc_rbits mc)"
  have "n \<le> mc_rbits mc" using ok(4) by (simp add: n_def Suc_leI)
  then have x_lo: "mp_val x_lo mod R = mp_val x mod R"
    by (simp add: x_lo_def alias_val R mod_mod_cancel le_imp_power_dvd)
  define k where "k = mp_val x * v mod R"
  obtain kw where kw: "mp_mul_internal n x_lo (mc_minus_minv_mod_r mc) (scratch - n) = Some kw" "length kw = n" "mp_val kw = k"
  proof (rule mul_internal_val [OF L, of n x_lo "mc_minus_minv_mod_r mc" "scratch - n"])
    show "6 * min n (max (length x_lo) (length (mc_minus_minv_mod_r mc))) \<le> scratch - n" using sc by (simp add: n_def)
    fix r assume "mp_mul_internal n x_lo (mc_minus_minv_mod_r mc) (scratch - n) = Some r" "length r = n"
      "mp_val r = mp_val x_lo * mp_val (mc_minus_minv_mod_r mc) mod 2 ^ (LENGTH('w) * n)"
    moreover have "mp_val x_lo * v mod R = k" unfolding k_def by (metis x_lo mod_mult_left_eq)
    ultimately show thesis using that by (simp add: R v_def)
  qed
  have arith: "(mp_val x + m * k) div R * R = mp_val x + m * k" "(mp_val x + m * k) div R < 2 * m" "0 < R"
    using redc_arith [of m v R "mp_val x" k] ok(7) x by (simp_all add: m_def v_def R_def k_def)
  have big: "2 * R * R \<le> 2 ^ (LENGTH('w) * mc_pw mc)"
  proof -
    have "2 * R * R = 2 ^ (1 + LENGTH('w) * n + LENGTH('w) * n)" by (simp add: R power_add)
    also have "\<dots> \<le> 2 ^ (LENGTH('w) * mc_pw mc)"
      using L by (intro two_power_mono) (simp add: ok(5) n_def algebra_simps)
    finally show ?thesis .
  qed
  have mR: "m < R" using ok(9) by (simp add: m_def R_def)
  have "m * k \<le> m * R" by (intro mult_le_mono2) (simp add: k_def arith(3) less_imp_le)
  moreover have "m * R \<le> R * R" using mR by (intro mult_le_mono1) simp
  ultimately have lt: "m * k < 2 ^ (LENGTH('w) * mc_pw mc)" "mp_val x + m * k < 2 ^ (LENGTH('w) * mc_pw mc)"
    using x big unfolding m_def [symmetric] R_def [symmetric] mult.assoc by linarith+
  obtain mk where mk: "mp_mul_internal (mc_pw mc) (mc_m mc) kw (scratch - n - mc_pw mc) = Some mk" "length mk = mc_pw mc"
      "mp_val mk = m * k"
  proof (rule mul_internal_val [OF L, of "mc_pw mc" "mc_m mc" kw "scratch - n - mc_pw mc"])
    show "6 * min (mc_pw mc) (max (length (mc_m mc)) (length kw)) \<le> scratch - n - mc_pw mc"
      using sc ok(2,5) kw(2) by (simp add: n_def)
    fix r assume "mp_mul_internal (mc_pw mc) (mc_m mc) kw (scratch - n - mc_pw mc) = Some r" "length r = mc_pw mc"
      "mp_val r = mp_val (mc_m mc) * mp_val kw mod 2 ^ (LENGTH('w) * mc_pw mc)"
    then show thesis using that lt(1) kw(3) by (simp add: m_def)
  qed
  define s where "s = mp_add_into (mc_pw mc) x mk"
  have s: "mp_val s = mp_val x + m * k" "length s = mc_pw mc" using lt(2) by (simp_all add: s_def mp_add_into_val mk(3))
  define t where "t = mp_make_alias s n (mc_pw mc - n)"
  have t: "length t = n + 1" "mp_val t * R = mp_val x + m * k" "mp_val t < 2 * m"
  proof -
    have p: "mc_pw mc = n + (n + 1)" by (simp add: ok(5) n_def)
    then show "length t = n + 1" by (simp add: t_def s(2))
    have "mp_val t = mp_val s div R mod 2 ^ (LENGTH('w) * (n + 1))" by (simp add: t_def alias_val R p)
    moreover have "mp_val s div R < 2 ^ (LENGTH('w) * (n + 1))"
    proof -
      have "mp_val s < 2 ^ (LENGTH('w) * mc_pw mc)" using lt(2) s(1) by simp
      also have "\<dots> = 2 ^ (LENGTH('w) * (n + 1)) * R" unfolding p R by (simp flip: power_add add: algebra_simps)
      finally show ?thesis by (rule less_mult_imp_div_less)
    qed
    ultimately have "mp_val t = (mp_val x + m * k) div R" using s(1) by simp
    then show "mp_val t * R = mp_val x + m * k" "mp_val t < 2 * m" using arith by simp_all
  qed
  define y where "y = mp_cond_sub_into (n + 1) t (mc_m mc) (mp_cmp_hs t (mc_m mc))"
  have "monty_reduce_internal mc x scratch = Some y"
  proof -
    have a: "mp_alloc_from_scratch scratch n = Some (scratch - n)"
      "mp_alloc_from_scratch (scratch - n) (mc_pw mc) = Some (scratch - n - mc_pw mc)"
      using sc by (simp_all add: alloc_some n_def)
    show ?thesis
      unfolding monty_reduce_internal_def Let_def x_lo_def [symmetric] a Option.bind.bind_lunit n_def [symmetric] kw(1) mk(1)
        mk(2) s_def [symmetric] s(2) t_def [symmetric] t(1) y_def ..
  qed
  moreover have "length y = mc_rw mc + 1" by (simp add: y_def mp_cond_sub_into_cases(2) n_def)
  moreover have "mp_val y = (if m \<le> mp_val t then mp_val t - m else mp_val t)"
  proof -
    have "mp_val t < 2 ^ (LENGTH('w) * (n + 1))" using mp_val_bound [of t] t(1) by simp
    then show ?thesis using mp_sub_exact [of "mc_m mc" t "n + 1"]
      by (simp add: y_def mp_cond_sub_into_cases(1) mp_cmp_hs_val m_def)
  qed
  then have y: "mp_val y < m" "mp_val y = mp_val t \<or> mp_val t = mp_val y + m" using t(3) by auto
  have "mp_val t * R mod m = mp_val x mod m" using t(2) by simp
  then have "mp_val y * R mod m = mp_val x mod m" using y(2) by (auto simp: add_mult_distrib)
  ultimately show thesis using that y(1) by (simp add: m_def R_def)
qed


text \<open>\<open>represents mc x v\<close>: \<open>x\<close> is the Montgomery form of \<open>v\<close>, reduced.\<close>

definition represents :: "'w::len MontyContext \<Rightarrow> 'w mp_int \<Rightarrow> nat \<Rightarrow> bool" where
  "represents mc x v \<longleftrightarrow> length x = mc_rw mc \<and> mp_val x = v * monty_r mc mod mp_val (mc_m mc)"

lemma cancel_r:
  assumes "monty_ok mc" "a * monty_r mc mod mp_val (mc_m mc) = b * monty_r mc mod mp_val (mc_m mc)" "a < mp_val (mc_m mc)"
  shows "a = b mod mp_val (mc_m mc)"
proof -
  define m R where "m = int (mp_val (mc_m mc))" and "R = int (monty_r mc)"
  have "coprime m R"
    using monty_okD(3) [OF assms(1)] by (simp add: m_def R_def monty_r_def coprime_power_right_iff coprime_right_2_iff_odd)
  have "(int a * R) mod m = (int b * R) mod m"
    using arg_cong [OF assms(2), of int] by (simp add: m_def R_def of_nat_mod)
  then have "m dvd (int a - int b) * R" by (simp add: mod_eq_dvd_iff left_diff_distrib)
  then have "m dvd int a - int b" using \<open>coprime m R\<close> by (simp add: coprime_dvd_mult_left_iff)
  then have "int a mod m = int b mod m" by (simp add: mod_eq_dvd_iff)
  then have "a mod mp_val (mc_m mc) = b mod mp_val (mc_m mc)" unfolding m_def by (simp only: of_nat_mod [symmetric] of_nat_eq_iff)
  then show ?thesis using assms(3) by simp
qed

text \<open>The reduction of a product of two Montgomery forms, and of a form itself.\<close>

lemma reduce_product:
  fixes mc :: "'w::len MontyContext"
  assumes "monty_ok mc" "represents mc x u" "represents mc y v" "z < mp_val (mc_m mc)"
    and "z * monty_r mc mod mp_val (mc_m mc) = (mp_val x * mp_val y) mod mp_val (mc_m mc)"
  shows "z = u * v * monty_r mc mod mp_val (mc_m mc)"
proof -
  have "(mp_val x * mp_val y) mod mp_val (mc_m mc) = (u * v * monty_r mc) * monty_r mc mod mp_val (mc_m mc)"
  proof -
    have "(mp_val x * mp_val y) mod mp_val (mc_m mc) = (u * monty_r mc * (v * monty_r mc)) mod mp_val (mc_m mc)"
      using assms(2,3) unfolding represents_def by (simp only: mod_mult_eq)
    then show ?thesis by (simp only: mult_ac)
  qed
  from cancel_r [OF assms(1) trans [OF assms(5) this] assms(4)] show ?thesis .
qed

lemma product_fits:
  assumes "monty_ok mc" "represents mc x u" "represents mc y v"
  shows "mp_val x * mp_val y < mp_val (mc_m mc) * monty_r mc"
proof -
  have "mp_val x < mp_val (mc_m mc)" "mp_val y < mp_val (mc_m mc)" "mp_val (mc_m mc) < monty_r mc"
    using assms(2,3) monty_okD(9,10) [OF assms(1)] by (simp_all add: represents_def)
  then show ?thesis by (intro mult_strict_mono') auto
qed

text \<open>A reduced number cut to the length of the modulus.\<close>

lemma copy_reduced:
  fixes mc :: "'w::len MontyContext" and y :: "'w mp_int"
  assumes "monty_ok mc" "mp_val y < mp_val (mc_m mc)" "mc_rw mc \<le> n"
  shows "mp_val (mp_copy_into n y) = mp_val y"
proof -
  have "mp_val y < 2 ^ (LENGTH('w) * mc_rw mc)" using assms(2) monty_okD(9) [OF assms(1)] by (simp add: monty_r_def)
  also have "\<dots> \<le> 2 ^ (LENGTH('w) * n)" using assms(3) by (intro two_power_mono) simp
  finally show ?thesis by (simp add: mp_copy_into_val take_bit_nat_eq_self)
qed

lemma mul_into_fits:
  fixes x y :: "'w::len mp_int"
  assumes "2 \<le> LENGTH('w)" "0 < length x" "0 < length y" "length x \<le> n" "length y \<le> n" "m = 2 * n"
  obtains r where "mp_mul_into m x y = Some r" "length r = m" "mp_val r = mp_val x * mp_val y"
proof (rule mul_internal_val [OF assms(1), of m x y "6 * min m (max (length x) (length y))"])
  fix r assume r: "mp_mul_internal m x y (6 * min m (max (length x) (length y))) = Some r" "length r = m"
    "mp_val r = mp_val x * mp_val y mod 2 ^ (LENGTH('w) * m)"
  have "mp_val x * mp_val y < 2 ^ (LENGTH('w) * (length x + length y))" by (rule product_bound)
  also have "\<dots> \<le> 2 ^ (LENGTH('w) * m)" using assms by (intro two_power_mono) simp
  finally have "mp_val r = mp_val x * mp_val y" using r(3) by simp
  moreover have "mp_mul_into m x y = Some r"
    using r(1) assms by (simp add: mp_mul_into_def mp_mul_scratchspace_def mp_mul_scratchspace_unary_def mp_make_sized_def mult.commute)
  ultimately show thesis using that r(2) by blast
qed simp

lemma monty_mul_ok:
  fixes mc :: "'w::len MontyContext"
  assumes L: "2 \<le> LENGTH('w)" and mc: "monty_ok mc" and x: "represents mc x u" and y: "represents mc y v"
  obtains z where "monty_mul mc x y = Some z" "represents mc z (u * v)"
proof -
  note ok = monty_okD [OF mc]
  have len: "length x = mc_rw mc" "length y = mc_rw mc" using x y by (simp_all add: represents_def)
  obtain p where p: "mp_mul_into (2 * mc_rw mc) x y = Some p" "mp_val p = mp_val x * mp_val y"
    by (rule mul_into_fits [OF L, of x y "mc_rw mc" "2 * mc_rw mc"]) (use len ok(1) in auto)
  have "mp_val p < mp_val (mc_m mc) * monty_r mc" unfolding p(2) by (rule product_fits [OF mc x y])
  from monty_reduce_internal_ok [OF L mc this, of "mc_scratch mc - 2 * mc_rw mc"] obtain q where
    q: "monty_reduce_internal mc p (mc_scratch mc - 2 * mc_rw mc) = Some q" "mp_val q < mp_val (mc_m mc)"
      "mp_val q * monty_r mc mod mp_val (mc_m mc) = mp_val p mod mp_val (mc_m mc)"
    using ok(8) by auto
  have "mp_val q = u * v * monty_r mc mod mp_val (mc_m mc)" using reduce_product [OF mc x y q(2)] q(3) p(2) by simp
  moreover have "monty_mul mc x y = Some (mp_copy_into (mc_rw mc) q)"
    using p(1) q(1) ok(1,8) len by (simp add: monty_mul_def monty_mul_into_def mp_make_sized_def alloc_some)
  ultimately show thesis using that copy_reduced [OF mc q(2)] by (simp add: represents_def)
qed

lemma square_and_reduce:
  fixes mc :: "'w::len MontyContext"
  assumes L: "2 \<le> LENGTH('w)" and mc: "monty_ok mc" and x: "represents mc x u" and y: "represents mc y v"
    and n: "n = 2 * mc_rw mc"
  obtains p q where "mp_mul_into n x y = Some p" "monty_reduce mc p = Some q" "length q = n"
    "mp_val q = u * v * monty_r mc mod mp_val (mc_m mc)"
proof -
  note ok = monty_okD [OF mc]
  have len: "length x = mc_rw mc" "length y = mc_rw mc" using x y by (simp_all add: represents_def)
  obtain p where p: "mp_mul_into n x y = Some p" "length p = n" "mp_val p = mp_val x * mp_val y"
    by (rule mul_into_fits [OF L, of x y "mc_rw mc" n]) (use len ok(1) n in auto)
  have "mp_val p < mp_val (mc_m mc) * monty_r mc" unfolding p(3) by (rule product_fits [OF mc x y])
  from monty_reduce_internal_ok [OF L mc this, of "mc_scratch mc"] obtain q where
    q: "monty_reduce_internal mc p (mc_scratch mc) = Some q" "mp_val q < mp_val (mc_m mc)"
      "mp_val q * monty_r mc mod mp_val (mc_m mc) = mp_val p mod mp_val (mc_m mc)"
    using ok(8) by auto
  have "mp_val q = u * v * monty_r mc mod mp_val (mc_m mc)" using reduce_product [OF mc x y q(2)] q(3) p(3) by simp
  then show thesis using that [of p "mp_copy_into n q"] p q copy_reduced [OF mc q(2), of n] n by (simp add: monty_reduce_def)
qed


lemma reduced_fits:
  assumes "monty_ok (mc :: 'w::len MontyContext)"
  shows "k mod mp_val (mc_m mc) < 2 ^ (LENGTH('w) * mc_rw mc)"
proof -
  have "k mod mp_val (mc_m mc) < mp_val (mc_m mc)" using monty_okD(10) [OF assms] by simp
  then show ?thesis using monty_okD(9) [OF assms] by (simp add: monty_r_def)
qed

lemma monty_pow_loop_ok:
  fixes mc :: "'w::len MontyContext"
  assumes L: "2 \<le> LENGTH('w)" and mc: "monty_ok mc" and n: "n = 2 * mc_rw mc"
  shows "represents mc square (b ^ (2 ^ i)) \<Longrightarrow> represents mc out (b ^ (mp_val exponent mod 2 ^ i)) \<Longrightarrow>
    \<exists>out'. monty_pow_loop mc exponent i square out n = Some out' \<and> represents mc out' (b ^ mp_val exponent)"
proof (induction "length exponent * LENGTH('w) - i" arbitrary: i square out rule: less_induct)
  case less
  let ?E = "mp_val exponent" and ?m = "mp_val (mc_m mc)"
  note ok = monty_okD [OF mc]
  have len: "length out = mc_rw mc" "length square = mc_rw mc" using less.prems by (simp_all add: represents_def)
  obtain p q where q: "mp_mul_into n out square = Some p" "monty_reduce mc p = Some q"
      "mp_val q = b ^ (?E mod 2 ^ i) * b ^ (2 ^ i) * monty_r mc mod ?m"
    by (rule square_and_reduce [OF L mc less.prems(2,1) n])
  define out1 where "out1 = mp_select_into (length out) out q (mp_get_bit exponent i)"
  have E: "?E mod 2 ^ Suc i = ?E mod 2 ^ i + (if bit ?E i then 2 ^ i else 0)"
    using take_bit_Suc_from_most [of i ?E] by (simp add: take_bit_eq_mod)
  have "odd (mp_get_bit exponent i) \<longleftrightarrow> bit ?E i" by (simp add: mp_get_bit_val)
  then have "mp_val out1 = b ^ (?E mod 2 ^ Suc i) * monty_r mc mod ?m"
    using less.prems(2) q(3) reduced_fits [OF mc] unfolding E
    by (simp add: out1_def mp_select_into_val len represents_def take_bit_nat_eq_self power_add)
  moreover have "length out1 = mc_rw mc" by (simp add: out1_def mp_select_into_def Let_def len)
  ultimately have out1: "represents mc out1 (b ^ (?E mod 2 ^ Suc i))" by (simp add: represents_def)
  show ?case
  proof (cases "Suc i \<ge> length exponent * LENGTH('w)")
    case True
    have "?E < 2 ^ (LENGTH('w) * length exponent)" by (rule mp_val_bound)
    also have "\<dots> \<le> 2 ^ Suc i" using True by (intro two_power_mono) (simp add: mult.commute)
    finally have "?E mod 2 ^ Suc i = ?E" by simp
    then show ?thesis using True q out1
      by (simp add: monty_pow_loop.simps [of mc exponent i] out1_def [symmetric] Let_def)
  next
    case False
    obtain p2 q2 where q2: "mp_mul_into n square square = Some p2" "monty_reduce mc p2 = Some q2"
        "mp_val q2 = b ^ (2 ^ i) * b ^ (2 ^ i) * monty_r mc mod ?m"
      by (rule square_and_reduce [OF L mc less.prems(1,1) n])
    define sq where "sq = mp_copy_into (length square) q2"
    have "b ^ (2 ^ i) * b ^ (2 ^ i) = b ^ (2 ^ Suc i)" by (simp add: mult_2 flip: power_add)
    then have "represents mc sq (b ^ (2 ^ Suc i))"
      using q2(3) reduced_fits [OF mc] by (simp add: represents_def sq_def len mp_copy_into_val take_bit_nat_eq_self)
    moreover have "length exponent * LENGTH('w) - Suc i < length exponent * LENGTH('w) - i" using False by linarith
    ultimately obtain out' where "monty_pow_loop mc exponent (Suc i) sq out1 n = Some out'" "represents mc out' (b ^ ?E)"
      using less.hyps [of "Suc i" sq out1] out1 by blast
    then show ?thesis using False q q2
      by (simp add: monty_pow_loop.simps [of mc exponent i] out1_def [symmetric] sq_def [symmetric] Let_def)
  qed
qed

lemma monty_pow_ok:
  fixes mc :: "'w::len MontyContext"
  assumes L: "2 \<le> LENGTH('w)" and mc: "monty_ok mc" and b: "represents mc base b"
  obtains out where "monty_pow mc base exponent = Some out" "represents mc out (b ^ mp_val exponent)"
proof -
  have "represents mc (mc_powers_of_r_mod_m mc ! 0) 1"
    using mc by (simp add: represents_def monty_ok_def monty_r_def)
  with monty_pow_loop_ok [OF L mc refl, of base b 0 "mc_powers_of_r_mod_m mc ! 0" exponent] b
  show thesis using that monty_okD(1) [OF mc] by (auto simp: monty_pow_def mp_make_sized_def mult.commute)
qed

lemma monty_export_ok:
  fixes mc :: "'w::len MontyContext"
  assumes L: "2 \<le> LENGTH('w)" and mc: "monty_ok mc" and x: "represents mc x v"
  obtains z where "monty_export mc x = Some z" "mp_val z = v mod mp_val (mc_m mc)" "length z = mc_rw mc"
proof -
  note ok = monty_okD [OF mc]
  have len: "length x = mc_rw mc" using x by (simp add: represents_def)
  have "mp_val x < mp_val (mc_m mc)" using x ok(10) by (simp add: represents_def)
  also have "\<dots> \<le> mp_val (mc_m mc) * monty_r mc" by (simp add: monty_r_def)
  finally have "mp_val x < mp_val (mc_m mc) * monty_r mc" .
  from monty_reduce_internal_ok [OF L mc this, of "mc_scratch mc"] obtain q where
    q: "monty_reduce_internal mc x (mc_scratch mc) = Some q" "mp_val q < mp_val (mc_m mc)"
      "mp_val q * monty_r mc mod mp_val (mc_m mc) = mp_val x mod mp_val (mc_m mc)"
    using ok(8) by auto
  have "mp_val q * monty_r mc mod mp_val (mc_m mc) = v * monty_r mc mod mp_val (mc_m mc)"
    using q(3) x by (simp add: represents_def)
  from cancel_r [OF mc this q(2)] have "mp_val q = v mod mp_val (mc_m mc)" .
  moreover have "monty_export mc x = Some (mp_copy_into (mc_rw mc) q)"
    using q(1) ok(1) len by (simp add: monty_export_def monty_export_into_def mp_make_sized_def)
  ultimately show thesis using that copy_reduced [OF mc q(2)] by simp
qed


section \<open>Addition and subtraction in range\<close>

lemma mp_cond_add_into_cases:
  "mp_val (mp_cond_add_into n a b yes :: 'w::len mp_int) =
    (if odd yes then (mp_val a + mp_val b) mod 2 ^ (LENGTH('w) * n) else mp_val a mod 2 ^ (LENGTH('w) * n))"
  "length (mp_cond_add_into n a b yes) = n"
proof -
  have "mp_cond_add_into n a b yes = (if odd yes then mp_add_into n a b else mp_cond_sub_into n a b yes)"
    by (simp add: mp_cond_add_into_def mp_cond_sub_into_def Let_def one_and mp_add_into_def mp_add_into_internal_def)
  then show "mp_val (mp_cond_add_into n a b yes :: 'w mp_int) =
      (if odd yes then (mp_val a + mp_val b) mod 2 ^ (LENGTH('w) * n) else mp_val a mod 2 ^ (LENGTH('w) * n))"
    by (simp add: mp_add_into_val mp_cond_sub_into_cases(1))
  show "length (mp_cond_add_into n a b yes) = n"
    by (simp add: mp_cond_add_into_def Let_def mp_add_masked_into_def)
qed

lemma internal_carry_val:
  fixes x y :: "'w::len mp_int"
  assumes "mp_val x < 2 ^ (LENGTH('w) * n)" "mp_val y < 2 ^ (LENGTH('w) * n)"
  obtains s c where "mp_add_into_internal n x y = (s, c)" "length s = n" "c = 0 \<or> c = 1"
    "mp_val s + 2 ^ (LENGTH('w) * n) * unat c = mp_val x + mp_val y"
proof -
  obtain s c where r: "add_words x y (- 1) 0 0 n 0 = (s, c)" by fastforce
  have "unat c \<le> 1" using add_words_carry [OF r] by simp
  then have "c = 0 \<or> c = 1" by (metis One_nat_def le_SucE le_zero_eq unat_1 unat_eq_zero word_unat_eq_iff)
  moreover have "length s = n" using length_add_words [of x y "- 1" 0 0 n 0] r by simp
  moreover have "mp_val s + 2 ^ (LENGTH('w) * n) * unat c = mp_val x + mp_val y"
    using add_words_val [OF r] assms by (simp add: window_keep window_words)
  ultimately show thesis using that r by (simp add: mp_add_into_internal_def mp_add_masked_into_def)
qed

lemma mod_once: "a < 2 * m \<Longrightarrow> a mod m = (if m \<le> a then a - m else a)" for a m :: nat
  by (simp add: le_mod_geq)

lemma mp_modadd_in_range_ok:
  fixes x y m :: "'w::len mp_int"
  assumes "mp_val x < mp_val m" "mp_val y < mp_val m"
  obtains z where "mp_modadd_in_range x y m = Some z" "length z = length m" "mp_val z = (mp_val x + mp_val y) mod mp_val m"
proof -
  define n R where "n = length m" and "R = (2::nat) ^ (LENGTH('w) * n)"
  have m: "mp_val m < R" using mp_val_bound [of m] by (simp add: R_def n_def)
  have "mp_val x < R" "mp_val y < R" using assms m by simp_all
  then obtain s c where sc: "mp_add_into_internal n x y = (s, c)" "length s = n" "c = 0 \<or> c = 1"
      "mp_val s + R * unat c = mp_val x + mp_val y"
    unfolding R_def by (rule internal_carry_val)
  define yes where "yes = ucast c OR mp_cmp_hs s m"
  define z where "z = mp_cond_sub_into n s m yes"
  have s: "mp_val s < R" using mp_val_bound [of s] sc(2) by (simp add: R_def)
  have yes: "odd yes \<longleftrightarrow> mp_val m \<le> mp_val x + mp_val y"
    using sc(3,4) m by (auto simp: yes_def mp_cmp_hs_val even_or_iff)
  have "0 < n" using assms(1) mp_val_bound [of m] by (cases m) (auto simp: n_def)
  then have "mp_modadd_in_range x y m = Some z"
    using sc(1,2) by (simp add: mp_modadd_in_range_def mp_make_sized_def n_def [symmetric] z_def yes_def)
  moreover have "length z = length m" by (simp add: z_def mp_cond_sub_into_cases(2) n_def)
  moreover have "mp_val z = (mp_val x + mp_val y) mod mp_val m"
  proof (cases "mp_val m \<le> mp_val x + mp_val y")
    case False
    then have "mp_val s = mp_val x + mp_val y" using sc(3,4) m by auto
    then show ?thesis using False yes s by (simp add: z_def mp_cond_sub_into_cases(1) R_def)
  next
    case True
    have "int (mp_val z) = (int (mp_val s) - int (mp_val m)) mod int R"
      using True yes by (simp add: z_def mp_cond_sub_into_cases(1) mp_sub_into_val R_def)
    also have "int (mp_val s) - int (mp_val m) = int (mp_val x + mp_val y - mp_val m) + int R * (- int (unat c))"
      using arg_cong [OF sc(4), of int] True by (simp add: of_nat_diff algebra_simps)
    also have "\<dots> mod int R = int (mp_val x + mp_val y - mp_val m) mod int R" by (rule mod_mult_self2)
    also have "\<dots> = int (mp_val x + mp_val y - mp_val m)"
      using assms m by (intro mod_pos_pos_trivial) auto
    finally have "mp_val z = mp_val x + mp_val y - mp_val m" by simp
    then show ?thesis using True assms by (simp add: mod_once)
  qed
  ultimately show thesis by (rule that)
qed

lemma mp_modsub_in_range_ok:
  fixes x y m :: "'w::len mp_int"
  assumes "mp_val x < mp_val m" "mp_val y < mp_val m"
  obtains z where "mp_modsub_in_range x y m = Some z" "length z = length m"
    "mp_val z = (mp_val x + (mp_val m - mp_val y)) mod mp_val m"
proof -
  define n R where "n = length m" and "R = (2::nat) ^ (LENGTH('w) * n)"
  have m: "mp_val m < R" using mp_val_bound [of m] by (simp add: R_def n_def)
  define d where "d = mp_sub_into n x y"
  have d: "int (mp_val d) = (int (mp_val x) - int (mp_val y)) mod int R" by (simp add: d_def mp_sub_into_val R_def)
  define z where "z = mp_cond_add_into n d m (1 XOR mp_cmp_hs x y)"
  have "0 < n" using assms(1) mp_val_bound [of m] by (cases m) (auto simp: n_def)
  then have "mp_modsub_in_range x y m = Some z"
    by (simp add: mp_modsub_in_range_def mp_make_sized_def n_def [symmetric] z_def d_def)
  moreover have "length z = length m" by (simp add: z_def mp_cond_add_into_cases(2) n_def)
  moreover have "mp_val z = (mp_val x + (mp_val m - mp_val y)) mod mp_val m"
  proof (cases "mp_val y \<le> mp_val x")
    case True
    then have "int (mp_val d) = int (mp_val x - mp_val y)"
      using d assms m by (simp add: of_nat_diff)
    then have "mp_val d = mp_val x - mp_val y" by simp
    then have "mp_val z = mp_val x - mp_val y"
      using True assms m by (simp add: z_def mp_cond_add_into_cases(1) mp_cmp_hs_val R_def)
    moreover have e: "mp_val x + (mp_val m - mp_val y) = mp_val x - mp_val y + mp_val m" using True assms by simp
    moreover have "(mp_val x - mp_val y + mp_val m) mod mp_val m = mp_val x - mp_val y" using assms by simp
    ultimately show ?thesis by (simp only:)
  next
    case False
    have "int (mp_val z) = (int (mp_val d) + int (mp_val m)) mod int R"
      using False by (simp add: z_def mp_cond_add_into_cases(1) mp_cmp_hs_val R_def of_nat_mod)
    also have "\<dots> = (int (mp_val x) - int (mp_val y) + int (mp_val m)) mod int R" unfolding d by (rule mod_add_left_eq)
    also have "\<dots> = int (mp_val x + (mp_val m - mp_val y))"
      using False assms m by (subst mod_pos_pos_trivial) (auto simp: of_nat_diff)
    finally have "mp_val z = mp_val x + (mp_val m - mp_val y)" by simp
    then show ?thesis using False assms by simp
  qed
  ultimately show thesis by (rule that)
qed

lemma monty_add_sub_ok:
  fixes mc :: "'w::len MontyContext"
  assumes mc: "monty_ok mc" and x: "represents mc x u" and y: "represents mc y v"
  shows "\<exists>z. monty_add mc x y = Some z \<and> represents mc z (u + v)"
    and "\<exists>z. monty_sub mc x y = Some z \<and> represents mc z (u + (mp_val (mc_m mc) - v mod mp_val (mc_m mc)))"
proof -
  define m R where "m = mp_val (mc_m mc)" and "R = monty_r mc"
  have m: "0 < m" using monty_okD(10) [OF mc] by (simp add: m_def)
  have xy: "mp_val x = u * R mod m" "mp_val y = v * R mod m" using x y by (simp_all add: represents_def m_def R_def)
  then have lt: "mp_val x < mp_val (mc_m mc)" "mp_val y < mp_val (mc_m mc)" using m by (simp_all add: m_def)
  note len = monty_okD(2) [OF mc]
  from mp_modadd_in_range_ok [OF lt] obtain z where
    z: "mp_modadd_in_range x y (mc_m mc) = Some z" "length z = length (mc_m mc)" "mp_val z = (mp_val x + mp_val y) mod m"
    unfolding m_def by blast
  have "mp_val z = (u + v) * R mod m" unfolding z(3) xy add_mult_distrib by (rule mod_add_eq)
  then show "\<exists>z. monty_add mc x y = Some z \<and> represents mc z (u + v)"
    using z len by (simp add: monty_add_def represents_def m_def R_def)
  from mp_modsub_in_range_ok [OF lt] obtain z where
    z: "mp_modsub_in_range x y (mc_m mc) = Some z" "length z = length (mc_m mc)"
      "mp_val z = (mp_val x + (m - mp_val y)) mod m"
    unfolding m_def by blast
  have "mp_val z = (u + (m - v mod m)) * R mod m"
  proof -
    have "int (mp_val z) = (int (mp_val x) + (int m - int (mp_val y))) mod int m"
    proof -
      have "mp_val y \<le> m" using lt by (simp add: m_def)
      then show ?thesis by (simp only: z(3) of_nat_mod of_nat_add of_nat_diff)
    qed
    also have "\<dots> = (int u * int R + (int m - int v * int R)) mod int m"
      unfolding xy of_nat_mod of_nat_mult by (metis mod_add_left_eq mod_add_right_eq mod_diff_right_eq)
    also have "int u * int R + (int m - int v * int R) =
        (int u + (int m - int v mod int m)) * int R + int m * (1 - int R - (int v div int m) * int R)"
    proof -
      have "int v = int v mod int m + int m * (int v div int m)" by simp
      then have "int v * int R = (int v mod int m) * int R + int m * ((int v div int m) * int R)"
        by (metis distrib_right mult.assoc)
      then show ?thesis by (simp add: algebra_simps)
    qed
    also have "\<dots> mod int m = ((int u + (int m - int v mod int m)) * int R) mod int m" by (rule mod_mult_self2)
    also have "\<dots> = int ((u + (m - v mod m)) * R mod m)"
    proof -
      have "v mod m \<le> m" using m by (simp add: less_imp_le)
      then show ?thesis by (simp only: of_nat_mod of_nat_mult of_nat_add of_nat_diff)
    qed
    finally show ?thesis by (simp only: of_nat_eq_iff)
  qed
  then show "\<exists>z. monty_sub mc x y = Some z \<and> represents mc z (u + (mp_val (mc_m mc) - v mod mp_val (mc_m mc)))"
    using z len by (simp add: monty_sub_def represents_def m_def R_def)
qed


section \<open>Properties\<close>

text \<open>
  C32: \<open>mp_invert_mod_2to\<close> returns the inverse. For an odd number and any number of bits, no assertion
  fails and the scratch space suffices, also when the last doubling goes beyond the words of the
  result; the result is below \<open>2^p\<close> and its product with the number is 1 modulo \<open>2^p\<close>.
\<close>

theorem invert_mod_2to_correct:
  fixes x :: "'w::len mp_int"
  assumes "platform_word LENGTH('w)" "odd (mp_val x)" "0 < p"
  shows "\<exists>r. mp_invert_mod_2to x p = Some r \<and> mp_val r < 2 ^ p \<and> mp_val x * mp_val r mod 2 ^ p = 1"
proof -
  obtain r where r: "mp_invert_mod_2to x p = Some r" "mp_val r < 2 ^ p" "inverts (mp_val x) (mp_val r) p"
    by (rule mp_invert_mod_2to_ok [OF assms])
  have "(int (mp_val x) * int (mp_val r)) mod 2 ^ p = 1 mod 2 ^ p"
    using r(3) by (simp only: inverts_def mod_eq_dvd_iff)
  then have "int (mp_val x * mp_val r mod 2 ^ p) = int (1 mod 2 ^ p)"
    by (simp only: of_nat_mod of_nat_mult of_nat_1 of_nat_power of_nat_numeral)
  then have "mp_val x * mp_val r mod 2 ^ p = 1 mod 2 ^ p" by (simp only: of_nat_eq_iff)
  then have "mp_val x * mp_val r mod 2 ^ p = 1" using assms(3) by simp
  then show ?thesis using r by blast
qed

theorem invert_mod_2to_correct_witness:
  "\<exists>r. mp_invert_mod_2to [7, 3 :: 32 word] 100 = Some r \<and> mp_val r < 2 ^ 100 \<and>
     (7 + 3 * 2 ^ 32) * mp_val r mod 2 ^ 100 = 1"
  using invert_mod_2to_correct [of "[7, 3 :: 32 word]" 100] by (simp add: platform_word_def)

text \<open>
  C33: the Montgomery operations do arithmetic modulo \<open>m\<close>. On the Montgomery forms of \<open>u\<close> and \<open>v\<close>
  in a sound context, products, sums, differences and powers succeed, within the scratch space
  of the context, and give the reduced forms of \<open>u v\<close>, \<open>u + v\<close>, \<open>u - v\<close> and \<open>u^e\<close>; and exporting
  a form gives the number modulo \<open>m\<close>.
\<close>

theorem montgomery_correct:
  fixes mc :: "'w::len MontyContext"
  assumes "2 \<le> LENGTH('w)" "monty_ok mc" "represents mc x u" "represents mc y v"
  shows "(\<exists>z. monty_mul mc x y = Some z \<and> represents mc z (u * v)) \<and>
    (\<exists>z. monty_add mc x y = Some z \<and> represents mc z (u + v)) \<and>
    (\<exists>z. monty_sub mc x y = Some z \<and> represents mc z (u + (mp_val (mc_m mc) - v mod mp_val (mc_m mc)))) \<and>
    (\<exists>z. monty_pow mc x e = Some z \<and> represents mc z (u ^ mp_val e)) \<and>
    (\<exists>z. monty_export mc x = Some z \<and> mp_val z = u mod mp_val (mc_m mc))"
proof -
  obtain a where "monty_mul mc x y = Some a" "represents mc a (u * v)" by (rule monty_mul_ok [OF assms])
  moreover obtain b where "monty_pow mc x e = Some b" "represents mc b (u ^ mp_val e)"
    by (rule monty_pow_ok [OF assms(1-3)])
  moreover obtain c where "monty_export mc x = Some c" "mp_val c = u mod mp_val (mc_m mc)"
    by (rule monty_export_ok [OF assms(1-3)])
  ultimately show ?thesis using monty_add_sub_ok [OF assms(2-4)] by simp
qed

text \<open>A context for the modulus 7, with words of 16 bits.\<close>

definition seven :: "16 MontyContext" where
  "seven = \<lparr>mc_m = [7], mc_rbits = 16, mc_rw = 1, mc_pw = 3, mc_minus_minv_mod_r = [37449],
     mc_powers_of_r_mod_m = [[2], [4], [1]], mc_scratch = 12\<rparr>"

lemma seven_ok: "monty_ok seven"
proof -
  have three: "(\<forall>j < 3. P j) \<longleftrightarrow> P 0 \<and> P 1 \<and> P (2 :: nat)" for P
    by (auto simp: numeral_3_eq_3 numeral_2_eq_2 less_Suc_eq)
  show ?thesis
    unfolding monty_ok_def three
    by (simp add: seven_def monty_scratch_size_def mp_mul_scratchspace_def mp_mul_scratchspace_unary_def)
qed

theorem montgomery_correct_witness:
  "(\<exists>z. monty_pow seven [6] [10, 0] = Some z \<and> represents seven z (3 ^ 10)) \<and>
   (\<exists>z. monty_export seven [6] = Some z \<and> mp_val z = 3)"
proof -
  have three: "represents seven [6] 3" by (simp add: represents_def seven_def monty_r_def)
  have "2 \<le> LENGTH(16)" by simp
  note montgomery_correct [OF this seven_ok three three, of "[10, 0]"]
  moreover have "mp_val [10 :: 16 word, 0] = 10" "3 mod mp_val (mc_m seven) = 3" by (simp_all add: seven_def)
  ultimately show ?thesis by (simp only: simp_thms)
qed

end
