(* ===== verification/MpRecip.thy ===== *)
theory MpRecip
  imports MpMod Complex_Main
begin

text \<open>
  The starting approximation of the division in \<open>putty-src/mpint.c\<close>: \<open>recip_approx_32\<close>,
  a polynomial of degree 8 in fixed-point arithmetic, and a bound of its error.
\<close>

definition recip_approx_32 :: "32 word \<Rightarrow> 32 word" where
  "recip_approx_32 x =
     (let x = ucast x :: 64 word;
          r = 0x92db03d6 :: 64 word;
          r = 0xf63e71ea - drop_bit 34 (r * x);
          r = 0xb63721e8 - drop_bit 34 (r * x);
          r = 0x9c2da00e - drop_bit 33 (r * x);
          r = 0xaada0bb8 - drop_bit 32 (r * x);
          r = 0xf75cd403 - drop_bit 31 (r * x);
          r = 0xecf97a41 - drop_bit 31 (r * x);
          r = 0x90d876cd - drop_bit 31 (r * x);
          r = 0x6682799a0 - drop_bit 26 (r * x)
      in ucast r)"

section \<open>Polynomials on an interval\<close>

text \<open>
  A polynomial is the list of its coefficients, the constant first. Around a centre it is
  bounded by its Taylor coefficients.
\<close>

primrec horner :: "int list \<Rightarrow> real \<Rightarrow> real" where
  "horner [] u = 0"
| "horner (a # p) u = of_int a + u * horner p u"

primrec horner_int :: "int list \<Rightarrow> int \<Rightarrow> int" where
  "horner_int [] u = 0"
| "horner_int (a # p) u = a + u * horner_int p u"

primrec add_scaled :: "int \<Rightarrow> int list \<Rightarrow> int list \<Rightarrow> int list" where
  "add_scaled c [] p = p"
| "add_scaled c (a # q) p = (case p of [] \<Rightarrow> c * a # add_scaled c q [] | b # p \<Rightarrow> (b + c * a) # add_scaled c q p)"

primrec taylor :: "int list \<Rightarrow> int \<Rightarrow> int list" where
  "taylor [] c = []"
| "taylor (a # p) c = (let q = taylor p c in add_scaled c q (a # q))"

definition radius :: "int list \<Rightarrow> int \<Rightarrow> int \<Rightarrow> int" where
  "radius p c h = horner_int (map abs (taylor p c)) h"

lemma horner_add_scaled: "horner (add_scaled c q p) u = horner p u + of_int c * horner q u"
  by (induction q arbitrary: p) (auto simp: algebra_simps split: list.split)

lemma horner_taylor: "horner (taylor p c) t = horner p (of_int c + t)"
  by (induction p) (simp_all add: Let_def horner_add_scaled algebra_simps)

lemma horner_bound: "\<bar>t\<bar> \<le> of_int h \<Longrightarrow> \<bar>horner p t\<bar> \<le> of_int (horner_int (map abs p) h)"
proof (induction p)
  case (Cons a p)
  have "\<bar>horner (a # p) t\<bar> \<le> \<bar>of_int a\<bar> + \<bar>t\<bar> * \<bar>horner p t\<bar>"
    unfolding horner.simps abs_mult [symmetric] by (rule abs_triangle_ineq)
  moreover have "\<bar>t\<bar> * \<bar>horner p t\<bar> \<le> of_int h * of_int (horner_int (map abs p) h)"
    using Cons by (intro mult_mono) auto
  ultimately show ?case by simp
qed simp

lemma horner_radius:
  assumes "\<bar>u - of_int c\<bar> \<le> of_int h"
  shows "\<bar>horner p u\<bar> \<le> of_int (radius p c h)"
  using horner_bound [OF assms, of "taylor p c"] unfolding radius_def horner_taylor by simp

lemma radius_le:
  assumes "radius p c h \<le> b" "of_int (c - h) \<le> u" "u \<le> of_int (c + h)"
  shows "\<bar>horner p u\<bar> \<le> of_int b"
proof -
  have "\<bar>u - of_int c\<bar> \<le> of_int h" using assms(2,3) by simp
  from horner_radius [OF this, of p] show ?thesis using assms(1) by linarith
qed


text \<open>The bound on adjacent intervals with the given half widths.\<close>

primrec bounded_on :: "int list \<Rightarrow> int \<Rightarrow> int \<Rightarrow> int list \<Rightarrow> bool" where
  "bounded_on p b l [] \<longleftrightarrow> True"
| "bounded_on p b l (h # hs) \<longleftrightarrow> radius p (l + h) h \<le> b \<and> bounded_on p b (l + 2 * h) hs"

lemma horner_bounded_on:
  assumes "bounded_on p b l hs" "hs \<noteq> []" "of_int l \<le> u" "u \<le> of_int (l + 2 * sum_list hs)"
  shows "\<bar>horner p u\<bar> \<le> of_int b"
  using assms
proof (induction hs arbitrary: l)
  case (Cons h hs)
  show ?case
  proof (cases "u \<le> of_int (l + 2 * h)")
    case True
    then show ?thesis using Cons.prems by (intro radius_le [of p "l + h" h]) simp_all
  next
    case False
    then have "hs \<noteq> []" using Cons.prems(4) by auto
    then show ?thesis using Cons.IH [of "l + 2 * h"] Cons.prems False by (simp add: algebra_simps)
  qed
qed simp

section \<open>The polynomials of the code\<close>

text \<open>
  Each stage is a constant and a shift, the last one first. Without rounding, stage \<open>k\<close> is a
  polynomial of degree \<open>k\<close> in \<open>u = x / 2^22\<close>; \<open>recip_poly\<close> gives its coefficients, made integers
  by the power of two in the second component.
\<close>

primrec recip_real :: "real \<Rightarrow> (int \<times> nat) list \<Rightarrow> real" where
  "recip_real x [] = 0x92db03d6"
| "recip_real x (st # sts) = of_int (fst st) - recip_real x sts * x / 2 ^ snd st"

primrec recip_poly :: "(int \<times> nat) list \<Rightarrow> int list \<times> nat" where
  "recip_poly [] = ([0x92db03d6], 0)"
| "recip_poly (st # sts) =
     (let (p, n) = recip_poly sts; n = n + (snd st - 22) in (fst st * 2 ^ n # map uminus p, n))"

lemma horner_uminus: "horner (map uminus p) u = - horner p u"
  by (induction p) (simp_all add: algebra_simps)

lemma horner_times: "horner (map ((*) k) p) u = of_int k * horner p u"
  by (induction p) (simp_all add: algebra_simps)

lemma recip_poly_real:
  assumes "\<forall>st \<in> set sts. 22 \<le> snd st"
  shows "horner (fst (recip_poly sts)) u = 2 ^ snd (recip_poly sts) * recip_real (2 ^ 22 * u) sts"
  using assms
proof (induction sts)
  case (Cons st sts)
  obtain p n where pn: "recip_poly sts = (p, n)" by (cases "recip_poly sts")
  define k where "k = snd st - 22"
  have s: "snd st = 22 + k" using Cons.prems by (simp add: k_def)
  show ?case
    using Cons by (simp add: pn s Let_def horner_uminus power_add field_simps)
qed simp

lemma recip_stage_range:
  assumes "\<forall>st \<in> set sts. 22 \<le> snd st" "2 ^ 31 \<le> x" "x \<le> 2 ^ 32"
    and "radius (let (p, n) = recip_poly sts in case p of [] \<Rightarrow> [] | a # p \<Rightarrow> (a - m * 2 ^ n) # p) 768 256
      \<le> d * 2 ^ snd (recip_poly sts)"
  shows "of_int (m - d) \<le> recip_real x sts" "recip_real x sts \<le> of_int (m + d)"
proof -
  define u where "u = x / 2 ^ 22"
  have x: "x = 2 ^ 22 * u" by (simp add: u_def)
  obtain a p n where pn: "recip_poly sts = (a # p, n)" 
    by (cases sts; cases "recip_poly (tl sts)") (auto simp: Let_def)
  have "\<bar>horner ((a - m * 2 ^ n) # p) u\<bar> \<le> of_int (d * 2 ^ n)"
    by (rule radius_le [OF assms(4) [unfolded pn, simplified]]) (use assms(2,3) in \<open>simp_all add: u_def\<close>)
  moreover have "horner ((a - m * 2 ^ n) # p) u = 2 ^ n * (recip_real x sts - of_int m)"
    using recip_poly_real [OF assms(1), of u] unfolding x by (simp add: pn algebra_simps)
  ultimately have "2 ^ n * \<bar>recip_real x sts - of_int m\<bar> \<le> 2 ^ n * of_int d"
    by (simp add: abs_mult mult.commute)
  then have "\<bar>recip_real x sts - of_int m\<bar> \<le> of_int d" by simp
  then show "of_int (m - d) \<le> recip_real x sts" "recip_real x sts \<le> of_int (m + d)" by (auto simp: abs_le_iff)
qed

section \<open>Rounding\<close>

text \<open>
  A stage rounds its product down, so its error has the opposite sign of the previous one, scaled,
  and less than one unit more.
\<close>

lemma unat_of_int_below: "0 \<le> c \<Longrightarrow> c < 2 ^ 64 \<Longrightarrow> real (unat (of_int c :: 64 word)) = of_int c"
  by (simp add: unat_eq_nat_uint uint_word_of_int_eq take_bit_int_eq_self del: of_nat_unat)

lemma recip_step:
  fixes r x c :: "64 word"
  assumes x: "unat x < 2 ^ 32" "real (unat x) \<le> xm" and r: "unat r < 2 ^ 32"
    and e: "R - lo \<le> real (unat r)" "real (unat r) \<le> R + hi" "0 \<le> lo" "0 \<le> hi"
    and R': "R' = real (unat c) - R * real (unat x) / 2 ^ s" "hi * xm / 2 ^ s \<le> R'"
  shows "R' - hi * xm / 2 ^ s \<le> real (unat (c - drop_bit s (r * x)))"
    "real (unat (c - drop_bit s (r * x))) \<le> R' + 1 + lo * xm / 2 ^ s"
proof -
  define y where "y = real (unat x) / 2 ^ s"
  define q where "q = unat (drop_bit s (r * x))"
  have y: "0 \<le> y" "y \<le> xm / 2 ^ s"
    unfolding y_def using x(2) by (intro divide_nonneg_pos divide_right_mono; force simp del: of_nat_unat)+
  have p: "unat (r * x) = unat r * unat x"
  proof (rule unat_mult_lem [THEN iffD1])
    have "unat r * unat x < 2 ^ 32 * 2 ^ 32" using x(1) r by (intro mult_strict_mono) auto
    then show "unat r * unat x < 2 ^ LENGTH(64)" by simp
  qed
  have q: "q = unat r * unat x div 2 ^ s" by (simp only: q_def unat_drop_bits p)
  have "real q \<le> real (unat r) * y"
    unfolding q y_def using of_nat_div_le_of_nat [of "unat r * unat x" "2 ^ s", where ?'a = real] by simp
  moreover have "real (unat r) * y < real q + 1"
  proof -
    have "unat r * unat x < (q + 1) * 2 ^ s" unfolding q by (simp add: dividend_less_div_times)
    then have "real (unat r * unat x) < real ((q + 1) * 2 ^ s)" by (simp only: of_nat_less_iff)
    then show ?thesis by (simp add: y_def field_simps)
  qed
  moreover have "real (unat r) * y \<le> (R + hi) * y" "(R - lo) * y \<le> real (unat r) * y"
    using e y by (simp_all add: mult_right_mono)
  moreover have "hi * y \<le> hi * (xm / 2 ^ s)" "lo * y \<le> lo * (xm / 2 ^ s)"
    using e(3,4) y by (simp_all only: mult_left_mono)
  ultimately have b: "real q \<le> R * y + hi * xm / 2 ^ s" "R * y - lo * xm / 2 ^ s - 1 \<le> real q"
    by (simp_all add: algebra_simps)
  have R'y: "R' = real (unat c) - R * y" using R'(1) by (simp add: y_def)
  then have "q \<le> unat c" using b(1) R'(2) by linarith
  then have u: "real (unat (c - drop_bit s (r * x))) = real (unat c) - real q"
    by (simp add: q_def unat_sub word_le_nat_alt of_nat_diff)
  show "R' - hi * xm / 2 ^ s \<le> real (unat (c - drop_bit s (r * x)))"
    "real (unat (c - drop_bit s (r * x))) \<le> R' + 1 + lo * xm / 2 ^ s"
    unfolding u using b R'y by linarith+
qed


text \<open>The words the stages compute, and the bounds of their errors below and above.\<close>

primrec recip_word :: "64 word \<Rightarrow> (int \<times> nat) list \<Rightarrow> 64 word" where
  "recip_word x [] = 0x92db03d6"
| "recip_word x (st # sts) = of_int (fst st) - drop_bit (snd st) (recip_word x sts * x)"

primrec rounding :: "real \<Rightarrow> (int \<times> nat) list \<Rightarrow> real \<times> real" where
  "rounding xm [] = (0, 0)"
| "rounding xm (st # sts) =
     (let (lo, hi) = rounding xm sts in (hi * xm / 2 ^ snd st, 1 + lo * xm / 2 ^ snd st))"

primrec no_wrap :: "real \<Rightarrow> real \<Rightarrow> (int \<times> nat) list \<Rightarrow> bool" where
  "no_wrap x xm [] \<longleftrightarrow> True"
| "no_wrap x xm (st # sts) \<longleftrightarrow> no_wrap x xm sts \<and> 0 \<le> fst st \<and> fst st < 2 ^ 64 \<and>
     recip_real x sts + snd (rounding xm sts) < 2 ^ 32 \<and> fst (rounding xm (st # sts)) \<le> recip_real x (st # sts)"

lemma recip_word_near:
  assumes "unat x < 2 ^ 32" "real (unat x) \<le> xm" "no_wrap (real (unat x)) xm sts"
  shows "0 \<le> fst (rounding xm sts) \<and> 0 \<le> snd (rounding xm sts) \<and>
    recip_real (real (unat x)) sts - fst (rounding xm sts) \<le> real (unat (recip_word x sts)) \<and>
    real (unat (recip_word x sts)) \<le> recip_real (real (unat x)) sts + snd (rounding xm sts)"
  using assms(3)
proof (induction sts)
  case (Cons st sts)
  obtain c s where [simp]: "st = (c, s)" by (cases st)
  obtain lo hi where lh: "rounding xm sts = (lo, hi)" by (cases "rounding xm sts")
  note IH = Cons.IH [unfolded lh fst_conv snd_conv]
  have xm: "0 \<le> xm" using assms(2) by linarith
  have R: "recip_real (real (unat x)) (st # sts) =
      real (unat (of_int c :: 64 word)) - recip_real (real (unat x)) sts * real (unat x) / 2 ^ s"
    using Cons.prems by (simp only: recip_real.simps no_wrap.simps fst_conv snd_conv unat_of_int_below \<open>st = (c, s)\<close>)
  have small: "unat (recip_word x sts) < 2 ^ 32"
  proof -
    have "real (unat (recip_word x sts)) < real (2 ^ 32)" using IH Cons.prems by (simp add: lh del: of_nat_unat)
    then show ?thesis by (simp only: of_nat_less_iff)
  qed
  from recip_step [OF assms(1,2) small _ _ _ _ R, of lo hi] IH Cons.prems xm
  show ?case by (simp add: lh del: of_nat_unat recip_real.simps)
qed simp

section \<open>The error\<close>

definition recip_stages :: "(int \<times> nat) list" where
  "recip_stages =
     [(0x6682799a0, 26), (0x90d876cd, 31), (0xecf97a41, 31), (0xf75cd403, 31),
      (0xaada0bb8, 32), (0x9c2da00e, 33), (0xb63721e8, 34), (0xf63e71ea, 34)]"

text \<open>The polynomial stages before the last one stay inside 32 bits, with room for the rounding errors.\<close>

lemma recip_range:
  assumes "0 < k" "k < 8" "2 ^ 31 \<le> x" "x \<le> 2 ^ 32"
  shows "64 \<le> recip_real x (drop k recip_stages)" "recip_real x (drop k recip_stages) \<le> 2 ^ 32 - 64"
proof -
  consider "k = 1" | "k = 2" | "k = 3" | "k = 4" | "k = 5" | "k = 6" | "k = 7" using assms(1,2) by linarith
  then have "radius (let (p, n) = recip_poly (drop k recip_stages) in case p of [] \<Rightarrow> [] | a # p \<Rightarrow> (a - 2 ^ 31 * 2 ^ n) # p) 768 256
      \<le> (2 ^ 31 - 64) * 2 ^ snd (recip_poly (drop k recip_stages))"
    by cases (simp_all add: recip_stages_def radius_def)
  moreover have "\<forall>st \<in> set (drop k recip_stages). 22 \<le> snd st"
    by (rule ballI, drule in_set_dropD) (auto simp: recip_stages_def)
  ultimately show "64 \<le> recip_real x (drop k recip_stages)" "recip_real x (drop k recip_stages) \<le> 2 ^ 32 - 64"
    using recip_stage_range [of "drop k recip_stages" x "2 ^ 31" "2 ^ 31 - 64"] assms(3,4) by simp_all
qed

text \<open>The polynomial itself, times its argument, is within \<open>0.55 * 2^43\<close> of \<open>2^63\<close>.\<close>

definition recip_error :: "int list" where
  "recip_error = - (2 ^ 139) # map ((*) (2 ^ 22)) (fst (recip_poly recip_stages))"

lemma recip_error_horner:
  "horner recip_error u = 2 ^ 76 * (2 ^ 22 * u * recip_real (2 ^ 22 * u) recip_stages - 2 ^ 63)"
proof -
  have n: "snd (recip_poly recip_stages) = 76" by (simp add: recip_stages_def)
  have ge: "\<forall>st \<in> set recip_stages. 22 \<le> snd st" by (simp add: recip_stages_def)
  show ?thesis
    unfolding recip_error_def horner.simps horner_times recip_poly_real [OF ge] n by (simp add: algebra_simps)
qed

lemma recip_error_bound:
  assumes "2 ^ 31 \<le> x" "x \<le> 2 ^ 32"
  shows "\<bar>x * recip_real x recip_stages - 2 ^ 63\<bar> \<le> 4837851162214"
proof -
  define u where "u = x / 2 ^ 22"
  have x: "x = 2 ^ 22 * u" by (simp add: u_def)
  have "bounded_on recip_error (2 ^ 76 * 4837851162214) 512
      [8, 8, 16, 16, 16, 32, 16, 16, 16, 16, 16, 16, 16, 16, 8, 8, 4, 4, 4, 4]"
    by (simp add: recip_error_def recip_stages_def radius_def)
  then have "\<bar>horner recip_error u\<bar> \<le> of_int (2 ^ 76 * 4837851162214)"
    by (rule horner_bounded_on) (use assms in \<open>simp_all add: u_def\<close>)
  then show ?thesis unfolding recip_error_horner x by (simp add: abs_mult)
qed


section \<open>The approximation\<close>

lemma recip_approx_32_stages: "recip_approx_32 x = ucast (recip_word (ucast x) recip_stages)"
  by (simp add: recip_approx_32_def recip_stages_def Let_def)

text \<open>The rounding errors of all stages together, for arguments up to \<open>xm\<close>.\<close>

lemma recip_no_wrap:
  assumes "2 ^ 31 \<le> x" "x \<le> xm" "xm = 2 ^ 32 \<or> xm = 2 ^ 31 + 2 ^ 23"
  shows "no_wrap x xm recip_stages"
proof -
  have x: "x \<le> 2 ^ 32" using assms(2,3) by auto
  have "896 \<le> recip_real x recip_stages"
  proof (rule ccontr)
    assume "\<not> 896 \<le> recip_real x recip_stages"
    then have "x * recip_real x recip_stages \<le> x * 896" using assms(1) by simp
    then show False using recip_error_bound [OF assms(1) x] x by (simp add: abs_le_iff)
  qed
  then show ?thesis
    using recip_range [OF _ _ assms(1) x, of 1] recip_range [OF _ _ assms(1) x, of 2]
      recip_range [OF _ _ assms(1) x, of 3] recip_range [OF _ _ assms(1) x, of 4]
      recip_range [OF _ _ assms(1) x, of 5] recip_range [OF _ _ assms(1) x, of 6]
      recip_range [OF _ _ assms(1) x, of 7] assms(3)
    by (elim disjE; simp add: recip_stages_def del: recip_real.simps(2))
qed

lemma recip_word_error:
  assumes "2 ^ 31 \<le> unat (x :: 32 word)" "unat x \<le> xm" "xm = 2 ^ 32 \<or> xm = 2 ^ 31 + 2 ^ 23"
  shows "recip_real (real (unat x)) recip_stages - 897 \<le> real (unat (recip_word (ucast x) recip_stages))"
    "real (unat (recip_word (ucast x) recip_stages)) \<le>
      recip_real (real (unat x)) recip_stages + (if xm = 2 ^ 32 then 897 else 100)"
proof -
  have u: "unat (ucast x :: 64 word) = unat x"
    unfolding unsigned_ucast_eq by (rule take_bit_nat_eq_self) (use unat_bound [of x] in simp)
  have lt: "unat (ucast x :: 64 word) < 2 ^ 32" unfolding u using unat_bound [of x] by simp
  have ge: "2 ^ 31 \<le> real (unat x)" and le: "real (unat x) \<le> real xm"
    using of_nat_mono [OF assms(1), where ?'a = real] of_nat_mono [OF assms(2), where ?'a = real] by simp_all
  have xm: "real xm = 2 ^ 32 \<or> real xm = 2 ^ 31 + 2 ^ 23" using assms(3) by auto
  note near = recip_word_near [OF lt _ recip_no_wrap [OF _ _ xm], unfolded u, OF le ge le]
  have "fst (rounding (real xm) recip_stages) \<le> 897"
    "snd (rounding (real xm) recip_stages) \<le> (if xm = 2 ^ 32 then 897 else 100)"
    using assms(3) by (auto simp: recip_stages_def)
  then show "recip_real (real (unat x)) recip_stages - 897 \<le> real (unat (recip_word (ucast x) recip_stages))"
    "real (unat (recip_word (ucast x) recip_stages)) \<le>
      recip_real (real (unat x)) recip_stages + (if xm = 2 ^ 32 then 897 else 100)"
    using near by linarith+
qed

lemma recip_left_end:
  assumes "2 ^ 31 \<le> x" "x \<le> 2 ^ 31 + 2 ^ 23"
  shows "recip_real x recip_stages \<le> 2 ^ 32 - 200"
proof -
  define u where "u = x / 2 ^ 22"
  have x: "x = 2 ^ 22 * u" by (simp add: u_def)
  have "radius (case recip_error of [] \<Rightarrow> [] | a # p \<Rightarrow> (a + 2 ^ 76 * 1319413953331) # p) 513 1 \<le> 2 ^ 76 * 700000000000"
    by (simp add: recip_error_def recip_stages_def radius_def)
  then have "\<bar>horner (case recip_error of [] \<Rightarrow> [] | a # p \<Rightarrow> (a + 2 ^ 76 * 1319413953331) # p) u\<bar> \<le> of_int (2 ^ 76 * 700000000000)"
    by (rule radius_le) (use assms in \<open>simp_all add: u_def\<close>)
  moreover have "horner (case recip_error of [] \<Rightarrow> [] | a # p \<Rightarrow> (a + 2 ^ 76 * 1319413953331) # p) u =
      2 ^ 76 * (x * recip_real x recip_stages - 2 ^ 63 + 1319413953331)"
    using recip_error_horner [of u] unfolding x recip_error_def by (simp add: algebra_simps)
  ultimately have "2 ^ 76 * \<bar>x * recip_real x recip_stages - 2 ^ 63 + 1319413953331\<bar> \<le> 2 ^ 76 * 700000000000"
    by (simp add: abs_mult)
  then have "x * recip_real x recip_stages \<le> 2 ^ 63 - 600000000000" by simp
  show ?thesis
  proof (rule ccontr)
    assume "\<not> recip_real x recip_stages \<le> 2 ^ 32 - 200"
    then have "2 ^ 31 * (2 ^ 32 - 200) \<le> x * recip_real x recip_stages"
      using assms(1) by (intro mult_mono) auto
    then show False using \<open>x * recip_real x recip_stages \<le> 2 ^ 63 - 600000000000\<close> by simp
  qed
qed


text \<open>
  The 32-bit result times any number with those 32 top bits is \<open>2^63\<close> with 20 correct bits. The
  margin of \<open>2^32\<close> is for the bits below.
\<close>

lemma recip_approx_32_near:
  assumes "2 ^ 31 \<le> unat x"
  shows "\<bar>real (unat (recip_approx_32 x)) * real (unat x) - 2 ^ 63\<bar> \<le> 2 ^ 43 - 2 ^ 32"
proof -
  define X where "X = real (unat x)"
  define w where "w = recip_word (ucast x) recip_stages"
  define R where "R = recip_real X recip_stages"
  have "real (unat x) < real (2 ^ 32)" unfolding of_nat_less_iff using unat_bound [of x] by simp
  then have X: "2 ^ 31 \<le> X" "X \<le> 2 ^ 32"
    using of_nat_mono [OF assms, where ?'a = real] by (simp_all add: X_def)
  have err: "\<bar>X * R - 2 ^ 63\<bar> \<le> 4837851162214" using recip_error_bound [OF X] by (simp add: R_def)
  have le: "unat x \<le> 2 ^ 32" using unat_bound [of x] by simp
  have w: "R - 897 \<le> real (unat w)" "real (unat w) \<le> R + 897"
    using recip_word_error [OF assms le] by (simp_all add: R_def X_def w_def del: of_nat_unat)
  have fits: "real (unat w) < 2 ^ 32"
  proof (cases "unat x \<le> 2 ^ 31 + 2 ^ 23")
    case True
    then have "X \<le> real (2 ^ 31 + 2 ^ 23)" unfolding X_def of_nat_le_iff .
    then have "R \<le> 2 ^ 32 - 200" using recip_left_end [OF X(1)] by (simp add: R_def)
    moreover have "real (unat w) \<le> R + 100"
      using recip_word_error(2) [OF assms True] by (simp add: R_def X_def w_def del: of_nat_unat)
    ultimately show ?thesis by simp
  next
    case False
    then have "real (2 ^ 31 + 2 ^ 23) < X" unfolding X_def of_nat_less_iff by simp
    then have x: "2 ^ 31 + 2 ^ 23 \<le> X" by simp
    show ?thesis
    proof (rule ccontr)
      assume "\<not> real (unat w) < 2 ^ 32"
      then have "2 ^ 32 - 897 \<le> R" using w(2) by simp
      then have "(2 ^ 31 + 2 ^ 23) * (2 ^ 32 - 897) \<le> X * R" using x by (intro mult_mono) auto
      then show False using err by (simp add: abs_le_iff)
    qed
  qed
  have "unat w < 2 ^ 32"
  proof -
    have "real (unat w) < real (2 ^ 32)" using fits by (simp del: of_nat_unat)
    then show ?thesis by (simp only: of_nat_less_iff)
  qed
  then have "unat (recip_approx_32 x) = unat w"
    unfolding recip_approx_32_stages w_def [symmetric] unsigned_ucast_eq
    by (intro take_bit_nat_eq_self) simp
  moreover have "\<bar>real (unat w) * X - X * R\<bar> \<le> 897 * X"
  proof -
    have "real (unat w) * X - X * R = (real (unat w) - R) * X" by (simp add: algebra_simps)
    then show ?thesis using w X(1) by (simp only: abs_mult) (intro mult_mono; simp add: abs_le_iff del: of_nat_unat)
  qed
  ultimately show ?thesis
    unfolding X_def [symmetric] using err X(2) by (simp only: abs_le_iff) (auto simp: algebra_simps)
qed

end
