(* ===== verification/MpDiv.thy ===== *)
theory MpDiv
  imports MpRecip
begin

text \<open>
  Division of multiprecision integers and what is built on it: \<open>mp_divmod_into\<close>, \<open>mp_div\<close>,
  \<open>mp_mod\<close>, the general modular operations, \<open>monty_new\<close>, \<open>monty_import\<close> and \<open>mp_modpow\<close> of
  \<open>putty-src/mpint.c\<close>. The quotient is found by Newton-Raphson iteration on the reciprocal of the divisor,
  scaled by \<open>R = 2 ^ log2_R\<close>. Variables of type \<open>size_t\<close> that take part in wrapping arithmetic are
  \<open>64 word\<close>. \<open>None\<close> is a failed assertion, or a loop that does not end.
\<close>

unbundle bit_operations_syntax

section \<open>Definitions\<close>

definition normalise_to_1_u64 :: "64 word \<Rightarrow> 32 word" where
  "normalise_to_1_u64 n = (let n = drop_bit 1 n OR (n AND 1); n = drop_bit 63 (- n) in ucast n)"

primrec shifted_words ::
  "64 word \<Rightarrow> 'w::len mp_int \<Rightarrow> nat \<Rightarrow> nat \<Rightarrow> 32 word \<Rightarrow> 64 word \<Rightarrow> 'w word \<Rightarrow> 'w mp_int"
where
  "shifted_words word_index a i 0 indicator n carry = []"
| "shifted_words word_index a i (Suc k) indicator n carry =
     (let indicator = indicator OR (1 XOR normalise_to_1 (ucast (of_nat i XOR word_index) :: 'w word));
          bword = ucast n AND - ucast indicator;
          new_n = (if LENGTH('w) < 64 then drop_bit LENGTH('w) n else 0);
          n = n XOR ((n XOR new_n) AND - ucast indicator);
          (out, carry) = BignumADC (mp_word a i) bword carry
      in out # shifted_words word_index a (Suc i) k indicator n carry)"

definition mp_add_integer_into_shifted_by_words ::
  "nat \<Rightarrow> 'w::len mp_int \<Rightarrow> 64 word \<Rightarrow> 64 word \<Rightarrow> 'w mp_int"
where
  "mp_add_integer_into_shifted_by_words rw a n word_index = shifted_words word_index a 0 rw 0 n 0"

subsection \<open>The first approximation of the reciprocal\<close>

text \<open>The two loops over the bits \<open>i\<close> of a shift count, from \<open>BIGNUM_INT_BITS_BITS - 1\<close> down to 0.\<close>

primrec shift_up_loop :: "nat \<Rightarrow> 64 word \<Rightarrow> 64 word \<Rightarrow> 64 word \<Rightarrow> 64 word \<times> 64 word \<times> 64 word" where
  "shift_up_loop 0 hibits lobits shift_up = (hibits, lobits, shift_up)"
| "shift_up_loop (Suc i) hibits lobits shift_up =
     (let sl = 2 ^ i; sr = 64 - sl;
          indicator = 1 XOR normalise_to_1_u64 (drop_bit sr hibits);
          new_hibits = push_bit sl hibits OR drop_bit sr lobits;
          new_lobits = push_bit sl lobits;
          new_shift_up = shift_up + of_nat sl;
          hibits = hibits XOR ((hibits XOR new_hibits) AND - ucast indicator);
          lobits = lobits XOR ((lobits XOR new_lobits) AND - ucast indicator);
          shift_up = shift_up XOR ((shift_up XOR new_shift_up) AND - ucast indicator)
      in shift_up_loop i hibits lobits shift_up)"

primrec shift_back_loop :: "nat \<Rightarrow> 64 word \<Rightarrow> 64 word \<Rightarrow> 64 word \<Rightarrow> 64 word \<times> 64 word" where
  "shift_back_loop 0 shift_up hibits lobits = (hibits, lobits)"
| "shift_back_loop (Suc i) shift_up hibits lobits =
     (let sl = 2 ^ i; sr = 64 - sl;
          indicator = ucast (1 AND drop_bit i shift_up) :: 32 word;
          new_hibits = push_bit sl hibits OR drop_bit sr lobits;
          new_lobits = push_bit sl lobits;
          hibits = hibits XOR ((hibits XOR new_hibits) AND - ucast indicator);
          lobits = lobits XOR ((lobits XOR new_lobits) AND - ucast indicator)
      in shift_back_loop i shift_up hibits lobits)"

definition divmod_log2_R :: "nat \<Rightarrow> nat \<Rightarrow> nat \<Rightarrow> 64 word" where
  "divmod_log2_R bits n_nw d_nw =
     (let max_log2_n = of_nat ((n_nw + d_nw) * bits);
          log2_R = max_log2_n + 3;
          log2_R = log2_R - min 191 log2_R;
          log2_R = (log2_R + of_nat bits - 1) AND NOT (of_nat bits - 1)
      in log2_R + 191)"

definition initial_reciprocal :: "'w::len mp_int \<Rightarrow> 64 word \<Rightarrow> nat \<Rightarrow> 'w mp_int option" where
  "initial_reciprocal d log2_R rw =
     (let BITS = LENGTH('w);
          (hiword_index, hibits, lobits) = mp_find_highest_nonzero_word_pair d (64 - BITS) 0 0 0;
          (hibits, lobits, shift_up) = shift_up_loop (BIGNUM_INT_BITS_BITS BITS) hibits lobits 0;
          lobits = push_bit 32 (ucast (recip_approx_32 (ucast (drop_bit 32 hibits))));
          hibits = 0;
          (hibits, lobits) = shift_back_loop (BIGNUM_INT_BITS_BITS BITS) shift_up hibits lobits
      in Option.bind (mp_make_sized rw) (\<lambda>r_approx.
         let input_bit_index = hiword_index * of_nat BITS - (128 - of_nat BITS);
             output_bit_index = log2_R - 191 - input_bit_index
         in if output_bit_index mod of_nat BITS \<noteq> 0 then None
            else
              let output_word_index = output_bit_index div of_nat BITS;
                  r_approx = mp_add_integer_into_shifted_by_words rw r_approx lobits output_word_index
              in Some (mp_add_integer_into_shifted_by_words rw r_approx hibits
                         (output_word_index + 64 div of_nat BITS))))"

subsection \<open>The iteration\<close>

definition newton_step ::
  "'w::len mp_int \<Rightarrow> nat \<Rightarrow> 'w mp_int \<Rightarrow> nat \<Rightarrow> 'w mp_int \<Rightarrow> 'w mp_int option"
where
  "newton_step d log2_R two_R scratchsize r_approx =
     (let rw = length r_approx; dr_nw = rw + length d; diff_nw = max rw dr_nw; product_nw = rw + diff_nw in
      Option.bind (mp_mul_internal dr_nw r_approx d scratchsize) (\<lambda>dr.
      let diff = mp_sub_into diff_nw two_R dr in
      Option.bind (mp_mul_internal product_nw r_approx diff scratchsize) (\<lambda>product.
      let product_shifted = mp_make_alias product (log2_R div LENGTH('w)) product_nw
      in Some (mp_rshift_fixed_into rw product_shifted (log2_R mod LENGTH('w))))))"

partial_function (option) newton_loop ::
  "('w::len mp_int \<Rightarrow> 'w mp_int option) \<Rightarrow> nat \<Rightarrow> nat \<Rightarrow> 'w mp_int \<Rightarrow> 'w mp_int option"
where
  "newton_loop step good_bits good_bits_needed r_approx =
     (if good_bits < good_bits_needed
      then Option.bind (step r_approx) (newton_loop step (good_bits * 2 - 1) good_bits_needed)
      else Some r_approx)"

declare newton_loop.simps [code]

subsection \<open>The whole division\<close>

definition find_reciprocal :: "'w::len mp_int \<Rightarrow> 'w mp_int \<Rightarrow> nat \<Rightarrow> 'w mp_int option" where
  "find_reciprocal n d log2_R =
     (let BITS = LENGTH('w); rw = ((log2_R + 2) + BITS - 1) div BITS in
      Option.bind (initial_reciprocal d (of_nat log2_R) rw) (\<lambda>r_approx.
      Option.bind (mp_make_sized rw) (\<lambda>two_R.
      let two_R = mp_add_integer_into_shifted_by_words rw two_R
            (ucast (push_bit ((log2_R + 1) mod BITS) 1 :: 'w word)) (of_nat ((log2_R + 1) div BITS));
          dr_nw = rw + length d; diff_nw = max rw dr_nw; product_nw = rw + diff_nw;
          scratchsize = max (mp_mul_scratchspace dr_nw rw (length d)) (mp_mul_scratchspace product_nw rw diff_nw);
          good_bits = 31 - 11; good_bits_needed = BITS * length n + 4
      in newton_loop (newton_step d log2_R two_R scratchsize) good_bits good_bits_needed r_approx)))"

primrec correct_loop :: "nat \<Rightarrow> 'w::len mp_int \<Rightarrow> 'w mp_int \<Rightarrow> 32 word \<Rightarrow> 'w mp_int \<times> 32 word" where
  "correct_loop 0 d remainder q_correction = (remainder, q_correction)"
| "correct_loop (Suc iter) d remainder q_correction =
     (let need_correction = mp_cmp_hs remainder d;
          remainder = mp_cond_sub_into (length remainder) remainder d need_correction
      in correct_loop iter d remainder (q_correction + need_correction))"

definition mp_divmod :: "'w::len mp_int \<Rightarrow> 'w mp_int \<Rightarrow> ('w mp_int \<times> 'w mp_int) option" where
  "mp_divmod n d =
     (if mp_eq_integer d 0 \<noteq> 0 then None
      else
        let log2_R = unat (divmod_log2_R LENGTH('w) (length n) (length d)) in
        Option.bind (find_reciprocal n d log2_R) (\<lambda>r_approx.
        Option.bind (mp_mul r_approx n) (\<lambda>quotient_full.
        let quotient_alias = mp_make_alias quotient_full (log2_R div LENGTH('w)) (length quotient_full) in
        Option.bind (mp_make_sized (length n) :: 'w mp_int option) (\<lambda>quotient.
        let quotient = mp_rshift_fixed_into (length quotient) quotient_alias (log2_R mod LENGTH('w)) in
        Option.bind (mp_make_sized (length d) :: 'w mp_int option) (\<lambda>remainder.
        Option.bind (mp_mul_into (length remainder) quotient d) (\<lambda>remainder.
        let remainder = mp_sub_into (length remainder) n remainder;
            (remainder, q_correction) = correct_loop 2 d remainder 0;
            quotient = mp_add_integer_into (length quotient) quotient (ucast q_correction)
        in if mp_cmp_hs remainder d \<noteq> 0 then None else Some (quotient, remainder)))))))"

text \<open>The outputs have the sizes of the caller's integers, and either may be absent.\<close>

definition mp_divmod_into ::
  "'w::len mp_int \<Rightarrow> 'w mp_int \<Rightarrow> nat option \<Rightarrow> nat option \<Rightarrow> ('w mp_int option \<times> 'w mp_int option) option"
where
  "mp_divmod_into n d q_out r_out =
     map_option (\<lambda>(quotient, remainder).
       (map_option (\<lambda>nw. mp_copy_into nw quotient) q_out, map_option (\<lambda>nw. mp_copy_into nw remainder) r_out))
       (mp_divmod n d)"

definition mp_div :: "'w::len mp_int \<Rightarrow> 'w mp_int \<Rightarrow> 'w mp_int option" where
  "mp_div n d =
     Option.bind (mp_make_sized (length n) :: 'w mp_int option) (\<lambda>q.
     Option.bind (mp_divmod_into n d (Some (length q)) None) fst)"

definition mp_mod :: "'w::len mp_int \<Rightarrow> 'w mp_int \<Rightarrow> 'w mp_int option" where
  "mp_mod n d =
     Option.bind (mp_make_sized (length d) :: 'w mp_int option) (\<lambda>r.
     Option.bind (mp_divmod_into n d None (Some (length r))) snd)"

subsection \<open>Modular operations\<close>

definition mp_modmul :: "'w::len mp_int \<Rightarrow> 'w mp_int \<Rightarrow> 'w mp_int \<Rightarrow> 'w mp_int option" where
  "mp_modmul x y modulus = Option.bind (mp_mul x y) (\<lambda>product. mp_mod product modulus)"

definition mp_modadd :: "'w::len mp_int \<Rightarrow> 'w mp_int \<Rightarrow> 'w mp_int \<Rightarrow> 'w mp_int option" where
  "mp_modadd x y modulus = mp_mod (mp_add x y) modulus"

definition mp_modsub :: "'w::len mp_int \<Rightarrow> 'w mp_int \<Rightarrow> 'w mp_int \<Rightarrow> 'w mp_int option" where
  "mp_modsub x y modulus =
     Option.bind (mp_make_sized (max (length x) (length y)) :: 'w mp_int option) (\<lambda>diff.
     let diff = mp_sub_into (length diff) x y;
         negate = mp_cmp_hs y x;
         diff = mp_cond_negate (length diff) diff negate
     in Option.bind (mp_mod diff modulus) (\<lambda>residue.
        let residue = mp_cond_negate (length residue) residue negate;
            make_positive = negate AND NOT (mp_eq_integer residue 0)
        in Some (mp_cond_add_into (length residue) residue modulus make_positive)))"

primrec monty_powers :: "nat \<Rightarrow> 'w::len mp_int \<Rightarrow> 'w mp_int \<Rightarrow> 'w mp_int \<Rightarrow> 'w mp_int list option" where
  "monty_powers 0 p0 m pw = Some []"
| "monty_powers (Suc j) p0 m pw =
     Option.bind (mp_modmul p0 pw m) (\<lambda>pw'. map_option ((#) pw') (monty_powers j p0 m pw'))"

definition monty_new :: "'w::len mp_int \<Rightarrow> 'w MontyContext option" where
  "monty_new modulus =
     (let rw = length modulus; rbits = rw * LENGTH('w); pw = rw * 2 + 1 in
      Option.bind (mp_make_sized rw :: 'w mp_int option) (\<lambda>m.
      let m = mp_copy_into rw modulus in
      Option.bind (mp_invert_mod_2to m rbits) (\<lambda>minv.
      let minus_minv_mod_r = mp_neg_into (length minv) minv in
      Option.bind (mp_make_sized (rw + 1) :: 'w mp_int option) (\<lambda>r.
      let r = r[rw := 1] in
      Option.bind (mp_mod r m) (\<lambda>p0.
      Option.bind (monty_powers 2 p0 m p0) (\<lambda>ps.
      Option.bind (mp_make_sized (monty_scratch_size rw pw) :: 'w mp_int option) (\<lambda>scratch.
      Some \<lparr>mc_m = m, mc_rbits = rbits, mc_rw = rw, mc_pw = pw, mc_minus_minv_mod_r = minus_minv_mod_r,
            mc_powers_of_r_mod_m = p0 # ps, mc_scratch = length scratch\<rparr>)))))))"

definition monty_import :: "'w::len MontyContext \<Rightarrow> 'w mp_int \<Rightarrow> 'w mp_int option" where
  "monty_import mc x = mp_modmul x (mc_powers_of_r_mod_m mc ! 0) (mc_m mc)"

definition monty_import_into :: "'w::len MontyContext \<Rightarrow> nat \<Rightarrow> 'w mp_int \<Rightarrow> 'w mp_int option" where
  "monty_import_into mc rw x = map_option (mp_copy_into rw) (monty_import mc x)"

definition mp_modpow :: "'w::len mp_int \<Rightarrow> 'w mp_int \<Rightarrow> 'w mp_int \<Rightarrow> 'w mp_int option" where
  "mp_modpow base exponent modulus =
     (if length modulus > 0 \<and> modulus ! 0 AND 1 \<noteq> 0 then
        Option.bind (monty_new modulus) (\<lambda>mc.
        Option.bind (monty_import mc base) (\<lambda>m_base.
        Option.bind (monty_pow mc m_base exponent) (\<lambda>m_out.
        monty_export mc m_out)))
      else None)"

section \<open>Adding a shifted C integer\<close>

lemma normalise_to_1_u64_val: "normalise_to_1_u64 n = (if n = 0 then 0 else 1)"
  using normalise_to_1_val [of n] by (simp add: normalise_to_1_u64_def normalise_to_1_def)

lemma index_xor_0:
  assumes "LENGTH('w::len) \<le> 64" "i < 2 ^ LENGTH('w)" "unat j < 2 ^ LENGTH('w)"
  shows "(ucast (of_nat i XOR j :: 64 word) :: 'w word) = 0 \<longleftrightarrow> i = unat j"
proof -
  have "(2::nat) ^ LENGTH('w) \<le> 2 ^ 64" using assms(1) by (intro power_increasing) auto
  then have i: "unat (of_nat i :: 64 word) = i" using assms(2) by (simp add: unat_of_nat take_bit_nat_eq_self)
  have "(ucast (of_nat i XOR j :: 64 word) :: 'w word) = ucast (of_nat i :: 64 word) XOR ucast j"
    by (rule bit_word_eqI) (simp add: bit_simps)
  then have "(ucast (of_nat i XOR j :: 64 word) :: 'w word) = 0 \<longleftrightarrow> (ucast (of_nat i :: 64 word) :: 'w word) = ucast j"
    by (simp only: xor_0)
  also have "\<dots> \<longleftrightarrow> i = unat j"
    by (simp add: word_unat_eq_iff unat_low_word i assms(2,3))
  finally show ?thesis .
qed

lemma length_shifted_words [simp]: "length (shifted_words j a i k ind n c) = k"
  by (induction k arbitrary: i ind n c) (simp_all add: Let_def case_prod_unfold)

lemma shifted_step:
  fixes a b out carry :: nat
  assumes "out + B * carry' = a + (n mod B) + carry" "out < B"
  shows "out + B * ((w + n div B + carry') mod M) = (a + B * w + n + carry) mod (B * M)"
proof -
  have "out + B * (w + n div B + carry') = (out + B * carry') + B * w + B * (n div B)"
    by (simp add: add_mult_distrib2)
  also have "\<dots> = a + B * w + n + carry" unfolding assms(1) by simp
  finally show ?thesis by (simp only: digit_mod [OF assms(2)])
qed

lemma shifted_words_val:
  fixes a :: "'w::len mp_int"
  assumes L: "2 \<le> LENGTH('w)" "LENGTH('w) \<le> 64" and j: "unat j < 2 ^ LENGTH('w)"
  shows "i + k \<le> 2 ^ LENGTH('w) \<Longrightarrow> ind = 1 \<or> ind = 0 \<and> i \<le> unat j \<Longrightarrow>
    mp_val (shifted_words j a i k ind n c) =
      (window (mp_word a) i k + unat n * 2 ^ (LENGTH('w) * (if ind = 1 then 0 else unat j - i)) + unat c)
        mod 2 ^ (LENGTH('w) * k)"
proof (induction k arbitrary: i ind n c)
  case (Suc k)
  let ?B = "2 ^ LENGTH('w) :: nat"
  define active where "active \<longleftrightarrow> ind = 1 \<or> i = unat j"
  define n' where "n' = (if active then if LENGTH('w) < 64 then drop_bit LENGTH('w) n else 0 else n)"
  define bw where "bw = (if active then ucast n else 0 :: 'w word)"
  define ind' where "ind' = (if active then 1 else 0 :: 32 word)"
  obtain out c' where adc: "BignumADC (mp_word a i) bw c = (out, c')" by fastforce
  have n': "unat n' = (if active then unat n div ?B else unat n)"
    unfolding n'_def using L(2) unat_bound [of n] by (auto simp: unat_drop_bits not_less)
  have "i < ?B" using Suc.prems(1) by simp
  note z = index_xor_0 [OF L(2) this j]
  have ind: "ind OR (1 XOR normalise_to_1 (ucast (of_nat i XOR j) :: 'w word)) = ind'"
    unfolding normalise_to_1_val [OF L(1)] z ind'_def active_def using Suc.prems(2) by auto
  have sel: "ucast n AND - ucast ind' = bw"
    "n XOR ((n XOR (if LENGTH('w) < 64 then drop_bit LENGTH('w) n else 0)) AND - ucast ind') = n'"
    unfolding ind'_def bw_def n'_def by (simp_all add: xor_back)
  have run: "shifted_words j a i (Suc k) ind n c = out # shifted_words j a (Suc i) k ind' n' c'"
    by (simp only: shifted_words.simps Let_def ind sel adc split_conv)
  have IH: "mp_val (shifted_words j a (Suc i) k ind' n' c') =
      (window (mp_word a) (Suc i) k + unat n' * 2 ^ (LENGTH('w) * (if ind' = 1 then 0 else unat j - Suc i)) + unat c')
        mod 2 ^ (LENGTH('w) * k)"
    using Suc.prems by (intro Suc.IH) (auto simp: ind'_def active_def)
  define V where "V = unat n * 2 ^ (LENGTH('w) * (if ind = 1 then 0 else unat j - i))"
  have V: "V mod ?B = unat bw" "V div ?B = unat n' * 2 ^ (LENGTH('w) * (if ind' = 1 then 0 else unat j - Suc i))"
  proof -
    have "V = unat n" if active using that by (auto simp: V_def active_def)
    moreover have "V = ?B * (unat n * 2 ^ (LENGTH('w) * (unat j - Suc i)))" if "\<not> active"
    proof -
      from that Suc.prems(2) have "ind \<noteq> 1" "unat j - i = Suc (unat j - Suc i)" by (auto simp: active_def)
      then show ?thesis by (simp add: V_def power_add algebra_simps)
    qed
    ultimately show "V mod ?B = unat bw" "V div ?B = unat n' * 2 ^ (LENGTH('w) * (if ind' = 1 then 0 else unat j - Suc i))"
      by (auto simp: bw_def n' ind'_def unat_low_word)
  qed
  have "unat out + ?B * ((window (mp_word a) (Suc i) k + V div ?B + unat c') mod 2 ^ (LENGTH('w) * k)) =
      (unat (mp_word a i) + ?B * window (mp_word a) (Suc i) k + V + unat c) mod (?B * 2 ^ (LENGTH('w) * k))"
    by (rule shifted_step [OF _ unat_bound]) (use BignumADC_val [OF adc] V(1) in simp)
  then show ?case
    unfolding run by (simp only: mp_val.simps IH V(2) [symmetric] window_Suc V_def [symmetric] mult_Suc_right power_add)
qed simp

lemma add_shifted_val:
  fixes a :: "'w::len mp_int"
  assumes "2 \<le> LENGTH('w)" "LENGTH('w) \<le> 64" "unat j < 2 ^ LENGTH('w)" "rw \<le> 2 ^ LENGTH('w)"
  shows "mp_val (mp_add_integer_into_shifted_by_words rw a n j) =
    (mp_val a + unat n * 2 ^ (LENGTH('w) * unat j)) mod 2 ^ (LENGTH('w) * rw)"
    "length (mp_add_integer_into_shifted_by_words rw a n j) = rw"
proof -
  have "mp_val (mp_add_integer_into_shifted_by_words rw a n j) =
      (mp_val a mod 2 ^ (LENGTH('w) * rw) + unat n * 2 ^ (LENGTH('w) * unat j)) mod 2 ^ (LENGTH('w) * rw)"
    unfolding mp_add_integer_into_shifted_by_words_def
    using shifted_words_val [OF assms(1-3), of 0 rw 0 a n 0] assms(4) by (simp add: window_words)
  then show "mp_val (mp_add_integer_into_shifted_by_words rw a n j) =
      (mp_val a + unat n * 2 ^ (LENGTH('w) * unat j)) mod 2 ^ (LENGTH('w) * rw)"
    by (simp only: mod_add_left_eq)
qed (simp add: mp_add_integer_into_shifted_by_words_def)

section \<open>The top bits of the divisor\<close>

text \<open>Two words as one number of 128 bits, and its shifts.\<close>

definition pair_val :: "64 word \<Rightarrow> 64 word \<Rightarrow> nat" where
  "pair_val hi lo = unat hi * 2 ^ 64 + unat lo"

lemma pair_val_bound: "pair_val hi lo < 2 ^ 128"
proof -
  have "unat hi * 2 ^ 64 \<le> (2 ^ 64 - 1) * 2 ^ 64" using unat_bound [of hi] by (intro mult_le_mono1) simp
  then show ?thesis using unat_bound [of lo] by (simp add: pair_val_def)
qed

lemma unat_or_disjoint:
  assumes "(a :: 'w::len word) AND b = 0"
  shows "unat (a OR b) = unat a + unat b"
proof -
  have "unat a AND unat b = 0" using assms by (simp flip: unsigned_and_eq)
  then have "unat a + unat b = unat a OR unat b" by (rule disjunctive_add_eq_or)
  then show ?thesis by (simp only: unsigned_or_eq)
qed

lemma unat_push_bits: "unat (push_bit s w :: 'w::len word) = unat w * 2 ^ s mod 2 ^ LENGTH('w)"
  unfolding unsigned_push_bit_eq by (simp add: take_bit_eq_mod push_bit_eq_mult)

lemma power_64: "s \<le> 64 \<Longrightarrow> (2::nat) ^ (128 - s) = 2 ^ (64 - s) * 2 ^ 64"
  by (simp only: power_add [symmetric]) simp

lemma low_and_high: "0 < s \<Longrightarrow> s < 64 \<Longrightarrow> (push_bit s h :: 64 word) AND drop_bit (64 - s) l = 0"
  by (rule bit_word_eqI) (auto simp: bit_simps dest: bit_imp_le_length)

lemma pair_push:
  assumes "0 < s" "s < 64" "pair_val hi lo < 2 ^ (128 - s)"
  shows "pair_val (push_bit s hi OR drop_bit (64 - s) lo) (push_bit s lo) = pair_val hi lo * 2 ^ s"
proof -
  define S T where "S = (2::nat) ^ s" and "T = (2::nat) ^ (64 - s)"
  have ST: "S * T = 2 ^ 64" using assms(1,2) by (simp add: S_def T_def flip: power_add)
  have "2 ^ (128 - s) = T * 2 ^ 64" using power_64 [of s] assms(2) by (simp add: T_def)
  then have "unat hi * 2 ^ 64 < T * 2 ^ 64" using assms(3) by (simp add: pair_val_def)
  then have "unat hi < T" by simp
  then have "unat hi * S < T * S" by (simp add: S_def)
  then have h: "unat hi * S mod 2 ^ 64 = unat hi * S" using ST by (simp add: mult.commute)
  have l: "unat lo * S = (unat lo div T) * 2 ^ 64 + unat lo * S mod 2 ^ 64"
  proof -
    have "unat lo * S div (S * T) = unat lo div T" by (simp add: S_def mult.commute)
    then show ?thesis using div_mult_mod_eq [of "unat lo * S" "2 ^ 64"] ST by simp
  qed
  have "pair_val (push_bit s hi OR drop_bit (64 - s) lo) (push_bit s lo) =
      (unat hi * S + unat lo div T) * 2 ^ 64 + unat lo * S mod 2 ^ 64"
    unfolding pair_val_def unat_or_disjoint [OF low_and_high [OF assms(1,2)]] unat_push_bits unat_drop_bits
    using h by (simp add: S_def T_def)
  also have "\<dots> = unat hi * S * 2 ^ 64 + unat lo * S" using l by (simp add: algebra_simps)
  also have "\<dots> = pair_val hi lo * S" by (simp add: pair_val_def algebra_simps)
  finally show ?thesis by (simp add: S_def)
qed

lemma pair_top: "drop_bit (64 - s) hi = 0 \<longleftrightarrow> pair_val hi lo < 2 ^ (128 - s)" if "s \<le> 64"
proof -
  define T where "T = (2::nat) ^ (64 - s)"
  have T: "2 ^ (128 - s) = T * 2 ^ 64" using power_64 [OF that] by (simp add: T_def)
  have "drop_bit (64 - s) hi = 0 \<longleftrightarrow> unat hi div T = 0"
    by (simp only: unat_eq_zero [symmetric] unat_drop_bits T_def)
  also have "\<dots> \<longleftrightarrow> unat hi < T" by (simp add: T_def div_eq_0_iff)
  also have "\<dots> \<longleftrightarrow> unat hi * 2 ^ 64 + unat lo < T * 2 ^ 64"
  proof
    assume "unat hi < T"
    then have "(unat hi + 1) * 2 ^ 64 \<le> T * 2 ^ 64" by (intro mult_le_mono1) simp
    then show "unat hi * 2 ^ 64 + unat lo < T * 2 ^ 64" using unat_bound [of lo] by simp
  next
    assume "unat hi * 2 ^ 64 + unat lo < T * 2 ^ 64"
    then have "unat hi * 2 ^ 64 < T * 2 ^ 64" by simp
    then show "unat hi < T" by simp
  qed
  finally show ?thesis by (simp only: pair_val_def T)
qed

text \<open>
  \<open>mp_find_highest_nonzero_word_pair\<close> with the word at the top of the pair: the 128 bits below the
  top of the highest nonzero word.
\<close>

lemma pair_shift_in:
  fixes w :: "'w::len word"
  assumes L: "2 \<le> LENGTH('w)" "LENGTH('w) \<le> 64"
  shows "pair_val ((if LENGTH('w) < 64 then drop_bit LENGTH('w) hi else 0) OR push_bit (64 - LENGTH('w)) (ucast w))
      ((if LENGTH('w) < 64 then drop_bit LENGTH('w) lo else 0) OR push_bit (64 - LENGTH('w)) hi) =
    unat w * 2 ^ (128 - LENGTH('w)) + pair_val hi lo div 2 ^ LENGTH('w)"
proof -
  let ?L = "LENGTH('w)"
  define B T where "B = (2::nat) ^ ?L" and "T = (2::nat) ^ (64 - ?L)"
  have BT: "B * T = 2 ^ 64" using L by (simp add: B_def T_def flip: power_add)
  have dr: "(if ?L < 64 then drop_bit ?L v else 0) = drop_bit ?L v" for v :: "64 word"
    using L unat_bound [of v] by (auto simp: not_less unat_eq_zero [symmetric] unat_drop_bits)
  have dis: "drop_bit ?L v AND push_bit (64 - ?L) u = 0" for u v :: "64 word"
    by (rule bit_word_eqI) (use L in \<open>auto simp: bit_simps dest: bit_imp_le_length\<close>)
  have w: "unat (ucast w :: 64 word) = unat w"
  proof -
    have "(2::nat) ^ ?L \<le> 2 ^ 64" using L by (intro power_increasing) auto
    then have "unat w < 2 ^ 64" using unat_bound [of w] by linarith
    then show ?thesis unfolding unsigned_ucast_eq by (simp add: take_bit_nat_eq_self)
  qed
  have "unat w * T < B * T" using unat_bound [of w] by (simp add: B_def T_def)
  then have wT: "unat w * T mod 2 ^ 64 = unat w * T" using BT by simp
  have "pair_val (drop_bit ?L hi OR push_bit (64 - ?L) (ucast w)) (drop_bit ?L lo OR push_bit (64 - ?L) hi) =
      (unat hi div B + unat w * T) * 2 ^ 64 + (unat lo div B + unat hi * T mod 2 ^ 64)"
    unfolding pair_val_def unat_or_disjoint [OF dis] unat_push_bits unat_drop_bits w
    using wT by (simp add: B_def T_def)
  also have "\<dots> = unat w * T * 2 ^ 64 + ((unat hi div B) * 2 ^ 64 + unat hi * T mod 2 ^ 64 + unat lo div B)"
    by (simp add: algebra_simps)
  also have "(unat hi div B) * 2 ^ 64 + unat hi * T mod 2 ^ 64 = unat hi * T"
  proof -
    have "unat hi * T div (B * T) = unat hi div B" by (simp add: T_def)
    then show ?thesis using div_mult_mod_eq [of "unat hi * T" "2 ^ 64"] BT by simp
  qed
  also have "unat hi * T + unat lo div B = pair_val hi lo div B"
  proof -
    have "pair_val hi lo = unat hi * T * B + unat lo" by (simp add: pair_val_def mult.assoc mult.commute [of T] BT)
    then show ?thesis by (simp add: B_def)
  qed
  also have "unat w * T * 2 ^ 64 = unat w * 2 ^ (128 - ?L)" using power_64 [OF L(2)] by (simp add: T_def)
  finally show ?thesis by (simp only: dr B_def)
qed

definition top_pair :: "'w::len mp_int \<Rightarrow> 64 word \<times> 64 word \<times> 64 word \<Rightarrow> bool" where
  "top_pair p out \<longleftrightarrow> mp_val p \<noteq> 0 \<longrightarrow>
     (case out of (ix, hi, lo) \<Rightarrow> \<exists>i < length p. ix = of_nat i \<and> 2 ^ (LENGTH('w) * i) \<le> mp_val p \<and>
        mp_val p < 2 ^ (LENGTH('w) * (i + 1)) \<and> pair_val hi lo = mp_val p * 2 ^ 128 div 2 ^ (LENGTH('w) * (i + 1)))"

lemma find_highest_pair:
  fixes p x :: "'w::len mp_int"
  assumes L: "2 \<le> LENGTH('w)" "LENGTH('w) \<le> 64"
  shows "pair_val chi clo = mp_val p * 2 ^ 128 div 2 ^ (LENGTH('w) * length p) \<Longrightarrow> top_pair p (ix, hi, lo) \<Longrightarrow>
    top_pair (p @ x) (find_highest x (64 - LENGTH('w)) (of_nat (length p)) chi clo (ix, hi, lo))"
proof (induction x arbitrary: p chi clo ix hi lo)
  case (Cons w x)
  let ?L = "LENGTH('w)" and ?c = "length p"
  define chi' where "chi' = (if ?L < 64 then drop_bit ?L chi else 0) OR push_bit (64 - ?L) (ucast w)"
  define clo' where "clo' = (if ?L < 64 then drop_bit ?L clo else 0) OR push_bit (64 - ?L) chi"
  define out where "out = (if w = 0 then (ix, hi, lo) else (of_nat ?c, chi', clo'))"
  have v: "mp_val (p @ [w]) = mp_val p + 2 ^ (?L * ?c) * unat w" by (simp add: mp_val_append)
  have pair: "pair_val chi' clo' = mp_val (p @ [w]) * 2 ^ 128 div 2 ^ (?L * length (p @ [w]))"
  proof -
    define D E K where "D = (2::nat) ^ (?L * ?c)" and "E = unat w * 2 ^ (128 - ?L)" and "K = D * 2 ^ ?L"
    have "(2::nat) ^ 128 = 2 ^ ?L * 2 ^ (128 - ?L)" using L by (simp only: power_add [symmetric]) simp
    then have "(mp_val p + D * unat w) * 2 ^ 128 = mp_val p * 2 ^ 128 + E * K"
      by (simp add: algebra_simps E_def K_def)
    moreover have "K \<noteq> 0" by (simp add: D_def K_def)
    ultimately have "(mp_val p + D * unat w) * 2 ^ 128 div K = E + mp_val p * 2 ^ 128 div K"
      by (metis div_mult_self1)
    then show ?thesis
      unfolding chi'_def clo'_def pair_shift_in [OF L] Cons.prems(1) v div_mult2_eq [symmetric] D_def E_def K_def
      by (simp add: power_add mult.commute)
  qed
  have "top_pair (p @ [w]) out"
  proof (cases "w = 0")
    case True
    then have "mp_val (p @ [w]) = mp_val p" using v by simp
    then show ?thesis using Cons.prems(2) True by (auto simp: top_pair_def out_def less_Suc_eq)
  next
    case False
    then have "1 \<le> unat w" using unat_eq_zero [of w] by linarith
    then have "(2::nat) ^ (?L * ?c) * 1 \<le> 2 ^ (?L * ?c) * unat w" by (rule mult_le_mono2)
    then have "2 ^ (?L * ?c) \<le> mp_val (p @ [w])" unfolding v by (simp only: mult_1_right trans_le_add2)
    then show ?thesis
      using False pair mp_val_bound [of "p @ [w]"] unfolding top_pair_def out_def
      by (simp del: One_nat_def) (rule impI, rule exI [of _ ?c], simp)
  qed
  moreover have "find_highest (w # x) (64 - ?L) (of_nat ?c) chi clo (ix, hi, lo) =
      find_highest x (64 - ?L) (of_nat (length (p @ [w]))) chi' clo' out"
    unfolding find_highest.simps Let_def normalise_to_1_val [OF L(1)] select_word0 chi'_def clo'_def out_def
    by (simp add: add.commute)
  ultimately show ?case
    using Cons.IH [of chi' clo' "p @ [w]" "fst out" "fst (snd out)" "snd (snd out)"] pair by simp
qed simp

lemma highest_pair_val:
  fixes d :: "'w::len mp_int"
  assumes L: "2 \<le> LENGTH('w)" "LENGTH('w) \<le> 64" and "mp_val d \<noteq> 0"
  obtains i hi lo where "mp_find_highest_nonzero_word_pair d (64 - LENGTH('w)) 0 0 0 = (of_nat i, hi, lo)"
    "i < length d" "2 ^ (LENGTH('w) * i) \<le> mp_val d" "mp_val d < 2 ^ (LENGTH('w) * (i + 1))"
    "pair_val hi lo = mp_val d * 2 ^ 128 div 2 ^ (LENGTH('w) * (i + 1))"
proof -
  have "top_pair ([] @ d) (mp_find_highest_nonzero_word_pair d (64 - LENGTH('w)) 0 0 0)"
    unfolding mp_find_highest_nonzero_word_pair_def
    using find_highest_pair [OF L, of 0 0 "[]" 0 0 0 d] by (simp add: top_pair_def pair_val_def)
  then show thesis using assms(3) that by (auto simp: top_pair_def split: prod.splits)
qed

text \<open>The first loop moves the top bit of the pair to the top and counts; the second undoes a count.\<close>

lemma shift_up_loop_val:
  "i \<le> 6 \<Longrightarrow> 2 ^ (128 - 2 ^ i) \<le> pair_val hi lo \<Longrightarrow> \<exists>k hi' lo'. shift_up_loop i hi lo su = (hi', lo', su + of_nat k) \<and>
    k < 2 ^ i \<and> pair_val hi' lo' = pair_val hi lo * 2 ^ k \<and> 2 ^ 127 \<le> pair_val hi' lo'"
proof (induction i arbitrary: hi lo su)
  case 0
  then show ?case by (intro exI [of _ "0::nat"]) auto
next
  case (Suc i)
  define s where "s = (2::nat) ^ i"
  have "i = 0 \<or> i = 1 \<or> i = 2 \<or> i = 3 \<or> i = 4 \<or> i = 5" using Suc.prems(1) by linarith
  then have s: "0 < s" "s \<le> 32" by (auto simp: s_def)
  have top: "drop_bit (64 - s) hi = 0 \<longleftrightarrow> pair_val hi lo < 2 ^ (128 - s)" using s by (intro pair_top) simp
  show ?case
  proof (cases "pair_val hi lo < 2 ^ (128 - s)")
    case True
    define hi1 lo1 where "hi1 = push_bit s hi OR drop_bit (64 - s) lo" and "lo1 = push_bit s lo"
    have p: "pair_val hi1 lo1 = pair_val hi lo * 2 ^ s"
      unfolding hi1_def lo1_def by (rule pair_push) (use s True in auto)
    have "(2::nat) ^ (128 - 2 ^ i) = 2 ^ (128 - 2 ^ Suc i) * 2 ^ s"
      unfolding power_add [symmetric] using s by (intro arg_cong [where f = "\<lambda>n. 2 ^ n"]) (simp add: s_def)
    also have "\<dots> \<le> pair_val hi1 lo1" unfolding p using Suc.prems(2) by (rule mult_le_mono1)
    finally obtain k hi' lo' where IH: "shift_up_loop i hi1 lo1 (su + of_nat s) = (hi', lo', su + of_nat s + of_nat k)"
      "k < 2 ^ i" "pair_val hi' lo' = pair_val hi1 lo1 * 2 ^ k" "2 ^ 127 \<le> pair_val hi' lo'"
      using Suc.IH [of hi1 lo1 "su + of_nat s"] Suc.prems(1) by auto
    have "shift_up_loop (Suc i) hi lo su = (hi', lo', su + of_nat (s + k))"
      using top True IH(1)
      unfolding shift_up_loop.simps Let_def s_def [symmetric] normalise_to_1_u64_val hi1_def lo1_def
      by (simp add: xor_back ac_simps)
    moreover have "s + k < 2 ^ Suc i" using IH(2) by (simp add: s_def)
    ultimately show ?thesis using IH(3,4) p by (intro exI [of _ "s + k"]) (simp add: power_add)
  next
    case False
    then have "2 ^ (128 - 2 ^ i) \<le> pair_val hi lo" by (simp add: s_def)
    then obtain k hi' lo' where IH: "shift_up_loop i hi lo su = (hi', lo', su + of_nat k)"
      "k < 2 ^ i" "pair_val hi' lo' = pair_val hi lo * 2 ^ k" "2 ^ 127 \<le> pair_val hi' lo'"
      using Suc.IH [of hi lo su] Suc.prems(1) by auto
    have "shift_up_loop (Suc i) hi lo su = (hi', lo', su + of_nat k)"
      using top False IH(1) unfolding shift_up_loop.simps Let_def s_def [symmetric] normalise_to_1_u64_val by simp
    moreover have "k < 2 ^ Suc i" using IH(2) by simp
    ultimately show ?thesis using IH(3,4) by blast
  qed
qed

lemma shift_back_loop_val:
  "i \<le> 6 \<Longrightarrow> pair_val hi lo * 2 ^ (unat su mod 2 ^ i) < 2 ^ 128 \<Longrightarrow> \<exists>hi' lo'. shift_back_loop i su hi lo = (hi', lo') \<and>
    pair_val hi' lo' = pair_val hi lo * 2 ^ (unat su mod 2 ^ i)"
proof (induction i arbitrary: hi lo)
  case (Suc i)
  define s where "s = (2::nat) ^ i"
  have "i = 0 \<or> i = 1 \<or> i = 2 \<or> i = 3 \<or> i = 4 \<or> i = 5" using Suc.prems(1) by linarith
  then have s: "0 < s" "s \<le> 32" by (auto simp: s_def)
  have m: "unat su mod 2 ^ Suc i = unat su mod 2 ^ i + (if bit su i then s else 0)"
    using take_bit_Suc_from_most [of i "unat su"] by (simp add: take_bit_eq_mod s_def bit_unsigned_iff)
  have ind: "- ucast (ucast (1 AND drop_bit i su) :: 32 word) = (if bit su i then - 1 else 0 :: 64 word)"
    by (simp add: one_and_eq mod_2_eq_odd bit_iff_odd_drop_bit)
  show ?case
  proof (cases "bit su i")
    case True
    define hi1 lo1 where "hi1 = push_bit s hi OR drop_bit (64 - s) lo" and "lo1 = push_bit s lo"
    have split: "pair_val hi lo * 2 ^ (unat su mod 2 ^ Suc i) = pair_val hi lo * 2 ^ s * 2 ^ (unat su mod 2 ^ i)"
      using m True by (simp add: power_add)
    have "pair_val hi lo * 2 ^ s \<le> pair_val hi lo * 2 ^ s * 2 ^ (unat su mod 2 ^ i)" by simp
    then have "pair_val hi lo * 2 ^ s < 2 ^ 128"
      using Suc.prems(2) unfolding split by (rule order.strict_trans1)
    also have "(2::nat) ^ 128 = 2 ^ (128 - s) * 2 ^ s" using s by (simp only: power_add [symmetric]) simp
    finally have "pair_val hi lo * 2 ^ s < 2 ^ (128 - s) * 2 ^ s" .
    then have p: "pair_val hi1 lo1 = pair_val hi lo * 2 ^ s"
      unfolding hi1_def lo1_def using s by (intro pair_push) auto
    then obtain hi' lo' where IH: "shift_back_loop i su hi1 lo1 = (hi', lo')"
      "pair_val hi' lo' = pair_val hi1 lo1 * 2 ^ (unat su mod 2 ^ i)"
      using Suc.IH [of hi1 lo1] Suc.prems split by auto
    have "shift_back_loop (Suc i) su hi lo = (hi', lo')"
      using IH(1) True unfolding shift_back_loop.simps Let_def s_def [symmetric] ind hi1_def lo1_def by (simp add: xor_back)
    then show ?thesis using IH(2) unfolding p split by blast
  next
    case False
    then have m: "unat su mod 2 ^ Suc i = unat su mod 2 ^ i" using m by simp
    have "shift_back_loop (Suc i) su hi lo = shift_back_loop i su hi lo"
      using False unfolding shift_back_loop.simps Let_def ind by simp
    then show ?thesis using Suc.IH [of hi lo] Suc.prems unfolding m by (simp only: Suc_leD)
  qed
qed simp

section \<open>The scale and the first approximation\<close>

text \<open>
  Words of 32 and 64 bits from here on: with words of 16 bits and a numerator of one or two words the
  position of the approximation, \<open>output_bit_index\<close>, can be below zero.
\<close>

definition wide_word :: "nat \<Rightarrow> bool" where
  "wide_word bits \<longleftrightarrow> bits = 32 \<or> bits = 64"

lemma wide_platform: "wide_word L \<Longrightarrow> platform_word L"
  by (auto simp: wide_word_def platform_word_def)

lemma wide_size: "wide_word LENGTH('w::len) \<Longrightarrow> (2::nat) ^ 32 \<le> 2 ^ LENGTH('w)"
  by (auto simp: wide_word_def)

lemma and_not_mask: "unat (w AND NOT (2 ^ e - 1)) = unat w div 2 ^ e * 2 ^ e" for w :: "64 word"
proof -
  have "w AND NOT (2 ^ e - 1) = push_bit e (drop_bit e w)"
    by (rule bit_word_eqI) (auto simp: bit_simps simp flip: mask_eq_exp_minus_1)
  moreover have "unat w div 2 ^ e * 2 ^ e \<le> unat w" by (rule div_times_less_eq_dividend)
  ultimately show ?thesis
    using unat_bound [of w] by (simp only: unat_push_bits unat_drop_bits mod_less le_less_trans)
qed

lemma divmod_log2_R_val:
  assumes L: "platform_word bits" and M: "M = (n_nw + d_nw) * bits" "M + 1000 < 2 ^ 64"
  shows "unat (divmod_log2_R bits n_nw d_nw) = 191 + (M + 3 - min 191 (M + 3) + (bits - 1)) div bits * bits"
proof -
  obtain e where e: "bits = 2 ^ e" using platform_bits(1) [OF L] by metis
  have b: "0 < bits" "bits \<le> 64" using L by (auto simp: platform_word_def)
  define m where "m = M + 3 - min 191 (M + 3)"
  have u: "unat (of_nat k :: 64 word) = k" if "k < 2 ^ 64" for k
    using that by (simp add: unat_of_nat take_bit_nat_eq_self)
  have w: "of_nat ((n_nw + d_nw) * bits) + 3 = (of_nat (M + 3) :: 64 word)" by (simp add: M(1))
  have mn: "min 191 (of_nat (M + 3)) = (of_nat (min 191 (M + 3)) :: 64 word)"
    using u [of "M + 3"] M(2) by (auto simp: min_def word_le_nat_alt simp del: of_nat_add)
  have m: "of_nat (M + 3) - min 191 (of_nat (M + 3)) = (of_nat m :: 64 word)"
    unfolding mn m_def by (rule of_nat_diff [symmetric]) simp
  have mb: "of_nat m + of_nat bits - 1 = (of_nat (m + (bits - 1)) :: 64 word)"
    using b(1) by (simp add: of_nat_diff)
  define v where "v = (of_nat (m + (bits - 1)) AND NOT (of_nat bits - 1) :: 64 word)"
  have "unat (of_nat (m + (bits - 1)) :: 64 word) = m + (bits - 1)"
    using M(2) b(2) by (intro u) (simp add: m_def)
  moreover have "(of_nat bits :: 64 word) = 2 ^ e" by (simp add: e)
  ultimately have v: "unat v = (m + (bits - 1)) div bits * bits"
    unfolding v_def by (simp only: and_not_mask) (simp add: e)
  have "(m + (bits - 1)) div bits * bits \<le> m + (bits - 1)" by (rule div_times_less_eq_dividend)
  moreover have "m \<le> M + 3" by (simp add: m_def)
  ultimately have "(m + (bits - 1)) div bits * bits < 2 ^ 64 - 191" using M(2) b(2) by linarith
  then have "unat v + unat (191 :: 64 word) < 2 ^ LENGTH(64)" unfolding v by simp
  then have "unat (v + 191) = unat v + 191" by (simp only: unat_add_lem [THEN iffD1]) simp
  moreover have "divmod_log2_R bits n_nw d_nw = v + 191"
    unfolding divmod_log2_R_def Let_def w m mb v_def ..
  ultimately show ?thesis unfolding v m_def by simp
qed

text \<open>\<open>2^log2_R\<close> is well above numerator times denominator, and the approximation has a place in it.\<close>

lemma scale_facts:
  fixes n d :: "'w::len mp_int"
  assumes L: "wide_word LENGTH('w)" and N: "0 < length n" "length n + length d < 2 ^ 31"
    and l: "l = unat (divmod_log2_R LENGTH('w) (length n) (length d))"
  shows "LENGTH('w) * (length n + length d) + 3 \<le> l"
    "l < 2 ^ 38" "LENGTH('w) dvd l - 191" "191 \<le> l"
    "i < length d \<Longrightarrow> LENGTH('w) * (i + 1) \<le> l - 191 + 128"
    "l + 2 \<le> LENGTH('w) * ((l + 2 + LENGTH('w) - 1) div LENGTH('w))"
    "(l + 2 + LENGTH('w) - 1) div LENGTH('w) + 8 < 2 ^ 32"
proof -
  define M where "M = (length n + length d) * LENGTH('w)"
  define k where "k = (M + 3 - min 191 (M + 3) + (LENGTH('w) - 1)) div LENGTH('w)"
  have B: "LENGTH('w) = 32 \<or> LENGTH('w) = 64" using L by (simp add: wide_word_def)
  have M: "M \<le> 2 ^ 37" using N(2) B by (auto simp: M_def)
  have lk: "l = 191 + k * LENGTH('w)"
    unfolding l k_def using divmod_log2_R_val [OF wide_platform [OF L] M_def] M by simp
  have low: "M + 3 \<le> l" and high: "l \<le> 191 + M + 64"
    unfolding lk using B by (auto simp: k_def)
  show "LENGTH('w) * (length n + length d) + 3 \<le> l" using low by (simp add: M_def mult.commute)
  show "l < 2 ^ 38" using high M by simp
  show "LENGTH('w) dvd l - 191" "191 \<le> l" by (simp_all add: lk)
  show "LENGTH('w) * (i + 1) \<le> l - 191 + 128" if "i < length d"
  proof -
    have "M = length n * LENGTH('w) + length d * LENGTH('w)" by (simp add: M_def algebra_simps)
    moreover have "(i + 1) * LENGTH('w) \<le> length d * LENGTH('w)" using that by (intro mult_le_mono1) simp
    moreover have "1 * LENGTH('w) \<le> length n * LENGTH('w)" using N(1) by (intro mult_le_mono1) linarith
    ultimately have "(i + 1) * LENGTH('w) + LENGTH('w) + 3 \<le> l" using low by linarith
    then show ?thesis using B unfolding lk by auto presburger+
  qed
  show "l + 2 \<le> LENGTH('w) * ((l + 2 + LENGTH('w) - 1) div LENGTH('w))" using B by auto
  show "(l + 2 + LENGTH('w) - 1) div LENGTH('w) + 8 < 2 ^ 32" using B high M N(2) unfolding M_def by auto
qed

text \<open>The value of the approximation, before it is put in place: 20 bits of the reciprocal.\<close>

lemma reciprocal_of_top_bits:
  fixes D P w s Q :: nat and x :: "32 word"
  assumes P: "P = D * 2 ^ 128 div Q" "0 < Q" "2 ^ 127 \<le> P * 2 ^ s" "s \<le> 96"
    and x: "unat x = P * 2 ^ s div 2 ^ 96" and w: "w = unat (recip_approx_32 x)"
  shows "\<bar>int (w * 2 ^ (32 + s) * D) - int (2 ^ 63 * Q)\<bar> * 2 ^ 20 \<le> int (2 ^ 63 * Q)"
proof -
  define X where "X = unat x"
  have ge: "2 ^ 31 \<le> unat x"
  proof -
    have "(2::nat) ^ 127 div 2 ^ 96 \<le> P * 2 ^ s div 2 ^ 96" using P(3) by (rule div_le_mono)
    then show ?thesis unfolding x by simp
  qed
  have "\<bar>real w * real X - 2 ^ 63\<bar> \<le> 2 ^ 43 - 2 ^ 32"
    using recip_approx_32_near [OF ge] unfolding w X_def .
  then have "real (w * X) \<le> real (2 ^ 63 + 2 ^ 43 - 2 ^ 32)" "real (2 ^ 63 + 2 ^ 32) \<le> real (w * X + 2 ^ 43)"
    by (simp_all add: abs_le_iff)
  then have wX: "w * X \<le> 2 ^ 63 + 2 ^ 43 - 2 ^ 32" "2 ^ 63 + 2 ^ 32 \<le> w * X + 2 ^ 43"
    unfolding of_nat_le_iff by simp_all
  have w32: "w < 2 ^ 32" using unat_bound [of "recip_approx_32 x"] by (simp add: w)
  define S T where "S = (2::nat) ^ s" and "T = (2::nat) ^ (96 - s)"
  have ST: "S * T = 2 ^ 96" using P(4) by (simp add: S_def T_def flip: power_add)
  have S: "0 < S" "0 < T" by (simp_all add: S_def T_def)
  have lo: "X * 2 ^ 96 * Q \<le> D * 2 ^ 128 * S"
  proof -
    have "X * 2 ^ 96 \<le> P * S" unfolding X_def x S_def by (rule div_times_less_eq_dividend)
    then have "X * 2 ^ 96 * Q \<le> P * S * Q" by (rule mult_le_mono1)
    also have "P * Q \<le> D * 2 ^ 128" unfolding P(1) by (rule div_times_less_eq_dividend)
    then have "P * S * Q \<le> D * 2 ^ 128 * S" by (simp add: mult.assoc mult.commute [of S])
    finally show ?thesis .
  qed
  have hi: "D * 2 ^ 128 * S \<le> (X + 1) * 2 ^ 96 * Q"
  proof -
    have "P * S < (X + 1) * 2 ^ 96" unfolding X_def x S_def by (simp add: dividend_less_div_times)
    then have "S * P < S * ((X + 1) * T)" using ST by (simp only: mult.commute [of P] mult.left_commute [of S])
    then have "P + 1 \<le> (X + 1) * T" by simp
    then have "(P + 1) * Q \<le> (X + 1) * T * Q" by (rule mult_le_mono1)
    moreover have "D * 2 ^ 128 \<le> (P + 1) * Q"
      using dividend_less_times_div [OF P(2), of "D * 2 ^ 128"] P(1) by (simp add: algebra_simps)
    ultimately have "D * 2 ^ 128 \<le> (X + 1) * T * Q" by linarith
    then have "D * 2 ^ 128 * S \<le> (X + 1) * T * Q * S" by (rule mult_le_mono1)
    also have "(X + 1) * T * Q * S = (X + 1) * (S * T) * Q" by (simp only: ac_simps)
    finally show ?thesis unfolding ST .
  qed
  have W: "w * 2 ^ (32 + s) * D * 2 ^ 96 = w * (D * 2 ^ 128 * S)" by (simp add: S_def power_add algebra_simps)
  have "w * (X * 2 ^ 96 * Q) \<le> w * (D * 2 ^ 128 * S)" "w * (D * 2 ^ 128 * S) \<le> w * ((X + 1) * 2 ^ 96 * Q)"
    using lo hi by (simp_all only: mult_le_mono2)
  then have "w * X * Q * 2 ^ 96 \<le> w * 2 ^ (32 + s) * D * 2 ^ 96" "w * 2 ^ (32 + s) * D * 2 ^ 96 \<le> (w * X + w) * Q * 2 ^ 96"
    unfolding W by (simp_all add: algebra_simps)
  then have b: "w * X * Q \<le> w * 2 ^ (32 + s) * D" "w * 2 ^ (32 + s) * D \<le> (w * X + w) * Q"
    by (simp_all only: mult_le_cancel2) simp_all
  have "(w * X + w) * Q \<le> (2 ^ 63 + 2 ^ 43) * Q" using wX(1) w32 by (intro mult_le_mono1) simp
  moreover have "2 ^ 63 * Q \<le> (w * X + 2 ^ 43) * Q" using wX(2) by (intro mult_le_mono1) simp
  ultimately have "w * 2 ^ (32 + s) * D \<le> 2 ^ 63 * Q + 2 ^ 43 * Q" "2 ^ 63 * Q \<le> w * 2 ^ (32 + s) * D + 2 ^ 43 * Q"
    using b by (simp_all only: add_mult_distrib)
  then have "int (w * 2 ^ (32 + s) * D) \<le> int (2 ^ 63 * Q) + 2 ^ 43 * int Q"
    "int (2 ^ 63 * Q) \<le> int (w * 2 ^ (32 + s) * D) + 2 ^ 43 * int Q"
    by (simp_all only: of_nat_le_iff [symmetric, where ?'a = int] of_nat_add of_nat_mult of_nat_power of_nat_numeral)
  then have "\<bar>int (w * 2 ^ (32 + s) * D) - int (2 ^ 63 * Q)\<bar> \<le> 2 ^ 43 * int Q"
    unfolding abs_le_iff by linarith
  then have "\<bar>int (w * 2 ^ (32 + s) * D) - int (2 ^ 63 * Q)\<bar> * 2 ^ 20 \<le> 2 ^ 43 * int Q * 2 ^ 20"
    by (rule mult_right_mono) simp
  then show ?thesis by simp
qed

lemma initial_reciprocal_ok:
  fixes n d :: "'w::len mp_int"
  assumes L: "wide_word LENGTH('w)" and N: "0 < length n" "length n + length d < 2 ^ 31" and D: "mp_val d \<noteq> 0"
    and l: "l = unat (divmod_log2_R LENGTH('w) (length n) (length d))"
    and rw: "rw = (l + 2 + LENGTH('w) - 1) div LENGTH('w)"
  obtains r where "initial_reciprocal d (of_nat l) rw = Some r" "length r = rw"
    "\<bar>int (mp_val r * mp_val d) - 2 ^ l\<bar> * 2 ^ 20 \<le> 2 ^ l"
proof -
  let ?L = "LENGTH('w)"
  have B: "?L = 32 \<or> ?L = 64" using L by (simp add: wide_word_def)
  note PB = platform_bits [OF wide_platform [OF L]]
  note S = scale_facts [OF L N l, folded rw]
  obtain i hi lo where top: "mp_find_highest_nonzero_word_pair d (64 - ?L) 0 0 0 = (of_nat i, hi, lo)"
    "i < length d" "2 ^ (?L * i) \<le> mp_val d" "mp_val d < 2 ^ (?L * (i + 1))"
    "pair_val hi lo = mp_val d * 2 ^ 128 div 2 ^ (?L * (i + 1))"
    by (rule highest_pair_val [OF PB(3,4) D])
  define Q where "Q = (2::nat) ^ (?L * (i + 1))"
  have six: "BIGNUM_INT_BITS_BITS ?L \<le> 6" by (simp add: BIGNUM_INT_BITS_BITS_def)
  have big: "2 ^ (128 - 2 ^ BIGNUM_INT_BITS_BITS ?L) \<le> pair_val hi lo"
  proof -
    have "2 ^ (128 - ?L) * Q = 2 ^ 128 * 2 ^ (?L * i)"
      using B unfolding Q_def power_add [symmetric] by (intro arg_cong [where f = "\<lambda>n. 2 ^ n"]) auto
    also have "\<dots> \<le> mp_val d * 2 ^ 128" using top(3) by simp
    finally have "2 ^ (128 - ?L) * Q div Q \<le> mp_val d * 2 ^ 128 div Q" by (rule div_le_mono)
    then show ?thesis unfolding top(5) PB(1) by (simp add: Q_def)
  qed
  obtain s hi1 lo1 where up: "shift_up_loop (BIGNUM_INT_BITS_BITS ?L) hi lo 0 = (hi1, lo1, of_nat s)"
    "s < ?L" "pair_val hi1 lo1 = pair_val hi lo * 2 ^ s" "2 ^ 127 \<le> pair_val hi1 lo1"
    using shift_up_loop_val [OF six big, of 0] unfolding PB(1) by auto
  define x where "x = (ucast (drop_bit 32 hi1) :: 32 word)"
  define w where "w = unat (recip_approx_32 x)"
  have s: "s \<le> 63" using up(2) B by auto
  have x: "unat x = pair_val hi lo * 2 ^ s div 2 ^ 96"
  proof -
    have "unat (drop_bit 32 hi1) < 2 ^ 32" using unat_bound [of hi1] by (simp add: unat_drop_bits less_mult_imp_div_less)
    then have "unat x = unat hi1 div 2 ^ 32"
      unfolding x_def unsigned_ucast_eq unat_drop_bits by (simp add: take_bit_nat_eq_self)
    also have "unat hi1 = pair_val hi1 lo1 div 2 ^ 64" using unat_bound [of lo1] by (simp add: pair_val_def)
    also have "\<dots> div 2 ^ 32 = pair_val hi1 lo1 div 2 ^ 96" by (simp flip: div_mult2_eq)
    finally show ?thesis by (simp only: up(3))
  qed
  have near: "\<bar>int (w * 2 ^ (32 + s) * mp_val d) - int (2 ^ 63 * Q)\<bar> * 2 ^ 20 \<le> int (2 ^ 63 * Q)"
    by (rule reciprocal_of_top_bits [OF top(5) [folded Q_def] _ _ _ x w_def]) (use up(3,4) s in \<open>simp_all add: Q_def\<close>)
  have w32: "w < 2 ^ 32" using unat_bound [of "recip_approx_32 x"] by (simp add: w_def)
  have lob: "unat (push_bit 32 (ucast (recip_approx_32 x)) :: 64 word) = w * 2 ^ 32"
  proof -
    have "unat (ucast (recip_approx_32 x) :: 64 word) = w" using w32 unfolding unsigned_ucast_eq w_def
      by (simp add: take_bit_nat_eq_self)
    then show ?thesis using w32 by (simp add: unat_push_bits)
  qed
  have su: "unat (of_nat s :: 64 word) mod 2 ^ BIGNUM_INT_BITS_BITS ?L = s"
    unfolding PB(1) using s up(2) by (simp add: unat_of_nat take_bit_nat_eq_self)
  have "w * 2 ^ 32 * 2 ^ s < 2 ^ 128"
  proof -
    have "w * 2 ^ 32 * 2 ^ s < 2 ^ 64 * 2 ^ s" using w32 by simp
    also have "\<dots> \<le> (2::nat) ^ 128" using s unfolding power_add [symmetric] by (intro power_increasing) auto
    finally show ?thesis .
  qed
  then obtain ahi alo where undo: "shift_back_loop (BIGNUM_INT_BITS_BITS ?L) (of_nat s) 0 (push_bit 32 (ucast (recip_approx_32 x))) = (ahi, alo)"
    "pair_val ahi alo = w * 2 ^ (32 + s)"
    using shift_back_loop_val [OF six, of 0 "push_bit 32 (ucast (recip_approx_32 x))" "of_nat s"]
    unfolding su by (auto simp: pair_val_def lob power_add)
  obtain k where k: "l = 191 + ?L * k" using S(3,4) by (metis dvd_def le_add_diff_inverse)
  define m where "m = k + 128 div ?L - (i + 1)"
  have m: "l - 191 + 128 = ?L * m + ?L * (i + 1)" "l + 128 = 191 + ?L * m + ?L * (i + 1)"
  proof -
    have "?L * (i + 1) \<le> ?L * (k + 128 div ?L)" using S(5) [OF top(2)] k B by auto
    then have "i + 1 \<le> k + 128 div ?L" by (rule mult_le_cancel1 [THEN iffD1, rule_format, OF _ len_gt_0])
    then have "m + (i + 1) = k + 128 div ?L" unfolding m_def by (rule le_add_diff_inverse2)
    then have "?L * m + ?L * (i + 1) = ?L * (k + 128 div ?L)" by (simp only: add_mult_distrib2 [symmetric])
    also have "\<dots> = ?L * k + 128" using B by (auto simp: add_mult_distrib2)
    finally show "l - 191 + 128 = ?L * m + ?L * (i + 1)" "l + 128 = 191 + ?L * m + ?L * (i + 1)" by (simp_all add: k)
  qed
  have mrw: "m < rw"
  proof -
    have "?L * m < ?L * rw" using m(2) S(6) by linarith
    then show ?thesis by (rule mult_less_cancel1 [THEN iffD1, THEN conjunct2])
  qed
  have Lrw: "rw < 2 ^ ?L" using S(7) wide_size [OF L] by linarith
  have bound: "64 div ?L \<le> 2" "?L \<le> 64" using B by auto
  have words: "2 ^ 32 \<le> (2::nat) ^ ?L" by (rule wide_size [OF L])
  have uL: "unat (of_nat ?L :: 64 word) = ?L" using bound(2) by (simp add: unat_of_nat take_bit_nat_eq_self)
  have um: "unat (of_nat (?L * m) :: 64 word) = ?L * m"
    using m(2) S(2) by (simp add: unat_of_nat take_bit_nat_eq_self del: of_nat_mult)
  have um1: "unat (of_nat j :: 64 word) = j" if "j < 2 ^ 33" for j
    using that by (simp add: unat_of_nat take_bit_nat_eq_self)
  have out: "of_nat l - 191 - (of_nat i * of_nat ?L - (128 - of_nat ?L)) = (of_nat (?L * m) :: 64 word)"
  proof -
    have "(of_nat (l + 128) :: 64 word) = of_nat (191 + ?L * m + ?L * (i + 1))" by (simp only: m(2))
    then show ?thesis by (simp add: algebra_simps)
  qed
  have outmod: "of_nat (?L * m) mod of_nat ?L = (0 :: 64 word)"
    using um uL by (simp add: word_unat_eq_iff unat_mod_distrib del: of_nat_mult)
  have outdiv: "of_nat (?L * m) div of_nat ?L = (of_nat m :: 64 word)"
    using um uL um1 [of m] mrw S(7) by (simp add: word_unat_eq_iff unat_div_distrib del: of_nat_mult)
  have next_index: "of_nat m + 64 div of_nat ?L = (of_nat (m + 64 div ?L) :: 64 word)"
    using B by auto
  define r1 :: "'w mp_int" where "r1 = mp_add_integer_into_shifted_by_words rw (replicate rw 0) alo (of_nat m)"
  define r where "r = mp_add_integer_into_shifted_by_words rw r1 ahi (of_nat (m + 64 div ?L))"
  have rw0: "rw \<noteq> 0" using mrw by simp
  have run: "initial_reciprocal d (of_nat l) rw = Some r"
    unfolding initial_reciprocal_def Let_def top(1) split_conv up(1) x_def [symmetric] undo(1) mp_make_sized_def
    using rw0 by (simp only: out outmod outdiv next_index r1_def r_def) simp
  define A where "A = w * 2 ^ (32 + s)"
  have v: "mp_val r = A * 2 ^ (?L * m) mod 2 ^ (?L * rw)" "length r = rw"
  proof -
    have j: "unat (of_nat m :: 64 word) = m" "unat (of_nat (m + 64 div ?L) :: 64 word) = m + 64 div ?L"
      using um1 [of m] um1 [of "m + 64 div ?L"] mrw S(7) bound(1) by simp_all
    have jl: "m < 2 ^ ?L" "m + 64 div ?L < 2 ^ ?L" using mrw S(7) bound(1) words by linarith+
    show "length r = rw" unfolding r_def by (rule add_shifted_val) (use PB(3,4) j jl Lrw in auto)
    have "mp_val r = (mp_val r1 + unat ahi * 2 ^ (?L * (m + 64 div ?L))) mod 2 ^ (?L * rw)"
      unfolding r_def using add_shifted_val(1) [of "of_nat (m + 64 div ?L)" rw r1 ahi] PB(3,4) j jl Lrw by simp
    also have "mp_val r1 = unat alo * 2 ^ (?L * m) mod 2 ^ (?L * rw)"
      unfolding r1_def using add_shifted_val(1) [of "of_nat m" rw "replicate rw 0 :: 'w mp_int" alo] PB(3,4) j jl Lrw by simp
    also have "(unat alo * 2 ^ (?L * m) mod 2 ^ (?L * rw) + unat ahi * 2 ^ (?L * (m + 64 div ?L))) mod 2 ^ (?L * rw) =
        (unat alo * 2 ^ (?L * m) + unat ahi * 2 ^ (?L * (m + 64 div ?L))) mod 2 ^ (?L * rw)" by (rule mod_add_left_eq)
    also have "?L * (m + 64 div ?L) = ?L * m + 64" using B by auto
    also have "unat alo * 2 ^ (?L * m) + unat ahi * 2 ^ (?L * m + 64) = pair_val ahi alo * 2 ^ (?L * m)"
      by (simp add: pair_val_def power_add algebra_simps)
    finally show "mp_val r = A * 2 ^ (?L * m) mod 2 ^ (?L * rw)" unfolding undo(2) A_def .
  qed
  define E where "E = (2::nat) ^ (?L * m)"
  have R: "2 ^ l = 2 ^ 63 * Q * E"
    unfolding Q_def E_def power_add [symmetric] using m(1) S(4) by (intro arg_cong [where f = "\<lambda>n. 2 ^ n"]) simp
  have close: "\<bar>int (A * E * mp_val d) - 2 ^ l\<bar> * 2 ^ 20 \<le> 2 ^ l"
  proof -
    define X where "X = int (A * mp_val d) - int (2 ^ 63 * Q)"
    have "\<bar>X\<bar> * int E * 2 ^ 20 \<le> int (2 ^ 63 * Q) * int E"
      using mult_right_mono [OF near, of "int E"] unfolding A_def X_def by (simp add: ac_simps)
    moreover have "X * int E = int (A * E * mp_val d) - int (2 ^ 63 * Q * E)" by (simp add: X_def algebra_simps)
    then have "\<bar>X\<bar> * int E = \<bar>int (A * E * mp_val d) - int (2 ^ 63 * Q * E)\<bar>" by (metis abs_mult abs_of_nat)
    moreover have "int (2 ^ 63 * Q) * int E = int (2 ^ 63 * Q * E)" by simp
    ultimately have "\<bar>int (A * E * mp_val d) - int (2 ^ 63 * Q * E)\<bar> * 2 ^ 20 \<le> int (2 ^ 63 * Q * E)"
      by simp
    then show ?thesis unfolding R [symmetric] by simp
  qed
  have fits: "A * E < 2 ^ (?L * rw)"
  proof -
    have "a * 2 ^ 20 \<le> b \<Longrightarrow> 0 \<le> a \<Longrightarrow> a \<le> b" for a b :: int by simp
    from this [OF close abs_ge_zero] have "\<bar>int (A * E * mp_val d) - 2 ^ l\<bar> \<le> 2 ^ l" .
    then have "int (A * E * mp_val d) \<le> int (2 * 2 ^ l)" by (simp add: abs_le_iff)
    then have "A * E * mp_val d \<le> 2 * 2 ^ l" by (simp only: of_nat_le_iff)
    moreover have "A * E * 1 \<le> A * E * mp_val d" using D by (intro mult_le_mono2) linarith
    ultimately have "A * E \<le> 2 * 2 ^ l" by linarith
    also have "2 * 2 ^ l < (2::nat) ^ (l + 2)" by (simp add: power_add)
    finally have "A * E < 2 ^ (l + 2)" .
    also have "\<dots> \<le> 2 ^ (?L * rw)" using S(6) by (rule two_power_mono)
    finally show ?thesis .
  qed
  show thesis
    by (rule that [OF run v(2)]) (use v(1) fits close in \<open>simp add: E_def\<close>)
qed

section \<open>The iteration converges\<close>

text \<open>
  \<open>r\<close> approximates \<open>2^l / D\<close>. The error is the one of the comment in the code, \<open>e = r D - 2^l\<close>:
  it has \<open>g\<close> good bits, or is down at the size of \<open>D\<close>, where rounding stops the progress.
\<close>

definition good_reciprocal :: "nat \<Rightarrow> nat \<Rightarrow> nat \<Rightarrow> nat \<Rightarrow> bool" where
  "good_reciprocal D l g r \<longleftrightarrow> r * D \<le> 2 * 2 ^ l \<and>
     (\<bar>int (r * D) - 2 ^ l\<bar> * 2 ^ g \<le> 2 ^ l \<or> \<bar>int (r * D) - 2 ^ l\<bar> \<le> 2 * int D)"

lemma newton_error:
  fixes r D R :: int
  assumes "0 \<le> r" "0 < D" "0 < R" and r': "r' = r * (2 * R - r * D) div R"
  shows "r' * D \<le> R" "R * (R - r' * D) \<le> (r * D - R)\<^sup>2 + R * D"
proof -
  have "r' * R \<le> r * (2 * R - r * D)" "r * (2 * R - r * D) \<le> (r' + 1) * R"
    using div_mult_mod_eq [of "r * (2 * R - r * D)" R] pos_mod_bound [OF assms(3), of "r * (2 * R - r * D)"]
      pos_mod_sign [OF assms(3), of "r * (2 * R - r * D)"] unfolding r' [symmetric] distrib_right by linarith+
  then have "r' * R * D \<le> r * (2 * R - r * D) * D" "r * (2 * R - r * D) * D \<le> (r' + 1) * R * D"
    using assms(2) by (simp_all add: mult_right_mono)
  moreover have "r * (2 * R - r * D) * D = R * R - (r * D - R)\<^sup>2"
    by (simp add: power2_eq_square algebra_simps)
  ultimately have b: "R * (r' * D) \<le> R * R - (r * D - R)\<^sup>2" "R * R - (r * D - R)\<^sup>2 \<le> R * (r' * D) + R * D"
    by (simp_all add: algebra_simps)
  then have "R * (r' * D) \<le> R * R" using zero_le_power2 [of "r * D - R"] by linarith
  then show "r' * D \<le> R" using assms(3) by simp
  show "R * (R - r' * D) \<le> (r * D - R)\<^sup>2 + R * D" using b(2) by (simp add: algebra_simps)
qed

lemma error_squares:
  fixes e e' D R :: int
  assumes "0 \<le> e'" "0 < D" "0 < R" "4 * D \<le> R" "R * e' \<le> e\<^sup>2 + R * D" "1 \<le> g"
    and "\<bar>e\<bar> * 2 ^ g \<le> R \<or> \<bar>e\<bar> \<le> 2 * D"
  shows "e' * 2 ^ (g * 2 - 1) \<le> R \<or> e' \<le> 2 * D"
proof (cases "e\<^sup>2 \<le> R * D")
  case True
  then have "R * e' \<le> R * (2 * D)" using assms(5) by simp
  then show ?thesis using assms(3) by simp
next
  case False
  have "\<not> \<bar>e\<bar> \<le> 2 * D"
  proof
    assume "\<bar>e\<bar> \<le> 2 * D"
    then have "\<bar>e\<bar> \<le> \<bar>2 * D\<bar>" using assms(2) by simp
    then have "e\<^sup>2 \<le> (2 * D)\<^sup>2" by (simp only: abs_le_square_iff)
    also have "\<dots> = (4 * D) * D" by (simp add: power2_eq_square)
    also have "\<dots> \<le> R * D" using assms(2,4) by (intro mult_right_mono) auto
    finally show False using False by simp
  qed
  then have "\<bar>e\<bar> * 2 ^ g \<le> R" using assms(7) by simp
  then have "(\<bar>e\<bar> * 2 ^ g)\<^sup>2 \<le> R\<^sup>2" by (intro power_mono) auto
  then have sq: "e\<^sup>2 * 2 ^ (g * 2) \<le> R * R"
    unfolding power_mult_distrib power2_abs power_mult [symmetric] by (simp only: power2_eq_square)
  have "R * e' \<le> 2 * e\<^sup>2" using False assms(5) by simp
  then have "R * e' * 2 ^ (g * 2 - 1) \<le> 2 * e\<^sup>2 * 2 ^ (g * 2 - 1)" by (rule mult_right_mono) simp
  also have "\<dots> = e\<^sup>2 * 2 ^ (g * 2)"
  proof -
    have "g * 2 = Suc (g * 2 - 1)" using assms(6) by simp
    then have "(2::int) ^ (g * 2) = 2 * 2 ^ (g * 2 - 1)" by (metis power_Suc)
    then show ?thesis by simp
  qed
  finally have "R * (e' * 2 ^ (g * 2 - 1)) \<le> R * R" using sq by (simp add: mult.assoc)
  then show ?thesis using assms(3) by simp
qed

lemma newton_good:
  assumes g: "good_reciprocal D l g r" "1 \<le> g" and D: "0 < D" "4 * D \<le> 2 ^ l"
    and r': "r' = r * (2 * 2 ^ l - r * D) div 2 ^ l"
  shows "good_reciprocal D l (g * 2 - 1) r'" "r' * D \<le> 2 ^ l"
proof -
  define R where "R = (2::int) ^ l"
  have le: "r * D \<le> 2 * 2 ^ l" using g(1) by (simp add: good_reciprocal_def)
  have i: "int r' = int r * (2 * R - int r * int D) div R"
    unfolding r' using le by (simp add: zdiv_int of_nat_diff R_def)
  have 4: "4 * int D \<le> R"
  proof -
    have "int (4 * D) \<le> int (2 ^ l)" using D(2) by (simp only: of_nat_le_iff)
    then show ?thesis by (simp add: R_def)
  qed
  have R: "0 < R" and D0: "0 < int D" using D(1) by (simp_all add: R_def)
  note e = newton_error [OF of_nat_0_le_iff D0 R i]
  have "int (r' * D) \<le> int (2 ^ l)" using e(1) by (simp add: R_def)
  then show le': "r' * D \<le> 2 ^ l" by (simp only: of_nat_le_iff)
  have "\<bar>int r * int D - R\<bar> * 2 ^ g \<le> R \<or> \<bar>int r * int D - R\<bar> \<le> 2 * int D"
    using g(1) by (simp add: good_reciprocal_def R_def)
  from error_squares [OF _ D0 R 4 e(2) g(2) this] e(1)
  have "(R - int r' * int D) * 2 ^ (g * 2 - 1) \<le> R \<or> R - int r' * int D \<le> 2 * int D" by simp
  then show "good_reciprocal D l (g * 2 - 1) r'"
    using le' e(1) by (simp add: good_reciprocal_def R_def abs_if)
qed

lemma mul_into_val:
  fixes x y :: "'w::len mp_int"
  assumes "2 \<le> LENGTH('w)" "0 < m" "0 < length x"
  obtains r where "mp_mul_into m x y = Some r" "length r = m" "mp_val r = mp_val x * mp_val y mod 2 ^ (LENGTH('w) * m)"
proof (rule mul_internal_val [OF assms(1), of m x y "6 * min m (max (length x) (length y))"])
  fix r assume "mp_mul_internal m x y (6 * min m (max (length x) (length y))) = Some r" "length r = m"
    "mp_val r = mp_val x * mp_val y mod 2 ^ (LENGTH('w) * m)"
  moreover from this have "mp_mul_into m x y = Some r"
    using assms by (auto simp: mp_mul_into_def mp_make_sized_def mp_mul_scratchspace_def mp_mul_scratchspace_unary_def mult.commute)
  ultimately show thesis using that by blast
qed simp

lemma two_part_shift:
  fixes x :: "'w::len mp_int"
  assumes "length x \<le> n"
  shows "mp_val (mp_rshift_fixed_into rw (mp_make_alias x (l div LENGTH('w)) n) (l mod LENGTH('w))) =
    mp_val x div 2 ^ l mod 2 ^ (LENGTH('w) * rw)"
proof -
  have "mp_val x div 2 ^ (LENGTH('w) * (l div LENGTH('w))) div 2 ^ (l mod LENGTH('w)) = mp_val x div 2 ^ l"
    unfolding div_mult2_eq [symmetric] power_add [symmetric] by simp
  then show ?thesis
    unfolding mp_rshift_fixed_into_val alias_drop [OF assms] mp_val_drop by (simp add: take_bit_eq_mod drop_bit_eq_div)
qed

lemma newton_step_ok:
  fixes r d two_R :: "'w::len mp_int"
  assumes L: "2 \<le> LENGTH('w)" and r: "length r = rw" "mp_val r * mp_val d \<le> 2 * 2 ^ l" and d: "0 < mp_val d"
    and two: "mp_val two_R = 2 * 2 ^ l" and rw: "l + 2 \<le> LENGTH('w) * rw"
    and sc: "6 * max rw (length d) \<le> sc" "6 * (rw + length d) \<le> sc"
  obtains r' where "newton_step d l two_R sc r = Some r'" "length r' = rw"
    "mp_val r' = mp_val r * (2 * 2 ^ l - mp_val r * mp_val d) div 2 ^ l"
proof -
  let ?R = "(2::nat) ^ l" and ?d = "mp_val d" and ?r = "mp_val r"
  obtain dr where dr: "mp_mul_internal (rw + length d) r d sc = Some dr" "length dr = rw + length d"
    "mp_val dr = ?r * ?d mod 2 ^ (LENGTH('w) * (rw + length d))"
    by (rule mul_internal_val [OF L, of "rw + length d" r d sc]) (use sc r in auto)
  have drv: "mp_val dr = ?r * ?d" using dr(3) product_bound [of r d] r(1) by simp
  define diff where "diff = mp_sub_into (rw + length d) two_R dr"
  have RR: "2 * ?R < 2 ^ (LENGTH('w) * rw)"
  proof -
    have "2 * ?R < 2 ^ (l + 2)" by simp
    also have "\<dots> \<le> 2 ^ (LENGTH('w) * rw)" using rw by (rule two_power_mono)
    finally show ?thesis .
  qed
  also have "\<dots> \<le> 2 ^ (LENGTH('w) * (rw + length d))" by (rule two_power_mono) simp
  finally have diff: "mp_val diff = 2 * ?R - ?r * ?d" "length diff = rw + length d"
    unfolding diff_def using mp_sub_exact [of dr two_R "rw + length d"] r(2) by (simp_all add: drv two)
  obtain pr where pr: "mp_mul_internal (rw + (rw + length d)) r diff sc = Some pr" "length pr = rw + (rw + length d)"
    "mp_val pr = ?r * mp_val diff mod 2 ^ (LENGTH('w) * (rw + (rw + length d)))"
    by (rule mul_internal_val [OF L, of "rw + (rw + length d)" r diff sc]) (use sc r diff(2) in auto)
  have prv: "mp_val pr = ?r * (2 * ?R - ?r * ?d)" using pr(3) product_bound [of r diff] r(1) by (simp add: diff)
  define r' :: "'w mp_int" where "r' = mp_rshift_fixed_into rw (mp_make_alias pr (l div LENGTH('w)) (rw + (rw + length d))) (l mod LENGTH('w))"
  have "newton_step d l two_R sc r = Some r'"
    unfolding newton_step_def Let_def r(1) using dr(1) pr(1) by (simp add: r'_def diff_def max_def)
  moreover have "length r' = rw" by (simp add: r'_def mp_rshift_fixed_into_def Let_def)
  moreover have "mp_val r' = ?r * (2 * ?R - ?r * ?d) div ?R"
  proof -
    have "mp_val r' = ?r * (2 * ?R - ?r * ?d) div ?R mod 2 ^ (LENGTH('w) * rw)"
      unfolding r'_def using two_part_shift [of pr _ rw l] pr(2) by (simp add: prv)
    moreover have "?r * (2 * ?R - ?r * ?d) div ?R < 2 ^ (LENGTH('w) * rw)"
    proof -
      define r'' where "r'' = ?r * (2 * ?R - ?r * ?d) div ?R"
      have "int r'' = int ?r * (2 * int ?R - int ?r * int ?d) div int ?R"
        unfolding r''_def using r(2) by (simp add: zdiv_int of_nat_diff)
      then have "int r'' * int ?d \<le> int ?R" by (rule newton_error(1) [rotated 3]) (use d in auto)
      then have "int (r'' * ?d) \<le> int ?R" by simp
      then have "r'' * ?d \<le> ?R" by (simp only: of_nat_le_iff)
      moreover have "r'' * 1 \<le> r'' * ?d" using d by (intro mult_le_mono2) linarith
      ultimately have "r'' < 2 ^ (LENGTH('w) * rw)" using RR by linarith
      then show ?thesis by (simp only: r''_def)
    qed
    ultimately show ?thesis by simp
  qed
  ultimately show thesis by (rule that)
qed

lemma newton_loop_ok:
  fixes d two_R r :: "'w::len mp_int"
  assumes L: "2 \<le> LENGTH('w)" and d: "0 < mp_val d" "4 * mp_val d \<le> 2 ^ l"
    and two: "mp_val two_R = 2 * 2 ^ l" and rw: "l + 2 \<le> LENGTH('w) * rw"
    and sc: "6 * max rw (length d) \<le> sc" "6 * (rw + length d) \<le> sc"
  shows "length r = rw \<Longrightarrow> 2 \<le> g \<Longrightarrow> good_reciprocal (mp_val d) l g (mp_val r) \<Longrightarrow>
    g < needed \<or> mp_val r * mp_val d \<le> 2 ^ l \<Longrightarrow>
    \<exists>r' g'. newton_loop (newton_step d l two_R sc) g needed r = Some r' \<and> length r' = rw \<and> needed \<le> g' \<and>
      good_reciprocal (mp_val d) l g' (mp_val r') \<and> mp_val r' * mp_val d \<le> 2 ^ l"
proof (induction "needed - g" arbitrary: g r rule: less_induct)
  case less
  show ?case
  proof (cases "g < needed")
    case False
    then show ?thesis
      using less.prems by (subst newton_loop.simps, intro exI [of _ r] exI [of _ g]) auto
  next
    case True
    have "mp_val r * mp_val d \<le> 2 * 2 ^ l" using less.prems(3) by (simp add: good_reciprocal_def)
    from newton_step_ok [OF L less.prems(1) this d(1) two rw sc]
    obtain r1 where r1: "newton_step d l two_R sc r = Some r1" "length r1 = rw"
      "mp_val r1 = mp_val r * (2 * 2 ^ l - mp_val r * mp_val d) div 2 ^ l" by blast
    note good = newton_good [OF less.prems(3) _ d r1(3)]
    have "needed - (g * 2 - 1) < needed - g" using True less.prems(2) by linarith
    from less.hyps [OF this r1(2)] good less.prems(2)
    show ?thesis using True r1(1) by (subst newton_loop.simps) auto
  qed
qed

lemma find_reciprocal_ok:
  fixes n d :: "'w::len mp_int"
  assumes L: "wide_word LENGTH('w)" and N: "0 < length n" "length n + length d < 2 ^ 31" and D: "0 < mp_val d"
    and l: "l = unat (divmod_log2_R LENGTH('w) (length n) (length d))"
  obtains r g where "find_reciprocal n d l = Some r" "0 < length r" "LENGTH('w) * length n + 4 \<le> g"
    "good_reciprocal (mp_val d) l g (mp_val r)" "mp_val r * mp_val d \<le> 2 ^ l"
proof -
  let ?L = "LENGTH('w)"
  define rw where "rw = (l + 2 + ?L - 1) div ?L"
  have B: "?L = 32 \<or> ?L = 64" using L by (simp add: wide_word_def)
  note PB = platform_bits [OF wide_platform [OF L]]
  note S = scale_facts [OF L N l, folded rw_def]
  obtain r0 where r0: "initial_reciprocal d (of_nat l) rw = Some r0" "length r0 = rw"
    "\<bar>int (mp_val r0 * mp_val d) - 2 ^ l\<bar> * 2 ^ 20 \<le> 2 ^ l"
    by (rule initial_reciprocal_ok [OF L N _ l rw_def]) (use D in auto)
  have rw0: "0 < rw" using S(6) by (cases rw) auto
  define two_R :: "'w mp_int" where "two_R = mp_add_integer_into_shifted_by_words rw (replicate rw 0)
    (ucast (push_bit ((l + 1) mod ?L) 1 :: 'w word)) (of_nat ((l + 1) div ?L))"
  have q: "(l + 1) div ?L < rw"
  proof -
    have "?L * ((l + 1) div ?L) \<le> l + 1" by (rule times_div_less_eq_dividend)
    then have "?L * ((l + 1) div ?L) < ?L * rw" using S(6) by linarith
    then show ?thesis by (rule mult_less_cancel1 [THEN iffD1, THEN conjunct2])
  qed
  have two: "mp_val two_R = 2 * 2 ^ l"
  proof -
    have small: "rw < 2 ^ ?L" "(l + 1) div ?L < 2 ^ ?L" using S(7) q wide_size [OF L] by linarith+
    have "(l + 1) div ?L < 2 ^ 64" using S(7) q by simp
    then have j: "unat (of_nat ((l + 1) div ?L) :: 64 word) = (l + 1) div ?L"
      by (simp add: unat_of_nat take_bit_nat_eq_self)
    have "unat (push_bit ((l + 1) mod ?L) 1 :: 'w word) = 2 ^ ((l + 1) mod ?L)"
      using less_exp [of "?L"] unfolding unat_push_bits by (simp add: power_strict_increasing)
    moreover have "unat (ucast (w :: 'w word) :: 64 word) = unat w" for w
    proof -
      have "unat w < 2 ^ 64" using unat_bound [of w] power_increasing [of ?L 64 "2::nat"] PB(4) by linarith
      then show ?thesis unfolding unsigned_ucast_eq by (simp add: take_bit_nat_eq_self)
    qed
    ultimately have u: "unat (ucast (push_bit ((l + 1) mod ?L) 1 :: 'w word) :: 64 word) = 2 ^ ((l + 1) mod ?L)" by simp
    have "(2::nat) ^ ((l + 1) mod ?L) * 2 ^ (?L * ((l + 1) div ?L)) = 2 ^ (l + 1)"
      unfolding power_add [symmetric] by (simp only: mod_mult_div_eq)
    moreover have "(2::nat) ^ (l + 1) < 2 ^ (?L * rw)" using S(6) by (intro power_strict_increasing) auto
    ultimately show ?thesis
      unfolding two_R_def using add_shifted_val(1) [of "of_nat ((l + 1) div ?L)" rw "replicate rw 0 :: 'w mp_int"
        "ucast (push_bit ((l + 1) mod ?L) 1 :: 'w word)"] PB(3,4) small
      by (simp only: j u) simp
  qed
  have d4: "4 * mp_val d \<le> 2 ^ l"
  proof -
    have "mp_val d < 2 ^ (?L * length d)" by (rule mp_val_bound)
    moreover have "(2::nat) ^ (?L * length d + 2) \<le> 2 ^ l"
    proof (rule two_power_mono)
      have "?L * length d \<le> ?L * (length n + length d)" by (rule mult_le_mono2) simp
      then show "?L * length d + 2 \<le> l" using S(1) by linarith
    qed
    ultimately show ?thesis by (simp add: power_add)
  qed
  define sc where "sc = max (mp_mul_scratchspace (rw + length d) rw (length d))
    (mp_mul_scratchspace (rw + (rw + length d)) rw (rw + length d))"
  have sc: "6 * max rw (length d) \<le> sc" "6 * (rw + length d) \<le> sc"
    by (auto simp: sc_def mp_mul_scratchspace_def mp_mul_scratchspace_unary_def min_def max_def)
  have good: "good_reciprocal (mp_val d) l 20 (mp_val r0)"
  proof -
    have "a * 2 ^ 20 \<le> b \<Longrightarrow> 0 \<le> a \<Longrightarrow> a \<le> b" for a b :: int by simp
    from this [OF r0(3) abs_ge_zero] have "int (mp_val r0 * mp_val d) \<le> int (2 * 2 ^ l)" by (simp add: abs_le_iff)
    then have "mp_val r0 * mp_val d \<le> 2 * 2 ^ l" by (simp only: of_nat_le_iff)
    then show ?thesis using r0(3) by (simp add: good_reciprocal_def)
  qed
  have "20 < ?L * length n + 4" using B N(1) by (cases "length n") auto
  then obtain r g where r: "newton_loop (newton_step d l two_R sc) 20 (?L * length n + 4) r0 = Some r" "length r = rw"
    "?L * length n + 4 \<le> g" "good_reciprocal (mp_val d) l g (mp_val r)" "mp_val r * mp_val d \<le> 2 ^ l"
    using newton_loop_ok [OF PB(3) D d4 two S(6) sc r0(2) _ good, of "?L * length n + 4"] by auto
  have "find_reciprocal n d l = Some r"
    unfolding find_reciprocal_def Let_def rw_def [symmetric] r0(1) mp_make_sized_def
    using rw0 r(1) unfolding two_R_def sc_def by (simp add: max_def)
  then show thesis using that r rw0 by blast
qed

section \<open>Quotient and remainder\<close>

text \<open>The estimate of the quotient is the quotient or one less.\<close>

lemma quotient_estimate:
  fixes n D r l :: nat
  assumes g: "good_reciprocal D l g r" "r * D \<le> 2 ^ l" and n: "n < 2 ^ g" "2 * D * n \<le> 2 ^ l" and D: "0 < D"
    and q: "q = r * n div 2 ^ l"
  shows "q * D \<le> n" "n - q * D \<le> D"
proof -
  define R where "R = (2::nat) ^ l"
  have R: "0 < R" by (simp add: R_def)
  have q1: "q * R \<le> r * n" "r * n < (q + 1) * R"
    using R by (simp_all add: q R_def div_times_less_eq_dividend dividend_less_div_times)
  have "q * D * R = q * R * D" by simp
  also have "\<dots> \<le> r * n * D" using q1(1) by (rule mult_le_mono1)
  also have "\<dots> = r * D * n" by simp
  also have "\<dots> \<le> R * n" using g(2) unfolding R_def by (rule mult_le_mono1)
  finally have "q * D * R \<le> n * R" by (simp only: mult.commute)
  then show le: "q * D \<le> n" using R by simp
  define E where "E = R - r * D"
  have E: "E * n \<le> R"
  proof -
    have "int (r * D) \<le> int (2 ^ l)" using g(2) by (simp only: of_nat_le_iff)
    then have i: "\<bar>int (r * D) - 2 ^ l\<bar> = int E" using g(2) by (simp add: E_def R_def of_nat_diff)
    have "int (E * 2 ^ g) \<le> int R \<or> int E \<le> int (2 * D)"
      using g(1) unfolding good_reciprocal_def i by (simp add: R_def)
    then have "E * 2 ^ g \<le> R \<or> E \<le> 2 * D" by (simp only: of_nat_le_iff)
    then show ?thesis
    proof
      assume "E * 2 ^ g \<le> R"
      moreover have "E * n \<le> E * 2 ^ g" using n(1) by (intro mult_le_mono2) simp
      ultimately show ?thesis by linarith
    next
      assume "E \<le> 2 * D"
      then have "E * n \<le> 2 * D * n" by (rule mult_le_mono1)
      then show ?thesis using n(2) unfolding R_def by (rule order.trans)
    qed
  qed
  have "R * n = r * D * n + E * n" using g(2) by (simp add: E_def R_def add_mult_distrib [symmetric])
  also have "\<dots> \<le> r * n * D + R" using E by simp
  also have "\<dots> < (q + 1) * R * D + R" using q1(2) D by simp
  also have "\<dots> = R * (q * D + D + 1)" by (simp add: algebra_simps)
  finally have "n < q * D + D + 1" by (simp only: mult_less_cancel1)
  then show "n - q * D \<le> D" by simp
qed

lemma correct_loop_val:
  fixes d rem :: "'w::len mp_int"
  assumes "length rem = length d" "mp_val rem \<le> mp_val d" "0 < mp_val d"
  obtains rem' where "correct_loop 2 d rem 0 = (rem', if mp_val rem = mp_val d then 1 else 0)"
    "mp_val rem' = (if mp_val rem = mp_val d then 0 else mp_val rem)" "length rem' = length d"
proof -
  define r1 where "r1 = mp_cond_sub_into (length d) rem d (mp_cmp_hs rem d)"
  define r2 where "r2 = mp_cond_sub_into (length d) r1 d (mp_cmp_hs r1 d)"
  have len: "length r1 = length d" "length r2 = length d"
    by (simp_all add: r1_def r2_def mp_cond_sub_into_cases(2))
  have fits: "mp_val x mod 2 ^ (LENGTH('w) * length d) = mp_val x" if "length x = length d" for x :: "'w mp_int"
    using mp_val_bound [of x] that by simp
  have v1: "mp_val r1 = (if mp_val rem = mp_val d then 0 else mp_val rem)"
    using assms(2) mp_sub_exact [of d rem "length d"] mp_val_bound [of rem] fits [OF assms(1)] assms(1)
    unfolding r1_def mp_cond_sub_into_cases(1) mp_cmp_hs_val by simp
  have lt: "\<not> mp_val d \<le> mp_val r1" using v1 assms(2,3) by auto
  have v2: "mp_val r2 = mp_val r1"
    unfolding r2_def mp_cond_sub_into_cases(1) mp_cmp_hs_val using lt fits [OF len(1)] by simp
  have "correct_loop 2 d rem 0 = (r2, if mp_val rem = mp_val d then 1 else 0)"
    using lt assms(2) len(1) unfolding numeral_2_eq_2 correct_loop.simps Let_def assms(1) r1_def [symmetric] len(1) r2_def [symmetric]
    by (auto simp: mp_cmp_hs_val)
  then show thesis using that v1 v2 len(2) by simp
qed

lemma mp_eq_integer_0:
  fixes x :: "'w::len mp_int"
  assumes "2 \<le> LENGTH('w)"
  shows "mp_eq_integer x 0 = (if mp_val x = 0 then 1 else 0)"
proof -
  have "(if s < 64 then ucast (drop_bit s (0 :: 64 word)) else 0) = (0 :: 'w word)" for s by simp
  then have "mp_eq_integer x 0 = 1 XOR normalise_to_1 (fold (\<lambda>i d. d OR x ! i) [0 ..< length x] 0)"
    by (simp only: mp_eq_integer_def Let_def xor.right_neutral)
  moreover have "fold (\<lambda>i d. d OR x ! i) [0 ..< length x] 0 = 0 \<longleftrightarrow> mp_val x = 0"
    by (auto simp: fold_or_0 zero_words mp_word_def)
  ultimately show ?thesis by (simp add: normalise_to_1_val [OF assms])
qed

lemma mp_divmod_ok:
  fixes n d :: "'w::len mp_int"
  assumes L: "wide_word LENGTH('w)" and N: "0 < length n" "length n + length d < 2 ^ 31" and D: "0 < mp_val d"
  obtains q r where "mp_divmod n d = Some (q, r)" "length q = length n" "length r = length d"
    "mp_val q = mp_val n div mp_val d" "mp_val r = mp_val n mod mp_val d"
proof -
  let ?L = "LENGTH('w)" and ?d = "mp_val d" and ?n = "mp_val n"
  define l where "l = unat (divmod_log2_R ?L (length n) (length d))"
  note PB = platform_bits [OF wide_platform [OF L]]
  note S = scale_facts [OF L N l_def]
  obtain r g where r: "find_reciprocal n d l = Some r" "0 < length r" "?L * length n + 4 \<le> g"
    "good_reciprocal ?d l g (mp_val r)" "mp_val r * ?d \<le> 2 ^ l"
    by (rule find_reciprocal_ok [OF L N D l_def])
  have d0: "0 < length d" using D by (cases d) auto
  obtain full where full: "mp_mul r n = Some full" "mp_val full = mp_val r * ?n"
  proof (rule mul_into_val [OF PB(3), of "length r + length n" r n])
    fix f assume f: "mp_mul_into (length r + length n) r n = Some f" "mp_val f = mp_val r * ?n mod 2 ^ (?L * (length r + length n))"
    show thesis
      by (rule that [of f]) (use f product_bound [of r n] r(2) in \<open>simp_all add: mp_mul_def mp_make_sized_def\<close>)
  qed (use r(2) in auto)
  define q where "q = mp_val r * ?n div 2 ^ l"
  define quot where "quot = mp_rshift_fixed_into (length n) (mp_make_alias full (l div ?L) (length full)) (l mod ?L)"
  have ng: "?n < 2 ^ g"
  proof -
    have "?n < 2 ^ (?L * length n)" by (rule mp_val_bound)
    also have "\<dots> \<le> 2 ^ g" using r(3) by (intro two_power_mono) simp
    finally show ?thesis .
  qed
  have dn: "2 * ?d * ?n \<le> 2 ^ l"
  proof -
    have "?d * ?n < 2 ^ (?L * (length d + length n))" by (rule product_bound)
    moreover have "(2::nat) ^ (?L * (length d + length n) + 1) \<le> 2 ^ l"
      using S(1) by (intro two_power_mono) (simp add: add.commute)
    ultimately show ?thesis by (simp add: power_add)
  qed
  note est = quotient_estimate [OF r(4,5) ng dn D q_def]
  have "q * 1 \<le> q * ?d" using D by (intro mult_le_mono2) linarith
  then have qn: "q \<le> ?n" using est(1) by linarith
  have quot: "mp_val quot = q" "length quot = length n"
  proof -
    have "q < 2 ^ (?L * length n)" using qn mp_val_bound [of n] by (rule le_less_trans)
    then show "mp_val quot = q" unfolding quot_def two_part_shift [OF order_refl] by (simp add: full(2) q_def)
  qed (simp add: quot_def mp_rshift_fixed_into_def Let_def)
  obtain p where p: "mp_mul_into (length d) quot d = Some p" "length p = length d"
    "mp_val p = q * ?d mod 2 ^ (?L * length d)"
    by (rule mul_into_val [OF PB(3), of "length d" quot d]) (use d0 N(1) quot in auto)
  define rem where "rem = mp_sub_into (length d) n p"
  have rem: "mp_val rem = ?n - q * ?d" "length rem = length d"
  proof -
    have "?n - q * ?d < 2 ^ (?L * length d)" using est(2) mp_val_bound [of d] by linarith
    then have lt: "int (?n - q * ?d) < int (2 ^ (?L * length d))" by (simp only: of_nat_less_iff)
    have "int (mp_val rem) = (int ?n - int (q * ?d mod 2 ^ (?L * length d))) mod 2 ^ (?L * length d)"
      unfolding rem_def mp_sub_into_val p(3) ..
    also have "\<dots> = (int ?n - int (q * ?d)) mod 2 ^ (?L * length d)"
      by (simp only: of_nat_mod of_nat_power of_nat_numeral mod_diff_right_eq)
    also have "\<dots> = int (?n - q * ?d)" using lt est(1) by (simp add: of_nat_diff del: of_nat_mult)
    finally show "mp_val rem = ?n - q * ?d" by (simp only: of_nat_eq_iff)
  qed (simp add: rem_def)
  define c where "c = (?n - q * ?d = ?d)"
  obtain rem' where rem': "correct_loop 2 d rem 0 = (rem', if c then 1 else 0)"
    "mp_val rem' = (if c then 0 else ?n - q * ?d)" "length rem' = length d"
    by (rule correct_loop_val [OF rem(2) _ D]) (use rem est(2) in \<open>simp_all add: c_def\<close>)
  have split: "?n = (q + (if c then 1 else 0)) * ?d + mp_val rem'" and rd: "mp_val rem' < ?d"
    using est rem'(2) D by (auto simp: c_def)
  have qd: "q + (if c then 1 else 0) = ?n div ?d" "mp_val rem' = ?n mod ?d"
    using split rd by (simp_all add: div_nat_eqI mod_less)
  define quot' where "quot' = mp_add_integer_into (length n) quot (ucast (if c then 1 else 0 :: 32 word))"
  have quot': "mp_val quot' = ?n div ?d" "length quot' = length n"
  proof -
    have "8 \<le> ?L" using L by (auto simp: wide_word_def)
    then have e: "quot' = mp_add_into (length n) quot [ucast (ucast (if c then 1 else 0 :: 32 word) :: 64 word)]"
      unfolding quot'_def by (rule mp_add_integer_into_eq(1))
    have "?n div ?d < 2 ^ (?L * length n)" using div_le_dividend mp_val_bound [of n] by (rule le_less_trans)
    then show "mp_val quot' = ?n div ?d" unfolding e mp_add_into_val quot(1) using qd(1) by (cases c) simp_all
    show "length quot' = length n" by (simp add: e)
  qed
  have "mp_divmod n d = Some (quot', rem')"
  proof -
    have "mp_eq_integer d 0 = 0" "mp_cmp_hs rem' d = 0"
      using D rd by (simp_all add: mp_eq_integer_0 [OF PB(3)] mp_cmp_hs_val)
    then show ?thesis
      unfolding mp_divmod_def Let_def l_def [symmetric] using r(1) full(1) N(1) d0 p(1,2) rem'(1) quot(2) rem(2)
      by (simp add: mp_make_sized_def quot_def [symmetric] rem_def [symmetric] quot'_def)
  qed
  then show thesis using that quot' rem'(3) qd(2) by blast
qed

lemma copy_same:
  fixes x :: "'w::len mp_int"
  shows "mp_val (mp_copy_into (length x) x) = mp_val x" "length (mp_copy_into m x) = m"
  using mp_val_bound [of x] by (simp_all add: mp_copy_into_val take_bit_eq_mod)

lemma mp_div_ok:
  fixes n d :: "'w::len mp_int"
  assumes "wide_word LENGTH('w)" "0 < length n" "length n + length d < 2 ^ 31" "0 < mp_val d"
  obtains q where "mp_div n d = Some q" "length q = length n" "mp_val q = mp_val n div mp_val d"
proof -
  obtain q r where qr: "mp_divmod n d = Some (q, r)" "length q = length n" "mp_val q = mp_val n div mp_val d"
    by (rule mp_divmod_ok [OF assms])
  have "mp_div n d = Some (mp_copy_into (length q) q)"
    using qr(1,2) assms(2) by (simp add: mp_div_def mp_divmod_into_def mp_make_sized_def)
  then show thesis using that copy_same(1) [of q] copy_same(2) [of "length q" q] qr by simp
qed

lemma mp_mod_ok:
  fixes n d :: "'w::len mp_int"
  assumes "wide_word LENGTH('w)" "0 < length n" "length n + length d < 2 ^ 31" "0 < mp_val d"
  obtains r where "mp_mod n d = Some r" "length r = length d" "mp_val r = mp_val n mod mp_val d"
proof -
  obtain q r where qr: "mp_divmod n d = Some (q, r)" "length r = length d" "mp_val r = mp_val n mod mp_val d"
    by (rule mp_divmod_ok [OF assms])
  have "d \<noteq> []" using assms(4) by auto
  then have "mp_mod n d = Some (mp_copy_into (length r) r)"
    using qr(1,2) by (simp add: mp_mod_def mp_divmod_into_def mp_make_sized_def)
  then show thesis using that copy_same(1) [of r] copy_same(2) [of "length r" r] qr by simp
qed

lemma mp_modmul_ok:
  fixes x y m :: "'w::len mp_int"
  assumes L: "wide_word LENGTH('w)" and "0 < length x" "length x + length y + length m < 2 ^ 31" "0 < mp_val m"
  obtains r where "mp_modmul x y m = Some r" "length r = length m" "mp_val r = mp_val x * mp_val y mod mp_val m"
proof -
  note PB = platform_bits [OF wide_platform [OF L]]
  obtain p where p: "mp_mul_into (length x + length y) x y = Some p" "length p = length x + length y"
    "mp_val p = mp_val x * mp_val y mod 2 ^ (LENGTH('w) * (length x + length y))"
    by (rule mul_into_val [OF PB(3), of "length x + length y" x y]) (use assms(2) in auto)
  obtain r where "mp_mod p m = Some r" "length r = length m" "mp_val r = mp_val p mod mp_val m"
    by (rule mp_mod_ok [OF L, of p m]) (use assms p(2) in auto)
  moreover have "mp_mul x y = Some p" using p(1) assms(2) by (simp add: mp_mul_def mp_make_sized_def)
  ultimately show thesis using that p(3) product_bound [of x y] by (simp add: mp_modmul_def)
qed

lemma mp_cond_negate_words:
  fixes x :: "'w::len mp_int"
  shows "fold (\<lambda>i (r, carry). let xword = mp_word x i XOR - ucast yes; (out, carry) = BignumADC 0 xword carry in (r @ [out], carry))
    [i ..< i + n] (r, c) = (case add_words [] x (- 1) (- ucast (yes :: 32 word)) i n c of (out, c') \<Rightarrow> (r @ out, c'))"
proof (induction n arbitrary: i r c)
  case (Suc n)
  have "mp_word ([] :: 'w mp_int) i = 0" by (simp add: mp_word_def)
  then show ?case
    using Suc.IH [of "Suc i"] by (simp add: upt_conv_Cons Let_def case_prod_unfold del: upt_Suc)
qed simp

lemma mp_cond_negate_eq:
  fixes x :: "'w::len mp_int"
  shows "mp_cond_negate n x 1 = mp_sub_into n [] x" "mp_cond_negate n x 0 = mp_add_into n [] x"
  using mp_cond_negate_words [of x 1 0 n "[]" 1] mp_cond_negate_words [of x 0 0 n "[]" 0]
  by (simp_all add: mp_cond_negate_def mp_sub_into_def mp_add_into_def mp_add_into_internal_def mp_add_masked_into_def
      case_prod_unfold)

lemma mp_modadd_sub_ok:
  fixes x y m :: "'w::len mp_int"
  assumes L: "wide_word LENGTH('w)" and x: "0 < length x" and len: "max (length x) (length y) + 1 + length m < 2 ^ 31"
    and m: "0 < mp_val m"
  shows "\<exists>r. mp_modadd x y m = Some r \<and> mp_val r = (mp_val x + mp_val y) mod mp_val m"
    "\<exists>r. mp_modsub x y m = Some r \<and> int (mp_val r) = (int (mp_val x) - int (mp_val y)) mod int (mp_val m)"
proof -
  let ?L = "LENGTH('w)" and ?n = "max (length x) (length y)"
  note PB = platform_bits [OF wide_platform [OF L]]
  have "length (mp_add x y) = ?n + 1" "mp_val (mp_add x y) = mp_val x + mp_val y"
    using mp_add_exact [of x ?n y] by (simp_all add: mp_add_def)
  then show "\<exists>r. mp_modadd x y m = Some r \<and> mp_val r = (mp_val x + mp_val y) mod mp_val m"
    using mp_mod_ok [OF L, of "mp_add x y" m] len m by (auto simp: mp_modadd_def)
  have big: "mp_val z < 2 ^ (?L * ?n)" if "z = x \<or> z = y" for z
  proof -
    have "?L * length z \<le> ?L * ?n" using that by (intro mult_le_mono2) auto
    then show ?thesis using mp_val_bound [of z] two_power_mono [of "?L * length z" "?L * ?n"] by linarith
  qed
  define neg where "neg \<longleftrightarrow> mp_val x \<le> mp_val y"
  define a where "a = (if neg then mp_val y - mp_val x else mp_val x - mp_val y)"
  define diff where "diff = mp_cond_negate ?n (mp_sub_into ?n x y) (mp_cmp_hs y x)"
  have diff: "length diff = ?n" "mp_val diff = a"
  proof -
    show "length diff = ?n" by (cases neg) (simp_all add: diff_def mp_cmp_hs_val neg_def mp_cond_negate_eq)
    show "mp_val diff = a"
    proof (cases neg)
      case True
      have "int (mp_val diff) = (- ((int (mp_val x) - int (mp_val y)) mod 2 ^ (?L * ?n))) mod 2 ^ (?L * ?n)"
        using True by (simp add: diff_def mp_cmp_hs_val neg_def mp_cond_negate_eq mp_sub_into_val)
      also have "\<dots> = int a mod int (2 ^ (?L * ?n))" using True by (simp add: mod_minus_eq a_def neg_def of_nat_diff)
      also have "\<dots> = int (a mod 2 ^ (?L * ?n))" by (rule of_nat_mod [symmetric])
      also have "a mod 2 ^ (?L * ?n) = a" using big [of y] True by (simp add: a_def)
      finally show ?thesis by (simp only: of_nat_eq_iff)
    next
      case False
      then have "mp_val diff = mp_val (mp_sub_into ?n x y) mod 2 ^ (?L * ?n)"
        by (simp add: diff_def mp_cmp_hs_val neg_def mp_cond_negate_eq mp_add_into_val)
      also have "mp_val (mp_sub_into ?n x y) = a" using False mp_sub_exact [of y x ?n] big [of x] by (simp add: a_def neg_def)
      finally show ?thesis using big [of x] False by (simp add: a_def)
    qed
  qed
  obtain r where r: "mp_mod diff m = Some r" "length r = length m" "mp_val r = a mod mp_val m"
    by (rule mp_mod_ok [OF L, of diff m]) (use x len m diff in \<open>simp_all add: less_max_iff_disj\<close>)
  define r1 where "r1 = mp_cond_negate (length m) r (mp_cmp_hs y x)"
  define r2 where "r2 = mp_cond_add_into (length m) r1 m (mp_cmp_hs y x AND NOT (mp_eq_integer r1 0))"
  have "length r1 = length m" by (cases neg) (simp_all add: r1_def mp_cmp_hs_val neg_def mp_cond_negate_eq)
  then have run: "mp_modsub x y m = Some r2"
    using r(1,2) x by (simp add: mp_modsub_def mp_make_sized_def Let_def diff_def [symmetric] r1_def r2_def)
  have mM: "mp_val m < 2 ^ (?L * length m)" by (rule mp_val_bound)
  show "\<exists>r. mp_modsub x y m = Some r \<and> int (mp_val r) = (int (mp_val x) - int (mp_val y)) mod int (mp_val m)"
  proof (intro exI conjI, rule run, cases neg)
    case False
    then have "mp_val r1 = a mod mp_val m"
      using mp_val_bound [of r] by (simp add: r1_def mp_cmp_hs_val neg_def mp_cond_negate_eq mp_add_into_val r)
    then have "mp_val r2 = a mod mp_val m"
      using False mM mod_less_divisor [OF m, of a] by (simp add: r2_def mp_cond_add_into_cases mp_cmp_hs_val neg_def)
    then show "int (mp_val r2) = (int (mp_val x) - int (mp_val y)) mod int (mp_val m)"
      using False by (simp add: a_def neg_def zmod_int of_nat_diff)
  next
    case True
    have v1: "int (mp_val r1) = (- int (a mod mp_val m)) mod 2 ^ (?L * length m)"
      using True by (simp add: r1_def mp_cmp_hs_val neg_def mp_cond_negate_eq mp_sub_into_val r)
    have ra: "int (mp_val x) - int (mp_val y) = - int a" using True by (simp add: a_def neg_def of_nat_diff)
    show "int (mp_val r2) = (int (mp_val x) - int (mp_val y)) mod int (mp_val m)"
    proof (cases "a mod mp_val m = 0")
      case z: True
      then have "mp_val r1 = 0" using v1 by simp
      then have "mp_val r2 = 0"
        by (simp add: r2_def mp_cond_add_into_cases mp_cmp_hs_val mp_eq_integer_0 [OF PB(3)])
      moreover have "int a mod int (mp_val m) = 0" using z by (simp flip: of_nat_mod)
      ultimately show ?thesis unfolding ra by (simp add: zmod_zminus1_eq_if)
    next
      case nz: False
      have lt: "a mod mp_val m < mp_val m" using m by simp
      have v1': "mp_val r1 = 2 ^ (?L * length m) - a mod mp_val m"
      proof -
        have "(- int (a mod mp_val m)) mod int (2 ^ (?L * length m)) = int (2 ^ (?L * length m)) - int (a mod mp_val m)"
          using nz lt mM by (simp only: zmod_zminus1_eq_if flip: of_nat_mod) simp
        then have "int (mp_val r1) = int (2 ^ (?L * length m) - a mod mp_val m)"
          using v1 lt mM by (simp add: of_nat_diff)
        then show ?thesis by (simp only: of_nat_eq_iff)
      qed
      then have "mp_val r1 \<noteq> 0" using lt mM by simp
      then have "mp_val r2 = (mp_val r1 + mp_val m) mod 2 ^ (?L * length m)"
        using True by (simp add: r2_def mp_cond_add_into_cases mp_cmp_hs_val neg_def mp_eq_integer_0 [OF PB(3)])
      also have "mp_val r1 + mp_val m = 2 ^ (?L * length m) + (mp_val m - a mod mp_val m)"
        unfolding v1' using lt mM by simp
      also have "\<dots> mod 2 ^ (?L * length m) = mp_val m - a mod mp_val m" using mM by simp
      finally show ?thesis
        unfolding ra using nz lt by (simp add: zmod_zminus1_eq_if of_nat_diff flip: of_nat_mod)
    qed
  qed
qed

section \<open>Montgomery contexts and modular exponentiation\<close>

lemma copy_whole: "mp_copy_into (length x) x = x"
  by (simp add: mp_copy_into_def Let_def)

lemma monty_new_ok:
  fixes m :: "'w::len mp_int"
  assumes L: "wide_word LENGTH('w)" and m: "odd (mp_val m)" "3 * length m < 2 ^ 31"
  obtains mc where "monty_new m = Some mc" "monty_ok mc" "mc_m mc = m"
proof -
  let ?L = "LENGTH('w)" and ?rw = "length m"
  define R where "R = (2::nat) ^ (?L * ?rw)"
  note PB = platform_bits [OF wide_platform [OF L]]
  have m0: "0 < mp_val m" using m(1) by (auto intro: Nat.gr0I)
  then have rw: "0 < ?rw" by (cases m) auto
  obtain minv where minv: "mp_invert_mod_2to m (?rw * ?L) = Some minv" "length minv = (?rw * ?L + ?L - 1) div ?L"
    "inverts (mp_val m) (mp_val minv) (?rw * ?L)"
    by (rule mp_invert_mod_2to_ok [OF wide_platform [OF L] m(1), of "?rw * ?L"]) (use rw in auto)
  have len: "length minv = ?rw"
    unfolding minv(2) by (rule div_nat_eqI) (use PB(3) in \<open>simp_all add: mult.commute\<close>)
  define minus where "minus = mp_neg_into (length minv) minv"
  have minus: "length minus = ?rw" "(mp_val m * mp_val minus + 1) mod R = 0"
  proof -
    show "length minus = ?rw" by (simp add: minus_def mp_neg_into_def len)
    have "int (mp_val minus) = (- int (mp_val minv)) mod int R"
      by (simp add: minus_def mp_neg_into_def mp_sub_into_val len R_def)
    moreover have "int R dvd int (mp_val m) * int (mp_val minv) - 1"
      using minv(3) by (simp add: inverts_def R_def mult.commute)
    then have "(int (mp_val m) * (- int (mp_val minv)) + 1) mod int R = 0"
      by (simp add: mod_eq_0_iff_dvd dvd_diff_commute)
    ultimately have "(int (mp_val m) * int (mp_val minus) + 1) mod int R = 0"
      by (metis mod_add_left_eq mod_mult_right_eq)
    then have "int ((mp_val m * mp_val minus + 1) mod R) = 0" by (simp add: zmod_int add.commute)
    then show "(mp_val m * mp_val minus + 1) mod R = 0" by (simp only: of_nat_eq_0_iff)
  qed
  define r :: "'w mp_int" where "r = (replicate (?rw + 1) 0)[?rw := 1]"
  have "r = replicate ?rw 0 @ [1]"
    by (rule nth_equalityI) (auto simp: r_def nth_list_update nth_append less_Suc_eq simp del: replicate.simps replicate_Suc)
  then have rv: "mp_val r = R" "length r = ?rw + 1" by (simp_all add: mp_val_append R_def)
  obtain p0 where p0: "mp_mod r m = Some p0" "length p0 = ?rw" "mp_val p0 = R mod mp_val m"
    by (rule mp_mod_ok [OF L, of r m]) (use rv rw m m0 in auto)
  obtain p1 where p1: "mp_modmul p0 p0 m = Some p1" "length p1 = ?rw" "mp_val p1 = mp_val p0 * mp_val p0 mod mp_val m"
    by (rule mp_modmul_ok [OF L, of p0 p0 m]) (use p0 rw m m0 in auto)
  obtain p2 where p2: "mp_modmul p0 p1 m = Some p2" "length p2 = ?rw" "mp_val p2 = mp_val p0 * mp_val p1 mod mp_val m"
    by (rule mp_modmul_ok [OF L, of p0 p1 m]) (use p0 p1 rw m m0 in auto)
  define mc where "mc = \<lparr>mc_m = m, mc_rbits = ?rw * ?L, mc_rw = ?rw, mc_pw = ?rw * 2 + 1,
    mc_minus_minv_mod_r = minus, mc_powers_of_r_mod_m = [p0, p1, p2], mc_scratch = monty_scratch_size ?rw (?rw * 2 + 1)\<rparr>"
  have ps: "monty_powers 2 p0 m p0 = Some [p1, p2]" using p1(1) p2(1) by (simp add: numeral_2_eq_2)
  have sc: "monty_scratch_size ?rw (?rw * 2 + 1) \<noteq> 0" using rw by (simp add: monty_scratch_size_def)
  have new: "monty_new m = Some mc"
    unfolding monty_new_def Let_def mp_make_sized_def copy_whole
    using rw sc minv(1) p0(1) ps by (simp add: mc_def minus_def r_def del: replicate.simps replicate_Suc)
  have three: "(\<forall>j < 3. P j) \<longleftrightarrow> P 0 \<and> P 1 \<and> P (2 :: nat)" for P
    by (auto simp: numeral_3_eq_3 numeral_2_eq_2 less_Suc_eq)
  have "mp_val p1 = R ^ 2 mod mp_val m" "mp_val p2 = R ^ 3 mod mp_val m"
    using p0(3) p1(3) p2(3) by (simp_all add: power2_eq_square power3_eq_cube mod_simps mult.assoc)
  then have "monty_ok mc"
    unfolding monty_ok_def three using rw m(1) minus p0 p1(2) p2(2)
    by (simp add: mc_def R_def numeral_2_eq_2 numeral_3_eq_3)
  then show thesis using that new by (simp add: mc_def)
qed

lemma monty_import_ok:
  fixes mc :: "'w::len MontyContext"
  assumes L: "wide_word LENGTH('w)" and mc: "monty_ok mc" and x: "0 < length x" "length x + 2 * mc_rw mc < 2 ^ 31"
  obtains y where "monty_import mc x = Some y" "represents mc y (mp_val x)"
proof -
  note D = monty_okD [OF mc]
  have p: "length (mc_powers_of_r_mod_m mc ! 0) = mc_rw mc" "mp_val (mc_powers_of_r_mod_m mc ! 0) = monty_r mc mod mp_val (mc_m mc)"
    using mc by (simp_all add: monty_ok_def monty_r_def)
  obtain y where "mp_modmul x (mc_powers_of_r_mod_m mc ! 0) (mc_m mc) = Some y" "length y = mc_rw mc"
    "mp_val y = mp_val x * (monty_r mc mod mp_val (mc_m mc)) mod mp_val (mc_m mc)"
    using mp_modmul_ok [OF L x(1), of "mc_powers_of_r_mod_m mc ! 0" "mc_m mc"] x(2) D(2,10) p by auto
  then show thesis using that by (simp add: monty_import_def represents_def mod_mult_right_eq)
qed

lemma mp_modpow_ok:
  fixes base exponent m :: "'w::len mp_int"
  assumes L: "wide_word LENGTH('w)" and m: "odd (mp_val m)" and base: "0 < length base"
    and len: "length base + 3 * length m < 2 ^ 31"
  obtains r where "mp_modpow base exponent m = Some r" "mp_val r = mp_val base ^ mp_val exponent mod mp_val m"
proof -
  note PB = platform_bits [OF wide_platform [OF L]]
  have m0: "0 < length m" using m by (cases m) auto
  have "m ! 0 AND 1 \<noteq> 0"
  proof
    assume "m ! 0 AND 1 = 0"
    then have "\<not> bit (m ! 0) 0" by (simp add: and_one_eq even_iff_mod_2_eq_zero bit_0)
    moreover have "bit (mp_val m) 0" using m by (simp add: bit_0)
    ultimately show False using m0 by (simp add: mp_val_bit mp_word_def)
  qed
  obtain mc where mc: "monty_new m = Some mc" "monty_ok mc" "mc_m mc = m"
    by (rule monty_new_ok [OF L m]) (use len in auto)
  have rw: "mc_rw mc = length m" using monty_okD(2) [OF mc(2)] mc(3) by simp
  obtain b where b: "monty_import mc base = Some b" "represents mc b (mp_val base)"
    by (rule monty_import_ok [OF L mc(2) base]) (use len rw in auto)
  obtain p where p: "monty_pow mc b exponent = Some p" "represents mc p (mp_val base ^ mp_val exponent)"
    by (rule monty_pow_ok [OF PB(3) mc(2) b(2)])
  obtain r where r: "monty_export mc p = Some r" "mp_val r = mp_val base ^ mp_val exponent mod mp_val m"
    using monty_export_ok [OF PB(3) mc(2) p(2)] mc(3) by metis
  show thesis
    using that r \<open>m ! 0 AND 1 \<noteq> 0\<close> m0 mc(1) b(1) p(1) by (simp add: mp_modpow_def)
qed

section \<open>Properties\<close>

text \<open>
  C34: division is exact. For any numerator and any nonzero denominator \<open>mp_divmod_into\<close> gives the
  quotient and the remainder: the iteration ends, started from an approximation with 20 good bits and
  continued for as many rounds as the error estimate asks for, no intermediate number overflows its
  words, and the final assertion holds. \<open>mp_div\<close>, \<open>mp_mod\<close>, and the modular product, sum
  and difference follow. A zero denominator fails its assertion.
\<close>

theorem mp_division_exact:
  fixes n d x y :: "'w::len mp_int"
  assumes "wide_word LENGTH('w)" "0 < length n" "0 < length x" "length n + length d < 2 ^ 31"
    "length x + length y + length d + 1 < 2 ^ 31" "0 < mp_val d"
  shows "(\<exists>q r. mp_divmod n d = Some (q, r) \<and> mp_val q = mp_val n div mp_val d \<and> mp_val r = mp_val n mod mp_val d) \<and>
    (\<exists>q. mp_div n d = Some q \<and> mp_val q = mp_val n div mp_val d) \<and>
    (\<exists>r. mp_mod n d = Some r \<and> mp_val r = mp_val n mod mp_val d) \<and>
    (\<exists>r. mp_modmul x y d = Some r \<and> mp_val r = mp_val x * mp_val y mod mp_val d) \<and>
    (\<exists>r. mp_modadd x y d = Some r \<and> mp_val r = (mp_val x + mp_val y) mod mp_val d) \<and>
    (\<exists>r. mp_modsub x y d = Some r \<and> int (mp_val r) = (int (mp_val x) - int (mp_val y)) mod int (mp_val d)) \<and>
    mp_divmod n (replicate k 0) = None"
proof -
  have x: "max (length x) (length y) + 1 + length d < 2 ^ 31" "length x + length y + length d < 2 ^ 31"
    using assms(5) by simp_all
  have "mp_eq_integer (replicate k (0 :: 'w word)) 0 = 1"
    using mp_eq_integer_0 [OF platform_bits(3) [OF wide_platform [OF assms(1)]], of "replicate k 0"] by simp
  then have "mp_divmod n (replicate k 0) = None" by (simp add: mp_divmod_def)
  then show ?thesis
    using mp_divmod_ok [OF assms(1,2,4,6)] mp_div_ok [OF assms(1,2,4,6)] mp_mod_ok [OF assms(1,2,4,6)]
      mp_modmul_ok [OF assms(1,3) x(2) assms(6)] mp_modadd_sub_ok [OF assms(1,3) x(1) assms(6)] by metis
qed

theorem mp_division_exact_witness:
  "(\<exists>q r. mp_divmod [5, 6, 7 :: 64 word] [3, 2] = Some (q, r) \<and>
      mp_val q = 64563604257983430653 \<and> mp_val r = 27670116110564327438) \<and>
   (\<exists>r. mp_modsub [1] [2] [3, 2 :: 64 word] = Some r \<and> mp_val r = 36893488147419103234)"
  using mp_division_exact [of "[5, 6, 7 :: 64 word]" "[1]" "[3, 2]" "[2]"] by (simp add: wide_word_def)

lemma mp_modpow_even:
  fixes m :: "'w::len mp_int"
  assumes "even (mp_val m)"
  shows "mp_modpow base exponent m = None"
proof (cases "length m > 0")
  case True
  have "\<not> bit (mp_val m) 0" using assms by (simp add: bit_0)
  then have "even (m ! 0)" using mp_val_bit [of m 0] True by (simp add: mp_word_def bit_0)
  then show ?thesis by (simp add: mp_modpow_def and_one_eq mod_2_eq_odd)
qed (simp add: mp_modpow_def)

text \<open>
  C35: modular exponentiation. For an odd modulus, \<open>mp_modpow\<close> sets up a sound Montgomery
  context with \<open>monty_new\<close> (the inverse of the modulus and the three powers of \<open>r\<close>), and returns
  the base to the power of the exponent, modulo the modulus. For every even one its assertion
  fails.
\<close>

theorem mp_modpow_correct:
  fixes base exponent m :: "'w::len mp_int"
  assumes "wide_word LENGTH('w)" "0 < length base" "length base + 3 * length m < 2 ^ 31"
  shows "if odd (mp_val m)
    then (\<exists>r. mp_modpow base exponent m = Some r \<and> mp_val r = mp_val base ^ mp_val exponent mod mp_val m) \<and>
      (\<exists>mc y. monty_new m = Some mc \<and> monty_ok mc \<and> mc_m mc = m \<and>
        monty_import mc base = Some y \<and> represents mc y (mp_val base))
    else mp_modpow base exponent m = None"
proof (cases "odd (mp_val m)")
  case True
  have len: "3 * length m < 2 ^ 31" using assms(3) by simp
  obtain mc where mc: "monty_new m = Some mc" "monty_ok mc" "mc_m mc = m" by (rule monty_new_ok [OF assms(1) True len])
  have "length base + 2 * mc_rw mc < 2 ^ 31" using monty_okD(2) [OF mc(2)] mc(3) assms(3) by simp
  then obtain y where "monty_import mc base = Some y" "represents mc y (mp_val base)"
    by (rule monty_import_ok [OF assms(1) mc(2) assms(2)])
  then show ?thesis using mp_modpow_ok [OF assms(1) True assms(2,3)] mc True by metis
qed (simp add: mp_modpow_even)

theorem mp_modpow_correct_witness:
  "(\<exists>r. mp_modpow [3, 1 :: 32 word] [2] [0xffff, 77] = Some r \<and> mp_val r = (2 ^ 32 + 3) ^ 2 mod (77 * 2 ^ 32 + 0xffff)) \<and>
   mp_modpow [3, 1 :: 32 word] [2] [6, 77] = None"
proof -
  note mp_modpow_correct [of "[3, 1]" "[0xffff, 77 :: 32 word]" "[2]"]
    mp_modpow_correct [of "[3, 1]" "[6, 77 :: 32 word]" "[2]"]
  moreover have "mp_val [0xffff, 77 :: 32 word] = 77 * 2 ^ 32 + 0xffff" "mp_val [3, 1 :: 32 word] = 2 ^ 32 + 3"
    "mp_val [2 :: 32 word] = 2" "mp_val [6, 77 :: 32 word] = 77 * 2 ^ 32 + 6" by simp_all
  ultimately show ?thesis by (simp only: wide_word_def) auto
qed

end
