(* ===== verification/Spec2Isabelle.thy ===== *)
theory Spec2Isabelle
  imports Tree234 Timing Callback InflateSafe Marshal Telnet Wildcard Conf MpDiv
begin

text \<open>
  A verification library for the C core of PuTTY, the part of this repository under \<open>src/putty-src\<close>.

  \<^bold>\<open>The program.\<close> PuTTY is a terminal client. A session is made of a front end (\<open>windows/\<close>, \<open>unix/\<close>), a
  backend that speaks a protocol (\<open>telnet.c\<close>, the \<open>ssh*.c\<close> family, \<open>raw.c\<close>, \<open>rlogin.c\<close>), the terminal
  emulator, and a layer of utilities all of them use: counted trees, buffer chains, marshalling, the
  configuration store, timers and callbacks, bignums and compression for SSH. The library models the
  utilities, the Telnet backend, the bignum arithmetic below the public-key code, and the compression.
  Other projects of the repository (services and credential providers in C# and C++) are not C core.

  \<^bold>\<open>How the parts interact.\<close> \<open>tree234.c\<close> is the sorted container below the configuration store (\<open>conf.c\<close>) and
  the timers (\<open>timing.c\<close>). A buffer chain (\<open>utils.c\<close>) collects what goes to and comes from the network and
  queues an idempotent callback (\<open>callback.c\<close>) when it grows. Everything that is written in the SSH
  conventions goes through the \<open>BinarySink\<close>/\<open>BinarySource\<close> interface of \<open>marshal.c\<close>: a configuration is saved
  with it, and a bignum is put on the wire with it; a \<open>strbuf\<close> and a buffer chain are sinks. \<open>telnet.c\<close> and
  \<open>sshzlib.c\<close> read a stream that arrives in pieces; both are state machines whose position survives
  between pieces.

  \<^bold>\<open>Theories.\<close> Each theory has the state as a record with the fields of the C struct, one definition per C
  function (its loops as recursive functions), then the invariants and lemmas, and the properties at
  its end. \<open>None\<close> is always where the C program does not go on or has no defined behaviour: a failed
  \<open>assert\<close>, a null or dangling pointer, an index out of bounds, a loop that does not end. So a theorem that
  gives \<open>Some\<close> also says that none of these happens.

    \<^item> \<open>Prelude\<close>: lists addressed by a C \<open>int\<close>, and the rewrite rules for positions.

    \<^item> \<open>Tree234\<close> (\<open>tree234.c\<close>, \<open>tree234.h\<close>): 2-3-4 trees with the subtree counts of the code; insertion by order
      and by position, deletion, lookup by index, the relational and the stepwise search. Invariant
      \<open>tree_inv\<close>: uniform depth, exact counts, sorted. The operations are proved against the list of the
      elements. The locale \<open>ordered_store\<close> states what a client relies on; \<open>t234\<close> is its interpretation.

    \<^item> \<open>Bytes\<close> (accessors of \<open>misc.h\<close>), \<open>Memory\<close> (\<open>memory.c\<close>, the \<open>strbuf\<close> of \<open>utils.c\<close>, with wrapping
      \<open>size_t\<close> sizes), \<open>Bufchain\<close> (the buffer chains of \<open>utils.c\<close>, refining a queue of bytes: \<open>queue_step\<close> is the
      contract, a relation because a prefix may be cut anywhere).

    \<^item> \<open>Marshal\<close> (\<open>marshal.c\<close>, \<open>marshal.h\<close>): all \<open>put_\<close> and \<open>get_\<close> functions. The locale \<open>binary_sink\<close> is what
      a sink promises, interpreted on \<open>strbuf\<close> and buffer chain; messages of typed fields read back as
      they were written, truncation is always noticed, reading never leaves the data.

    \<^item> \<open>Telnet\<close> (\<open>telnet.c\<close>): option negotiation, the reader, subnegotiations and sending. Segment boundaries do
      not matter, data is transparent, the negotiation settles, only known options are agreed to, and an option
      given up for good stays off.

    \<^item> \<open>Wildcard\<close> (\<open>wildcard.c\<close>): the matcher with its fragment search, on memory that ends behind the NUL of
      the wildcard, where any further read is \<open>None\<close>; it is equal to the meaning of a glob, and never reads on.

    \<^item> \<open>Conf\<close> (\<open>conf.c\<close>, \<open>unix/uxmisc.c\<close>): the store as a client of \<open>ordered_store\<close>, refining a finite map; saving
      and loading over \<open>Marshal\<close>; loading of any bytes ends.

    \<^item> \<open>Timing\<close> (\<open>timing.c\<close>): pending timers in a tree whose order depends on the clock. As long as no timer is
      older, or further ahead, than a quarter of the clock's range (\<open>sane\<close>), the order survives every
      reading of the clock. Running is proved for timer functions that schedule and expire while the clock goes on
      (\<open>well_timed\<close>); the loop ends because the multiset of the distances of the timers from the end of the
      clock's window gets smaller (\<open>distances\<close>).

    \<^item> \<open>Callback\<close> (\<open>callback.c\<close>): the linked queue in a heap of cells, refining a first-in first-out queue.

    \<^item> \<open>Mpint\<close>, \<open>MpBits\<close>, \<open>MpMod\<close>, \<open>MpRecip\<close>, \<open>MpDiv\<close> (\<open>mpint.c\<close>, \<open>mpint_i.h\<close>): arithmetic with Karatsuba
      multiplication, bits and wire formats, Montgomery arithmetic, the reciprocal approximation, and
      Newton-Raphson division with what is built on it.

    \<^item> \<open>Lz77\<close>, \<open>Deflate\<close> (\<open>sshzlib.c\<close>, compression): the window with its hash chains and lazy matching, whose
      tokens decode to the data, and the encoder, whose packets are described bit by bit.

    \<^item> \<open>Huffman\<close>, \<open>Canonical\<close>, \<open>Inflate\<close> (\<open>sshzlib.c\<close>, decompression): the multi-level decoding tables, the proof
      that they decode the canonical code of up to \<open>MAXSYMS\<close> lengths that fit into a tree, and the state machine. \<open>Zlib\<close>
      joins both halves: the stream is a sequence of items, a round of the decompressor takes one item, and
      the blocks come back. \<open>InflateSafe\<close> has the invariant of the decompressor on hostile input; \<open>rank\<close>
      counts the bits in hand twice, plus one in the states that may take none, and drops in each round.

  \<^bold>\<open>Bounds.\<close> The loops over data are structural recursion or recursion on a measure; a loop whose end depends on
  an invariant is a \<open>partial_function\<close>, and the theorems show that it returns. Bignum words have any
  length except for the division, whose theorems are for words of 32 and 64 bits (\<open>wide_word\<close>): with
  16-bit words and a numerator of one or two words the index of the first output bit is negative.
  Lengths that take part in \<open>size_t\<close> arithmetic are below \<open>2 ^ 31\<close> words. The division starts from 20 good
  bits (\<open>recip_approx_32_near\<close>) and each iteration doubles them, so the loop that runs while the precision
  is below \<open>log2_R\<close> ends; two final subtractions are enough.

  \<^bold>\<open>Calls back.\<close> What a timer function or a callback does is a list of requests to the module that called it; a
  nested run of the timers or of the callback queue is not one of them.

  \<^bold>\<open>Not modelled.\<close> Memory release has no effect on values and is left out everywhere, as are log messages.
  The platform layers and the dialogs are calls of the operating system and of toolkits. The terminal
  emulator, the SSH packet protocols and layers, the ciphers, hashes and key formats, and SFTP are C core
  that the library does not cover yet; the manifest lists them with the reason.
\<close>

end
